(* ===== verification/Prelude.thy ===== *)
theory Prelude
  imports Main "HOL-Library.AList" "HOL-Library.List_Lexorder" "HOL-Library.Char_ord"
    "HOL-Library.Sublist" "HOL-Library.Multiset"
begin

text \<open>
  Shared vocabulary of the development: Python strings and their methods (\<open>strip\<close>,
  \<open>startswith\<close>, \<open>split\<close>), Python's insertion-ordered dictionaries as association lists,
  fallible results, and the generic interface the stateful components instantiate: a transition
  system with an invariant, and one whose operations never leave a relation.

  A Python \<open>str\<close> is a \<^typ>\<open>string\<close>, one \<^typ>\<open>char\<close> per code point, so the model covers the
  code points below 256. A Python \<open>dict\<close> is an association list with distinct keys, in insertion
  order. A Python \<open>int\<close> is an \<^typ>\<open>int\<close>.
\<close>

section \<open>Collections of rules\<close>

named_theorems inv_intros \<open>preservation lemmas of component invariants\<close>

section \<open>Fallible computations\<close>

fun bind_result :: "'e + 'a \<Rightarrow> ('a \<Rightarrow> 'e + 'b) \<Rightarrow> 'e + 'b" where
  "bind_result (Inl e) f = Inl e"
| "bind_result (Inr x) f = f x"

fun map_result :: "('a \<Rightarrow> 'e + 'b) \<Rightarrow> 'a list \<Rightarrow> 'e + 'b list" where
  "map_result f [] = Inr []"
| "map_result f (x # xs) =
     bind_result (f x) (\<lambda>y. bind_result (map_result f xs) (\<lambda>ys. Inr (y # ys)))"

lemma bind_result_Inr_iff [simp]:
  "bind_result r f = Inr y \<longleftrightarrow> (\<exists>x. r = Inr x \<and> f x = Inr y)"
  by (cases r) auto

lemma bind_result_cong [fundef_cong]:
  assumes "r = r'" and "\<And>x. r' = Inr x \<Longrightarrow> f x = f' x"
  shows "bind_result r f = bind_result r' f'"
  using assms by (cases r') auto

lemma map_result_cong [fundef_cong]:
  assumes "xs = ys" and "\<And>x. x \<in> set ys \<Longrightarrow> f x = g x"
  shows "map_result f xs = map_result g ys"
  unfolding assms(1) using assms(2) by (induction ys) auto

lemma map_result_map:
  assumes "\<And>x. x \<in> set xs \<Longrightarrow> f (g x) = Inr (h x)"
  shows "map_result f (map g xs) = Inr (map h xs)"
  using assms by (induction xs) auto

lemma map_result_all:
  assumes "map_result f xs = Inr ys" and "\<And>x y. x \<in> set xs \<Longrightarrow> f x = Inr y \<Longrightarrow> P y"
  shows "list_all P ys"
  using assms by (induction xs arbitrary: ys) (auto, blast+)

lemma map_result_Inr_length:
  "map_result f xs = Inr ys \<Longrightarrow> length ys = length xs"
  by (induction xs arbitrary: ys) auto

section \<open>Strings\<close>

definition py_isspace :: "char \<Rightarrow> bool" where
  \<comment> \<open>\<open>str.isspace\<close> on the code points below 256\<close>
  "py_isspace c \<longleftrightarrow>
     (let n = of_char c :: nat
      in (9 \<le> n \<and> n \<le> 13) \<or> (28 \<le> n \<and> n \<le> 32) \<or> n = 133 \<or> n = 160)"

definition py_lstrip :: "string \<Rightarrow> string" where
  "py_lstrip s = dropWhile py_isspace s"

definition py_rstrip :: "string \<Rightarrow> string" where
  "py_rstrip s = rev (dropWhile py_isspace (rev s))"

definition py_strip :: "string \<Rightarrow> string" where
  "py_strip s = py_rstrip (py_lstrip s)"

definition startswith :: "string \<Rightarrow> string \<Rightarrow> bool" where
  "startswith s p \<longleftrightarrow> take (length p) s = p"

definition endswith :: "string \<Rightarrow> string \<Rightarrow> bool" where
  "endswith s p \<longleftrightarrow> length p \<le> length s \<and> drop (length s - length p) s = p"

fun text_contains :: "string \<Rightarrow> string \<Rightarrow> bool" where
  \<comment> \<open>\<open>p in s\<close>\<close>
  "text_contains [] p \<longleftrightarrow> p = []"
| "text_contains (c # cs) p \<longleftrightarrow> startswith (c # cs) p \<or> text_contains cs p"

fun split_on :: "char \<Rightarrow> string \<Rightarrow> string list" where
  \<comment> \<open>\<open>s.split(c)\<close> for a one-character separator\<close>
  "split_on c [] = [[]]"
| "split_on c (x # xs) =
     (if x = c then [] # split_on c xs
      else (case split_on c xs of [] \<Rightarrow> [[x]] | w # ws \<Rightarrow> (x # w) # ws))"

fun join_on :: "string \<Rightarrow> string list \<Rightarrow> string" where
  \<comment> \<open>\<open>sep.join(parts)\<close>\<close>
  "join_on sep [] = []"
| "join_on sep [w] = w"
| "join_on sep (w # ws) = w @ sep @ join_on sep ws"

definition nl :: char where
  "nl = CHR 0x0A"

definition backslash :: char where
  "backslash = CHR 0x5C"

fun digits_of_nat :: "nat \<Rightarrow> string" where
  "digits_of_nat n =
     (if n < 10 then [char_of (48 + n)]
      else digits_of_nat (n div 10) @ [char_of (48 + n mod 10)])"

declare digits_of_nat.simps [simp del]

definition str_of_nat :: "nat \<Rightarrow> string" where
  "str_of_nat n = digits_of_nat n"

definition str_of_int :: "int \<Rightarrow> string" where
  "str_of_int i = (if i < 0 then CHR ''-'' # digits_of_nat (nat (- i)) else digits_of_nat (nat i))"

lemma split_on_not_Nil [simp]: "split_on c s \<noteq> []"
  by (induction s) (auto split: list.splits)

lemma split_on_no_sep: "w \<in> set (split_on c s) \<Longrightarrow> c \<notin> set w"
proof (induction s arbitrary: w)
  case (Cons x xs)
  then show ?case by (cases "split_on c xs") (auto split: if_splits)
qed simp

lemma join_split_on: "join_on [c] (split_on c s) = s"
proof (induction s)
  case (Cons x xs)
  then show ?case
    by (cases "split_on c xs"; cases "tl (split_on c xs)") (auto split: if_splits)
qed simp

lemma split_on_id: "c \<notin> set w \<Longrightarrow> split_on c w = [w]"
  by (induction w) auto

lemma split_on_append:
  "c \<notin> set w \<Longrightarrow> split_on c (w @ c # s) = w # split_on c s"
  by (induction w) auto

lemma split_join_on:
  assumes "ws \<noteq> []" and "\<And>w. w \<in> set ws \<Longrightarrow> c \<notin> set w"
  shows "split_on c (join_on [c] ws) = ws"
  using assms by (induction "[c]" ws rule: join_on.induct) (auto simp: split_on_id split_on_append)

lemma dropWhile_idem [simp]: "dropWhile P (dropWhile P xs) = dropWhile P xs"
  by (induction xs) auto

lemma py_rstrip_idem [simp]: "py_rstrip (py_rstrip s) = py_rstrip s"
  by (simp add: py_rstrip_def)

lemma py_lstrip_idem [simp]: "py_lstrip (py_lstrip s) = py_lstrip s"
  by (simp add: py_lstrip_def)

lemma py_rstrip_Nil [simp]: "py_rstrip [] = []"
  by (simp add: py_rstrip_def)

lemma py_lstrip_Nil [simp]: "py_lstrip [] = []"
  by (simp add: py_lstrip_def)

lemma py_strip_Nil [simp]: "py_strip [] = []"
  by (simp add: py_strip_def)

lemma rev_dropWhile_Cons:
  assumes "\<not> P x"
  shows "rev (dropWhile P (rev (x # xs))) = x # rev (dropWhile P (rev xs))"
  using assms by (simp add: dropWhile_append)

lemma py_lstrip_rstrip: "py_lstrip (py_rstrip (py_lstrip s)) = py_rstrip (py_lstrip s)"
proof (cases "py_lstrip s")
  case (Cons x xs)
  then have "\<not> py_isspace x"
    by (metis py_lstrip_def dropWhile_eq_Cons_conv)
  then have "py_rstrip (x # xs) = x # py_rstrip xs"
    unfolding py_rstrip_def by (rule rev_dropWhile_Cons)
  then have "py_lstrip (py_rstrip (x # xs)) = py_rstrip (x # xs)"
    using \<open>\<not> py_isspace x\<close> by (simp add: py_lstrip_def)
  then show ?thesis by (simp add: Cons)
qed simp

lemma py_strip_idem [simp]: "py_strip (py_strip s) = py_strip s"
  unfolding py_strip_def by (simp add: py_lstrip_rstrip)

lemma py_strip_length: "length (py_strip s) \<le> length s"
  unfolding py_strip_def py_rstrip_def py_lstrip_def
  by (metis length_dropWhile_le length_rev order_trans)

lemma digits_of_nat_not_Nil [simp]: "digits_of_nat n \<noteq> []"
  by (subst digits_of_nat.simps) simp

lemma of_char_digit: "d < 10 \<Longrightarrow> of_char (char_of (48 + d)) = (48 + d :: nat)"
  by simp

fun nat_of_digits :: "nat \<Rightarrow> string \<Rightarrow> nat" where
  "nat_of_digits acc [] = acc"
| "nat_of_digits acc (c # cs) = nat_of_digits (10 * acc + (of_char c - 48)) cs"

lemma nat_of_digits_append:
  "nat_of_digits acc (xs @ ys) = nat_of_digits (nat_of_digits acc xs) ys"
  by (induction xs arbitrary: acc) auto

lemma nat_of_digits_of_nat: "nat_of_digits 0 (digits_of_nat n) = n"
proof (induction n rule: digits_of_nat.induct)
  case (1 n)
  show ?case
  proof (cases "n < 10")
    case True
    then show ?thesis by (subst digits_of_nat.simps) simp
  next
    case False
    then have "nat_of_digits 0 (digits_of_nat n) = 10 * (n div 10) + n mod 10"
      using 1 by (subst digits_of_nat.simps) (simp add: nat_of_digits_append)
    then show ?thesis by simp
  qed
qed

lemma str_of_nat_inject [simp]: "str_of_nat m = str_of_nat n \<longleftrightarrow> m = n"
  unfolding str_of_nat_def by (metis nat_of_digits_of_nat)

section \<open>Dictionaries\<close>

type_synonym ('k, 'v) dict = "('k \<times> 'v) list"

abbreviation dict_get :: "('k, 'v) dict \<Rightarrow> 'k \<Rightarrow> 'v option" where
  "dict_get d k \<equiv> map_of d k"

abbreviation dict_set :: "'k \<Rightarrow> 'v \<Rightarrow> ('k, 'v) dict \<Rightarrow> ('k, 'v) dict" where
  "dict_set k v d \<equiv> AList.update k v d"

abbreviation dict_pop :: "'k \<Rightarrow> ('k, 'v) dict \<Rightarrow> ('k, 'v) dict" where
  "dict_pop k d \<equiv> AList.delete k d"

definition move_to_end :: "'k \<Rightarrow> ('k, 'v) dict \<Rightarrow> ('k, 'v) dict" where
  \<comment> \<open>\<open>OrderedDict.move_to_end\<close>\<close>
  "move_to_end k d = (case map_of d k of None \<Rightarrow> d | Some v \<Rightarrow> AList.delete k d @ [(k, v)])"

definition dict_of_list :: "('k \<times> 'v) list \<Rightarrow> ('k, 'v) dict" where
  \<comment> \<open>a dict comprehension: the last binding of a key wins, at the first one's position\<close>
  "dict_of_list ps = fold (\<lambda>(k, v) d. AList.update k v d) ps []"

definition dict_ok :: "('k, 'v) dict \<Rightarrow> bool" where
  "dict_ok d \<longleftrightarrow> distinct (map fst d)"

lemma dict_ok_Nil [simp]: "dict_ok []"
  by (simp add: dict_ok_def)

lemma dict_ok_set [simp]: "dict_ok d \<Longrightarrow> dict_ok (AList.update k v d)"
  by (simp add: dict_ok_def distinct_update)

lemma dict_ok_pop [simp]: "dict_ok d \<Longrightarrow> dict_ok (AList.delete k d)"
  by (simp add: dict_ok_def distinct_delete)

lemma dict_get_set [simp]: "map_of (AList.update k v d) = (map_of d)(k \<mapsto> v)"
  by (rule update_conv')

lemma dict_get_pop [simp]: "map_of (AList.delete k d) = (map_of d)(k := None)"
  by (rule delete_conv')

lemma dict_get_move_to_end [simp]: "map_of (move_to_end k d) = map_of d"
  by (auto simp: move_to_end_def fun_eq_iff map_add_def split: option.splits)

lemma dict_ok_move_to_end [simp]: "dict_ok d \<Longrightarrow> dict_ok (move_to_end k d)"
proof -
  assume "dict_ok d"
  then have "dict_ok (AList.delete k d)" by simp
  moreover have "k \<notin> fst ` set (AList.delete k d)"
    by (rule delete_notin_dom)
  ultimately show ?thesis using \<open>dict_ok d\<close>
    by (auto simp: move_to_end_def dict_ok_def split: option.splits)
qed

lemma length_move_to_end:
  assumes "dict_ok d"
  shows "length (move_to_end k d) = length d"
proof -
  have "set (map fst (move_to_end k d)) = set (map fst d)"
    using dom_map_of_conv_image_fst[of "move_to_end k d"] dom_map_of_conv_image_fst[of d]
    by simp
  then have "card (set (map fst (move_to_end k d))) = card (set (map fst d))"
    by simp
  moreover have "distinct (map fst (move_to_end k d))" "distinct (map fst d)"
    using assms dict_ok_move_to_end[of d k] by (auto simp: dict_ok_def)
  ultimately show ?thesis by (metis distinct_card length_map)
qed

lemma dict_of_list_fold:
  "map_of (fold (\<lambda>(k, v) d. AList.update k v d) ps d) = map_of d ++ map_of (rev ps)"
  by (induction ps arbitrary: d) (auto simp: fun_eq_iff map_add_def split: option.splits)

lemma dict_get_of_list: "map_of (dict_of_list ps) = map_of (rev ps)"
  by (simp add: dict_of_list_def dict_of_list_fold)

lemma dict_keys_of_list [simp]: "fst ` set (dict_of_list ps) = fst ` set ps"
proof -
  have "dom (map_of (dict_of_list ps)) = dom (map_of (rev ps))"
    by (simp add: dict_get_of_list)
  then show ?thesis by (simp add: dom_map_of_conv_image_fst)
qed

lemma dict_ok_of_list [simp]: "dict_ok (dict_of_list ps)"
proof -
  have "dict_ok d \<Longrightarrow> dict_ok (fold (\<lambda>(k, v) d. AList.update k v d) ps d)" for d :: "('a \<times> 'b) list"
    by (induction ps arbitrary: d) auto
  then show ?thesis by (simp add: dict_of_list_def)
qed

lemma filter_same_length: "length (filter P xs) = length xs \<Longrightarrow> filter P xs = xs"
proof (induction xs)
  case (Cons x xs)
  then show ?case using length_filter_le[of P xs] by (cases "P x") auto
qed simp

section \<open>Components as transition systems\<close>

text \<open>
  A component is a state with operations on it. \<open>inv_system\<close> is the interface every stateful
  component offers: its operations, as one function of an operation code, keep its invariant.
  \<open>mono_system\<close> adds a relation no operation leaves, such as a counter that never goes back.
\<close>

locale inv_system =
  fixes step :: "'op \<Rightarrow> 's \<Rightarrow> 's"
    and inv :: "'s \<Rightarrow> bool"
  assumes step_inv: "inv s \<Longrightarrow> inv (step a s)"
begin

lemma run_inv: "inv s \<Longrightarrow> inv (fold step ops s)"
  by (induction ops arbitrary: s) (simp_all add: step_inv)

end

locale mono_system = inv_system step inv
  for step :: "'op \<Rightarrow> 's \<Rightarrow> 's" and inv :: "'s \<Rightarrow> bool" +
  fixes ord :: "'s \<Rightarrow> 's \<Rightarrow> bool"
  assumes ord_refl: "ord s s"
    and ord_trans: "ord s t \<Longrightarrow> ord t u \<Longrightarrow> ord s u"
    and step_ord: "inv s \<Longrightarrow> ord s (step a s)"
begin

lemma run_ord: "inv s \<Longrightarrow> ord s (fold step ops s)"
proof (induction ops arbitrary: s)
  case (Cons a ops)
  then have "ord (step a s) (fold step ops (step a s))" by (simp add: step_inv)
  then show ?case using ord_trans[OF step_ord[OF Cons.prems]] by simp
qed (simp add: ord_refl)

end

section \<open>More string methods\<close>

definition py_isdigit :: "char \<Rightarrow> bool" where
  "py_isdigit c \<longleftrightarrow> (let n = of_char c :: nat in 48 \<le> n \<and> n \<le> 57)"

definition py_isalpha :: "char \<Rightarrow> bool" where
  \<comment> \<open>\<open>str.isalpha\<close> on the code points below 256\<close>
  "py_isalpha c \<longleftrightarrow>
     (let n = of_char c :: nat
      in (65 \<le> n \<and> n \<le> 90) \<or> (97 \<le> n \<and> n \<le> 122) \<or> n = 170 \<or> n = 181 \<or> n = 186
         \<or> (192 \<le> n \<and> n \<noteq> 215 \<and> n \<noteq> 247))"

fun py_digits :: "string \<Rightarrow> nat \<Rightarrow> nat option" where
  \<comment> \<open>digits with single underscores between them, after at least one digit\<close>
  "py_digits [] acc = Some acc"
| "py_digits (c # cs) acc =
     (if py_isdigit c then py_digits cs (10 * acc + (of_char c - 48))
      else if c = CHR ''_'' then
        (case cs of [] \<Rightarrow> None
         | d # ds \<Rightarrow> if py_isdigit d then py_digits ds (10 * acc + (of_char d - 48)) else None)
      else None)"

definition py_nat :: "string \<Rightarrow> nat option" where
  "py_nat s =
     (case s of [] \<Rightarrow> None
      | c # cs \<Rightarrow> if py_isdigit c then py_digits cs (of_char c - 48) else None)"

definition py_int :: "string \<Rightarrow> int option" where
  \<comment> \<open>\<open>int(s)\<close>; \<open>None\<close> is the \<open>ValueError\<close>\<close>
  "py_int s =
     (case py_strip s of
        [] \<Rightarrow> None
      | c # cs \<Rightarrow>
          if c = CHR ''-'' then map_option (\<lambda>n. - int n) (py_nat cs)
          else if c = CHR ''+'' then map_option int (py_nat cs)
          else map_option int (py_nat (c # cs)))"

definition hex_digit :: "nat \<Rightarrow> char" where
  "hex_digit n = (if n < 10 then char_of (48 + n) else char_of (87 + n))"

definition repr_char :: "char \<Rightarrow> char \<Rightarrow> string" where
  \<comment> \<open>one character of \<open>repr(s)\<close> between quotes \<open>q\<close>\<close>
  "repr_char q c =
     (let n = of_char c :: nat
      in if c = q \<or> c = backslash then [backslash, c]
         else if n = 9 then [backslash, CHR ''t'']
         else if n = 10 then [backslash, CHR ''n'']
         else if n = 13 then [backslash, CHR ''r'']
         else if n < 32 \<or> (127 \<le> n \<and> n \<le> 160) \<or> n = 173
         then [backslash, CHR ''x'', hex_digit (n div 16), hex_digit (n mod 16)]
         else [c])"

definition py_repr :: "string \<Rightarrow> string" where
  "py_repr s =
     (let q = (if char_of (39 :: nat) \<in> set s \<and> char_of (34 :: nat) \<notin> set s
               then char_of (34 :: nat) else char_of (39 :: nat))
      in [q] @ concat (map (repr_char q) s) @ [q])"

section \<open>Splitting at a separator\<close>

lemma split_on_append_sep: "split_on c (a @ c # b) = split_on c a @ split_on c b"
  by (induction a) (auto split: list.splits)

lemma py_strip_trimmed:
  assumes "s \<noteq> [] \<Longrightarrow> \<not> py_isspace (hd s) \<and> \<not> py_isspace (last s)"
  shows "py_strip s = s"
proof (cases "s = []")
  case False
  then have "py_lstrip s = s" using assms by (cases s) (simp_all add: py_lstrip_def)
  moreover have "py_rstrip s = s"
    using False assms by (cases s rule: rev_cases) (simp_all add: py_rstrip_def)
  ultimately show ?thesis by (simp add: py_strip_def)
qed simp

lemma py_strip_trimmed_iff:
  "py_strip s = s \<longleftrightarrow> (s = [] \<or> (\<not> py_isspace (hd s) \<and> \<not> py_isspace (last s)))"
proof
  assume eq: "py_strip s = s"
  have "length (py_rstrip t) \<le> length t" for t
    by (metis py_rstrip_def length_dropWhile_le length_rev)
  from this[of "py_lstrip s"] have "length s \<le> length (py_lstrip s)"
    using eq by (simp add: py_strip_def)
  then have l: "py_lstrip s = s"
    unfolding py_lstrip_def by (metis dropWhile_eq_drop length_drop length_dropWhile_le diff_diff_cancel
        drop0 le_antisym diff_self_eq_0 length_takeWhile_le)
  then have r: "dropWhile py_isspace (rev s) = rev s"
    using eq unfolding py_strip_def py_rstrip_def by (metis rev_rev_ident)
  show "s = [] \<or> (\<not> py_isspace (hd s) \<and> \<not> py_isspace (last s))"
  proof (cases "s = []")
    case False
    then have "\<not> py_isspace (hd s)" using l hd_dropWhile[of py_isspace s] by (simp add: py_lstrip_def)
    moreover have "\<not> py_isspace (hd (rev s))" using r hd_dropWhile[of py_isspace "rev s"] False by simp
    ultimately show ?thesis by (simp add: hd_rev)
  qed simp
qed (use py_strip_trimmed in blast)

section \<open>Lower case, and bounded ordered dictionaries\<close>

definition lower_char :: "char \<Rightarrow> char" where
  "lower_char c =
     (let n = of_char c :: nat
      in if (65 \<le> n \<and> n \<le> 90) \<or> (192 \<le> n \<and> n \<le> 222 \<and> n \<noteq> 215) then char_of (n + 32) else c)"

definition py_lower :: "string \<Rightarrow> string" where
  \<comment> \<open>\<open>s.lower()\<close> on the code points below 256\<close>
  "py_lower s = map lower_char s"

definition trim_oldest :: "nat \<Rightarrow> 'a list \<Rightarrow> 'a list" where
  \<comment> \<open>\<open>while len(d) > cap: d.popitem(last=False)\<close>\<close>
  "trim_oldest cap d = drop (length d - cap) d"

lemma length_trim_oldest [simp]: "length (trim_oldest cap d) = min cap (length d)"
  by (auto simp: trim_oldest_def)

lemma trim_oldest_id [simp]: "length d \<le> cap \<Longrightarrow> trim_oldest cap d = d"
  by (simp add: trim_oldest_def)

lemma trim_oldest_snoc: "0 < cap \<Longrightarrow> \<exists>ys. trim_oldest cap (xs @ [x]) = ys @ [x] \<and> set ys \<subseteq> set xs"
  by (rule exI[of _ "drop (length xs + 1 - cap) xs"])
    (auto simp: trim_oldest_def dest: in_set_dropD)

lemma set_trim_oldest: "set (trim_oldest cap d) \<subseteq> set d"
  by (auto simp: trim_oldest_def dest: in_set_dropD)

lemma dict_ok_trim_oldest [simp]: "dict_ok d \<Longrightarrow> dict_ok (trim_oldest cap d)"
  by (simp add: dict_ok_def trim_oldest_def distinct_drop flip: drop_map)

lemma nat_of_digits_str [simp]: "nat_of_digits 0 (str_of_nat n) = n"
  by (simp add: str_of_nat_def nat_of_digits_of_nat)

lemma digits_of_nat_isdigit: "list_all py_isdigit (digits_of_nat n)"
proof (induction n rule: digits_of_nat.induct)
  case (1 n)
  have d: "py_isdigit (char_of (48 + k))" if "k < 10" for k :: nat
    using that by (simp add: py_isdigit_def of_char_digit Let_def)
  show ?case using 1 by (subst digits_of_nat.simps) (simp add: d)
qed

lemma str_of_nat_isdigit [simp]: "list_all py_isdigit (str_of_nat n)" "str_of_nat n \<noteq> []"
  by (simp_all add: str_of_nat_def digits_of_nat_isdigit)

lemma py_isdigit_not_space: "py_isdigit c \<Longrightarrow> \<not> py_isspace c"
  by (auto simp: py_isdigit_def py_isspace_def Let_def)

lemma subseq_set_mono: "subseq xs ys \<Longrightarrow> set xs \<subseteq> set ys"
  by (auto elim: list_emb_set)

lemma subseq_distinct_mono: "subseq xs ys \<Longrightarrow> distinct ys \<Longrightarrow> distinct xs"
proof (induction xs ys rule: list_emb.induct)
  case (list_emb_Cons2 x y xs ys)
  then show ?case using subseq_set_mono[of xs ys] by auto
qed auto

section \<open>Components as step relations\<close>

text \<open>The same interface for a component whose steps are a relation.\<close>

locale inv_relation =
  fixes rel :: "'s \<Rightarrow> 's \<Rightarrow> bool"
    and inv :: "'s \<Rightarrow> bool"
  assumes rel_inv: "rel s t \<Longrightarrow> inv s \<Longrightarrow> inv t"
begin

lemma reachable_inv: "rel\<^sup>*\<^sup>* s t \<Longrightarrow> inv s \<Longrightarrow> inv t"
  by (induction rule: rtranclp_induct) (auto intro: rel_inv)

end

section \<open>Splitting at white space\<close>

fun py_words_acc :: "string \<Rightarrow> string \<Rightarrow> string list" where
  "py_words_acc acc [] = (if acc = [] then [] else [rev acc])"
| "py_words_acc acc (c # cs) =
     (if py_isspace c then (if acc = [] then py_words_acc [] cs else rev acc # py_words_acc [] cs)
      else py_words_acc (c # acc) cs)"

definition py_split :: "string \<Rightarrow> string list" where
  \<comment> \<open>\<open>s.split()\<close>\<close>
  "py_split s = py_words_acc [] s"

section \<open>Rows of a table\<close>

lemma dict_get_map_values: "map_of (map (\<lambda>(k, v). (k, f v)) d) k = map_option f (map_of d k)"
  by (induction d) auto

lemma dict_ok_map_values [simp]: "dict_ok (map (\<lambda>(k, v). (k, f v)) d) \<longleftrightarrow> dict_ok d"
  by (simp add: dict_ok_def case_prod_beta' comp_def)

lemma dict_entries: "dict_ok d \<Longrightarrow> (k, v) \<in> set d \<longleftrightarrow> map_of d k = Some v"
  by (simp add: dict_ok_def)

lemma dict_ok_append: "dict_ok d \<Longrightarrow> map_of d k = None \<Longrightarrow> dict_ok (d @ [(k, v)])"
  by (auto simp: dict_ok_def map_of_eq_None_iff)

lemma list_ex_entries: "dict_ok d \<Longrightarrow> list_ex P d \<longleftrightarrow> (\<exists>k v. map_of d k = Some v \<and> P (k, v))"
  by (auto simp: list_ex_iff dict_entries[symmetric])

end
