(* ===== verification/Json.thy ===== *)
theory Json
  imports Prelude
begin

text \<open>
  JSON values as the program holds them after \<open>json.loads\<close>: the argument objects of tool calls,
  the payloads of content blocks and stored rows. An object keeps its insertion order. A float is
  kept as its \<open>repr\<close> text, which is all the program ever does with one here.
  \<open>json_dumps\<close> is \<open>json.dumps(v, sort_keys=True)\<close> with the default separators and
  \<open>ensure_ascii\<close>.
\<close>

datatype json =
    JNull
  | JBool bool
  | JInt int
  | JFloat string
  | JStr string
  | JList "json list"
  | JObj "(string \<times> json) list"

type_synonym jdict = "(string, json) dict"

definition py_type_name :: "json \<Rightarrow> string" where
  \<comment> \<open>\<open>type(v).__name__\<close>\<close>
  "py_type_name v = (case v of
       JNull \<Rightarrow> ''NoneType'' | JBool _ \<Rightarrow> ''bool'' | JInt _ \<Rightarrow> ''int'' | JFloat _ \<Rightarrow> ''float''
     | JStr _ \<Rightarrow> ''str'' | JList _ \<Rightarrow> ''list'' | JObj _ \<Rightarrow> ''dict'')"

definition json_escape_char :: "char \<Rightarrow> string" where
  "json_escape_char c = (let n = of_char c :: nat in
     if n = 34 then [backslash, c]
     else if n = 92 then [backslash, c]
     else if n = 10 then [backslash, CHR ''n'']
     else if n = 13 then [backslash, CHR ''r'']
     else if n = 9 then [backslash, CHR ''t'']
     else if n = 8 then [backslash, CHR ''b'']
     else if n = 12 then [backslash, CHR ''f'']
     else if 32 \<le> n \<and> n \<le> 126 then [c]
     else [backslash, CHR ''u'', CHR ''0'', CHR ''0'', hex_digit (n div 16), hex_digit (n mod 16)])"

definition json_quote :: "string \<Rightarrow> string" where
  "json_quote s = [char_of (34 :: nat)] @ concat (map json_escape_char s) @ [char_of (34 :: nat)]"

fun json_dumps :: "json \<Rightarrow> string" where
  "json_dumps JNull = ''null''"
| "json_dumps (JBool b) = (if b then ''true'' else ''false'')"
| "json_dumps (JInt i) = str_of_int i"
| "json_dumps (JFloat r) = r"
| "json_dumps (JStr s) = json_quote s"
| "json_dumps (JList vs) = ''['' @ join_on '', '' (map json_dumps vs) @ '']''"
| "json_dumps (JObj ps) =
     ''{'' @ join_on '', '' (map (\<lambda>(k, t). json_quote k @ '': '' @ t)
       (sort_key fst (map (\<lambda>(k, v). (k, json_dumps v)) ps))) @ ''}''"

definition json_truthy :: "json \<Rightarrow> bool" where
  \<comment> \<open>Python's \<open>bool(v)\<close>; a float is false when its \<open>repr\<close> is a zero\<close>
  "json_truthy v = (case v of
       JNull \<Rightarrow> False | JBool b \<Rightarrow> b | JInt i \<Rightarrow> i \<noteq> 0
     | JFloat r \<Rightarrow> r \<noteq> ''0.0'' \<and> r \<noteq> ''-0.0''
     | JStr s \<Rightarrow> s \<noteq> [] | JList vs \<Rightarrow> vs \<noteq> [] | JObj ps \<Rightarrow> ps \<noteq> [])"

text \<open>
  The text does not depend on the order in which the keys of the outer object were inserted.
\<close>

lemma sort_key_fst_unique:
  assumes "mset xs = mset ys" and "distinct (map fst xs)"
  shows "sort_key fst xs = sort_key fst ys"
proof (rule properties_for_sort_key)
  show "mset (sort_key fst ys) = mset xs" using assms(1) by simp
  show "sorted (map fst (sort_key fst ys))" by simp
  fix k assume "k \<in> set (sort_key fst ys)"
  have one: "filter (\<lambda>x. fst k = fst x) zs = [k]"
    if "mset zs = mset xs" "k \<in> set zs" for zs
  proof -
    have "distinct (map fst zs)"
      using that(1) assms(2) by (metis mset_eq_imp_distinct_iff mset_map)
    then show ?thesis using that(2)
      by (induction zs) (auto simp: filter_empty_conv rev_image_eqI)
  qed
  have "k \<in> set xs" using \<open>k \<in> set (sort_key fst ys)\<close> assms(1)
    by (metis mset_eq_setD set_sort)
  then show "filter (\<lambda>x. fst k = fst x) (sort_key fst ys) = filter (\<lambda>x. fst k = fst x) xs"
    using one[of "sort_key fst ys"] one[of xs] \<open>k \<in> set (sort_key fst ys)\<close> assms(1) by simp
qed

lemma json_dumps_key_order:
  assumes "mset ps = mset qs" and "dict_ok ps"
  shows "json_dumps (JObj ps) = json_dumps (JObj qs)"
proof -
  let ?f = "\<lambda>(k, v). (k, json_dumps v)"
  have fst: "fst \<circ> ?f = fst" by (auto simp: fun_eq_iff)
  have "mset (map ?f ps) = mset (map ?f qs)" using assms(1) by (simp add: mset_map)
  moreover have "distinct (map fst (map ?f ps))"
    using assms(2) by (simp add: dict_ok_def fst)
  ultimately have "sort_key fst (map ?f ps) = sort_key fst (map ?f qs)"
    by (rule sort_key_fst_unique)
  then show ?thesis by simp
qed

section \<open>Python's text of a JSON value\<close>

fun py_repr_json :: "json \<Rightarrow> string" where
  "py_repr_json JNull = ''None''"
| "py_repr_json (JBool b) = (if b then ''True'' else ''False'')"
| "py_repr_json (JInt i) = str_of_int i"
| "py_repr_json (JFloat r) = r"
| "py_repr_json (JStr s) = py_repr s"
| "py_repr_json (JList vs) = ''['' @ join_on '', '' (map py_repr_json vs) @ '']''"
| "py_repr_json (JObj ps) =
     ''{'' @ join_on '', '' (map (\<lambda>(k, v). py_repr k @ '': '' @ py_repr_json v) ps) @ ''}''"

definition py_str_json :: "json \<Rightarrow> string" where
  \<comment> \<open>\<open>str(v)\<close>\<close>
  "py_str_json v = (case v of JStr s \<Rightarrow> s | _ \<Rightarrow> py_repr_json v)"

definition str_or_empty :: "json option \<Rightarrow> string" where
  \<comment> \<open>\<open>str(d.get(k) or "")\<close>\<close>
  "str_or_empty v =
     (case v of None \<Rightarrow> [] | Some j \<Rightarrow> if json_truthy j then py_str_json j else [])"

lemma str_or_empty_JStr [simp]: "str_or_empty (Some (JStr s)) = s"
  by (simp add: str_or_empty_def json_truthy_def py_str_json_def)

end
