(* ===== verification/Content_Blocks.thy ===== *)
theory Content_Blocks
  imports Json
begin

text \<open>
  The typed content blocks of \<open>core/types/content_blocks.py\<close> and the \<open>Message\<close> of
  \<open>core/llm/provider.py\<close>: the closed variant set, the field parsers, one writer and one reader
  per variant and the dispatch on the \<open>type\<close> tag. A \<open>ValueError\<close> of the readers is an
  \<open>Inl\<close>. The interface \<open>serde\<close> states what a writer and a reader promise each other.
\<close>

section \<open>The blocks\<close>

datatype serde_error =
    MissingField string string
  | WrongType string string string
  | UnknownBlockType "json option"
  | UnknownActionType string
  | InvalidNotificationType string
  | InvalidRole "json option"
  | ContentNotList
  | ElementNotObject

datatype action_required_data =
    ToolConfirmationAction (tca_id: string) (tca_tool_name: string) (tca_arguments: jdict)
      (tca_prompt: "string option")
  | ElicitationAction (ea_id: string) (ea_message: string) (ea_requested_schema: jdict)
  | ElicitationResponseAction (era_id: string) (era_user_data: jdict)

datatype content_block =
    Text (txt_text: string)
  | Image (img_mime_type: string) (img_data: string) (img_metadata: "jdict option")
  | File (file_mime_type: string) (file_data: string) (file_metadata: "jdict option")
  | AttachmentRef (ar_attachment_id: string) (ar_mime_type: string) (ar_metadata: "jdict option")
  | AttachmentDescriptor (ad_attachment_id: string) (ad_mime_type: string)
      (ad_description: string) (ad_metadata: "jdict option")
  | ToolRequest (treq_id: string) (treq_name: string) (treq_args: json)
      (treq_parse_error: "string option") (treq_metadata: "jdict option")
  | ToolResponse (tres_id: string) (tres_tool_name: string) (tres_result: "content_block list")
      (tres_is_error: bool)
  | ToolConfirmationRequest (tcr_id: string) (tcr_tool_name: string) (tcr_arguments: jdict)
      (tcr_prompt: "string option")
  | FrontendToolRequest (ftr_id: string) (ftr_name: string) (ftr_args: jdict)
      (ftr_parse_error: "string option")
  | Thinking (th_thinking: string) (th_signature: string)
  | RedactedThinking (rt_data: string)
  | SystemNotification (sn_notification_type: string) (sn_msg: string) (sn_data: "jdict option")
  | ActionRequired (act_data: action_required_data)

section \<open>Field parsers\<close>

definition drop_none :: "(string \<times> json) list \<Rightarrow> jdict" where
  "drop_none kvs = filter (\<lambda>(k, v). v \<noteq> JNull) kvs"

definition require_str :: "jdict \<Rightarrow> string \<Rightarrow> string \<Rightarrow> serde_error + string" where
  "require_str d key ctx = (case dict_get d key of
       None \<Rightarrow> Inl (MissingField ctx key)
     | Some (JStr s) \<Rightarrow> Inr s
     | Some v \<Rightarrow> Inl (WrongType ctx key (py_type_name v)))"

definition optional_str :: "jdict \<Rightarrow> string \<Rightarrow> serde_error + string option" where
  "optional_str d key = (case dict_get d key of
       None \<Rightarrow> Inr None
     | Some JNull \<Rightarrow> Inr None
     | Some (JStr s) \<Rightarrow> Inr (Some s)
     | Some v \<Rightarrow> Inl (WrongType [] key (py_type_name v)))"

definition require_dict :: "jdict \<Rightarrow> string \<Rightarrow> string \<Rightarrow> serde_error + jdict" where
  "require_dict d key ctx = (case dict_get d key of
       None \<Rightarrow> Inl (MissingField ctx key)
     | Some (JObj ps) \<Rightarrow> Inr ps
     | Some v \<Rightarrow> Inl (WrongType ctx key (py_type_name v)))"

definition optional_dict :: "jdict \<Rightarrow> string \<Rightarrow> string \<Rightarrow> serde_error + jdict option" where
  "optional_dict d key ctx = (case dict_get d key of
       None \<Rightarrow> Inr None
     | Some JNull \<Rightarrow> Inr None
     | Some (JObj ps) \<Rightarrow> Inr (Some ps)
     | Some v \<Rightarrow> Inl (WrongType ctx key (py_type_name v)))"

definition require_bool :: "jdict \<Rightarrow> string \<Rightarrow> string \<Rightarrow> serde_error + bool" where
  "require_bool d key ctx = (case dict_get d key of
       None \<Rightarrow> Inl (MissingField ctx key)
     | Some (JBool b) \<Rightarrow> Inr b
     | Some v \<Rightarrow> Inl (WrongType ctx key (py_type_name v)))"

definition parse_tool_response_is_error :: "jdict \<Rightarrow> string \<Rightarrow> serde_error + bool" where
  "parse_tool_response_is_error d ctx = (case dict_get d ''isError'' of
       None \<Rightarrow> Inr False
     | Some JNull \<Rightarrow> Inr False
     | Some _ \<Rightarrow> require_bool d ''isError'' ctx)"

definition require_args_dict :: "jdict \<Rightarrow> string \<Rightarrow> string \<Rightarrow> serde_error + jdict" where
  "require_args_dict d key ctx = require_dict d key ctx"

definition opt_str :: "string option \<Rightarrow> json" where
  "opt_str x = (case x of None \<Rightarrow> JNull | Some s \<Rightarrow> JStr s)"

definition opt_dict :: "jdict option \<Rightarrow> json" where
  "opt_dict x = (case x of None \<Rightarrow> JNull | Some ps \<Rightarrow> JObj ps)"

section \<open>Action payloads\<close>

definition action_data_from_mapping :: "jdict \<Rightarrow> serde_error + action_required_data" where
  "action_data_from_mapping d =
     bind_result (require_str d ''actionType'' ''ActionRequired.data'') (\<lambda>action_type.
     if action_type = ''toolConfirmation'' then
       bind_result (require_str d ''id'' ''ActionRequired.data.toolConfirmation'') (\<lambda>i.
       bind_result (require_str d ''toolName'' ''ActionRequired.data.toolConfirmation'') (\<lambda>n.
       bind_result (require_args_dict d ''arguments'' ''ActionRequired.data.toolConfirmation'') (\<lambda>a.
       bind_result (optional_str d ''prompt'') (\<lambda>p.
       Inr (ToolConfirmationAction i n a p)))))
     else if action_type = ''elicitation'' then
       bind_result (require_str d ''id'' ''ActionRequired.data.elicitation'') (\<lambda>i.
       bind_result (require_str d ''message'' ''ActionRequired.data.elicitation'') (\<lambda>m.
       bind_result (require_dict d ''requestedSchema'' ''ActionRequired.data.elicitation'') (\<lambda>s.
       Inr (ElicitationAction i m s))))
     else if action_type = ''elicitationResponse'' then
       bind_result (require_str d ''id'' ''ActionRequired.data.elicitationResponse'') (\<lambda>i.
       bind_result (require_dict d ''userData'' ''ActionRequired.data.elicitationResponse'') (\<lambda>u.
       Inr (ElicitationResponseAction i u)))
     else Inl (UnknownActionType action_type))"

fun action_data_to_dict :: "action_required_data \<Rightarrow> jdict" where
  "action_data_to_dict (ToolConfirmationAction i n a p) = drop_none
     [(''actionType'', JStr ''toolConfirmation''), (''id'', JStr i), (''toolName'', JStr n),
      (''arguments'', JObj a), (''prompt'', opt_str p)]"
| "action_data_to_dict (ElicitationAction i m s) =
     [(''actionType'', JStr ''elicitation''), (''id'', JStr i), (''message'', JStr m),
      (''requestedSchema'', JObj s)]"
| "action_data_to_dict (ElicitationResponseAction i u) =
     [(''actionType'', JStr ''elicitationResponse''), (''id'', JStr i), (''userData'', JObj u)]"

definition system_notification_types :: "string list" where
  "system_notification_types =
     [''thinkingMessage'', ''inlineMessage'', ''creditsExhausted'', ''verifierVerdict'']"

definition notification_type_from_wire :: "jdict \<Rightarrow> string \<Rightarrow> serde_error + string" where
  "notification_type_from_wire d ctx =
     bind_result (require_str d ''notificationType'' ctx) (\<lambda>raw.
     if raw \<notin> set system_notification_types then Inl (InvalidNotificationType raw) else Inr raw)"

section \<open>One writer and one reader per variant\<close>

definition text_to_dict :: "string \<Rightarrow> jdict" where
  "text_to_dict t = [(''type'', JStr ''text''), (''text'', JStr t)]"

definition text_from_payload :: "jdict \<Rightarrow> serde_error + content_block" where
  "text_from_payload d = bind_result (require_str d ''text'' ''Text'') (\<lambda>t. Inr (Text t))"

definition image_to_dict :: "string \<Rightarrow> string \<Rightarrow> jdict option \<Rightarrow> jdict" where
  "image_to_dict mime dat meta = drop_none
     [(''type'', JStr ''image''), (''mimeType'', JStr mime), (''data'', JStr dat),
      (''metadata'', opt_dict meta)]"

definition image_from_payload :: "jdict \<Rightarrow> serde_error + content_block" where
  "image_from_payload d =
     bind_result (require_str d ''mimeType'' ''Image'') (\<lambda>mime.
     bind_result (require_str d ''data'' ''Image'') (\<lambda>dat.
     bind_result (optional_dict d ''metadata'' ''Image'') (\<lambda>meta.
     Inr (Image mime dat meta))))"

definition file_to_dict :: "string \<Rightarrow> string \<Rightarrow> jdict option \<Rightarrow> jdict" where
  "file_to_dict mime dat meta = drop_none
     [(''type'', JStr ''file''), (''mimeType'', JStr mime), (''data'', JStr dat),
      (''metadata'', opt_dict meta)]"

definition file_from_payload :: "jdict \<Rightarrow> serde_error + content_block" where
  "file_from_payload d =
     bind_result (require_str d ''mimeType'' ''File'') (\<lambda>mime.
     bind_result (require_str d ''data'' ''File'') (\<lambda>dat.
     bind_result (optional_dict d ''metadata'' ''File'') (\<lambda>meta.
     Inr (File mime dat meta))))"

definition attachment_ref_to_dict :: "string \<Rightarrow> string \<Rightarrow> jdict option \<Rightarrow> jdict" where
  "attachment_ref_to_dict aid mime meta = drop_none
     [(''type'', JStr ''attachmentRef''), (''attachmentId'', JStr aid), (''mimeType'', JStr mime),
      (''metadata'', opt_dict meta)]"

definition attachment_ref_from_payload :: "jdict \<Rightarrow> serde_error + content_block" where
  "attachment_ref_from_payload d =
     bind_result (require_str d ''attachmentId'' ''AttachmentRef'') (\<lambda>aid.
     bind_result (require_str d ''mimeType'' ''AttachmentRef'') (\<lambda>mime.
     bind_result (optional_dict d ''metadata'' ''AttachmentRef'') (\<lambda>meta.
     Inr (AttachmentRef aid mime meta))))"

definition attachment_descriptor_to_dict ::
    "string \<Rightarrow> string \<Rightarrow> string \<Rightarrow> jdict option \<Rightarrow> jdict" where
  "attachment_descriptor_to_dict aid mime desc meta = drop_none
     [(''type'', JStr ''attachmentDescriptor''), (''attachmentId'', JStr aid),
      (''mimeType'', JStr mime), (''description'', JStr desc), (''metadata'', opt_dict meta)]"

definition attachment_descriptor_from_payload :: "jdict \<Rightarrow> serde_error + content_block" where
  "attachment_descriptor_from_payload d =
     bind_result (require_str d ''attachmentId'' ''AttachmentDescriptor'') (\<lambda>aid.
     bind_result (require_str d ''mimeType'' ''AttachmentDescriptor'') (\<lambda>mime.
     bind_result (require_str d ''description'' ''AttachmentDescriptor'') (\<lambda>desc.
     bind_result (optional_dict d ''metadata'' ''AttachmentDescriptor'') (\<lambda>meta.
     Inr (AttachmentDescriptor aid mime desc meta)))))"

definition tool_request_to_dict ::
    "string \<Rightarrow> string \<Rightarrow> json \<Rightarrow> string option \<Rightarrow> jdict option \<Rightarrow> jdict" where
  "tool_request_to_dict i n args perr meta =
     (let meta' = (case meta of Some [] \<Rightarrow> None | _ \<Rightarrow> meta)
      in drop_none
        [(''type'', JStr ''toolRequest''), (''id'', JStr i), (''name'', JStr n), (''args'', args),
         (''parseError'', opt_str perr), (''metadata'', opt_dict meta')])"

definition tool_request_from_payload :: "jdict \<Rightarrow> serde_error + content_block" where
  "tool_request_from_payload d =
     bind_result (require_str d ''id'' ''ToolRequest'') (\<lambda>i.
     bind_result (require_str d ''name'' ''ToolRequest'') (\<lambda>n.
     bind_result (require_args_dict d ''args'' ''ToolRequest'') (\<lambda>args.
     bind_result (optional_str d ''parseError'') (\<lambda>perr.
     bind_result (optional_dict d ''metadata'' ''ToolRequest'') (\<lambda>meta.
     Inr (ToolRequest i n (JObj args) perr meta))))))"

definition tool_response_to_dict :: "string \<Rightarrow> string \<Rightarrow> jdict list \<Rightarrow> bool \<Rightarrow> jdict" where
  "tool_response_to_dict i n results err =
     [(''type'', JStr ''toolResponse''), (''id'', JStr i), (''toolName'', JStr n),
      (''result'', JList (map JObj results)), (''isError'', JBool err)]"

definition tool_confirmation_request_to_dict ::
    "string \<Rightarrow> string \<Rightarrow> jdict \<Rightarrow> string option \<Rightarrow> jdict" where
  "tool_confirmation_request_to_dict i n args prompt = drop_none
     [(''type'', JStr ''toolConfirmationRequest''), (''id'', JStr i), (''toolName'', JStr n),
      (''arguments'', JObj args), (''prompt'', opt_str prompt)]"

definition tool_confirmation_request_from_payload :: "jdict \<Rightarrow> serde_error + content_block" where
  "tool_confirmation_request_from_payload d =
     bind_result (require_str d ''id'' ''ToolConfirmationRequest'') (\<lambda>i.
     bind_result (require_str d ''toolName'' ''ToolConfirmationRequest'') (\<lambda>n.
     bind_result (require_args_dict d ''arguments'' ''ToolConfirmationRequest'') (\<lambda>args.
     bind_result (optional_str d ''prompt'') (\<lambda>prompt.
     Inr (ToolConfirmationRequest i n args prompt)))))"

definition frontend_tool_request_to_dict ::
    "string \<Rightarrow> string \<Rightarrow> jdict \<Rightarrow> string option \<Rightarrow> jdict" where
  "frontend_tool_request_to_dict i n args perr = drop_none
     [(''type'', JStr ''frontendToolRequest''), (''id'', JStr i), (''name'', JStr n),
      (''args'', JObj args), (''parseError'', opt_str perr)]"

definition frontend_tool_request_from_payload :: "jdict \<Rightarrow> serde_error + content_block" where
  "frontend_tool_request_from_payload d =
     bind_result (require_str d ''id'' ''FrontendToolRequest'') (\<lambda>i.
     bind_result (require_str d ''name'' ''FrontendToolRequest'') (\<lambda>n.
     bind_result (require_args_dict d ''args'' ''FrontendToolRequest'') (\<lambda>args.
     bind_result (optional_str d ''parseError'') (\<lambda>perr.
     Inr (FrontendToolRequest i n args perr)))))"

definition thinking_to_dict :: "string \<Rightarrow> string \<Rightarrow> jdict" where
  "thinking_to_dict t sig =
     [(''type'', JStr ''thinking''), (''thinking'', JStr t), (''signature'', JStr sig)]"

definition thinking_from_payload :: "jdict \<Rightarrow> serde_error + content_block" where
  "thinking_from_payload d =
     bind_result (require_str d ''thinking'' ''Thinking'') (\<lambda>t.
     case dict_get d ''signature'' of
       None \<Rightarrow> Inr (Thinking t [])
     | Some JNull \<Rightarrow> Inr (Thinking t [])
     | Some (JStr s) \<Rightarrow> Inr (Thinking t s)
     | Some v \<Rightarrow> Inl (WrongType ''Thinking'' ''signature'' (py_type_name v)))"

definition redacted_thinking_to_dict :: "string \<Rightarrow> jdict" where
  "redacted_thinking_to_dict dat = [(''type'', JStr ''redactedThinking''), (''data'', JStr dat)]"

definition redacted_thinking_from_payload :: "jdict \<Rightarrow> serde_error + content_block" where
  "redacted_thinking_from_payload d =
     bind_result (require_str d ''data'' ''RedactedThinking'') (\<lambda>dat. Inr (RedactedThinking dat))"

definition system_notification_to_dict :: "string \<Rightarrow> string \<Rightarrow> jdict option \<Rightarrow> jdict" where
  "system_notification_to_dict nt msg dat = drop_none
     [(''type'', JStr ''systemNotification''), (''notificationType'', JStr nt), (''msg'', JStr msg),
      (''data'', opt_dict dat)]"

definition system_notification_from_payload :: "jdict \<Rightarrow> serde_error + content_block" where
  "system_notification_from_payload d =
     bind_result (notification_type_from_wire d ''SystemNotification'') (\<lambda>nt.
     bind_result (require_str d ''msg'' ''SystemNotification'') (\<lambda>msg.
     bind_result (optional_dict d ''data'' ''SystemNotification'') (\<lambda>dat.
     Inr (SystemNotification nt msg dat))))"

definition action_required_to_dict :: "action_required_data \<Rightarrow> jdict" where
  "action_required_to_dict a =
     [(''type'', JStr ''actionRequired''), (''data'', JObj (action_data_to_dict a))]"

definition action_required_from_payload :: "jdict \<Rightarrow> serde_error + content_block" where
  "action_required_from_payload d =
     bind_result (require_dict d ''data'' ''ActionRequired'') (\<lambda>inner.
     bind_result (action_data_from_mapping inner) (\<lambda>a. Inr (ActionRequired a)))"

fun to_dict :: "content_block \<Rightarrow> jdict" where
  "to_dict (Text t) = text_to_dict t"
| "to_dict (Image mime dat meta) = image_to_dict mime dat meta"
| "to_dict (File mime dat meta) = file_to_dict mime dat meta"
| "to_dict (AttachmentRef aid mime meta) = attachment_ref_to_dict aid mime meta"
| "to_dict (AttachmentDescriptor aid mime desc meta) =
     attachment_descriptor_to_dict aid mime desc meta"
| "to_dict (ToolRequest i n args perr meta) = tool_request_to_dict i n args perr meta"
| "to_dict (ToolResponse i n bs err) = tool_response_to_dict i n (map to_dict bs) err"
| "to_dict (ToolConfirmationRequest i n args prompt) =
     tool_confirmation_request_to_dict i n args prompt"
| "to_dict (FrontendToolRequest i n args perr) = frontend_tool_request_to_dict i n args perr"
| "to_dict (Thinking t sig) = thinking_to_dict t sig"
| "to_dict (RedactedThinking dat) = redacted_thinking_to_dict dat"
| "to_dict (SystemNotification nt msg dat) = system_notification_to_dict nt msg dat"
| "to_dict (ActionRequired a) = action_required_to_dict a"

section \<open>The dispatching reader\<close>

definition require_block_list ::
    "(jdict \<Rightarrow> serde_error + content_block) \<Rightarrow> jdict \<Rightarrow> string \<Rightarrow> string
      \<Rightarrow> serde_error + content_block list" where
  "require_block_list rd d key ctx = (case dict_get d key of
       None \<Rightarrow> Inl (MissingField ctx key)
     | Some (JList items) \<Rightarrow>
         map_result (\<lambda>item. case item of
             JObj ps \<Rightarrow> rd ps
           | v \<Rightarrow> Inl (WrongType ctx key (py_type_name v))) items
     | Some v \<Rightarrow> Inl (WrongType ctx key (py_type_name v)))"

definition tool_response_from_payload ::
    "(jdict \<Rightarrow> serde_error + content_block) \<Rightarrow> jdict \<Rightarrow> serde_error + content_block" where
  "tool_response_from_payload rd d =
     bind_result (require_str d ''id'' ''ToolResponse'') (\<lambda>i.
     bind_result (require_str d ''toolName'' ''ToolResponse'') (\<lambda>n.
     bind_result (require_block_list rd d ''result'' ''ToolResponse'') (\<lambda>bs.
     bind_result (parse_tool_response_is_error d ''ToolResponse'') (\<lambda>err.
     Inr (ToolResponse i n bs err)))))"

lemma require_block_list_cong [fundef_cong]:
  assumes "d = d'" and "key = key'" and "ctx = ctx'"
    and "\<And>items ps. dict_get d' key' = Some (JList items) \<Longrightarrow> JObj ps \<in> set items \<Longrightarrow> rd ps = rd' ps"
  shows "require_block_list rd d key ctx = require_block_list rd' d' key' ctx'"
proof -
  have "map_result (\<lambda>item. case item of JObj ps \<Rightarrow> rd ps | v \<Rightarrow> Inl (WrongType ctx' key' (py_type_name v))) items
      = map_result (\<lambda>item. case item of JObj ps \<Rightarrow> rd' ps | v \<Rightarrow> Inl (WrongType ctx' key' (py_type_name v))) items"
    if "dict_get d' key' = Some (JList items)" for items
    by (rule map_result_cong[OF refl]) (auto split: json.splits intro: assms(4)[OF that])
  then show ?thesis
    using assms(1-3) by (auto simp: require_block_list_def split: option.splits json.splits)
qed

lemma tool_response_from_payload_cong [fundef_cong]:
  assumes "d = d'"
    and "\<And>items ps. dict_get d' ''result'' = Some (JList items) \<Longrightarrow> JObj ps \<in> set items \<Longrightarrow> rd ps = rd' ps"
  shows "tool_response_from_payload rd d = tool_response_from_payload rd' d'"
  using require_block_list_cong[of d d' "''result''" "''result''" "''ToolResponse''" "''ToolResponse''" rd rd'] assms
  by (simp add: tool_response_from_payload_def)

lemma size_json_elem:
  assumes "map_of d key = Some (JList items)" and "JObj ps \<in> set items"
  shows "size_list (size_prod (\<lambda>_. 0) size) ps < size_list (size_prod (\<lambda>_. 0) size) d"
proof -
  have "size (JObj ps) < size (JList items)"
    using assms(2) by (induction items) auto
  moreover have "(key, JList items) \<in> set d" using assms(1) by (rule map_of_SomeD)
  then have "size (JList items) < size_list (size_prod (\<lambda>_. 0) size) d"
    by (induction d) auto
  ultimately show ?thesis by simp
qed

function from_dict :: "jdict \<Rightarrow> serde_error + content_block" where
  "from_dict d = (case dict_get d ''type'' of
       Some (JStr tag) \<Rightarrow>
         (if tag = ''text'' then text_from_payload d
          else if tag = ''image'' then image_from_payload d
          else if tag = ''file'' then file_from_payload d
          else if tag = ''attachmentRef'' then attachment_ref_from_payload d
          else if tag = ''attachmentDescriptor'' then attachment_descriptor_from_payload d
          else if tag = ''toolRequest'' then tool_request_from_payload d
          else if tag = ''toolResponse'' then tool_response_from_payload from_dict d
          else if tag = ''toolConfirmationRequest'' then tool_confirmation_request_from_payload d
          else if tag = ''actionRequired'' then action_required_from_payload d
          else if tag = ''frontendToolRequest'' then frontend_tool_request_from_payload d
          else if tag = ''thinking'' then thinking_from_payload d
          else if tag = ''redactedThinking'' then redacted_thinking_from_payload d
          else if tag = ''systemNotification'' then system_notification_from_payload d
          else Inl (UnknownBlockType (dict_get d ''type'')))
     | _ \<Rightarrow> Inl (UnknownBlockType (dict_get d ''type'')))"
  by pat_completeness auto
termination
  by (relation "measure (size_list (size_prod (\<lambda>_. 0) size))") (auto intro: size_json_elem)

declare from_dict.simps [simp del]

section \<open>Messages\<close>

datatype role = User | Assistant | System

record message =
  msg_role :: role
  msg_content :: "content_block list"
  msg_row_id :: "string option"

definition role_name :: "role \<Rightarrow> string" where
  "role_name r = (case r of User \<Rightarrow> ''user'' | Assistant \<Rightarrow> ''assistant'' | System \<Rightarrow> ''system'')"

definition role_of_name :: "string \<Rightarrow> role option" where
  "role_of_name s =
     (if s = ''user'' then Some User else if s = ''assistant'' then Some Assistant
      else if s = ''system'' then Some System else None)"

definition new_message :: "role \<Rightarrow> content_block list \<Rightarrow> message" where
  \<comment> \<open>\<open>Message(role=..., content=...)\<close>: the row id defaults to \<open>None\<close>\<close>
  "new_message r bs = \<lparr>msg_role = r, msg_content = bs, msg_row_id = None\<rparr>"

definition message_to_dict :: "message \<Rightarrow> jdict" where
  "message_to_dict m =
     [(''role'', JStr (role_name (msg_role m))),
      (''content'', JList (map (\<lambda>b. JObj (to_dict b)) (msg_content m)))]"

definition message_from_dict :: "jdict \<Rightarrow> serde_error + message" where
  "message_from_dict d =
     (case (case dict_get d ''role'' of Some (JStr s) \<Rightarrow> role_of_name s | _ \<Rightarrow> None) of
        None \<Rightarrow> Inl (InvalidRole (dict_get d ''role''))
      | Some r \<Rightarrow>
          (case (case dict_get d ''content'' of None \<Rightarrow> JList [] | Some JNull \<Rightarrow> JList [] | Some v \<Rightarrow> v) of
             JList items \<Rightarrow>
               bind_result
                 (map_result (\<lambda>item. case item of JObj ps \<Rightarrow> from_dict ps | _ \<Rightarrow> Inl ElementNotObject) items)
                 (\<lambda>bs. Inr (new_message r bs))
           | _ \<Rightarrow> Inl ContentNotList))"

section \<open>What a writer and a reader promise\<close>

text \<open>
  \<open>norm\<close> is what survives the wire: an empty \<open>metadata\<close> of a tool request is not written, and a
  message's row id never is. \<open>wf\<close> is what the annotations promise of a value the program holds:
  tool arguments are objects, a notification has one of the four types.
\<close>

locale serde =
  fixes enc :: "'a \<Rightarrow> jdict"
    and dec :: "jdict \<Rightarrow> serde_error + 'a"
    and norm :: "'a \<Rightarrow> 'a"
    and wf :: "'a \<Rightarrow> bool"
  assumes dec_enc: "wf x \<Longrightarrow> dec (enc x) = Inr (norm x)"
    and enc_norm: "enc (norm x) = enc x"
    and wf_norm: "wf x \<Longrightarrow> wf (norm x)"
    and dec_wf: "dec d = Inr x \<Longrightarrow> wf x"
begin

lemma norm_idem: "wf x \<Longrightarrow> norm (norm x) = norm x"
  using dec_enc[of x] dec_enc[of "norm x"] by (simp add: enc_norm wf_norm)

lemma enc_eq_iff: "wf x \<Longrightarrow> wf y \<Longrightarrow> enc x = enc y \<longleftrightarrow> norm x = norm y"
  by (metis dec_enc enc_norm sum.inject(2))

lemma reread: "dec d = Inr x \<Longrightarrow> dec (enc x) = Inr (norm x)"
  by (blast intro: dec_enc dec_wf)

lemma rewrite_stable: "dec d = Inr x \<Longrightarrow> dec (enc x) = Inr y \<Longrightarrow> enc y = enc x"
  using reread[of d x] enc_norm[of x] by simp

lemma map_dec_enc:
  assumes "\<And>x. x \<in> set xs \<Longrightarrow> wf x"
  shows "map_result dec (map enc xs) = Inr (map norm xs)"
  using assms by (intro map_result_map) (simp add: dec_enc)

end

definition norm_metadata :: "jdict option \<Rightarrow> jdict option" where
  "norm_metadata m = (case m of Some [] \<Rightarrow> None | _ \<Rightarrow> m)"

fun norm_block :: "content_block \<Rightarrow> content_block" where
  "norm_block (ToolRequest i n args perr meta) = ToolRequest i n args perr (norm_metadata meta)"
| "norm_block (ToolResponse i n bs err) = ToolResponse i n (map norm_block bs) err"
| "norm_block b = b"

fun wf_block :: "content_block \<Rightarrow> bool" where
  "wf_block (ToolRequest i n args perr meta) = (case args of JObj _ \<Rightarrow> True | _ \<Rightarrow> False)"
| "wf_block (ToolResponse i n bs err) = list_all wf_block bs"
| "wf_block (SystemNotification nt msg dat) = (nt \<in> set system_notification_types)"
| "wf_block b = True"

definition norm_message :: "message \<Rightarrow> message" where
  "norm_message m = m\<lparr>msg_content := map norm_block (msg_content m), msg_row_id := None\<rparr>"

definition wf_message :: "message \<Rightarrow> bool" where
  "wf_message m \<longleftrightarrow> list_all wf_block (msg_content m)"

lemmas field_parser_defs =
  require_str_def optional_str_def require_dict_def optional_dict_def require_bool_def
  parse_tool_response_is_error_def require_args_dict_def opt_str_def opt_dict_def drop_none_def
  norm_metadata_def

lemmas writer_defs =
  text_to_dict_def image_to_dict_def file_to_dict_def attachment_ref_to_dict_def
  attachment_descriptor_to_dict_def tool_request_to_dict_def tool_response_to_dict_def
  tool_confirmation_request_to_dict_def frontend_tool_request_to_dict_def thinking_to_dict_def
  redacted_thinking_to_dict_def system_notification_to_dict_def action_required_to_dict_def

lemmas reader_defs =
  text_from_payload_def image_from_payload_def file_from_payload_def
  attachment_ref_from_payload_def attachment_descriptor_from_payload_def
  tool_request_from_payload_def tool_confirmation_request_from_payload_def
  frontend_tool_request_from_payload_def thinking_from_payload_def
  redacted_thinking_from_payload_def system_notification_from_payload_def
  action_required_from_payload_def notification_type_from_wire_def

lemma action_data_roundtrip: "action_data_from_mapping (action_data_to_dict a) = Inr a"
  by (cases a) (auto simp: action_data_from_mapping_def field_parser_defs split: option.splits)

interpretation action_serde: serde action_data_to_dict action_data_from_mapping id "\<lambda>_. True"
  by unfold_locales (simp_all add: action_data_roundtrip)

lemma to_dict_norm_block: "to_dict (norm_block b) = to_dict b"
  by (induction b rule: norm_block.induct)
    (auto simp: tool_request_to_dict_def norm_metadata_def comp_def cong: map_cong
      split: option.splits list.splits)

lemma wf_norm_block: "wf_block b \<Longrightarrow> wf_block (norm_block b)"
  by (induction b rule: wf_block.induct) (auto simp: list.pred_set)

lemma from_dict_to_dict: "wf_block b \<Longrightarrow> from_dict (to_dict b) = Inr (norm_block b)"
proof (induction b rule: to_dict.induct)
  case (6 i n args perr meta)
  then obtain ps where "args = JObj ps" by (auto split: json.splits)
  then show ?case
    by (subst from_dict.simps)
      (auto simp: writer_defs reader_defs field_parser_defs split: option.splits list.splits)
next
  case (7 i n bs err)
  have "map_result (\<lambda>item. case item of JObj ps \<Rightarrow> from_dict ps | v \<Rightarrow> Inl (WrongType ''ToolResponse'' ''result'' (py_type_name v)))
      (map (\<lambda>b. JObj (to_dict b)) bs) = Inr (map norm_block bs)"
    using 7 by (intro map_result_map) (auto simp: list.pred_set)
  then show ?case
    by (subst from_dict.simps)
      (simp add: writer_defs tool_response_from_payload_def require_block_list_def
        field_parser_defs comp_def)
next
  case (13 a)
  show ?case
    by (subst from_dict.simps)
      (simp add: writer_defs reader_defs field_parser_defs action_data_roundtrip)
qed (subst from_dict.simps,
    auto simp: writer_defs reader_defs field_parser_defs split: option.splits)+

lemma thinking_wf: "thinking_from_payload d = Inr b \<Longrightarrow> wf_block b"
  by (cases "dict_get d ''signature''"; cases "the (dict_get d ''signature'')")
    (auto simp: thinking_from_payload_def)

lemma system_notification_wf: "system_notification_from_payload d = Inr b \<Longrightarrow> wf_block b"
  by (auto simp: system_notification_from_payload_def notification_type_from_wire_def
      simp del: set_simps split: if_splits)

lemma readers_wf:
  "text_from_payload d = Inr b \<Longrightarrow> wf_block b"
  "image_from_payload d = Inr b \<Longrightarrow> wf_block b"
  "file_from_payload d = Inr b \<Longrightarrow> wf_block b"
  "attachment_ref_from_payload d = Inr b \<Longrightarrow> wf_block b"
  "attachment_descriptor_from_payload d = Inr b \<Longrightarrow> wf_block b"
  "tool_request_from_payload d = Inr b \<Longrightarrow> wf_block b"
  "tool_confirmation_request_from_payload d = Inr b \<Longrightarrow> wf_block b"
  "action_required_from_payload d = Inr b \<Longrightarrow> wf_block b"
  "frontend_tool_request_from_payload d = Inr b \<Longrightarrow> wf_block b"
  "redacted_thinking_from_payload d = Inr b \<Longrightarrow> wf_block b"
  by (auto simp: reader_defs)

lemma ifE_result:
  assumes "(if c then r else r') = Inr b" and "c \<Longrightarrow> r = Inr b \<Longrightarrow> P" and "\<not> c \<Longrightarrow> r' = Inr b \<Longrightarrow> P"
  shows P
  using assms by (cases c) auto

lemma from_dict_cases:
  assumes "from_dict d = Inr b" and "dict_get d ''type'' \<noteq> Some (JStr ''toolResponse'')"
  shows "wf_block b"
proof -
  obtain tag where "dict_get d ''type'' = Some (JStr tag)"
    using assms(1) by (subst (asm) from_dict.simps) (simp split: option.splits json.splits)
  then show ?thesis
    using assms unfolding from_dict.simps[of d]
    by (simp only: option.case json.case)
      (elim ifE_result; auto dest: readers_wf thinking_wf system_notification_wf)
qed

lemma from_dict_wf: "from_dict d = Inr b \<Longrightarrow> wf_block b"
proof (induction d arbitrary: b rule: from_dict.induct)
  case (1 d)
  show ?case
  proof (cases "dict_get d ''type'' = Some (JStr ''toolResponse'')")
    case True
    have elem: "list_all wf_block bs"
      if items: "dict_get d ''result'' = Some (JList items)"
        and "map_result (\<lambda>item. case item of JObj ps \<Rightarrow> from_dict ps | v \<Rightarrow> Inl (WrongType ''ToolResponse'' ''result'' (py_type_name v))) items = Inr bs"
      for items bs
    proof (rule map_result_all[OF that(2)])
      fix x y
      assume "x \<in> set items"
        and "(case x of JObj ps \<Rightarrow> from_dict ps | v \<Rightarrow> Inl (WrongType ''ToolResponse'' ''result'' (py_type_name v))) = Inr y"
      then show "wf_block y"
        using "1.IH" True items by (auto split: json.splits)
    qed
    show ?thesis using True "1.prems" elem
      by (subst (asm) from_dict.simps)
        (auto simp: tool_response_from_payload_def require_block_list_def
          split: option.splits json.splits)
  next
    case False
    then show ?thesis using "1.prems" by (rule from_dict_cases[rotated])
  qed
qed

interpretation block_serde: serde to_dict from_dict norm_block wf_block
  by unfold_locales (auto simp: from_dict_to_dict to_dict_norm_block wf_norm_block dest: from_dict_wf)

lemma new_message_simps [simp]:
  "msg_role (new_message r bs) = r"
  "msg_content (new_message r bs) = bs"
  "msg_row_id (new_message r bs) = None"
  by (simp_all add: new_message_def)

lemma role_of_name_role_name [simp]: "role_of_name (role_name r) = Some r"
  by (cases r) (simp_all add: role_name_def role_of_name_def)

lemma message_from_dict_to_dict:
  assumes "wf_message m"
  shows "message_from_dict (message_to_dict m) = Inr (norm_message m)"
proof -
  have "map_result (\<lambda>item. case item of JObj ps \<Rightarrow> from_dict ps | _ \<Rightarrow> Inl ElementNotObject)
      (map (\<lambda>b. JObj (to_dict b)) (msg_content m)) = Inr (map norm_block (msg_content m))"
    using assms by (intro map_result_map) (auto simp: wf_message_def list.pred_set from_dict_to_dict)
  then show ?thesis
    by (simp add: message_from_dict_def message_to_dict_def norm_message_def new_message_def)
qed

lemma message_from_dict_wf:
  assumes "message_from_dict d = Inr m"
  shows "wf_message m"
proof -
  let ?rd = "\<lambda>item. case item of JObj ps \<Rightarrow> from_dict ps | _ \<Rightarrow> Inl ElementNotObject"
  have "\<exists>items. map_result ?rd items = Inr (msg_content m)"
    using assms by (auto simp: message_from_dict_def new_message_def split: option.splits json.splits)
      (rule exI[of _ "[]"], simp)+
  then obtain items where "map_result ?rd items = Inr (msg_content m)" ..
  then have "list_all wf_block (msg_content m)"
    by (rule map_result_all) (auto split: json.splits dest: from_dict_wf)
  then show ?thesis by (simp add: wf_message_def)
qed

interpretation message_serde: serde message_to_dict message_from_dict norm_message wf_message
proof
  fix m
  show "message_to_dict (norm_message m) = message_to_dict m"
    by (simp add: message_to_dict_def norm_message_def comp_def to_dict_norm_block)
  show "wf_message m \<Longrightarrow> wf_message (norm_message m)"
    by (auto simp: wf_message_def norm_message_def list.pred_set wf_norm_block)
qed (simp_all add: message_from_dict_to_dict message_from_dict_wf)

section \<open>Round trips\<close>

text \<open>
  A message the program may hold, written to its JSON form and read back, is the same message
  up to what is never written (its row id, an empty \<open>metadata\<close> of a tool request).
\<close>
theorem message_roundtrip:
  "wf_message m \<Longrightarrow> message_from_dict (message_to_dict m) = Inr (norm_message m)"
  by (rule message_serde.dec_enc)

theorem message_roundtrip_witness:
  "message_from_dict (message_to_dict (new_message Assistant
      [Text ''a'', ToolRequest ''c1'' ''ls'' (JObj []) None (Some [])])) =
    Inr (new_message Assistant [Text ''a'', ToolRequest ''c1'' ''ls'' (JObj []) None None])"
  using message_roundtrip[of "new_message Assistant
      [Text ''a'', ToolRequest ''c1'' ''ls'' (JObj []) None (Some [])]"]
  by (simp add: wf_message_def norm_message_def norm_metadata_def new_message_def)

text \<open>
  Whatever JSON the reader accepts (any of the 13 variants, nested results included), writing the
  block it read and reading that back succeeds, gives the same block up to its normal form, and writing
  again produces the same JSON: stored histories are stable under rewriting.
\<close>
theorem block_rewrite_stable:
  "from_dict d = Inr b \<Longrightarrow>
    from_dict (to_dict b) = Inr (norm_block b) \<and> to_dict (norm_block b) = to_dict b"
  by (simp add: block_serde.reread block_serde.enc_norm)

theorem block_rewrite_stable_witness:
  "from_dict (to_dict (Thinking ''hm'' [])) = Inr (norm_block (Thinking ''hm'' []))
    \<and> to_dict (norm_block (Thinking ''hm'' [])) = to_dict (Thinking ''hm'' [])"
proof (rule block_rewrite_stable)
  show "from_dict [(''type'', JStr ''thinking''), (''thinking'', JStr ''hm'')] = Inr (Thinking ''hm'' [])"
    by (subst from_dict.simps) (simp add: thinking_from_payload_def require_str_def)
qed

end
