(* ===== verification/Tool_Integrity.thy ===== *)
theory Tool_Integrity
  imports Content_Blocks
begin

text \<open>
  \<open>core/messages/tool_integrity.py\<close>: the repair of broken tool-call turns before a history is
  replayed to a provider. Requests without a result get a synthetic error result, results without
  a request get a synthetic request, repeated results are dropped. The loop over the messages is
  \<open>repair_loop\<close>; its arguments are the output list, the set of answered ids and the messages
  still to read. Warnings that are only logged are not modelled.
\<close>

section \<open>The operations\<close>

definition unknown_tool :: string where
  "unknown_tool = ''unknown_tool''"

definition missing_tool_result_recovery_hint :: string where
  "missing_tool_result_recovery_hint =
     ''Inspect the workspace and any spill/partial outputs before re-issuing; do not assume the tool never ran.''"

definition cancelled_tool_result_text :: "string \<Rightarrow> string" where
  "cancelled_tool_result_text tool_name =
     ''Tool '' @ [char_of (34 :: nat)] @ tool_name @ [char_of (34 :: nat)]
     @ '' was cancelled before a result was recorded. '' @ missing_tool_result_recovery_hint"

definition interrupted_tool_result_text :: "string \<Rightarrow> string" where
  "interrupted_tool_result_text tool_name =
     ''Tool '' @ [char_of (34 :: nat)] @ tool_name @ [char_of (34 :: nat)]
     @ '' was interrupted or its result is missing. '' @ missing_tool_result_recovery_hint"

definition tool_responses :: "message \<Rightarrow> content_block list" where
  "tool_responses m = filter is_ToolResponse (msg_content m)"

definition tool_requests :: "message \<Rightarrow> content_block list" where
  "tool_requests m = filter is_ToolRequest (msg_content m)"

fun repair_tool_request :: "content_block \<Rightarrow> content_block" where
  "repair_tool_request (ToolRequest i n args perr meta) =
     (case args of
        JObj _ \<Rightarrow> ToolRequest i n args perr meta
      | _ \<Rightarrow> ToolRequest i n (JObj []) perr meta)"
| "repair_tool_request b = b"

definition repair_assistant_message :: "message \<Rightarrow> message" where
  "repair_assistant_message m =
     (let new_blocks = map repair_tool_request (msg_content m)
      in if new_blocks = msg_content m then m else m\<lparr>msg_content := new_blocks\<rparr>)"

type_synonym request_map = "(string, content_block) dict"

definition tool_name_for_response :: "content_block \<Rightarrow> request_map \<Rightarrow> string" where
  "tool_name_for_response b request_by_id =
     (let name = py_strip (tres_tool_name b)
      in if name \<noteq> [] then name
         else (case dict_get request_by_id (tres_id b) of
             Some req \<Rightarrow> if py_strip (treq_name req) \<noteq> [] then treq_name req else unknown_tool
           | None \<Rightarrow> unknown_tool))"

definition repair_tool_response :: "content_block \<Rightarrow> request_map \<Rightarrow> content_block" where
  "repair_tool_response b request_by_id =
     (let tool_name = tool_name_for_response b request_by_id
      in if tool_name = tres_tool_name b then b
         else ToolResponse (tres_id b) tool_name (tres_result b) (tres_is_error b))"

definition synthetic_error_response :: "content_block \<Rightarrow> content_block" where
  "synthetic_error_response req =
     ToolResponse (treq_id req) (treq_name req)
       [Text (interrupted_tool_result_text (treq_name req))] True"

definition synthetic_tool_request :: "content_block \<Rightarrow> request_map \<Rightarrow> content_block option" where
  "synthetic_tool_request b request_by_id =
     (let name = tool_name_for_response b request_by_id
      in if name = unknown_tool then None
         else Some (ToolRequest (tres_id b) name (JObj []) None None))"

definition synthetic_tool_requests :: "content_block list \<Rightarrow> request_map \<Rightarrow> content_block list" where
  "synthetic_tool_requests bs request_by_id =
     List.map_filter (\<lambda>b. synthetic_tool_request b request_by_id) bs"

definition append_synthetic_requests :: "message list \<Rightarrow> content_block list \<Rightarrow> message list" where
  "append_synthetic_requests out requests =
     (if requests = [] then out else out @ [new_message Assistant requests])"

fun settle_blocks ::
    "request_map \<Rightarrow> string set \<Rightarrow> string set \<Rightarrow> content_block list
      \<Rightarrow> content_block list \<times> content_block list \<times> string set \<times> bool" where
  \<comment> \<open>the first loop of \<open>_settle_user_message\<close>: kept blocks, orphans, seen ids, changed\<close>
  "settle_blocks reqs answered seen [] = ([], [], seen, False)"
| "settle_blocks reqs answered seen (b # bs) =
     (if \<not> is_ToolResponse b then
        (let (kept, orphans, seen', changed) = settle_blocks reqs answered seen bs
         in (b # kept, orphans, seen', changed))
      else if tres_id b \<in> seen \<or> (tres_id b \<in> answered \<and> tres_id b \<notin> fst ` set reqs) then
        (let (kept, orphans, seen', changed) = settle_blocks reqs answered seen bs
         in (kept, orphans, seen', True))
      else
        (let fixed = repair_tool_response b reqs;
             (kept, orphans, seen', changed) =
               settle_blocks reqs answered (insert (tres_id b) seen) bs
         in (fixed # kept,
             (if tres_id b \<notin> fst ` set reqs then fixed # orphans else orphans),
             seen', changed \<or> fixed \<noteq> b)))"

definition settle_user_message ::
    "message \<Rightarrow> request_map \<Rightarrow> string set
      \<Rightarrow> message option \<times> content_block list \<times> string set" where
  "settle_user_message user_msg reqs answered =
     (let (kept0, orphans, seen, changed0) = settle_blocks reqs answered {} (msg_content user_msg);
          missing = sort_key fst (filter (\<lambda>(i, r). i \<notin> seen) reqs);
          kept = kept0 @ map (\<lambda>(i, r). synthetic_error_response r) missing;
          changed = (changed0 \<or> missing \<noteq> []);
          answered' = answered \<union> seen \<union> set (map fst missing)
      in if kept = [] then (None, [], answered')
         else (Some (if changed then user_msg\<lparr>msg_content := kept\<rparr> else user_msg),
               orphans, answered'))"

definition requests_by_id :: "content_block list \<Rightarrow> request_map" where
  "requests_by_id requests = dict_of_list (map (\<lambda>r. (treq_id r, r)) requests)"

definition append_message :: "message list \<Rightarrow> message option \<Rightarrow> message list" where
  "append_message out m = (case m of None \<Rightarrow> out | Some m' \<Rightarrow> out @ [m'])"

fun repair_loop :: "message list \<Rightarrow> string set \<Rightarrow> message list \<Rightarrow> message list" where
  "repair_loop out answered [] = out"
| "repair_loop out answered (msg # rest) =
     (if msg_role msg = Assistant then
        (let repaired = repair_assistant_message msg;
             requests = tool_requests repaired;
             request_map = requests_by_id requests
         in if requests \<noteq> [] then
              (case rest of
                 nxt # rest' \<Rightarrow>
                   if msg_role nxt = User then
                     (let (repaired_user, orphans, answered') =
                            settle_user_message nxt request_map answered
                      in repair_loop
                           (append_message
                             (append_synthetic_requests (out @ [repaired])
                               (synthetic_tool_requests orphans request_map))
                             repaired_user)
                           answered' rest')
                   else repair_loop
                     (out @ [repaired, new_message User (map synthetic_error_response requests)])
                     (answered \<union> fst ` set request_map) rest
               | [] \<Rightarrow> repair_loop
                     (out @ [repaired, new_message User (map synthetic_error_response requests)])
                     (answered \<union> fst ` set request_map) rest)
            else repair_loop (out @ [repaired]) answered rest)
      else if msg_role msg = User \<and> tool_responses msg \<noteq> [] then
        (let request_map =
               (if out \<noteq> [] \<and> msg_role (last out) = Assistant
                then requests_by_id (tool_requests (last out)) else []);
             (repaired_user, orphans, answered') = settle_user_message msg request_map answered
         in repair_loop
              (append_message
                (append_synthetic_requests out (synthetic_tool_requests orphans request_map))
                repaired_user)
              answered' rest)
      else repair_loop (out @ [msg]) answered rest)"

definition repair_tool_turn_integrity :: "message list \<Rightarrow> message list" where
  "repair_tool_turn_integrity messages = repair_loop [] {} messages"

section \<open>Reading ids\<close>

definition request_ids :: "message \<Rightarrow> string set" where
  "request_ids m = treq_id ` set (tool_requests m)"

definition response_ids :: "message \<Rightarrow> string set" where
  "response_ids m = tres_id ` set (tool_responses m)"

definition known_response_ids :: "message \<Rightarrow> string set" where
  \<comment> \<open>ids of the results whose tool is known by name\<close>
  "known_response_ids m =
     tres_id ` {b \<in> set (tool_responses m). tres_tool_name b \<noteq> unknown_tool}"

definition request_map_ok :: "request_map \<Rightarrow> bool" where
  "request_map_ok reqs \<longleftrightarrow> (\<forall>(i, r) \<in> set reqs. is_ToolRequest r \<and> treq_id r = i)"

lemma known_subset_response_ids: "known_response_ids m \<subseteq> response_ids m"
  by (auto simp: known_response_ids_def response_ids_def)

lemma request_ids_empty_iff: "request_ids m = {} \<longleftrightarrow> tool_requests m = []"
  by (simp add: request_ids_def)

lemma is_ToolRequest_repair [simp]: "is_ToolRequest (repair_tool_request b) = is_ToolRequest b"
  by (cases b rule: repair_tool_request.cases) (auto split: json.splits)

lemma treq_id_repair: "is_ToolRequest b \<Longrightarrow> treq_id (repair_tool_request b) = treq_id b"
  by (cases b rule: repair_tool_request.cases) (auto split: json.splits)

lemma repair_assistant_message_content:
  "msg_content (repair_assistant_message m) = map repair_tool_request (msg_content m)"
  by (simp add: repair_assistant_message_def Let_def)

lemma repair_assistant_message_role [simp]:
  "msg_role (repair_assistant_message m) = msg_role m"
  by (simp add: repair_assistant_message_def Let_def)

lemma set_requests_by_id: "set (requests_by_id rs) \<subseteq> (\<lambda>r. (treq_id r, r)) ` set rs"
proof
  fix p assume "p \<in> set (requests_by_id rs)"
  then have "map_of (requests_by_id rs) (fst p) = Some (snd p)"
    using dict_ok_of_list[of "map (\<lambda>r. (treq_id r, r)) rs"]
    by (simp add: requests_by_id_def dict_ok_def)
  then have "map_of (rev (map (\<lambda>r. (treq_id r, r)) rs)) (fst p) = Some (snd p)"
    by (simp add: requests_by_id_def dict_get_of_list)
  then show "p \<in> (\<lambda>r. (treq_id r, r)) ` set rs"
    using map_of_SomeD by fastforce
qed

lemma keys_requests_by_id [simp]: "fst ` set (requests_by_id rs) = treq_id ` set rs"
  by (simp add: requests_by_id_def image_comp comp_def)

lemma request_map_ok_requests_by_id:
  "list_all is_ToolRequest rs \<Longrightarrow> request_map_ok (requests_by_id rs)"
  using set_requests_by_id[of rs] by (fastforce simp: request_map_ok_def list.pred_set)

lemma request_map_ok_Nil [simp]: "request_map_ok []"
  by (simp add: request_map_ok_def)

section \<open>What settling a user turn guarantees\<close>

lemma unknown_tool_not_Nil [simp]: "unknown_tool \<noteq> []"
  by (simp add: unknown_tool_def)

lemma unknown_tool_strip [simp]: "py_strip unknown_tool = unknown_tool"
  by (simp add: unknown_tool_def py_strip_def py_rstrip_def py_lstrip_def py_isspace_def)

lemma tool_name_nonblank: "py_strip (tool_name_for_response b reqs) \<noteq> []"
  by (simp add: tool_name_for_response_def Let_def split: option.splits)

lemma repair_tool_response_id [simp]:
  "is_ToolResponse b \<Longrightarrow> tres_id (repair_tool_response b reqs) = tres_id b"
  "is_ToolResponse b \<Longrightarrow> is_ToolResponse (repair_tool_response b reqs)"
  by (auto simp: repair_tool_response_def Let_def)

lemma repair_tool_response_name:
  "is_ToolResponse b \<Longrightarrow> tres_tool_name (repair_tool_response b reqs) = tool_name_for_response b reqs"
  by (auto simp: repair_tool_response_def Let_def)

lemma orphan_name_stable:
  assumes "is_ToolResponse b" and "tres_id b \<notin> fst ` set reqs"
  shows "tool_name_for_response (repair_tool_response b reqs) reqs = tool_name_for_response b reqs"
proof -
  have "dict_get reqs (tres_id b) = None"
    using assms(2) by (simp add: map_of_eq_None_iff)
  then have "tool_name_for_response b reqs = py_strip (tres_tool_name b) \<or>
      tool_name_for_response b reqs = unknown_tool"
    by (auto simp: tool_name_for_response_def Let_def)
  moreover have "py_strip (tool_name_for_response b reqs) \<noteq> []" by (rule tool_name_nonblank)
  ultimately show ?thesis
    using assms(1) repair_tool_response_name[OF assms(1), of reqs]
    by (auto simp: tool_name_for_response_def[of "repair_tool_response b reqs"] Let_def)
qed

lemma settle_blocks_rule [consumes 1, case_names Nil Other Dup Keep]:
  assumes "settle_blocks reqs answered seen bs = (kept, orphans, seen', changed)"
    and "\<And>seen. P seen [] [] [] seen False"
    and "\<And>seen b bs k ors s c. \<not> is_ToolResponse b \<Longrightarrow> P seen bs k ors s c \<Longrightarrow>
           P seen (b # bs) (b # k) ors s c"
    and "\<And>seen b bs k ors s c. is_ToolResponse b \<Longrightarrow>
           tres_id b \<in> seen \<or> (tres_id b \<in> answered \<and> tres_id b \<notin> fst ` set reqs) \<Longrightarrow>
           P seen bs k ors s c \<Longrightarrow> P seen (b # bs) k ors s True"
    and "\<And>seen b bs k ors s c. is_ToolResponse b \<Longrightarrow> tres_id b \<notin> seen \<Longrightarrow>
           (tres_id b \<in> answered \<Longrightarrow> tres_id b \<in> fst ` set reqs) \<Longrightarrow>
           P (insert (tres_id b) seen) bs k ors s c \<Longrightarrow>
           P seen (b # bs) (repair_tool_response b reqs # k)
             (if tres_id b \<notin> fst ` set reqs then repair_tool_response b reqs # ors else ors)
             s (c \<or> repair_tool_response b reqs \<noteq> b)"
  shows "P seen bs kept orphans seen' changed"
  using assms(1)
proof (induction bs arbitrary: seen kept orphans seen' changed)
  case Nil
  then show ?case by (simp add: assms(2))
next
  case (Cons b bs)
  consider (other) "\<not> is_ToolResponse b"
    | (dup) "is_ToolResponse b" "tres_id b \<in> seen \<or> (tres_id b \<in> answered \<and> tres_id b \<notin> fst ` set reqs)"
    | (keep) "is_ToolResponse b" "\<not> (tres_id b \<in> seen \<or> (tres_id b \<in> answered \<and> tres_id b \<notin> fst ` set reqs))"
    by blast
  then show ?case
  proof cases
    case other
    obtain k ors s c where r: "settle_blocks reqs answered seen bs = (k, ors, s, c)"
      by (cases "settle_blocks reqs answered seen bs") auto
    show ?thesis using Cons.prems other assms(3)[OF other Cons.IH[OF r]] by (simp add: r)
  next
    case dup
    obtain k ors s c where r: "settle_blocks reqs answered seen bs = (k, ors, s, c)"
      by (cases "settle_blocks reqs answered seen bs") auto
    show ?thesis using Cons.prems dup(1) assms(4)[OF dup Cons.IH[OF r]]
      unfolding settle_blocks.simps if_P[OF dup(2)] by (simp add: r)
  next
    case keep
    obtain k ors s c where r: "settle_blocks reqs answered (insert (tres_id b) seen) bs = (k, ors, s, c)"
      by (cases "settle_blocks reqs answered (insert (tres_id b) seen) bs") auto
    have "P seen (b # bs) (repair_tool_response b reqs # k)
        (if tres_id b \<notin> fst ` set reqs then repair_tool_response b reqs # ors else ors)
        s (c \<or> repair_tool_response b reqs \<noteq> b)"
      using keep by (intro assms(5) Cons.IH[OF r]) auto
    then show ?thesis using Cons.prems keep(1)
      unfolding settle_blocks.simps if_not_P[OF keep(2)] by (simp add: r Let_def)
  qed
qed

lemma settle_blocks_seen:
  "settle_blocks reqs answered seen bs = (kept, orphans, seen', changed) \<Longrightarrow>
    seen' = seen \<union> set (map tres_id (filter is_ToolResponse kept))"
  by (induction rule: settle_blocks_rule) auto

lemma settle_blocks_fresh:
  "settle_blocks reqs answered seen bs = (kept, orphans, seen', changed) \<Longrightarrow>
    b \<in> set kept \<Longrightarrow> is_ToolResponse b \<Longrightarrow> tres_id b \<notin> seen"
  by (induction rule: settle_blocks_rule) auto

lemma settle_blocks_orphans:
  "settle_blocks reqs answered seen bs = (kept, orphans, seen', changed) \<Longrightarrow>
    orphans = filter (\<lambda>b. is_ToolResponse b \<and> tres_id b \<notin> fst ` set reqs) kept"
  by (induction rule: settle_blocks_rule) simp_all

lemma settle_blocks_orphan_names:
  "settle_blocks reqs answered seen bs = (kept, orphans, seen', changed) \<Longrightarrow>
    b \<in> set orphans \<Longrightarrow> tool_name_for_response b reqs = tres_tool_name b"
  by (induction rule: settle_blocks_rule)
    (auto simp: repair_tool_response_name orphan_name_stable split: if_splits)

lemma settle_blocks_distinct:
  "settle_blocks reqs answered seen bs = (kept, orphans, seen', changed) \<Longrightarrow>
    distinct (map tres_id (filter is_ToolResponse kept)) \<and>
    set (map tres_id (filter is_ToolResponse kept)) \<inter> seen = {}"
  by (induction rule: settle_blocks_rule) auto

lemma settle_blocks_unchanged:
  "settle_blocks reqs answered seen bs = (kept, orphans, seen', changed) \<Longrightarrow>
    \<not> changed \<Longrightarrow> kept = bs"
  by (induction rule: settle_blocks_rule) auto

lemma settle_blocks_others:
  "settle_blocks reqs answered seen bs = (kept, orphans, seen', changed) \<Longrightarrow>
    filter (\<lambda>b. \<not> is_ToolResponse b) kept = filter (\<lambda>b. \<not> is_ToolResponse b) bs"
  by (induction rule: settle_blocks_rule) auto

lemma is_ToolResponse_synthetic [simp]:
  "is_ToolResponse (synthetic_error_response r)"
  "tres_id (synthetic_error_response r) = treq_id r"
  by (simp_all add: synthetic_error_response_def)

text \<open>
  The ids in the synthetic requests of a list of orphans: every orphan whose tool is known by name.
\<close>

lemma synthetic_tool_requests_ids:
  assumes "\<And>b. b \<in> set ors \<Longrightarrow> tool_name_for_response b reqs = tres_tool_name b"
  shows "treq_id ` set (synthetic_tool_requests ors reqs) =
      tres_id ` {b \<in> set ors. tres_tool_name b \<noteq> unknown_tool}"
    and "list_all is_ToolRequest (synthetic_tool_requests ors reqs)"
  using assms
  by (induction ors)
    (auto simp: synthetic_tool_requests_def map_filter_simps synthetic_tool_request_def Let_def
      split: if_splits option.splits)

lemma missing_keys:
  assumes "request_map_ok reqs"
  shows "tres_id ` set (map (\<lambda>(i, r). synthetic_error_response r)
      (sort_key fst (filter (\<lambda>(i, r). i \<notin> seen) reqs))) = fst ` set reqs - seen"
  using assms by (force simp: request_map_ok_def)

lemma settle_user_messageE:
  assumes "settle_user_message m reqs answered = (ru, ors, answered')" and "request_map_ok reqs"
  obtains kept miss where
    "ors = filter (\<lambda>b. is_ToolResponse b \<and> tres_id b \<notin> fst ` set reqs) kept"
    "\<forall>b \<in> set ors. tool_name_for_response b reqs = tres_tool_name b"
    "filter is_ToolResponse miss = miss"
    "tres_id ` set miss = fst ` set reqs - set (map tres_id (filter is_ToolResponse kept))"
    "ru = None \<longleftrightarrow> kept @ miss = []"
    "\<forall>m'. ru = Some m' \<longrightarrow> m' = m\<lparr>msg_content := kept @ miss\<rparr>"
    "distinct (map tres_id (filter is_ToolResponse kept))"
    "filter (\<lambda>b. \<not> is_ToolResponse b) kept = filter (\<lambda>b. \<not> is_ToolResponse b) (msg_content m)"
proof -
  obtain kept ors0 seen c where sb: "settle_blocks reqs answered {} (msg_content m) = (kept, ors0, seen, c)"
    by (cases "settle_blocks reqs answered {} (msg_content m)") auto
  define miss where "miss = map (\<lambda>(i, r). synthetic_error_response r) (sort_key fst (filter (\<lambda>(i, r). i \<notin> seen) reqs))"
  have res: "(ru, ors) = (if kept @ miss = [] then (None, [])
      else (Some (if c \<or> miss \<noteq> [] then m\<lparr>msg_content := kept @ miss\<rparr> else m), ors0))"
    using assms(1) by (auto simp: settle_user_message_def sb Let_def miss_def split: if_splits)
  show thesis
  proof (rule that)
    show "ors = filter (\<lambda>b. is_ToolResponse b \<and> tres_id b \<notin> fst ` set reqs) kept"
      using res settle_blocks_orphans[OF sb] by (auto split: if_splits)
    show "\<forall>b \<in> set ors. tool_name_for_response b reqs = tres_tool_name b"
      using settle_blocks_orphan_names[OF sb] res by (auto split: if_splits)
    show "filter is_ToolResponse miss = miss"
      unfolding miss_def by (auto simp: filter_id_conv)
    show "tres_id ` set miss = fst ` set reqs - set (map tres_id (filter is_ToolResponse kept))"
      unfolding miss_def using missing_keys[OF assms(2)] settle_blocks_seen[OF sb] by simp
    show "ru = None \<longleftrightarrow> kept @ miss = []" using res by (auto split: if_splits)
    show "\<forall>m'. ru = Some m' \<longrightarrow> m' = m\<lparr>msg_content := kept @ miss\<rparr>"
      using res settle_blocks_unchanged[OF sb] by (auto split: if_splits)
    show "distinct (map tres_id (filter is_ToolResponse kept))"
      using settle_blocks_distinct[OF sb] by simp
    show "filter (\<lambda>b. \<not> is_ToolResponse b) kept = filter (\<lambda>b. \<not> is_ToolResponse b) (msg_content m)"
      by (rule settle_blocks_others[OF sb])
  qed
qed

text \<open>
  The contract of \<open>_settle_user_message\<close>: the settled turn answers every request, and each of its
  results whose tool is known belongs to a request or to a synthetic request made for an orphan.
\<close>

lemma settle_user_message_contract:
  assumes "settle_user_message m reqs answered = (ru, ors, answered')"
    and "request_map_ok reqs"
  shows "ru = None \<Longrightarrow> fst ` set reqs = {} \<and> ors = []"
    and "ru = Some m' \<Longrightarrow> msg_role m' = msg_role m"
    and "list_all is_ToolRequest (synthetic_tool_requests ors reqs)"
    and "ru = Some m' \<Longrightarrow>
      fst ` set reqs \<union> treq_id ` set (synthetic_tool_requests ors reqs) \<subseteq> response_ids m'"
    and "ru = Some m' \<Longrightarrow>
      known_response_ids m' \<subseteq> fst ` set reqs \<union> treq_id ` set (synthetic_tool_requests ors reqs)"
proof -
  obtain kept miss where e:
    "ors = filter (\<lambda>b. is_ToolResponse b \<and> tres_id b \<notin> fst ` set reqs) kept"
    "\<forall>b \<in> set ors. tool_name_for_response b reqs = tres_tool_name b"
    "filter is_ToolResponse miss = miss"
    "tres_id ` set miss = fst ` set reqs - set (map tres_id (filter is_ToolResponse kept))"
    "ru = None \<longleftrightarrow> kept @ miss = []"
    "\<forall>m'. ru = Some m' \<longrightarrow> m' = m\<lparr>msg_content := kept @ miss\<rparr>"
    "distinct (map tres_id (filter is_ToolResponse kept))"
    by (rule settle_user_messageE[OF assms])
  have ids: "treq_id ` set (synthetic_tool_requests ors reqs) =
      tres_id ` {b \<in> set ors. tres_tool_name b \<noteq> unknown_tool}"
    using e(2) by (intro synthetic_tool_requests_ids) blast
  show "list_all is_ToolRequest (synthetic_tool_requests ors reqs)"
    using e(2) by (intro synthetic_tool_requests_ids) blast
  show "ru = None \<Longrightarrow> fst ` set reqs = {} \<and> ors = []" using e by auto
  show "ru = Some m' \<Longrightarrow> msg_role m' = msg_role m" using e(6) by simp
  assume "ru = Some m'"
  then have m': "msg_content m' = kept @ miss" using e(6) by simp
  have "tres_id ` set (filter is_ToolResponse kept) \<union> tres_id ` set miss \<subseteq> response_ids m'"
    by (simp add: response_ids_def tool_responses_def m' e(3) image_Un)
  moreover from this have "tres_id ` {b \<in> set ors. tres_tool_name b \<noteq> unknown_tool} \<subseteq> response_ids m'"
    using e(1) by auto
  ultimately show "fst ` set reqs \<union> treq_id ` set (synthetic_tool_requests ors reqs) \<subseteq> response_ids m'"
    unfolding ids using e(4) by auto
  have "i \<in> fst ` set reqs \<union> treq_id ` set (synthetic_tool_requests ors reqs)"
    if i: "i \<in> known_response_ids m'" for i
  proof -
    obtain b where b: "b \<in> set (kept @ miss)" "is_ToolResponse b" "tres_id b = i"
        "tres_tool_name b \<noteq> unknown_tool"
      using i m' by (auto simp: known_response_ids_def tool_responses_def)
    then have "i \<in> tres_id ` set miss \<or> i \<in> fst ` set reqs \<or> b \<in> set ors"
      by (auto simp: e(1))
    then show ?thesis unfolding ids using b e(4) by blast
  qed
  then show "known_response_ids m' \<subseteq> fst ` set reqs \<union> treq_id ` set (synthetic_tool_requests ors reqs)"
    by blast
qed

section \<open>Induction over the repair loop\<close>

lemma repair_loop_settled:
  assumes "msg_role msg = Assistant" and "tool_requests (repair_assistant_message msg) = rs"
    and "rs \<noteq> []" and "msg_role nxt = User"
    and "settle_user_message nxt (requests_by_id rs) answered = (ru, ors, answered')"
  shows "repair_loop out answered (msg # nxt # rest) =
    repair_loop (append_message (append_synthetic_requests (out @ [repair_assistant_message msg])
      (synthetic_tool_requests ors (requests_by_id rs))) ru) answered' rest"
  using assms by (subst repair_loop.simps(2)) (simp add: Let_def del: repair_loop.simps)

lemma repair_loop_unanswered:
  assumes "msg_role msg = Assistant" and "tool_requests (repair_assistant_message msg) = rs"
    and "rs \<noteq> []" and "rest = [] \<or> msg_role (hd rest) \<noteq> User"
  shows "repair_loop out answered (msg # rest) =
    repair_loop (out @ [repair_assistant_message msg, new_message User (map synthetic_error_response rs)])
      (answered \<union> treq_id ` set rs) rest"
  using assms
  by (subst repair_loop.simps(2)) (cases rest; simp add: Let_def del: repair_loop.simps)

lemma repair_loop_results:
  assumes "msg_role msg = User" and "tool_responses msg \<noteq> []"
    and "reqs = (if out \<noteq> [] \<and> msg_role (last out) = Assistant
      then requests_by_id (tool_requests (last out)) else [])"
    and "settle_user_message msg reqs answered = (ru, ors, answered')"
  shows "repair_loop out answered (msg # rest) =
    repair_loop (append_message (append_synthetic_requests out (synthetic_tool_requests ors reqs)) ru)
      answered' rest"
  unfolding repair_loop.simps(2) assms(3)[symmetric] using assms(1,2,4)
  by (simp add: Let_def del: repair_loop.simps)

lemma repair_loop_plain:
  "msg_role msg = Assistant \<Longrightarrow> tool_requests (repair_assistant_message msg) = [] \<Longrightarrow>
    repair_loop out answered (msg # rest) = repair_loop (out @ [repair_assistant_message msg]) answered rest"
  "msg_role msg \<noteq> Assistant \<Longrightarrow> \<not> (msg_role msg = User \<and> tool_responses msg \<noteq> []) \<Longrightarrow>
    repair_loop out answered (msg # rest) = repair_loop (out @ [msg]) answered rest"
  unfolding repair_loop.simps(2)
  subgoal by (simp add: Let_def del: repair_loop.simps)
  subgoal premises p unfolding if_not_P[OF p(1)] if_not_P[OF p(2)] ..
  done

declare repair_loop.simps(2) [simp del]

lemma tool_requests_all [simp]: "list_all is_ToolRequest (tool_requests m)"
  by (simp add: tool_requests_def list.pred_set)

lemma repair_loop_rule [case_names Done Settled Unanswered Plain Results Other]:
  assumes nil: "\<And>out answered. P out answered [] out"
    and settled: "\<And>out answered msg nxt rest rs ru ors answered' r.
      msg_role msg = Assistant \<Longrightarrow> tool_requests (repair_assistant_message msg) = rs \<Longrightarrow> rs \<noteq> [] \<Longrightarrow>
      msg_role nxt = User \<Longrightarrow>
      settle_user_message nxt (requests_by_id rs) answered = (ru, ors, answered') \<Longrightarrow>
      request_map_ok (requests_by_id rs) \<Longrightarrow>
      P (append_message (append_synthetic_requests (out @ [repair_assistant_message msg])
        (synthetic_tool_requests ors (requests_by_id rs))) ru) answered' rest r \<Longrightarrow>
      P out answered (msg # nxt # rest) r"
    and unanswered: "\<And>out answered msg rest rs r.
      msg_role msg = Assistant \<Longrightarrow> tool_requests (repair_assistant_message msg) = rs \<Longrightarrow> rs \<noteq> [] \<Longrightarrow>
      rest = [] \<or> msg_role (hd rest) \<noteq> User \<Longrightarrow>
      P (out @ [repair_assistant_message msg, new_message User (map synthetic_error_response rs)])
        (answered \<union> treq_id ` set rs) rest r \<Longrightarrow>
      P out answered (msg # rest) r"
    and plain: "\<And>out answered msg rest r.
      msg_role msg = Assistant \<Longrightarrow> tool_requests (repair_assistant_message msg) = [] \<Longrightarrow>
      P (out @ [repair_assistant_message msg]) answered rest r \<Longrightarrow> P out answered (msg # rest) r"
    and results: "\<And>out answered msg rest reqs ru ors answered' r.
      msg_role msg = User \<Longrightarrow> tool_responses msg \<noteq> [] \<Longrightarrow>
      reqs = (if out \<noteq> [] \<and> msg_role (last out) = Assistant
        then requests_by_id (tool_requests (last out)) else []) \<Longrightarrow>
      request_map_ok reqs \<Longrightarrow>
      settle_user_message msg reqs answered = (ru, ors, answered') \<Longrightarrow>
      P (append_message (append_synthetic_requests out (synthetic_tool_requests ors reqs)) ru)
        answered' rest r \<Longrightarrow> P out answered (msg # rest) r"
    and other: "\<And>out answered msg rest r.
      msg_role msg \<noteq> Assistant \<Longrightarrow> \<not> (msg_role msg = User \<and> tool_responses msg \<noteq> []) \<Longrightarrow>
      P (out @ [msg]) answered rest r \<Longrightarrow> P out answered (msg # rest) r"
  shows "P out answered msgs (repair_loop out answered msgs)"
proof (induction msgs arbitrary: out answered rule: length_induct)
  case (1 msgs)
  note IH = "1.IH"[rule_format]
  show ?case
  proof (cases msgs)
    case Nil
    then show ?thesis by (simp add: nil)
  next
    case (Cons msg rest)
    define rs where "rs = tool_requests (repair_assistant_message msg)"
    note rs = rs_def[symmetric]
    have ok: "request_map_ok (requests_by_id rs)"
      unfolding rs_def by (rule request_map_ok_requests_by_id) simp
    define reqs where "reqs = (if out \<noteq> [] \<and> msg_role (last out) = Assistant
      then requests_by_id (tool_requests (last out)) else [])"
    have ok': "request_map_ok reqs"
      unfolding reqs_def by (simp add: request_map_ok_requests_by_id)
    have shorter: "length rest < length msgs" "length rest' < length msgs" if "rest = nxt # rest'" for nxt rest'
      using Cons that by simp_all
    consider (settled) nxt rest' where "msg_role msg = Assistant" "rs \<noteq> []"
        "rest = nxt # rest'" "msg_role nxt = User"
      | (unanswered) "msg_role msg = Assistant" "rs \<noteq> []" "rest = [] \<or> msg_role (hd rest) \<noteq> User"
      | (plain) "msg_role msg = Assistant" "rs = []"
      | (results) "msg_role msg = User" "tool_responses msg \<noteq> []"
      | (other) "msg_role msg \<noteq> Assistant" "\<not> (msg_role msg = User \<and> tool_responses msg \<noteq> [])"
      by (cases rest) auto
    then show ?thesis
    proof cases
      case (settled nxt rest')
      obtain ru ors answered' where s:
        "settle_user_message nxt (requests_by_id rs) answered = (ru, ors, answered')"
        by (cases "settle_user_message nxt (requests_by_id rs) answered")
      show ?thesis
        unfolding Cons settled(3) repair_loop_settled[OF settled(1) rs settled(2,4) s]
        by (intro assms(2)[OF settled(1) rs settled(2,4) s ok] IH shorter(2)[OF settled(3)])
    next
      case unanswered
      show ?thesis
        unfolding Cons repair_loop_unanswered[OF unanswered(1) rs unanswered(2,3)]
        by (intro assms(3)[OF unanswered(1) rs unanswered(2,3)] IH) (simp add: Cons)
    next
      case p: plain
      show ?thesis
        unfolding Cons repair_loop_plain(1)[OF p(1) p(2)[unfolded rs_def]]
        by (intro assms(4)[OF p(1) p(2)[unfolded rs_def]] IH) (simp add: Cons)
    next
      case r: results
      obtain ru ors answered' where s: "settle_user_message msg reqs answered = (ru, ors, answered')"
        by (cases "settle_user_message msg reqs answered")
      show ?thesis
        unfolding Cons repair_loop_results[OF r reqs_def s]
        by (intro assms(5)[OF r reqs_def ok' s] IH) (simp add: Cons)
    next
      case o: other
      show ?thesis
        unfolding Cons repair_loop_plain(2)[OF o]
        by (intro assms(6)[OF o] IH) (simp add: Cons)
    qed
  qed
qed

end
