(* ===== verification/Transform_Context.thy ===== *)
theory Transform_Context
  imports Tool_Integrity
begin

text \<open>
  \<open>core/messages/transform_context.py\<close>: what of a stored history reaches a provider. UI-only
  blocks and the thinking of completed replies are stripped, adjacent messages of one role are
  merged, tool turns are repaired, and the result is merged again. The property group shows that
  what comes out is a legal provider payload: alternating roles, no UI-only block, every tool
  request answered in the next message and every named tool result requested in the one before.
\<close>

section \<open>The operations\<close>

definition provider_excluded :: "content_block \<Rightarrow> bool" where
  \<comment> \<open>\<open>isinstance(b, _PROVIDER_EXCLUDED_BLOCKS)\<close>\<close>
  "provider_excluded b \<longleftrightarrow>
     is_AttachmentDescriptor b \<or> is_ToolConfirmationRequest b \<or> is_FrontendToolRequest b
     \<or> is_ActionRequired b \<or> is_SystemNotification b"

definition provider_visible_blocks :: "message \<Rightarrow> content_block list" where
  "provider_visible_blocks m =
     (let has_tool_request = list_ex is_ToolRequest (msg_content m);
          drop_thinking = (msg_role m = Assistant \<and> \<not> has_tool_request)
      in filter (\<lambda>b. \<not> provider_excluded b
           \<and> \<not> (drop_thinking \<and> (is_Thinking b \<or> is_RedactedThinking b))) (msg_content m))"

definition is_provider_visible :: "message \<Rightarrow> bool" where
  "is_provider_visible m \<longleftrightarrow> provider_visible_blocks m \<noteq> [] \<or> msg_content m = []"

fun strip_non_provider_blocks :: "message list \<Rightarrow> message list" where
  "strip_non_provider_blocks [] = []"
| "strip_non_provider_blocks (msg # ms) =
     (let kept = provider_visible_blocks msg
      in if kept = [] \<and> msg_content msg \<noteq> [] then strip_non_provider_blocks ms
         else (if length kept = length (msg_content msg) then msg else msg\<lparr>msg_content := kept\<rparr>)
              # strip_non_provider_blocks ms)"

definition coalesce_step :: "message list \<Rightarrow> message \<Rightarrow> message list" where
  \<comment> \<open>one iteration of the loop over the tail: merge into the last output row or append\<close>
  "coalesce_step out msg =
     (if out \<noteq> [] \<and> msg_role msg = msg_role (last out)
      then butlast out @ [(last out)\<lparr>msg_content := msg_content (last out) @ msg_content msg\<rparr>]
      else out @ [msg])"

definition coalesce_adjacent_same_role :: "message list \<Rightarrow> message list" where
  "coalesce_adjacent_same_role messages = foldl coalesce_step [] messages"

definition transform_context :: "message list \<Rightarrow> message list" where
  "transform_context messages =
     (let visible = coalesce_adjacent_same_role (strip_non_provider_blocks messages)
      in coalesce_adjacent_same_role (repair_tool_turn_integrity visible))"

section \<open>The payload a provider accepts\<close>

definition turn_pair_ok :: "message \<Rightarrow> message \<Rightarrow> bool" where
  "turn_pair_ok m n \<longleftrightarrow>
     (msg_role m = Assistant \<and> tool_requests m \<noteq> [] \<longrightarrow>
        msg_role n = User \<and> request_ids m \<subseteq> response_ids n)
     \<and> (msg_role n = User \<longrightarrow>
        known_response_ids n \<subseteq> (if msg_role m = Assistant then request_ids m else {}))"

definition turn_closed :: "message \<Rightarrow> bool" where
  \<comment> \<open>a message that may end a payload: no request waits for a result\<close>
  "turn_closed m \<longleftrightarrow> (msg_role m = Assistant \<longrightarrow> tool_requests m = [])"

definition turn_opens :: "message \<Rightarrow> bool" where
  \<comment> \<open>a message that may start a payload: no named result lacks its request\<close>
  "turn_opens m \<longleftrightarrow> (msg_role m = User \<longrightarrow> known_response_ids m = {})"

definition tool_turns_paired :: "message list \<Rightarrow> bool" where
  "tool_turns_paired ms \<longleftrightarrow>
     successively turn_pair_ok ms
     \<and> (ms \<noteq> [] \<longrightarrow> turn_opens (hd ms) \<and> turn_closed (last ms))"

definition roles_alternate :: "message list \<Rightarrow> bool" where
  "roles_alternate ms \<longleftrightarrow> successively (\<lambda>m n. msg_role m \<noteq> msg_role n) ms"

section \<open>Merging adjacent rows\<close>

lemma coalesce_Nil [simp]: "coalesce_adjacent_same_role [] = []"
  by (simp add: coalesce_adjacent_same_role_def)

lemma coalesce_snoc [simp]:
  "coalesce_adjacent_same_role (xs @ [m]) = coalesce_step (coalesce_adjacent_same_role xs) m"
  by (simp add: coalesce_adjacent_same_role_def)

lemma coalesce_snoc2 [simp]:
  "coalesce_adjacent_same_role (xs @ [m, n]) =
    coalesce_step (coalesce_step (coalesce_adjacent_same_role xs) m) n"
  by (simp add: coalesce_adjacent_same_role_def)

lemma coalesce_step_not_Nil [simp]: "coalesce_step out m \<noteq> []"
  by (simp add: coalesce_step_def)

lemma coalesce_eq_Nil_iff [simp]: "coalesce_adjacent_same_role xs = [] \<longleftrightarrow> xs = []"
  by (cases xs rule: rev_cases) auto

lemma coalesce_step_append:
  "out = [] \<or> msg_role (last out) \<noteq> msg_role m \<Longrightarrow> coalesce_step out m = out @ [m]"
  by (auto simp: coalesce_step_def)

lemma coalesce_step_merge:
  "msg_role p = msg_role m \<Longrightarrow>
    coalesce_step (out @ [p]) m = out @ [p\<lparr>msg_content := msg_content p @ msg_content m\<rparr>]"
  by (simp add: coalesce_step_def)

lemma roles_alternate_step: "roles_alternate out \<Longrightarrow> roles_alternate (coalesce_step out m)"
  by (cases out rule: rev_cases)
    (auto simp: roles_alternate_def coalesce_step_def successively_append_iff)

lemma roles_alternate_coalesce: "roles_alternate (coalesce_adjacent_same_role xs)"
  by (induction xs rule: rev_induct) (auto simp: roles_alternate_step roles_alternate_def[of "[]"])

lemma last_coalesce:
  assumes "xs \<noteq> []"
  shows "msg_role (last (coalesce_adjacent_same_role xs)) = msg_role (last xs)"
    and "set (msg_content (last xs)) \<subseteq> set (msg_content (last (coalesce_adjacent_same_role xs)))"
  using assms by (cases xs rule: rev_cases; auto simp: coalesce_step_def)+

lemma coalesce_alternating: "roles_alternate xs \<Longrightarrow> coalesce_adjacent_same_role xs = xs"
proof (induction xs rule: rev_induct)
  case (snoc m xs)
  then have "coalesce_adjacent_same_role xs = xs"
    by (simp add: roles_alternate_def successively_append_iff)
  moreover have "xs = [] \<or> msg_role (last xs) \<noteq> msg_role m"
    using snoc.prems by (auto simp: roles_alternate_def successively_append_iff)
  ultimately show ?case by (simp add: coalesce_step_append)
qed simp

section \<open>Pushing repaired rows onto a paired payload\<close>

text \<open>Each lemma is one way the repair loop grows its output, seen through the final merge.\<close>

lemma tool_requests_append:
  "tool_requests (m\<lparr>msg_content := bs @ cs\<rparr>) = filter is_ToolRequest bs @ filter is_ToolRequest cs"
  by (simp add: tool_requests_def)

lemma tool_turns_paired_snoc:
  "tool_turns_paired (xs @ [m]) \<longleftrightarrow>
     successively turn_pair_ok xs \<and> (xs \<noteq> [] \<longrightarrow> turn_pair_ok (last xs) m)
     \<and> turn_opens (if xs = [] then m else hd xs) \<and> turn_closed m"
  by (auto simp: tool_turns_paired_def successively_append_iff hd_append)

lemma turn_pair_ok_nonuser:
  "turn_closed m \<Longrightarrow> msg_role n \<noteq> User \<Longrightarrow> turn_pair_ok m n"
  by (auto simp: turn_pair_ok_def turn_closed_def)

lemma turn_pair_ok_nonuser_D:
  "turn_pair_ok m n \<Longrightarrow> msg_role n \<noteq> User \<Longrightarrow> turn_closed m"
  by (auto simp: turn_pair_ok_def turn_closed_def)

text \<open>
  \<open>open_row C m\<close>: \<open>C\<close> is a paired payload up to its last row \<open>m\<close>, an assistant row whose
  requests are still to be answered.
\<close>

definition open_row :: "message list \<Rightarrow> message \<Rightarrow> bool" where
  "open_row C m \<longleftrightarrow> msg_role m = Assistant \<and> successively turn_pair_ok C
     \<and> (C \<noteq> [] \<longrightarrow> turn_opens (hd C) \<and> turn_closed (last C))"

lemma push_assistant:
  assumes "tool_turns_paired C" and "msg_role m = Assistant"
  obtains C' p where "coalesce_step C m = C' @ [p]" and "open_row C' p"
    and "tool_requests p = tool_requests m"
proof (cases C rule: rev_cases)
  case Nil
  then show thesis using assms that[of "[]" m] by (simp add: coalesce_step_def open_row_def)
next
  case (snoc D q)
  show thesis
  proof (cases "msg_role q = Assistant")
    case True
    let ?p = "q\<lparr>msg_content := msg_content q @ msg_content m\<rparr>"
    have "tool_requests q = []" using assms(1) True snoc
      by (simp add: tool_turns_paired_snoc turn_closed_def)
    then have "tool_requests ?p = tool_requests m" by (simp add: tool_requests_def)
    moreover have "open_row D ?p"
      using assms(1) True snoc
      by (auto simp: open_row_def tool_turns_paired_snoc dest: turn_pair_ok_nonuser_D split: if_splits)
    ultimately show thesis
      using that[of D ?p] True assms(2) snoc by (simp add: coalesce_step_merge)
  next
    case False
    then show thesis
      using that[of C m] assms snoc by (auto simp: open_row_def coalesce_step_append tool_turns_paired_def)
  qed
qed

lemma push_more_requests:
  assumes "open_row C p" and "list_all is_ToolRequest rs"
  obtains p' where "coalesce_step (C @ [p]) (new_message Assistant rs) = C @ [p']"
    and "open_row C p'" and "set (tool_requests p') = set (tool_requests p) \<union> set rs"
proof
  let ?p = "p\<lparr>msg_content := msg_content p @ rs\<rparr>"
  show "coalesce_step (C @ [p]) (new_message Assistant rs) = C @ [?p]"
    using assms(1) by (simp add: coalesce_step_merge open_row_def new_message_def)
  show "open_row C ?p" using assms(1) by (simp add: open_row_def)
  show "set (tool_requests ?p) = set (tool_requests p) \<union> set rs"
    using assms(2) by (auto simp: tool_requests_def list.pred_set)
qed

lemma push_answer:
  assumes "open_row C p" and "msg_role u = User"
    and "request_ids p \<subseteq> response_ids u" and "known_response_ids u \<subseteq> request_ids p"
  shows "tool_turns_paired (coalesce_step (C @ [p]) u)"
    and "last (coalesce_step (C @ [p]) u) = u"
proof -
  have step: "coalesce_step (C @ [p]) u = (C @ [p]) @ [u]"
    using assms by (intro coalesce_step_append) (simp add: open_row_def)
  have "turn_pair_ok p u" using assms by (simp add: turn_pair_ok_def open_row_def)
  moreover have "C \<noteq> [] \<Longrightarrow> turn_pair_ok (last C) p"
    using assms(1) by (auto simp: open_row_def intro: turn_pair_ok_nonuser)
  ultimately show "tool_turns_paired (coalesce_step (C @ [p]) u)"
    unfolding step tool_turns_paired_snoc using assms(1,2)
    by (auto simp: open_row_def successively_append_iff turn_closed_def turn_opens_def hd_append)
  show "last (coalesce_step (C @ [p]) u) = u" by (simp add: step)
qed

lemma push_plain:
  assumes "tool_turns_paired C" and "turn_closed m" and "turn_opens m"
    and "C \<noteq> [] \<Longrightarrow> msg_role m = User \<Longrightarrow> msg_role (last C) \<noteq> User"
  shows "tool_turns_paired (coalesce_step C m)"
    and "msg_role (last (coalesce_step C m)) = msg_role m"
proof -
  show "tool_turns_paired (coalesce_step C m)"
  proof (cases "C \<noteq> [] \<and> msg_role m = msg_role (last C)")
    case True
    then obtain D q where C: "C = D @ [q]" and role: "msg_role q = msg_role m"
      by (cases C rule: rev_cases) auto
    then have "msg_role m \<noteq> User" using True assms(4) by auto
    then show ?thesis using assms(1,2) role
      by (auto simp: C coalesce_step_merge tool_turns_paired_snoc tool_requests_append turn_closed_def
          turn_opens_def tool_requests_def intro!: turn_pair_ok_nonuser dest: turn_pair_ok_nonuser_D
          split: if_splits)
  next
    case False
    have "C \<noteq> [] \<Longrightarrow> turn_pair_ok (last C) m"
      using assms(1,3) by (auto simp: tool_turns_paired_def turn_pair_ok_def turn_closed_def turn_opens_def)
    moreover have "coalesce_step C m = C @ [m]"
      using False by (intro coalesce_step_append) auto
    ultimately show ?thesis using assms(1-3)
      by (simp add: tool_turns_paired_snoc) (simp add: tool_turns_paired_def)
  qed
  show "msg_role (last (coalesce_step C m)) = msg_role m"
    by (simp add: coalesce_step_def)
qed

section \<open>The repair loop\<close>

text \<open>
  \<open>repaired_so_far out msgs\<close>: merged, the output is a paired payload, and the next message to read
  would not be merged into a user row.
\<close>

definition repaired_so_far :: "message list \<Rightarrow> message list \<Rightarrow> bool" where
  "repaired_so_far out msgs \<longleftrightarrow>
     tool_turns_paired (coalesce_adjacent_same_role out)
     \<and> (out \<noteq> [] \<and> msgs \<noteq> [] \<and> msg_role (hd msgs) = User \<longrightarrow> msg_role (last out) \<noteq> User)"

lemma step_settled:
  assumes "tool_turns_paired (coalesce_adjacent_same_role out)" and "msg_role a = Assistant"
    and "tool_requests a \<noteq> []"
    and "settle_user_message u (requests_by_id (tool_requests a)) answered = (ru, ors, answered')"
    and "msg_role u = User"
  obtains u' where "ru = Some u'" and "msg_role u' = User"
    and "tool_turns_paired (coalesce_adjacent_same_role (append_message
      (append_synthetic_requests (out @ [a])
        (synthetic_tool_requests ors (requests_by_id (tool_requests a)))) ru))"
proof -
  let ?reqs = "requests_by_id (tool_requests a)"
  let ?synth = "synthetic_tool_requests ors ?reqs"
  have ok: "request_map_ok ?reqs" by (rule request_map_ok_requests_by_id) simp
  note c = settle_user_message_contract[OF assms(4) ok]
  obtain u' where u': "ru = Some u'" using c(1) assms(3) by (cases ru) auto
  obtain C p where p: "coalesce_step (coalesce_adjacent_same_role out) a = C @ [p]"
      "open_row C p" "tool_requests p = tool_requests a"
    by (rule push_assistant[OF assms(1,2)])
  obtain p' where p': "open_row C p'" "set (tool_requests p') = set (tool_requests a) \<union> set ?synth"
      "coalesce_adjacent_same_role (append_synthetic_requests (out @ [a]) ?synth) = C @ [p']"
  proof (cases "?synth = []")
    case True
    then show thesis using that[of p] p by (simp add: append_synthetic_requests_def)
  next
    case False
    obtain q where "coalesce_step (C @ [p]) (new_message Assistant ?synth) = C @ [q]" "open_row C q"
        "set (tool_requests q) = set (tool_requests p) \<union> set ?synth"
      by (rule push_more_requests[OF p(2) c(3)])
    then show thesis using that[of q] p False by (simp add: append_synthetic_requests_def)
  qed
  have "request_ids p' = fst ` set ?reqs \<union> treq_id ` set ?synth"
    by (simp add: request_ids_def p'(2) image_Un)
  then have "tool_turns_paired (coalesce_step (C @ [p']) u')"
    using c(2)[OF u'] c(4)[OF u'] c(5)[OF u'] assms(5) by (intro push_answer(1)[OF p'(1)]) auto
  then show thesis
    using that[of u'] u' c(2)[OF u'] assms(5) p'(3) by (simp add: append_message_def)
qed

lemma step_unanswered:
  assumes "tool_turns_paired (coalesce_adjacent_same_role out)" and "msg_role a = Assistant"
  shows "tool_turns_paired (coalesce_adjacent_same_role
    (out @ [a, new_message User (map synthetic_error_response (tool_requests a))]))"
proof -
  let ?u = "new_message User (map synthetic_error_response (tool_requests a))"
  obtain C p where p: "coalesce_step (coalesce_adjacent_same_role out) a = C @ [p]"
      "open_row C p" "tool_requests p = tool_requests a"
    by (rule push_assistant[OF assms])
  have ids: "response_ids ?u = request_ids a"
    by (simp add: response_ids_def request_ids_def tool_responses_def new_message_def image_comp
        comp_def filter_True)
  then have "tool_turns_paired (coalesce_step (C @ [p]) ?u)"
    using known_subset_response_ids[of ?u]
    by (intro push_answer(1)[OF p(2)]) (auto simp: request_ids_def p(3) new_message_def)
  then show ?thesis by (simp add: p(1))
qed

lemma step_orphans:
  assumes "tool_turns_paired (coalesce_adjacent_same_role out)" and "msg_role u = User"
    and "out \<noteq> [] \<Longrightarrow> msg_role (last out) \<noteq> User"
    and "settle_user_message u [] answered = (ru, ors, answered')"
  shows "tool_turns_paired (coalesce_adjacent_same_role (append_message
      (append_synthetic_requests out (synthetic_tool_requests ors [])) ru))"
proof (cases ru)
  case None
  then have "ors = []" using settle_user_message_contract(1)[OF assms(4)] by simp
  then show ?thesis using None assms(1)
    by (simp add: append_message_def append_synthetic_requests_def synthetic_tool_requests_def
        map_filter_simps)
next
  case (Some u')
  let ?C = "coalesce_adjacent_same_role out"
  let ?synth = "synthetic_tool_requests ors []"
  note c = settle_user_message_contract[OF assms(4) request_map_ok_Nil]
  have user: "msg_role u' = User" using c(2)[OF Some] assms(2) by simp
  show ?thesis
  proof (cases "?synth = []")
    case True
    have "tool_turns_paired (coalesce_step ?C u')"
    proof (rule push_plain(1)[OF assms(1)])
      show "turn_opens u'" using c(5)[OF Some] True by (simp add: turn_opens_def)
      show "turn_closed u'" using user by (simp add: turn_closed_def)
      show "msg_role (last ?C) \<noteq> User" if "?C \<noteq> []"
        using that last_coalesce(1)[of out] assms(3) by simp
    qed
    then show ?thesis using True Some by (simp add: append_message_def append_synthetic_requests_def)
  next
    case False
    obtain C p where p: "coalesce_step ?C (new_message Assistant ?synth) = C @ [p]" "open_row C p"
        "tool_requests p = tool_requests (new_message Assistant ?synth)"
      by (rule push_assistant[OF assms(1) new_message_simps(1)])
    have "request_ids p = treq_id ` set ?synth"
      using c(3) unfolding request_ids_def p(3)
      by (simp add: tool_requests_def list.pred_set filter_True)
    then have "tool_turns_paired (coalesce_step (C @ [p]) u')"
      using c(4)[OF Some] c(5)[OF Some] user by (intro push_answer(1)[OF p(2)]) auto
    then show ?thesis using False Some p(1)
      by (simp add: append_message_def append_synthetic_requests_def)
  qed
qed

lemma repaired_so_far_D:
  assumes "repaired_so_far out (msg # rest)"
  shows "tool_turns_paired (coalesce_adjacent_same_role out)"
    and "msg_role msg = User \<Longrightarrow> out \<noteq> [] \<Longrightarrow> msg_role (last out) \<noteq> User"
    and "msg_role msg = User \<Longrightarrow> coalesce_adjacent_same_role out \<noteq> [] \<Longrightarrow>
      msg_role (last (coalesce_adjacent_same_role out)) \<noteq> User"
  using assms last_coalesce(1)[of out] by (auto simp: repaired_so_far_def)

lemma no_waiting_request:
  assumes "tool_turns_paired (coalesce_adjacent_same_role out)"
    and "out \<noteq> [] \<and> msg_role (last out) = Assistant"
  shows "tool_requests (last out) = []"
proof -
  have "turn_closed (last (coalesce_adjacent_same_role out))"
    using assms by (simp add: tool_turns_paired_def)
  then have "tool_requests (last (coalesce_adjacent_same_role out)) = []"
    using last_coalesce(1)[of out] assms(2) by (simp add: turn_closed_def)
  then show ?thesis
    using last_coalesce(2)[of out] assms(2) by (auto simp: tool_requests_def filter_empty_conv)
qed

lemma last_append_message [simp]: "last (append_message out (Some u)) = u"
  by (simp add: append_message_def)

lemma append_message_not_Nil [simp]: "append_message out (Some u) \<noteq> []"
  by (simp add: append_message_def)

lemma step_plain:
  assumes "repaired_so_far out (msg # rest)" and "msg_role m = msg_role msg" and "turn_closed m"
    and "msg_role msg = User \<Longrightarrow> tool_responses m = []"
    and "rest = [] \<or> msg_role (hd rest) \<noteq> msg_role msg"
  shows "repaired_so_far (out @ [m]) rest"
proof -
  have "turn_opens m"
    using assms(2,4) by (simp add: turn_opens_def known_response_ids_def)
  then have "tool_turns_paired (coalesce_step (coalesce_adjacent_same_role out) m)"
    using repaired_so_far_D(3)[OF assms(1)] assms(2,3)
    by (intro push_plain(1) repaired_so_far_D(1)[OF assms(1)]) auto
  then show ?thesis using assms(2,5) by (auto simp: repaired_so_far_def)
qed

lemma roles_alternate_ConsD:
  assumes "roles_alternate (m # ms)"
  shows "roles_alternate ms" and "ms = [] \<or> msg_role (hd ms) \<noteq> msg_role m"
  using assms by (cases ms; auto simp: roles_alternate_def)+

lemma repair_loop_paired:
  "roles_alternate msgs \<longrightarrow> repaired_so_far out msgs \<longrightarrow>
    tool_turns_paired (coalesce_adjacent_same_role (repair_loop out answered msgs))"
proof (induction out answered msgs rule: repair_loop_rule[where P = "\<lambda>out answered msgs r.
    roles_alternate msgs \<longrightarrow> repaired_so_far out msgs \<longrightarrow> tool_turns_paired (coalesce_adjacent_same_role r)"])
  case (Done out answered)
  then show ?case by (simp add: repaired_so_far_def)
next
  case (Settled out answered msg nxt rest rs ru ors answered' r)
  show ?case
  proof (intro impI)
    assume alt: "roles_alternate (msg # nxt # rest)" and sofar: "repaired_so_far out (msg # nxt # rest)"
    note rest = roles_alternate_ConsD[OF roles_alternate_ConsD(1)[OF alt]]
    obtain u' where "ru = Some u'" "msg_role u' = User"
      and "tool_turns_paired (coalesce_adjacent_same_role (append_message
        (append_synthetic_requests (out @ [repair_assistant_message msg])
          (synthetic_tool_requests ors (requests_by_id rs))) ru))"
      using step_settled[OF repaired_so_far_D(1)[OF sofar], of "repair_assistant_message msg"
          nxt answered ru ors answered'] Settled(1-5) by simp metis
    then have "repaired_so_far (append_message (append_synthetic_requests
        (out @ [repair_assistant_message msg]) (synthetic_tool_requests ors (requests_by_id rs))) ru) rest"
      using rest(2) Settled(4) by (auto simp: repaired_so_far_def)
    then show "tool_turns_paired (coalesce_adjacent_same_role r)"
      using Settled(7) rest(1) by blast
  qed
next
  case (Unanswered out answered msg rest rs r)
  then show ?case
    using step_unanswered[OF repaired_so_far_D(1), of out msg rest "repair_assistant_message msg"]
    by (auto simp: repaired_so_far_def dest: roles_alternate_ConsD(1))
next
  case (Plain out answered msg rest r)
  then show ?case
    by (auto intro!: step_plain simp: turn_closed_def dest: roles_alternate_ConsD)
next
  case (Results out answered msg rest reqs ru ors answered' r)
  show ?case
  proof (intro impI)
    assume alt: "roles_alternate (msg # rest)" and sofar: "repaired_so_far out (msg # rest)"
    note D = repaired_so_far_D[OF sofar]
    have "reqs = []" using no_waiting_request[OF D(1)] Results(3)
      by (simp add: requests_by_id_def dict_of_list_def)
    then have "tool_turns_paired (coalesce_adjacent_same_role
        (append_message (append_synthetic_requests out (synthetic_tool_requests ors reqs)) ru))"
      using step_orphans[OF D(1) Results(1) D(2)[OF Results(1)]] Results(5) by simp
    then show "tool_turns_paired (coalesce_adjacent_same_role r)"
      using Results(1,6) roles_alternate_ConsD[OF alt] by (auto simp: repaired_so_far_def)
  qed
next
  case (Other out answered msg rest r)
  then show ?case
    by (auto intro!: step_plain simp: turn_closed_def dest: roles_alternate_ConsD)
qed

section \<open>Which blocks the payload can hold\<close>

definition message_blocks :: "message list \<Rightarrow> content_block list" where
  "message_blocks ms = concat (map msg_content ms)"

lemma message_blocks_simps [simp]:
  "message_blocks [] = []"
  "message_blocks (m # ms) = msg_content m @ message_blocks ms"
  "message_blocks (xs @ ys) = message_blocks xs @ message_blocks ys"
  by (simp_all add: message_blocks_def)

lemma message_blocks_coalesce [simp]:
  "message_blocks (coalesce_adjacent_same_role ms) = message_blocks ms"
proof (induction ms rule: rev_induct)
  case (snoc m ms)
  have "message_blocks (coalesce_step out m) = message_blocks out @ msg_content m" for out
    by (cases out rule: rev_cases) (auto simp: coalesce_step_def)
  then show ?case by (simp add: snoc)
qed simp

lemma provider_visible_same:
  "length (provider_visible_blocks m) = length (msg_content m) \<Longrightarrow>
    msg_content m = provider_visible_blocks m"
  unfolding provider_visible_blocks_def Let_def by (rule filter_same_length[symmetric])

lemma strip_no_excluded:
  "b \<in> set (message_blocks (strip_non_provider_blocks ms)) \<Longrightarrow> \<not> provider_excluded b"
proof (induction ms rule: strip_non_provider_blocks.induct)
  case (2 msg ms)
  have "b' \<in> set (provider_visible_blocks msg) \<Longrightarrow> \<not> provider_excluded b'" for b'
    by (simp add: provider_visible_blocks_def Let_def)
  then show ?case using 2 provider_visible_same[of msg] by (auto simp: Let_def split: if_splits)
qed simp

text \<open>Repairing turns keeps every block that is no tool block, in order.\<close>

definition plain_block :: "content_block \<Rightarrow> bool" where
  "plain_block b \<longleftrightarrow> \<not> is_ToolRequest b \<and> \<not> is_ToolResponse b"

definition plain_blocks :: "message list \<Rightarrow> content_block list" where
  "plain_blocks ms = filter plain_block (message_blocks ms)"

lemma plain_blocks_simps [simp]:
  "plain_blocks [] = []"
  "plain_blocks (m # ms) = filter plain_block (msg_content m) @ plain_blocks ms"
  "plain_blocks (xs @ ys) = plain_blocks xs @ plain_blocks ys"
  by (simp_all add: plain_blocks_def)

lemma plain_blocks_repair_assistant:
  "filter plain_block (msg_content (repair_assistant_message m)) = filter plain_block (msg_content m)"
proof -
  have "filter plain_block (map repair_tool_request bs) = filter plain_block bs" for bs
  proof (induction bs)
    case (Cons b bs)
    then show ?case
      by (cases b rule: repair_tool_request.cases) (auto simp: plain_block_def split: json.splits)
  qed simp
  then show ?thesis by (simp add: repair_assistant_message_content)
qed

lemma plain_blocks_tool_blocks:
  "list_all is_ToolRequest bs \<Longrightarrow> filter plain_block bs = []"
  "filter is_ToolResponse bs = bs \<Longrightarrow> filter plain_block bs = []"
  by (auto simp: plain_block_def list.pred_set filter_empty_conv filter_id_conv)

lemma plain_blocks_settle:
  assumes "settle_user_message m reqs answered = (ru, ors, answered')" and "request_map_ok reqs"
  shows "plain_blocks (append_message (append_synthetic_requests out
      (synthetic_tool_requests ors reqs)) ru) = plain_blocks out @ filter plain_block (msg_content m)"
proof -
  obtain kept miss where e: "filter is_ToolResponse miss = miss" "ru = None \<longleftrightarrow> kept @ miss = []"
      "\<forall>m'. ru = Some m' \<longrightarrow> m' = m\<lparr>msg_content := kept @ miss\<rparr>"
      "filter (\<lambda>b. \<not> is_ToolResponse b) kept = filter (\<lambda>b. \<not> is_ToolResponse b) (msg_content m)"
    by (rule settle_user_messageE[OF assms]) blast
  have plain: "filter plain_block bs =
      filter (\<lambda>b. \<not> is_ToolRequest b) (filter (\<lambda>b. \<not> is_ToolResponse b) bs)" for bs
    by (induction bs) (auto simp: plain_block_def)
  have "filter plain_block (kept @ miss) = filter plain_block (msg_content m)"
    using plain[of kept] plain[of "msg_content m"] plain_blocks_tool_blocks(2)[OF e(1)] e(4) by simp
  then have "plain_blocks (append_message out' ru) = plain_blocks out' @ filter plain_block (msg_content m)"
    for out'
    using e(2,3) by (cases ru) (auto simp: append_message_def)
  then show ?thesis
    using plain_blocks_tool_blocks(1)[OF settle_user_message_contract(3)[OF assms]]
    by (simp add: append_synthetic_requests_def)
qed

lemma plain_blocks_repair_loop:
  "plain_blocks (repair_loop out answered msgs) = plain_blocks out @ plain_blocks msgs"
proof (induction rule: repair_loop_rule[where P = "\<lambda>out answered msgs r.
    plain_blocks r = plain_blocks out @ plain_blocks msgs"])
  case (Settled out answered msg nxt rest rs ru ors answered' r)
  then show ?case by (simp add: plain_blocks_settle plain_blocks_repair_assistant)
next
  case (Results out answered msg rest reqs ru ors answered' r)
  then show ?case by (simp add: plain_blocks_settle)
qed (simp_all add: plain_blocks_repair_assistant plain_block_def)

lemma strip_kept_content:
  "filter plain_block (message_blocks (strip_non_provider_blocks ms)) =
    filter plain_block (concat (map provider_visible_blocks ms))"
proof (induction ms rule: strip_non_provider_blocks.induct)
  case (2 msg ms)
  then show ?case
    using provider_visible_same[of msg] by (auto simp: Let_def split: if_splits)
qed simp

section \<open>Healthy histories\<close>

text \<open>
  A message as a well-behaved session stores it: nothing to strip, tool arguments that are
  dictionaries, results with trimmed non-empty tool names and distinct ids.
\<close>

definition healthy_message :: "message \<Rightarrow> bool" where
  "healthy_message m \<longleftrightarrow>
     provider_visible_blocks m = msg_content m
     \<and> list_all (\<lambda>b. repair_tool_request b = b) (msg_content m)
     \<and> list_all (\<lambda>b. py_strip (tres_tool_name b) = tres_tool_name b \<and> tres_tool_name b \<noteq> [])
         (tool_responses m)
     \<and> distinct (map tres_id (tool_responses m))"

definition results_requested :: "message \<Rightarrow> message \<Rightarrow> bool" where
  "results_requested m n \<longleftrightarrow>
     (msg_role n = User \<longrightarrow> response_ids n \<subseteq> (if msg_role m = Assistant then request_ids m else {}))"

definition healthy_history :: "message list \<Rightarrow> bool" where
  "healthy_history ms \<longleftrightarrow>
     list_all healthy_message ms \<and> roles_alternate ms \<and> tool_turns_paired ms
     \<and> successively results_requested ms
     \<and> (ms \<noteq> [] \<and> msg_role (hd ms) = User \<longrightarrow> tool_responses (hd ms) = [])"

lemma repair_assistant_healthy: "healthy_message m \<Longrightarrow> repair_assistant_message m = m"
  by (simp add: repair_assistant_message_def healthy_message_def list.pred_set map_idI Let_def)

lemma repair_tool_response_healthy:
  "py_strip (tres_tool_name b) = tres_tool_name b \<Longrightarrow> tres_tool_name b \<noteq> [] \<Longrightarrow>
    repair_tool_response b reqs = b"
  by (simp add: repair_tool_response_def tool_name_for_response_def Let_def)

lemma settle_blocks_healthy:
  assumes "list_all (\<lambda>b. py_strip (tres_tool_name b) = tres_tool_name b \<and> tres_tool_name b \<noteq> [])
      (filter is_ToolResponse bs)"
    and "distinct (map tres_id (filter is_ToolResponse bs))"
    and "tres_id ` set (filter is_ToolResponse bs) \<subseteq> fst ` set reqs"
    and "seen \<inter> tres_id ` set (filter is_ToolResponse bs) = {}"
  shows "settle_blocks reqs answered seen bs =
    (bs, [], seen \<union> tres_id ` set (filter is_ToolResponse bs), False)"
  using assms
proof (induction bs arbitrary: seen)
  case (Cons b bs)
  show ?case
  proof (cases "is_ToolResponse b")
    case True
    then have "settle_blocks reqs answered (insert (tres_id b) seen) bs =
        (bs, [], insert (tres_id b) seen \<union> tres_id ` set (filter is_ToolResponse bs), False)"
      using Cons.prems by (intro Cons.IH) auto
    moreover have "tres_id b \<notin> seen" "tres_id b \<in> fst ` set reqs" "repair_tool_response b reqs = b"
      using Cons.prems True by (auto intro: repair_tool_response_healthy)
    ultimately show ?thesis using True by (simp add: Let_def)
  next
    case False
    then show ?thesis using Cons by simp
  qed
qed simp

lemma settle_user_message_healthy:
  assumes "healthy_message u" and "response_ids u = fst ` set reqs" and "reqs \<noteq> []"
  shows "settle_user_message u reqs answered = (Some u, [], answered \<union> fst ` set reqs)"
proof -
  have sb: "settle_blocks reqs answered {} (msg_content u) = (msg_content u, [], fst ` set reqs, False)"
    using settle_blocks_healthy[of "msg_content u" reqs "{}" answered] assms(1,2)
    by (simp add: healthy_message_def tool_responses_def response_ids_def)
  have "msg_content u \<noteq> []"
    using assms(2,3) by (auto simp: response_ids_def tool_responses_def)
  moreover have none: "filter (\<lambda>(i, r). i \<notin> fst ` set reqs) reqs = []"
    by (force simp: filter_empty_conv)
  ultimately show ?thesis by (simp add: settle_user_message_def sb none Let_def del: set_filter)
qed

lemma healthy_history_ConsD:
  assumes "healthy_history (m # ms)"
  shows "healthy_message m"
    and "tool_requests m = [] \<or> msg_role m \<noteq> Assistant \<Longrightarrow> healthy_history ms"
    and "msg_role m = Assistant \<Longrightarrow> tool_requests m \<noteq> [] \<Longrightarrow>
      \<exists>u ms'. ms = u # ms' \<and> msg_role u = User \<and> response_ids u = request_ids m
        \<and> healthy_message u \<and> healthy_history ms'"
proof -
  show "healthy_message m" using assms by (simp add: healthy_history_def)
  show "healthy_history ms" if "tool_requests m = [] \<or> msg_role m \<noteq> Assistant"
    using assms that
    by (cases ms) (auto simp: healthy_history_def tool_turns_paired_def roles_alternate_def
        turn_opens_def results_requested_def request_ids_def response_ids_def known_response_ids_def
        split: if_splits)
  assume m: "msg_role m = Assistant" "tool_requests m \<noteq> []"
  then obtain u ms' where ms: "ms = u # ms'"
    using assms by (cases ms) (auto simp: healthy_history_def tool_turns_paired_def turn_closed_def)
  have u: "msg_role u = User" "response_ids u = request_ids m"
    using assms m
    by (auto simp: ms healthy_history_def tool_turns_paired_def turn_pair_ok_def results_requested_def)
  moreover have "healthy_history ms'"
    using assms u by (cases ms') (auto simp: ms healthy_history_def tool_turns_paired_def
        roles_alternate_def turn_opens_def)
  ultimately show "\<exists>u ms'. ms = u # ms' \<and> msg_role u = User \<and> response_ids u = request_ids m
        \<and> healthy_message u \<and> healthy_history ms'"
    using assms ms by (auto simp: healthy_history_def)
qed

lemma repair_loop_healthy: "healthy_history msgs \<Longrightarrow> repair_loop out answered msgs = out @ msgs"
proof (induction msgs arbitrary: out answered rule: length_induct)
  case (1 msgs)
  show ?case
  proof (cases msgs)
    case (Cons m ms)
    note h = healthy_history_ConsD[OF "1.prems"[unfolded Cons]]
    note a = repair_assistant_healthy[OF h(1)]
    have IH: "length xs < length msgs \<Longrightarrow> healthy_history xs \<Longrightarrow> repair_loop out' answered' xs = out' @ xs"
      for xs out' answered'
      using "1.IH" by blast
    show ?thesis
    proof (cases "msg_role m = Assistant \<and> tool_requests m \<noteq> []")
      case True
      then obtain u ms' where u: "ms = u # ms'" "msg_role u = User" "response_ids u = request_ids m"
          "healthy_message u" "healthy_history ms'"
        using h(3) by blast
      have "requests_by_id (tool_requests m) \<noteq> []"
        using True keys_requests_by_id[of "tool_requests m"] by (metis image_is_empty list.set(1) set_empty)
      then have s: "settle_user_message u (requests_by_id (tool_requests m)) answered
          = (Some u, [], answered \<union> request_ids m)"
        using settle_user_message_healthy[OF u(4)] u(3) by (simp add: request_ids_def)
      have "repair_loop out answered (m # u # ms') =
          repair_loop (append_message (append_synthetic_requests (out @ [m])
            (synthetic_tool_requests [] (requests_by_id (tool_requests m)))) (Some u))
            (answered \<union> request_ids m) ms'"
        using repair_loop_settled[OF _ _ _ u(2) s] True a by simp
      then show ?thesis
        using IH[OF _ u(5)] Cons u(1)
        by (simp add: synthetic_tool_requests_def map_filter_simps append_synthetic_requests_def append_message_def)
    next
      case False
      then have "healthy_history ms" using h(2) by blast
      moreover have "\<not> (msg_role m = User \<and> tool_responses m \<noteq> [])"
        using "1.prems" Cons by (auto simp: healthy_history_def)
      ultimately show ?thesis
        using repair_loop_plain[of m out answered ms] IH[of ms] Cons False a by auto
    qed
  qed simp
qed

lemma strip_healthy: "list_all healthy_message ms \<Longrightarrow> strip_non_provider_blocks ms = ms"
  by (induction ms rule: strip_non_provider_blocks.induct) (auto simp: healthy_message_def Let_def)

section \<open>What \<open>transform_context\<close> guarantees\<close>

text \<open>
  C32: for every stored history, whatever crashes or cancellations left in it, \<open>transform_context\<close>
  produces a payload in which roles alternate, every tool request of an assistant row is answered
  in the user row right after it, every tool result with a known tool name was requested in the
  assistant row right before it, and no UI-only block is left.
\<close>
theorem transform_context_payload:
  "roles_alternate (transform_context ms) \<and> tool_turns_paired (transform_context ms)
    \<and> list_all (\<lambda>b. \<not> provider_excluded b) (message_blocks (transform_context ms))"
proof (intro conjI)
  let ?visible = "coalesce_adjacent_same_role (strip_non_provider_blocks ms)"
  show "roles_alternate (transform_context ms)"
    by (simp add: transform_context_def Let_def roles_alternate_coalesce)
  have "repaired_so_far [] ?visible"
    by (simp add: repaired_so_far_def tool_turns_paired_def)
  then show "tool_turns_paired (transform_context ms)"
    using repair_loop_paired[of ?visible "[]" "{}"]
    by (simp add: transform_context_def repair_tool_turn_integrity_def Let_def roles_alternate_coalesce)
  have "plain_blocks (transform_context ms) = filter plain_block (message_blocks (strip_non_provider_blocks ms))"
    using plain_blocks_repair_loop[of "[]" "{}" ?visible]
    by (simp add: transform_context_def repair_tool_turn_integrity_def Let_def plain_blocks_def)
  then have "set (plain_blocks (transform_context ms)) \<subseteq> set (message_blocks (strip_non_provider_blocks ms))"
    by auto
  moreover have "provider_excluded b \<Longrightarrow> plain_block b" for b
    by (cases b) (auto simp: provider_excluded_def plain_block_def)
  ultimately show "list_all (\<lambda>b. \<not> provider_excluded b) (message_blocks (transform_context ms))"
    using strip_no_excluded by (force simp: list.pred_set plain_blocks_def)
qed

text \<open>
  The transformation loses and reorders no visible content: apart from tool requests and tool
  results, the blocks of the payload are exactly the provider-visible blocks of the history, in order.
\<close>
theorem transform_context_content:
  "filter plain_block (message_blocks (transform_context ms)) =
    filter plain_block (concat (map provider_visible_blocks ms))"
  using plain_blocks_repair_loop[of "[]" "{}" "coalesce_adjacent_same_role (strip_non_provider_blocks ms)"]
  by (simp add: transform_context_def repair_tool_turn_integrity_def Let_def plain_blocks_def strip_kept_content)

text \<open>
  A healthy history is replayed untouched: \<open>transform_context\<close> returns it as it is.
\<close>
theorem transform_context_healthy: "healthy_history ms \<Longrightarrow> transform_context ms = ms"
  by (simp add: transform_context_def repair_tool_turn_integrity_def Let_def strip_healthy
      coalesce_alternating repair_loop_healthy healthy_history_def)

theorem transform_context_healthy_witness:
  "transform_context
     [new_message User [Text ''hi''],
      new_message Assistant [ToolRequest ''c1'' ''ls'' (JObj []) None None],
      new_message User [ToolResponse ''c1'' ''ls'' [Text ''ok''] False]] =
     [new_message User [Text ''hi''],
      new_message Assistant [ToolRequest ''c1'' ''ls'' (JObj []) None None],
      new_message User [ToolResponse ''c1'' ''ls'' [Text ''ok''] False]]"
  by (rule transform_context_healthy) code_simp

end
