(* ===== verification/Compaction.thy ===== *)
theory Compaction
  imports Transform_Context
begin

text \<open>
  \<open>core/runtime/history_compaction.py\<close> with \<open>core/attachments/text.py\<close>: a long history is split into a head, a
  middle that a model summarises, and a recent tail within a token budget, and is put together again around
  the summary. A stored row carries the identity of its object, which the code compares. The text of the
  summary comes from a provider and is an argument; the lines the summariser is shown only matter here by whether
  there are any. A fifth of the window is an integer division, which is what the floating-point product gives
  for windows below \<open>2^50\<close>.
  Shown: nothing but the middle is lost, tool results keep their requests, and the row limit holds.
\<close>

section \<open>Sizes\<close>

definition estimate_tokens_from_char_count :: "nat \<Rightarrow> nat" where
  "estimate_tokens_from_char_count n = (if n = 0 then 0 else max 1 (n div 4))"

fun raw_block_char_count :: "content_block \<Rightarrow> nat" where
  "raw_block_char_count (Text t) = length t"
| "raw_block_char_count (ToolRequest i n args perr meta) = length (json_dumps args)"
| "raw_block_char_count (ToolResponse i n bs err) = sum_list (map raw_block_char_count bs)"
| "raw_block_char_count (Image mime data meta) = length data + length mime"
| "raw_block_char_count (File mime data meta) = length data + length mime"
| "raw_block_char_count (Thinking t sig) = length t + length sig"
| "raw_block_char_count (RedactedThinking d) = length d"
| "raw_block_char_count (AttachmentRef i mime meta) = length i + length mime"
| "raw_block_char_count (AttachmentDescriptor i mime d meta) = length ''AttachmentDescriptor''"
| "raw_block_char_count (ToolConfirmationRequest i n args p) = length ''ToolConfirmationRequest''"
| "raw_block_char_count (FrontendToolRequest i n args perr) = length ''FrontendToolRequest''"
| "raw_block_char_count (SystemNotification k m d) = length ''SystemNotification''"
| "raw_block_char_count (ActionRequired d) = length ''ActionRequired''"

definition raw_message_char_count :: "message \<Rightarrow> nat" where
  "raw_message_char_count m = sum_list (map raw_block_char_count (provider_visible_blocks m))"

definition estimate_message_tokens :: "message \<Rightarrow> nat" where
  "estimate_message_tokens m = estimate_tokens_from_char_count (raw_message_char_count m)"

section \<open>Pinned rows\<close>

definition descriptor_end :: "string \<Rightarrow> bool" where
  \<comment> \<open>white space, a description on one line, a full stop and white space\<close>
  "descriptor_end r =
     (let body = dropWhile py_isspace (rev r); x = rev (drop 1 body)
      in body \<noteq> rev r \<and> take 1 body = ''.''
         \<and> list_ex (\<lambda>i. list_all py_isspace (take i x) \<and> nl \<notin> set (drop i x)) [1 ..< length x])"

definition descriptor_file :: "string \<Rightarrow> bool" where
  \<comment> \<open>white space, a file name on one line, white space\<close>
  "descriptor_file t = list_ex (\<lambda>i. list_all py_isspace (take i t)
     \<and> list_ex (\<lambda>j. list_all py_isspace (drop j t) \<and> nl \<notin> set (take (j - i) (drop i t))) [Suc i ..< length t]) [1 ..< length t]"

definition descriptor_middle :: "string \<Rightarrow> bool" where
  "descriptor_middle s = list_ex (\<lambda>j. s ! j = CHR ''(''
     \<and> (let mime = takeWhile (\<lambda>c. c \<noteq> CHR '')'') (drop (Suc j) s); rest = dropWhile (\<lambda>c. c \<noteq> CHR '')'') (drop (Suc j) s)
        in mime \<noteq> [] \<and> startswith rest '')'' \<and> startswith (drop 1 rest) '':'' \<and> descriptor_file (take j s)
           \<and> descriptor_end (drop 2 rest))) [0 ..< length s]"

definition quoted :: "string \<Rightarrow> string" where
  "quoted s = [CHR 0x22] @ s @ [CHR 0x22]"

definition is_attachment_descriptor_text :: "string \<Rightarrow> bool" where
  \<comment> \<open>\<open>parse_attachment_descriptor_text(text) is not None\<close>\<close>
  "is_attachment_descriptor_text s =
     (let t = py_strip s; after = drop 11 t; named = dropWhile py_isspace after;
          aid = takeWhile (\<lambda>c. \<not> py_isspace c) named; rest = dropWhile (\<lambda>c. \<not> py_isspace c) named
      in startswith t ''[attachment'' \<and> named \<noteq> after \<and> aid \<noteq> []
         \<and> list_ex (\<lambda>suffix. endswith rest suffix \<and> descriptor_middle (take (length rest - length suffix) rest))
             [''Call load_file(attachment_id='' @ quoted aid @ '') to reload.]'',
              ''Call read_attachment('' @ quoted aid @ '') to view pixels again.]''])"

definition is_pinned_block :: "content_block \<Rightarrow> bool" where
  "is_pinned_block b = (case b of
       SystemNotification k m d \<Rightarrow> k = ''verifierVerdict''
     | Text t \<Rightarrow> is_attachment_descriptor_text t
     | _ \<Rightarrow> False)"

definition is_pinned_history_row :: "message \<Rightarrow> bool" where
  "is_pinned_history_row m \<longleftrightarrow> msg_content m \<noteq> [] \<and> list_all is_pinned_block (msg_content m)"

section \<open>Splitting\<close>

type_synonym row = "nat \<times> message"

definition is_unpersisted_repair :: "content_block \<Rightarrow> bool" where
  "is_unpersisted_repair b \<longleftrightarrow> tres_is_error b
     \<and> list_ex (\<lambda>part. is_Text part \<and> txt_text part = interrupted_tool_result_text (tres_tool_name b)) (tres_result b)"

definition message_request_ids :: "message \<Rightarrow> string set" where
  "message_request_ids m = set (map treq_id (filter (\<lambda>b. is_ToolRequest b \<and> treq_id b \<noteq> []) (msg_content m)))"

definition message_response_ids :: "message \<Rightarrow> string set" where
  "message_response_ids m =
     set (map tres_id (filter (\<lambda>b. is_ToolResponse b \<and> tres_id b \<noteq> [] \<and> \<not> is_unpersisted_repair b) (msg_content m)))"

definition rows_requests :: "row list \<Rightarrow> string set" where
  "rows_requests rows = (\<Union>r\<in>set rows. message_request_ids (snd r))"

definition rows_responses :: "row list \<Rightarrow> string set" where
  "rows_responses rows = (\<Union>r\<in>set rows. message_response_ids (snd r))"

fun seek_requests :: "string set \<Rightarrow> nat option \<Rightarrow> row list \<Rightarrow> nat \<Rightarrow> string set \<times> nat option" where
  \<comment> \<open>the loop backwards over the first \<open>i\<close> rows\<close>
  "seek_requests missing found rows 0 = (missing, found)"
| "seek_requests missing found rows (Suc i) =
     (let reqs = message_request_ids (snd (rows ! i))
      in if reqs \<inter> missing = {} then seek_requests missing found rows i
         else if missing - reqs = {} then ({}, Some i)
         else seek_requests (missing - reqs) (Some i) rows i)"

definition extend_tail_to_keep_tool_pairs :: "row list \<Rightarrow> row list \<Rightarrow> row list" where
  "extend_tail_to_keep_tool_pairs rows tail =
     (let start_idx = length rows - length tail; missing = rows_responses tail - rows_requests tail
      in if tail = [] \<or> start_idx = 0 \<or> missing = {} then tail
         else (case seek_requests missing None rows start_idx of
             (left, Some i) \<Rightarrow> if left = {} then drop i rows else tail
           | (left, None) \<Rightarrow> tail))"

definition summary_keep_tail_min :: nat where
  "summary_keep_tail_min = 2"

fun take_tail :: "nat \<Rightarrow> nat \<Rightarrow> nat \<Rightarrow> nat \<Rightarrow> nat \<Rightarrow> row list \<Rightarrow> row list" where
  \<comment> \<open>the loop from the newest row: rows taken, visible ones among them, tokens used\<close>
  "take_tail budget max_tail taken visible used [] = []"
| "take_tail budget max_tail taken visible used (r # rs) =
     (if max_tail \<le> taken then []
      else if is_provider_visible (snd r) then
        (let tok = estimate_message_tokens (snd r)
         in if summary_keep_tail_min \<le> visible \<and> budget < used + tok then []
            else r # take_tail budget max_tail (Suc taken) (Suc visible) (used + tok) rs)
      else r # take_tail budget max_tail (Suc taken) visible used rs)"

definition tail_budget :: "int \<Rightarrow> nat" where
  "tail_budget window_tokens = max 1 (nat (max 1 window_tokens div 5))"

definition split_accountable :: "int \<Rightarrow> row list \<Rightarrow> row list \<times> row list \<times> row list" where
  "split_accountable window_tokens rows =
     (if length (filter (\<lambda>r. is_provider_visible (snd r)) rows) < 4 then (rows, [], [])
      else (let head_end = Suc (length (takeWhile (\<lambda>r. \<not> is_provider_visible (snd r)) rows));
                max_tail = length rows - head_end - 1;
                kept = rev (take_tail (tail_budget window_tokens) max_tail 0 0 0 (rev (drop head_end rows)));
                tail = extend_tail_to_keep_tool_pairs rows kept;
                tail_start = length rows - length tail
            in if tail_start < head_end then (take tail_start rows, [], tail)
               else (take head_end rows, take (tail_start - head_end) (drop head_end rows), tail)))"

definition accountable :: "row list \<Rightarrow> row list" where
  "accountable rows = filter (\<lambda>r. \<not> is_pinned_history_row (snd r)) rows"

definition split_messages_for_compaction :: "int \<Rightarrow> row list \<Rightarrow> row list \<times> row list \<times> row list" where
  "split_messages_for_compaction window_tokens rows = split_accountable window_tokens (accountable rows)"

section \<open>Putting together\<close>

fun rebuild_rows :: "nat set \<Rightarrow> nat set \<Rightarrow> message \<Rightarrow> bool \<Rightarrow> row list \<Rightarrow> message list" where
  "rebuild_rows head_ids tail_ids summary placed [] = (if placed then [] else [summary])"
| "rebuild_rows head_ids tail_ids summary placed (r # rs) =
     (if is_pinned_history_row (snd r) \<or> fst r \<in> head_ids then snd r # rebuild_rows head_ids tail_ids summary placed rs
      else (if placed then [] else [summary])
           @ (if fst r \<in> tail_ids then [snd r] else []) @ rebuild_rows head_ids tail_ids summary True rs)"

definition rebuild_compacted_history :: "row list \<Rightarrow> row list \<Rightarrow> message \<Rightarrow> row list \<Rightarrow> message list" where
  "rebuild_compacted_history original head summary tail =
     rebuild_rows (set (map fst head)) (set (map fst tail)) summary False original"

definition protect_recent_count :: "int \<Rightarrow> row list \<Rightarrow> nat" where
  "protect_recent_count window_tokens rows =
     (let (head, middle, tail) = split_messages_for_compaction window_tokens rows
      in if tail = [] then min (length rows) summary_keep_tail_min
         else (case List.find (\<lambda>i. fst (rows ! i) \<in> set (map fst tail)) [0 ..< length rows] of
             Some i \<Rightarrow> length rows - i
           | None \<Rightarrow> length tail))"

fun drop_pinned :: "nat \<Rightarrow> row list \<Rightarrow> row list" where
  \<comment> \<open>drops that many of the oldest pinned rows\<close>
  "drop_pinned n [] = []"
| "drop_pinned n (r # rs) =
     (if 0 < n \<and> is_pinned_history_row (snd r) then drop_pinned (n - 1) rs else r # drop_pinned n rs)"

definition truncate_history_preserving_pins :: "int \<Rightarrow> row list \<Rightarrow> row list" where
  "truncate_history_preserving_pins max_rows rows =
     (if max_rows \<le> 0 then []
      else if int (length rows) \<le> max_rows then rows
      else (let pinned = filter (\<lambda>r. is_pinned_history_row (snd r)) rows; acc = accountable rows;
                keep_n = nat (max_rows - int (length pinned));
                keep_ids = set (map fst (drop (length acc - keep_n) acc)) \<union> set (map fst pinned);
                kept = filter (\<lambda>r. fst r \<in> keep_ids) rows
            in if int (length kept) \<le> max_rows then kept
               else drop_pinned (length kept - nat max_rows) kept))"

section \<open>The summary row\<close>

definition context_summary_prefix :: string where
  "context_summary_prefix = ''[Context Summary]:''"

definition workspace_state_heading :: string where
  "workspace_state_heading = ''## Workspace state (harness-generated)''"

definition standing_heading :: string where
  "standing_heading = ''## Standing instructions (still in effect after compaction)''"

definition post_compaction_standing :: string where
  "post_compaction_standing = standing_heading @ [nl]
     @ ''Harness rules still apply: prefer `grep` / `glob` before broad exploration for codebase Q&A; ''
     @ ''`read_file` (or `glob` for binary assets) before `Evidence:` citations; keep incremental ''
     @ ''answers in a workspace file for long multi-item tasks; preserve any user answer-format ''
     @ ''contract verbatim. File contents seen before this point are gone from context: `read_file` ''
     @ ''again before editing.''"

fun before_text :: "string \<Rightarrow> string \<Rightarrow> string" where
  \<comment> \<open>\<open>s.split(sep)[0]\<close>\<close>
  "before_text sep [] = []"
| "before_text sep (c # cs) = (if startswith (c # cs) sep then [] else c # before_text sep cs)"

definition or_empty_summary :: "string \<Rightarrow> string" where
  "or_empty_summary s = (if s = [] then ''(empty summary)'' else s)"

definition finalize_summary_row :: "string \<Rightarrow> string option \<Rightarrow> message" where
  "finalize_summary_row raw workspace_trailer =
     (let base = or_empty_summary (py_strip raw);
          body = (case workspace_trailer of
              None \<Rightarrow> base
            | Some tr \<Rightarrow> if tr = [] then base
                else or_empty_summary (py_rstrip (before_text workspace_state_heading base)) @ [nl, nl] @ tr)
      in new_message Assistant [Text (context_summary_prefix @ [nl] @ body
           @ (if text_contains body standing_heading then [] else [nl, nl] @ post_compaction_standing))])"

definition has_summary_lines :: "row list \<Rightarrow> bool" where
  \<comment> \<open>\<open>_middle_summary_lines\<close> is not empty: a row has no line exactly when none of its content is visible\<close>
  "has_summary_lines middle \<longleftrightarrow> list_ex (\<lambda>r. is_provider_visible (snd r)) middle"

definition summarization_viable :: "int \<Rightarrow> row list \<Rightarrow> bool" where
  "summarization_viable window_tokens rows = (let (h, m, t) = split_messages_for_compaction window_tokens rows in has_summary_lines m)"

definition summarize_history :: "int \<Rightarrow> string \<Rightarrow> string option \<Rightarrow> row list \<Rightarrow> nat \<times> message list option" where
  \<comment> \<open>the number of rows summarised, and what the history is reset to; \<open>generated\<close> is what the provider streams\<close>
  "summarize_history window_tokens generated workspace_trailer rows =
     (let (head, middle, tail) = split_messages_for_compaction window_tokens rows
      in if \<not> has_summary_lines middle then (0, None)
         else (length middle, Some (rebuild_compacted_history rows head
                 (finalize_summary_row (or_empty_summary (py_strip generated)) workspace_trailer) tail)))"

section \<open>Only the middle is replaced\<close>

lemma take_tail_prefix: "\<exists>ys. xs = take_tail b mt k v u xs @ ys"
proof (induction xs arbitrary: k v u)
  case (Cons x xs)
  have "\<exists>ys. x # xs = (x # take_tail b mt k' v' u' xs) @ ys" for k' v' u' using Cons.IH by simp
  then show ?case by (auto simp: Let_def)
qed simp

lemma kept_suffix: "\<exists>ys. rows = ys @ rev (take_tail b mt k v u (rev (drop h rows)))"
proof -
  obtain ys where "rev (drop h rows) = take_tail b mt k v u (rev (drop h rows)) @ ys" using take_tail_prefix by blast
  then have "drop h rows = rev ys @ rev (take_tail b mt k v u (rev (drop h rows)))" by (metis rev_append rev_rev_ident)
  then have "rows = (take h rows @ rev ys) @ rev (take_tail b mt k v u (rev (drop h rows)))" by (metis append.assoc append_take_drop_id)
  then show ?thesis by blast
qed

lemma extend_suffix:
  assumes "rows = ys @ tail"
  shows "\<exists>zs. rows = zs @ extend_tail_to_keep_tool_pairs rows tail"
proof -
  have "\<exists>zs. rows = zs @ drop i rows" for i by (metis append_take_drop_id)
  then show ?thesis using assms by (auto simp: extend_tail_to_keep_tool_pairs_def Let_def split: prod.splits option.splits)
qed

lemma split_partition:
  assumes "split_accountable w rows = (head, middle, tail)"
  shows "rows = head @ middle @ tail"
proof (cases "length (filter (\<lambda>r. is_provider_visible (snd r)) rows) < 4")
  case False
  define h where "h = Suc (length (takeWhile (\<lambda>r. \<not> is_provider_visible (snd r)) rows))"
  define kept where "kept = rev (take_tail (tail_budget w) (length rows - h - 1) 0 0 0 (rev (drop h rows)))"
  define t where "t = extend_tail_to_keep_tool_pairs rows kept"
  define s where "s = length rows - length t"
  have "split_accountable w rows = (if s < h then (take s rows, [], t) else (take h rows, take (s - h) (drop h rows), t))"
    using False by (simp only: split_accountable_def Let_def h_def kept_def t_def s_def if_False)
  then have split: "(head, middle, tail) = (if s < h then (take s rows, [], t) else (take h rows, take (s - h) (drop h rows), t))"
    using assms by simp
  obtain zs where zs: "rows = zs @ t" using kept_suffix extend_suffix unfolding t_def kept_def by metis
  then have "t = drop s rows" by (simp add: s_def)
  moreover have "take h rows @ take (s - h) (drop h rows) = take s rows" if "h \<le> s" using that by (metis le_add_diff_inverse take_add)
  ultimately show ?thesis using split by (auto split: if_splits simp flip: append_assoc)
qed (use assms in \<open>simp add: split_accountable_def\<close>)

lemma rebuild_placed: "rebuild_rows hs ts s True rows
    = map snd (filter (\<lambda>r. is_pinned_history_row (snd r) \<or> fst r \<in> hs \<or> fst r \<in> ts) rows)"
  by (induction rows) auto

definition before_middle :: "nat set \<Rightarrow> row \<Rightarrow> bool" where
  "before_middle hs r \<longleftrightarrow> is_pinned_history_row (snd r) \<or> fst r \<in> hs"

lemma rebuild_shape: "rebuild_rows hs ts s False rows = map snd (takeWhile (before_middle hs) rows) @ s
    # map snd (filter (\<lambda>r. is_pinned_history_row (snd r) \<or> fst r \<in> hs \<or> fst r \<in> ts) (dropWhile (before_middle hs) rows))"
  by (induction rows) (auto simp: before_middle_def rebuild_placed)

lemma distinct_accountable: "distinct (map fst rows) \<Longrightarrow> distinct (map fst (accountable rows))"
  by (simp add: accountable_def distinct_map_filter)

lemma accountable_set: "accountable rows = xs @ ys \<Longrightarrow> r \<in> set xs \<union> set ys \<Longrightarrow> r \<in> set rows \<and> \<not> is_pinned_history_row (snd r)"
proof -
  assume "accountable rows = xs @ ys" and "r \<in> set xs \<union> set ys"
  then have "r \<in> set (accountable rows)" by simp
  then show ?thesis by (simp add: accountable_def)
qed

lemma head_before_rest:
  assumes acc: "accountable rows = head @ rest" and dist: "distinct (map fst rows)"
    and r: "r \<in> set (dropWhile (before_middle (set (map fst head))) rows)"
  shows "fst r \<notin> set (map fst head)"
proof
  assume hr: "fst r \<in> set (map fst head)"
  let ?P = "before_middle (set (map fst head))"
  have "dropWhile ?P rows \<noteq> []" using r by (metis empty_iff empty_set)
  then obtain y post where post: "dropWhile ?P rows = y # post" by (meson neq_Nil_conv)
  then have "\<not> ?P y" by (metis dropWhile_eq_Cons_conv)
  then have y: "\<not> is_pinned_history_row (snd y)" "fst y \<notin> set (map fst head)" by (auto simp: before_middle_def)
  have rows: "rows = takeWhile ?P rows @ y # post" using post by (metis takeWhile_dropWhile_id)
  then have parts: "head @ rest = accountable (takeWhile ?P rows) @ y # accountable post"
    using acc y(1) by (metis accountable_def filter.simps(2) filter_append)
  have "head \<noteq> []" using hr by auto
  obtain q where q: "q \<in> set head" "fst q = fst r" using hr by auto
  have "q \<in> set rows" "r \<in> set rows" using q(1) accountable_set[OF acc, of q] set_dropWhileD[OF r] by auto
  then have "q = r" using dist q(2) by (auto simp: distinct_map inj_on_def)
  then have rh: "r \<in> set head" using q by simp
  then have "\<not> is_pinned_history_row (snd r)" using accountable_set[OF acc, of r] by simp
  moreover have "r \<in> set post" using r post hr y(2) by auto
  ultimately have rp: "r \<in> set (accountable post)" by (simp add: accountable_def)
  have d: "distinct (accountable (takeWhile ?P rows) @ y # accountable post)"
    using distinct_accountable[OF dist] parts acc by (metis distinct_map)
  from parts obtain us where "head @ us = accountable (takeWhile ?P rows) \<and> rest = us @ y # accountable post
      \<or> head = accountable (takeWhile ?P rows) @ us \<and> us @ rest = y # accountable post"
    by (auto simp: append_eq_append_conv2)
  then show False
  proof
    assume "head @ us = accountable (takeWhile ?P rows) \<and> rest = us @ y # accountable post"
    then have "r \<in> set (accountable (takeWhile ?P rows))" using rh by (metis Un_iff set_append)
    then show False using d rp by auto
  next
    assume us: "head = accountable (takeWhile ?P rows) @ us \<and> us @ rest = y # accountable post"
    show False
    proof (cases us)
      case Nil
      then show False using us rh d rp by auto
    next
      case (Cons z zs)
      then have "y \<in> set head" using us by (metis append_Cons in_set_conv_decomp list.inject)
      then show False using y(2) by auto
    qed
  qed
qed

text \<open>
  C31: compaction loses nothing but the middle. The new history is the old one, in its order, without the rows that were
  summarised, and with one summary row: every pinned row, every row of the head and every row of the tail
  is there verbatim, no row of the middle is, the summary stands where the first row was that is neither pinned nor of the
  head, after the whole head and before the whole tail, and head, middle and tail are exactly the rows that are not pinned,
  in their order.
\<close>
theorem compaction_keeps:
  assumes "distinct (map fst rows)" and "split_messages_for_compaction w rows = (head, middle, tail)"
  shows "\<exists>before after. rows = before @ after
    \<and> rebuild_compacted_history rows head summary tail
      = map snd before @ summary # map snd (filter (\<lambda>r. is_pinned_history_row (snd r) \<or> r \<in> set tail) after)
    \<and> accountable rows = head @ middle @ tail \<and> set head \<subseteq> set before \<and> set tail \<inter> set before = {}
    \<and> list_all (\<lambda>r. is_pinned_history_row (snd r) \<or> r \<in> set head) before
    \<and> (after = [] \<or> \<not> is_pinned_history_row (snd (hd after)) \<and> hd after \<notin> set head)
    \<and> list_all (\<lambda>r. r \<notin> set before \<and> \<not> is_pinned_history_row (snd r) \<and> r \<notin> set tail) middle"
proof -
  let ?P = "before_middle (set (map fst head))"
  have acc: "accountable rows = head @ middle @ tail" using split_partition assms(2) by (simp add: split_messages_for_compaction_def)
  have later: "fst r \<notin> set (map fst head)" if "r \<in> set (dropWhile ?P rows)" for r
    using head_before_rest[OF acc assms(1) that] .
  have sub: "set head \<subseteq> set rows" "set tail \<subseteq> set rows" using accountable_set[OF acc] by auto
  have inj: "r \<in> set rows \<Longrightarrow> q \<in> set rows \<Longrightarrow> fst r = fst q \<Longrightarrow> r = q" for r q
    using assms(1) by (auto simp: distinct_map inj_on_def)
  have tail: "fst r \<in> set (map fst tail) \<longleftrightarrow> r \<in> set tail" if "r \<in> set rows" for r
    using inj[OF that] sub(2) by (auto simp: subset_iff)
  have rows: "rows = takeWhile ?P rows @ dropWhile ?P rows" by simp
  have "filter (\<lambda>r. is_pinned_history_row (snd r) \<or> fst r \<in> set (map fst head) \<or> fst r \<in> set (map fst tail)) (dropWhile ?P rows)
      = filter (\<lambda>r. is_pinned_history_row (snd r) \<or> r \<in> set tail) (dropWhile ?P rows)"
    using later tail set_dropWhileD[of _ ?P rows] by (intro filter_cong) auto
  then have shape: "rebuild_compacted_history rows head summary tail = map snd (takeWhile ?P rows) @ summary
      # map snd (filter (\<lambda>r. is_pinned_history_row (snd r) \<or> r \<in> set tail) (dropWhile ?P rows))"
    unfolding rebuild_compacted_history_def rebuild_shape by simp
  have heads: "set head \<subseteq> set (takeWhile ?P rows)"
  proof
    fix r assume r: "r \<in> set head"
    then have "r \<in> set rows" "fst r \<in> set (map fst head)" using sub by auto
    then show "r \<in> set (takeWhile ?P rows)" using later rows by (metis Un_iff set_append)
  qed
  have "distinct (map fst (head @ middle @ tail))" using distinct_accountable[OF assms(1)] acc by simp
  then have apart: "set (map fst head) \<inter> set (map fst tail) = {}" by auto
  have "r \<notin> set (takeWhile ?P rows)" if "r \<in> set tail" for r
  proof
    assume "r \<in> set (takeWhile ?P rows)"
    then have "?P r" by (rule set_takeWhileD[THEN conjunct2])
    moreover have "\<not> is_pinned_history_row (snd r)" using accountable_set[OF acc, of r] that by simp
    ultimately have "fst r \<in> set (map fst head)" by (simp add: before_middle_def)
    then show False using apart that by auto
  qed
  then have tails: "set tail \<inter> set (takeWhile ?P rows) = {}" by auto
  have heads_only: "is_pinned_history_row (snd r) \<or> r \<in> set head" if r: "r \<in> set (takeWhile ?P rows)" for r
  proof -
    have "r \<in> set rows" "?P r" using set_takeWhileD[OF r] by auto
    have "r \<in> set head" if "fst r \<in> set (map fst head)"
    proof -
      from that obtain q where q: "fst r = fst q" "q \<in> set head" unfolding set_map by (rule imageE)
      then have "r = q" using inj[of r q] sub(1) \<open>r \<in> set rows\<close> by blast
      then show ?thesis using q(2) by simp
    qed
    then show ?thesis using \<open>?P r\<close> by (auto simp: before_middle_def)
  qed
  have first: "dropWhile ?P rows = [] \<or> \<not> is_pinned_history_row (snd (hd (dropWhile ?P rows))) \<and> hd (dropWhile ?P rows) \<notin> set head"
    using hd_dropWhile[of ?P rows] by (force simp: before_middle_def)
  have mid: "r \<notin> set (takeWhile ?P rows) \<and> \<not> is_pinned_history_row (snd r) \<and> r \<notin> set tail" if r: "r \<in> set middle" for r
  proof -
    have "distinct (map fst (head @ middle @ tail))" using distinct_accountable[OF assms(1)] acc by simp
    then have "r \<notin> set head" "r \<notin> set tail" using r by auto
    moreover have "\<not> is_pinned_history_row (snd r)" using accountable_set[of rows head "middle @ tail" r] acc r by simp
    ultimately show ?thesis using heads_only[of r] by blast
  qed
  show ?thesis
    by (intro exI[of _ "takeWhile ?P rows"] exI[of _ "dropWhile ?P rows"] conjI rows shape acc heads tails first)
      (use heads_only mid in \<open>simp_all add: list_all_iff\<close>)
qed

section \<open>Tool results keep their requests\<close>

lemma seek_requests_found:
  assumes "seek_requests missing found rows n = ({}, Some i)" and "missing \<noteq> {}" and "n \<le> length rows"
  shows "i < n \<and> (\<exists>x\<in>missing. x \<in> message_request_ids (snd (rows ! i)) \<and> (\<forall>k. i < k \<and> k < n \<longrightarrow> x \<notin> message_request_ids (snd (rows ! k))))
    \<and> missing \<subseteq> (\<Union>k\<in>{i..<n}. message_request_ids (snd (rows ! k)))"
  using assms
proof (induction missing found rows n rule: seek_requests.induct)
  case (2 missing found rows n)
  let ?reqs = "message_request_ids (snd (rows ! n))"
  consider "?reqs \<inter> missing = {}" | "missing - ?reqs = {}" | "?reqs \<inter> missing \<noteq> {}" "missing - ?reqs \<noteq> {}" by blast
  then show ?case
  proof cases
    case 1
    then have "seek_requests missing found rows n = ({}, Some i)" using "2.prems"(1) by (simp add: Let_def)
    note ih = "2.IH"(1)[OF refl 1 this "2.prems"(2)]
    then obtain x where x: "x \<in> missing" "x \<in> message_request_ids (snd (rows ! i))" "i < n"
      "\<forall>k. i < k \<and> k < n \<longrightarrow> x \<notin> message_request_ids (snd (rows ! k))"
      "missing \<subseteq> (\<Union>k\<in>{i..<n}. message_request_ids (snd (rows ! k)))"
      using "2.prems"(3) by auto
    then have "\<forall>k. i < k \<and> k < Suc n \<longrightarrow> x \<notin> message_request_ids (snd (rows ! k))" using 1 by (auto simp: less_Suc_eq)
    then show ?thesis using x by (auto simp: atLeastLessThanSuc)
  next
    case 2
    then have "?reqs \<inter> missing \<noteq> {}" using "2.prems"(2) by blast
    then have "i = n" using "2.prems"(1) 2 by (simp add: Let_def)
    then show ?thesis using 2 \<open>?reqs \<inter> missing \<noteq> {}\<close> by (auto simp: less_Suc_eq)
  next
    case 3
    then have "seek_requests (missing - ?reqs) (Some n) rows n = ({}, Some i)" using "2.prems"(1) by (simp add: Let_def)
    note ih = "2.IH"(2)[OF refl 3(1) 3(2) this 3(2)]
    then obtain x where x: "x \<in> missing - ?reqs" "x \<in> message_request_ids (snd (rows ! i))" "i < n"
      "\<forall>k. i < k \<and> k < n \<longrightarrow> x \<notin> message_request_ids (snd (rows ! k))"
      "missing - ?reqs \<subseteq> (\<Union>k\<in>{i..<n}. message_request_ids (snd (rows ! k)))"
      using "2.prems"(3) by auto
    then have "\<forall>k. i < k \<and> k < Suc n \<longrightarrow> x \<notin> message_request_ids (snd (rows ! k))" by (auto simp: less_Suc_eq)
    then show ?thesis using x by (auto simp: atLeastLessThanSuc)
  qed
qed simp

lemma seek_requests_complete:
  assumes "missing \<subseteq> (\<Union>k\<in>{..<n}. message_request_ids (snd (rows ! k)))" and "missing \<noteq> {}"
  shows "\<exists>i. seek_requests missing found rows n = ({}, Some i)"
  using assms
proof (induction missing found rows n rule: seek_requests.induct)
  case (2 missing found rows n)
  let ?reqs = "message_request_ids (snd (rows ! n))"
  have rest: "missing - ?reqs \<subseteq> (\<Union>k\<in>{..<n}. message_request_ids (snd (rows ! k)))"
    using "2.prems"(1) by (auto simp: lessThan_Suc)
  show ?case
  proof (cases "?reqs \<inter> missing = {}")
    case True
    then have "missing - ?reqs = missing" by blast
    then show ?thesis using True "2.IH"(1)[OF refl True _ "2.prems"(2)] rest by (simp add: Let_def)
  next
    case False
    then show ?thesis using "2.IH"(2)[OF refl False _ rest] by (cases "missing - ?reqs = {}") (auto simp: Let_def)
  qed
qed auto

definition turns_in_order :: "row list \<Rightarrow> bool" where
  \<comment> \<open>every result has its request in an earlier row, with no row of results between them, and no row has both\<close>
  "turns_in_order rows \<longleftrightarrow>
     list_all (\<lambda>j. (\<forall>x\<in>message_response_ids (snd (rows ! j)). list_ex (\<lambda>i. x \<in> message_request_ids (snd (rows ! i))
         \<and> list_all (\<lambda>k. message_response_ids (snd (rows ! k)) = {}) [Suc i ..< j]) [0 ..< j])
       \<and> (message_request_ids (snd (rows ! j)) = {} \<or> message_response_ids (snd (rows ! j)) = {})) [0 ..< length rows]"

lemma turns_in_orderD:
  assumes "turns_in_order rows" and "j < length rows"
  shows "x \<in> message_response_ids (snd (rows ! j)) \<Longrightarrow> \<exists>i < j. x \<in> message_request_ids (snd (rows ! i))
      \<and> (\<forall>k. i < k \<and> k < j \<longrightarrow> message_response_ids (snd (rows ! k)) = {})"
    and "message_request_ids (snd (rows ! j)) = {} \<or> message_response_ids (snd (rows ! j)) = {}"
  using assms by (fastforce simp: turns_in_order_def list_all_iff list_ex_iff)+

lemma rows_ids_drop:
  "rows_requests (drop s rows) = (\<Union>k\<in>{s..<length rows}. message_request_ids (snd (rows ! k)))"
  "rows_responses (drop s rows) = (\<Union>k\<in>{s..<length rows}. message_response_ids (snd (rows ! k)))"
proof -
  have "set (drop s rows) = (\<lambda>k. rows ! k) ` {s..<length rows}"
  proof (intro set_eqI iffI)
    fix r assume "r \<in> set (drop s rows)"
    then obtain k where "k < length rows - s" "drop s rows ! k = r" by (metis in_set_conv_nth length_drop)
    then show "r \<in> (\<lambda>k. rows ! k) ` {s..<length rows}" by (intro image_eqI[of _ _ "s + k"]) auto
  next
    fix r assume "r \<in> (\<lambda>k. rows ! k) ` {s..<length rows}"
    then obtain k where "s \<le> k" "k < length rows" "r = rows ! k" by auto
    then show "r \<in> set (drop s rows)" using nth_mem[of "k - s" "drop s rows"] by simp
  qed
  then show "rows_requests (drop s rows) = (\<Union>k\<in>{s..<length rows}. message_request_ids (snd (rows ! k)))"
    "rows_responses (drop s rows) = (\<Union>k\<in>{s..<length rows}. message_response_ids (snd (rows ! k)))"
    by (simp_all add: rows_requests_def rows_responses_def)
qed

lemma extend_pairs:
  assumes "turns_in_order rows" and "rows = ys @ tail" and "tail' = extend_tail_to_keep_tool_pairs rows tail"
  shows "rows_responses tail' \<subseteq> rows_requests tail'"
proof -
  let ?s = "length rows - length tail"
  let ?req = "\<lambda>k. message_request_ids (snd (rows ! k))"
  let ?res = "\<lambda>k. message_response_ids (snd (rows ! k))"
  have tail: "tail = drop ?s rows" using assms(2) by simp
  define missing where "missing = rows_responses tail - rows_requests tail"
  have from_tail: "rows_responses tail = (\<Union>k\<in>{?s..<length rows}. ?res k)" "rows_requests tail = (\<Union>k\<in>{?s..<length rows}. ?req k)"
    using rows_ids_drop[of ?s rows] tail by simp_all
  have earlier: "\<exists>j i. ?s \<le> j \<and> j < length rows \<and> i < ?s \<and> x \<in> ?req i \<and> x \<in> ?res j \<and> (\<forall>k. i < k \<and> k < j \<longrightarrow> ?res k = {})"
    if "x \<in> missing" for x
  proof -
    have "x \<in> rows_responses tail" using that by (simp add: missing_def)
    then obtain j where j: "?s \<le> j" "j < length rows" "x \<in> ?res j" unfolding from_tail(1) by auto
    then obtain i where i: "i < j" "x \<in> ?req i" "\<forall>k. i < k \<and> k < j \<longrightarrow> ?res k = {}"
      using turns_in_orderD(1)[OF assms(1) j(2,3)] by blast
    have "i < ?s"
    proof (rule ccontr)
      assume "\<not> i < ?s"
      then have "x \<in> rows_requests tail" using i j unfolding from_tail(2) by auto
      then show False using that by (simp add: missing_def)
    qed
    then show ?thesis using i j by blast
  qed
  show ?thesis
  proof (cases "missing = {}")
    case True
    then have "tail' = tail" using assms(3) by (simp add: extend_tail_to_keep_tool_pairs_def Let_def missing_def)
    then show ?thesis using True by (auto simp: missing_def)
  next
    case False
    have "missing \<subseteq> (\<Union>k\<in>{..<?s}. ?req k)" using earlier by blast
    then obtain i where seek: "seek_requests missing None rows ?s = ({}, Some i)" using seek_requests_complete[OF _ False] by blast
    from seek_requests_found[OF seek False] obtain x where i: "i < ?s" "x \<in> missing" "x \<in> ?req i"
      "\<forall>k. i < k \<and> k < ?s \<longrightarrow> x \<notin> ?req k" and cover: "missing \<subseteq> (\<Union>k\<in>{i..<?s}. ?req k)" by auto
    have t': "tail' = drop i rows"
      using assms(3) seek i(1) False by (auto simp: extend_tail_to_keep_tool_pairs_def Let_def missing_def rows_responses_def)
    obtain j i0 where j: "?s \<le> j" "j < length rows" "i0 < ?s" "x \<in> ?req i0" "\<forall>k. i0 < k \<and> k < j \<longrightarrow> ?res k = {}"
      using earlier[OF i(2)] by blast
    have "i0 \<le> i" using i(4) j(3,4) by (meson not_le)
    have none: "?res k = {}" if "i \<le> k" "k < ?s" for k
    proof (cases "i0 < k")
      case True
      then show ?thesis using that j by simp
    next
      case False
      then have "k = i" using \<open>i0 \<le> i\<close> that by simp
      then show ?thesis using turns_in_orderD(2)[OF assms(1), of i] i(1,3) j(1,2) by auto
    qed
    show ?thesis unfolding t' rows_ids_drop
    proof
      fix y assume "y \<in> (\<Union>k\<in>{i..<length rows}. ?res k)"
      then obtain k where k: "i \<le> k" "k < length rows" "y \<in> ?res k" by auto
      then have "?s \<le> k" using none[of k] by (metis empty_iff not_le)
      then have "y \<in> rows_requests tail \<or> y \<in> missing" using k unfolding missing_def from_tail by auto
      then show "y \<in> (\<Union>k\<in>{i..<length rows}. ?req k)"
      proof
        assume "y \<in> rows_requests tail"
        then show ?thesis using i(1) unfolding from_tail(2) by fastforce
      next
        assume "y \<in> missing"
        then show ?thesis using cover by fastforce
      qed
    qed
  qed
qed

lemma split_tail_extended:
  assumes "split_accountable w rows = (head, middle, tail)"
  shows "tail = [] \<or> (\<exists>ys kept. rows = ys @ kept \<and> tail = extend_tail_to_keep_tool_pairs rows kept)"
proof (cases "length (filter (\<lambda>r. is_provider_visible (snd r)) rows) < 4")
  case False
  define h where "h = Suc (length (takeWhile (\<lambda>r. \<not> is_provider_visible (snd r)) rows))"
  define kept where "kept = rev (take_tail (tail_budget w) (length rows - h - 1) 0 0 0 (rev (drop h rows)))"
  have "tail = extend_tail_to_keep_tool_pairs rows kept"
    using assms False unfolding split_accountable_def Let_def h_def[symmetric] kept_def[symmetric] by (auto split: if_splits)
  moreover obtain ys where "rows = ys @ kept" unfolding kept_def using kept_suffix by blast
  ultimately show ?thesis by blast
qed (use assms in \<open>simp add: split_accountable_def\<close>)

text \<open>
  Tool results keep their requests. In a history whose tool turns are in order, every tool result among the rows that
  compaction keeps as the tail has its request in the tail too, wherever the token budget would have cut.
\<close>
theorem compaction_tool_pairs:
  assumes "turns_in_order (accountable rows)" and "split_messages_for_compaction w rows = (head, middle, tail)"
  shows "rows_responses tail \<subseteq> rows_requests tail"
proof -
  have "split_accountable w (accountable rows) = (head, middle, tail)" using assms(2) by (simp add: split_messages_for_compaction_def)
  from split_tail_extended[OF this] show ?thesis
  proof (elim disjE exE conjE)
    assume "tail = []"
    then show ?thesis by (simp add: rows_responses_def)
  next
    fix ys kept assume "accountable rows = ys @ kept" "tail = extend_tail_to_keep_tool_pairs (accountable rows) kept"
    then show ?thesis using extend_pairs[OF assms(1)] by blast
  qed
qed

text \<open>A single stray result in the tail makes the code give up on all others: the tail is not extended at all.\<close>

lemma stray_result_splits_pairs:
  assumes "x \<in> rows_responses tail" and "x \<notin> rows_requests rows" and "rows = ys @ tail"
  shows "extend_tail_to_keep_tool_pairs rows tail = tail"
proof -
  have stays: "n \<le> length rs \<Longrightarrow> x \<notin> rows_requests rs \<Longrightarrow> x \<in> missing \<Longrightarrow> x \<in> fst (seek_requests missing found rs n)" for missing found rs n
  proof (induction missing found rs n rule: seek_requests.induct)
    case (2 missing found rs n)
    then have "x \<notin> message_request_ids (snd (rs ! n))" by (auto simp: rows_requests_def)
    then show ?case using 2 by (auto simp: Let_def)
  qed simp
  have "x \<in> rows_responses tail - rows_requests tail" using assms by (auto simp: rows_requests_def)
  then have "x \<in> fst (seek_requests (rows_responses tail - rows_requests tail) None rows (length rows - length tail))"
    using stays[of "length rows - length tail" rows] assms(2) by simp
  then show ?thesis by (auto simp: extend_tail_to_keep_tool_pairs_def Let_def split: prod.splits option.splits)
qed

section \<open>The row limit\<close>

definition pinned_rows :: "row list \<Rightarrow> row list" where
  "pinned_rows rows = filter (\<lambda>r. is_pinned_history_row (snd r)) rows"

lemma drop_pinned_parts:
  "accountable (drop_pinned n rows) = accountable rows" "pinned_rows (drop_pinned n rows) = drop n (pinned_rows rows)"
  by (induction n rows rule: drop_pinned.induct; auto simp: accountable_def pinned_rows_def drop_Cons' split: if_splits)+

lemma parts_length: "length rows = length (accountable rows) + length (pinned_rows rows)"
  unfolding accountable_def pinned_rows_def using sum_length_filter_compl[of "\<lambda>r. is_pinned_history_row (snd r)" rows] by simp

lemma filter_suffix:
  assumes "distinct (map fst xs)"
  shows "filter (\<lambda>r. fst r \<in> set (map fst (drop k xs))) xs = drop k xs"
proof -
  have "distinct (map fst (take k xs @ drop k xs))" using assms by simp
  then have "filter (\<lambda>r. fst r \<in> set (map fst (drop k xs))) (take k xs) = []"
    unfolding map_append distinct_append by (force simp: filter_empty_conv)
  moreover have "filter (\<lambda>r. fst r \<in> set (map fst (drop k xs))) (drop k xs) = drop k xs" by (simp add: filter_id_conv)
  ultimately show ?thesis by (metis append_Nil append_take_drop_id filter_append)
qed

lemma kept_parts:
  assumes "distinct (map fst rows)" and "keep_ids = set (map fst (drop k (accountable rows))) \<union> set (map fst (pinned_rows rows))"
  shows "accountable (filter (\<lambda>r. fst r \<in> keep_ids) rows) = drop k (accountable rows)"
    and "pinned_rows (filter (\<lambda>r. fst r \<in> keep_ids) rows) = pinned_rows rows"
proof -
  have inj: "r = q" if "r \<in> set rows" "q \<in> set rows" "fst r = fst q" for r q
    using that assms(1) by (auto simp: distinct_map inj_on_def)
  have pin: "fst r \<notin> set (map fst (pinned_rows rows))" if "r \<in> set rows" "\<not> is_pinned_history_row (snd r)" for r
  proof
    assume "fst r \<in> set (map fst (pinned_rows rows))"
    then obtain q where "q \<in> set rows" "is_pinned_history_row (snd q)" "fst q = fst r" by (auto simp: pinned_rows_def)
    then show False using inj[OF that(1), of q] that(2) by simp
  qed
  have "accountable (filter (\<lambda>r. fst r \<in> keep_ids) rows) = filter (\<lambda>r. fst r \<in> set (map fst (drop k (accountable rows)))) (accountable rows)"
    unfolding accountable_def[of "filter _ rows"] accountable_def[of rows] filter_filter
    using pin by (intro filter_cong) (auto simp: assms(2) accountable_def)
  then show "accountable (filter (\<lambda>r. fst r \<in> keep_ids) rows) = drop k (accountable rows)"
    using filter_suffix[OF distinct_accountable[OF assms(1)]] by simp
  show "pinned_rows (filter (\<lambda>r. fst r \<in> keep_ids) rows) = pinned_rows rows"
    unfolding pinned_rows_def[of "filter _ rows"] filter_filter by (auto simp: pinned_rows_def assms(2) intro!: filter_cong)
qed

text \<open>
  The row limit is exact. Truncating keeps as many rows as allowed, all pinned rows first, from the newest when even they are
  too many, and then the newest of the others.
\<close>
theorem truncation_exact:
  assumes "distinct (map fst rows)"
  shows "length (truncate_history_preserving_pins m rows) = min (nat m) (length rows)
    \<and> pinned_rows (truncate_history_preserving_pins m rows) = drop (length (pinned_rows rows) - nat m) (pinned_rows rows)
    \<and> accountable (truncate_history_preserving_pins m rows)
      = drop (length (accountable rows) - (nat m - length (pinned_rows rows))) (accountable rows)"
proof -
  let ?p = "length (pinned_rows rows)" and ?a = "length (accountable rows)"
  note len = parts_length[of rows]
  consider "m \<le> 0" | "0 < m" "int (length rows) \<le> m" | "0 < m" "m < int (length rows)" by linarith
  then show ?thesis
  proof cases
    case 1
    then show ?thesis by (simp add: truncate_history_preserving_pins_def accountable_def pinned_rows_def)
  next
    case 2
    then have "length rows \<le> nat m" by linarith
    then show ?thesis using 2 len by (simp add: truncate_history_preserving_pins_def)
  next
    case 3
    define keep_n where "keep_n = nat (m - int ?p)"
    define keep_ids where "keep_ids = set (map fst (drop (?a - keep_n) (accountable rows))) \<union> set (map fst (pinned_rows rows))"
    define kept where "kept = filter (\<lambda>r. fst r \<in> keep_ids) rows"
    have trunc: "truncate_history_preserving_pins m rows = (if int (length kept) \<le> m then kept else drop_pinned (length kept - nat m) kept)"
      using 3 unfolding truncate_history_preserving_pins_def Let_def keep_n_def keep_ids_def kept_def pinned_rows_def by simp
    have parts: "accountable kept = drop (?a - keep_n) (accountable rows)" "pinned_rows kept = pinned_rows rows"
      using kept_parts[OF assms keep_ids_def] by (simp_all add: kept_def)
    have keep_n: "keep_n = nat m - ?p" by (simp add: keep_n_def nat_diff_distrib')
    have klen: "length kept = min keep_n ?a + ?p" using parts_length[of kept] parts by simp
    show ?thesis
    proof (cases "?p \<le> nat m")
      case True
      then have "int (length kept) \<le> m" using klen keep_n 3 by linarith
      then show ?thesis using trunc parts keep_n klen len True 3 by simp
    next
      case False
      then have big: "\<not> int (length kept) \<le> m" "length kept = ?p" using klen keep_n 3 by auto
      then show ?thesis using trunc parts drop_pinned_parts[of "length kept - nat m" kept]
          parts_length[of "drop_pinned (length kept - nat m) kept"] keep_n False 3 len by simp
    qed
  qed
qed

definition sample_rows :: "row list" where
  "sample_rows =
     [(0, new_message User [Text ''goal'']), (1, new_message Assistant [Text ''plan'']),
      (2, new_message Assistant [SystemNotification ''verifierVerdict'' ''ok'' None]),
      (3, new_message Assistant [ToolRequest ''A'' ''ls'' (JObj []) None None]),
      (4, new_message User [ToolResponse ''A'' ''ls'' [Text ''x''] False]), (5, new_message Assistant [Text ''done''])]"

definition sample_split :: "row list \<times> row list \<times> row list" where
  "sample_split = (take 1 sample_rows, [sample_rows ! 1], drop 3 sample_rows)"

lemma sample_split: "split_messages_for_compaction 5 sample_rows = sample_split"
  by code_simp

theorem compaction_keeps_witness:
  "\<exists>before after. sample_rows = before @ after \<and> set (take 1 sample_rows) \<subseteq> set before \<and> set (drop 3 sample_rows) \<inter> set before = {}
    \<and> rebuild_compacted_history sample_rows (take 1 sample_rows) (new_message Assistant []) (drop 3 sample_rows)
      = map snd before @ new_message Assistant []
          # map snd (filter (\<lambda>r. is_pinned_history_row (snd r) \<or> r \<in> set (drop 3 sample_rows)) after)"
proof -
  have "distinct (map fst sample_rows)" by code_simp
  from compaction_keeps[OF this sample_split[unfolded sample_split_def], of "new_message Assistant []"] show ?thesis by blast
qed

theorem compaction_tool_pairs_witness:
  "rows_responses (drop 3 sample_rows) = {''A''} \<and> ''A'' \<in> rows_requests (drop 3 sample_rows)"
proof -
  have "turns_in_order (accountable sample_rows)" by code_simp
  from compaction_tool_pairs[OF this sample_split[unfolded sample_split_def]]
  have "rows_responses (drop 3 sample_rows) \<subseteq> rows_requests (drop 3 sample_rows)" .
  moreover have "rows_responses (drop 3 sample_rows) = {''A''}" by code_simp
  ultimately show ?thesis by simp
qed

theorem truncation_exact_witness:
  "length (truncate_history_preserving_pins 2 sample_rows) = 2 \<and> pinned_rows (truncate_history_preserving_pins 2 sample_rows) = [sample_rows ! 2]"
proof -
  have "distinct (map fst sample_rows)" by code_simp
  from truncation_exact[OF this, of 2] have "length (truncate_history_preserving_pins 2 sample_rows) = min 2 (length sample_rows)"
    "pinned_rows (truncate_history_preserving_pins 2 sample_rows) = drop (length (pinned_rows sample_rows) - 2) (pinned_rows sample_rows)" by auto
  moreover have "length sample_rows = 6" "pinned_rows sample_rows = [sample_rows ! 2]" by code_simp+
  ultimately show ?thesis by simp
qed

end
