(* ===== verification/Input_Admission.thy ===== *)
theory Input_Admission
  imports Content_Blocks
begin

text \<open>
  \<open>core/runtime/input_admission.py\<close>: the per-session queues for text that arrives while a turn is
  running. Steers are injected into the running turn, follow-ups start turns of their own later; a
  follow-up can be promoted to a steer, deleted, or put back when its turn could not start. How the gateway settles a follow-up it has popped
  (\<open>_drain_follow_up\<close> of \<open>gateway/sse/routes.py\<close>) is modelled too. Every
  exception is an \<open>admission_error\<close>. The property group follows each accepted prompt: it is
  delivered, dropped by its drain, deleted or still waiting, exactly once, and a deletion beats a drain in progress.
  \<open>preview_text\<close> is left out: its ellipsis is not a code point below 256.
\<close>

section \<open>The operations\<close>

datatype admission_error =
    QueueFull string int
  | FollowUpNotFound string
  | EmptyInput string

definition queue_limit :: "string option \<Rightarrow> int \<Rightarrow> int" where
  "queue_limit raw dflt =
     (case raw of
        None \<Rightarrow> dflt
      | Some s \<Rightarrow>
          if py_strip s = [] then dflt
          else (case py_int s of Some i \<Rightarrow> max 1 i | None \<Rightarrow> dflt))"

record follow_up_item =
  fu_request_id :: string
  fu_content :: "content_block list"
  fu_first_lock_fail_at_ms :: "int option"
  fu_provenance :: string
  fu_harness_run_ids :: "string list"

record steer_item =
  st_content :: "content_block list"
  st_provenance :: string
  st_queued_request_id :: "string option"

record admission =
  max_steer :: int
  max_follow_up :: int
  steer_queue :: "steer_item list"
  follow_up_queue :: "follow_up_item list"
  draining_ids :: "string set"
  dropped_while_draining :: "string set"

definition new_admission ::
    "int option \<Rightarrow> int option \<Rightarrow> string option \<Rightarrow> string option \<Rightarrow> admission" where
  \<comment> \<open>the last two arguments are the environment variables of the defaults\<close>
  "new_admission ms mf env_steer env_follow =
     \<lparr>max_steer = (case ms of Some n \<Rightarrow> n | None \<Rightarrow> queue_limit env_steer 8),
      max_follow_up = (case mf of Some n \<Rightarrow> n | None \<Rightarrow> queue_limit env_follow 16),
      steer_queue = [], follow_up_queue = [], draining_ids = {}, dropped_while_draining = {}\<rparr>"

definition enqueue_steer ::
    "content_block list \<Rightarrow> string \<Rightarrow> string option \<Rightarrow> admission
      \<Rightarrow> admission_error + nat \<times> admission" where
  "enqueue_steer content provenance queued_id a =
     (if content = [] then Inl (EmptyInput ''steer content must be non-empty'')
      else if int (length (steer_queue a)) \<ge> max_steer a then Inl (QueueFull ''steer'' (max_steer a))
      else Inr (length (steer_queue a),
        a\<lparr>steer_queue := steer_queue a @
           [\<lparr>st_content = content, st_provenance = provenance, st_queued_request_id = queued_id\<rparr>]\<rparr>))"

definition enqueue_follow_up ::
    "string \<Rightarrow> content_block list \<Rightarrow> string \<Rightarrow> string list \<Rightarrow> admission
      \<Rightarrow> admission_error + nat \<times> admission" where
  "enqueue_follow_up rid content provenance run_ids a =
     (if py_strip rid = [] then Inl (EmptyInput ''follow-up request_id must be non-empty'')
      else if content = [] then Inl (EmptyInput ''follow-up content must be non-empty'')
      else if int (length (follow_up_queue a)) \<ge> max_follow_up a
      then Inl (QueueFull ''follow_up'' (max_follow_up a))
      else Inr (length (follow_up_queue a),
        a\<lparr>follow_up_queue := follow_up_queue a @
           [\<lparr>fu_request_id = rid, fu_content = content, fu_first_lock_fail_at_ms = None,
             fu_provenance = provenance, fu_harness_run_ids = run_ids\<rparr>]\<rparr>))"

definition remove_at :: "nat \<Rightarrow> 'a list \<Rightarrow> 'a list" where
  \<comment> \<open>\<open>del xs[i]\<close>\<close>
  "remove_at i xs = take i xs @ drop (Suc i) xs"

definition follow_up_index :: "admission \<Rightarrow> string \<Rightarrow> nat option" where
  "follow_up_index a rid =
     List.find (\<lambda>i. fu_request_id (follow_up_queue a ! i) = rid) [0..<length (follow_up_queue a)]"

definition promote_follow_up :: "string \<Rightarrow> admission \<Rightarrow> admission_error + nat \<times> admission" where
  "promote_follow_up rid a =
     (if py_strip rid = [] then Inl (EmptyInput ''follow-up request_id must be non-empty'')
      else if int (length (steer_queue a)) \<ge> max_steer a then Inl (QueueFull ''steer'' (max_steer a))
      else (case follow_up_index a rid of
          None \<Rightarrow> Inl (FollowUpNotFound rid)
        | Some i \<Rightarrow>
            (let item = follow_up_queue a ! i
             in Inr (length (steer_queue a),
                  a\<lparr>follow_up_queue := remove_at i (follow_up_queue a),
                    steer_queue := steer_queue a @
                      [\<lparr>st_content = fu_content item, st_provenance = ''human'',
                        st_queued_request_id = Some (fu_request_id item)\<rparr>]\<rparr>))))"

definition drop_follow_up :: "string \<Rightarrow> admission \<Rightarrow> admission_error + admission" where
  "drop_follow_up rid a =
     (if py_strip rid = [] then Inl (EmptyInput ''follow-up request_id must be non-empty'')
      else (case follow_up_index a rid of
          Some i \<Rightarrow> Inr (a\<lparr>follow_up_queue := remove_at i (follow_up_queue a)\<rparr>)
        | None \<Rightarrow>
            if rid \<in> draining_ids a
            then Inr (a\<lparr>dropped_while_draining := insert rid (dropped_while_draining a)\<rparr>)
            else Inl (FollowUpNotFound rid)))"

definition pop_steer :: "admission \<Rightarrow> steer_item option \<times> admission" where
  "pop_steer a = (case steer_queue a of
       [] \<Rightarrow> (None, a)
     | x # xs \<Rightarrow> (Some x, a\<lparr>steer_queue := xs\<rparr>))"

definition pop_follow_up :: "admission \<Rightarrow> follow_up_item option \<times> admission" where
  "pop_follow_up a = (case follow_up_queue a of
       [] \<Rightarrow> (None, a)
     | x # xs \<Rightarrow> (Some x, a\<lparr>follow_up_queue := xs,
         draining_ids := insert (fu_request_id x) (draining_ids a)\<rparr>))"

definition finish_follow_up_drain :: "string \<Rightarrow> admission \<Rightarrow> bool \<times> admission" where
  "finish_follow_up_drain rid a =
     (let a1 = a\<lparr>draining_ids := draining_ids a - {rid}\<rparr>
      in if rid \<in> dropped_while_draining a
         then (False, a1\<lparr>dropped_while_draining := dropped_while_draining a - {rid}\<rparr>)
         else (True, a1))"

definition requeue_follow_up_front :: "follow_up_item \<Rightarrow> admission \<Rightarrow> bool \<times> admission" where
  "requeue_follow_up_front item a =
     (let rid = fu_request_id item;
          a1 = a\<lparr>draining_ids := draining_ids a - {rid}\<rparr>
      in if rid \<in> dropped_while_draining a
         then (False, a1\<lparr>dropped_while_draining := dropped_while_draining a - {rid}\<rparr>)
         else (True, a1\<lparr>follow_up_queue := item # follow_up_queue a\<rparr>))"

definition is_promoted :: "steer_item \<Rightarrow> bool" where
  \<comment> \<open>\<open>if item.queued_request_id\<close>\<close>
  "is_promoted x \<longleftrightarrow> (case st_queued_request_id x of None \<Rightarrow> False | Some i \<Rightarrow> i \<noteq> [])"

definition follow_up_of_steer :: "steer_item \<Rightarrow> follow_up_item" where
  "follow_up_of_steer x =
     \<lparr>fu_request_id = the (st_queued_request_id x), fu_content = st_content x,
      fu_first_lock_fail_at_ms = None, fu_provenance = ''human'', fu_harness_run_ids = []\<rparr>"

definition restore_promoted_steers :: "admission \<Rightarrow> nat \<times> admission" where
  "restore_promoted_steers a =
     (let promoted = map follow_up_of_steer (filter is_promoted (steer_queue a));
          remaining = filter (\<lambda>x. \<not> is_promoted x) (steer_queue a)
      in (length promoted,
          a\<lparr>steer_queue := remaining, follow_up_queue := promoted @ follow_up_queue a\<rparr>))"

definition clear_steer :: "admission \<Rightarrow> admission" where
  "clear_steer a = (snd (restore_promoted_steers a))\<lparr>steer_queue := []\<rparr>"

definition clear_all :: "admission \<Rightarrow> admission" where
  "clear_all a = a\<lparr>steer_queue := [], follow_up_queue := [], draining_ids := {},
     dropped_while_draining := {}\<rparr>"

definition join_text :: "content_block list \<Rightarrow> string" where
  "join_text content =
     py_strip (join_on '' '' (List.map_filter (\<lambda>b. case b of
         Text t \<Rightarrow> if py_strip t \<noteq> [] then Some (py_strip t) else None
       | _ \<Rightarrow> None) content))"

section \<open>Draining the follow-ups\<close>

text \<open>
  \<open>_drain_follow_up\<close> of \<open>gateway/sse/routes.py\<close> pops a follow-up and waits for the durable turn lock.
  What follows the answer runs without a pause: the follow-up starts its turn, is put back for a
  retry, is dropped because the lock was held past the wait budget, because a DELETE came first, or
  because it is a wake-up whose runs were awaited meanwhile.
\<close>

datatype drain_end = Started | PutBack | Overdue | DeletedFirst | NotNeeded

definition requeued_item :: "follow_up_item \<Rightarrow> int \<Rightarrow> follow_up_item" where
  "requeued_item x first_fail =
     \<lparr>fu_request_id = fu_request_id x, fu_content = fu_content x,
      fu_first_lock_fail_at_ms = Some first_fail, fu_provenance = ''human'', fu_harness_run_ids = []\<rparr>"

definition settle_drain ::
    "bool option \<Rightarrow> int \<Rightarrow> int \<Rightarrow> (string list \<Rightarrow> bool) option \<Rightarrow> follow_up_item \<Rightarrow> admission
      \<Rightarrow> drain_end \<times> admission" where
  \<comment> \<open>\<open>lock\<close>: whether the turn lock was acquired, \<open>None\<close> without storage; \<open>needs\<close>: whether the
      supervisor still needs a wake-up for these runs, \<open>None\<close> without one\<close>
  "settle_drain lock now wait needs x a =
     (let first_fail = (case fu_first_lock_fail_at_ms x of None \<Rightarrow> now
                         | Some t \<Rightarrow> if t = 0 then now else t)
      in if lock = Some False
         then if now - first_fail \<ge> wait
              then (case finish_follow_up_drain (fu_request_id x) a of
                  (ok, a1) \<Rightarrow> (if ok then Overdue else DeletedFirst, a1))
              else (case requeue_follow_up_front (requeued_item x first_fail) a of
                  (ok, a1) \<Rightarrow> (if ok then PutBack else DeletedFirst, a1))
         else (case finish_follow_up_drain (fu_request_id x) a of
             (ok, a1) \<Rightarrow>
               (if \<not> ok then DeletedFirst
                else if fu_provenance x = ''harness''
                        \<and> (case needs of None \<Rightarrow> False | Some f \<Rightarrow> \<not> f (fu_harness_run_ids x))
                then NotNeeded else Started, a1)))"

lemma first_failure_waits:
  \<comment> \<open>a first failure is always retried, whatever the budget\<close>
  assumes "fu_first_lock_fail_at_ms x = None" and "0 < wait"
  shows "fst (settle_drain lock now wait needs x a) \<noteq> Overdue"
  using assms by (auto simp: settle_drain_def Let_def split: prod.splits)

lemma retried_wake_is_human:
  \<comment> \<open>a wake-up that had to wait for the lock starts a turn of the user's, needed or not\<close>
  assumes "\<not> needs runs"
    and "x = \<lparr>fu_request_id = rid, fu_content = c, fu_first_lock_fail_at_ms = None,
       fu_provenance = ''harness'', fu_harness_run_ids = runs\<rparr>"
    and "dropped_while_draining a = {}"
  shows "fst (settle_drain (Some True) now wait (Some needs) x a) = NotNeeded"
    and "fst (settle_drain (Some True) now wait (Some needs) (requeued_item x t) a) = Started"
    and "fu_provenance (requeued_item x t) = ''human''"
  using assms by (simp_all add: settle_drain_def Let_def finish_follow_up_drain_def requeued_item_def)

section \<open>Following every prompt\<close>

text \<open>
  The gateway and the agent loop around the queues: \<open>inflight\<close> holds the follow-ups popped for a
  drain that is not yet settled; \<open>accepted\<close>, \<open>delivered\<close> and \<open>gone\<close> count request ids admitted, handed
  to a turn (as a turn of their own or as a promoted steer), and deleted; \<open>lapsed\<close> holds what drains
  dropped, with the time and the wait budget when the lock was waited for too long.
\<close>

record journal =
  adm :: admission
  inflight :: "follow_up_item list"
  accepted :: "string multiset"
  delivered :: "string multiset"
  lapsed :: "(follow_up_item \<times> (int \<times> int) option) list"
  gone :: "string multiset"

definition follow_up_ids :: "admission \<Rightarrow> string multiset" where
  "follow_up_ids a = mset (map fu_request_id (follow_up_queue a))"

definition promoted_ids :: "steer_item list \<Rightarrow> string multiset" where
  "promoted_ids xs = mset (map (\<lambda>x. the (st_queued_request_id x)) (filter is_promoted xs))"

definition drained :: "drain_end \<Rightarrow> int \<Rightarrow> int \<Rightarrow> follow_up_item \<Rightarrow> journal \<Rightarrow> journal" where
  "drained e now wait x j =
     (case e of
        Started \<Rightarrow> j\<lparr>delivered := add_mset (fu_request_id x) (delivered j)\<rparr>
      | PutBack \<Rightarrow> j
      | DeletedFirst \<Rightarrow> j\<lparr>gone := add_mset (fu_request_id x) (gone j)\<rparr>
      | Overdue \<Rightarrow> j\<lparr>lapsed := (x, Some (now, wait)) # lapsed j\<rparr>
      | NotNeeded \<Rightarrow> j\<lparr>lapsed := (x, None) # lapsed j\<rparr>)"

definition lapsed_ids :: "journal \<Rightarrow> string multiset" where
  "lapsed_ids j = mset (map (fu_request_id \<circ> fst) (lapsed j))"

definition lapse_ok :: "follow_up_item \<times> (int \<times> int) option \<Rightarrow> bool" where
  \<comment> \<open>what a drain may drop: a follow-up whose first failure to get the lock lies at least the budget back, or a
    wake-up of the harness\<close>
  "lapse_ok l = (case snd l of
       None \<Rightarrow> fu_provenance (fst l) = ''harness''
     | Some (now, wait) \<Rightarrow> (case fu_first_lock_fail_at_ms (fst l) of
           None \<Rightarrow> False
         | Some t \<Rightarrow> wait \<le> now - t))"

text \<open>The wait budget is at least one millisecond, whatever the environment says.\<close>

inductive queue_step :: "journal \<Rightarrow> journal \<Rightarrow> bool" where
  follow_up: "enqueue_follow_up rid content prov runs (adm j) = Inr (pos, a) \<Longrightarrow>
    queue_step j (j\<lparr>adm := a, accepted := add_mset rid (accepted j)\<rparr>)"
| steer: "enqueue_steer content prov None (adm j) = Inr (pos, a) \<Longrightarrow> queue_step j (j\<lparr>adm := a\<rparr>)"
| promote: "promote_follow_up rid (adm j) = Inr (pos, a) \<Longrightarrow> queue_step j (j\<lparr>adm := a\<rparr>)"
| drop_queued: "drop_follow_up rid (adm j) = Inr a \<Longrightarrow> follow_up_index (adm j) rid = Some i \<Longrightarrow>
    queue_step j (j\<lparr>adm := a, gone := add_mset rid (gone j)\<rparr>)"
| drop_draining: "drop_follow_up rid (adm j) = Inr a \<Longrightarrow> follow_up_index (adm j) rid = None \<Longrightarrow>
    queue_step j (j\<lparr>adm := a\<rparr>)"
| pop_queued_steer: "pop_steer (adm j) = (Some x, a) \<Longrightarrow>
    queue_step j (j\<lparr>adm := a, delivered := delivered j + promoted_ids [x]\<rparr>)"
| pop_drain: "pop_follow_up (adm j) = (Some x, a) \<Longrightarrow>
    queue_step j (j\<lparr>adm := a, inflight := x # inflight j\<rparr>)"
| settle: "x \<in> set (inflight j) \<Longrightarrow> 0 < wait \<Longrightarrow> settle_drain lock now wait needs x (adm j) = (e, a) \<Longrightarrow>
    queue_step j (drained e now wait x (j\<lparr>adm := a, inflight := remove1 x (inflight j)\<rparr>))"
| restore: "restore_promoted_steers (adm j) = (n, a) \<Longrightarrow> queue_step j (j\<lparr>adm := a\<rparr>)"
| cancel: "queue_step j (j\<lparr>adm := clear_steer (adm j)\<rparr>)"

definition teardown :: "journal \<Rightarrow> journal" where
  "teardown j = j\<lparr>adm := clear_all (adm j),
     gone := gone j + follow_up_ids (adm j) + promoted_ids (steer_queue (adm j))\<rparr>"

definition adm_step :: "journal \<Rightarrow> journal \<Rightarrow> bool" where
  \<comment> \<open>session teardown apart, every step is one of the queue's\<close>
  "adm_step j j' \<longleftrightarrow> queue_step j j' \<or> j' = teardown j"

definition new_journal :: "admission \<Rightarrow> journal" where
  "new_journal a = \<lparr>adm = a, inflight = [], accepted = {#}, delivered = {#}, lapsed = [],
     gone = {#}\<rparr>"

definition settled :: "journal \<Rightarrow> bool" where
  \<comment> \<open>each accepted prompt is queued, promoted, in flight, delivered, lapsed or gone, exactly once\<close>
  "settled j \<longleftrightarrow>
     accepted j = follow_up_ids (adm j) + promoted_ids (steer_queue (adm j))
       + mset (map fu_request_id (inflight j)) + delivered j + lapsed_ids j + gone j
     \<and> list_all lapse_ok (lapsed j)"

definition queues_ok :: "journal \<Rightarrow> bool" where
  "queues_ok j \<longleftrightarrow>
     list_all (\<lambda>x. py_strip (fu_request_id x) \<noteq> [] \<and> fu_content x \<noteq> []) (follow_up_queue (adm j) @ inflight j)
     \<and> list_all (\<lambda>x. st_content x \<noteq> []
         \<and> (is_promoted x \<longrightarrow> py_strip (the (st_queued_request_id x)) \<noteq> [])) (steer_queue (adm j))
     \<and> int (length (steer_queue (adm j))) \<le> max 0 (max_steer (adm j))"

definition drain_ok :: "journal \<Rightarrow> bool" where
  "drain_ok j \<longleftrightarrow> draining_ids (adm j) \<subseteq> fu_request_id ` set (inflight j)
     \<and> dropped_while_draining (adm j) \<subseteq> draining_ids (adm j)"

definition adm_inv :: "journal \<Rightarrow> bool" where
  "adm_inv j \<longleftrightarrow> settled j \<and> queues_ok j \<and> drain_ok j"

lemmas adm_inv_defs =
  adm_inv_def settled_def queues_ok_def drain_ok_def follow_up_ids_def
  lapsed_ids_def

lemma follow_up_index_SomeD:
  assumes "follow_up_index a rid = Some i"
  shows "i < length (follow_up_queue a)" and "fu_request_id (follow_up_queue a ! i) = rid"
  using assms by (auto simp: follow_up_index_def find_Some_iff)

lemma mset_remove_at:
  "i < length xs \<Longrightarrow> mset (map f xs) = add_mset (f (xs ! i)) (mset (map f (remove_at i xs)))"
  by (subst id_take_nth_drop[of i xs]) (simp_all add: remove_at_def)

lemma set_remove_at: "set (remove_at i xs) \<subseteq> set xs"
  by (auto simp: remove_at_def dest: in_set_takeD in_set_dropD)

lemma promoted_ids_simps [simp]:
  "promoted_ids [] = {#}"
  "promoted_ids (xs @ ys) = promoted_ids xs + promoted_ids ys"
  by (simp_all add: promoted_ids_def)

lemma promoted_ids_Cons: "promoted_ids (x # xs) = promoted_ids [x] + promoted_ids xs"
  by (simp add: promoted_ids_def)

lemma restore_ids:
  "mset (map fu_request_id (map follow_up_of_steer (filter is_promoted xs))) = promoted_ids xs"
  "promoted_ids (filter (\<lambda>x. \<not> is_promoted x) xs) = {#}"
  by (simp_all add: promoted_ids_def follow_up_of_steer_def comp_def)

lemma inflight_remove:
  assumes "x \<in> set xs"
  shows "mset (map f xs) = add_mset (f x) (mset (map f (remove1 x xs)))"
    and "f ` set xs \<subseteq> insert (f x) (f ` set (remove1 x xs))"
proof -
  have "mset xs = add_mset x (mset (remove1 x xs))" using assms by simp
  then show "mset (map f xs) = add_mset (f x) (mset (map f (remove1 x xs)))"
    by (metis image_mset_add_mset mset_map)
  have "set xs \<subseteq> insert x (set (remove1 x xs))" by (induction xs) auto
  then show "f ` set xs \<subseteq> insert (f x) (f ` set (remove1 x xs))" by blast
qed

lemma list_all_remove1: "list_all P xs \<Longrightarrow> list_all P (remove1 x xs)"
  using set_remove1_subset[of x xs] by (auto simp: list.pred_set)

inductive_cases queue_stepE: "queue_step j j'"

lemma adm_inv_new: "steer_queue a = [] \<Longrightarrow> follow_up_queue a = [] \<Longrightarrow> draining_ids a = {} \<Longrightarrow>
    dropped_while_draining a = {} \<Longrightarrow> adm_inv (new_journal a)"
  by (simp add: adm_inv_defs new_journal_def follow_up_ids_def)

lemma adm_inv_restored:
  assumes "adm_inv j"
  shows "adm_inv (j\<lparr>adm := snd (restore_promoted_steers (adm j))\<rparr>)"
proof -
  have "int (length (filter (\<lambda>x. \<not> is_promoted x) (steer_queue (adm j)))) \<le> max 0 (max_steer (adm j))"
    using assms length_filter_le[of "\<lambda>x. \<not> is_promoted x" "steer_queue (adm j)"]
    unfolding adm_inv_defs by linarith
  moreover have "list_all (\<lambda>x. py_strip (fu_request_id x) \<noteq> [] \<and> fu_content x \<noteq> [])
      (map follow_up_of_steer (filter is_promoted (steer_queue (adm j))))"
    using assms by (auto simp: adm_inv_defs list.pred_set follow_up_of_steer_def)
  ultimately show ?thesis
    using assms restore_ids[of "steer_queue (adm j)"]
    by (auto simp: adm_inv_defs restore_promoted_steers_def follow_up_ids_def list.pred_set Let_def
        simp del: map_map)
qed

lemma adm_inv_cancelled:
  assumes "adm_inv j" and "promoted_ids (steer_queue (adm j)) = {#}"
  shows "adm_inv (j\<lparr>adm := (adm j)\<lparr>steer_queue := []\<rparr>\<rparr>)"
  using assms by (auto simp: adm_inv_defs follow_up_ids_def)

lemma promoted_restored: "promoted_ids (steer_queue (snd (restore_promoted_steers a))) = {#}"
  by (simp add: restore_promoted_steers_def Let_def restore_ids)

lemma flight_left:
  assumes "adm_inv j" and "x \<in> set (inflight j)"
  shows "draining_ids (adm j) - {fu_request_id x} \<subseteq> fu_request_id ` set (remove1 x (inflight j))"
    and "list_all (\<lambda>y. py_strip (fu_request_id y) \<noteq> [] \<and> fu_content y \<noteq> []) (remove1 x (inflight j))"
    and "py_strip (fu_request_id x) \<noteq> []" and "fu_content x \<noteq> []"
proof -
  show "draining_ids (adm j) - {fu_request_id x} \<subseteq> fu_request_id ` set (remove1 x (inflight j))"
    using assms(1) inflight_remove(2)[OF assms(2), of fu_request_id] unfolding adm_inv_def drain_ok_def by blast
qed (use assms in \<open>auto simp: adm_inv_def queues_ok_def list.pred_set dest: set_remove1_subset[THEN subsetD]\<close>)

lemma settle_drain_cases:
  assumes "settle_drain lock now wait needs x a = (e, a')" and "0 < wait"
  obtains "fu_request_id x \<in> dropped_while_draining a" "e = DeletedFirst"
      "a' = a\<lparr>draining_ids := draining_ids a - {fu_request_id x},
        dropped_while_draining := dropped_while_draining a - {fu_request_id x}\<rparr>"
    | "fu_request_id x \<notin> dropped_while_draining a" "e \<noteq> DeletedFirst" "e \<noteq> PutBack"
      "e = Overdue \<Longrightarrow> lapse_ok (x, Some (now, wait))" "e = NotNeeded \<Longrightarrow> lapse_ok (x, None)"
      "a' = a\<lparr>draining_ids := draining_ids a - {fu_request_id x}\<rparr>"
    | t where "fu_request_id x \<notin> dropped_while_draining a" "e = PutBack"
      "a' = a\<lparr>draining_ids := draining_ids a - {fu_request_id x},
        follow_up_queue := requeued_item x t # follow_up_queue a\<rparr>"
  using assms
  by (auto simp: settle_drain_def Let_def finish_follow_up_drain_def requeue_follow_up_front_def
      requeued_item_def lapse_ok_def split: if_splits option.splits)

lemma adm_inv_settle:
  assumes "adm_inv j" and "x \<in> set (inflight j)" and "0 < wait" and "settle_drain lock now wait needs x (adm j) = (e, a)"
  shows "adm_inv (drained e now wait x (j\<lparr>adm := a, inflight := remove1 x (inflight j)\<rparr>))"
proof -
  note left = flight_left[OF assms(1,2)] and ids = inflight_remove(1)[OF assms(2), of fu_request_id]
  from assms(4,3) show ?thesis
  proof (cases rule: settle_drain_cases)
    case 1
    then show ?thesis using assms(1) left(1,2) ids by (auto simp: adm_inv_defs drained_def)
  next
    case 2
    then show ?thesis using assms(1) left(1,2) ids
      by (cases e) (auto simp: adm_inv_defs drained_def)
  next
    case (3 t)
    then show ?thesis using assms(1) left ids by (auto simp: adm_inv_defs drained_def requeued_item_def)
  qed
qed

lemma adm_inv_queue_step:
  assumes "queue_step j j'" and "adm_inv j"
  shows "adm_inv j'"
  using assms
proof (cases rule: queue_step.cases)
  case (follow_up rid content prov runs pos a)
  then show ?thesis using assms(2)
    by (auto simp: adm_inv_defs enqueue_follow_up_def follow_up_ids_def split: if_splits)
next
  case (steer content prov pos a)
  then show ?thesis using assms(2)
    by (auto simp: adm_inv_defs enqueue_steer_def follow_up_ids_def promoted_ids_def is_promoted_def split: if_splits)
next
  case (promote rid pos a)
  then obtain i where i: "follow_up_index (adm j) rid = Some i"
    by (auto simp: promote_follow_up_def split: if_splits option.splits)
  note d = follow_up_index_SomeD[OF i]
  have "rid \<noteq> []" "py_strip rid \<noteq> []" "int (length (steer_queue (adm j))) < max_steer (adm j)"
    and a: "a = (adm j)\<lparr>follow_up_queue := remove_at i (follow_up_queue (adm j)),
      steer_queue := steer_queue (adm j) @ [\<lparr>st_content = fu_content (follow_up_queue (adm j) ! i),
        st_provenance = ''human'', st_queued_request_id = Some rid\<rparr>]\<rparr>"
    using promote(2) i d by (auto simp: promote_follow_up_def Let_def split: if_splits)
  moreover have "fu_content (follow_up_queue (adm j) ! i) \<noteq> []"
    using assms(2) d(1) by (simp add: adm_inv_defs list.pred_set)
  ultimately show ?thesis
    using assms(2) d mset_remove_at[OF d(1), of fu_request_id] set_remove_at[of i "follow_up_queue (adm j)"]
    by (auto simp: promote(1) adm_inv_defs follow_up_ids_def list.pred_set promoted_ids_def is_promoted_def)
next
  case (drop_queued rid a i)
  note d = follow_up_index_SomeD[OF drop_queued(3)]
  show ?thesis using drop_queued d assms(2) mset_remove_at[OF d(1), of fu_request_id]
     set_remove_at[of i "follow_up_queue (adm j)"]
    by (auto simp: adm_inv_defs drop_follow_up_def follow_up_ids_def list.pred_set split: if_splits)
next
  case (drop_draining rid a)
  then show ?thesis using assms(2)
    by (auto simp: adm_inv_defs drop_follow_up_def follow_up_ids_def split: if_splits)
next
  case (pop_queued_steer x a)
  then obtain xs where "steer_queue (adm j) = x # xs" "a = (adm j)\<lparr>steer_queue := xs\<rparr>"
    by (auto simp: pop_steer_def split: list.splits)
  then show ?thesis using assms(2) pop_queued_steer(1) promoted_ids_Cons[of x xs]
    by (auto simp: adm_inv_defs)
next
  case (pop_drain x a)
  then show ?thesis using assms(2)
    by (auto simp: adm_inv_defs pop_follow_up_def follow_up_ids_def split: list.splits)
next
  case (settle x wait lock now needs e a)
  then show ?thesis using adm_inv_settle[OF assms(2) settle(2,3,4)] by simp
next
  case (restore n a)
  then show ?thesis using assms(2) adm_inv_restored[OF assms(2)] by (simp add: restore_promoted_steers_def Let_def)
next
  case cancel
  then show ?thesis using adm_inv_cancelled[OF adm_inv_restored[OF assms(2)]] promoted_restored
    by (simp add: clear_steer_def)
qed

lemma adm_inv_step:
  assumes "adm_step j j'" and "adm_inv j"
  shows "adm_inv j'"
proof -
  have "adm_inv (teardown j)" using assms(2) by (auto simp: adm_inv_defs clear_all_def teardown_def)
  then show ?thesis using assms adm_inv_queue_step by (auto simp: adm_step_def)
qed

interpretation journal: inv_relation adm_step adm_inv
  by unfold_locales (rule adm_inv_step)

interpretation queues: inv_relation queue_step adm_inv
  by unfold_locales (rule adm_inv_queue_step)

section \<open>A deletion beats a drain\<close>

definition deleted :: "string \<Rightarrow> journal \<Rightarrow> bool" where
  \<comment> \<open>gone, or marked while its drain is still under way\<close>
  "deleted rid j \<longleftrightarrow> rid \<in># gone j \<or> rid \<in> dropped_while_draining (adm j)"

lemma deleted_step:
  assumes "queue_step j j'" and "deleted rid j"
  shows "deleted rid j'"
  using assms
proof (cases rule: queue_step.cases)
  case (settle x wait lock now needs e a)
  from settle(4,3) show ?thesis
    by (cases rule: settle_drain_cases) (use assms(2) settle(1) in \<open>cases e; auto simp: deleted_def drained_def\<close>)+
qed (auto simp: deleted_def enqueue_follow_up_def enqueue_steer_def promote_follow_up_def drop_follow_up_def
    pop_steer_def pop_follow_up_def restore_promoted_steers_def clear_steer_def Let_def
    split: if_splits option.splits list.splits)

interpretation deletion: inv_relation queue_step "deleted rid"
  by unfold_locales (rule deleted_step)

lemma deleted_not_delivered:
  assumes "adm_inv j" and "deleted rid j"
  shows "count (delivered j) rid < count (accepted j) rid"
proof -
  have "rid \<in># gone j + mset (map fu_request_id (inflight j))"
    using assms(1,2) by (auto simp: adm_inv_def drain_ok_def deleted_def)
  then have "1 \<le> count (gone j + mset (map fu_request_id (inflight j))) rid"
    by (simp add: Suc_le_eq count_greater_zero_iff del: mset_map count_union)
  moreover have "count (accepted j) rid = count (follow_up_ids (adm j) + promoted_ids (steer_queue (adm j))
      + mset (map fu_request_id (inflight j)) + delivered j + lapsed_ids j + gone j) rid"
    using assms(1) by (simp add: adm_inv_def settled_def)
  ultimately show ?thesis unfolding count_union by linarith
qed

definition journal_drop :: "string \<Rightarrow> admission \<Rightarrow> journal \<Rightarrow> journal" where
  \<comment> \<open>the journal after a successful DELETE that left the queues as \<open>a\<close>\<close>
  "journal_drop rid a j = j\<lparr>adm := a,
     gone := (if follow_up_index (adm j) rid = None then gone j else add_mset rid (gone j))\<rparr>"

lemma journal_drop_step:
  assumes "drop_follow_up rid (adm j) = Inr a"
  shows "queue_step j (journal_drop rid a j)" and "deleted rid (journal_drop rid a j)"
proof -
  show "queue_step j (journal_drop rid a j)"
    using assms queue_step.drop_queued[of rid j a] queue_step.drop_draining[of rid j a]
    by (cases "follow_up_index (adm j) rid") (simp_all add: journal_drop_def)
  show "deleted rid (journal_drop rid a j)"
    using assms by (auto simp: deleted_def journal_drop_def drop_follow_up_def split: if_splits option.splits)
qed

lemma adm_inv_fresh: "adm_inv (new_journal (new_admission ms mf es ef))"
  by (rule adm_inv_new) (simp_all add: new_admission_def)

text \<open>
  C33: no prompt is lost or duplicated: in every state the queues can reach, through any interleaving of
  enqueues, promotions, deletions, drains, put-backs, cancels and teardowns, each accepted follow-up is
  exactly one of queued, waiting as a promoted steer, in flight, delivered, dropped by a drain or deleted; a
  drain drops only a follow-up whose first failure to get the turn lock lies at least the wait budget back,
  and wake-ups of the harness; and the steer queue never exceeds its bound.
\<close>
theorem admission_conserves:
  assumes "adm_step\<^sup>*\<^sup>* (new_journal (new_admission ms mf es ef)) j"
  shows "accepted j = follow_up_ids (adm j) + promoted_ids (steer_queue (adm j))
      + mset (map fu_request_id (inflight j)) + delivered j + lapsed_ids j + gone j
    \<and> list_all lapse_ok (lapsed j)
    \<and> int (length (steer_queue (adm j))) \<le> max 0 (max_steer (adm j))"
  using journal.reachable_inv[OF assms adm_inv_fresh] unfolding adm_inv_def settled_def queues_ok_def by blast

definition one_queued :: admission where
  "one_queued = (new_admission None None None None)\<lparr>follow_up_queue :=
     [\<lparr>fu_request_id = ''r1'', fu_content = [Text ''hi''], fu_first_lock_fail_at_ms = None,
       fu_provenance = ''human'', fu_harness_run_ids = []\<rparr>]\<rparr>"

lemma strip_r1: "py_strip ''r1'' = ''r1''"
  by (simp add: py_strip_trimmed_iff py_isspace_def)

lemma one_queued_step:
  "queue_step (new_journal (new_admission None None None None))
    (new_journal one_queued\<lparr>accepted := {#''r1''#}\<rparr>)"
proof -
  let ?j = "new_journal (new_admission None None None None)"
  have "enqueue_follow_up ''r1'' [Text ''hi''] ''human'' [] (adm ?j) = Inr (0, one_queued)"
    by (simp add: enqueue_follow_up_def new_journal_def new_admission_def one_queued_def queue_limit_def strip_r1)
  from queue_step.follow_up[OF this] show ?thesis by (simp add: new_journal_def)
qed

theorem admission_conserves_witness:
  "accepted (new_journal one_queued\<lparr>accepted := {#''r1''#}\<rparr>) = follow_up_ids one_queued"
proof -
  have "adm_step\<^sup>*\<^sup>* (new_journal (new_admission None None None None))
      (new_journal one_queued\<lparr>accepted := {#''r1''#}\<rparr>)"
    using one_queued_step by (auto simp: adm_step_def)
  from admission_conserves[OF this] show ?thesis
    by (simp add: new_journal_def lapsed_ids_def one_queued_def new_admission_def)
qed

text \<open>
  C34: DELETE wins the race with a drain: once the deletion of a follow-up succeeded, whether it was still
  queued or already popped for a turn, no later sequence of queue operations delivers it: its id is
  delivered fewer times than it was accepted, an id accepted once never. A teardown of the session is no
  queue operation here: it forgets the deletions of drains under way.
\<close>
theorem deleted_never_delivered:
  assumes "adm_step\<^sup>*\<^sup>* (new_journal (new_admission ms mf es ef)) j"
    and "drop_follow_up rid (adm j) = Inr a"
    and "queue_step\<^sup>*\<^sup>* (journal_drop rid a j) j'"
  shows "count (delivered j') rid < count (accepted j') rid"
proof (rule deleted_not_delivered)
  have "adm_inv j" by (rule journal.reachable_inv[OF assms(1) adm_inv_fresh])
  then have "adm_inv (journal_drop rid a j)" by (rule queues.rel_inv[OF journal_drop_step(1)[OF assms(2)]])
  then show "adm_inv j'" by (rule queues.reachable_inv[OF assms(3)])
  show "deleted rid j'" by (rule deletion.reachable_inv[OF assms(3) journal_drop_step(2)[OF assms(2)]])
qed

definition one_popped :: admission where
  "one_popped = one_queued\<lparr>follow_up_queue := [], draining_ids := {''r1''}\<rparr>"

definition one_dropped :: admission where
  "one_dropped = one_popped\<lparr>dropped_while_draining := {''r1''}\<rparr>"

definition item_r1 :: follow_up_item where
  "item_r1 = hd (follow_up_queue one_queued)"

lemma drop_popped: "drop_follow_up ''r1'' one_popped = Inr one_dropped"
  by (simp add: drop_follow_up_def follow_up_index_def one_popped_def one_dropped_def one_queued_def strip_r1
      new_admission_def)

theorem deleted_never_delivered_witness:
  "count (delivered (drained DeletedFirst 0 1 item_r1
      (new_journal (one_queued\<lparr>follow_up_queue := []\<rparr>)\<lparr>accepted := {#''r1''#}\<rparr>))) ''r1'' < Suc 0"
proof -
  let ?j = "new_journal one_queued\<lparr>accepted := {#''r1''#}\<rparr>"
  let ?p = "?j\<lparr>adm := one_popped, inflight := [item_r1]\<rparr>"
  let ?d = "journal_drop ''r1'' one_dropped ?p"
  let ?e = "drained DeletedFirst 0 1 item_r1 (?d\<lparr>adm := one_queued\<lparr>follow_up_queue := []\<rparr>,
      inflight := remove1 item_r1 (inflight ?d)\<rparr>)"
  have "pop_follow_up (adm ?j) = (Some item_r1, one_popped)"
    by (simp add: pop_follow_up_def new_journal_def one_queued_def item_r1_def one_popped_def new_admission_def)
  from queue_step.pop_drain[OF this] have "queue_step ?j ?p" by (simp add: new_journal_def)
  then have "adm_step ?j ?p" unfolding adm_step_def by (rule disjI1)
  moreover have "adm_step (new_journal (new_admission None None None None)) ?j"
    unfolding adm_step_def using one_queued_step by (rule disjI1)
  ultimately have "adm_step\<^sup>*\<^sup>* (new_journal (new_admission None None None None)) ?p"
    by (rule converse_rtranclp_into_rtranclp[OF _ r_into_rtranclp, rotated])
  moreover have "drop_follow_up ''r1'' (adm ?p) = Inr one_dropped" by (simp add: drop_popped)
  moreover have "queue_step ?d ?e"
    by (rule queue_step.settle[where lock = "Some True" and now = 0 and wait = 1 and needs = None])
      (simp_all add: journal_drop_def settle_drain_def finish_follow_up_drain_def one_dropped_def one_popped_def
        item_r1_def one_queued_def new_admission_def Let_def)
  ultimately have "count (delivered ?e) ''r1'' < count (accepted ?e) ''r1''"
    using deleted_never_delivered[of None None None None ?p "''r1''" one_dropped ?e] by auto
  then show ?thesis
    by (simp add: drained_def new_journal_def journal_drop_def)
qed

text \<open>A teardown between the DELETE and the end of the drain delivers the deleted follow-up.\<close>

lemma teardown_forgets_deletion:
  "dropped_while_draining one_dropped = {''r1''}"
  "settle_drain (Some True) now wait None item_r1 (clear_all one_dropped) = (Started, clear_all one_dropped)"
  by (simp_all add: settle_drain_def finish_follow_up_drain_def clear_all_def one_dropped_def Let_def)

end
