(* ===== verification/Session_Bus.thy ===== *)
theory Session_Bus
  imports Input_Admission
begin

text \<open>
  \<open>gateway/sse/session_bus.py\<close> with the framing of \<open>sse.py\<close>: the event bus of a session and the registry of
  sessions. Events are numbered, kept for replay in two bounded lanes, and put into the queue of every
  subscriber. Queues and futures are shared objects: the bus holds them in two stores and refers to them by
  number. No operation of the bus waits while it holds the lock and the queues are unbounded, so an
  operation is one step. A task is what a caller can see of it. Waiting for a running turn and removing
  spill files are not modelled.
  Shown: what a subscriber is sent, that questions to the user are answered at most once, and
  that nobody waits for an answer after a session is removed.
\<close>

section \<open>Frames and lanes\<close>

datatype replay_lane = PrimaryLane | NestedLane

definition format_data_event :: "nat \<Rightarrow> string \<Rightarrow> string" where
  "format_data_event seq data = ''id: '' @ str_of_nat seq @ [nl] @ ''data: '' @ data @ [nl, nl]"

definition format_ping :: "nat \<Rightarrow> string" where
  "format_ping n = '': ping '' @ str_of_nat n @ [nl, nl]"

definition replay_maxlen_from_env :: "string option \<Rightarrow> nat" where
  \<comment> \<open>the argument is the variable \<open>SSE_REPLAY_MAX\<close>\<close>
  "replay_maxlen_from_env raw = (case py_int (case raw of None \<Rightarrow> ''256'' | Some s \<Rightarrow> s) of
     None \<Rightarrow> 256 | Some n \<Rightarrow> nat (max 1 n))"

definition nested_replay_maxlen_from_env :: "string option \<Rightarrow> string option \<Rightarrow> nat" where
  "nested_replay_maxlen_from_env nested raw =
     (let s = py_strip (case nested of None \<Rightarrow> [] | Some s \<Rightarrow> s)
      in if s = [] then replay_maxlen_from_env raw
         else (case py_int s of None \<Rightarrow> replay_maxlen_from_env raw | Some n \<Rightarrow> nat (max 1 n)))"

definition take_last :: "nat \<Rightarrow> 'a list \<Rightarrow> 'a list" where
  "take_last m xs = drop (length xs - m) xs"

definition deque_append :: "nat \<Rightarrow> 'a list \<Rightarrow> 'a \<Rightarrow> 'a list" where
  \<comment> \<open>\<open>deque(maxlen=m).append\<close>\<close>
  "deque_append m xs x = take_last m (xs @ [x])"

section \<open>The bus\<close>

datatype future = Waiting | Answered json | FutCancelled

datatype task_state = TaskRunning | TaskDone | TaskCancelled

record session_bus =
  sb_current_request_id :: "string option"
  sb_cancel_requested_for :: "string option"
  sb_turn_cancel_event :: "bool option"
  sb_seq :: nat
  sb_primary_max :: nat
  sb_nested_max :: nat
  sb_replay_primary :: "(nat \<times> string) list"
  sb_replay_nested :: "(nat \<times> string) list"
  sb_queues :: "string list list"
  sb_subscribers :: "nat set"
  sb_futures :: "future list"
  sb_pending :: "(string, nat) dict"
  sb_terminated :: "string list"
  sb_admission :: admission
  sb_retry_task :: "task_state option"

definition terminated_maxlen :: nat where
  "terminated_maxlen = 256"

definition new_bus :: "nat \<Rightarrow> nat \<Rightarrow> admission \<Rightarrow> session_bus" where
  "new_bus primary_max nested_max a = \<lparr>sb_current_request_id = None, sb_cancel_requested_for = None,
     sb_turn_cancel_event = None, sb_seq = 0, sb_primary_max = primary_max, sb_nested_max = nested_max,
     sb_replay_primary = [], sb_replay_nested = [], sb_queues = [], sb_subscribers = {}, sb_futures = [],
     sb_pending = [], sb_terminated = [], sb_admission = a, sb_retry_task = None\<rparr>"

definition request_cancel :: "string \<Rightarrow> session_bus \<Rightarrow> session_bus" where
  "request_cancel rid b = b\<lparr>sb_cancel_requested_for := Some rid,
     sb_turn_cancel_event :=
       (if sb_turn_cancel_event b \<noteq> None \<and> Some rid = sb_current_request_id b then Some True else sb_turn_cancel_event b)\<rparr>"

definition cancel_follow_up_retry :: "session_bus \<Rightarrow> session_bus \<times> task_state option" where
  \<comment> \<open>the task that was scheduled is returned as it is left\<close>
  "cancel_follow_up_retry b = (b\<lparr>sb_retry_task := None\<rparr>,
     map_option (\<lambda>t. if t = TaskRunning then TaskCancelled else t) (sb_retry_task b))"

definition settle_future :: "nat \<Rightarrow> future \<Rightarrow> session_bus \<Rightarrow> session_bus" where
  "settle_future i f b = b\<lparr>sb_futures := (sb_futures b)[i := f]\<rparr>"

definition fut_done :: "session_bus \<Rightarrow> nat \<Rightarrow> bool" where
  "fut_done b i \<longleftrightarrow> sb_futures b ! i \<noteq> Waiting"

definition register_pending :: "string \<Rightarrow> session_bus \<Rightarrow> nat \<times> session_bus" where
  "register_pending key b =
     (let i = length (sb_futures b)
      in (i, b\<lparr>sb_futures := sb_futures b @ [Waiting], sb_pending := dict_set key i (sb_pending b)\<rparr>))"

definition end_pending :: "string \<Rightarrow> session_bus \<Rightarrow> session_bus" where
  "end_pending key b = b\<lparr>sb_pending := dict_pop key (sb_pending b),
     sb_terminated := deque_append terminated_maxlen (sb_terminated b) key\<rparr>"

definition resolve_pending :: "string \<Rightarrow> json \<Rightarrow> session_bus \<Rightarrow> bool \<times> session_bus" where
  "resolve_pending key payload b = (case dict_get (sb_pending b) key of
       None \<Rightarrow> (False, b)
     | Some i \<Rightarrow> if fut_done b i then (False, b)
                 else (True, end_pending key (settle_future i (Answered payload) b)))"

definition abandon_pending_timeout :: "string \<Rightarrow> session_bus \<Rightarrow> session_bus" where
  "abandon_pending_timeout key b = (case dict_get (sb_pending b) key of
       None \<Rightarrow> b
     | Some i \<Rightarrow> end_pending key (if fut_done b i then b else settle_future i FutCancelled b))"

definition abandon_pending_cancel_all :: "session_bus \<Rightarrow> session_bus" where
  "abandon_pending_cancel_all b = fold abandon_pending_timeout (map fst (sb_pending b)) b"

datatype pending_state = Pending | Terminated | Unknown

definition is_pending_or_terminal :: "string \<Rightarrow> session_bus \<Rightarrow> pending_state" where
  "is_pending_or_terminal key b =
     (if dict_get (sb_pending b) key \<noteq> None then Pending
      else if key \<in> set (sb_terminated b) then Terminated
      else Unknown)"

definition merged_replay :: "session_bus \<Rightarrow> (nat \<times> string) list" where
  "merged_replay b = sort_key fst (sb_replay_primary b @ sb_replay_nested b)"

definition broadcast :: "string \<Rightarrow> session_bus \<Rightarrow> session_bus" where
  "broadcast frame b = b\<lparr>sb_queues := map (\<lambda>i. if i \<in> sb_subscribers b then sb_queues b ! i @ [frame] else sb_queues b ! i)
     [0 ..< length (sb_queues b)]\<rparr>"

definition store_frame :: "replay_lane \<Rightarrow> nat \<times> string \<Rightarrow> session_bus \<Rightarrow> session_bus" where
  "store_frame lane e b = (case lane of
       PrimaryLane \<Rightarrow> b\<lparr>sb_replay_primary := deque_append (sb_primary_max b) (sb_replay_primary b) e\<rparr>
     | NestedLane \<Rightarrow> b\<lparr>sb_replay_nested := deque_append (sb_nested_max b) (sb_replay_nested b) e\<rparr>)"

definition publish_data :: "string \<Rightarrow> replay_lane \<Rightarrow> session_bus \<Rightarrow> nat \<times> session_bus" where
  "publish_data data lane b =
     (let seq = Suc (sb_seq b); frame = format_data_event seq data
      in (seq, broadcast frame (store_frame lane (seq, frame) (b\<lparr>sb_seq := seq\<rparr>))))"

definition publish_comment :: "string \<Rightarrow> session_bus \<Rightarrow> session_bus" where
  "publish_comment line b = broadcast line b"

definition subscribe :: "int option \<Rightarrow> session_bus \<Rightarrow> string list \<times> nat \<times> session_bus" where
  "subscribe last_event_id b =
     (let q = length (sb_queues b); cutoff = (case last_event_id of None \<Rightarrow> 0 | Some n \<Rightarrow> n)
      in (map snd (filter (\<lambda>e. cutoff < int (fst e)) (merged_replay b)), q,
          b\<lparr>sb_queues := sb_queues b @ [[]], sb_subscribers := insert q (sb_subscribers b)\<rparr>))"

definition unsubscribe :: "nat \<Rightarrow> session_bus \<Rightarrow> session_bus" where
  "unsubscribe q b = b\<lparr>sb_subscribers := sb_subscribers b - {q}\<rparr>"

section \<open>The registry\<close>

type_synonym registry = "(string, session_bus) dict"

datatype registry_error = SessionAlreadyExists string

definition registry_create ::
    "string \<Rightarrow> nat \<Rightarrow> nat \<Rightarrow> admission \<Rightarrow> registry \<Rightarrow> registry_error + session_bus \<times> registry" where
  "registry_create sid primary_max nested_max a reg =
     (if dict_get reg sid \<noteq> None then Inl (SessionAlreadyExists sid)
      else (let b = new_bus primary_max nested_max a in Inr (b, dict_set sid b reg)))"

definition registry_detach :: "string \<Rightarrow> registry \<Rightarrow> session_bus option \<times> registry" where
  "registry_detach sid reg = (case dict_get reg sid of
       None \<Rightarrow> (None, reg)
     | Some b \<Rightarrow>
         (let b1 = fst (cancel_follow_up_retry (abandon_pending_cancel_all b))
          in (Some (b1\<lparr>sb_admission := clear_all (sb_admission b1)\<rparr>), dict_pop sid reg)))"

definition registry_remove :: "string \<Rightarrow> registry \<Rightarrow> bool \<times> registry" where
  "registry_remove sid reg = (case registry_detach sid reg of
       (None, reg') \<Rightarrow> (False, reg')
     | (Some _, reg') \<Rightarrow> (True, reg'))"

section \<open>What subscribers are sent\<close>

datatype bus_op =
    OpPublish string replay_lane
  | OpComment string
  | OpSubscribe "int option"
  | OpUnsubscribe nat
  | OpRegister string
  | OpResolve string json
  | OpTimeout string
  | OpCancelAll
  | OpRequestCancel string
  | OpWaiterCancelled nat

fun bus_step :: "bus_op \<Rightarrow> session_bus \<Rightarrow> session_bus" where
  "bus_step (OpPublish data lane) b = snd (publish_data data lane b)"
| "bus_step (OpComment line) b = publish_comment line b"
| "bus_step (OpSubscribe n) b = snd (snd (subscribe n b))"
| "bus_step (OpUnsubscribe q) b = unsubscribe q b"
| "bus_step (OpRegister key) b = snd (register_pending key b)"
| "bus_step (OpResolve key payload) b = snd (resolve_pending key payload b)"
| "bus_step (OpTimeout key) b = abandon_pending_timeout key b"
| "bus_step OpCancelAll b = abandon_pending_cancel_all b"
| "bus_step (OpRequestCancel rid) b = request_cancel rid b"
| "bus_step (OpWaiterCancelled i) b = (if i < length (sb_futures b) \<and> \<not> fut_done b i then settle_future i FutCancelled b else b)"

datatype entry = DataEntry nat replay_lane string | CommentEntry string

fun entry_text :: "entry \<Rightarrow> string" where
  "entry_text (DataEntry s l f) = f"
| "entry_text (CommentEntry c) = c"

fun logged :: "bus_op \<Rightarrow> session_bus \<Rightarrow> entry list" where
  "logged (OpPublish data lane) b = [DataEntry (Suc (sb_seq b)) lane (format_data_event (Suc (sb_seq b)) data)]"
| "logged (OpComment line) b = [CommentEntry line]"
| "logged _ b = []"

fun bus_run :: "bus_op list \<Rightarrow> session_bus \<Rightarrow> entry list \<times> session_bus" where
  \<comment> \<open>everything that was broadcast, and the bus\<close>
  "bus_run [] b = ([], b)"
| "bus_run (a # ops) b = (let (es, b') = bus_run ops (bus_step a b) in (logged a b @ es, b'))"

type_synonym event = "nat \<times> replay_lane \<times> string"

fun events :: "entry list \<Rightarrow> event list" where
  "events [] = []"
| "events (DataEntry s l f # es) = (s, l, f) # events es"
| "events (CommentEntry c # es) = events es"

definition on_lane :: "replay_lane \<Rightarrow> event list \<Rightarrow> (nat \<times> string) list" where
  "on_lane lane evs = map (\<lambda>(s, l, f). (s, f)) (filter (\<lambda>(s, l, f). l = lane) evs)"

definition lane_cap :: "session_bus \<Rightarrow> replay_lane \<Rightarrow> nat" where
  "lane_cap b lane = (case lane of PrimaryLane \<Rightarrow> sb_primary_max b | NestedLane \<Rightarrow> sb_nested_max b)"

definition replays :: "event list \<Rightarrow> session_bus \<Rightarrow> bool" where
  \<comment> \<open>the bus is what the events make it\<close>
  "replays evs b \<longleftrightarrow> sb_seq b = length evs \<and> map fst evs = [1 ..< Suc (length evs)]
     \<and> sb_replay_primary b = take_last (sb_primary_max b) (on_lane PrimaryLane evs)
     \<and> sb_replay_nested b = take_last (sb_nested_max b) (on_lane NestedLane evs)
     \<and> sb_subscribers b \<subseteq> {..< length (sb_queues b)}"

lemma take_last_append: "take_last m (take_last m xs @ [x]) = take_last m (xs @ [x])"
proof (cases m)
  case (Suc n)
  have "length xs - (length xs - Suc n + n) + (length xs - Suc n) = length xs - n" by arith
  then show ?thesis by (simp add: take_last_def Suc)
qed (simp add: take_last_def)

lemma on_lane_snoc:
  "on_lane lane (evs @ [(s, l, f)]) = on_lane lane evs @ (if l = lane then [(s, f)] else [])"
  by (simp add: on_lane_def)

lemma events_append [simp]: "events (xs @ ys) = events xs @ events ys"
  by (induction xs rule: events.induct) auto

lemma broadcast_sel [simp]:
  "sb_seq (broadcast f b) = sb_seq b" "sb_primary_max (broadcast f b) = sb_primary_max b" "sb_nested_max (broadcast f b) = sb_nested_max b"
  "sb_replay_primary (broadcast f b) = sb_replay_primary b" "sb_replay_nested (broadcast f b) = sb_replay_nested b"
  "sb_subscribers (broadcast f b) = sb_subscribers b" "length (sb_queues (broadcast f b)) = length (sb_queues b)"
  "sb_futures (broadcast f b) = sb_futures b" "sb_pending (broadcast f b) = sb_pending b"
  by (simp_all add: broadcast_def)

lemma store_frame_sel [simp]:
  "sb_seq (store_frame l e b) = sb_seq b" "sb_primary_max (store_frame l e b) = sb_primary_max b"
  "sb_nested_max (store_frame l e b) = sb_nested_max b" "sb_subscribers (store_frame l e b) = sb_subscribers b"
  "sb_queues (store_frame l e b) = sb_queues b" "sb_futures (store_frame l e b) = sb_futures b" "sb_pending (store_frame l e b) = sb_pending b"
  by (cases l; simp add: store_frame_def)+

lemma replays_publish: "replays evs b \<Longrightarrow>
  replays (evs @ [(Suc (sb_seq b), lane, format_data_event (Suc (sb_seq b)) data)]) (snd (publish_data data lane b))"
  by (cases lane)
    (auto simp: replays_def publish_data_def Let_def on_lane_snoc store_frame_def deque_append_def take_last_append)

text \<open>Answering questions does not touch the lanes and the queues.\<close>

definition same_stream :: "session_bus \<Rightarrow> session_bus \<Rightarrow> bool" where
  "same_stream b b' \<longleftrightarrow> sb_seq b' = sb_seq b \<and> sb_primary_max b' = sb_primary_max b \<and> sb_nested_max b' = sb_nested_max b
     \<and> sb_replay_primary b' = sb_replay_primary b \<and> sb_replay_nested b' = sb_replay_nested b
     \<and> sb_queues b' = sb_queues b \<and> sb_subscribers b' = sb_subscribers b"

lemma same_stream_refl [simp]: "same_stream b b"
  by (simp add: same_stream_def)

lemma same_stream_fold: "(\<And>x b. same_stream b (f x b)) \<Longrightarrow> same_stream b (fold f xs b)"
proof (induction xs arbitrary: b)
  case (Cons x xs)
  then show ?case using Cons.IH[of "f x b"] Cons.prems[of b x] by (simp add: same_stream_def)
qed simp

lemma abandon_stream: "same_stream b (abandon_pending_timeout key b)"
  by (simp add: same_stream_def abandon_pending_timeout_def end_pending_def settle_future_def split: option.split)

lemma pending_stream:
  "same_stream b (bus_step (OpRegister key) b)" "same_stream b (bus_step (OpResolve key p) b)" "same_stream b (bus_step (OpTimeout key) b)"
  "same_stream b (bus_step OpCancelAll b)" "same_stream b (bus_step (OpRequestCancel rid) b)" "same_stream b (bus_step (OpWaiterCancelled i) b)"
  by (simp_all add: abandon_stream abandon_pending_cancel_all_def same_stream_fold)
    (simp_all add: same_stream_def register_pending_def resolve_pending_def end_pending_def settle_future_def request_cancel_def Let_def split: option.split)

lemma replays_same: "same_stream b b' \<Longrightarrow> replays evs b' = replays evs b"
  by (simp add: same_stream_def replays_def)

lemma replays_step:
  assumes "replays evs b"
  shows "replays (evs @ events (logged a b)) (bus_step a b)"
proof (cases "same_stream b (bus_step a b) \<and> logged a b = []")
  case True
  then show ?thesis using assms replays_same by auto
next
  case False
  then show ?thesis
  proof (cases a)
    case (OpPublish data lane)
    then show ?thesis using assms replays_publish by simp
  next
    case (OpSubscribe n)
    then show ?thesis using assms by (auto simp: replays_def subscribe_def Let_def)
  next
    case (OpComment line)
    then show ?thesis using assms by (simp add: publish_comment_def replays_def)
  next
    case (OpUnsubscribe q)
    then show ?thesis using assms by (auto simp: unsubscribe_def replays_def)
  qed (use False pending_stream in \<open>auto simp del: bus_step.simps\<close>)
qed

lemma replays_run: "replays evs b \<Longrightarrow> replays (evs @ events (fst (bus_run ops b))) (snd (bus_run ops b))"
proof (induction ops arbitrary: evs b)
  case (Cons a ops)
  then show ?case using Cons.IH[OF replays_step[OF Cons.prems, of a]] by (simp add: case_prod_beta)
qed simp

lemma replays_new: "replays [] (new_bus pm nm a)"
  by (simp add: replays_def new_bus_def take_last_def on_lane_def)

section \<open>Replay\<close>

definition newer :: "event list \<Rightarrow> event \<Rightarrow> nat" where
  \<comment> \<open>how many later events of its lane there are\<close>
  "newer evs e = length (filter (\<lambda>e'. fst (snd e') = fst (snd e) \<and> fst e < fst e') evs)"

lemma take_last_strict:
  assumes "sorted_wrt (<) (map fst (xs :: (nat \<times> 'a) list))"
  shows "take_last m xs = filter (\<lambda>x. length (filter (\<lambda>y. fst x < fst y) xs) < m) xs"
  using assms
proof (induction xs)
  case (Cons x xs)
  have later: "\<And>y. y \<in> set xs \<Longrightarrow> fst x < fst y" using Cons.prems by auto
  then have "filter (\<lambda>y. fst x < fst y) xs = xs" by (simp add: filter_id_conv)
  moreover have "\<not> fst y < fst x" if "y \<in> set xs" for y using later[OF that] by simp
  then have "filter (\<lambda>z. length (filter (\<lambda>y. fst z < fst y) (x # xs)) < m) xs = filter (\<lambda>z. length (filter (\<lambda>y. fst z < fst y) xs) < m) xs"
    by (intro filter_cong) auto
  moreover have "take_last m (x # xs) = (if length xs < m then x # xs else take_last m xs)"
    by (auto simp: take_last_def Suc_diff_le not_less)
  moreover have "filter (\<lambda>z. length (filter (\<lambda>y. fst z < fst y) xs) < m) xs = xs" if "length xs < m"
  proof -
    have "length (filter P xs) < m" for P using that length_filter_le[of P xs] by linarith
    then show ?thesis by (simp add: filter_id_conv)
  qed
  ultimately show ?case using Cons by auto
qed (simp add: take_last_def)

lemma sort_merge:
  assumes "distinct (map fst xs)" and "sorted (map fst xs)" and "distinct (map fst zs)" and "set zs = set xs"
  shows "sort_key fst zs = (xs :: (nat \<times> 'a) list)"
proof (rule map_sorted_distinct_set_unique[where f = fst])
  show "inj_on fst (set (sort_key fst zs) \<union> set xs)" using assms(1,4) by (simp add: distinct_map)
qed (use assms in \<open>simp_all add: distinct_map\<close>)

definition framed :: "event \<Rightarrow> nat \<times> string" where
  "framed e = (fst e, snd (snd e))"

definition retained :: "session_bus \<Rightarrow> event list \<Rightarrow> event \<Rightarrow> bool" where
  \<comment> \<open>fewer later events of its own lane than the lane holds\<close>
  "retained b evs e \<longleftrightarrow> newer evs e < lane_cap b (fst (snd e))"

lemma on_lane_framed: "on_lane lane evs = map framed (filter (\<lambda>e. fst (snd e) = lane) evs)"
  by (simp add: on_lane_def framed_def case_prod_beta')

lemma lane_retained:
  assumes "sorted_wrt (<) (map fst evs)"
  shows "take_last m (on_lane lane evs) = map framed (filter (\<lambda>e. fst (snd e) = lane \<and> newer evs e < m) evs)"
proof -
  have "map fst (on_lane lane evs) = map fst (filter (\<lambda>e. fst (snd e) = lane) evs)"
    by (simp add: on_lane_framed framed_def comp_def)
  moreover have "sorted_wrt (<) (map fst (filter (\<lambda>e. fst (snd e) = lane) evs))"
    using assms by (simp add: sorted_wrt_map sorted_wrt_filter)
  ultimately have "take_last m (on_lane lane evs)
      = filter (\<lambda>x. length (filter (\<lambda>y. fst x < fst y) (on_lane lane evs)) < m) (on_lane lane evs)"
    using take_last_strict by metis
  also have "\<dots> = map framed (filter (\<lambda>e. length (filter (\<lambda>y. fst e < fst y) (on_lane lane evs)) < m) (filter (\<lambda>e. fst (snd e) = lane) evs))"
    by (simp add: on_lane_framed filter_map comp_def framed_def)
  also have "filter (\<lambda>e. length (filter (\<lambda>y. fst e < fst y) (on_lane lane evs)) < m) (filter (\<lambda>e. fst (snd e) = lane) evs)
      = filter (\<lambda>e. fst (snd e) = lane \<and> newer evs e < m) evs"
    by (auto simp: newer_def on_lane_framed filter_map comp_def framed_def conj_commute intro!: filter_cong)
  finally show ?thesis .
qed

lemma merged_replay_retained:
  assumes "replays evs b"
  shows "merged_replay b = map framed (filter (retained b evs) evs)"
proof -
  have seqs: "map fst evs = [1 ..< Suc (length evs)]" using assms by (simp add: replays_def)
  have strict: "sorted_wrt (<) (map fst evs)" unfolding seqs by (rule sorted_wrt_upt)
  have dist: "distinct (map fst evs)" unfolding seqs by (rule distinct_upt)
  let ?part = "\<lambda>lane. filter (\<lambda>e. fst (snd e) = lane \<and> newer evs e < lane_cap b lane) evs"
  have lanes: "sb_replay_primary b = map framed (?part PrimaryLane)" "sb_replay_nested b = map framed (?part NestedLane)"
    using assms lane_retained[OF strict] by (simp_all add: replays_def lane_cap_def)
  have fsts: "map fst (map framed xs) = map fst xs" for xs by (simp add: framed_def)
  have "set (?part PrimaryLane @ ?part NestedLane) = set (filter (retained b evs) evs)"
    by (rule set_eqI, rename_tac e, case_tac "fst (snd e)") (simp_all add: retained_def)
  moreover have "distinct (map fst (?part PrimaryLane @ ?part NestedLane))"
    using dist by (auto simp: distinct_map inj_on_def) fastforce
  ultimately show ?thesis
    unfolding merged_replay_def lanes map_append[symmetric]
    using dist strict by (intro sort_merge)
      (auto simp only: fsts set_map distinct_map_filter sorted_wrt_map strict_sorted_iff intro!: sorted_wrt_mono_rel[OF _ sorted_wrt_filter] less_imp_le)
qed

lemma queue_step:
  assumes "q \<in> sb_subscribers b" and "q < length (sb_queues b)" and "a \<noteq> OpUnsubscribe q"
  shows "q \<in> sb_subscribers (bus_step a b) \<and> q < length (sb_queues (bus_step a b))
    \<and> sb_queues (bus_step a b) ! q = sb_queues b ! q @ map entry_text (logged a b)"
proof (cases "same_stream b (bus_step a b) \<and> logged a b = []")
  case True
  then show ?thesis using assms by (simp add: same_stream_def)
next
  case False
  then show ?thesis
  proof (cases a)
    case (OpPublish data lane)
    then show ?thesis using assms by (simp add: publish_data_def Let_def broadcast_def)
  next
    case (OpComment line)
    then show ?thesis using assms by (simp add: publish_comment_def broadcast_def)
  next
    case (OpSubscribe n)
    then show ?thesis using assms by (simp add: subscribe_def Let_def nth_append)
  next
    case (OpUnsubscribe q')
    then show ?thesis using assms by (auto simp: unsubscribe_def)
  qed (use False pending_stream in \<open>auto simp del: bus_step.simps\<close>)
qed

lemma queue_run:
  assumes "q \<in> sb_subscribers b" and "q < length (sb_queues b)" and "OpUnsubscribe q \<notin> set ops"
  shows "sb_queues (snd (bus_run ops b)) ! q = sb_queues b ! q @ map entry_text (fst (bus_run ops b))"
  using assms
proof (induction ops arbitrary: b)
  case (Cons a ops)
  have "a \<noteq> OpUnsubscribe q" using Cons.prems(3) by auto
  from queue_step[OF Cons.prems(1,2) this] show ?case using Cons.IH[of "bus_step a b"] Cons.prems(3)
    by (simp add: case_prod_beta)
qed simp

text \<open>
  C26: what a subscriber is sent. After any history of the bus, a subscriber that asks for the events after a number is given, in
  order, exactly those that fewer later events of their own lane than the lane holds have followed, so
  that the traffic of subagents never pushes out an event of the turn itself; and from then on its queue
  receives everything that is broadcast, in order, until it is unsubscribed.
\<close>
theorem subscriber_stream:
  assumes "bus_run ops (new_bus pm nm a) = (log, b)" and "subscribe last_id b = (frames, q, b1)"
    and "bus_run ops2 b1 = (log2, b2)" and "OpUnsubscribe q \<notin> set ops2"
  shows "frames = map (snd \<circ> snd) (filter (\<lambda>e. (case last_id of None \<Rightarrow> 0 | Some n \<Rightarrow> n) < int (fst e) \<and> retained b (events log) e) (events log))
    \<and> sb_queues b2 ! q = map entry_text log2"
proof -
  have rep: "replays (events log) b" using replays_run[OF replays_new, of ops pm nm a] assms(1) by simp
  have frames: "frames = map snd (filter (\<lambda>e. (case last_id of None \<Rightarrow> 0 | Some n \<Rightarrow> n) < int (fst e)) (merged_replay b))"
    and q: "q = length (sb_queues b)" and b1: "b1 = b\<lparr>sb_queues := sb_queues b @ [[]], sb_subscribers := insert q (sb_subscribers b)\<rparr>"
    using assms(2) by (auto simp: subscribe_def Let_def)
  have "sb_queues b2 ! q = [] @ map entry_text log2"
    using queue_run[of q b1 ops2] assms(3,4) by (simp add: b1 q)
  moreover have "frames = map (snd \<circ> snd) (filter (\<lambda>e. (case last_id of None \<Rightarrow> 0 | Some n \<Rightarrow> n) < int (fst e)) (filter (retained b (events log)) (events log)))"
    unfolding frames merged_replay_retained[OF rep] by (simp add: filter_map comp_def framed_def)
  ultimately show ?thesis by (simp add: filter_filter conj_commute)
qed

definition no_admission :: admission where
  "no_admission = \<lparr>max_steer = 8, max_follow_up = 16, steer_queue = [], follow_up_queue = [], draining_ids = {}, dropped_while_draining = {}\<rparr>"

theorem subscriber_stream_witness:
  "\<exists>b frames q b1 b2. bus_run [OpPublish ''a'' PrimaryLane, OpPublish ''x'' NestedLane, OpPublish ''y'' NestedLane] (new_bus 2 1 no_admission)
      = ([DataEntry 1 PrimaryLane (format_data_event 1 ''a''), DataEntry 2 NestedLane (format_data_event 2 ''x''),
          DataEntry 3 NestedLane (format_data_event 3 ''y'')], b)
    \<and> subscribe None b = (frames, q, b1) \<and> bus_run [OpPublish ''z'' PrimaryLane] b1 = ([DataEntry 4 PrimaryLane (format_data_event 4 ''z'')], b2)
    \<and> frames = [format_data_event 1 ''a'', format_data_event 3 ''y''] \<and> sb_queues b2 ! q = [format_data_event 4 ''z'']"
proof -
  obtain log b where run: "bus_run [OpPublish ''a'' PrimaryLane, OpPublish ''x'' NestedLane, OpPublish ''y'' NestedLane] (new_bus 2 1 no_admission) = (log, b)"
    by fastforce
  then have log: "log = [DataEntry 1 PrimaryLane (format_data_event 1 ''a''), DataEntry 2 NestedLane (format_data_event 2 ''x''),
          DataEntry 3 NestedLane (format_data_event 3 ''y'')]" and caps: "sb_primary_max b = 2" "sb_nested_max b = 1" and seq: "sb_seq b = 3"
    by (auto simp: new_bus_def publish_data_def Let_def numeral_eq_Suc)
  obtain frames q b1 where sub: "subscribe None b = (frames, q, b1)" by (metis prod_cases3)
  then have "sb_seq b1 = 3" using seq by (auto simp: subscribe_def Let_def)
  then obtain b2 where run2: "bus_run [OpPublish ''z'' PrimaryLane] b1 = ([DataEntry 4 PrimaryLane (format_data_event 4 ''z'')], b2)"
    by simp
  from subscriber_stream[OF run sub run2]
  have "frames = [format_data_event 1 ''a'', format_data_event 3 ''y''] \<and> sb_queues b2 ! q = [format_data_event 4 ''z'']"
    by (simp add: log caps retained_def newer_def lane_cap_def)
  then show ?thesis using run[unfolded log] sub run2 by blast
qed

section \<open>Questions to the user\<close>

definition pending_ok :: "session_bus \<Rightarrow> bool" where
  "pending_ok b \<longleftrightarrow> (\<forall>key i. dict_get (sb_pending b) key = Some i \<longrightarrow> i < length (sb_futures b))"

definition answers_stay :: "session_bus \<Rightarrow> session_bus \<Rightarrow> bool" where
  "answers_stay b b' \<longleftrightarrow> length (sb_futures b) \<le> length (sb_futures b')
     \<and> (\<forall>i < length (sb_futures b). sb_futures b ! i \<noteq> Waiting \<longrightarrow> sb_futures b' ! i = sb_futures b ! i)"

lemma answers_stay_refl: "answers_stay b b"
  by (simp add: answers_stay_def)

lemma answers_stay_trans: "answers_stay b b1 \<Longrightarrow> answers_stay b1 b2 \<Longrightarrow> answers_stay b b2"
  unfolding answers_stay_def by (metis order_less_le_trans order_trans)

lemma abandon_answers:
  assumes "pending_ok b"
  shows "pending_ok (abandon_pending_timeout key b) \<and> answers_stay b (abandon_pending_timeout key b)"
  using assms by (auto simp: abandon_pending_timeout_def end_pending_def settle_future_def fut_done_def pending_ok_def
      answers_stay_def nth_list_update split: option.splits)

lemma abandon_all_answers:
  "pending_ok b \<Longrightarrow> pending_ok (fold abandon_pending_timeout keys b) \<and> answers_stay b (fold abandon_pending_timeout keys b)"
proof (induction keys arbitrary: b)
  case (Cons k keys)
  then show ?case using abandon_answers[OF Cons.prems, of k] answers_stay_trans by fastforce
qed (simp add: answers_stay_refl)

lemma resolve_answers:
  assumes "pending_ok b"
  shows "pending_ok (snd (resolve_pending key p b)) \<and> answers_stay b (snd (resolve_pending key p b))"
  using assms by (auto simp: resolve_pending_def end_pending_def settle_future_def fut_done_def pending_ok_def
      answers_stay_def nth_list_update split: option.splits)

lemma step_answers:
  assumes "pending_ok b"
  shows "pending_ok (bus_step a b) \<and> answers_stay b (bus_step a b)"
proof (cases a)
  case (OpRegister key)
  then show ?thesis using assms by (fastforce simp: register_pending_def Let_def pending_ok_def answers_stay_def nth_append)
next
  case (OpResolve key p)
  then show ?thesis using resolve_answers[OF assms] by simp
next
  case (OpTimeout key)
  then show ?thesis using abandon_answers[OF assms] by simp
next
  case OpCancelAll
  then show ?thesis using abandon_all_answers[OF assms] by (simp add: abandon_pending_cancel_all_def)
next
  case (OpWaiterCancelled i)
  then show ?thesis using assms by (auto simp: settle_future_def fut_done_def pending_ok_def answers_stay_def nth_list_update)
qed (use assms in \<open>auto simp: publish_data_def publish_comment_def subscribe_def unsubscribe_def request_cancel_def
      pending_ok_def answers_stay_def Let_def\<close>)

interpretation answers: mono_system bus_step pending_ok answers_stay
  by unfold_locales (auto simp: step_answers answers_stay_refl intro: answers_stay_trans)

lemma bus_run_fold: "snd (bus_run ops b) = fold bus_step ops b"
  by (induction ops arbitrary: b) (simp_all add: case_prod_beta)

text \<open>
  An answer is final. When a question was answered, the future of its waiter holds exactly that answer, the question is no
  longer pending, and neither a second answer nor a timeout, a stop or the removal of all questions changes it.
\<close>
theorem answer_final:
  assumes "bus_run ops (new_bus pm nm a) = (log, b)" and "dict_get (sb_pending b) key = Some i"
    and "resolve_pending key payload b = (True, b1)"
  shows "sb_futures (snd (bus_run ops2 b1)) ! i = Answered payload \<and> is_pending_or_terminal key b1 = Terminated
    \<and> resolve_pending key payload2 b1 = (False, b1)"
proof -
  have new: "pending_ok (new_bus pm nm a)" by (simp add: pending_ok_def new_bus_def)
  have "fold bus_step ops (new_bus pm nm a) = b" using assms(1) bus_run_fold by (metis snd_conv)
  then have ok: "pending_ok b" using answers.run_inv[OF new, of ops] by simp
  then have i: "i < length (sb_futures b)" using assms(2) by (simp add: pending_ok_def)
  have b1: "b1 = end_pending key (settle_future i (Answered payload) b)"
    using assms(2,3) by (auto simp: resolve_pending_def split: if_splits)
  have ok1: "pending_ok b1" using resolve_answers[OF ok, of key payload] assms(3) by simp
  have fut: "i < length (sb_futures b1)" "sb_futures b1 ! i = Answered payload" using i by (simp_all add: b1 end_pending_def settle_future_def)
  have "answers_stay b1 (snd (bus_run ops2 b1))" using answers.run_ord[OF ok1] by (simp add: bus_run_fold)
  then have "sb_futures (snd (bus_run ops2 b1)) ! i = Answered payload" using fut by (simp add: answers_stay_def)
  moreover have gone: "dict_get (sb_pending b1) key = None" by (simp add: b1 end_pending_def)
  moreover have "key \<in> set (sb_terminated b1)"
    by (simp add: b1 end_pending_def deque_append_def take_last_def terminated_maxlen_def)
  ultimately show ?thesis by (simp add: is_pending_or_terminal_def resolve_pending_def)
qed

theorem answer_final_witness:
  "\<exists>b1. resolve_pending ''k'' JNull (snd (bus_run [OpRegister ''k''] (new_bus 2 1 no_admission))) = (True, b1)
    \<and> sb_futures (snd (bus_run [OpTimeout ''k'', OpCancelAll] b1)) ! 0 = Answered JNull"
proof -
  obtain log b where run: "bus_run [OpRegister ''k''] (new_bus 2 1 no_admission) = (log, b)" by fastforce
  then have b: "dict_get (sb_pending b) ''k'' = Some 0" "\<not> fut_done b 0"
    by (auto simp: new_bus_def register_pending_def Let_def fut_done_def)
  then obtain b1 where res: "resolve_pending ''k'' JNull b = (True, b1)" by (auto simp: resolve_pending_def)
  show ?thesis using answer_final[OF run b(1) res, of "[OpTimeout ''k'', OpCancelAll]" JNull] res run by (metis snd_conv)
qed

fun fresh_keys :: "bus_op list \<Rightarrow> session_bus \<Rightarrow> bool" where
  \<comment> \<open>no question is registered under a key that is pending\<close>
  "fresh_keys [] b \<longleftrightarrow> True"
| "fresh_keys (a # ops) b \<longleftrightarrow> (case a of OpRegister key \<Rightarrow> dict_get (sb_pending b) key = None | _ \<Rightarrow> True) \<and> fresh_keys ops (bus_step a b)"

definition waiters_known :: "session_bus \<Rightarrow> bool" where
  "waiters_known b \<longleftrightarrow> (\<forall>i < length (sb_futures b). sb_futures b ! i = Waiting \<longrightarrow> (\<exists>key. dict_get (sb_pending b) key = Some i))"

lemma waiters_ended:
  assumes "waiters_known b" and "dict_get (sb_pending b) key = Some i" and "f \<noteq> Waiting"
  shows "waiters_known (end_pending key (settle_future i f b))"
  unfolding waiters_known_def
proof (intro allI impI)
  fix j assume j: "j < length (sb_futures (end_pending key (settle_future i f b)))" "sb_futures (end_pending key (settle_future i f b)) ! j = Waiting"
  then have "j \<noteq> i" "j < length (sb_futures b)" using assms(3) by (auto simp: end_pending_def settle_future_def)
  moreover from this have "sb_futures b ! j = Waiting" using j(2) by (simp add: end_pending_def settle_future_def)
  ultimately have "j \<noteq> i" "sb_futures b ! j = Waiting" "j < length (sb_futures b)" by simp_all
  then obtain key' where "dict_get (sb_pending b) key' = Some j" using assms(1) by (auto simp: waiters_known_def)
  then show "\<exists>k. dict_get (sb_pending (end_pending key (settle_future i f b))) k = Some j"
    using \<open>j \<noteq> i\<close> assms(2) by (intro exI[of _ key']) (auto simp: end_pending_def settle_future_def)
qed

lemma settle_same: "i < length (sb_futures b) \<Longrightarrow> sb_futures b ! i = f \<Longrightarrow> settle_future i f b = b"
  by (simp add: settle_future_def list_update_same_conv)

lemma abandon_waiters:
  assumes "waiters_known b" and "pending_ok b"
  shows "waiters_known (abandon_pending_timeout key b)"
proof (cases "dict_get (sb_pending b) key")
  case (Some i)
  then have "i < length (sb_futures b)" using assms(2) by (simp add: pending_ok_def)
  then have "fut_done b i \<Longrightarrow> waiters_known (end_pending key b)"
    using waiters_ended[OF assms(1) Some, of "sb_futures b ! i"] settle_same[of i b] by (simp add: fut_done_def)
  then show ?thesis using waiters_ended[OF assms(1) Some] Some by (simp add: abandon_pending_timeout_def)
qed (use assms in \<open>simp add: abandon_pending_timeout_def\<close>)

lemma abandon_all_waiters:
  "waiters_known b \<Longrightarrow> pending_ok b \<Longrightarrow> waiters_known (fold abandon_pending_timeout keys b)
    \<and> map_of (sb_pending (fold abandon_pending_timeout keys b)) = map_of (sb_pending b) |` (- set keys)"
proof (induction keys arbitrary: b)
  case (Cons k keys)
  have "map_of (sb_pending (abandon_pending_timeout k b)) = (map_of (sb_pending b))(k := None)"
    by (auto simp: abandon_pending_timeout_def end_pending_def settle_future_def split: option.splits)
  then show ?case using Cons.IH[OF abandon_waiters[OF Cons.prems, of k]] abandon_answers[OF Cons.prems(2), of k]
    by (auto simp: restrict_map_def fun_eq_iff)
qed (simp add: restrict_map_def)

lemma cancel_all_settles:
  assumes "waiters_known b" and "pending_ok b" and "i < length (sb_futures b)"
  shows "sb_futures (abandon_pending_cancel_all b) ! i \<noteq> Waiting"
proof -
  let ?b = "abandon_pending_cancel_all b"
  note all = abandon_all_waiters[OF assms(1,2), of "map fst (sb_pending b)"]
  have "map_of (sb_pending ?b) = Map.empty"
    using all by (auto simp: abandon_pending_cancel_all_def restrict_map_def fun_eq_iff map_of_eq_None_iff)
  moreover have "waiters_known ?b" using all by (simp add: abandon_pending_cancel_all_def)
  moreover have "length (sb_futures b) \<le> length (sb_futures ?b)"
    using abandon_all_answers[OF assms(2)] by (simp add: abandon_pending_cancel_all_def answers_stay_def)
  ultimately show ?thesis using assms(3) by (auto simp: waiters_known_def)
qed

lemma step_waiters:
  assumes "waiters_known b" and "pending_ok b" and "\<And>key. a = OpRegister key \<Longrightarrow> dict_get (sb_pending b) key = None"
  shows "waiters_known (bus_step a b)"
proof (cases a)
  case (OpRegister key)
  have "\<exists>k. dict_get (dict_set key (length (sb_futures b)) (sb_pending b)) k = Some i"
    if i: "i < Suc (length (sb_futures b))" "(sb_futures b @ [Waiting]) ! i = Waiting" for i
  proof (cases "i = length (sb_futures b)")
    case False
    then have "i < length (sb_futures b)" "sb_futures b ! i = Waiting" using i by (auto simp: nth_append)
    then obtain k where "dict_get (sb_pending b) k = Some i" using assms(1) unfolding waiters_known_def by blast
    then show ?thesis using assms(3)[OF OpRegister] by (intro exI[of _ k]) auto
  qed auto
  then show ?thesis by (simp add: OpRegister register_pending_def Let_def waiters_known_def)
next
  case (OpResolve key p)
  then show ?thesis using assms(1) waiters_ended[OF assms(1), of key _ "Answered p"]
    by (auto simp: resolve_pending_def split: option.splits)
next
  case (OpTimeout key)
  then show ?thesis using abandon_waiters[OF assms(1,2)] by simp
next
  case OpCancelAll
  then show ?thesis using abandon_all_waiters[OF assms(1,2)] by (simp add: abandon_pending_cancel_all_def)
next
  case (OpWaiterCancelled i)
  then show ?thesis using assms(1) by (auto simp: settle_future_def waiters_known_def nth_list_update)
qed (use assms(1) in \<open>auto simp: publish_data_def publish_comment_def subscribe_def unsubscribe_def request_cancel_def
      waiters_known_def Let_def\<close>)

lemma run_waiters:
  "fresh_keys ops b \<Longrightarrow> waiters_known b \<Longrightarrow> pending_ok b \<Longrightarrow> waiters_known (fold bus_step ops b)"
proof (induction ops arbitrary: b)
  case (Cons a ops)
  then show ?case using step_waiters[of b a] step_answers[of b a] by (auto split: bus_op.splits)
qed simp

text \<open>
  Nobody is left waiting. After any history of a session in which no question is asked under a key that is still pending, removing
  the session settles the future of every question ever asked, forgets the queued input, takes the session
  out of the registry and leaves every other session alone.
\<close>
theorem session_removed_cleanly:
  assumes "bus_run ops (new_bus pm nm a) = (log, b)" and "fresh_keys ops (new_bus pm nm a)"
    and "dict_get reg sid = Some b" and "registry_detach sid reg = (Some b1, reg1)"
  shows "(\<forall>i < length (sb_futures b). sb_futures b1 ! i \<noteq> Waiting)
    \<and> sb_admission b1 = clear_all (sb_admission b) \<and> dict_get reg1 = (dict_get reg)(sid := None)"
proof -
  have new: "pending_ok (new_bus pm nm a)" "waiters_known (new_bus pm nm a)" by (simp_all add: pending_ok_def waiters_known_def new_bus_def)
  have b: "fold bus_step ops (new_bus pm nm a) = b" using assms(1) bus_run_fold by (metis snd_conv)
  have ok: "pending_ok b" using answers.run_inv[OF new(1), of ops] b by simp
  have known: "waiters_known b" using run_waiters[OF assms(2) new(2,1)] b by simp
  have adm: "sb_admission (fold abandon_pending_timeout keys x) = sb_admission x" for keys x
    by (induction keys arbitrary: x)
      (simp_all add: abandon_pending_timeout_def end_pending_def settle_future_def split: option.splits)
  have b1: "sb_futures b1 = sb_futures (abandon_pending_cancel_all b)" "sb_admission b1 = clear_all (sb_admission b)"
    "reg1 = dict_pop sid reg"
    using assms(3,4) adm by (auto simp: registry_detach_def Let_def cancel_follow_up_retry_def abandon_pending_cancel_all_def)
  show ?thesis using cancel_all_settles[OF known ok] by (simp add: b1 fun_upd_def)
qed

theorem session_removed_cleanly_witness:
  "\<exists>b b1 reg1. bus_run [OpRegister ''k'', OpRegister ''m'', OpTimeout ''k''] (new_bus 2 1 no_admission) = ([], b)
    \<and> registry_detach ''s'' [(''s'', b)] = (Some b1, reg1) \<and> length (sb_futures b) = 2
    \<and> sb_futures b1 ! 0 \<noteq> Waiting \<and> sb_futures b1 ! 1 \<noteq> Waiting"
proof -
  let ?ops = "[OpRegister ''k'', OpRegister ''m'', OpTimeout ''k'']"
  obtain b where run: "bus_run ?ops (new_bus 2 1 no_admission) = ([], b)" by (simp add: case_prod_beta)
  have fresh: "fresh_keys ?ops (new_bus 2 1 no_admission)" by (simp add: new_bus_def register_pending_def Let_def)
  have len: "length (sb_futures b) = 2"
    using run by (auto simp: new_bus_def register_pending_def Let_def abandon_pending_timeout_def end_pending_def settle_future_def)
  obtain b1 reg1 where det: "registry_detach ''s'' [(''s'', b)] = (Some b1, reg1)" by (simp add: registry_detach_def Let_def)
  from session_removed_cleanly[OF run fresh _ det] len have "sb_futures b1 ! 0 \<noteq> Waiting" "sb_futures b1 ! 1 \<noteq> Waiting" by auto
  then show ?thesis using run det len by blast
qed

end
