(* ===== verification/Tool_Batch.thy ===== *)
theory Tool_Batch
  imports Content_Blocks
begin

text \<open>
  The tool vocabulary (\<open>ToolDef\<close>, \<open>ToolCall\<close>, \<open>ToolExecutionResult\<close>) and
  \<open>core/runtime/tool_batch.py\<close>: whether a batch of tool calls may run at all, how it is cut into
  chunks that run concurrently, and which registries it changed. The waiting on futures of
  \<open>_await_user_response_any\<close> is not modelled.
\<close>

section \<open>Tools, calls and results\<close>

record tool_def =
  tdef_name :: string
  tdef_description :: string
  tdef_input_schema :: jdict
  tdef_parallel_safe :: bool
  tdef_doom_loop_exempt :: bool
  tdef_read_only :: bool

definition to_model_schema :: "tool_def \<Rightarrow> jdict" where
  "to_model_schema t =
     [(''name'', JStr (tdef_name t)), (''description'', JStr (tdef_description t)),
      (''input_schema'', JObj (tdef_input_schema t))]"

record tool_call =
  call_id :: string
  call_name :: string
  call_args :: jdict
  call_parse_error :: "string option"
  call_metadata :: "jdict option"

record file_change =
  chg_change_id :: string
  chg_request_id :: string
  chg_call_id :: string
  chg_path :: string
  chg_action :: string
  chg_before_sha :: "string option"
  chg_after_sha :: "string option"
  chg_additions :: int
  chg_deletions :: int
  chg_is_text :: bool
  chg_too_large :: bool
  chg_ts :: string
  chg_from_path :: "string option"

record tool_execution_result =
  res_blocks :: "content_block list"
  res_error :: "string option"
  res_file_changes :: "file_change list"

definition ok_text :: "string \<Rightarrow> tool_execution_result" where
  "ok_text t = \<lparr>res_blocks = [Text t], res_error = None, res_file_changes = []\<rparr>"

definition ok_blocks :: "content_block list \<Rightarrow> tool_execution_result" where
  "ok_blocks bs = \<lparr>res_blocks = bs, res_error = None, res_file_changes = []\<rparr>"

definition err_result :: "string \<Rightarrow> tool_execution_result" where
  "err_result m = \<lparr>res_blocks = [Text m], res_error = Some m, res_file_changes = []\<rparr>"

definition unwrap_tool_execution_result ::
    "tool_execution_result \<Rightarrow> string option \<times> string option" where
  "unwrap_tool_execution_result r =
     (case res_error r of
        Some e \<Rightarrow> (None, Some e)
      | None \<Rightarrow> (Some (concat (List.map_filter (\<lambda>b. case b of Text t \<Rightarrow> Some t | _ \<Rightarrow> None)
                   (res_blocks r))), None))"

section \<open>Rejecting a batch\<close>

definition max_concurrent_subagents :: int where
  "max_concurrent_subagents = 10"

definition max_concurrent_parallel_tools :: int where
  "max_concurrent_parallel_tools = 10"

definition str_truthy :: "string option \<Rightarrow> bool" where
  "str_truthy s \<longleftrightarrow> (case s of None \<Rightarrow> False | Some t \<Rightarrow> t \<noteq> [])"

definition should_reject_tool_batch :: "tool_call list \<Rightarrow> bool \<Rightarrow> bool" where
  "should_reject_tool_batch calls truncated =
     (if calls = [] then False
      else if truncated then True
      else list_all (\<lambda>c. str_truthy (call_parse_error c)) calls)"

definition rejected_tool_batch_error :: "tool_call \<Rightarrow> bool \<Rightarrow> string" where
  "rejected_tool_batch_error call truncated =
     (let quoted = [char_of (34 :: nat)] @ call_name call @ [char_of (34 :: nat)]
      in if truncated then
           ''Tool call '' @ quoted @ '' was not executed: the response hit the ''
           @ ''output token limit, so its arguments may be truncated. Re-issue ''
           @ ''the tool call with complete arguments.''
         else if str_truthy (call_parse_error call) then the (call_parse_error call)
         else ''Tool call '' @ quoted @ '' was not executed: incomplete tool arguments ''
              @ ''in this batch. Re-issue with complete arguments.'')"

section \<open>Registry changes\<close>

definition mcp_registry_mutating_tools :: "string list" where
  "mcp_registry_mutating_tools = [''enable_mcp'', ''disable_mcp'']"

definition loops_registry_mutating_tools :: "string list" where
  "loops_registry_mutating_tools = [''enable_loops'', ''disable_loops'']"

definition note_registry_mutation ::
    "tool_call \<Rightarrow> tool_execution_result \<Rightarrow> bool \<times> bool \<Rightarrow> bool \<times> bool" where
  "note_registry_mutation call res flags =
     (case flags of (mcp, loops) \<Rightarrow>
        if res_error res \<noteq> None then (mcp, loops)
        else (mcp \<or> call_name call \<in> set mcp_registry_mutating_tools,
              loops \<or> call_name call \<in> set loops_registry_mutating_tools))"

section \<open>Chunks that run together\<close>

definition parallel_tool_concurrency :: "string option \<Rightarrow> int" where
  "parallel_tool_concurrency raw =
     (case raw of
        None \<Rightarrow> max_concurrent_parallel_tools
      | Some s \<Rightarrow>
          if py_strip s = [] then max_concurrent_parallel_tools
          else (case py_int s of
              Some i \<Rightarrow> max 1 i | None \<Rightarrow> max_concurrent_parallel_tools))"

definition parallel_safe_names :: "tool_def list \<Rightarrow> string set" where
  "parallel_safe_names tools = set (map tdef_name (filter tdef_parallel_safe tools))"

definition doom_loop_exempt_names :: "tool_def list \<Rightarrow> string set" where
  "doom_loop_exempt_names tools = set (map tdef_name (filter tdef_doom_loop_exempt tools))"

definition runs_as_task :: "tool_call \<Rightarrow> bool" where
  "runs_as_task c \<longleftrightarrow> call_name c = ''task''"

definition runs_parallel :: "string set \<Rightarrow> tool_call \<Rightarrow> bool" where
  "runs_parallel safe c \<longleftrightarrow> call_name c \<in> safe \<and> call_name c \<noteq> ''task''"

function chunk_tool_calls :: "string set \<Rightarrow> tool_call list \<Rightarrow> tool_call list list" where
  "chunk_tool_calls safe [] = []"
| "chunk_tool_calls safe (c # cs) =
     (if runs_as_task c then
        (c # takeWhile runs_as_task cs) # chunk_tool_calls safe (dropWhile runs_as_task cs)
      else if call_name c \<in> safe then
        (c # takeWhile (runs_parallel safe) cs)
          # chunk_tool_calls safe (dropWhile (runs_parallel safe) cs)
      else [c] # chunk_tool_calls safe cs)"
  by pat_completeness auto
termination
  by (relation "measure (length \<circ> snd)") (auto simp: le_imp_less_Suc length_dropWhile_le)

section \<open>What the chunks guarantee\<close>

text \<open>
  The three kinds a call can have, and the specification of a chunking: chunks are uniform, a
  serial call is alone, and no two neighbours could have run together.
\<close>

definition may_join :: "string set \<Rightarrow> tool_call \<Rightarrow> tool_call \<Rightarrow> bool" where
  "may_join safe c d \<longleftrightarrow>
     (runs_as_task c \<and> runs_as_task d) \<or> (runs_parallel safe c \<and> runs_parallel safe d)"

definition chunk_ok :: "string set \<Rightarrow> tool_call list \<Rightarrow> bool" where
  "chunk_ok safe ch \<longleftrightarrow> ch \<noteq> [] \<and> successively (may_join safe) ch"

definition chunking_ok :: "string set \<Rightarrow> tool_call list list \<Rightarrow> bool" where
  "chunking_ok safe chs \<longleftrightarrow>
     list_all (chunk_ok safe) chs
     \<and> successively (\<lambda>a b. \<not> may_join safe (last a) (hd b)) chs"

lemma successively_all:
  "list_all P xs \<Longrightarrow> (\<And>x y. P x \<Longrightarrow> P y \<Longrightarrow> R x y) \<Longrightarrow> successively R xs"
  by (induction R xs rule: successively.induct) auto

lemma chunk_tool_calls_concat: "concat (chunk_tool_calls safe cs) = cs"
  by (induction safe cs rule: chunk_tool_calls.induct) auto

lemma last_takeWhile_P: "P c \<Longrightarrow> P (last (c # takeWhile P cs))"
  using set_takeWhileD[of "last (takeWhile P cs)" P cs] by (cases "takeWhile P cs = []") auto

lemma hd_chunks: "cs \<noteq> [] \<Longrightarrow> chunk_tool_calls safe cs \<noteq> [] \<and> hd (hd (chunk_tool_calls safe cs)) = hd cs"
  by (cases cs) auto

lemma chunking_ok_Cons:
  assumes "chunking_ok safe (chunk_tool_calls safe ds)" and "chunk_ok safe ch"
    and "ds \<noteq> [] \<Longrightarrow> \<not> may_join safe (last ch) (hd ds)"
  shows "chunking_ok safe (ch # chunk_tool_calls safe ds)"
proof (cases "ds = []")
  case False
  then obtain e es where "chunk_tool_calls safe ds = e # es" "hd e = hd ds"
    using hd_chunks[of ds safe] by (cases "chunk_tool_calls safe ds") auto
  then show ?thesis using assms False by (simp add: chunking_ok_def)
qed (use assms(2) in \<open>simp add: chunking_ok_def\<close>)

lemma chunk_run:
  assumes "P c" and "\<And>x y. P x \<Longrightarrow> P y \<Longrightarrow> may_join safe x y"
    and "\<And>x y. P x \<Longrightarrow> may_join safe x y \<Longrightarrow> P y"
    and "chunking_ok safe (chunk_tool_calls safe (dropWhile P cs))"
  shows "chunking_ok safe ((c # takeWhile P cs) # chunk_tool_calls safe (dropWhile P cs))"
proof (rule chunking_ok_Cons[OF assms(4)])
  have "list_all P (c # takeWhile P cs)"
    using assms(1) by (auto simp: list.pred_set dest: set_takeWhileD)
  then show "chunk_ok safe (c # takeWhile P cs)"
    unfolding chunk_ok_def using assms(2) by (blast intro: successively_all)
  assume "dropWhile P cs \<noteq> []"
  then have "\<not> P (hd (dropWhile P cs))" by (rule hd_dropWhile)
  then show "\<not> may_join safe (last (c # takeWhile P cs)) (hd (dropWhile P cs))"
    using assms(3) last_takeWhile_P[of P c cs, OF assms(1)] by blast
qed

lemma chunk_tool_calls_ok: "chunking_ok safe (chunk_tool_calls safe cs)"
proof (induction safe cs rule: chunk_tool_calls.induct)
  case (1 safe)
  then show ?case by (simp add: chunking_ok_def)
next
  case (2 safe c cs)
  consider "runs_as_task c" | "\<not> runs_as_task c" "call_name c \<in> safe"
    | "\<not> runs_as_task c" "call_name c \<notin> safe" by blast
  then show ?case
  proof cases
    case 1
    then show ?thesis using 2(1)
      by (simp, intro chunk_run) (auto simp: may_join_def runs_parallel_def runs_as_task_def)
  next
    case 22: 2
    then have "runs_parallel safe c" by (simp add: runs_parallel_def runs_as_task_def)
    then show ?thesis using 22 2(2)
      by (simp, intro chunk_run) (auto simp: may_join_def runs_parallel_def runs_as_task_def)
  next
    case 3
    then have "chunking_ok safe ([c] # chunk_tool_calls safe cs)"
      using 2(3) by (intro chunking_ok_Cons)
        (auto simp: chunk_ok_def may_join_def runs_parallel_def runs_as_task_def)
    then show ?thesis using 3 by simp
  qed
qed

text \<open>A chunking of a sequence is determined by the specification.\<close>

lemma chunk_not_longer:
  assumes "chunking_ok safe (x # xs)" and "chunk_ok safe y" and "x @ concat xs = y @ zs"
  shows "length y \<le> length x"
proof (rule ccontr)
  assume "\<not> length y \<le> length x"
  then obtain z where y: "y = x @ z" "z \<noteq> []" "concat xs = z @ zs"
    using assms(3) by (auto simp: append_eq_append_conv2)
  then obtain e es where xs: "xs = e # es" by (cases xs) auto
  have ne: "x \<noteq> []" "e \<noteq> []" using assms(1) xs by (auto simp: chunking_ok_def chunk_ok_def)
  then have "hd e = hd z" using y(2,3) xs by (metis concat.simps(2) hd_append2)
  moreover have "may_join safe (last x) (hd z)"
    using assms(2) y(1,2) ne(1) by (simp add: chunk_ok_def successively_append_iff)
  ultimately show False using assms(1) xs by (simp add: chunking_ok_def)
qed

lemma chunking_unique:
  assumes "chunking_ok safe xs" and "chunking_ok safe ys" and "concat xs = concat ys"
  shows "xs = ys"
  using assms
proof (induction xs arbitrary: ys)
  case Nil
  then show ?case by (cases ys) (auto simp: chunking_ok_def chunk_ok_def)
next
  case (Cons x xs)
  then obtain y ys' where ys: "ys = y # ys'"
    by (cases ys) (auto simp: chunking_ok_def chunk_ok_def)
  have "length y \<le> length x" "length x \<le> length y"
    using Cons.prems ys chunk_not_longer[of safe x xs y "concat ys'"]
      chunk_not_longer[of safe y ys' x "concat xs"] by (auto simp: chunking_ok_def)
  then have "x = y" "concat xs = concat ys'" using Cons.prems(3) ys by auto
  moreover have "chunking_ok safe xs" "chunking_ok safe ys'"
    using Cons.prems ys by (cases xs; cases ys'; auto simp: chunking_ok_def)+
  ultimately show ?case using Cons.IH ys by blast
qed

text \<open>
  The chunks of a tool batch keep every call in order; each chunk is a run of calls that may run
  together (tasks with tasks, parallel-safe tools with parallel-safe tools, everything else alone);
  and the chunking is the only one with maximal runs.
\<close>
theorem chunk_tool_calls_spec:
  "concat (chunk_tool_calls safe cs) = cs \<and> chunking_ok safe (chunk_tool_calls safe cs)
    \<and> (chs = chunk_tool_calls safe cs \<longleftrightarrow> chunking_ok safe chs \<and> concat chs = cs)"
  using chunking_unique chunk_tool_calls_ok chunk_tool_calls_concat by metis

end
