(* ===== verification/Doom_Loop.thy ===== *)
theory Doom_Loop
  imports Tool_Batch
begin

text \<open>
  \<open>core/runtime/doom_loop.py\<close>: the guard against an agent that repeats one tool call. The tracker
  counts identical calls and failures on one file; at the threshold it forces a turn without tools.
  The property group relates the counters to the sequence of calls seen since the last recovery:
  the guard fires exactly when the sequence holds a run of the threshold's length. Log lines are
  not modelled; the environment variable is an argument.
\<close>

section \<open>Threshold, fingerprints and texts\<close>

definition effective_doom_loop_threshold :: "string option \<Rightarrow> int" where
  "effective_doom_loop_threshold raw =
     (case raw of
        None \<Rightarrow> 3
      | Some s \<Rightarrow>
          if py_strip s = [] then 3
          else (case py_int s of Some i \<Rightarrow> max 0 i | None \<Rightarrow> 3))"

definition tool_call_fingerprint :: "string \<Rightarrow> jdict \<Rightarrow> string" where
  "tool_call_fingerprint name args = name @ '':'' @ json_dumps (JObj args)"

definition doom_loop_texts :: "string \<Rightarrow> int \<Rightarrow> string \<times> string" where
  "doom_loop_texts tool_name threshold =
     (let error = ''Doom loop detected: tool '' @ py_repr tool_name @ '' called identically ''
                  @ str_of_int threshold @ '' times'';
          note = ''[Harness] '' @ error @ ''. Do not repeat the same call. Explain the situation ''
                 @ ''to the user and take a different approach (different tool or args).''
      in (error, note))"

definition path_doom_loop_texts :: "string \<Rightarrow> string \<Rightarrow> int \<Rightarrow> string \<times> string" where
  "path_doom_loop_texts tool_name path n =
     (let error = ''Doom loop detected: tool '' @ py_repr tool_name @ '' failed ''
                  @ str_of_int n @ '' times in a row on '' @ py_repr path;
          note = ''[Harness] '' @ error
                 @ ''. Guessing another variation of the same call is not working. ''
                 @ ''Re-read the file to see its current content, then make one corrected change, or ''
                 @ ''explain to the user what is blocking you.''
      in (error, note))"

section \<open>Which file a call targets\<close>

definition path_arg_keys :: "string list" where
  "path_arg_keys = [''path'', ''file_path'', ''file'']"

definition push_path_part :: "string list \<Rightarrow> string \<Rightarrow> string list" where
  \<comment> \<open>one iteration of the loop over \<open>s.split("/")\<close>\<close>
  "push_path_part stack part =
     (if part = [] \<or> part = ''.'' then stack
      else if part = ''..'' \<and> stack \<noteq> [] \<and> last stack \<noteq> ''..'' \<and> last stack \<noteq> ''~''
      then butlast stack
      else stack @ [part])"

definition slashed :: "string \<Rightarrow> string" where
  \<comment> \<open>\<open>raw.replace("\\", "/")\<close>\<close>
  "slashed s = map (\<lambda>c. if c = backslash then CHR ''/'' else c) s"

definition canonical_tool_path :: "string \<Rightarrow> string" where
  "canonical_tool_path v =
     (let raw = py_strip v
      in if raw = [] then []
         else let s0 = slashed raw;
                  has_drive = (2 \<le> length s0 \<and> py_isalpha (s0 ! 0) \<and> s0 ! 1 = CHR '':'');
                  drive = (if has_drive then take 2 s0 else []);
                  s = (if has_drive then drop 2 s0 else s0);
                  absolute = (drive \<noteq> [] \<or> startswith raw ''/'' \<or> startswith raw ''~'');
                  leading_slash = startswith s ''/'';
                  stack = foldl push_path_part [] (split_on (CHR ''/'') s);
                  body = join_on ''/'' stack
              in if drive \<noteq> [] then (if body \<noteq> [] then drive @ ''/'' @ body else drive)
                 else if startswith raw ''~'' then (if body \<noteq> [] then body else ''~'')
                 else if absolute \<and> leading_slash then (if body \<noteq> [] then ''/'' @ body else ''/'')
                 else body)"

definition patch_header_path :: "string \<Rightarrow> string option" where
  \<comment> \<open>group 1 of \<open>_PATCH_FILE_HEADER\<close> on one line: the shortest non-empty text without a carriage
     return that only white space follows\<close>
  "patch_header_path line =
     (case List.find (startswith line)
         [''*** Add File: '', ''*** Delete File: '', ''*** Update File: ''] of
        None \<Rightarrow> None
      | Some h \<Rightarrow>
          (case drop (length h) line of
             [] \<Rightarrow> None
           | c # cs \<Rightarrow>
               let p = c # py_rstrip cs
               in if char_of (13 :: nat) \<in> set p then None else Some p))"

fun single_patch_scan :: "string list \<Rightarrow> string list \<Rightarrow> string option" where
  \<comment> \<open>the loop over the header matches: paths found so far, headers left\<close>
  "single_patch_scan found [] = (case found of [] \<Rightarrow> None | p # ps \<Rightarrow> Some p)"
| "single_patch_scan found (h # hs) =
     (let path = canonical_tool_path h;
          found' = (if path \<noteq> [] \<and> path \<notin> set found then found @ [path] else found)
      in if 1 < length found' then None else single_patch_scan found' hs)"

definition single_patch_path :: "string \<Rightarrow> string option" where
  "single_patch_path patch_text =
     single_patch_scan [] (List.map_filter patch_header_path (split_on nl patch_text))"

fun path_arg_scan :: "jdict \<Rightarrow> string list \<Rightarrow> bool \<Rightarrow> bool \<times> string option" where
  \<comment> \<open>the loop over \<open>_PATH_ARG_KEYS\<close>: whether a path argument was seen, and the path to return\<close>
  "path_arg_scan args [] saw = (saw, None)"
| "path_arg_scan args (key # keys) saw =
     (case dict_get args key of
        Some (JStr v) \<Rightarrow>
          if py_strip v \<noteq> [] then
            (let path = canonical_tool_path v
             in if path \<noteq> [] then (True, Some path) else path_arg_scan args keys True)
          else path_arg_scan args keys saw
      | _ \<Rightarrow> path_arg_scan args keys saw)"

definition failing_path_key :: "string \<Rightarrow> jdict \<Rightarrow> (string \<times> string) option" where
  "failing_path_key name args =
     (case path_arg_scan args path_arg_keys False of
        (saw, Some path) \<Rightarrow> Some (name, path)
      | (True, None) \<Rightarrow> None
      | (False, None) \<Rightarrow>
          (case dict_get args ''patch_text'' of
             Some (JStr patch_text) \<Rightarrow>
               (case single_patch_path patch_text of
                  Some p \<Rightarrow> if p \<noteq> [] then Some (name, p) else None
                | None \<Rightarrow> None)
           | _ \<Rightarrow> None))"

section \<open>The tracker\<close>

record doom_tracker =
  threshold :: int
  exempt_names :: "string set"
  streak_fp :: "string option"
  streak_count :: int
  triggered :: bool
  force_no_tools :: bool
  recovery_note :: "string option"
  triggered_tool :: "string option"
  path_streak_key :: "(string \<times> string) option"
  path_streak_count :: int
  pending_error :: "string option"

definition new_tracker :: "int \<Rightarrow> string set \<Rightarrow> doom_tracker" where
  "new_tracker n exempt =
     \<lparr>threshold = n, exempt_names = exempt, streak_fp = None, streak_count = 0, triggered = False,
      force_no_tools = False, recovery_note = None, triggered_tool = None, path_streak_key = None,
      path_streak_count = 0, pending_error = None\<rparr>"

definition doom_trip :: "string \<Rightarrow> string \<times> string \<Rightarrow> doom_tracker \<Rightarrow> doom_tracker" where
  \<comment> \<open>the tail of \<open>record\<close> once a detector fired\<close>
  "doom_trip name texts t =
     t\<lparr>triggered := True, triggered_tool := Some name, pending_error := Some (fst texts),
       force_no_tools := True, recovery_note := Some (snd texts)\<rparr>"

definition doom_count :: "string \<Rightarrow> jdict \<Rightarrow> bool \<Rightarrow> doom_tracker \<Rightarrow> doom_tracker" where
  \<comment> \<open>the counter updates of \<open>record\<close>\<close>
  "doom_count name args failed t =
     (let fp = tool_call_fingerprint name args;
          t1 = (if Some fp = streak_fp t then t\<lparr>streak_count := streak_count t + 1\<rparr>
                else t\<lparr>streak_fp := Some fp, streak_count := 1\<rparr>);
          path_key = (if failed then failing_path_key name args else None)
      in if path_key \<noteq> None \<and> path_key = path_streak_key t1
         then t1\<lparr>path_streak_count := path_streak_count t1 + 1\<rparr>
         else t1\<lparr>path_streak_key := path_key,
                 path_streak_count := (if path_key \<noteq> None then 1 else 0)\<rparr>)"

definition doom_record :: "string \<Rightarrow> jdict \<Rightarrow> bool \<Rightarrow> doom_tracker \<Rightarrow> doom_tracker" where
  "doom_record name args failed t =
     (if threshold t \<le> 0 \<or> triggered t \<or> name \<in> exempt_names t then t
      else let t' = doom_count name args failed t;
               path_key = (if failed then failing_path_key name args else None)
           in if streak_count t' \<ge> threshold t'
              then doom_trip name (doom_loop_texts name (threshold t')) t'
              else (case path_key of
                  Some key \<Rightarrow>
                    if path_streak_count t' \<ge> threshold t'
                    then doom_trip name
                      (path_doom_loop_texts name (snd key) (path_streak_count t')) t'
                    else t'
                | None \<Rightarrow> t'))"

definition take_error :: "doom_tracker \<Rightarrow> string option \<times> doom_tracker" where
  "take_error t = (pending_error t, t\<lparr>pending_error := None\<rparr>)"

definition consume_recovery :: "doom_tracker \<Rightarrow> (bool \<times> string option) \<times> doom_tracker" where
  "consume_recovery t =
     (let force = force_no_tools t;
          note = recovery_note t;
          t1 = t\<lparr>force_no_tools := False, recovery_note := None\<rparr>
      in ((force, note),
          if force then t1\<lparr>triggered := False, streak_fp := None, streak_count := 0,
                           path_streak_key := None, path_streak_count := 0,
                           triggered_tool := None\<rparr>
          else t1))"

section \<open>The counters against the calls seen\<close>

text \<open>
  A call as the tracker sees it, and the length of the run of equal keys a list ends with.
\<close>

type_synonym seen_call = "string \<times> jdict \<times> bool"

definition record_call :: "seen_call \<Rightarrow> doom_tracker \<Rightarrow> doom_tracker" where
  "record_call c t = (case c of (name, args, failed) \<Rightarrow> doom_record name args failed t)"

definition call_fp :: "seen_call \<Rightarrow> string" where
  "call_fp c = (case c of (name, args, failed) \<Rightarrow> tool_call_fingerprint name args)"

definition call_path :: "seen_call \<Rightarrow> (string \<times> string) option" where
  "call_path c = (case c of (name, args, failed) \<Rightarrow> if failed then failing_path_key name args else None)"

definition tail_run :: "('a \<Rightarrow> 'k) \<Rightarrow> 'a list \<Rightarrow> nat" where
  "tail_run key xs = (if xs = [] then 0 else length (takeWhile (\<lambda>x. key x = key (last xs)) (rev xs)))"

definition doom_now :: "int \<Rightarrow> seen_call list \<Rightarrow> bool" where
  \<comment> \<open>the list ends with \<open>n\<close> identical calls, or with \<open>n\<close> failures of one tool on one file\<close>
  "doom_now n xs \<longleftrightarrow> xs \<noteq> [] \<and>
     (n \<le> int (tail_run call_fp xs) \<or> (call_path (last xs) \<noteq> None \<and> n \<le> int (tail_run call_path xs)))"

definition visible_calls :: "string set \<Rightarrow> seen_call list \<Rightarrow> seen_call list" where
  "visible_calls exempt = filter (\<lambda>(name, args, failed). name \<notin> exempt)"

definition tracks :: "doom_tracker \<Rightarrow> seen_call list \<Rightarrow> bool" where
  "tracks t xs \<longleftrightarrow>
     \<not> triggered t
     \<and> streak_fp t = (if xs = [] then None else Some (call_fp (last xs)))
     \<and> streak_count t = int (tail_run call_fp xs)
     \<and> path_streak_key t = (if xs = [] then None else call_path (last xs))
     \<and> path_streak_count t =
         (if xs \<noteq> [] \<and> call_path (last xs) \<noteq> None then int (tail_run call_path xs) else 0)"

lemma tail_run_snoc:
  "tail_run key (xs @ [x]) = (if xs \<noteq> [] \<and> key (last xs) = key x then Suc (tail_run key xs) else 1)"
  by (cases xs rule: rev_cases) (auto simp: tail_run_def)

lemma tail_run_single [simp]: "tail_run key [] = 0" "tail_run key [x] = 1"
  by (simp_all add: tail_run_def)

lemma doom_count_tracks:
  assumes "tracks t xs"
  shows "tracks (doom_count name args failed t) (xs @ [(name, args, failed)])"
  using assms
  by (cases "xs = []")
    (auto simp: tracks_def doom_count_def Let_def tail_run_snoc call_fp_def call_path_def split: if_splits)

lemma doom_count_keeps [simp]:
  "threshold (doom_count name args failed t) = threshold t"
  "exempt_names (doom_count name args failed t) = exempt_names t"
  "triggered (doom_count name args failed t) = triggered t"
  by (auto simp: doom_count_def Let_def)

lemma record_call_keeps [simp]:
  "threshold (record_call c t) = threshold t" "exempt_names (record_call c t) = exempt_names t"
  by (auto simp: record_call_def doom_record_def doom_trip_def Let_def split: prod.splits option.splits)

lemma record_call_hidden: "fst c \<in> exempt_names t \<Longrightarrow> record_call c t = t"
  by (auto simp: record_call_def doom_record_def split: prod.splits)

lemma record_call_triggered: "triggered t \<Longrightarrow> record_call c t = t"
  by (auto simp: record_call_def doom_record_def split: prod.splits)

lemma record_call_eq:
  assumes "0 < threshold t" and "\<not> triggered t" and "name \<notin> exempt_names t"
    and "t' = doom_count name args failed t"
  shows "record_call (name, args, failed) t =
    (if threshold t \<le> streak_count t'
        \<or> (call_path (name, args, failed) \<noteq> None \<and> threshold t \<le> path_streak_count t')
     then doom_trip name
       (if threshold t \<le> streak_count t' then doom_loop_texts name (threshold t)
        else path_doom_loop_texts name (snd (the (call_path (name, args, failed)))) (path_streak_count t')) t'
     else t')"
  using assms(1-3) unfolding record_call_def doom_record_def call_path_def prod.case assms(4)[symmetric]
  by (cases "if failed then failing_path_key name args else None") (simp_all add: assms(4) Let_def)

lemma record_call_visible:
  assumes "tracks t xs" and "0 < threshold t" and "fst c \<notin> exempt_names t"
  shows "if doom_now (threshold t) (xs @ [c]) then triggered (record_call c t)
    else tracks (record_call c t) (xs @ [c])"
proof -
  obtain name args failed where c: "c = (name, args, failed)" by (cases c)
  define t' where "t' = doom_count name args failed t"
  have tr: "tracks t' (xs @ [c])" unfolding c t'_def by (rule doom_count_tracks[OF assms(1)])
  have fires: "threshold t \<le> streak_count t' \<or> (call_path c \<noteq> None \<and> threshold t \<le> path_streak_count t')
      \<longleftrightarrow> doom_now (threshold t) (xs @ [c])"
    using tr by (auto simp: tracks_def doom_now_def)
  have "record_call c t = (if doom_now (threshold t) (xs @ [c]) then doom_trip name
       (if threshold t \<le> streak_count t' then doom_loop_texts name (threshold t)
        else path_doom_loop_texts name (snd (the (call_path c))) (path_streak_count t')) t' else t')"
    unfolding fires[symmetric] unfolding c using assms
    by (intro record_call_eq[OF _ _ _ t'_def]) (auto simp: c tracks_def)
  then show ?thesis using tr by (simp add: doom_trip_def)
qed

lemma fold_record_triggered: "triggered t \<Longrightarrow> fold record_call cs t = t"
  by (induction cs) (simp_all add: record_call_triggered)

lemma doom_trigger_from:
  assumes "tracks t xs" and "0 < threshold t" and "exempt_names t = ex"
    and "\<And>n. n \<le> length xs \<Longrightarrow> \<not> doom_now (threshold t) (take n xs)"
  shows "triggered (fold record_call cs t) \<longleftrightarrow>
    (\<exists>n. doom_now (threshold t) (take n (xs @ visible_calls ex cs)))"
  using assms
proof (induction cs arbitrary: t xs)
  case Nil
  then have "\<not> doom_now (threshold t) (take n xs)" for n
    using Nil.prems(4)[of n] Nil.prems(4)[of "length xs"] by (cases "n \<le> length xs") simp_all
  then show ?case using Nil.prems(1) by (simp add: tracks_def visible_calls_def)
next
  case (Cons c cs)
  show ?case
  proof (cases "fst c \<in> ex")
    case True
    then have "visible_calls ex (c # cs) = visible_calls ex cs"
      by (auto simp: visible_calls_def split: prod.splits)
    then show ?thesis using Cons True by (simp add: record_call_hidden)
  next
    case False
    then have vis: "xs @ visible_calls ex (c # cs) = (xs @ [c]) @ visible_calls ex cs"
      by (auto simp: visible_calls_def split: prod.splits)
    note step = record_call_visible[OF Cons.prems(1,2), of c]
    show ?thesis
    proof (cases "doom_now (threshold t) (xs @ [c])")
      case True
      then have "triggered (fold record_call (c # cs) t)"
        using step Cons.prems(3) False by (simp add: fold_record_triggered)
      moreover have "doom_now (threshold t) (take (Suc (length xs)) ((xs @ [c]) @ visible_calls ex cs))"
        using True by simp
      ultimately show ?thesis unfolding vis by blast
    next
      case no: False
      have "\<not> doom_now (threshold t) (take n (xs @ [c]))" if "n \<le> length (xs @ [c])" for n
        using that no Cons.prems(4) by (cases "n \<le> length xs") (auto simp: not_le)
      then show ?thesis unfolding vis
        using Cons.IH[of "record_call c t" "xs @ [c]"] step no False Cons.prems by simp
    qed
  qed
qed

definition armed :: "doom_tracker \<Rightarrow> bool" where
  \<comment> \<open>no streak in progress\<close>
  "armed t \<longleftrightarrow> \<not> triggered t \<and> streak_fp t = None \<and> streak_count t = 0
     \<and> path_streak_key t = None \<and> path_streak_count t = 0"

lemma armed_tracks: "armed t \<Longrightarrow> tracks t []"
  by (simp add: armed_def tracks_def tail_run_def)

section \<open>The life of a tracker\<close>

datatype doom_op = Record seen_call | TakeError | ConsumeRecovery

definition doom_step :: "doom_op \<Rightarrow> doom_tracker \<Rightarrow> doom_tracker" where
  "doom_step a t = (case a of
       Record c \<Rightarrow> record_call c t
     | TakeError \<Rightarrow> snd (take_error t)
     | ConsumeRecovery \<Rightarrow> snd (consume_recovery t))"

definition doom_inv :: "doom_tracker \<Rightarrow> bool" where
  "doom_inv t \<longleftrightarrow>
     (triggered t \<longleftrightarrow> force_no_tools t)
     \<and> (triggered t \<longleftrightarrow> recovery_note t \<noteq> None)
     \<and> (triggered t \<longleftrightarrow> triggered_tool t \<noteq> None)
     \<and> (triggered t \<longrightarrow> 0 < threshold t)
     \<and> 0 \<le> streak_count t \<and> (streak_fp t = None \<longleftrightarrow> streak_count t = 0)
     \<and> 0 \<le> path_streak_count t \<and> (path_streak_key t = None \<longleftrightarrow> path_streak_count t = 0)
     \<and> (\<not> triggered t \<and> 0 < threshold t \<longrightarrow>
          streak_count t < threshold t \<and> path_streak_count t < threshold t)
     \<and> (threshold t \<le> 0 \<longrightarrow> streak_count t = 0 \<and> path_streak_count t = 0)"

lemma doom_inv_new [inv_intros]: "doom_inv (new_tracker n ex)"
  by (simp add: doom_inv_def new_tracker_def)

lemma doom_count_pos:
  assumes "0 \<le> streak_count t" and "0 \<le> path_streak_count t"
    and "path_streak_key t = None \<longleftrightarrow> path_streak_count t = 0"
  shows "0 < streak_count (doom_count name args failed t)"
    and "streak_fp (doom_count name args failed t) \<noteq> None"
    and "0 \<le> path_streak_count (doom_count name args failed t)"
    and "path_streak_key (doom_count name args failed t) = None \<longleftrightarrow>
      path_streak_count (doom_count name args failed t) = 0"
    and "path_streak_key (doom_count name args failed t) = call_path (name, args, failed)"
proof -
  let ?k = "call_path (name, args, failed)"
  have eq: "doom_count name args failed t =
      (let t1 = (if Some (tool_call_fingerprint name args) = streak_fp t
          then t\<lparr>streak_count := streak_count t + 1\<rparr>
          else t\<lparr>streak_fp := Some (tool_call_fingerprint name args), streak_count := 1\<rparr>)
       in if ?k \<noteq> None \<and> ?k = path_streak_key t1
         then t1\<lparr>path_streak_count := path_streak_count t1 + 1\<rparr>
         else t1\<lparr>path_streak_key := ?k, path_streak_count := (if ?k \<noteq> None then 1 else 0)\<rparr>)"
    by (simp only: doom_count_def call_path_def Let_def prod.case)
  have "Some f = streak_fp t \<Longrightarrow> streak_fp t \<noteq> None" for f by (metis option.distinct(1))
  then show "streak_fp (doom_count name args failed t) \<noteq> None" by (simp add: eq Let_def)
  show "0 < streak_count (doom_count name args failed t)" using assms by (simp add: eq Let_def)
  show "0 \<le> path_streak_count (doom_count name args failed t)" using assms by (simp add: eq Let_def)
  show "path_streak_key (doom_count name args failed t) = None \<longleftrightarrow>
      path_streak_count (doom_count name args failed t) = 0"
    using assms by (cases ?k) (auto simp: eq Let_def)
  show "path_streak_key (doom_count name args failed t) = ?k" by (simp add: eq Let_def)
qed

lemma doom_count_other [simp]:
  "force_no_tools (doom_count name args failed t) = force_no_tools t"
  "recovery_note (doom_count name args failed t) = recovery_note t"
  "triggered_tool (doom_count name args failed t) = triggered_tool t"
  by (simp_all add: doom_count_def Let_def)

lemma doom_inv_record [inv_intros]:
  assumes "doom_inv t"
  shows "doom_inv (record_call c t)"
proof -
  obtain name args failed where c: "c = (name, args, failed)" by (cases c)
  show ?thesis
  proof (cases "0 < threshold t \<and> \<not> triggered t \<and> name \<notin> exempt_names t")
    case False
    then show ?thesis using assms by (auto simp: c record_call_def doom_record_def)
  next
    case True
    define t' where "t' = doom_count name args failed t"
    note pos = doom_count_pos[of t name args failed, folded t'_def]
    have pos': "0 < streak_count t'" "streak_fp t' \<noteq> None" "0 \<le> path_streak_count t'"
        "path_streak_key t' = None \<longleftrightarrow> path_streak_count t' = 0" "path_streak_key t' = call_path c"
      using pos assms by (simp_all add: doom_inv_def c)
    have t': "threshold t' = threshold t" "\<not> triggered t'" "\<not> force_no_tools t'"
        "recovery_note t' = None" "triggered_tool t' = None"
      using True assms by (simp_all add: t'_def doom_inv_def)
    have "doom_inv (doom_trip name texts t')" for texts
      using pos' t' True by (simp add: doom_inv_def doom_trip_def)
    moreover have "doom_inv t'"
      if "\<not> (threshold t \<le> streak_count t' \<or> (call_path c \<noteq> None \<and> threshold t \<le> path_streak_count t'))"
      using that pos' t' True by (auto simp: doom_inv_def not_le)
    ultimately show ?thesis
      unfolding c record_call_eq[OF True[THEN conjunct1] True[THEN conjunct2, THEN conjunct1]
          True[THEN conjunct2, THEN conjunct2] t'_def]
      by (simp only: c if_split) blast
  qed
qed

lemma doom_inv_take_error [inv_intros]: "doom_inv t \<Longrightarrow> doom_inv (snd (take_error t))"
  by (cases "triggered t") (auto simp: doom_inv_def take_error_def)

lemma doom_inv_consume [inv_intros]: "doom_inv t \<Longrightarrow> doom_inv (snd (consume_recovery t))"
  by (cases "triggered t") (auto simp: doom_inv_def consume_recovery_def Let_def)

definition doom_frame :: "doom_tracker \<Rightarrow> doom_tracker \<Rightarrow> bool" where
  "doom_frame s t \<longleftrightarrow> threshold t = threshold s \<and> exempt_names t = exempt_names s"

interpretation doom: mono_system doom_step doom_inv doom_frame
proof
  fix s t u a
  show "doom_inv s \<Longrightarrow> doom_inv (doom_step a s)"
    by (auto simp: doom_step_def intro: inv_intros split: doom_op.splits)
  show "doom_frame s (doom_step a s)"
    by (auto simp: doom_frame_def doom_step_def take_error_def consume_recovery_def Let_def
        split: doom_op.splits)
qed (auto simp: doom_frame_def)

lemma consume_rearms:
  assumes "doom_inv t"
  shows "fst (consume_recovery t) = (triggered t, recovery_note t)"
    and "triggered t \<Longrightarrow> armed (snd (consume_recovery t))"
  using assms by (auto simp: doom_inv_def consume_recovery_def armed_def Let_def)

text \<open>
  C35: a tracker with no streak in progress (new, or just recovered) fires during a sequence of calls
  exactly when, ignoring the exempt tools, some prefix of the sequence ends with a run of at least
  \<open>threshold\<close> identical calls or of \<open>threshold\<close> failures of one tool on one file. It neither
  misses a loop nor fires early, and polling with an exempt tool neither hides nor feeds a loop.
\<close>
theorem doom_loop_exact:
  assumes "armed t" and "0 < threshold t"
  shows "triggered (fold record_call cs t) \<longleftrightarrow>
    (\<exists>n. doom_now (threshold t) (take n (visible_calls (exempt_names t) cs)))"
  using doom_trigger_from[OF armed_tracks[OF assms(1)] assms(2) refl, of cs]
  by (simp add: doom_now_def[of _ "[]"])

theorem doom_loop_exact_witness:
  "triggered (fold record_call
      [(''sh'', [], False), (''poll'', [], False), (''sh'', [], False)] (new_tracker 2 {''poll''}))"
proof -
  have "doom_now 2 (take 2 (visible_calls {''poll''} [(''sh'', [], False), (''poll'', [], False), (''sh'', [], False)]))"
    by (simp add: doom_now_def tail_run_def visible_calls_def)
  moreover have "armed (new_tracker 2 {''poll''})" "threshold (new_tracker 2 {''poll''}) = 2"
      "exempt_names (new_tracker 2 {''poll''}) = {''poll''}"
    by (simp_all add: armed_def new_tracker_def)
  ultimately show ?thesis
    using doom_loop_exact[of "new_tracker 2 {''poll''}"
        "[(''sh'', [], False), (''poll'', [], False), (''sh'', [], False)]"] by auto
qed

text \<open>
  In every state a tracker can reach, whatever the order of records and reads, it forces a turn
  without tools exactly while it is triggered, with a recovery note for it; consuming the recovery
  returns that note once and re-arms the tracker, and a threshold of 0 or less never fires.
\<close>
theorem doom_recovery_protocol:
  "let t = fold doom_step ops (new_tracker n ex); (r, t') = consume_recovery t
   in r = (triggered t, recovery_note t) \<and> (triggered t \<longleftrightarrow> recovery_note t \<noteq> None)
      \<and> (if triggered t then armed t' \<and> 0 < n else \<not> triggered t')
      \<and> fst (consume_recovery t') = (False, None)"
proof -
  let ?t = "fold doom_step ops (new_tracker n ex)"
  have inv: "doom_inv ?t" by (rule doom.run_inv[OF doom_inv_new])
  have "doom_frame (new_tracker n ex) ?t" by (rule doom.run_ord[OF doom_inv_new])
  then have "threshold ?t = n" by (simp add: doom_frame_def new_tracker_def)
  then show ?thesis using inv consume_rearms[OF inv]
    by (auto simp: Let_def doom_inv_def consume_recovery_def)
qed

section \<open>Spellings of one file\<close>

definition trimmed :: "string \<Rightarrow> bool" where
  "trimmed s \<longleftrightarrow> py_strip s = s"

definition ordinary_part :: "string \<Rightarrow> bool" where
  "ordinary_part x \<longleftrightarrow> x \<noteq> [] \<and> x \<noteq> ''.'' \<and> x \<noteq> ''..'' \<and> x \<noteq> ''~'' \<and> CHR ''/'' \<notin> set x \<and> backslash \<notin> set x"

text \<open>What \<open>canonical_tool_path\<close> reads of a trimmed path: its first two characters and its stack.\<close>

definition path_stack :: "string \<Rightarrow> string list" where
  "path_stack s = foldl push_path_part [] (split_on (CHR ''/'') s)"

lemma slashed_simps [simp]:
  "slashed [] = []" "slashed (a @ b) = slashed a @ slashed b"
  "slashed (c # s) = (if c = backslash then CHR ''/'' else c) # slashed s"
  "length (slashed s) = length s" "slashed (slashed s) = slashed s"
  by (auto simp: slashed_def)

lemma slashed_id: "backslash \<notin> set s \<Longrightarrow> slashed s = s"
  by (induction s) auto

definition drive_prefixed :: "string \<Rightarrow> bool" where
  "drive_prefixed s \<longleftrightarrow> 2 \<le> length s \<and> py_isalpha (s ! 0) \<and> s ! 1 = CHR '':''"

definition rooted_path :: "string \<Rightarrow> string \<Rightarrow> string" where
  \<comment> \<open>the result for first character \<open>h\<close>, without a drive\<close>
  "rooted_path h body =
     (if h = ''~'' then (if body \<noteq> [] then body else ''~'')
      else if h = ''/'' then (if body \<noteq> [] then ''/'' @ body else ''/'')
      else body)"

lemma canonical_trimmed:
  assumes "trimmed v" and "v \<noteq> []"
  shows "canonical_tool_path v =
    (if drive_prefixed (slashed v)
     then take 2 (slashed v)
       @ (let b = join_on ''/'' (path_stack (drop 2 (slashed v))) in if b \<noteq> [] then ''/'' @ b else [])
     else rooted_path (take 1 v) (join_on ''/'' (path_stack (slashed v))))"
proof -
  define s0 where "s0 = slashed v"
  have head: "startswith v [d] \<longleftrightarrow> take 1 v = [d]" for d by (simp add: startswith_def)
  have slash: "take 1 v = ''/'' \<Longrightarrow> startswith s0 ''/''"
    using assms(2) by (cases v) (simp_all add: startswith_def s0_def)
  have two: "take 2 s0 \<noteq> []" using assms(2) by (cases v) (simp_all add: s0_def)
  note eq = canonical_tool_path_def[of v, unfolded Let_def assms(1)[unfolded trimmed_def] if_not_P[OF assms(2)]
      s0_def[symmetric] drive_prefixed_def[symmetric] path_stack_def[symmetric] head]
  show ?thesis
  proof (cases "drive_prefixed s0")
    case True
    then show ?thesis unfolding eq s0_def[symmetric] by (simp only: if_True two Let_def) simp
  next
    case False
    then show ?thesis unfolding eq s0_def[symmetric] rooted_path_def using slash
      by (auto simp only: if_False simp_thms split: if_split)
  qed
qed

lemma path_stack_append: "path_stack (a @ CHR ''/'' # b) = foldl push_path_part (path_stack a) (split_on (CHR ''/'') b)"
  by (simp add: path_stack_def split_on_append_sep)

lemma path_stack_dot: "path_stack (a @ ''/./'' @ b) = path_stack (a @ ''/'' @ b)"
  using path_stack_append[of a "''./'' @ b"] path_stack_append[of a b] split_on_append_sep[of "CHR ''/''" "''.''" b]
  by (simp add: push_path_part_def)

lemma path_stack_up:
  assumes "ordinary_part x"
  shows "path_stack (a @ ''/'' @ x @ ''/../'' @ b) = path_stack (a @ ''/'' @ b)"
proof -
  have "split_on (CHR ''/'') (x @ ''/../'' @ b) = [x, ''..''] @ split_on (CHR ''/'') b"
    using assms split_on_append_sep[of "CHR ''/''" x "''../'' @ b"]
      split_on_append_sep[of "CHR ''/''" "''..''" b]
    by (simp add: split_on_id ordinary_part_def)
  then show ?thesis
    using assms path_stack_append[of a "x @ ''/../'' @ b"] path_stack_append[of a b]
    by (simp add: push_path_part_def ordinary_part_def)
qed

lemma drive_prefixed_take: "drive_prefixed s \<longleftrightarrow> drive_prefixed (take 2 s)"
  by (auto simp: drive_prefixed_def)

lemma canonical_infix:
  assumes "a \<noteq> []" and "trimmed (a @ ''/'' @ y)" and "trimmed (a @ ''/'' @ z)"
    and stack: "\<And>a'. path_stack (a' @ ''/'' @ slashed y) = path_stack (a' @ ''/'' @ slashed z)"
  shows "canonical_tool_path (a @ ''/'' @ y) = canonical_tool_path (a @ ''/'' @ z)"
proof -
  obtain c cs where a: "a = c # cs" using assms(1) by (cases a) auto
  let ?s = "\<lambda>y. slashed a @ ''/'' @ slashed y"
  have sl: "slashed (a @ ''/'' @ y) = ?s y" for y by (simp add: backslash_def)
  have two: "take 2 (?s y) = take 2 (?s z)" by (cases cs) (simp_all add: a numeral_2_eq_2)
  have "drive_prefixed (?s y) \<longleftrightarrow> drive_prefixed (?s z)"
    using drive_prefixed_take[of "?s y"] drive_prefixed_take[of "?s z"] two by simp
  moreover have "path_stack (drop 2 (?s y)) = path_stack (drop 2 (?s z))" if "drive_prefixed (?s y)"
  proof -
    have "2 \<le> length a" using that by (cases cs) (auto simp: a drive_prefixed_def)
    then show ?thesis using stack[of "drop 2 (slashed a)"] by simp
  qed
  moreover have "take 1 (a @ ''/'' @ y) = take 1 (a @ ''/'' @ z)" by (simp add: a)
  moreover have ne: "a @ ''/'' @ y \<noteq> []" "a @ ''/'' @ z \<noteq> []" by simp_all
  ultimately show ?thesis
    unfolding canonical_trimmed[OF assms(2) ne(1)] canonical_trimmed[OF assms(3) ne(2)] sl
    using two stack[of "slashed a"] by (cases "drive_prefixed (?s y)") (simp_all only: if_True if_False simp_thms)
qed

lemma slashed_ordinary: "ordinary_part x \<Longrightarrow> slashed x = x"
  by (simp add: ordinary_part_def slashed_id)

lemma slashed_trimmed: "trimmed v \<Longrightarrow> trimmed (slashed v)"
proof -
  have c: "\<not> py_isspace c \<Longrightarrow> \<not> py_isspace (if c = backslash then CHR ''/'' else c)" for c
    by (simp add: py_isspace_def)
  assume "trimmed v"
  then show ?thesis using c
    by (cases "v = []") (auto simp: trimmed_def py_strip_trimmed_iff slashed_def hd_map last_map)
qed

lemma canonical_slashed:
  assumes "trimmed v" and "v \<noteq> []" and "hd v \<noteq> backslash"
  shows "canonical_tool_path (slashed v) = canonical_tool_path v"
proof -
  have "take 1 (slashed v) = take 1 v" "slashed v \<noteq> []" using assms(2,3) by (cases v; simp)+
  then show ?thesis
    by (simp add: canonical_trimmed[OF assms(1,2)] canonical_trimmed[OF slashed_trimmed[OF assms(1)]])
qed

text \<open>
  Spellings of one file share one streak: inserting a \<open>.\<close> component, a detour through an
  ordinary directory and back, or writing backslashes for slashes does not change the canonical path.
\<close>
theorem canonical_spellings:
  assumes "trimmed (a @ ''/'' @ b)" and "a \<noteq> []" and "b \<noteq> []" and "ordinary_part x"
    and "hd a \<noteq> backslash"
  shows "canonical_tool_path (a @ ''/./'' @ b) = canonical_tool_path (a @ ''/'' @ b)
    \<and> canonical_tool_path (a @ ''/'' @ x @ ''/../'' @ b) = canonical_tool_path (a @ ''/'' @ b)
    \<and> canonical_tool_path (slashed (a @ ''/'' @ b)) = canonical_tool_path (a @ ''/'' @ b)"
proof (intro conjI)
  have t: "trimmed (a @ ''/'' @ y @ b)" for y
    using assms(1-3) by (simp add: trimmed_def py_strip_trimmed_iff)
  show "canonical_tool_path (a @ ''/./'' @ b) = canonical_tool_path (a @ ''/'' @ b)"
    using canonical_infix[OF assms(2), of "''./'' @ b" b] t[of "''./''"] assms(1) path_stack_dot[of _ "slashed b"]
    by (simp add: backslash_def)
  show "canonical_tool_path (a @ ''/'' @ x @ ''/../'' @ b) = canonical_tool_path (a @ ''/'' @ b)"
    using canonical_infix[OF assms(2), of "x @ ''/../'' @ b" b] t[of "x @ ''/../''"] assms(1)
      path_stack_up[OF assms(4), of _ "slashed b"] slashed_ordinary[OF assms(4)]
    by (simp add: backslash_def)
  show "canonical_tool_path (slashed (a @ ''/'' @ b)) = canonical_tool_path (a @ ''/'' @ b)"
    using assms by (intro canonical_slashed) auto
qed

theorem canonical_spellings_witness:
  "canonical_tool_path ''src/./m.py'' = canonical_tool_path ''src/m.py''
    \<and> canonical_tool_path ''src/old/../m.py'' = canonical_tool_path ''src/m.py''
    \<and> canonical_tool_path (slashed ''src/m.py'') = canonical_tool_path ''src/m.py''"
  using canonical_spellings[of "''src''" "''m.py''" "''old''"]
  by (simp add: trimmed_def py_strip_trimmed_iff py_isspace_def ordinary_part_def backslash_def)

end
