(* ===== verification/Todo_List.thy ===== *)
theory Todo_List
  imports Tool_Batch
begin

text \<open>
  The session todo list: \<open>todo_list/store.py\<close> (the list, its id counter and its mirror file),
  \<open>todo_list/tool.py\<close> (the tool the model calls) and \<open>todo_list/hook.py\<close> (the reminder).
  The mirror file is the JSON value it holds; a write is given its time stamp and, when it fails,
  the text of the \<open>OSError\<close>. The property group shows that ids are never reissued, that at most
  one item is in progress, the bounds on the list, and that a reconnect restores the list.
\<close>

section \<open>The store\<close>

datatype todo_status = Pending | In_Progress | Done

definition status_name :: "todo_status \<Rightarrow> string" where
  "status_name s = (case s of
       Pending \<Rightarrow> ''pending'' | In_Progress \<Rightarrow> ''in_progress'' | Done \<Rightarrow> ''done'')"

definition status_of_name :: "string \<Rightarrow> todo_status option" where
  "status_of_name s =
     (if s = ''pending'' then Some Pending else if s = ''in_progress'' then Some In_Progress
      else if s = ''done'' then Some Done else None)"

record todo_item =
  item_id :: string
  item_text :: string
  item_status :: todo_status

record todo_store =
  store_session :: string
  store_instance :: int
  mirror_enabled :: bool
  store_items :: "todo_item list"
  next_n :: int
  mirror_file :: "json option"
  mirror_error :: "string option"

definition max_items :: nat where
  "max_items = 50"

definition max_text_chars :: nat where
  "max_text_chars = 500"

definition new_store :: "string \<Rightarrow> int \<Rightarrow> bool \<Rightarrow> json option \<Rightarrow> todo_store" where
  \<comment> \<open>\<open>TodoListStore(session_id, ...)\<close> over the file \<open>todos.json\<close> that is on disk\<close>
  "new_store session instance enabled file =
     \<lparr>store_session = session, store_instance = instance, mirror_enabled = enabled,
      store_items = [], next_n = 1, mirror_file = file, mirror_error = None\<rparr>"

fun single_in_progress_from :: "bool \<Rightarrow> todo_item list \<Rightarrow> todo_item list" where
  "single_in_progress_from seen [] = []"
| "single_in_progress_from seen (x # xs) =
     (if item_status x \<noteq> In_Progress then x # single_in_progress_from seen xs
      else if \<not> seen then x # single_in_progress_from True xs
      else x\<lparr>item_status := Pending\<rparr> # single_in_progress_from seen xs)"

definition single_in_progress :: "todo_item list \<Rightarrow> todo_item list" where
  "single_in_progress items = single_in_progress_from False items"

definition next_n_from_disk :: "jdict \<Rightarrow> int \<Rightarrow> int" where
  "next_n_from_disk raw max_item_n =
     (let parsed = (case dict_get raw ''next_n'' of
            Some (JInt i) \<Rightarrow> if i \<ge> 1 then i else 0
          | _ \<Rightarrow> 0)
      in max parsed (max_item_n + 1))"

definition item_digits :: "string \<Rightarrow> string option" where
  \<comment> \<open>group 1 of \<open>_ITEM_ID_RE\<close>\<close>
  "item_digits s =
     (case s of
        [] \<Rightarrow> None
      | c # cs \<Rightarrow> if c = CHR ''t'' \<and> cs \<noteq> [] \<and> list_all py_isdigit cs then Some cs else None)"

definition item_number :: "string \<Rightarrow> int" where
  \<comment> \<open>what an id contributes to \<open>max_n\<close>; 0 when it is not of the form \<open>t<n>\<close>\<close>
  "item_number s = (case item_digits s of None \<Rightarrow> 0 | Some ds \<Rightarrow> int (nat_of_digits 0 ds))"

definition item_to_dict :: "todo_item \<Rightarrow> jdict" where
  \<comment> \<open>\<open>asdict(item)\<close>\<close>
  "item_to_dict x =
     [(''id'', JStr (item_id x)), (''text'', JStr (item_text x)),
      (''status'', JStr (status_name (item_status x)))]"

definition todo_snapshot :: "todo_store \<Rightarrow> json" where
  "todo_snapshot s = JList (map (\<lambda>x. JObj (item_to_dict x)) (store_items s))"

definition format_lines :: "todo_store \<Rightarrow> string" where
  "format_lines s =
     join_on [nl] (map (\<lambda>x. ''- '' @ item_id x @ '' ['' @ status_name (item_status x) @ ''] ''
       @ item_text x) (store_items s))"

definition index_of :: "todo_store \<Rightarrow> string \<Rightarrow> nat option" where
  "index_of s i =
     (let key = py_strip i
      in if key = [] then None
         else List.find (\<lambda>k. item_id (store_items s ! k) = key) [0..<length (store_items s)])"

section \<open>The mirror file\<close>

definition mirror_payload :: "string \<Rightarrow> todo_store \<Rightarrow> jdict" where
  "mirror_payload now s =
     [(''session_id'', JStr (store_session s)), (''updated_at'', JStr now),
      (''next_n'', JInt (next_n s)), (''items'', todo_snapshot s)]"

type_synonym write_env = "string \<times> string option"
  \<comment> \<open>the time stamp, and the text of the \<open>OSError\<close> when the write fails\<close>

definition mirror_to_disk :: "write_env \<Rightarrow> todo_store \<Rightarrow> todo_store" where
  "mirror_to_disk env s =
     (if \<not> mirror_enabled s then s
      else (case env of
          (now, None) \<Rightarrow> s\<lparr>mirror_file := Some (JObj (mirror_payload now s)), mirror_error := None\<rparr>
        | (now, Some e) \<Rightarrow> s\<lparr>mirror_error := Some e\<rparr>))"

definition restore_entry :: "json \<Rightarrow> todo_item option" where
  \<comment> \<open>one iteration of the loop over \<open>items_raw\<close>; \<open>None\<close> is \<open>continue\<close>\<close>
  "restore_entry entry =
     (case entry of
        JObj d \<Rightarrow>
          (let i = py_strip (str_or_empty (dict_get d ''id''));
               t = str_or_empty (dict_get d ''text'')
           in (case dict_get d ''status'' of
                 Some (JStr st) \<Rightarrow>
                   (case status_of_name st of
                      None \<Rightarrow> None
                    | Some status \<Rightarrow>
                        if i = [] then None
                        else Some \<lparr>item_id = i, item_text = t, item_status = status\<rparr>)
               | _ \<Rightarrow> None))
      | _ \<Rightarrow> None)"

definition load_from_disk :: "todo_store \<Rightarrow> todo_store" where
  "load_from_disk s =
     (case mirror_file s of
        Some (JObj raw) \<Rightarrow>
          (case dict_get raw ''items'' of
             Some (JList items_raw) \<Rightarrow>
               (let restored = List.map_filter restore_entry items_raw;
                    max_n = foldl (\<lambda>m x. max m (item_number (item_id x))) 0 restored
                in s\<lparr>store_items := single_in_progress restored,
                     next_n := next_n_from_disk raw max_n\<rparr>)
           | _ \<Rightarrow> s)
      | _ \<Rightarrow> s)"

definition hydrate_from_disk :: "todo_store \<Rightarrow> todo_store" where
  "hydrate_from_disk s = (if \<not> mirror_enabled s then s else load_from_disk s)"

section \<open>Mutations\<close>

fun clean_batch :: "string list \<Rightarrow> string + string list" where
  \<comment> \<open>the validation loop of \<open>add_many\<close>\<close>
  "clean_batch [] = Inr []"
| "clean_batch (raw # raws) =
     (let cleaned = py_strip raw
      in if cleaned = [] then Inl ''todo_list add requires non-empty text.''
         else if length cleaned > max_text_chars
         then Inl (''todo_list text exceeds '' @ str_of_nat max_text_chars @ '' characters.'')
         else bind_result (clean_batch raws) (\<lambda>cs. Inr (cleaned # cs)))"

definition issue_item :: "string \<Rightarrow> todo_store \<times> todo_item list \<Rightarrow> todo_store \<times> todo_item list" where
  \<comment> \<open>one iteration of the append loop of \<open>add_many\<close>\<close>
  "issue_item cleaned p =
     (case p of (s, added) \<Rightarrow>
        let item = \<lparr>item_id = CHR ''t'' # str_of_int (next_n s), item_text = cleaned,
                    item_status = Pending\<rparr>
        in (s\<lparr>next_n := next_n s + 1, store_items := store_items s @ [item]\<rparr>, added @ [item]))"

definition add_many ::
    "write_env \<Rightarrow> string list \<Rightarrow> todo_store \<Rightarrow> (string + todo_item list) \<times> todo_store" where
  "add_many env texts s =
     (if texts = [] then
        (Inl ''todo_list add requires non-empty text (string or non-empty list).'', s)
      else (case clean_batch texts of
          Inl e \<Rightarrow> (Inl e, s)
        | Inr cleaned_batch \<Rightarrow>
            if length (store_items s) + length cleaned_batch > max_items then
              (Inl (''todo_list would exceed max '' @ str_of_nat max_items @ '' items (''
                 @ str_of_nat (length (store_items s)) @ '' existing + ''
                 @ str_of_nat (length cleaned_batch)
                 @ '' new); complete or remove some first.''), s)
            else (let (s', added) = fold issue_item cleaned_batch (s, [])
                  in (Inr added, mirror_to_disk env s'))))"

definition todo_add :: "write_env \<Rightarrow> string \<Rightarrow> todo_store \<Rightarrow> (string + todo_item) \<times> todo_store" where
  "todo_add env txt s =
     (case add_many env [txt] s of
        (Inl e, s') \<Rightarrow> (Inl e, s')
      | (Inr added, s') \<Rightarrow> (Inr (hd added), s'))"

definition not_found :: "string \<Rightarrow> string" where
  "not_found i = ''todo_list item id not found: '' @ py_repr i @ ''.''"

definition demote_others :: "nat \<Rightarrow> todo_item list \<Rightarrow> todo_item list" where
  \<comment> \<open>the loop of \<open>start\<close>: every other item in progress returns to pending\<close>
  "demote_others idx xs =
     map (\<lambda>i. if i \<noteq> idx \<and> item_status (xs ! i) = In_Progress
              then (xs ! i)\<lparr>item_status := Pending\<rparr> else xs ! i) [0..<length xs]"

definition todo_start :: "write_env \<Rightarrow> string \<Rightarrow> todo_store \<Rightarrow> (string + todo_item) \<times> todo_store" where
  "todo_start env i s =
     (case index_of s i of
        None \<Rightarrow> (Inl (not_found i), s)
      | Some idx \<Rightarrow>
          (let xs = demote_others idx (store_items s);
               xs' = (if item_status (xs ! idx) \<noteq> In_Progress
                      then xs[idx := (xs ! idx)\<lparr>item_status := In_Progress\<rparr>] else xs);
               s' = s\<lparr>store_items := xs'\<rparr>
           in (Inr (xs' ! idx),
               if xs' \<noteq> store_items s then mirror_to_disk env s' else s')))"

definition todo_clear :: "write_env \<Rightarrow> todo_store \<Rightarrow> todo_store" where
  "todo_clear env s =
     (if store_items s = [] then s else mirror_to_disk env (s\<lparr>store_items := []\<rparr>))"

definition todo_complete :: "write_env \<Rightarrow> string \<Rightarrow> todo_store \<Rightarrow> (string + todo_item) \<times> todo_store" where
  "todo_complete env i s =
     (case index_of s i of
        None \<Rightarrow> (Inl (not_found i), s)
      | Some idx \<Rightarrow>
          (let current = store_items s ! idx
           in if item_status current = Done then (Inr current, s)
              else let updated = current\<lparr>item_status := Done\<rparr>
                   in (Inr updated,
                       mirror_to_disk env (s\<lparr>store_items := (store_items s)[idx := updated]\<rparr>))))"

definition todo_remove :: "write_env \<Rightarrow> string \<Rightarrow> todo_store \<Rightarrow> (string + todo_item) \<times> todo_store" where
  "todo_remove env i s =
     (case index_of s i of
        None \<Rightarrow> (Inl (not_found i), s)
      | Some idx \<Rightarrow>
          (Inr (store_items s ! idx),
           mirror_to_disk env
             (s\<lparr>store_items := take idx (store_items s) @ drop (Suc idx) (store_items s)\<rparr>)))"

section \<open>The tool\<close>

definition todo_ok :: "string \<Rightarrow> todo_item option \<Rightarrow> todo_item list option \<Rightarrow> todo_store \<Rightarrow> jdict" where
  "todo_ok action item added s =
     [(''ok'', JBool True), (''action'', JStr action), (''items'', todo_snapshot s)]
     @ (case item of None \<Rightarrow> [] | Some x \<Rightarrow> [(''item'', JObj (item_to_dict x))])
     @ (case added of None \<Rightarrow> []
        | Some xs \<Rightarrow> [(''added'', JList (map (\<lambda>x. JObj (item_to_dict x)) xs))])
     @ (case mirror_error s of None \<Rightarrow> []
        | Some _ \<Rightarrow> [(''mirror_warning'',
            JStr ''todos.json debug mirror write failed; list state is unaffected.'')])"

definition todo_err :: "string \<Rightarrow> todo_store \<Rightarrow> jdict" where
  "todo_err message s =
     [(''ok'', JBool False), (''error_kind'', JStr ''validation''), (''message'', JStr message),
      (''hint'', JStr (''Pass action=add with text (string or list of strings), ''
         @ ''action=start|complete|remove with id, or action=clear.'')),
      (''items'', todo_snapshot s)]"

definition parse_add_texts :: "json option \<Rightarrow> string list" where
  "parse_add_texts raw = (case raw of
       Some (JList vs) \<Rightarrow> map py_str_json vs
     | None \<Rightarrow> []
     | Some JNull \<Rightarrow> []
     | Some v \<Rightarrow> [py_str_json v])"

definition reply_item :: "string \<Rightarrow> (string + todo_item) \<times> todo_store \<Rightarrow> jdict \<times> todo_store" where
  \<comment> \<open>the common tail of the start, complete and remove branches of \<open>execute\<close>\<close>
  "reply_item action p = (case p of
       (Inl e, s) \<Rightarrow> (todo_err e s, s)
     | (Inr x, s) \<Rightarrow> (todo_ok action (Some x) None s, s))"

definition todo_execute :: "write_env \<Rightarrow> jdict \<Rightarrow> todo_store \<Rightarrow> jdict \<times> todo_store" where
  \<comment> \<open>\<open>TodoListTool.execute\<close>; the reply is the object that is dumped as JSON\<close>
  "todo_execute env args s =
     (let action = py_lower (py_strip (str_or_empty (dict_get args ''action'')));
          i = str_or_empty (dict_get args ''id'')
      in if action = ''add'' then
           (case add_many env (parse_add_texts (dict_get args ''text'')) s of
              (Inl e, s') \<Rightarrow> (todo_err e s', s')
            | (Inr added, s') \<Rightarrow>
                (todo_ok action (if length added = 1 then Some (hd added) else None) (Some added) s', s'))
         else if action = ''start'' then reply_item action (todo_start env i s)
         else if action = ''complete'' then reply_item action (todo_complete env i s)
         else if action = ''remove'' then reply_item action (todo_remove env i s)
         else if action = ''clear'' then
           (let s' = todo_clear env s in (todo_ok action None None s', s'))
         else (todo_err ''todo_list action must be one of: add, start, complete, remove, clear.'' s, s))"

section \<open>The reminder\<close>

record reminder =
  stale_after :: int
  thread_cap :: nat
  reminder_counts :: "((string \<times> int), int) dict"

definition new_reminder :: "int \<Rightarrow> int \<Rightarrow> reminder" where
  "new_reminder stale cap =
     \<lparr>stale_after = max 1 stale, thread_cap = nat (max 1 cap), reminder_counts = []\<rparr>"

definition has_open_items :: "todo_store \<Rightarrow> bool" where
  "has_open_items s \<longleftrightarrow> list_ex (\<lambda>x. item_status x \<noteq> Done) (store_items s)"

definition bump :: "string \<times> int \<Rightarrow> reminder \<Rightarrow> int \<times> reminder" where
  "bump key r =
     (let n = (case dict_get (reminder_counts r) key of None \<Rightarrow> 0 | Some k \<Rightarrow> k) + 1;
          d = move_to_end key (dict_set key n (reminder_counts r))
      in (n, r\<lparr>reminder_counts := trim_oldest (thread_cap r) d\<rparr>))"

definition reminder_note :: "int \<Rightarrow> string" where
  "reminder_note n = ''Todo list unchanged for '' @ str_of_int n
     @ '' tool calls: mark finished items done and `start` the next.''"

definition on_pre_tool ::
    "string \<Rightarrow> string \<Rightarrow> todo_store option \<Rightarrow> string \<Rightarrow> reminder \<Rightarrow> string \<times> reminder" where
  \<comment> \<open>thread id, tool name, the turn's store, the text injected so far (empty when unset)\<close>
  "on_pre_tool thread tool store inject r =
     (case store of
        None \<Rightarrow> (inject, r)
      | Some s \<Rightarrow>
          (let key = (thread, store_instance s)
           in if tool = ''todo_list'' \<or> \<not> has_open_items s
              then (inject, r\<lparr>reminder_counts := dict_pop key (reminder_counts r)\<rparr>)
              else (case bump key r of (n, r') \<Rightarrow>
                  if n \<noteq> stale_after r' then (inject, r')
                  else if inject \<noteq> [] then (py_rstrip inject @ [nl, nl] @ reminder_note n, r')
                  else (reminder_note n, r'))))"

section \<open>The invariant\<close>

definition item_ids :: "todo_store \<Rightarrow> string list" where
  "item_ids s = map item_id (store_items s)"

definition in_progress_count :: "todo_item list \<Rightarrow> nat" where
  "in_progress_count xs = length (filter (\<lambda>x. item_status x = In_Progress) xs)"

definition todo_inv :: "todo_store \<Rightarrow> bool" where
  "todo_inv s \<longleftrightarrow>
     1 \<le> next_n s \<and> distinct (item_ids s)
     \<and> list_all (\<lambda>i. i \<noteq> [] \<and> py_strip i = i \<and> item_number i < next_n s) (item_ids s)
     \<and> in_progress_count (store_items s) \<le> 1
     \<and> length (store_items s) \<le> max_items
     \<and> list_all (\<lambda>x. item_text x \<noteq> [] \<and> length (item_text x) \<le> max_text_chars) (store_items s)"

fun issued :: "int \<Rightarrow> string list \<Rightarrow> todo_item list" where
  "issued n [] = []"
| "issued n (c # cs) =
     \<lparr>item_id = CHR ''t'' # str_of_int n, item_text = c, item_status = Pending\<rparr> # issued (n + 1) cs"

lemma fold_issue_item:
  "fold issue_item cs (s, added) =
    (s\<lparr>next_n := next_n s + int (length cs), store_items := store_items s @ issued (next_n s) cs\<rparr>,
     added @ issued (next_n s) cs)"
  by (induction cs arbitrary: s added) (simp_all add: issue_item_def Let_def algebra_simps)

lemma item_number_issue: "0 \<le> n \<Longrightarrow> item_number (CHR ''t'' # str_of_int n) = n"
  by (simp add: item_number_def item_digits_def str_of_int_def digits_of_nat_isdigit nat_of_digits_of_nat)

lemma strip_issue: "0 \<le> n \<Longrightarrow> py_strip (CHR ''t'' # str_of_int n) = CHR ''t'' # str_of_int n"
proof -
  assume "0 \<le> n"
  then have "list_all py_isdigit (str_of_int n)" "str_of_int n \<noteq> []"
    by (simp_all add: str_of_int_def digits_of_nat_isdigit)
  then have "\<not> py_isspace (last (str_of_int n))"
    using py_isdigit_not_space by (simp add: list.pred_set)
  then show ?thesis using \<open>str_of_int n \<noteq> []\<close>
    by (simp add: py_strip_trimmed_iff py_isspace_def)
qed

lemma issued_props:
  assumes "1 \<le> n"
  shows "length (issued n cs) = length cs"
    and "map item_text (issued n cs) = cs"
    and "x \<in> set (issued n cs) \<Longrightarrow> n \<le> item_number (item_id x) \<and> item_number (item_id x) < n + int (length cs)
      \<and> item_id x \<noteq> [] \<and> py_strip (item_id x) = item_id x \<and> item_status x = Pending"
    and "distinct (map item_id (issued n cs))"
  using assms
proof (induction cs arbitrary: n x)
  case (Cons c cs)
  { case 3
    then show ?case using Cons.IH(3)[of x "n + 1"] by (auto simp: item_number_issue strip_issue) }
  { case 4
    have "CHR ''t'' # str_of_int n \<noteq> item_id x" if "x \<in> set (issued (n + 1) cs)" for x
      using Cons.IH(3)[of x "n + 1"] that item_number_issue[of n] 4 by force
    then show ?case using 4 Cons.IH(4)[of "n + 1"] by auto }
qed auto

lemma clean_batch_ok:
  "clean_batch raws = Inr cs \<Longrightarrow>
    cs = map py_strip raws \<and> list_all (\<lambda>c. c \<noteq> [] \<and> length c \<le> max_text_chars) cs"
  by (induction raws arbitrary: cs) (auto simp: Let_def split: if_splits)

lemma index_of_SomeD:
  assumes "index_of s i = Some k"
  shows "k < length (store_items s)" and "item_id (store_items s ! k) = py_strip i"
  using assms by (auto simp: index_of_def Let_def find_Some_iff split: if_splits)

lemma mirror_keeps [simp]:
  "store_items (mirror_to_disk env s) = store_items s" "next_n (mirror_to_disk env s) = next_n s"
  "store_session (mirror_to_disk env s) = store_session s"
  "mirror_enabled (mirror_to_disk env s) = mirror_enabled s"
  "store_instance (mirror_to_disk env s) = store_instance s"
  by (auto simp: mirror_to_disk_def split: prod.splits option.splits)

lemma todo_inv_mirror [simp]: "todo_inv (mirror_to_disk env s) = todo_inv s"
  by (simp add: todo_inv_def item_ids_def)

text \<open>A change of statuses that adds no item in progress keeps the invariant.\<close>

lemma todo_inv_statuses:
  assumes "todo_inv s" and "map item_id xs = map item_id (store_items s)"
    and "map item_text xs = map item_text (store_items s)" and "in_progress_count xs \<le> 1"
  shows "todo_inv (s\<lparr>store_items := xs\<rparr>)"
proof -
  have all: "list_all (P \<circ> item_text) xs = list_all (P \<circ> item_text) (store_items s)" for P
    using assms(3) by (metis list.pred_map)
  have "length xs = length (store_items s)" using assms(2) by (metis length_map)
  then show ?thesis
    using assms(1,2,4) all[of "\<lambda>t. t \<noteq> [] \<and> length t \<le> max_text_chars"]
    by (simp add: todo_inv_def item_ids_def comp_def)
qed

lemma in_progress_count_others:
  assumes "\<And>k. k < length xs \<Longrightarrow> k \<noteq> idx \<Longrightarrow> item_status (xs ! k) \<noteq> In_Progress"
  shows "in_progress_count xs \<le> 1"
proof -
  have "in_progress_count xs = card {k. k < length xs \<and> item_status (xs ! k) = In_Progress}"
    by (simp add: in_progress_count_def length_filter_conv_card)
  also have "\<dots> \<le> card {idx}" using assms by (intro card_mono) auto
  finally show ?thesis by simp
qed

lemma demote_others_props:
  "length (demote_others idx xs) = length xs"
  "map item_id (demote_others idx xs) = map item_id xs"
  "map item_text (demote_others idx xs) = map item_text xs"
  "k < length xs \<Longrightarrow> k \<noteq> idx \<Longrightarrow> item_status (demote_others idx xs ! k) \<noteq> In_Progress"
  "idx < length xs \<Longrightarrow> demote_others idx xs ! idx = xs ! idx"
  by (auto simp: demote_others_def intro: nth_equalityI)

lemma map_update_same: "i < length xs \<Longrightarrow> f y = f (xs ! i) \<Longrightarrow> map f (xs[i := y]) = map f xs"
  by (metis list_update_id map_update)

lemma in_progress_count_update:
  assumes "item_status y \<noteq> In_Progress"
  shows "in_progress_count (xs[i := y]) \<le> in_progress_count xs"
proof (cases "i < length xs")
  case True
  have "in_progress_count xs = in_progress_count (take i xs @ xs ! i # drop (Suc i) xs)"
    using id_take_nth_drop[OF True] by simp
  then show ?thesis
    using assms by (simp add: in_progress_count_def upd_conv_take_nth_drop[OF True])
qed (simp add: not_less list_update_beyond)

lemma todo_start_effect:
  assumes "index_of s i = Some idx"
  obtains xs where "map item_id xs = map item_id (store_items s)"
    "map item_text xs = map item_text (store_items s)" "in_progress_count xs \<le> 1"
    "snd (todo_start env i s) = (if xs = store_items s then s else mirror_to_disk env (s\<lparr>store_items := xs\<rparr>))"
proof
  note idx = index_of_SomeD[OF assms]
  define ys where "ys = demote_others idx (store_items s)"
  define xs where "xs = (if item_status (ys ! idx) \<noteq> In_Progress
      then ys[idx := (ys ! idx)\<lparr>item_status := In_Progress\<rparr>] else ys)"
  note ys = demote_others_props[of idx "store_items s", folded ys_def]
  show "map item_id xs = map item_id (store_items s)" "map item_text xs = map item_text (store_items s)"
    using ys idx(1) map_update_same[of idx ys item_id "(ys ! idx)\<lparr>item_status := In_Progress\<rparr>"]
      map_update_same[of idx ys item_text "(ys ! idx)\<lparr>item_status := In_Progress\<rparr>"]
    by (simp_all add: xs_def)
  show "in_progress_count xs \<le> 1"
  proof (rule in_progress_count_others[of _ idx])
    fix k assume k: "k < length xs" "k \<noteq> idx"
    then have "xs ! k = ys ! k" "k < length (store_items s)" using ys(1) by (auto simp: xs_def split: if_splits)
    then show "item_status (xs ! k) \<noteq> In_Progress"
      using demote_others_props(4)[of k "store_items s" idx] k(2) by (simp add: ys_def)
  qed
  show "snd (todo_start env i s) = (if xs = store_items s then s else mirror_to_disk env (s\<lparr>store_items := xs\<rparr>))"
    unfolding todo_start_def assms option.case Let_def ys_def[symmetric] xs_def[symmetric] by simp
qed

lemma todo_complete_effect:
  assumes "index_of s i = Some idx"
  obtains xs where "map item_id xs = map item_id (store_items s)"
    "map item_text xs = map item_text (store_items s)"
    "in_progress_count xs \<le> in_progress_count (store_items s)"
    "snd (todo_complete env i s) = s \<or> snd (todo_complete env i s) = mirror_to_disk env (s\<lparr>store_items := xs\<rparr>)"
proof
  let ?y = "(store_items s ! idx)\<lparr>item_status := Done\<rparr>"
  let ?xs = "(store_items s)[idx := ?y]"
  show "map item_id ?xs = map item_id (store_items s)" "map item_text ?xs = map item_text (store_items s)"
    by (rule map_update_same[OF index_of_SomeD(1)[OF assms]], simp)+
  show "in_progress_count ?xs \<le> in_progress_count (store_items s)"
    by (rule in_progress_count_update) simp
  show "snd (todo_complete env i s) = s \<or> snd (todo_complete env i s) = mirror_to_disk env (s\<lparr>store_items := ?xs\<rparr>)"
    using assms by (simp add: todo_complete_def Let_def)
qed

lemma todo_remove_effect:
  assumes "index_of s i = Some idx"
  obtains xs where "subseq xs (store_items s)"
    "snd (todo_remove env i s) = mirror_to_disk env (s\<lparr>store_items := xs\<rparr>)"
proof
  let ?xs = "take idx (store_items s) @ drop (Suc idx) (store_items s)"
  have "subseq (drop (Suc idx) (store_items s)) (drop idx (store_items s))"
    by (metis drop_Suc drop_tl list_emb_Cons subseq_order.refl tl_Nil list.collapse)
  then show "subseq ?xs (store_items s)"
    by (metis append_take_drop_id list_emb_append_mono subseq_order.refl)
  show "snd (todo_remove env i s) = mirror_to_disk env (s\<lparr>store_items := ?xs\<rparr>)"
    using assms by (simp add: todo_remove_def)
qed

lemma todo_execute_snd:
  "\<exists>texts. snd (todo_execute env args s) \<in>
    {s, snd (add_many env texts s), snd (todo_start env (str_or_empty (dict_get args ''id'')) s),
     snd (todo_complete env (str_or_empty (dict_get args ''id'')) s),
     snd (todo_remove env (str_or_empty (dict_get args ''id'')) s), todo_clear env s}"
proof
  have reply: "snd (reply_item a p) = snd p" for a p
    by (cases p; cases "fst p") (auto simp: reply_item_def)
  have adds: "snd (case p of (Inl e, s') \<Rightarrow> (todo_err e s', s') | (Inr added, s') \<Rightarrow> (f added s', s')) = snd p"
    for p :: "(string + todo_item list) \<times> todo_store" and f
    by (cases p; cases "fst p") auto
  show "snd (todo_execute env args s) \<in>
    {s, snd (add_many env (parse_add_texts (dict_get args ''text'')) s),
     snd (todo_start env (str_or_empty (dict_get args ''id'')) s),
     snd (todo_complete env (str_or_empty (dict_get args ''id'')) s),
     snd (todo_remove env (str_or_empty (dict_get args ''id'')) s), todo_clear env s}"
    unfolding todo_execute_def Let_def by (simp add: reply adds)
qed

text \<open>Every call of the tool is one of four changes of the store.\<close>

lemma todo_execute_effect:
  assumes "todo_inv s"
  obtains (same) "snd (todo_execute env args s) = s"
    | (added) cs where "list_all (\<lambda>c. c \<noteq> [] \<and> length c \<le> max_text_chars) cs"
        "length (store_items s) + length cs \<le> max_items"
        "snd (todo_execute env args s) = mirror_to_disk env (s\<lparr>next_n := next_n s + int (length cs),
            store_items := store_items s @ issued (next_n s) cs\<rparr>)"
    | (changed) xs where "map item_id xs = map item_id (store_items s)"
        "map item_text xs = map item_text (store_items s)" "in_progress_count xs \<le> 1"
        "snd (todo_execute env args s) = mirror_to_disk env (s\<lparr>store_items := xs\<rparr>)"
    | (dropped) xs where "subseq xs (store_items s)"
        "snd (todo_execute env args s) = mirror_to_disk env (s\<lparr>store_items := xs\<rparr>)"
proof -
  define i where "i = str_or_empty (dict_get args ''id'')"
  define s' where "s' = snd (todo_execute env args s)"
  obtain texts where "s' \<in> {s, snd (add_many env texts s), snd (todo_start env i s),
     snd (todo_complete env i s), snd (todo_remove env i s), todo_clear env s}"
    using todo_execute_snd[of env args s] unfolding s'_def i_def by blast
  then consider (f) "s' = s" | (a) "s' = snd (add_many env texts s)"
    | (b) idx where "index_of s i = Some idx" "s' = snd (todo_start env i s)"
    | (c) idx where "index_of s i = Some idx" "s' = snd (todo_complete env i s)"
    | (d) idx where "index_of s i = Some idx" "s' = snd (todo_remove env i s)"
    | (e) "s' = todo_clear env s"
    by (cases "index_of s i") (auto simp: todo_start_def todo_complete_def todo_remove_def)
  then show thesis
  proof cases
    case a
    then show thesis
      using same added clean_batch_ok[of texts]
      by (auto simp: s'_def add_many_def fold_issue_item split: if_splits sum.splits)
  next
    case b
    then show thesis using todo_start_effect[OF b(1), of env] same changed unfolding s'_def by metis
  next
    case c
    have "in_progress_count (store_items s) \<le> 1" using assms by (simp add: todo_inv_def)
    then show thesis
      using todo_complete_effect[OF c(1), of env] same changed c(2) unfolding s'_def
      by (metis order_trans)
  next
    case d
    then show thesis using todo_remove_effect[OF d(1), of env] dropped unfolding s'_def by metis
  next
    case e
    then show thesis using same dropped[of "[]"] by (auto simp: s'_def todo_clear_def split: if_splits)
  next
    case f
    then show thesis using same by (simp add: s'_def)
  qed
qed

lemma in_progress_subseq: "subseq xs ys \<Longrightarrow> in_progress_count xs \<le> in_progress_count ys"
  unfolding in_progress_count_def by (rule list_emb_length[OF subseq_filter])

lemma in_progress_append [simp]: "in_progress_count (xs @ ys) = in_progress_count xs + in_progress_count ys"
  by (simp add: in_progress_count_def)

lemma in_progress_issued: "1 \<le> n \<Longrightarrow> in_progress_count (issued n cs) = 0"
  using issued_props(3)[of n _ cs] by (force simp: in_progress_count_def filter_empty_conv)

lemma todo_inv_added:
  assumes "todo_inv s" and "list_all (\<lambda>c. c \<noteq> [] \<and> length c \<le> max_text_chars) cs"
    and "length (store_items s) + length cs \<le> max_items"
  shows "todo_inv (s\<lparr>next_n := next_n s + int (length cs),
      store_items := store_items s @ issued (next_n s) cs\<rparr>)"
proof -
  have n: "1 \<le> next_n s" using assms(1) by (simp add: todo_inv_def)
  note new = issued_props[OF n]
  have "list_all (\<lambda>x. item_text x \<noteq> [] \<and> length (item_text x) \<le> max_text_chars) (issued (next_n s) cs)"
    using assms(2) new(2)[of cs] list.pred_map[of "\<lambda>c. c \<noteq> [] \<and> length c \<le> max_text_chars" item_text
        "issued (next_n s) cs"] by (simp add: comp_def)
  moreover have "item_id x \<noteq> item_id y" if "x \<in> set (store_items s)" "y \<in> set (issued (next_n s) cs)" for x y
  proof -
    have "item_number (item_id x) < next_n s"
      using assms(1) that(1) by (simp add: todo_inv_def item_ids_def list.pred_set)
    then show ?thesis using new(3)[OF that(2)] by auto
  qed
  moreover have "list_all (\<lambda>i. i \<noteq> [] \<and> py_strip i = i \<and> item_number i < next_n s + int (length cs))
      (map item_id (issued (next_n s) cs))"
    using new(3) by (auto simp: list.pred_set)
  moreover have "list_all (\<lambda>i. i \<noteq> [] \<and> py_strip i = i \<and> item_number i < next_n s + int (length cs))
      (item_ids s)"
    using assms(1) by (auto simp: todo_inv_def list.pred_set)
  ultimately show ?thesis
    using assms(1,3) n new(1,4)[of cs] in_progress_issued[OF n, of cs]
    by (auto simp: todo_inv_def item_ids_def)
qed

lemma todo_inv_dropped:
  assumes "todo_inv s" and "subseq xs (store_items s)"
  shows "todo_inv (s\<lparr>store_items := xs\<rparr>)"
proof -
  have "set xs \<subseteq> set (store_items s)" by (rule subseq_set_mono[OF assms(2)])
  moreover have "subseq (map item_id xs) (map item_id (store_items s))"
    using assms(2) by (rule subseq_map)
  then have "distinct (map item_id xs)"
    using assms(1) by (auto simp: todo_inv_def item_ids_def intro: subseq_distinct_mono)
  ultimately show ?thesis
    using assms(1) in_progress_subseq[OF assms(2)] list_emb_length[OF assms(2)]
    by (auto simp: todo_inv_def item_ids_def list.pred_set)
qed

lemma todo_inv_execute [inv_intros]:
  assumes "todo_inv s"
  shows "todo_inv (snd (todo_execute env args s))"
  using assms
proof (cases rule: todo_execute_effect[of s env args])
  case (changed xs)
  then show ?thesis using todo_inv_statuses[OF assms] by simp
qed (use assms in \<open>simp_all add: todo_inv_added todo_inv_dropped\<close>)

lemma todo_inv_new [inv_intros]: "todo_inv (new_store session inst enabled file)"
  by (simp add: todo_inv_def new_store_def item_ids_def in_progress_count_def)

section \<open>Ids are never reissued\<close>

definition ids_forward :: "todo_store \<Rightarrow> todo_store \<Rightarrow> bool" where
  \<comment> \<open>the counter never goes back, and an id that is new has a number not issued before\<close>
  "ids_forward s t \<longleftrightarrow> next_n s \<le> next_n t
     \<and> (\<forall>i \<in> set (item_ids t). i \<in> set (item_ids s) \<or> next_n s \<le> item_number i)"

lemma ids_forward_execute:
  assumes "todo_inv s"
  shows "ids_forward s (snd (todo_execute env args s))"
  using assms
proof (cases rule: todo_execute_effect[of s env args])
  case (added cs)
  then show ?thesis using issued_props(3)[of "next_n s" _ cs] assms
    by (auto simp: ids_forward_def item_ids_def todo_inv_def)
next
  case (changed xs)
  have "set (map item_id xs) = set (map item_id (store_items s))" using changed(1) by simp
  then show ?thesis unfolding changed(4) by (auto simp: ids_forward_def item_ids_def)
next
  case (dropped xs)
  then show ?thesis using subseq_set_mono[OF dropped(1)] by (auto simp: ids_forward_def item_ids_def)
qed (simp add: ids_forward_def)

definition todo_step :: "write_env \<times> jdict \<Rightarrow> todo_store \<Rightarrow> todo_store" where
  "todo_step op s = snd (todo_execute (fst op) (snd op) s)"

interpretation todo: mono_system todo_step todo_inv ids_forward
proof
  fix s t u op
  show "ids_forward s t \<Longrightarrow> ids_forward t u \<Longrightarrow> ids_forward s u"
    by (fastforce simp: ids_forward_def)
qed (simp_all add: todo_step_def todo_inv_execute ids_forward_execute, simp add: ids_forward_def)

section \<open>Reconnecting\<close>

definition mirrored :: "todo_store \<Rightarrow> bool" where
  \<comment> \<open>the mirror file, when there is one, holds the store\<close>
  "mirrored s \<longleftrightarrow> mirror_enabled s \<and>
     (case mirror_file s of
        None \<Rightarrow> store_items s = [] \<and> next_n s = 1
      | Some f \<Rightarrow> \<exists>now. f = JObj (mirror_payload now s))"

lemma mirrored_after_write: "mirror_enabled s \<Longrightarrow> mirrored (mirror_to_disk (now, None) s)"
  by (auto simp: mirrored_def mirror_to_disk_def mirror_payload_def todo_snapshot_def)

lemma mirrored_step:
  assumes "todo_inv s" and "mirrored s"
  shows "mirrored (todo_step ((now, None), args) s)"
proof -
  have "mirror_enabled s" using assms(2) by (simp add: mirrored_def)
  from assms(1) show ?thesis
    by (cases rule: todo_execute_effect[of s "(now, None)" args])
      (use assms(2) \<open>mirror_enabled s\<close> in \<open>simp_all add: todo_step_def mirrored_after_write\<close>)
qed

lemma mirrored_run:
  assumes "todo_inv s" and "mirrored s" and "list_all (\<lambda>op. snd (fst op) = None) ops"
  shows "mirrored (fold todo_step ops s)"
  using assms
proof (induction ops arbitrary: s)
  case (Cons op ops)
  obtain now args where op: "op = ((now, None), args)"
    using Cons.prems(3) by (cases op; cases "fst op") auto
  have "mirrored (todo_step op s)" unfolding op by (rule mirrored_step[OF Cons.prems(1,2)])
  then show ?case using Cons todo.step_inv[OF Cons.prems(1)] by simp
qed simp

lemma restore_item:
  assumes "py_strip (item_id x) = item_id x" and "item_id x \<noteq> []"
  shows "restore_entry (JObj (item_to_dict x)) = Some x"
  using assms by (cases "item_status x")
    (simp_all add: restore_entry_def item_to_dict_def status_name_def status_of_name_def)

lemma restore_items:
  assumes "list_all (\<lambda>x. py_strip (item_id x) = item_id x \<and> item_id x \<noteq> []) xs"
  shows "List.map_filter restore_entry (map (\<lambda>x. JObj (item_to_dict x)) xs) = xs"
  using assms by (induction xs) (simp_all add: map_filter_simps restore_item)

lemma single_in_progress_id:
  "in_progress_count xs + (if seen then 1 else 0) \<le> 1 \<Longrightarrow> single_in_progress_from seen xs = xs"
  by (induction seen xs rule: single_in_progress_from.induct)
    (auto simp: in_progress_count_def split: if_splits)

lemma single_in_progress_count: "in_progress_count (single_in_progress xs) \<le> 1"
proof -
  have "in_progress_count (single_in_progress_from seen xs) \<le> (if seen then 0 else 1)" for seen
    by (induction seen xs rule: single_in_progress_from.induct) (auto simp: in_progress_count_def)
  from this[of False] show ?thesis by (simp add: single_in_progress_def)
qed

lemma foldl_max_le: "\<forall>x \<in> set xs. f x \<le> (m :: int) \<Longrightarrow> a \<le> m \<Longrightarrow> foldl (\<lambda>m x. max m (f x)) a xs \<le> m"
  by (induction xs arbitrary: a) auto

lemma foldl_max_ge:
  fixes a :: int
  shows "a \<le> foldl (\<lambda>m x. max m (f x)) a xs" and "x \<in> set xs \<Longrightarrow> f x \<le> foldl (\<lambda>m x. max m (f x)) a xs"
proof (induction xs arbitrary: a)
  case (Cons y ys)
  { case 1 show ?case using Cons.IH(1)[of "max a (f y)"] by simp }
  { case 2 then show ?case using Cons.IH(1)[of "max a (f y)"] Cons.IH(2)[of "max a (f y)"] by auto }
qed auto

lemma load_own_mirror:
  assumes "todo_inv s" and "mirror_file t = Some (JObj (mirror_payload now s))"
  shows "load_from_disk t = t\<lparr>store_items := store_items s, next_n := next_n s\<rparr>"
proof -
  let ?xs = "store_items s"
  have "list_all (\<lambda>x. py_strip (item_id x) = item_id x \<and> item_id x \<noteq> []) ?xs"
    using assms(1) by (auto simp: todo_inv_def item_ids_def list.pred_set)
  then have r: "List.map_filter restore_entry (map (\<lambda>x. JObj (item_to_dict x)) ?xs) = ?xs"
    by (rule restore_items)
  have "single_in_progress ?xs = ?xs"
    using assms(1) single_in_progress_id[of ?xs False] by (simp add: todo_inv_def single_in_progress_def)
  moreover have "foldl (\<lambda>m x. max m (item_number (item_id x))) 0 ?xs \<le> next_n s - 1"
    using assms(1) by (intro foldl_max_le) (auto simp: todo_inv_def item_ids_def list.pred_set)
  moreover have "1 \<le> next_n s" using assms(1) by (simp add: todo_inv_def)
  ultimately show ?thesis
    using assms(2) by (simp add: load_from_disk_def mirror_payload_def todo_snapshot_def r
        next_n_from_disk_def Let_def max_absorb1)
qed

text \<open>A hand-edited file cannot make the counter reissue an id, nor leave two items in progress.\<close>

lemma load_any_file:
  assumes "mirror_enabled s" and "store_items s = []" and "next_n s = 1"
  shows "list_all (\<lambda>i. item_number i < next_n (hydrate_from_disk s)) (item_ids (hydrate_from_disk s))
    \<and> in_progress_count (store_items (hydrate_from_disk s)) \<le> 1 \<and> 1 \<le> next_n (hydrate_from_disk s)"
proof -
  have ids: "map item_id (single_in_progress_from seen xs) = map item_id xs" for seen xs
    by (induction seen xs rule: single_in_progress_from.induct) auto
  have "next_n_from_disk raw (foldl (\<lambda>m x. max m (item_number (item_id x))) 0 xs) > item_number (item_id x)"
    if "x \<in> set xs" for raw xs x
    using foldl_max_ge(2)[of x xs "\<lambda>x. item_number (item_id x)" 0] that
    by (simp add: next_n_from_disk_def Let_def less_max_iff_disj)
  moreover have "next_n_from_disk raw (foldl (\<lambda>m x. max m (item_number (item_id x))) 0 xs) \<ge> 1" for raw xs
    using foldl_max_ge(1)[of 0 "\<lambda>x. item_number (item_id x)" xs]
    by (simp add: next_n_from_disk_def Let_def le_max_iff_disj)
  ultimately show ?thesis
    using assms single_in_progress_count
    by (auto simp: hydrate_from_disk_def load_from_disk_def item_ids_def single_in_progress_def Let_def
        in_progress_count_def[of "[]"] ids list.pred_map comp_def list.pred_set
        split: option.splits json.splits simp flip: set_map) auto
qed

section \<open>What the todo list guarantees\<close>

text \<open>
  C36: in every state the tool can bring a session's list to, ids are distinct, at most one item is in
  progress, there are at most 50 items with non-empty texts of at most 500 characters; and from that
  state on no id is ever reissued: an id seen later is one of the present ids or carries a number the
  counter had not reached.
\<close>
theorem todo_ids_and_bounds:
  "let s = fold todo_step ops (new_store session inst enabled file); t = fold todo_step ops' s
   in distinct (item_ids s) \<and> in_progress_count (store_items s) \<le> 1
      \<and> length (store_items s) \<le> 50
      \<and> list_all (\<lambda>x. item_text x \<noteq> [] \<and> length (item_text x) \<le> 500) (store_items s)
      \<and> set (item_ids t) \<subseteq> set (item_ids s) \<union> {i. next_n s \<le> item_number i}
      \<and> set (item_ids s) \<subseteq> {i. item_number i < next_n s}"
proof -
  let ?s = "fold todo_step ops (new_store session inst enabled file)"
  have inv: "todo_inv ?s" by (rule todo.run_inv[OF todo_inv_new])
  then have "ids_forward ?s (fold todo_step ops' ?s)" by (rule todo.run_ord)
  then show ?thesis using inv
    by (auto simp: Let_def todo_inv_def ids_forward_def max_items_def max_text_chars_def list.pred_set)
qed

text \<open>
  A reconnect loses nothing: after any sequence of tool calls whose mirror writes succeeded, a new
  store for the session that hydrates from the mirror file has the same items, statuses and id counter.
\<close>
theorem todo_reconnect:
  assumes "s = fold todo_step ops (new_store session inst True None)"
    and "list_all (\<lambda>op. snd (fst op) = None) ops"
  shows "hydrate_from_disk (new_store session inst' True (mirror_file s)) =
    (new_store session inst' True (mirror_file s))\<lparr>store_items := store_items s, next_n := next_n s\<rparr>"
proof -
  let ?t = "new_store session inst' True (mirror_file s)"
  have inv: "todo_inv s" unfolding assms(1) by (rule todo.run_inv[OF todo_inv_new])
  have "mirrored (new_store session inst True None)" by (simp add: mirrored_def new_store_def)
  then have m: "mirrored s" unfolding assms(1) by (rule mirrored_run[OF todo_inv_new _ assms(2)])
  show ?thesis
  proof (cases "mirror_file s")
    case None
    then show ?thesis using m by (simp add: mirrored_def hydrate_from_disk_def load_from_disk_def new_store_def)
  next
    case (Some f)
    then obtain now where "f = JObj (mirror_payload now s)" using m by (auto simp: mirrored_def)
    then have "load_from_disk ?t = ?t\<lparr>store_items := store_items s, next_n := next_n s\<rparr>"
      using Some by (intro load_own_mirror[OF inv, of _ now]) (simp add: new_store_def)
    then show ?thesis by (simp add: hydrate_from_disk_def new_store_def)
  qed
qed

theorem todo_reconnect_witness:
  "store_items (hydrate_from_disk (new_store ''s'' 2 True (mirror_file (todo_step
      ((''now'', None), [(''action'', JStr ''add''), (''text'', JStr ''a'')]) (new_store ''s'' 1 True None))))) =
    [\<lparr>item_id = ''t1'', item_text = ''a'', item_status = Pending\<rparr>]"
proof -
  let ?ops = "[((''now'', None), [(''action'', JStr ''add''), (''text'', JStr ''a'')])]"
  have "store_items (fold todo_step ?ops (new_store ''s'' 1 True None)) =
      [\<lparr>item_id = ''t1'', item_text = ''a'', item_status = Pending\<rparr>]"
    by code_simp
  then show ?thesis
    using todo_reconnect[of "fold todo_step ?ops (new_store ''s'' 1 True None)" ?ops "''s''" 1 2] by simp
qed

text \<open>
  Adding is atomic: a batch is either rejected with the store as it was, or every text is appended,
  trimmed, pending and in order, under consecutive new ids.
\<close>
theorem todo_add_atomic:
  "case add_many env texts s of
     (Inl e, s') \<Rightarrow> s' = s
   | (Inr added, s') \<Rightarrow> store_items s' = store_items s @ added
       \<and> added = issued (next_n s) (map py_strip texts)
       \<and> next_n s' = next_n s + int (length texts)"
  using clean_batch_ok[of texts]
  by (auto simp: add_many_def fold_issue_item split: sum.splits prod.splits)

section \<open>The reminder fires once\<close>

definition reminder_inv :: "reminder \<Rightarrow> bool" where
  "reminder_inv r \<longleftrightarrow> 1 \<le> stale_after r \<and> 1 \<le> thread_cap r \<and> dict_ok (reminder_counts r)
     \<and> length (reminder_counts r) \<le> thread_cap r"

lemma reminder_inv_new: "reminder_inv (new_reminder stale cap)"
  by (simp add: reminder_inv_def new_reminder_def)

lemma bump_get:
  assumes "reminder_inv r"
  shows "dict_get (reminder_counts (snd (bump key r))) key = Some (fst (bump key r))"
    and "fst (bump key r) = (case dict_get (reminder_counts r) key of None \<Rightarrow> 0 | Some k \<Rightarrow> k) + 1"
    and "reminder_inv (snd (bump key r))"
    and "stale_after (snd (bump key r)) = stale_after r"
proof -
  define n where "n = (case dict_get (reminder_counts r) key of None \<Rightarrow> 0 | Some k \<Rightarrow> k) + 1"
  let ?d = "AList.update key n (reminder_counts r)"
  have d: "move_to_end key ?d = AList.delete key ?d @ [(key, n)]" by (simp add: move_to_end_def)
  have b: "bump key r = (n, r\<lparr>reminder_counts := trim_oldest (thread_cap r) (move_to_end key ?d)\<rparr>)"
    by (simp add: bump_def n_def Let_def)
  obtain ys where ys: "trim_oldest (thread_cap r) (move_to_end key ?d) = ys @ [(key, n)]"
      "set ys \<subseteq> set (AList.delete key ?d)"
    using trim_oldest_snoc[of "thread_cap r" "AList.delete key ?d" "(key, n)"] assms unfolding d
    by (auto simp: reminder_inv_def)
  have "key \<notin> fst ` set ys" using ys(2) delete_notin_dom[of key ?d] by auto
  then have "dict_get ys key = None" by (simp add: map_of_eq_None_iff)
  then show "dict_get (reminder_counts (snd (bump key r))) key = Some (fst (bump key r))"
    by (simp add: b ys(1) map_add_def)
  show "reminder_inv (snd (bump key r))" using assms by (simp add: reminder_inv_def b)
qed (simp_all add: bump_def Let_def)

lemma reminder_inv_step:
  assumes "reminder_inv r"
  shows "reminder_inv (snd (on_pre_tool thread tool store inject r))"
proof (cases store)
  case (Some s)
  have "reminder_inv (r\<lparr>reminder_counts := AList.delete key (reminder_counts r)\<rparr>)" for key
    using assms length_delete_le[of key "reminder_counts r"] by (auto simp: reminder_inv_def)
  then show ?thesis
    using Some bump_get(3)[OF assms] by (auto simp: on_pre_tool_def Let_def split: prod.splits) (metis snd_conv)+
qed (simp add: on_pre_tool_def assms)

interpretation reminder: inv_system "\<lambda>(thread, tool, store, inject) r. snd (on_pre_tool thread tool store inject r)"
  reminder_inv
  by unfold_locales (auto simp: reminder_inv_step)

text \<open>
  On a thread whose list has open items, a stretch of calls to other tools injects the reminder
  exactly once, at the \<open>stale_after\<close>-th call, and the table of counters stays within its cap.
\<close>
theorem reminder_once:
  assumes "reminder_inv r" and "dict_get (reminder_counts r) (thread, store_instance s) = None"
    and "has_open_items s" and "tool \<noteq> ''todo_list''"
    and "r' = ((\<lambda>r. snd (on_pre_tool thread tool (Some s) [] r)) ^^ k) r"
  shows "fst (on_pre_tool thread tool (Some s) [] r') =
      (if int (Suc k) = stale_after r then reminder_note (stale_after r) else [])
    \<and> length (reminder_counts r') \<le> thread_cap r'"
proof -
  let ?key = "(thread, store_instance s)"
  have step: "snd (on_pre_tool thread tool (Some s) [] q) = snd (bump ?key q)"
    "fst (on_pre_tool thread tool (Some s) [] q) =
      (if fst (bump ?key q) = stale_after (snd (bump ?key q)) then reminder_note (fst (bump ?key q)) else [])" for q
    using assms(3,4) by (auto simp: on_pre_tool_def Let_def split: prod.splits)
  have "reminder_inv r' \<and> stale_after r' = stale_after r
      \<and> dict_get (reminder_counts r') ?key = (if k = 0 then None else Some (int k))"
    unfolding assms(5)
  proof (induction k)
    case (Suc k)
    let ?q = "((\<lambda>r. snd (on_pre_tool thread tool (Some s) [] r)) ^^ k) r"
    have inv: "reminder_inv ?q" using Suc.IH by simp
    show ?case using Suc.IH bump_get[OF inv, of ?key] by (simp add: step(1))
  qed (use assms(1,2) in simp)
  then have q: "reminder_inv r'" "stale_after r' = stale_after r"
      "dict_get (reminder_counts r') ?key = (if k = 0 then None else Some (int k))" by auto
  then have "fst (bump ?key r') = int (Suc k)" using bump_get(2)[OF q(1), of ?key] by simp
  then show ?thesis using q bump_get(4)[OF q(1), of ?key] by (auto simp: step(2) reminder_inv_def)
qed

theorem reminder_once_witness:
  "fst (on_pre_tool ''th'' ''ls''
      (Some (todo_step ((''now'', None), [(''action'', JStr ''add''), (''text'', JStr ''a'')])
        (new_store ''s'' 1 True None))) []
      (new_reminder 1 4)) = reminder_note 1"
proof -
  let ?s = "todo_step ((''now'', None), [(''action'', JStr ''add''), (''text'', JStr ''a'')]) (new_store ''s'' 1 True None)"
  have "has_open_items ?s" by code_simp
  then show ?thesis
    using reminder_once[OF reminder_inv_new[of 1 4], of "''th''" ?s "''ls''" "new_reminder 1 4" 0]
    by (simp add: new_reminder_def)
qed

end
