(* ===== verification/Leases.thy ===== *)
theory Leases
  imports Prelude
begin

text \<open>
  The contract of an exclusive claim with a time limit, as the session turn locks and the
  scheduled-loop claims promise it: a claim is taken only when there is none or it has gone stale,
  an acquisition never disturbs a claim that is still fresh, and only its owner releases it. The
  locale derives mutual exclusion for every interleaving of acquisitions and releases. The two
  stores interpret it in their own theories.
\<close>

datatype ('k, 'w) lease_op = Acquire int 'k 'w | Release int 'k 'w

locale lease_store =
  fixes holder :: "'st \<Rightarrow> 'k \<Rightarrow> 'w option"
    and since :: "'st \<Rightarrow> 'k \<Rightarrow> int"
    and ttl :: int
    and acquire :: "int \<Rightarrow> 'k \<Rightarrow> 'w \<Rightarrow> 'st \<Rightarrow> bool \<times> 'st"
    and release :: "int \<Rightarrow> 'k \<Rightarrow> 'w \<Rightarrow> 'st \<Rightarrow> 'st"
  assumes acquired:
      "acquire now k w st = (True, st') \<Longrightarrow>
        (holder st k = None \<or> since st k < now - ttl) \<and> holder st' k = Some w \<and> since st' k = now"
    and acquire_keeps:
      "acquire now k w st = (b, st') \<Longrightarrow> holder st j = Some v \<Longrightarrow> now - ttl \<le> since st j \<Longrightarrow>
        holder st' j = Some v \<and> since st' j = since st j"
    and release_keeps:
      "holder st j = Some v \<Longrightarrow> j \<noteq> k \<or> v \<noteq> w \<Longrightarrow>
        holder (release now k w st) j = Some v \<and> since (release now k w st) j = since st j"
    and released: "holder (release now k w st) k \<noteq> Some w"
begin

fun lease_step :: "('k, 'w) lease_op \<Rightarrow> 'st \<Rightarrow> 'st" where
  "lease_step (Acquire now k w) st = snd (acquire now k w st)"
| "lease_step (Release now k w) st = release now k w st"

definition op_harmless :: "'k \<Rightarrow> 'w \<Rightarrow> int \<Rightarrow> ('k, 'w) lease_op \<Rightarrow> bool" where
  \<comment> \<open>an acquisition within the time limit of a claim made at \<open>t\<close>, or somebody else's release\<close>
  "op_harmless k w t a = (case a of
       Acquire now j v \<Rightarrow> now - ttl \<le> t
     | Release now j v \<Rightarrow> j \<noteq> k \<or> v \<noteq> w)"

lemma step_keeps:
  assumes "holder st k = Some w" and "since st k = t" and "op_harmless k w t a"
  shows "holder (lease_step a st) k = Some w \<and> since (lease_step a st) k = t"
proof (cases a)
  case (Acquire now j v)
  then show ?thesis
    using assms acquire_keeps[of now j v st "fst (acquire now j v st)" "snd (acquire now j v st)" k w]
    by (simp add: op_harmless_def)
next
  case (Release now j v)
  then show ?thesis using assms release_keeps[of st k w j v now] by (auto simp: op_harmless_def)
qed

lemma run_keeps:
  assumes "holder st k = Some w" and "since st k = t" and "list_all (op_harmless k w t) ops"
  shows "holder (fold lease_step ops st) k = Some w \<and> since (fold lease_step ops st) k = t"
  using assms
proof (induction ops arbitrary: st)
  case (Cons a ops)
  then show ?case using step_keeps[of st k w t a] by simp
qed simp

lemma held_excludes:
  "holder st k = Some w \<Longrightarrow> now - ttl \<le> since st k \<Longrightarrow> \<not> fst (acquire now k v st)"
  using acquired[of now k v st "snd (acquire now k v st)"] by (cases "acquire now k v st") auto

text \<open>
  Mutual exclusion: after \<open>w\<close> acquired \<open>k\<close>, whatever others do, no acquisition of \<open>k\<close> succeeds
  within the time limit until \<open>w\<close> releases it.
\<close>

lemma exclusive:
  assumes "acquire t k w st = (True, st')" and "list_all (op_harmless k w t) ops" and "now - ttl \<le> t"
  shows "holder (fold lease_step ops st') k = Some w \<and> \<not> fst (acquire now k v (fold lease_step ops st'))"
proof -
  have "holder st' k = Some w" "since st' k = t" using acquired[OF assms(1)] by auto
  from run_keeps[OF this assms(2)] show ?thesis using held_excludes[of _ k w now v] assms(3) by simp
qed

end

end
