(* ===== verification/Turn_Locks.thy ===== *)
theory Turn_Locks
  imports Leases
begin

text \<open>
  \<open>core/persistence/session_turn_locks.py\<close>: one durable lock per session, so that two gateway
  replicas never run a turn of one session at the same time. The table \<open>session_turn_locks\<close> is a
  dictionary from session id to its row; each method runs under the connection lock, so it is one
  step. Wall-clock reads are arguments.
\<close>

section \<open>The store\<close>

record lock_row =
  lock_request_id :: "string option"
  lock_claimed_at_ms :: "int option"

type_synonym lock_table = "(string, lock_row) dict"

definition default_stale_ms :: int where
  "default_stale_ms = 600000"

definition session_turn_stale_ms :: "string \<Rightarrow> int" where
  \<comment> \<open>the argument is the environment variable, empty when unset\<close>
  "session_turn_stale_ms raw =
     (if py_strip raw = [] then default_stale_ms
      else (case py_int (py_strip raw) of Some i \<Rightarrow> max 1 i | None \<Rightarrow> default_stale_ms))"

definition lock_stale :: "int \<Rightarrow> lock_row \<Rightarrow> bool" where
  \<comment> \<open>the \<open>WHERE\<close> clause of the stale release\<close>
  "lock_stale cutoff r \<longleftrightarrow> lock_request_id r \<noteq> None
     \<and> (case lock_claimed_at_ms r of None \<Rightarrow> False | Some c \<Rightarrow> c < cutoff)"

definition free_row :: lock_row where
  "free_row = \<lparr>lock_request_id = None, lock_claimed_at_ms = None\<rparr>"

definition release_stale_locks :: "int \<Rightarrow> int \<Rightarrow> lock_table \<Rightarrow> nat \<times> lock_table" where
  "release_stale_locks stale_after now t =
     (let cutoff = now - stale_after
      in (length (filter (\<lambda>(s, r). lock_stale cutoff r) t),
          map (\<lambda>(s, r). (s, if lock_stale cutoff r then free_row else r)) t))"

definition try_acquire :: "int \<Rightarrow> int \<Rightarrow> string \<Rightarrow> string \<Rightarrow> lock_table \<Rightarrow> bool \<times> lock_table" where
  \<comment> \<open>\<open>stale_after\<close> is \<open>session_turn_stale_ms()\<close>\<close>
  "try_acquire stale_after now session request t0 =
     (let t = snd (release_stale_locks stale_after now t0);
          claimed = \<lparr>lock_request_id = Some request, lock_claimed_at_ms = Some now\<rparr>
      in (case dict_get t session of
            Some r \<Rightarrow>
              if lock_request_id r = None then (True, dict_set session claimed t)
              else (False, t)
          | None \<Rightarrow> (True, dict_set session claimed t)))"

definition release_lock :: "string \<Rightarrow> string \<Rightarrow> lock_table \<Rightarrow> lock_table" where
  "release_lock session request t =
     (case dict_get t session of
        Some r \<Rightarrow> if lock_request_id r = Some request then dict_set session free_row t else t
      | None \<Rightarrow> t)"

definition is_busy :: "string \<Rightarrow> lock_table \<Rightarrow> bool" where
  "is_busy session t \<longleftrightarrow>
     (case dict_get t session of None \<Rightarrow> False | Some r \<Rightarrow> lock_request_id r \<noteq> None)"

section \<open>The lease contract\<close>

definition lock_holder :: "lock_table \<Rightarrow> string \<Rightarrow> string option" where
  "lock_holder t s = (case dict_get t s of None \<Rightarrow> None | Some r \<Rightarrow> lock_request_id r)"

definition lock_since :: "lock_table \<Rightarrow> string \<Rightarrow> int" where
  "lock_since t s = (case dict_get t s of
       None \<Rightarrow> 0
     | Some r \<Rightarrow> (case lock_claimed_at_ms r of None \<Rightarrow> 0 | Some c \<Rightarrow> c))"

lemma stale_lock_get:
  "dict_get (snd (release_stale_locks ttl now t)) s =
    map_option (\<lambda>r. if lock_stale (now - ttl) r then free_row else r) (dict_get t s)"
  by (simp add: release_stale_locks_def Let_def dict_get_map_values)

lemma fresh_lock_survives:
  assumes "lock_holder t s = Some v" and "now - ttl \<le> lock_since t s"
  shows "dict_get (snd (release_stale_locks ttl now t)) s = dict_get t s"
  using assms by (auto simp: stale_lock_get lock_holder_def lock_since_def lock_stale_def split: option.splits)

interpretation turn_lock: lease_store lock_holder lock_since ttl "try_acquire ttl" "\<lambda>now. release_lock"
  for ttl
proof
  fix now k w st st' b j v
  show "try_acquire ttl now k w st = (True, st') \<Longrightarrow>
      (lock_holder st k = None \<or> lock_since st k < now - ttl) \<and> lock_holder st' k = Some w \<and> lock_since st' k = now"
    by (auto simp: try_acquire_def Let_def stale_lock_get lock_holder_def lock_since_def lock_stale_def free_row_def
        split: option.splits if_splits)
  show "try_acquire ttl now k w st = (b, st') \<Longrightarrow> lock_holder st j = Some v \<Longrightarrow> now - ttl \<le> lock_since st j \<Longrightarrow>
      lock_holder st' j = Some v \<and> lock_since st' j = lock_since st j"
    using fresh_lock_survives[of st j v now ttl]
    by (auto simp: try_acquire_def Let_def lock_holder_def lock_since_def split: option.splits if_splits)
qed (auto simp: release_lock_def lock_holder_def lock_since_def free_row_def split: option.splits if_splits)

fun lock_step :: "int \<Rightarrow> (string, string) lease_op \<Rightarrow> lock_table \<Rightarrow> lock_table" where
  "lock_step ttl (Acquire now session request) t = snd (try_acquire ttl now session request t)"
| "lock_step ttl (Release now session request) t = release_lock session request t"

fun others_op :: "int \<Rightarrow> string \<Rightarrow> string \<Rightarrow> int \<Rightarrow> (string, string) lease_op \<Rightarrow> bool" where
  \<comment> \<open>what may happen while \<open>request\<close> holds \<open>session\<close> since \<open>t\<close>: any attempt to acquire any session
     before the lock goes stale, and any release but its own\<close>
  "others_op ttl session request t (Acquire now s r) = (now - ttl \<le> t)"
| "others_op ttl session request t (Release now s r) = (s \<noteq> session \<or> r \<noteq> request)"

lemma lock_step_eq: "lock_step ttl = turn_lock.lease_step ttl"
proof
  fix a show "lock_step ttl a = turn_lock.lease_step ttl a" by (cases a) (auto simp: fun_eq_iff)
qed

lemma is_busy_iff: "is_busy s t \<longleftrightarrow> lock_holder t s \<noteq> None"
  by (simp add: is_busy_def lock_holder_def split: option.splits)

lemma others_op_eq: "others_op ttl s r t = turn_lock.op_harmless ttl s r t"
  unfolding fun_eq_iff turn_lock.op_harmless_def by (auto split: lease_op.split)

text \<open>
  C4: mutual exclusion of turns. Once a request acquired a session's turn lock, then under any
  interleaving of attempts to acquire and of releases by others, before the lock goes stale, the session
  is busy and every other attempt to acquire it fails.
\<close>
theorem turn_lock_exclusive:
  assumes "try_acquire ttl t session request tab = (True, tab')"
    and "list_all (others_op ttl session request t) ops" and "now - ttl \<le> t"
  shows "is_busy session (fold (lock_step ttl) ops tab')
    \<and> \<not> fst (try_acquire ttl now session other (fold (lock_step ttl) ops tab'))"
  using turn_lock.exclusive[OF assms(1) assms(2)[unfolded others_op_eq] assms(3)]
  unfolding lock_step_eq is_busy_iff by simp

theorem turn_lock_exclusive_witness:
  "\<not> fst (try_acquire 600000 5 ''s'' ''r2'' (lock_step 600000 (Release 4 ''s'' ''r2'')
      (snd (try_acquire 600000 1 ''s'' ''r1'' []))))"
proof -
  have "try_acquire 600000 1 ''s'' ''r1'' [] = (True, snd (try_acquire 600000 1 ''s'' ''r1'' []))"
    by (simp add: try_acquire_def release_stale_locks_def)
  from turn_lock_exclusive[OF this, of "[Release 4 ''s'' ''r2'']" 5 "''r2''"] show ?thesis by simp
qed

text \<open>
  A lock whose owner died is not stuck: once it is older than the time limit, the next attempt to
  acquire the session succeeds; and a lock that was released can be taken at once.
\<close>
theorem turn_lock_recovers:
  assumes "lock_holder tab session = None \<or>
    (lock_claimed_at_ms (the (dict_get tab session)) \<noteq> None \<and> lock_since tab session < now - ttl)"
  shows "fst (try_acquire ttl now session request tab)
    \<and> lock_holder (snd (try_acquire ttl now session request tab)) session = Some request"
  using assms
  by (auto simp: try_acquire_def Let_def stale_lock_get lock_holder_def lock_since_def lock_stale_def free_row_def
      split: option.splits)

theorem turn_lock_recovers_witness:
  "fst (try_acquire 600000 600002 ''s'' ''r2'' (snd (try_acquire 600000 1 ''s'' ''r1'' [])))"
  using turn_lock_recovers[of "snd (try_acquire 600000 1 ''s'' ''r1'' [])" "''s''" 600002 600000 "''r2''"]
  by (simp add: try_acquire_def release_stale_locks_def lock_since_def)

end
