(* ===== verification/Scheduled_Loops.thy ===== *)
theory Scheduled_Loops
  imports Leases
begin

text \<open>
  \<open>core/persistence/scheduled_loops.py\<close> and the tick handling of \<open>scheduler/engine.py\<close>: the table
  of scheduled loops and goals, the claims workers take on due ticks, and what the outcome of a tick
  does to its row. The SQL statements are written as functions on the table (a dictionary from loop id
  to row, in insertion order), each method one step under the connection lock; the unique index on
  open goals is the check in \<open>create_loop\<close> and \<open>set_status\<close>. Clock reads and the random part of a new
  id are arguments. Not modelled: the Firestore document mapping, the prompt texts of ticks.
\<close>

section \<open>Rows and their life cycle\<close>

datatype loop_status = Active | Paused | Completed | Failed

datatype loop_kind = KLoop | KGoal

datatype loop_error =
    InvalidKind string
  | InvalidInterval string int
  | MissingObjective
  | MissingGuard
  | LoopExists string
  | OpenGoalExists string
  | IntegrityError

record loop_row =
  lp_loop_id :: string
  lp_session_id :: string
  lp_status :: loop_status
  lp_prompt :: string
  lp_interval_ms :: int
  lp_max_ticks :: "int option"
  lp_max_runtime_ms :: "int option"
  lp_skip_if_busy :: bool
  lp_tick_index :: int
  lp_next_tick_at_ms :: int
  lp_started_at_ms :: int
  lp_last_tick_at_ms :: "int option"
  lp_last_error :: "string option"
  lp_stop_reason :: "string option"
  lp_tick_in_flight :: bool
  lp_worker_id :: "string option"
  lp_claimed_at_ms :: "int option"
  lp_kind :: loop_kind
  lp_objective :: "string option"
  lp_consecutive_error_count :: int

record loop_create =
  cr_prompt :: string
  cr_interval_ms :: int
  cr_session_id :: string
  cr_loop_id :: "string option"
  cr_max_ticks :: "int option"
  cr_max_runtime_ms :: "int option"
  cr_skip_if_busy :: bool
  cr_unbounded :: bool
  cr_kind :: string
  cr_objective :: "string option"

record planned_loop =
  pl_loop_id :: string
  pl_session_id :: string
  pl_prompt :: string
  pl_interval_ms :: int
  pl_max_ticks :: "int option"
  pl_max_runtime_ms :: "int option"
  pl_skip_if_busy :: bool
  pl_next_tick_at_ms :: int
  pl_started_at_ms :: int
  pl_kind :: loop_kind
  pl_objective :: "string option"

record tick_resolution =
  tr_tick_index :: int
  tr_status :: loop_status
  tr_stop_reason :: "string option"
  tr_next_tick_at_ms :: int
  tr_last_error :: "string option"
  tr_consecutive_error_count :: int

definition goal_max_consecutive_errors :: int where
  "goal_max_consecutive_errors = 3"

definition open_status :: "loop_status \<Rightarrow> bool" where
  \<comment> \<open>\<open>OPEN_GOAL_STATUSES\<close>\<close>
  "open_status s \<longleftrightarrow> s = Active \<or> s = Paused"

definition kind_field :: "string \<Rightarrow> loop_error + loop_kind" where
  "kind_field raw =
     (if py_strip raw = [] then Inr KLoop
      else let v = py_lower (py_strip raw)
           in if v = ''loop'' then Inr KLoop
              else if v = ''goal'' then Inr KGoal
              else Inl (InvalidKind raw))"

definition normalize_objective :: "string \<Rightarrow> string" where
  "normalize_objective s = join_on '' '' (py_split s)"

definition require_positive_interval_ms :: "string \<Rightarrow> int \<Rightarrow> loop_error + int" where
  "require_positive_interval_ms loop_id interval =
     (if interval \<le> 0 then Inl (InvalidInterval loop_id interval) else Inr interval)"

definition validate_loop_guards :: "int option \<Rightarrow> int option \<Rightarrow> bool \<Rightarrow> loop_error + unit" where
  "validate_loop_guards max_ticks max_runtime unbounded =
     (if unbounded then Inr ()
      else if max_ticks = None \<and> max_runtime = None then Inl MissingGuard
      else Inr ())"

definition truthy_str :: "string option \<Rightarrow> bool" where
  "truthy_str s \<longleftrightarrow> (case s of None \<Rightarrow> False | Some t \<Rightarrow> t \<noteq> [])"

definition loop_id_from_create :: "string \<Rightarrow> loop_create \<Rightarrow> string" where
  \<comment> \<open>\<open>fresh\<close> is \<open>uuid.uuid4().hex[:12]\<close>\<close>
  "loop_id_from_create fresh spec =
     (case cr_loop_id spec of
        Some i \<Rightarrow> if py_strip i \<noteq> [] then py_strip i else ''loop-'' @ fresh
      | None \<Rightarrow> ''loop-'' @ fresh)"

definition planned_create :: "string \<Rightarrow> loop_create \<Rightarrow> int \<Rightarrow> loop_error + planned_loop" where
  "planned_create fresh spec now =
     bind_result (kind_field (cr_kind spec)) (\<lambda>kind.
     bind_result (require_positive_interval_ms ''new'' (cr_interval_ms spec)) (\<lambda>interval.
     let session = (if py_strip (cr_session_id spec) \<noteq> [] then py_strip (cr_session_id spec) else ''loop-main'');
         base = \<lparr>pl_loop_id = loop_id_from_create fresh spec, pl_session_id = session,
                 pl_prompt = py_strip (cr_prompt spec), pl_interval_ms = interval,
                 pl_max_ticks = None, pl_max_runtime_ms = None, pl_skip_if_busy = cr_skip_if_busy spec,
                 pl_next_tick_at_ms = now + interval, pl_started_at_ms = now, pl_kind = kind,
                 pl_objective = None\<rparr>
     in if kind = KGoal then
          (let objective = py_strip (if truthy_str (cr_objective spec) then the (cr_objective spec)
                                     else cr_prompt spec)
           in if objective = [] then Inl MissingObjective
              else Inr (base\<lparr>pl_prompt := (if py_strip (cr_prompt spec) \<noteq> [] then py_strip (cr_prompt spec)
                                           else objective),
                              pl_objective := Some objective\<rparr>))
        else
          bind_result (validate_loop_guards (cr_max_ticks spec) (cr_max_runtime_ms spec) (cr_unbounded spec))
            (\<lambda>_. Inr (base\<lparr>pl_next_tick_at_ms := now, pl_max_ticks := cr_max_ticks spec,
                            pl_max_runtime_ms := cr_max_runtime_ms spec\<rparr>))))"

definition resolve_complete_tick :: "loop_row \<Rightarrow> string option \<Rightarrow> int \<Rightarrow> tick_resolution" where
  "resolve_complete_tick row error now =
     (let tick_index = lp_tick_index row + 1
      in if truthy_str error then
           (let error_count = lp_consecutive_error_count row + 1;
                is_goal = (lp_kind row = KGoal)
            in if is_goal \<and> error_count < goal_max_consecutive_errors then
                 \<lparr>tr_tick_index = tick_index, tr_status = Active, tr_stop_reason = None,
                  tr_next_tick_at_ms = now + lp_interval_ms row, tr_last_error = error,
                  tr_consecutive_error_count = error_count\<rparr>
               else
                 \<lparr>tr_tick_index = tick_index, tr_status = Failed,
                  tr_stop_reason = Some (if is_goal then ''consecutive_tick_errors'' else ''tick_error''),
                  tr_next_tick_at_ms = lp_next_tick_at_ms row, tr_last_error = error,
                  tr_consecutive_error_count = error_count\<rparr>)
         else
           (let (status, stop_reason) =
                  (if (case lp_max_ticks row of None \<Rightarrow> False | Some m \<Rightarrow> tick_index \<ge> m)
                   then (Completed, Some ''max_ticks'')
                   else if (case lp_max_runtime_ms row of None \<Rightarrow> False
                            | Some m \<Rightarrow> now - lp_started_at_ms row \<ge> m)
                   then (Completed, Some ''max_runtime'')
                   else (lp_status row, None))
            in \<lparr>tr_tick_index = tick_index, tr_status = status, tr_stop_reason = stop_reason,
                tr_next_tick_at_ms = (if status = Active then now + lp_interval_ms row
                                      else lp_next_tick_at_ms row),
                tr_last_error = None, tr_consecutive_error_count = 0\<rparr>))"

section \<open>The store\<close>

type_synonym loop_table = "(string, loop_row) dict"

definition row_ok :: "loop_row \<Rightarrow> bool" where
  \<comment> \<open>what \<open>_row_from_tuple\<close> checks; malformed rows are skipped by every read\<close>
  "row_ok r \<longleftrightarrow> 0 < lp_interval_ms r"

definition get_loop :: "string \<Rightarrow> loop_table \<Rightarrow> loop_row option" where
  "get_loop i t = (case dict_get t i of Some r \<Rightarrow> if row_ok r then Some r else None | None \<Rightarrow> None)"

definition map_loop_rows :: "loop_row list \<Rightarrow> loop_row list" where
  "map_loop_rows rs = filter row_ok rs"

definition list_all_loops :: "loop_table \<Rightarrow> loop_row list" where
  "list_all_loops t = map_loop_rows (sort_key (\<lambda>r. - lp_started_at_ms r) (map snd t))"

definition list_kind :: "loop_kind \<Rightarrow> loop_table \<Rightarrow> loop_row list" where
  "list_kind k t =
     map_loop_rows (sort_key (\<lambda>r. - lp_started_at_ms r) (filter (\<lambda>r. lp_kind r = k) (map snd t)))"

definition find_open :: "string \<Rightarrow> loop_kind \<Rightarrow> loop_status list \<Rightarrow> loop_table \<Rightarrow> loop_row option" where
  "find_open session k statuses t =
     (case sort_key (\<lambda>r. - lp_started_at_ms r)
         (filter (\<lambda>r. lp_kind r = k \<and> lp_session_id r = session \<and> lp_status r \<in> set statuses) (map snd t)) of
        [] \<Rightarrow> None
      | r # _ \<Rightarrow> if row_ok r then Some r else None)"

definition claimable :: "int \<Rightarrow> loop_row \<Rightarrow> bool" where
  "claimable now r \<longleftrightarrow> lp_status r = Active \<and> \<not> lp_tick_in_flight r \<and> lp_next_tick_at_ms r \<le> now"

definition list_due :: "int \<Rightarrow> loop_table \<Rightarrow> loop_row list" where
  "list_due now t = map_loop_rows (sort_key lp_next_tick_at_ms (filter (claimable now) (map snd t)))"

definition open_goal :: "string \<Rightarrow> loop_row \<Rightarrow> bool" where
  \<comment> \<open>a row of the unique index on open goals\<close>
  "open_goal session r \<longleftrightarrow> lp_kind r = KGoal \<and> open_status (lp_status r) \<and> lp_session_id r = session"

definition create_loop :: "string \<Rightarrow> loop_create \<Rightarrow> int \<Rightarrow> loop_table \<Rightarrow> loop_error + loop_row \<times> loop_table" where
  "create_loop fresh spec now t =
     bind_result (planned_create fresh spec now) (\<lambda>p.
       let row = \<lparr>lp_loop_id = pl_loop_id p, lp_session_id = pl_session_id p, lp_status = Active,
                  lp_prompt = pl_prompt p, lp_interval_ms = pl_interval_ms p,
                  lp_max_ticks = pl_max_ticks p, lp_max_runtime_ms = pl_max_runtime_ms p,
                  lp_skip_if_busy = pl_skip_if_busy p, lp_tick_index = 0,
                  lp_next_tick_at_ms = pl_next_tick_at_ms p, lp_started_at_ms = pl_started_at_ms p,
                  lp_last_tick_at_ms = None, lp_last_error = None, lp_stop_reason = None,
                  lp_tick_in_flight = False, lp_worker_id = None, lp_claimed_at_ms = None,
                  lp_kind = pl_kind p, lp_objective = pl_objective p,
                  lp_consecutive_error_count = 0\<rparr>;
           conflict = (dict_get t (pl_loop_id p) \<noteq> None
             \<or> (pl_kind p = KGoal \<and> list_ex (open_goal (pl_session_id p)) (map snd t)))
       in if conflict then
            (if get_loop (pl_loop_id p) t \<noteq> None then Inl (LoopExists (pl_loop_id p))
             else if pl_kind p = KGoal then Inl (OpenGoalExists (pl_session_id p))
             else Inl IntegrityError)
          else Inr (row, t @ [(pl_loop_id p, row)]))"

definition claim_tick :: "string \<Rightarrow> string \<Rightarrow> int \<Rightarrow> loop_table \<Rightarrow> loop_row option \<times> loop_table" where
  "claim_tick i worker now t =
     (case dict_get t i of
        Some r \<Rightarrow>
          if claimable now r then
            (let t' = dict_set i (r\<lparr>lp_tick_in_flight := True, lp_worker_id := Some worker,
                                   lp_claimed_at_ms := Some now\<rparr>) t
             in (get_loop i t', t'))
          else (None, t)
      | None \<Rightarrow> (None, t))"

definition unclaim :: "loop_row \<Rightarrow> loop_row" where
  "unclaim r = r\<lparr>lp_tick_in_flight := False, lp_worker_id := None, lp_claimed_at_ms := None\<rparr>"

definition claim_stale :: "int \<Rightarrow> loop_row \<Rightarrow> bool" where
  "claim_stale cutoff r \<longleftrightarrow> lp_tick_in_flight r
     \<and> (case lp_claimed_at_ms r of None \<Rightarrow> False | Some c \<Rightarrow> c < cutoff)"

definition release_stale_row :: "loop_row \<Rightarrow> loop_row" where
  \<comment> \<open>the \<open>SET\<close> clause of \<open>release_stale_claims\<close>\<close>
  "release_stale_row r =
     (let goal = (lp_kind r = KGoal);
          spent = (goal \<and> lp_consecutive_error_count r + 1 \<ge> goal_max_consecutive_errors)
      in (unclaim r)\<lparr>
           lp_status := (if spent then Failed else lp_status r),
           lp_stop_reason := (if spent then Some ''consecutive_tick_errors'' else lp_stop_reason r),
           lp_last_error := (if goal then Some ''stale tick claim released''
             else (case lp_last_error r of None \<Rightarrow> Some ''stale tick claim released'' | Some e \<Rightarrow> Some e)),
           lp_consecutive_error_count := (if goal then lp_consecutive_error_count r + 1
             else lp_consecutive_error_count r)\<rparr>)"

definition release_stale_claims :: "int \<Rightarrow> int \<Rightarrow> loop_table \<Rightarrow> nat \<times> loop_table" where
  "release_stale_claims stale_after now t =
     (let cutoff = now - stale_after
      in (length (filter (\<lambda>(i, r). claim_stale cutoff r) t),
          map (\<lambda>(i, r). (i, if claim_stale cutoff r then release_stale_row r else r)) t))"

definition claimed_by :: "string \<Rightarrow> loop_row \<Rightarrow> bool" where
  \<comment> \<open>\<open>worker_id = ? AND tick_in_flight = 1\<close>\<close>
  "claimed_by worker r \<longleftrightarrow> lp_tick_in_flight r \<and> lp_worker_id r = Some worker"

definition renew_tick_claim :: "string \<Rightarrow> string \<Rightarrow> int \<Rightarrow> loop_table \<Rightarrow> bool \<times> loop_table" where
  "renew_tick_claim i worker now t =
     (case dict_get t i of
        Some r \<Rightarrow> if claimed_by worker r then (True, dict_set i (r\<lparr>lp_claimed_at_ms := Some now\<rparr>) t)
                  else (False, t)
      | None \<Rightarrow> (False, t))"

definition finished_row :: "loop_row \<Rightarrow> string option \<Rightarrow> int \<Rightarrow> loop_row" where
  \<comment> \<open>the row \<open>complete_tick\<close> writes back\<close>
  "finished_row row error now =
     (let res = resolve_complete_tick row error now
      in (unclaim row)\<lparr>lp_tick_index := tr_tick_index res, lp_last_tick_at_ms := Some now,
            lp_last_error := tr_last_error res, lp_status := tr_status res,
            lp_stop_reason := tr_stop_reason res,
            lp_next_tick_at_ms := tr_next_tick_at_ms res,
            lp_consecutive_error_count := tr_consecutive_error_count res\<rparr>)"

definition complete_tick ::
    "string \<Rightarrow> string \<Rightarrow> string option \<Rightarrow> int \<Rightarrow> loop_table \<Rightarrow> loop_row option \<times> loop_table" where
  "complete_tick i worker error now t =
     (case get_loop i t of
        None \<Rightarrow> (None, t)
      | Some row \<Rightarrow>
          if \<not> lp_tick_in_flight row \<or> lp_worker_id row \<noteq> Some worker then (None, t)
          else (let t' = dict_set i (finished_row row error now) t in (get_loop i t', t')))"

definition defer_tick :: "string \<Rightarrow> string \<Rightarrow> string \<Rightarrow> int \<Rightarrow> loop_table \<Rightarrow> bool \<times> loop_table" where
  "defer_tick i worker reason now t =
     (case get_loop i t of
        None \<Rightarrow> (False, t)
      | Some row \<Rightarrow>
          if lp_worker_id row \<noteq> Some worker \<or> \<not> lp_tick_in_flight row then (False, t)
          else (True, dict_set i ((unclaim row)\<lparr>lp_next_tick_at_ms := now + lp_interval_ms row,
                  lp_last_error := (if lp_kind row = KGoal then lp_last_error row else Some reason)\<rparr>) t))"

definition set_status :: "string \<Rightarrow> loop_status \<Rightarrow> string option \<Rightarrow> loop_table \<Rightarrow> loop_error + bool \<times> loop_table" where
  "set_status i status stop_reason t =
     (case dict_get t i of
        None \<Rightarrow> Inr (False, t)
      | Some r \<Rightarrow>
          if lp_kind r = KGoal \<and> open_status status
             \<and> list_ex (\<lambda>(j, q). j \<noteq> i \<and> open_goal (lp_session_id r) q) t
          then Inl IntegrityError
          else Inr (True, dict_set i ((unclaim r)\<lparr>lp_status := status,
                  lp_stop_reason := (case stop_reason of None \<Rightarrow> lp_stop_reason r | Some x \<Rightarrow> Some x)\<rparr>) t))"

definition pause_loop :: "string \<Rightarrow> loop_table \<Rightarrow> loop_error + bool \<times> loop_table" where
  "pause_loop i t = set_status i Paused None t"

definition stop_loop :: "string \<Rightarrow> string \<Rightarrow> loop_table \<Rightarrow> loop_error + bool \<times> loop_table" where
  "stop_loop i reason t = set_status i Completed (Some reason) t"

definition resume_loop :: "string \<Rightarrow> int \<Rightarrow> loop_table \<Rightarrow> bool \<times> loop_table" where
  "resume_loop i now t =
     (case get_loop i t of
        None \<Rightarrow> (False, t)
      | Some r \<Rightarrow>
          if lp_status r = Paused
          then (True, dict_set i ((unclaim r)\<lparr>lp_status := Active, lp_stop_reason := None,
                  lp_next_tick_at_ms := now\<rparr>) t)
          else (False, t))"

section \<open>The scheduler\<close>

definition claim_all :: "string \<Rightarrow> int \<Rightarrow> loop_row list \<Rightarrow> loop_table \<Rightarrow> loop_row list \<times> loop_table" where
  \<comment> \<open>the claim loop of one poll\<close>
  "claim_all worker now due t =
     fold (\<lambda>c (claimed, t). case claim_tick (lp_loop_id c) worker now t of
         (Some row, t') \<Rightarrow> (claimed @ [row], t')
       | (None, t') \<Rightarrow> (claimed, t')) due ([], t)"

definition poll :: "string \<Rightarrow> int \<Rightarrow> int \<Rightarrow> loop_table \<Rightarrow> loop_row list \<times> loop_table" where
  \<comment> \<open>one iteration of \<open>run_scheduler_loop\<close> up to the started ticks\<close>
  "poll worker stale_claim now t =
     (let t1 = snd (release_stale_claims stale_claim now t)
      in claim_all worker now (list_due now t1) t1)"

datatype tick_outcome =
    TickOk
  | TickSessionBusy
  | TickError "string option"
  | TickRaised string
  \<comment> \<open>what the invocation of a tick came to; \<open>TickRaised\<close> holds \<open>str(exc)\<close>\<close>

definition start_tick :: "loop_row \<Rightarrow> string \<Rightarrow> bool \<Rightarrow> int \<Rightarrow> loop_table \<Rightarrow> bool \<times> loop_table" where
  \<comment> \<open>the head of \<open>_execute_claimed_tick\<close>: whether the tick goes on to run\<close>
  "start_tick row worker busy now t =
     (if lp_skip_if_busy row \<and> busy
      then (False, snd (defer_tick (lp_loop_id row) worker ''session busy; deferred'' now t))
      else (True, t))"

definition finish_tick :: "loop_row \<Rightarrow> string \<Rightarrow> tick_outcome \<Rightarrow> int \<Rightarrow> loop_table \<Rightarrow> loop_table" where
  \<comment> \<open>the tail of \<open>_execute_claimed_tick\<close>\<close>
  "finish_tick row worker outcome now t = (case outcome of
       TickSessionBusy \<Rightarrow> snd (defer_tick (lp_loop_id row) worker ''session busy; deferred'' now t)
     | TickOk \<Rightarrow> snd (complete_tick (lp_loop_id row) worker None now t)
     | TickError e \<Rightarrow> snd (complete_tick (lp_loop_id row) worker e now t)
     | TickRaised e \<Rightarrow> snd (complete_tick (lp_loop_id row) worker (Some e) now t))"

section \<open>The invariant of the table\<close>

definition loop_row_inv :: "string \<Rightarrow> loop_row \<Rightarrow> bool" where
  "loop_row_inv i r \<longleftrightarrow>
     lp_loop_id r = i \<and> 0 < lp_interval_ms r \<and> 0 \<le> lp_tick_index r \<and> 0 \<le> lp_consecutive_error_count r
     \<and> (lp_tick_in_flight r \<longleftrightarrow> lp_worker_id r \<noteq> None) \<and> (lp_tick_in_flight r \<longleftrightarrow> lp_claimed_at_ms r \<noteq> None)
     \<and> (lp_tick_in_flight r \<longrightarrow> lp_status r = Active)
     \<and> (lp_kind r = KGoal \<longrightarrow> lp_max_ticks r = None \<and> lp_max_runtime_ms r = None \<and> lp_objective r \<noteq> None)"

definition loops_inv :: "loop_table \<Rightarrow> bool" where
  "loops_inv t \<longleftrightarrow> dict_ok t \<and> (\<forall>i r. dict_get t i = Some r \<longrightarrow> loop_row_inv i r)
     \<and> (\<forall>i r j q. dict_get t i = Some r \<and> dict_get t j = Some q \<and> open_goal (lp_session_id r) r
          \<and> open_goal (lp_session_id r) q \<longrightarrow> i = j)"

lemma loops_invD:
  assumes "loops_inv t"
  shows "dict_ok t" and "dict_get t i = Some r \<Longrightarrow> loop_row_inv i r"
    and "dict_get t i = Some r \<Longrightarrow> dict_get t j = Some q \<Longrightarrow> open_goal (lp_session_id r) r \<Longrightarrow>
      open_goal (lp_session_id r) q \<Longrightarrow> i = j"
  using assms unfolding loops_inv_def by blast+

lemma loops_invI:
  assumes "dict_ok t" and "\<And>i r. dict_get t i = Some r \<Longrightarrow> loop_row_inv i r"
    and "\<And>i r j q. dict_get t i = Some r \<Longrightarrow> dict_get t j = Some q \<Longrightarrow> open_goal (lp_session_id r) r \<Longrightarrow>
      open_goal (lp_session_id r) q \<Longrightarrow> i = j"
  shows "loops_inv t"
  using assms unfolding loops_inv_def by blast

text \<open>
  Rewriting rows keeps the invariant when each row keeps its own and no goal is opened.
\<close>

lemma loops_inv_update:
  assumes "loops_inv t" and "dict_get t i = Some r" and "loop_row_inv i r'"
    and "lp_session_id r' = lp_session_id r" and "lp_kind r' = lp_kind r"
    and "open_goal (lp_session_id r) r' \<Longrightarrow> \<not> open_goal (lp_session_id r) r \<Longrightarrow>
      (\<And>j q. dict_get t j = Some q \<Longrightarrow> j \<noteq> i \<Longrightarrow> \<not> open_goal (lp_session_id r) q)"
  shows "loops_inv (dict_set i r' t)"
proof -
  note inv = loops_invD[OF assms(1)]
  have one: "\<not> open_goal (lp_session_id r) q"
    if "open_goal (lp_session_id r) r'" "dict_get t j = Some q" "j \<noteq> i" for j q
    using that assms(6) inv(3)[OF assms(2) that(2)] by blast
  show ?thesis
  proof (rule loops_invI)
    show "dict_ok (dict_set i r' t)" using inv(1) by simp
    show "loop_row_inv a x" if "dict_get (dict_set i r' t) a = Some x" for a x
      using that assms(3) inv(2)[of a x] by (cases "a = i") auto
    show "a = b"
      if "dict_get (dict_set i r' t) a = Some x" "dict_get (dict_set i r' t) b = Some y"
        "open_goal (lp_session_id x) x" "open_goal (lp_session_id x) y" for a x b y
      using that one[of b y] one[of a x] inv(3)[of a x b y] assms(4)
      by (cases "a = i"; cases "b = i") (auto simp: open_goal_def)
  qed
qed

lemma loops_inv_map:
  assumes "loops_inv t"
    and "\<And>i r. dict_get t i = Some r \<Longrightarrow> loop_row_inv i (f r)"
    and "\<And>i r. dict_get t i = Some r \<Longrightarrow> lp_session_id (f r) = lp_session_id r \<and> lp_kind (f r) = lp_kind r
      \<and> (open_status (lp_status (f r)) \<longrightarrow> open_status (lp_status r))"
  shows "loops_inv (map (\<lambda>(i, r). (i, f r)) t)"
proof -
  note inv = loops_invD[OF assms(1)]
  show ?thesis
  proof (rule loops_invI)
    fix a x b y
    assume "dict_get (map (\<lambda>(i, r). (i, f r)) t) a = Some x" "dict_get (map (\<lambda>(i, r). (i, f r)) t) b = Some y"
      and goals: "open_goal (lp_session_id x) x" "open_goal (lp_session_id x) y"
    then obtain x' y' where "dict_get t a = Some x'" "x = f x'" "dict_get t b = Some y'" "y = f y'"
      by (auto simp: dict_get_map_values)
    then show "a = b" using goals inv(3)[of a x' b y'] assms(3)[of a x'] assms(3)[of b y']
      by (auto simp: open_goal_def)
  qed (use inv(1) assms(2) in \<open>auto simp: dict_get_map_values\<close>)
qed

lemma planned_create_props:
  assumes "planned_create fresh spec now = Inr p"
  shows "0 < pl_interval_ms p"
    and "pl_kind p = KGoal \<Longrightarrow> pl_max_ticks p = None \<and> pl_max_runtime_ms p = None \<and> pl_objective p \<noteq> None"
  using assms
  by (auto simp: planned_create_def require_positive_interval_ms_def Let_def split: if_splits)

lemma loops_inv_create [inv_intros]:
  assumes "loops_inv t" and "create_loop fresh spec now t = Inr (row, t')"
  shows "loops_inv t'"
proof -
  note inv = loops_invD[OF assms(1)]
  obtain p where p: "planned_create fresh spec now = Inr p" "dict_get t (pl_loop_id p) = None"
    "pl_kind p = KGoal \<Longrightarrow> \<not> list_ex (open_goal (pl_session_id p)) (map snd t)"
    "t' = t @ [(pl_loop_id p, row)]" "lp_kind row = pl_kind p" "lp_session_id row = pl_session_id p"
    "loop_row_inv (pl_loop_id p) row"
    using assms(2) planned_create_props
    by (auto simp: create_loop_def Let_def loop_row_inv_def split: if_splits)
  have noother: "\<not> open_goal (lp_session_id row) q" if "dict_get t j = Some q" "open_goal (lp_session_id row) row" for j q
    using that p(3,5,6) map_of_SomeD[of t j q] by (force simp: list_ex_iff open_goal_def)
  show ?thesis
  proof (rule loops_invI)
    show "dict_ok t'" unfolding p(4) by (rule dict_ok_append[OF inv(1) p(2)])
    have split: "dict_get t' a = Some x \<longleftrightarrow> (if a = pl_loop_id p then x = row else dict_get t a = Some x)" for a x
      using p(2) by (auto simp: p(4) map_add_def split: option.splits)
    show "loop_row_inv a x" if "dict_get t' a = Some x" for a x
      using that inv(2)[of a x] p(7) unfolding split by (simp split: if_splits)
    show "a = b"
      if "dict_get t' a = Some x" "dict_get t' b = Some y" "open_goal (lp_session_id x) x" "open_goal (lp_session_id x) y"
      for a x b y
      using that noother[of a x] noother[of b y] inv(3)[of a x b y] unfolding split
      by (auto simp: open_goal_def split: if_splits)
  qed
qed

lemma loop_row_inv_unclaim: "loop_row_inv i r \<Longrightarrow> loop_row_inv i (unclaim r)"
  by (simp add: loop_row_inv_def unclaim_def)

lemma get_loop_SomeD: "get_loop i t = Some r \<Longrightarrow> dict_get t i = Some r \<and> row_ok r"
  by (auto simp: get_loop_def split: option.splits if_splits)

lemma loops_inv_claim [inv_intros]:
  assumes "loops_inv t"
  shows "loops_inv (snd (claim_tick i worker now t))"
proof (cases "dict_get t i")
  case (Some r)
  then show ?thesis using assms loops_invD(2)[OF assms Some]
    by (auto simp: claim_tick_def claimable_def Let_def loop_row_inv_def open_goal_def intro!: loops_inv_update)
qed (simp add: claim_tick_def assms)

lemma loops_inv_stale [inv_intros]:
  assumes "loops_inv t"
  shows "loops_inv (snd (release_stale_claims stale_after now t))"
  unfolding release_stale_claims_def Let_def snd_conv
proof (rule loops_inv_map[OF assms])
  fix i r assume "dict_get t i = Some r"
  then have "loop_row_inv i r" by (rule loops_invD(2)[OF assms])
  then show "loop_row_inv i (if claim_stale (now - stale_after) r then release_stale_row r else r)"
    by (cases "claim_stale (now - stale_after) r")
      (auto simp: loop_row_inv_def release_stale_row_def unclaim_def Let_def)
qed (auto simp: release_stale_row_def unclaim_def open_status_def Let_def)

lemma loops_inv_renew [inv_intros]:
  assumes "loops_inv t"
  shows "loops_inv (snd (renew_tick_claim i worker now t))"
proof (cases "dict_get t i")
  case (Some r)
  then show ?thesis using assms loops_invD(2)[OF assms Some]
    by (auto simp: renew_tick_claim_def claimed_by_def loop_row_inv_def open_goal_def intro!: loops_inv_update)
qed (simp add: renew_tick_claim_def assms)

lemma loops_inv_complete [inv_intros]:
  assumes "loops_inv t"
  shows "loops_inv (snd (complete_tick i worker error now t))"
proof (cases "get_loop i t")
  case (Some r)
  note r = get_loop_SomeD[OF Some, THEN conjunct1]
  note inv = loops_invD(2)[OF assms r]
  show ?thesis
  proof (cases "lp_tick_in_flight r \<and> lp_worker_id r = Some worker")
    case True
    then have "open_goal (lp_session_id r) r \<or> lp_kind r = KLoop"
      using inv by (cases "lp_kind r") (auto simp: loop_row_inv_def open_goal_def open_status_def)
    moreover have "0 \<le> tr_tick_index (resolve_complete_tick r error now)"
        "0 \<le> tr_consecutive_error_count (resolve_complete_tick r error now)"
      using inv by (auto simp: resolve_complete_tick_def loop_row_inv_def Let_def split: prod.splits)
    ultimately show ?thesis using assms r True inv Some
      by (auto simp: complete_tick_def finished_row_def Let_def loop_row_inv_def unclaim_def open_goal_def
          intro!: loops_inv_update)
  next
    case False
    then show ?thesis using assms Some by (auto simp: complete_tick_def)
  qed
qed (simp add: complete_tick_def assms)

lemma loops_inv_defer [inv_intros]:
  assumes "loops_inv t"
  shows "loops_inv (snd (defer_tick i worker reason now t))"
proof (cases "get_loop i t")
  case (Some r)
  note r = get_loop_SomeD[OF Some, THEN conjunct1]
  show ?thesis using assms r loops_invD(2)[OF assms r] Some
    by (auto simp: defer_tick_def loop_row_inv_def unclaim_def open_goal_def intro!: loops_inv_update)
qed (simp add: defer_tick_def assms)

lemma loops_inv_set_status [inv_intros]:
  assumes "loops_inv t" and "set_status i status reason t = Inr (ok, t')"
  shows "loops_inv t'"
proof (cases "dict_get t i")
  case (Some r)
  then have t': "t' = dict_set i ((unclaim r)\<lparr>lp_status := status,
      lp_stop_reason := (case reason of None \<Rightarrow> lp_stop_reason r | Some x \<Rightarrow> Some x)\<rparr>) t"
    and free: "lp_kind r = KGoal \<and> open_status status \<Longrightarrow>
      \<not> list_ex (\<lambda>(j, q). j \<noteq> i \<and> open_goal (lp_session_id r) q) t"
    using assms(2) by (auto simp: set_status_def split: if_splits)
  show ?thesis unfolding t'
  proof (rule loops_inv_update[OF assms(1) Some])
    fix j q
    assume "open_goal (lp_session_id r) ((unclaim r)\<lparr>lp_status := status,
      lp_stop_reason := (case reason of None \<Rightarrow> lp_stop_reason r | Some x \<Rightarrow> Some x)\<rparr>)"
      and "dict_get t j = Some q" "j \<noteq> i"
    then show "\<not> open_goal (lp_session_id r) q"
      using free by (auto simp: open_goal_def unclaim_def list_ex_entries[OF loops_invD(1)[OF assms(1)]])
  qed (use loops_invD(2)[OF assms(1) Some] in \<open>simp_all add: loop_row_inv_def unclaim_def\<close>)
qed (use assms in \<open>simp add: set_status_def\<close>)

lemma loops_inv_resume [inv_intros]:
  assumes "loops_inv t"
  shows "loops_inv (snd (resume_loop i now t))"
proof (cases "get_loop i t")
  case (Some r)
  note r = get_loop_SomeD[OF Some, THEN conjunct1]
  show ?thesis using assms r loops_invD(2)[OF assms r] Some
    by (auto simp: resume_loop_def loop_row_inv_def unclaim_def open_goal_def open_status_def intro!: loops_inv_update)
qed (simp add: resume_loop_def assms)

section \<open>The store as a transition system\<close>

datatype loop_op =
    OpCreate string loop_create int
  | OpClaim string string int
  | OpReleaseStale int int
  | OpRenew string string int
  | OpComplete string string "string option" int
  | OpDefer string string string int
  | OpSetStatus string loop_status "string option"
  | OpResume string int

fun loop_step :: "loop_op \<Rightarrow> loop_table \<Rightarrow> loop_table" where
  "loop_step (OpCreate fresh spec now) t =
     (case create_loop fresh spec now t of Inl _ \<Rightarrow> t | Inr (_, t') \<Rightarrow> t')"
| "loop_step (OpClaim i w now) t = snd (claim_tick i w now t)"
| "loop_step (OpReleaseStale stale now) t = snd (release_stale_claims stale now t)"
| "loop_step (OpRenew i w now) t = snd (renew_tick_claim i w now t)"
| "loop_step (OpComplete i w e now) t = snd (complete_tick i w e now t)"
| "loop_step (OpDefer i w reason now) t = snd (defer_tick i w reason now t)"
| "loop_step (OpSetStatus i st reason) t =
     (case set_status i st reason t of Inl _ \<Rightarrow> t | Inr (_, t') \<Rightarrow> t')"
| "loop_step (OpResume i now) t = snd (resume_loop i now t)"

interpretation loops: inv_system loop_step loops_inv
proof
  fix t a assume "loops_inv t"
  then show "loops_inv (loop_step a t)"
    by (cases a) (auto intro: inv_intros split: sum.splits)
qed

lemma loops_inv_empty: "loops_inv []"
  by (simp add: loops_inv_def)

section \<open>Claims are leases\<close>

definition claim_holder :: "loop_table \<Rightarrow> string \<Rightarrow> string option" where
  "claim_holder t i =
     (case get_loop i t of None \<Rightarrow> None
      | Some r \<Rightarrow> if lp_tick_in_flight r then lp_worker_id r else None)"

definition claim_since :: "loop_table \<Rightarrow> string \<Rightarrow> int" where
  "claim_since t i =
     (case get_loop i t of None \<Rightarrow> 0
      | Some r \<Rightarrow> (case lp_claimed_at_ms r of None \<Rightarrow> 0 | Some c \<Rightarrow> c))"

definition poll_claim :: "int \<Rightarrow> int \<Rightarrow> string \<Rightarrow> string \<Rightarrow> loop_table \<Rightarrow> bool \<times> loop_table" where
  \<comment> \<open>what a poll does for one loop: release what is stale, then try to claim\<close>
  "poll_claim stale_claim now i worker t =
     (case claim_tick i worker now (snd (release_stale_claims stale_claim now t)) of
        (r, t') \<Rightarrow> (r \<noteq> None, t'))"

lemma release_stale_get:
  "dict_get (snd (release_stale_claims ttl now t)) i =
    map_option (\<lambda>r. if claim_stale (now - ttl) r then release_stale_row r else r) (dict_get t i)"
  by (simp add: release_stale_claims_def Let_def dict_get_map_values)

lemma fresh_claim_survives:
  assumes "claim_holder t i = Some v" and "now - ttl \<le> claim_since t i"
  shows "get_loop i (snd (release_stale_claims ttl now t)) = get_loop i t"
  using assms
  by (auto simp: get_loop_def release_stale_get claim_holder_def claim_since_def claim_stale_def
      split: option.splits if_splits)

lemma row_ok_simps [simp]:
  "row_ok (release_stale_row r) = row_ok r" "row_ok (unclaim r) = row_ok r"
  "row_ok (r\<lparr>lp_tick_in_flight := b, lp_worker_id := w, lp_claimed_at_ms := c\<rparr>) = row_ok r"
  by (simp_all add: row_ok_def release_stale_row_def unclaim_def Let_def)

lemma claim_tick_get:
  "get_loop j (snd (claim_tick i w now t)) =
    (if j = i \<and> (case dict_get t i of None \<Rightarrow> False | Some r \<Rightarrow> claimable now r)
     then map_option (\<lambda>r. r\<lparr>lp_tick_in_flight := True, lp_worker_id := Some w, lp_claimed_at_ms := Some now\<rparr>)
       (get_loop j t)
     else get_loop j t)"
  by (auto simp: claim_tick_def get_loop_def Let_def split: option.splits)

lemma complete_tick_get:
  "claim_holder t i \<noteq> Some w \<Longrightarrow> snd (complete_tick i w e now t) = t"
  "j \<noteq> i \<Longrightarrow> get_loop j (snd (complete_tick i w e now t)) = get_loop j t"
  "claim_holder (snd (complete_tick i w e now t)) i \<noteq> Some w"
  by (auto simp: complete_tick_def finished_row_def claim_holder_def get_loop_def Let_def unclaim_def
      split: option.splits if_splits)

lemma defer_tick_get:
  "claim_holder t i \<noteq> Some w \<Longrightarrow> defer_tick i w reason now t = (False, t)"
  "j \<noteq> i \<Longrightarrow> get_loop j (snd (defer_tick i w reason now t)) = get_loop j t"
  "claim_holder (snd (defer_tick i w reason now t)) i \<noteq> Some w"
  by (auto simp: defer_tick_def claim_holder_def get_loop_def unclaim_def split: option.splits if_splits)

interpretation tick_claim: lease_store claim_holder claim_since ttl "poll_claim ttl"
  "\<lambda>now i w t. snd (complete_tick i w error now t)"
  for ttl error
proof
  fix now k w st st' b j v
  let ?s = "snd (release_stale_claims ttl now st)"
  show "poll_claim ttl now k w st = (True, st') \<Longrightarrow>
      (claim_holder st k = None \<or> claim_since st k < now - ttl) \<and> claim_holder st' k = Some w \<and> claim_since st' k = now"
  proof -
    assume st': "poll_claim ttl now k w st = (True, st')"
    then obtain q where q: "dict_get ?s k = Some q" "claimable now q" "row_ok q" "st' = snd (claim_tick k w now ?s)"
      by (auto simp: poll_claim_def claim_tick_def get_loop_def Let_def split: option.splits if_splits prod.splits)
    then obtain r where r: "dict_get st k = Some r" "q = (if claim_stale (now - ttl) r then release_stale_row r else r)"
      by (auto simp: release_stale_get)
    then have "row_ok r" using q(3) by (simp split: if_splits)
    then have "claim_holder st k = None \<or> claim_since st k < now - ttl"
      using r q(2) by (auto simp: claim_holder_def claim_since_def get_loop_def claimable_def claim_stale_def
          split: option.splits if_splits)
    moreover have "get_loop k ?s = Some q" using q(1,3) by (simp add: get_loop_def)
    ultimately show ?thesis using q claim_tick_get[of k k w now ?s]
      by (simp add: claim_holder_def claim_since_def)
  qed
  show "poll_claim ttl now k w st = (b, st') \<Longrightarrow> claim_holder st j = Some v \<Longrightarrow> now - ttl \<le> claim_since st j \<Longrightarrow>
      claim_holder st' j = Some v \<and> claim_since st' j = claim_since st j"
  proof -
    assume st': "poll_claim ttl now k w st = (b, st')" and j: "claim_holder st j = Some v" "now - ttl \<le> claim_since st j"
    have same: "get_loop j ?s = get_loop j st" by (rule fresh_claim_survives[OF j])
    have "lp_tick_in_flight r" if "get_loop j ?s = Some r" for r
      using j(1) that same by (auto simp: claim_holder_def split: if_splits)
    then have "\<not> (case dict_get ?s j of None \<Rightarrow> False | Some r \<Rightarrow> claimable now r)"
      using same j(1) by (auto simp: get_loop_def claimable_def claim_holder_def split: option.splits if_splits)
    then have "get_loop j st' = get_loop j st"
      using st' same claim_tick_get[of j k w now ?s] by (auto simp: poll_claim_def split: prod.splits)
    then show ?thesis using j by (simp add: claim_holder_def claim_since_def)
  qed
  show "claim_holder st j = Some v \<Longrightarrow> j \<noteq> k \<or> v \<noteq> w \<Longrightarrow>
      claim_holder (snd (complete_tick k w error now st)) j = Some v
      \<and> claim_since (snd (complete_tick k w error now st)) j = claim_since st j"
    using complete_tick_get(1)[of st k w error now] complete_tick_get(2)[of j k w error now st]
    by (cases "j = k") (auto simp: claim_holder_def claim_since_def)
qed (rule complete_tick_get(3))

section \<open>Exclusive ticks under every operation of the store\<close>

fun leaves_claim :: "string \<Rightarrow> string \<Rightarrow> int \<Rightarrow> loop_op \<Rightarrow> bool" where
  \<comment> \<open>operations that may happen while \<open>w\<close> holds the claim on \<open>i\<close> it last renewed at \<open>t0\<close>\<close>
  "leaves_claim i w t0 (OpReleaseStale stale now) = (now - stale \<le> t0)"
| "leaves_claim i w t0 (OpComplete j v e now) = (j \<noteq> i \<or> v \<noteq> w)"
| "leaves_claim i w t0 (OpDefer j v reason now) = (j \<noteq> i \<or> v \<noteq> w)"
| "leaves_claim i w t0 (OpSetStatus j st reason) = (j \<noteq> i)"
| "leaves_claim i w t0 _ = True"

fun renewed_at :: "string \<Rightarrow> string \<Rightarrow> loop_op \<Rightarrow> int \<Rightarrow> int" where
  \<comment> \<open>when \<open>w\<close> last renewed its claim on \<open>i\<close>, after an operation\<close>
  "renewed_at i w (OpRenew j v now) t0 = (if j = i \<and> v = w then now else t0)"
| "renewed_at i w _ t0 = t0"

fun leave_claim :: "string \<Rightarrow> string \<Rightarrow> int \<Rightarrow> loop_op list \<Rightarrow> bool" where
  \<comment> \<open>a sequence of operations in which no claim of \<open>w\<close> on \<open>i\<close> gets stale: each renewal counts from then on\<close>
  "leave_claim i w t0 [] = True"
| "leave_claim i w t0 (a # ops) = (leaves_claim i w t0 a \<and> leave_claim i w (renewed_at i w a t0) ops)"

definition holds_claim :: "string \<Rightarrow> string \<Rightarrow> int \<Rightarrow> loop_table \<Rightarrow> bool" where
  "holds_claim i w t0 t \<longleftrightarrow> claim_holder t i = Some w \<and> claim_since t i = t0"

lemma holds_claim_get: "get_loop i t' = get_loop i t \<Longrightarrow> holds_claim i w t0 t \<Longrightarrow> holds_claim i w t0 t'"
  by (simp add: holds_claim_def claim_holder_def claim_since_def)

lemma holds_claimD:
  assumes "holds_claim i w t0 t"
  obtains r where "dict_get t i = Some r" "row_ok r" "lp_tick_in_flight r" "lp_worker_id r = Some w"
  using assms by (auto simp: holds_claim_def claim_holder_def get_loop_def split: option.splits if_splits)

lemma create_loop_get:
  "create_loop fresh spec now t = Inr (row, t') \<Longrightarrow> dict_get t i = Some r \<Longrightarrow> dict_get t' i = Some r"
  by (auto simp: create_loop_def Let_def map_add_def split: if_splits)

lemma get_loop_cong: "dict_get t' i = dict_get t i \<Longrightarrow> get_loop i t' = get_loop i t"
  by (simp add: get_loop_def)

lemma claim_kept:
  assumes "loops_inv t" and "holds_claim i w t0 t" and "leaves_claim i w t0 a"
  shows "holds_claim i w (renewed_at i w a t0) (loop_step a t)"
proof (cases "\<exists>now. a = OpRenew i w now")
  case True
  then show ?thesis using assms(2)
    by (auto simp: holds_claim_def renew_tick_claim_def claimed_by_def claim_holder_def claim_since_def get_loop_def row_ok_def
        split: option.splits if_splits)
next
  case False
  then have t0: "renewed_at i w a t0 = t0" by (cases a) auto
  obtain r where r: "dict_get t i = Some r" "row_ok r" "lp_tick_in_flight r" "lp_worker_id r = Some w"
    by (rule holds_claimD[OF assms(2)])
  have active: "lp_status r = Active" using loops_invD(2)[OF assms(1) r(1)] r(3) by (simp add: loop_row_inv_def)
  have g: "get_loop i t = Some r" using r by (simp add: get_loop_def)
  have "get_loop i (loop_step a t) = get_loop i t"
  proof (cases a)
    case (OpCreate fresh spec now)
    show ?thesis
    proof (cases "create_loop fresh spec now t")
      case (Inr p)
      then have "dict_get (snd p) i = Some r" using create_loop_get[of fresh spec now t "fst p" "snd p" i r] r(1) by simp
      then show ?thesis using OpCreate Inr r(1) by (cases p) (simp add: get_loop_def)
    qed (simp add: OpCreate)
  next
    case (OpClaim j v now)
    then show ?thesis using claim_tick_get[of i j v now t] r by (auto simp: claimable_def)
  next
    case (OpReleaseStale stale now)
    then show ?thesis
      using fresh_claim_survives[of t i w now stale] assms(2,3) by (simp add: holds_claim_def)
  next
    case (OpRenew j v now)
    then show ?thesis using r False
      by (cases "j = i"; cases "dict_get t j") (simp_all add: renew_tick_claim_def claimed_by_def get_loop_def)
  next
    case (OpComplete j v e now)
    then show ?thesis
      using assms(2,3) complete_tick_get(1)[of t j v e now] complete_tick_get(2)[of i j v e now t]
      by (cases "j = i") (auto simp: holds_claim_def)
  next
    case (OpDefer j v reason now)
    then show ?thesis
      using assms(2,3) defer_tick_get(1)[of t j v reason now] defer_tick_get(2)[of i j v reason now t]
      by (cases "j = i") (auto simp: holds_claim_def)
  next
    case (OpSetStatus j st reason)
    then show ?thesis using assms(3)
      by (auto simp: set_status_def get_loop_def split: option.splits sum.splits)
  next
    case (OpResume j now)
    then show ?thesis using active g by (auto simp: resume_loop_def get_loop_def split: option.splits)
  qed
  then show ?thesis unfolding t0 by (rule holds_claim_get[OF _ assms(2)])
qed

lemma claim_kept_run:
  assumes "loops_inv t" and "holds_claim i w t0 t" and "leave_claim i w t0 ops"
  shows "holds_claim i w (fold (renewed_at i w) ops t0) (fold loop_step ops t)"
  using assms
proof (induction ops arbitrary: t t0)
  case (Cons a ops)
  then show ?case using claim_kept[of t i w t0 a] loops.step_inv[of t a] by simp
qed simp

text \<open>
  C1: the scheduler's table is consistent after every sequence of operations by any number of workers:
  ids are unique, every session has at most one open goal, a row is in flight exactly when it has a worker
  and a claim time, only active rows are in flight, and goals carry an objective and no tick limit.
\<close>
theorem scheduler_table_invariant: "loops_inv (fold loop_step ops [])"
  by (rule loops.run_inv[OF loops_inv_empty])

text \<open>
  C2: ticks are exclusive. While a worker holds a claim, no interleaving of operations lets another worker claim the
  tick or complete it in its place: its own renewals, creations, claims, completions, deferrals and resumes of others, and
  releases of stale claims, as long as none comes later than the time limit after the worker last renewed its claim. The
  claim then dates from that renewal.
\<close>
theorem tick_claim_exclusive:
  assumes "t = fold loop_step ops0 []" and "claim_tick i w t0 t = (Some row, t')"
    and "leave_claim i w t0 ops" and "v \<noteq> w"
  shows "fst (claim_tick i v now (fold loop_step ops t')) = None
    \<and> fst (complete_tick i v e now (fold loop_step ops t')) = None
    \<and> claim_holder (fold loop_step ops t') i = Some w
    \<and> claim_since (fold loop_step ops t') i = fold (renewed_at i w) ops t0"
proof -
  let ?t = "fold loop_step ops t'"
  have inv: "loops_inv t" unfolding assms(1) by (rule loops.run_inv[OF loops_inv_empty])
  then have "loops_inv t'" using loops_inv_claim[OF inv, of i w t0] assms(2) by simp
  moreover have "holds_claim i w t0 t'"
    using assms(2) by (auto simp: claim_tick_def holds_claim_def claim_holder_def claim_since_def Let_def get_loop_def
        split: option.splits if_splits)
  ultimately have h: "holds_claim i w (fold (renewed_at i w) ops t0) ?t" by (rule claim_kept_run[OF _ _ assms(3)])
  then obtain r where "dict_get ?t i = Some r" "row_ok r" "lp_tick_in_flight r" "lp_worker_id r = Some w"
    by (rule holds_claimD)
  then show ?thesis using assms(4) h
    by (simp add: claim_tick_def claimable_def complete_tick_def get_loop_def holds_claim_def)
qed

definition sample_spec :: loop_create where
  "sample_spec = \<lparr>cr_prompt = ''p'', cr_interval_ms = 5000, cr_session_id = ''s'', cr_loop_id = Some ''l1'',
     cr_max_ticks = Some 2, cr_max_runtime_ms = None, cr_skip_if_busy = True, cr_unbounded = False,
     cr_kind = ''loop'', cr_objective = None\<rparr>"

definition sample_row :: loop_row where
  "sample_row = \<lparr>lp_loop_id = ''l1'', lp_session_id = ''s'', lp_status = Active, lp_prompt = ''p'',
     lp_interval_ms = 5000, lp_max_ticks = Some 2, lp_max_runtime_ms = None, lp_skip_if_busy = True,
     lp_tick_index = 0, lp_next_tick_at_ms = 10, lp_started_at_ms = 10, lp_last_tick_at_ms = None,
     lp_last_error = None, lp_stop_reason = None, lp_tick_in_flight = False, lp_worker_id = None,
     lp_claimed_at_ms = None, lp_kind = KLoop, lp_objective = None, lp_consecutive_error_count = 0\<rparr>"

lemma sample_table: "fold loop_step [OpCreate [] sample_spec 10] [] = [(''l1'', sample_row)]"
  by code_simp

theorem tick_claim_exclusive_witness:
  "fst (claim_tick ''l1'' ''w2'' 700030 (fold loop_step [OpRenew ''l1'' ''w1'' 400000, OpReleaseStale 600000 700020]
      (snd (claim_tick ''l1'' ''w1'' 11 [(''l1'', sample_row)])))) = None"
proof -
  let ?t = "[(''l1'', sample_row)]"
  have "claim_tick ''l1'' ''w1'' 11 ?t = (Some (the (fst (claim_tick ''l1'' ''w1'' 11 ?t))), snd (claim_tick ''l1'' ''w1'' 11 ?t))"
    by code_simp
  from tick_claim_exclusive[OF sample_table[symmetric] this, of "[OpRenew ''l1'' ''w1'' 400000, OpReleaseStale 600000 700020]" "''w2''" 700030]
  show ?thesis by simp
qed

section \<open>How a schedule ends\<close>

definition run_tick :: "string option \<times> int \<Rightarrow> loop_row \<Rightarrow> loop_row" where
  \<comment> \<open>one tick of a row: only active rows are claimed\<close>
  "run_tick oc r = (if lp_status r = Active then finished_row r (fst oc) (snd oc) else r)"

lemma finished_row_simps [simp]:
  "lp_kind (finished_row r e now) = lp_kind r"
  "lp_max_ticks (finished_row r e now) = lp_max_ticks r"
  "lp_interval_ms (finished_row r e now) = lp_interval_ms r"
  "lp_tick_index (finished_row r e now) = lp_tick_index r + 1"
  "lp_status (finished_row r e now) = tr_status (resolve_complete_tick r e now)"
  "lp_consecutive_error_count (finished_row r e now) = tr_consecutive_error_count (resolve_complete_tick r e now)"
  "lp_stop_reason (finished_row r e now) = tr_stop_reason (resolve_complete_tick r e now)"
  "lp_max_runtime_ms (finished_row r e now) = lp_max_runtime_ms r"
  by (auto simp: finished_row_def unclaim_def Let_def resolve_complete_tick_def split: prod.splits)

lemma run_tick_simps:
  "lp_status r = Active \<Longrightarrow> run_tick oc r = finished_row r (fst oc) (snd oc)"
  "lp_status r \<noteq> Active \<Longrightarrow> run_tick oc r = r"
  by (simp_all add: run_tick_def)

definition trailing_errors :: "(string option \<times> int) list \<Rightarrow> nat" where
  "trailing_errors os = length (takeWhile (\<lambda>oc. truthy_str (fst oc)) (rev os))"

lemma trailing_errors_snoc [simp]:
  "trailing_errors [] = 0"
  "trailing_errors (os @ [oc]) = (if truthy_str (fst oc) then Suc (trailing_errors os) else 0)"
  by (simp_all add: trailing_errors_def)

lemma goal_run:
  assumes "lp_kind r = KGoal" and "lp_status r = Active" and "lp_consecutive_error_count r = 0"
    and "lp_max_ticks r = None" and "lp_max_runtime_ms r = None"
  shows "if \<exists>n. 3 \<le> trailing_errors (take n os) then lp_status (fold run_tick os r) = Failed
    else lp_status (fold run_tick os r) = Active
      \<and> lp_consecutive_error_count (fold run_tick os r) = int (trailing_errors os)
      \<and> lp_kind (fold run_tick os r) = KGoal \<and> lp_max_ticks (fold run_tick os r) = None
      \<and> lp_max_runtime_ms (fold run_tick os r) = None"
proof (induction os rule: rev_induct)
  case (snoc oc os)
  let ?r = "fold run_tick os r"
  show ?case
  proof (cases "\<exists>n. 3 \<le> trailing_errors (take n os)")
    case True
    then obtain n where n: "3 \<le> trailing_errors (take n os)" by blast
    have "take (min n (length os)) (os @ [oc]) = take n os" by (simp add: min_def)
    then have "\<exists>n. 3 \<le> trailing_errors (take n (os @ [oc]))" using n by metis
    moreover have "lp_status ?r = Failed" using True snoc by simp
    ultimately show ?thesis by (simp add: run_tick_simps)
  next
    case False
    then have r: "lp_status ?r = Active" "lp_consecutive_error_count ?r = int (trailing_errors os)"
        "lp_kind ?r = KGoal" "lp_max_ticks ?r = None" "lp_max_runtime_ms ?r = None"
      using snoc by auto
    have few: "trailing_errors os < 3" using False[unfolded not_ex, rule_format, of "length os"] by simp
    have "(\<exists>n. 3 \<le> trailing_errors (take n (os @ [oc]))) \<longleftrightarrow> 3 \<le> trailing_errors (os @ [oc])"
    proof
      assume "\<exists>n. 3 \<le> trailing_errors (take n (os @ [oc]))"
      then obtain n where n: "3 \<le> trailing_errors (take n (os @ [oc]))" by blast
      then show "3 \<le> trailing_errors (os @ [oc])" using False by (cases "n \<le> length os") auto
    next
      assume "3 \<le> trailing_errors (os @ [oc])"
      then show "\<exists>n. 3 \<le> trailing_errors (take n (os @ [oc]))" by (intro exI[of _ "Suc (length os)"]) simp
    qed
    moreover define q where "q = fold run_tick os r"
    ultimately show ?thesis
      using r few unfolding fold_append fold_simps comp_def q_def[symmetric]
      by (cases "truthy_str (fst oc)")
        (simp_all add: run_tick_simps resolve_complete_tick_def Let_def goal_max_consecutive_errors_def)
  qed
qed (use assms in simp)

text \<open>
  A goal is retried exactly while fewer than three ticks in a row failed: over any sequence of tick
  outcomes it ends up failed if and only if the sequence holds three consecutive errors, and otherwise it is
  still active, with the number of trailing errors as its count.
\<close>
theorem goal_retry_bound:
  assumes "lp_kind r = KGoal" and "lp_status r = Active" and "lp_consecutive_error_count r = 0"
    and "lp_max_ticks r = None" and "lp_max_runtime_ms r = None"
  shows "lp_status (fold run_tick os r) = (if \<exists>n. 3 \<le> trailing_errors (take n os) then Failed else Active)"
  using goal_run[OF assms, of os] by (simp split: if_splits)

theorem goal_retry_bound_witness:
  "lp_status (fold run_tick [(Some ''e'', 1), (Some ''e'', 2)]
      (sample_row\<lparr>lp_kind := KGoal, lp_max_ticks := None\<rparr>)) = Active"
proof -
  let ?os = "[(Some ''e'', 1), (Some ''e'', 2)] :: (string option \<times> int) list"
  have "\<not> 3 \<le> trailing_errors (take n ?os)" for n
  proof -
    have "trailing_errors (take n ?os) \<le> length (rev (take n ?os))"
      unfolding trailing_errors_def by (rule length_takeWhile_le)
    also have "\<dots> \<le> 2" by simp
    finally show ?thesis by simp
  qed
  then show ?thesis
    using goal_retry_bound[of "sample_row\<lparr>lp_kind := KGoal, lp_max_ticks := None\<rparr>" ?os]
    by (simp add: sample_row_def)
qed

lemma loop_run:
  assumes "lp_kind r = KLoop" and "lp_max_ticks r = Some m" and "0 \<le> lp_tick_index r"
  shows "lp_kind (fold run_tick os r) = KLoop \<and> lp_max_ticks (fold run_tick os r) = Some m
    \<and> lp_tick_index r \<le> lp_tick_index (fold run_tick os r)
    \<and> (lp_status (fold run_tick os r) = Active \<longrightarrow>
        lp_tick_index (fold run_tick os r) = lp_tick_index r + int (length os)
        \<and> (os \<noteq> [] \<longrightarrow> lp_tick_index (fold run_tick os r) < m))"
proof (induction os rule: rev_induct)
  case (snoc oc os)
  define q where "q = fold run_tick os r"
  have step: "fold run_tick (os @ [oc]) r = run_tick oc q" by (simp add: q_def)
  show ?case
  proof (cases "lp_status q = Active")
    case True
    then show ?thesis using snoc unfolding step q_def[symmetric]
      by (auto simp: run_tick_simps resolve_complete_tick_def Let_def split: if_splits)
  next
    case False
    then show ?thesis using snoc unfolding step q_def[symmetric] by (simp add: run_tick_simps)
  qed
qed (use assms in simp)

text \<open>
  A loop with a tick limit ends: whatever its ticks come to, it is no longer active after
  \<open>max 1 max_ticks\<close> of them.
\<close>
theorem loop_tick_limit:
  assumes "lp_kind r = KLoop" and "lp_max_ticks r = Some m" and "lp_tick_index r = 0"
    and "max 1 m \<le> int (length os)"
  shows "lp_status (fold run_tick os r) \<noteq> Active"
  using loop_run[OF assms(1,2), of os] assms(3,4) by auto

theorem loop_tick_limit_witness:
  "lp_status (fold run_tick [(None, 11), (None, 5011)] sample_row) \<noteq> Active"
  by (rule loop_tick_limit[of _ 2]) (simp_all add: sample_row_def)

text \<open>
  A finished loop can be revived: \<open>pause\<close> does not look at the status, so pausing a loop that already
  completed or failed succeeds, and resuming it makes it due again at once with its tick count unchanged,
  even when that count has reached \<open>max_ticks\<close>.
\<close>
theorem finished_loop_revived:
  assumes "dict_get t i = Some r" and "row_ok r" and "lp_kind r = KLoop"
  shows "\<exists>t1 t2 q. pause_loop i t = Inr (True, t1) \<and> resume_loop i now t1 = (True, t2)
    \<and> dict_get t2 i = Some q \<and> claimable now q
    \<and> lp_tick_index q = lp_tick_index r \<and> lp_max_ticks q = lp_max_ticks r"
  using assms
  by (simp add: pause_loop_def set_status_def resume_loop_def get_loop_def unclaim_def row_ok_def claimable_def)

theorem finished_loop_revived_witness:
  "\<exists>t1 t2 q. pause_loop ''l1'' [(''l1'', sample_row\<lparr>lp_status := Completed, lp_tick_index := 2\<rparr>)] = Inr (True, t1)
    \<and> resume_loop ''l1'' 99 t1 = (True, t2) \<and> dict_get t2 ''l1'' = Some q \<and> claimable 99 q
    \<and> lp_tick_index q = 2 \<and> lp_max_ticks q = Some 2"
  using finished_loop_revived[of "[(''l1'', sample_row\<lparr>lp_status := Completed, lp_tick_index := 2\<rparr>)]" "''l1''"
      "sample_row\<lparr>lp_status := Completed, lp_tick_index := 2\<rparr>" 99]
  by (simp add: sample_row_def row_ok_def)

text \<open>
  A tick that raises an exception whose message is empty (such as \<open>TimeoutError()\<close>) is recorded exactly as
  a successful tick: the error handler passes \<open>str(exc)\<close>, and the empty text is not taken as an error.
\<close>
theorem empty_exception_is_success: "finish_tick row w (TickRaised []) now t = finish_tick row w TickOk now t"
proof -
  have "resolve_complete_tick r (Some []) now = resolve_complete_tick r None now" for r
    by (simp add: resolve_complete_tick_def truthy_str_def)
  then have "finished_row r (Some []) now = finished_row r None now" for r by (simp add: finished_row_def)
  then show ?thesis by (cases "get_loop (lp_loop_id row) t") (simp_all add: finish_tick_def complete_tick_def)
qed

end
