(* ===== verification/Goals.thy ===== *)
theory Goals
  imports Scheduled_Loops Json
begin

text \<open>
  \<open>core/goals/service.py\<close>: the life cycle of a session's durable goal on top of the scheduled-loop
  store. Each store call is one step; \<open>interfere\<close> stands for what other processes do to the table
  between the check for an open goal and the insert, so the race the service handles is part of the
  model. The property group: creating is idempotent, a session never has two open goals, the losing
  side of a race gets the winner's goal or a conflict, and the rows the service returns are the rows
  that are stored.
\<close>

section \<open>The service\<close>

datatype goal_error =
    EmptyObjective
  | InvalidStatus string
  | GoalConflict string
  | GoalNotFound string
  | StoreError loop_error

definition goal_default_interval_ms :: int where
  "goal_default_interval_ms = 5 * 60 * 1000"

definition status_text :: "loop_status \<Rightarrow> string" where
  "status_text s = (case s of
       Active \<Rightarrow> ''active'' | Paused \<Rightarrow> ''paused'' | Completed \<Rightarrow> ''completed'' | Failed \<Rightarrow> ''failed'')"

definition opt_int_json :: "int option \<Rightarrow> json" where
  "opt_int_json v = (case v of None \<Rightarrow> JNull | Some i \<Rightarrow> JInt i)"

definition opt_str_json :: "string option \<Rightarrow> json" where
  "opt_str_json v = (case v of None \<Rightarrow> JNull | Some s \<Rightarrow> JStr s)"

definition row_objective :: "loop_row \<Rightarrow> string" where
  \<comment> \<open>\<open>row.objective or row.prompt\<close>\<close>
  "row_objective r = (if truthy_str (lp_objective r) then the (lp_objective r) else lp_prompt r)"

definition goal_to_json :: "loop_row \<Rightarrow> jdict" where
  "goal_to_json r =
     [(''id'', JStr (lp_loop_id r)), (''session_id'', JStr (lp_session_id r)),
      (''objective'', JStr (py_strip (row_objective r))), (''status'', JStr (status_text (lp_status r))),
      (''tick_index'', JInt (lp_tick_index r)), (''interval_ms'', JInt (lp_interval_ms r)),
      (''next_tick_at_ms'', JInt (lp_next_tick_at_ms r)),
      (''last_tick_at_ms'', opt_int_json (lp_last_tick_at_ms r)),
      (''started_at_ms'', JInt (lp_started_at_ms r)), (''last_error'', opt_str_json (lp_last_error r)),
      (''stop_reason'', opt_str_json (lp_stop_reason r)), (''tick_in_flight'', JBool (lp_tick_in_flight r)),
      (''consecutive_error_count'', JInt (lp_consecutive_error_count r))]"

definition list_goals :: "loop_table \<Rightarrow> loop_row list" where
  "list_goals t = list_kind KGoal t"

definition get_goal :: "string \<Rightarrow> loop_table \<Rightarrow> loop_row option" where
  "get_goal i t = (case get_loop i t of
       Some r \<Rightarrow> if lp_kind r = KGoal then Some r else None | None \<Rightarrow> None)"

definition open_for_session :: "string \<Rightarrow> loop_table \<Rightarrow> loop_row option" where
  "open_for_session session t = find_open session KGoal [Active, Paused] t"

definition resolve_existing :: "loop_row \<Rightarrow> string \<Rightarrow> goal_error + loop_row \<times> bool" where
  "resolve_existing existing objective =
     (if normalize_objective (row_objective existing) = normalize_objective objective
      then Inr (existing, False)
      else Inl (GoalConflict (lp_loop_id existing)))"

definition goal_spec :: "string \<Rightarrow> string \<Rightarrow> string \<Rightarrow> loop_create" where
  "goal_spec objective session fresh =
     \<lparr>cr_prompt = objective, cr_interval_ms = goal_default_interval_ms, cr_session_id = session,
      cr_loop_id = Some (''goal-'' @ fresh), cr_max_ticks = None, cr_max_runtime_ms = None,
      cr_skip_if_busy = True, cr_unbounded = False, cr_kind = ''goal'', cr_objective = Some objective\<rparr>"

definition goal_create ::
    "(loop_table \<Rightarrow> loop_table) \<Rightarrow> string \<Rightarrow> string \<Rightarrow> string \<Rightarrow> int \<Rightarrow> loop_table
      \<Rightarrow> (goal_error + loop_row \<times> bool) \<times> loop_table" where
  \<comment> \<open>\<open>fresh\<close> is \<open>uuid.uuid4().hex[:12]\<close>\<close>
  "goal_create interfere objective0 session fresh now t =
     (let objective = py_strip objective0
      in if objective = [] then (Inl EmptyObjective, t)
         else (case open_for_session session t of
             Some existing \<Rightarrow> (resolve_existing existing objective, t)
           | None \<Rightarrow>
               (let t1 = interfere t
                in (case create_loop fresh (goal_spec objective session fresh) now t1 of
                      Inr (row, t2) \<Rightarrow> (Inr (row, True), t2)
                    | Inl (OpenGoalExists s) \<Rightarrow>
                        (case open_for_session session t1 of
                           None \<Rightarrow> (Inl (StoreError (OpenGoalExists s)), t1)
                         | Some raced \<Rightarrow> (resolve_existing raced objective, t1))
                    | Inl e \<Rightarrow> (Inl (StoreError e), t1)))))"

definition goal_mutate ::
    "loop_row \<Rightarrow> bool \<times> loop_table \<Rightarrow> loop_status \<Rightarrow> string option \<Rightarrow> int option
      \<Rightarrow> (goal_error + loop_row) \<times> loop_table" where
  "goal_mutate row res status stop_reason next_tick =
     (case res of (ok, t) \<Rightarrow>
        if \<not> ok then (Inl (GoalNotFound (lp_loop_id row)), t)
        else (Inr ((unclaim row)\<lparr>lp_status := status, lp_stop_reason := stop_reason,
                 lp_next_tick_at_ms := (case next_tick of None \<Rightarrow> lp_next_tick_at_ms row | Some n \<Rightarrow> n)\<rparr>), t))"

definition goal_stop_row :: "loop_row \<Rightarrow> string \<Rightarrow> loop_table \<Rightarrow> (goal_error + loop_row) \<times> loop_table" where
  "goal_stop_row row reason t =
     (case stop_loop (lp_loop_id row) reason t of
        Inl e \<Rightarrow> (Inl (StoreError e), t)
      | Inr res \<Rightarrow> goal_mutate row res Completed (Some reason) None)"

definition goal_resume_row :: "loop_row \<Rightarrow> int \<Rightarrow> int \<Rightarrow> loop_table \<Rightarrow> (goal_error + loop_row) \<times> loop_table" where
  \<comment> \<open>\<open>now\<close> is the service's clock read, \<open>store_now\<close> the store's\<close>
  "goal_resume_row row now store_now t =
     goal_mutate row (resume_loop (lp_loop_id row) store_now t) Active None (Some now)"

definition goal_update ::
    "string \<Rightarrow> string \<Rightarrow> string \<Rightarrow> int \<Rightarrow> int \<Rightarrow> loop_table \<Rightarrow> (goal_error + loop_row) \<times> loop_table" where
  "goal_update goal session status now store_now t =
     (if status \<noteq> ''active'' \<and> status \<noteq> ''complete'' then (Inl (InvalidStatus status), t)
      else (case get_goal goal t of
          None \<Rightarrow> (Inl (GoalNotFound goal), t)
        | Some existing \<Rightarrow>
            if lp_session_id existing \<noteq> session then (Inl (GoalNotFound goal), t)
            else if \<not> open_status (lp_status existing) then (Inl (GoalNotFound goal), t)
            else if status = ''complete'' then goal_stop_row existing ''complete'' t
            else if lp_status existing = Active then (Inr existing, t)
            else goal_resume_row existing now store_now t))"

definition goal_pause :: "string \<Rightarrow> loop_table \<Rightarrow> (goal_error + loop_row) \<times> loop_table" where
  "goal_pause goal t =
     (case get_goal goal t of
        None \<Rightarrow> (Inl (GoalNotFound goal), t)
      | Some row \<Rightarrow>
          if \<not> open_status (lp_status row) then (Inl (GoalNotFound goal), t)
          else if lp_status row = Paused then (Inr row, t)
          else (case pause_loop goal t of
              Inl e \<Rightarrow> (Inl (StoreError e), t)
            | Inr res \<Rightarrow> goal_mutate row res Paused (lp_stop_reason row) None))"

definition goal_resume :: "string \<Rightarrow> int \<Rightarrow> int \<Rightarrow> loop_table \<Rightarrow> (goal_error + loop_row) \<times> loop_table" where
  "goal_resume goal now store_now t =
     (case get_goal goal t of
        None \<Rightarrow> (Inl (GoalNotFound goal), t)
      | Some row \<Rightarrow>
          if lp_status row \<noteq> Paused then (Inl (GoalNotFound goal), t)
          else goal_resume_row row now store_now t)"

definition goal_stop :: "string \<Rightarrow> loop_table \<Rightarrow> (goal_error + loop_row) \<times> loop_table" where
  "goal_stop goal t =
     (case get_goal goal t of
        None \<Rightarrow> (Inl (GoalNotFound goal), t)
      | Some row \<Rightarrow>
          if lp_status row = Completed \<or> lp_status row = Failed then (Inr row, t)
          else goal_stop_row row ''manual'' t)"

section \<open>The open goal of a session\<close>

lemma find_open_goal_iff:
  assumes "loops_inv t"
  shows "open_for_session s t = Some r \<longleftrightarrow> dict_get t (lp_loop_id r) = Some r \<and> open_goal s r"
proof -
  define rows where "rows = filter (open_goal s) (map snd t)"
  note inv = loops_invD[OF assms]
  have mem: "q \<in> set rows \<longleftrightarrow> dict_get t (lp_loop_id q) = Some q \<and> open_goal s q" for q
  proof
    assume "q \<in> set rows"
    then obtain i where "(i, q) \<in> set t" "open_goal s q" by (auto simp: rows_def)
    moreover from this have "dict_get t i = Some q" using inv(1) by (simp add: dict_entries)
    ultimately show "dict_get t (lp_loop_id q) = Some q \<and> open_goal s q"
      using inv(2)[of i q] by (simp add: loop_row_inv_def)
  qed (force simp: rows_def dest: map_of_SomeD)
  have one: "q = q'" if "q \<in> set rows" "q' \<in> set rows" for q q'
  proof -
    have q: "dict_get t (lp_loop_id q) = Some q" "open_goal s q" and q': "dict_get t (lp_loop_id q') = Some q'" "open_goal s q'"
      using that mem[of q] mem[of q'] by blast+
    then have "lp_session_id q = s" by (simp add: open_goal_def)
    then have "lp_loop_id q = lp_loop_id q'" using inv(3)[OF q(1) q'(1)] q(2) q'(2) by simp
    with q(1) q'(1) show ?thesis by (metis option.inject)
  qed
  have ok: "row_ok q" if "q \<in> set rows" for q
    using that inv(2)[of "lp_loop_id q" q] by (simp add: mem row_ok_def loop_row_inv_def)
  have eq: "open_for_session s t = (case sort_key (\<lambda>r. - lp_started_at_ms r) rows of
      [] \<Rightarrow> None | r # _ \<Rightarrow> if row_ok r then Some r else None)"
  proof -
    have "filter (\<lambda>r. lp_kind r = KGoal \<and> lp_session_id r = s \<and> lp_status r \<in> set [Active, Paused]) (map snd t) = rows"
      unfolding rows_def by (intro filter_cong) (auto simp: open_goal_def open_status_def)
    then show ?thesis unfolding open_for_session_def find_open_def by simp
  qed
  have "open_for_session s t = Some r \<longleftrightarrow> r \<in> set rows"
  proof (cases "sort_key (\<lambda>r. - lp_started_at_ms r) rows")
    case Nil
    then have "rows = []" by (metis set_empty set_sort)
    then show ?thesis using Nil eq by simp
  next
    case (Cons h hs)
    then have "h \<in> set rows" by (metis list.set_intros(1) set_sort)
    then show ?thesis using eq Cons ok one by auto
  qed
  then show ?thesis by (simp add: mem)
qed

lemma find_open_goal_None_iff:
  assumes "loops_inv t"
  shows "open_for_session s t = None \<longleftrightarrow> \<not> list_ex (open_goal s) (map snd t)"
proof -
  note inv = loops_invD[OF assms]
  have "list_ex (open_goal s) (map snd t) \<longleftrightarrow> (\<exists>r. open_for_session s t = Some r)"
  proof
    assume "list_ex (open_goal s) (map snd t)"
    then obtain i r where "(i, r) \<in> set t" "open_goal s r" by (auto simp: list_ex_iff)
    moreover from this have "dict_get t i = Some r" using inv(1) by (simp add: dict_entries)
    moreover from this have "lp_loop_id r = i" using inv(2) by (simp add: loop_row_inv_def)
    ultimately show "\<exists>r. open_for_session s t = Some r" using find_open_goal_iff[OF assms] by auto
  next
    assume "\<exists>r. open_for_session s t = Some r"
    then show "list_ex (open_goal s) (map snd t)"
      by (auto simp: find_open_goal_iff[OF assms] list_ex_iff dest!: map_of_SomeD) force
  qed
  then show ?thesis by (metis not_None_eq)
qed

section \<open>Creating\<close>

definition goal_row :: "string \<Rightarrow> string \<Rightarrow> string \<Rightarrow> int \<Rightarrow> loop_row" where
  "goal_row objective session fresh now =
     \<lparr>lp_loop_id = ''goal-'' @ fresh, lp_session_id = session, lp_status = Active, lp_prompt = objective,
      lp_interval_ms = goal_default_interval_ms, lp_max_ticks = None, lp_max_runtime_ms = None,
      lp_skip_if_busy = True, lp_tick_index = 0, lp_next_tick_at_ms = now + goal_default_interval_ms,
      lp_started_at_ms = now, lp_last_tick_at_ms = None, lp_last_error = None, lp_stop_reason = None,
      lp_tick_in_flight = False, lp_worker_id = None, lp_claimed_at_ms = None, lp_kind = KGoal,
      lp_objective = Some objective, lp_consecutive_error_count = 0\<rparr>"

definition trimmed_text :: "string \<Rightarrow> bool" where
  "trimmed_text s \<longleftrightarrow> s \<noteq> [] \<and> py_strip s = s"

lemma create_goal_eq:
  assumes "trimmed_text objective" and "trimmed_text session" and "trimmed_text (''goal-'' @ fresh)"
  shows "create_loop fresh (goal_spec objective session fresh) now t =
    (if dict_get t (''goal-'' @ fresh) \<noteq> None \<or> list_ex (open_goal session) (map snd t) then
       (if get_loop (''goal-'' @ fresh) t \<noteq> None then Inl (LoopExists (''goal-'' @ fresh))
        else Inl (OpenGoalExists session))
     else Inr (goal_row objective session fresh now,
       t @ [(''goal-'' @ fresh, goal_row objective session fresh now)]))"
proof -
  have k: "kind_field ''goal'' = Inr KGoal" by code_simp
  have "planned_create fresh (goal_spec objective session fresh) now =
    Inr \<lparr>pl_loop_id = ''goal-'' @ fresh, pl_session_id = session, pl_prompt = objective,
        pl_interval_ms = goal_default_interval_ms, pl_max_ticks = None, pl_max_runtime_ms = None,
        pl_skip_if_busy = True, pl_next_tick_at_ms = now + goal_default_interval_ms, pl_started_at_ms = now,
        pl_kind = KGoal, pl_objective = Some objective\<rparr>"
    using assms by (simp add: planned_create_def goal_spec_def k require_positive_interval_ms_def
        goal_default_interval_ms_def loop_id_from_create_def trimmed_text_def truthy_str_def Let_def)
  then show ?thesis by (simp add: create_loop_def goal_row_def Let_def)
qed

lemma loops_inv_goal_added:
  assumes "loops_inv t" and "dict_get t (''goal-'' @ fresh) = None" and "\<not> list_ex (open_goal session) (map snd t)"
    and "trimmed_text objective" and "trimmed_text session" and "trimmed_text (''goal-'' @ fresh)"
  shows "loops_inv (t @ [(''goal-'' @ fresh, goal_row objective session fresh now)])"
    and "open_for_session session (t @ [(''goal-'' @ fresh, goal_row objective session fresh now)])
      = Some (goal_row objective session fresh now)"
proof -
  let ?r = "goal_row objective session fresh now" and ?t = "t @ [(''goal-'' @ fresh, goal_row objective session fresh now)]"
  have "create_loop fresh (goal_spec objective session fresh) now t = Inr (?r, ?t)"
    using create_goal_eq[OF assms(4-6)] assms(2,3) by simp
  then show inv: "loops_inv ?t" by (rule loops_inv_create[OF assms(1)])
  have "dict_get ?t (lp_loop_id ?r) = Some ?r" using assms(2) by (simp add: goal_row_def map_add_def)
  moreover have "open_goal session ?r" by (simp add: goal_row_def open_goal_def open_status_def)
  ultimately show "open_for_session session ?t = Some ?r" using find_open_goal_iff[OF inv] by simp
qed

lemma resolve_existing_cases:
  "case resolve_existing r objective of
     Inr (row, created) \<Rightarrow> row = r \<and> \<not> created \<and> normalize_objective (row_objective r) = normalize_objective objective
   | Inl e \<Rightarrow> e = GoalConflict (lp_loop_id r) \<and> normalize_objective (row_objective r) \<noteq> normalize_objective objective"
  by (simp add: resolve_existing_def)

definition create_outcome_ok ::
    "string \<Rightarrow> string \<Rightarrow> string \<Rightarrow> goal_error + loop_row \<times> bool \<Rightarrow> loop_table \<Rightarrow> bool" where
  \<comment> \<open>what a caller of \<open>create\<close> may see: the session's one open goal, with its objective, or a reason\<close>
  "create_outcome_ok objective session goal res t = (case res of
       Inr (row, created) \<Rightarrow> open_for_session session t = Some row
         \<and> normalize_objective (row_objective row) = normalize_objective objective
     | Inl EmptyObjective \<Rightarrow> objective = []
     | Inl (GoalConflict g) \<Rightarrow> (case open_for_session session t of None \<Rightarrow> False
         | Some r \<Rightarrow> lp_loop_id r = g \<and> normalize_objective (row_objective r) \<noteq> normalize_objective objective)
     | Inl (StoreError (LoopExists g)) \<Rightarrow> g = goal
     | Inl _ \<Rightarrow> False)"

lemma goal_create_outcome:
  assumes "loops_inv t" and "loops_inv (interfere t)"
    and "trimmed_text session" and "trimmed_text (''goal-'' @ fresh)"
    and "goal_create interfere objective session fresh now t = (res, t')"
  shows "loops_inv t' \<and> create_outcome_ok (py_strip objective) session (''goal-'' @ fresh) res t'"
proof (cases "py_strip objective = []")
  case True
  then show ?thesis using assms(1,5) by (auto simp: goal_create_def create_outcome_ok_def)
next
  case False
  then have obj: "trimmed_text (py_strip objective)" by (simp add: trimmed_text_def)
  have resolve: "create_outcome_ok (py_strip objective) session g (resolve_existing r (py_strip objective)) q"
    if "open_for_session session q = Some r" for r q g
    using that by (auto simp: create_outcome_ok_def resolve_existing_def)
  let ?t1 = "interfere t"
  show ?thesis
  proof (cases "open_for_session session t")
    case (Some r)
    then show ?thesis using resolve[OF Some] assms(1,5) False by (auto simp: goal_create_def Let_def)
  next
    case None
    note eq = create_goal_eq[OF obj assms(3,4), of now ?t1]
    have get: "get_loop i ?t1 = dict_get ?t1 i" for i
      using loops_invD(2)[OF assms(2)] by (auto simp: get_loop_def row_ok_def loop_row_inv_def split: option.splits)
    consider (dup) "dict_get ?t1 (''goal-'' @ fresh) \<noteq> None"
      | (lost) r where "dict_get ?t1 (''goal-'' @ fresh) = None" "open_for_session session ?t1 = Some r"
      | (won) "dict_get ?t1 (''goal-'' @ fresh) = None" "\<not> list_ex (open_goal session) (map snd ?t1)"
      using find_open_goal_None_iff[OF assms(2), of session] by (metis not_None_eq)
    then show ?thesis
    proof cases
      case dup
      then have "create_loop fresh (goal_spec (py_strip objective) session fresh) now ?t1 = Inl (LoopExists (''goal-'' @ fresh))"
        unfolding eq by (simp add: get)
      then show ?thesis using None False assms(2,5)
        by (auto simp: goal_create_def create_outcome_ok_def Let_def)
    next
      case (lost r)
      then have "create_loop fresh (goal_spec (py_strip objective) session fresh) now ?t1 = Inl (OpenGoalExists session)"
        unfolding eq using find_open_goal_None_iff[OF assms(2), of session] by (simp add: get)
      then show ?thesis using None False lost(2) resolve[OF lost(2)] assms(2,5)
        by (auto simp: goal_create_def Let_def)
    next
      case won
      note added = loops_inv_goal_added[OF assms(2) won obj assms(3,4), of now]
      have "create_loop fresh (goal_spec (py_strip objective) session fresh) now ?t1 =
          Inr (goal_row (py_strip objective) session fresh now,
            ?t1 @ [(''goal-'' @ fresh, goal_row (py_strip objective) session fresh now)])"
        unfolding eq using won by simp
      then show ?thesis using None False added assms(5)
        by (auto simp: goal_create_def Let_def create_outcome_ok_def row_objective_def goal_row_def truthy_str_def)
    qed
  qed
qed

text \<open>
  Creating a goal under a race. Whatever other processes do to the table between the service's check and
  its insert, as long as they keep the table consistent, the caller gets the session's one open goal with the
  asked objective, or a conflict that names the open goal that is in the way, and the table stays
  consistent. The only other failures are an empty objective and a collision of the random id.
\<close>
theorem goal_create_race:
  assumes "loops_inv t" and "loops_inv (interfere t)"
    and "trimmed_text session" and "trimmed_text (''goal-'' @ fresh)"
    and "goal_create interfere objective session fresh now t = (res, t')"
  shows "loops_inv t' \<and> create_outcome_ok (py_strip objective) session (''goal-'' @ fresh) res t'"
  by (rule goal_create_outcome[OF assms])

theorem goal_create_race_witness:
  "loops_inv (snd (goal_create id ''ship it'' ''s'' ''abc'' 10 []))"
  using goal_create_race[of "[]" id "''s''" "''abc''" "''ship it''" 10 "fst (goal_create id ''ship it'' ''s'' ''abc'' 10 [])"
      "snd (goal_create id ''ship it'' ''s'' ''abc'' 10 [])"]
  by (simp add: loops_inv_empty trimmed_text_def py_strip_trimmed_iff py_isspace_def)

text \<open>
  Creating is idempotent: after a goal was created, asking again for the same objective, up to white
  space, returns that goal, says it was not created, and leaves the table as it is.
\<close>
theorem goal_create_idempotent:
  assumes "loops_inv t" and "trimmed_text session" and "trimmed_text (''goal-'' @ fresh)"
    and "goal_create id objective session fresh now t = (Inr (row, True), t')"
    and "normalize_objective (py_strip objective') = normalize_objective (py_strip objective)"
    and "py_strip objective' \<noteq> []"
  shows "goal_create id objective' session fresh' now' t' = (Inr (row, False), t')"
proof -
  have "open_for_session session t' = Some row
      \<and> normalize_objective (row_objective row) = normalize_objective (py_strip objective)"
    using goal_create_outcome[of t id session fresh objective now, OF assms(1) _ assms(2,3,4)] assms(1)
    by (simp add: create_outcome_ok_def)
  then show ?thesis using assms(5,6) by (simp add: goal_create_def Let_def resolve_existing_def)
qed

theorem goal_create_idempotent_witness:
  "goal_create id ''ship  it'' ''s'' ''def'' 20 (snd (goal_create id ''ship it'' ''s'' ''abc'' 10 []))
     = (Inr (goal_row ''ship it'' ''s'' ''abc'' 10, False), snd (goal_create id ''ship it'' ''s'' ''abc'' 10 []))"
proof -
  have made: "goal_create id ''ship it'' ''s'' ''abc'' 10 []
      = (Inr (goal_row ''ship it'' ''s'' ''abc'' 10, True), snd (goal_create id ''ship it'' ''s'' ''abc'' 10 []))"
    by code_simp
  have same: "normalize_objective (py_strip ''ship  it'') = normalize_objective (py_strip ''ship it'')"
    and some: "py_strip ''ship  it'' \<noteq> []" by code_simp+
  have "trimmed_text ''s''" "trimmed_text (''goal-'' @ ''abc'')" by code_simp+
  then show ?thesis using goal_create_idempotent[OF loops_inv_empty _ _ made same some] by blast
qed

section \<open>Changing a goal\<close>

lemma get_goal_of_inv:
  assumes "loops_inv t"
  shows "get_goal g t = Some r \<longleftrightarrow> dict_get t g = Some r \<and> lp_kind r = KGoal"
  using loops_invD(2)[OF assms] by (auto simp: get_goal_def get_loop_def row_ok_def loop_row_inv_def split: option.splits)

definition goal_moved :: "string \<Rightarrow> loop_row \<Rightarrow> loop_table \<Rightarrow> loop_table \<Rightarrow> bool" where
  \<comment> \<open>what a transition leaves: the row under its id, and every other row as it was\<close>
  "goal_moved g row t t' \<longleftrightarrow> get_goal g t' = Some row \<and> (\<forall>j. j \<noteq> g \<longrightarrow> dict_get t' j = dict_get t j)"

lemma goal_moved_same: "get_goal g t = Some row \<Longrightarrow> goal_moved g row t t"
  by (simp add: goal_moved_def)

lemma goal_moved_update:
  assumes "loops_inv t'" and "t' = dict_set g row t" and "lp_kind row = KGoal"
  shows "goal_moved g row t t'"
  using assms by (auto simp: goal_moved_def get_goal_of_inv)

lemma unclaim_fields [simp]:
  "lp_next_tick_at_ms (unclaim r) = lp_next_tick_at_ms r" "lp_stop_reason (unclaim r) = lp_stop_reason r"
  "lp_kind (unclaim r) = lp_kind r"
  by (simp_all add: unclaim_def)

lemma unclaim_refold [simp]:
  "(unclaim r)\<lparr>lp_status := a, lp_next_tick_at_ms := lp_next_tick_at_ms r\<rparr> = (unclaim r)\<lparr>lp_status := a\<rparr>"
  "(unclaim r)\<lparr>lp_status := a, lp_stop_reason := b, lp_next_tick_at_ms := lp_next_tick_at_ms r\<rparr>
    = (unclaim r)\<lparr>lp_status := a, lp_stop_reason := b\<rparr>"
  by (simp_all add: unclaim_def)

lemma goal_stop_row_moved:
  assumes "loops_inv t" and "get_goal g t = Some r" and "goal_stop_row r reason t = (Inr row, t')"
  shows "loops_inv t' \<and> goal_moved g row t t'"
proof -
  have r: "dict_get t g = Some r" "lp_kind r = KGoal" "lp_loop_id r = g"
    using assms(1,2) loops_invD(2)[OF assms(1), of g r] by (auto simp: get_goal_of_inv loop_row_inv_def)
  then have step: "stop_loop g reason t = Inr (True, t')" and t': "t' = dict_set g row t" and k: "lp_kind row = KGoal"
    using assms(3) by (auto simp: goal_stop_row_def stop_loop_def set_status_def goal_mutate_def open_status_def)
  from step have inv: "loops_inv t'" unfolding stop_loop_def by (rule loops_inv_set_status[OF assms(1)])
  then show ?thesis using goal_moved_update[OF inv t' k] by simp
qed

lemma goal_resume_row_moved:
  assumes "loops_inv t" and "get_goal g t = Some r" and "goal_resume_row r now store_now t = (Inr row, t')"
  shows "loops_inv t' \<and> goal_moved g (row\<lparr>lp_next_tick_at_ms := store_now\<rparr>) t t'"
proof -
  have r: "dict_get t g = Some r" "lp_kind r = KGoal" "lp_loop_id r = g" "get_loop g t = Some r"
    using assms(1,2) loops_invD(2)[OF assms(1), of g r]
    by (auto simp: get_goal_of_inv loop_row_inv_def get_loop_def row_ok_def)
  then have step: "resume_loop g store_now t = (True, t')"
    and t': "t' = dict_set g (row\<lparr>lp_next_tick_at_ms := store_now\<rparr>) t" and k: "lp_kind row = KGoal"
    using assms(3) by (auto simp: goal_resume_row_def resume_loop_def goal_mutate_def split: if_splits)
  have inv: "loops_inv t'" using loops_inv_resume[OF assms(1), of g store_now] step by simp
  then show ?thesis using goal_moved_update[OF inv t'] k by simp
qed

lemma goal_pause_moved:
  assumes "loops_inv t" and "goal_pause g t = (Inr row, t')"
  shows "loops_inv t' \<and> goal_moved g row t t'"
proof -
  obtain r where r: "get_goal g t = Some r" using assms(2) by (auto simp: goal_pause_def split: option.splits)
  show ?thesis
  proof (cases "lp_status r = Paused")
    case True
    then show ?thesis using r assms goal_moved_same[OF r] by (auto simp: goal_pause_def split: if_splits)
  next
    case False
    have d: "dict_get t g = Some r" "lp_kind r = KGoal" using r assms(1) by (auto simp: get_goal_of_inv)
    then have step: "pause_loop g t = Inr (True, t')" and t': "t' = dict_set g row t" and k: "lp_kind row = KGoal"
      using assms(2) r False
      by (auto simp: goal_pause_def pause_loop_def set_status_def goal_mutate_def split: if_splits)
    from step have inv: "loops_inv t'" unfolding pause_loop_def by (rule loops_inv_set_status[OF assms(1)])
    then show ?thesis using goal_moved_update[OF inv t' k] by simp
  qed
qed

datatype goal_op = GPause | GResume | GStop | GUpdate string string

fun goal_run :: "string \<Rightarrow> goal_op \<Rightarrow> int \<Rightarrow> loop_table \<Rightarrow> (goal_error + loop_row) \<times> loop_table" where
  \<comment> \<open>one request of the service, both clock reads at the same millisecond\<close>
  "goal_run g GPause now t = goal_pause g t"
| "goal_run g GResume now t = goal_resume g now now t"
| "goal_run g GStop now t = goal_stop g t"
| "goal_run g (GUpdate session status) now t = goal_update g session status now now t"

lemma same_clock_row:
  assumes "goal_resume_row r now now t = (Inr row, t')"
  shows "row\<lparr>lp_next_tick_at_ms := now\<rparr> = row"
  using assms by (auto simp: goal_resume_row_def goal_mutate_def split: prod.splits if_splits)

text \<open>
  The row a transition returns is the row that is stored. The service does not read the table back after a
  pause, resume, stop or update: it mirrors the store's change onto the row it had read. For every request that
  succeeds, the returned row is exactly what the table now holds under that id, no other row changed, and the
  table is still consistent.
\<close>
theorem goal_mirror_exact:
  assumes "loops_inv t" and "goal_run g oper now t = (Inr row, t')"
  shows "loops_inv t' \<and> get_goal g t' = Some row \<and> (\<forall>j. j \<noteq> g \<longrightarrow> dict_get t' j = dict_get t j)"
proof -
  have resume: "loops_inv t' \<and> goal_moved g row t t'"
    if "get_goal g t = Some r" "goal_resume_row r now now t = (Inr row, t')" for r
    using goal_resume_row_moved[OF assms(1) that] same_clock_row[OF that(2)] by simp
  have "loops_inv t' \<and> goal_moved g row t t'"
  proof (cases oper)
    case GPause
    then show ?thesis using goal_pause_moved assms by simp
  next
    case GResume
    then show ?thesis using assms(2) resume by (auto simp: goal_resume_def split: option.splits if_splits)
  next
    case GStop
    then show ?thesis using assms goal_stop_row_moved[OF assms(1)] goal_moved_same
      by (auto simp: goal_stop_def split: option.splits if_splits)
  next
    case (GUpdate session status)
    then show ?thesis using assms goal_stop_row_moved[OF assms(1)] goal_moved_same resume
      by (auto simp: goal_update_def split: option.splits if_splits)
  qed
  then show ?thesis by (simp add: goal_moved_def)
qed

theorem goal_mirror_exact_witness:
  "get_goal ''goal-abc'' (snd (goal_run ''goal-abc'' GPause 20 (snd (goal_create id ''ship it'' ''s'' ''abc'' 10 []))))
     = Some ((goal_row ''ship it'' ''s'' ''abc'' 10)\<lparr>lp_status := Paused\<rparr>)"
proof -
  let ?t = "snd (goal_create id ''ship it'' ''s'' ''abc'' 10 [])"
  have inv: "loops_inv ?t"
    using goal_create_outcome[of "[]" id "''s''" "''abc''" "''ship it''" 10 "fst (goal_create id ''ship it'' ''s'' ''abc'' 10 [])" ?t]
    by (simp add: loops_inv_empty trimmed_text_def py_strip_trimmed_iff py_isspace_def)
  have run: "goal_run ''goal-abc'' GPause 20 ?t = (Inr ((goal_row ''ship it'' ''s'' ''abc'' 10)\<lparr>lp_status := Paused\<rparr>),
      snd (goal_run ''goal-abc'' GPause 20 ?t))" by code_simp
  show ?thesis using goal_mirror_exact[OF inv run] by blast
qed

end
