(* ===== verification/Shlex.thy ===== *)
theory Shlex
  imports Prelude
begin

text \<open>
  The part of Python's \<open>shlex\<close> module the command policy relies on: \<open>shlex.quote\<close>, \<open>shlex.join\<close>,
  \<open>shlex.split\<close> and the POSIX lexer with \<open>whitespace_split\<close>, with or without punctuation characters
  and comments. One token is read per state that carries the text collected so far; a character that
  the class pushes back is looked at again from the start state. With \<open>whitespace_split\<close> the class's
  \<open>wordchars\<close> make no difference, so they are left out.
  The group of lemmas at the end shows that quoting is undone by the lexer, in both of its
  configurations and in the middle of a longer text.
\<close>

section \<open>Quoting\<close>

definition quote_char :: char where
  "quote_char = CHR 0x27"

definition dquote_char :: char where
  "dquote_char = CHR 0x22"

definition shell_safe :: "char \<Rightarrow> bool" where
  \<comment> \<open>what \<open>_find_unsafe\<close> does not find\<close>
  "shell_safe c \<longleftrightarrow> py_isdigit c \<or> (c \<in> set ''abcdefghijklmnopqrstuvwxyzABCDEFGHIJKLMNOPQRSTUVWXYZ_@%+=:,./-'')"

fun quote_body :: "string \<Rightarrow> string" where
  \<comment> \<open>every single quote is put between double quotes\<close>
  "quote_body [] = []"
| "quote_body (c # cs) =
     (if c = quote_char then [quote_char, dquote_char, quote_char, dquote_char, quote_char] else [c])
     @ quote_body cs"

definition shlex_quote :: "string \<Rightarrow> string" where
  "shlex_quote s =
     (if s = [] then [quote_char, quote_char]
      else if list_all shell_safe s then s
      else [quote_char] @ quote_body s @ [quote_char])"

definition shlex_join :: "string list \<Rightarrow> string" where
  "shlex_join ws = join_on '' '' (map shlex_quote ws)"

section \<open>The lexer\<close>

record lexer =
  lx_commenters :: string
  lx_punctuation :: string

definition split_lexer :: lexer where
  \<comment> \<open>the lexer of \<open>shlex.split(s, posix=True)\<close>\<close>
  "split_lexer = \<lparr>lx_commenters = [], lx_punctuation = []\<rparr>"

definition script_lexer :: lexer where
  \<comment> \<open>\<open>shlex.shlex(s, posix=True, punctuation_chars=True)\<close>: comments stay on\<close>
  "script_lexer = \<lparr>lx_commenters = ''#'', lx_punctuation = ''();<>|&''\<rparr>"

definition lex_space :: "char \<Rightarrow> bool" where
  "lex_space c \<longleftrightarrow> c = CHR '' '' \<or> c = CHR 0x09 \<or> c = CHR 0x0D \<or> c = nl"

definition lex_quote :: "char \<Rightarrow> bool" where
  "lex_quote c \<longleftrightarrow> c = quote_char \<or> c = dquote_char"

datatype lex_state =
    LSpace
  | LComment
  | LWord string bool
  | LPunct string
  | LQuote char string
  | LEscape "char option" string bool

definition lex_start :: "lexer \<Rightarrow> char \<Rightarrow> lex_state" where
  "lex_start L c =
     (if lex_space c then LSpace
      else if c \<in> set (lx_commenters L) then LComment
      else if c = backslash then LEscape None [] False
      else if c \<in> set (lx_punctuation L) then LPunct [c]
      else if lex_quote c then LQuote c []
      else LWord [c] False)"

definition emit :: "string \<Rightarrow> bool \<Rightarrow> string + string list \<Rightarrow> string + string list" where
  \<comment> \<open>a token that is empty and was never quoted is no token\<close>
  "emit tok quoted r =
     (if tok = [] \<and> \<not> quoted then r else (case r of Inl e \<Rightarrow> Inl e | Inr ts \<Rightarrow> Inr (tok # ts)))"

fun lex :: "lexer \<Rightarrow> lex_state \<Rightarrow> string \<Rightarrow> string + string list" where
  "lex L LSpace [] = Inr []"
| "lex L LComment [] = Inr []"
| "lex L (LWord tok quoted) [] = emit tok quoted (Inr [])"
| "lex L (LPunct tok) [] = emit tok False (Inr [])"
| "lex L (LQuote q tok) [] = Inl ''No closing quotation''"
| "lex L (LEscape q tok quoted) [] = Inl ''No escaped character''"
| "lex L LSpace (c # cs) = lex L (lex_start L c) cs"
| "lex L LComment (c # cs) = lex L (if c = nl then LSpace else LComment) cs"
| "lex L (LWord tok quoted) (c # cs) =
     (if lex_space c then emit tok quoted (lex L LSpace cs)
      else if c \<in> set (lx_commenters L) then emit tok quoted (lex L LComment cs)
      else if lex_quote c then lex L (LQuote c tok) cs
      else if c = backslash then lex L (LEscape None tok quoted) cs
      else if c \<in> set (lx_punctuation L) then emit tok quoted (lex L (lex_start L c) cs)
      else lex L (LWord (tok @ [c]) quoted) cs)"
| "lex L (LPunct tok) (c # cs) =
     (if lex_space c then emit tok False (lex L LSpace cs)
      else if c \<in> set (lx_commenters L) then emit tok False (lex L LComment cs)
      else if c \<in> set (lx_punctuation L) then lex L (LPunct (tok @ [c])) cs
      else emit tok False (lex L (lex_start L c) cs))"
| "lex L (LQuote q tok) (c # cs) =
     (if c = q then lex L (LWord tok True) cs
      else if c = backslash \<and> q = dquote_char then lex L (LEscape (Some q) tok True) cs
      else lex L (LQuote q (tok @ [c])) cs)"
| "lex L (LEscape q tok quoted) (c # cs) =
     (case q of
        None \<Rightarrow> lex L (LWord (tok @ [c]) quoted) cs
      | Some d \<Rightarrow> lex L (LQuote d (tok @ (if c \<noteq> backslash \<and> c \<noteq> d then [backslash, c] else [c]))) cs)"

definition shlex_tokens :: "lexer \<Rightarrow> string \<Rightarrow> string + string list" where
  \<comment> \<open>\<open>list(lexer)\<close>\<close>
  "shlex_tokens L s = lex L LSpace s"

definition shlex_split :: "string \<Rightarrow> string + string list" where
  "shlex_split s = shlex_tokens split_lexer s"

section \<open>Quoting is undone by the lexer\<close>

definition plain_lexer :: "lexer \<Rightarrow> bool" where
  \<comment> \<open>no safe character has a meaning of its own\<close>
  "plain_lexer L \<longleftrightarrow> list_all (\<lambda>c. \<not> shell_safe c) (lx_commenters L @ lx_punctuation L)
     \<and> list_all (\<lambda>c. \<not> lex_space c \<and> \<not> lex_quote c \<and> c \<noteq> backslash) (lx_commenters L @ lx_punctuation L)
     \<and> list_all (\<lambda>c. c \<notin> set (lx_commenters L)) (lx_punctuation L)"

lemma plain_lexers [simp]: "plain_lexer split_lexer" "plain_lexer script_lexer"
  by code_simp+

lemma safe_not_special:
  assumes "shell_safe c"
  shows "\<not> lex_space c" and "\<not> lex_quote c" and "c \<noteq> backslash"
  using assms by (auto simp: shell_safe_def lex_space_def lex_quote_def nl_def backslash_def quote_char_def
      dquote_char_def py_isdigit_def)

lemma plain_safe:
  assumes "plain_lexer L" and "shell_safe c"
  shows "c \<notin> set (lx_commenters L)" and "c \<notin> set (lx_punctuation L)"
  using assms by (auto simp: plain_lexer_def list_all_iff)

lemma plain_quote:
  assumes "plain_lexer L" and "lex_quote c"
  shows "c \<notin> set (lx_commenters L)" and "c \<notin> set (lx_punctuation L)"
  using assms by (auto simp: plain_lexer_def list_all_iff)

lemma quote_simps [simp]:
  "lex_quote quote_char" "lex_quote dquote_char" "quote_char \<noteq> dquote_char" "dquote_char \<noteq> quote_char"
  "\<not> lex_space quote_char" "\<not> lex_space dquote_char" "quote_char \<noteq> backslash" "dquote_char \<noteq> backslash"
  "backslash \<noteq> quote_char" "backslash \<noteq> dquote_char"
  by (simp_all add: lex_quote_def quote_char_def dquote_char_def lex_space_def nl_def backslash_def)

lemma lex_safe_run:
  assumes "plain_lexer L" and "list_all shell_safe s"
  shows "lex L (LWord tok q) (s @ rest) = lex L (LWord (tok @ s) q) rest"
  using assms(2)
proof (induction s arbitrary: tok)
  case (Cons c cs)
  then show ?case using safe_not_special[of c] plain_safe[OF assms(1), of c] by simp
qed simp

lemma lex_quote_start:
  assumes "plain_lexer L" and "lex_quote c"
  shows "lex_start L c = LQuote c []"
  using assms plain_quote[OF assms] by (auto simp: lex_start_def lex_quote_def)

lemma lex_word_quote:
  assumes "plain_lexer L" and "lex_quote c"
  shows "lex L (LWord tok q) (c # cs) = lex L (LQuote c tok) cs"
  using assms plain_quote[OF assms] by (auto simp: lex_quote_def)

lemma lex_quote_run:
  assumes "plain_lexer L"
  shows "lex L (LQuote quote_char tok) (quote_body s @ quote_char # rest) = lex L (LWord (tok @ s) True) rest"
proof (induction s arbitrary: tok)
  case (Cons c cs)
  then show ?case by (simp add: lex_word_quote[OF assms] del: lex.simps(9))
qed simp

text \<open>
  Reading a quoted word: the lexer ends in a word state with exactly that word, which is emitted
  whatever follows.
\<close>

lemma lex_quoted_word:
  assumes "plain_lexer L"
  shows "\<exists>q. (w = [] \<longrightarrow> q) \<and> lex L LSpace (shlex_quote w @ rest) = lex L (LWord w q) rest"
proof -
  have start: "lex_start L quote_char = LQuote quote_char []" using lex_quote_start[OF assms] by simp
  consider (empty) "w = []" | (safe) c cs where "w = c # cs" "list_all shell_safe w"
    | (unsafe) "w \<noteq> []" "\<not> list_all shell_safe w" by (cases w) auto
  then show ?thesis
  proof cases
    case empty
    then show ?thesis by (intro exI[of _ True]) (simp add: shlex_quote_def start)
  next
    case safe
    then have "lex_start L c = LWord [c] False"
      using safe_not_special[of c] plain_safe[OF assms, of c] by (simp add: lex_start_def)
    then show ?thesis using safe lex_safe_run[OF assms, of cs "[c]" False rest]
      by (intro exI[of _ False]) (simp add: shlex_quote_def)
  next
    case unsafe
    then show ?thesis using lex_quote_run[OF assms, of "[]" w rest]
      by (intro exI[of _ True]) (simp add: shlex_quote_def start)
  qed
qed

definition emit_all :: "string list \<Rightarrow> string + string list \<Rightarrow> string + string list" where
  "emit_all ws r = (case r of Inl e \<Rightarrow> Inl e | Inr ts \<Rightarrow> Inr (ws @ ts))"

lemma emit_word: "w = [] \<longrightarrow> q \<Longrightarrow> emit w q r = emit_all [w] r"
  by (auto simp: emit_def emit_all_def split: sum.splits)

lemma emit_all_simps [simp]:
  "emit_all [] r = r" "emit_all ws (Inr ts) = Inr (ws @ ts)" "emit_all ws (emit_all vs r) = emit_all (ws @ vs) r"
  by (auto simp: emit_all_def split: sum.splits)

definition breaks_word :: "lexer \<Rightarrow> string \<Rightarrow> bool" where
  \<comment> \<open>what ends a word: the end of the text, white space or punctuation\<close>
  "breaks_word L rest \<longleftrightarrow> rest = [] \<or> lex_space (hd rest) \<or> hd rest \<in> set (lx_punctuation L)"

lemma breaks_word_simps [simp]: "breaks_word L []" "breaks_word L (CHR '' '' # s)"
  by (simp_all add: breaks_word_def lex_space_def)

lemma lex_word_then:
  assumes "plain_lexer L" and "breaks_word L rest"
  shows "lex L LSpace (shlex_quote w @ rest) = emit_all [w] (lex L LSpace rest)"
proof -
  obtain q where q: "w = [] \<longrightarrow> q" "lex L LSpace (shlex_quote w @ rest) = lex L (LWord w q) rest"
    using lex_quoted_word[OF assms(1), of w rest] by (elim exE conjE)
  have "lex L (LWord w q) rest = emit w q (lex L LSpace rest)"
    using assms by (cases rest) (auto simp: lex_start_def breaks_word_def plain_lexer_def list_all_iff)
  then show ?thesis using q by (simp add: emit_word)
qed

lemma lex_join_then:
  assumes "plain_lexer L" and "breaks_word L rest"
  shows "lex L LSpace (shlex_join ws @ rest) = emit_all ws (lex L LSpace rest)"
  unfolding shlex_join_def
proof (induction ws)
  case (Cons w ws)
  show ?case
  proof (cases ws)
    case Nil
    then show ?thesis using lex_word_then[OF assms] by simp
  next
    case (Cons v vs)
    let ?tail = "join_on '' '' (map shlex_quote ws)"
    have "join_on '' '' (map shlex_quote (w # ws)) @ rest = shlex_quote w @ (CHR '' '' # ?tail @ rest)"
      using Cons by simp
    then have "lex L LSpace (join_on '' '' (map shlex_quote (w # ws)) @ rest)
        = emit_all [w] (lex L LSpace (CHR '' '' # ?tail @ rest))"
      using lex_word_then[OF assms(1), of "CHR '' '' # ?tail @ rest" w] by simp
    also have "lex L LSpace (CHR '' '' # ?tail @ rest) = lex L LSpace (?tail @ rest)"
      by (simp add: lex_start_def lex_space_def)
    finally show ?thesis using Cons.IH by simp
  qed
qed simp

lemma shlex_quote_head:
  obtains c cs where "shlex_quote w = c # cs" "shell_safe c \<or> c = quote_char"
proof (cases "list_all shell_safe w")
  case True
  then show ?thesis using that by (cases w) (simp_all add: shlex_quote_def)
next
  case False
  then have "shlex_quote w = quote_char # quote_body w @ [quote_char]" by (auto simp: shlex_quote_def)
  then show ?thesis using that by blast
qed

text \<open>Punctuation ends where a quoted word begins.\<close>

lemma lex_punct_then:
  assumes "plain_lexer L" and "tok \<noteq> []"
  shows "lex L (LPunct tok) (shlex_quote w @ rest) = emit_all [tok] (lex L LSpace (shlex_quote w @ rest))"
proof -
  obtain c cs where c: "shlex_quote w = c # cs" "shell_safe c \<or> c = quote_char" by (rule shlex_quote_head)
  have "\<not> lex_space c" "c \<notin> set (lx_commenters L)" "c \<notin> set (lx_punctuation L)"
    using c(2) safe_not_special[of c] plain_safe[OF assms(1), of c] plain_quote[OF assms(1), of c] by auto
  then show ?thesis using c(1) assms(2) by (simp add: emit_word)
qed

lemma split_of_join: "shlex_split (shlex_join ws) = Inr ws"
  using lex_join_then[of split_lexer "[]" ws] by (simp add: shlex_split_def shlex_tokens_def)

lemma join_inject: "shlex_join ws = shlex_join vs \<longleftrightarrow> ws = vs"
  using split_of_join by (metis sum.inject(2))

end
