(* ===== verification/Command_Policy.thy ===== *)
theory Command_Policy
  imports Shlex Json
begin

text \<open>
  \<open>core/tools/inspector.py\<close>: the preflight policy of \<open>run_command\<close>. A call is resolved to a command
  line and, for shells, wrappers and \<open>find -exec\<close>, to the lines of the commands it really runs; each
  line is searched for the configured deny expressions, then the binary is looked up in the allowlists.
  A compiled expression is the predicate its \<open>search\<close> method computes on a line. \<open>json.loads\<close>, used for
  an argument list that arrives as text, is the argument \<open>loads\<close>, with its error text on the left.
  The properties: quoting an argument list is injective and undone by splitting, a denied command is denied
  wherever it stands in a shell script that is built from quoted words, a call that is allowed ran
  through every check, and two scripts whose second command escapes the screening.
\<close>

section \<open>Data\<close>

datatype decision_kind = DAllow | DDeny | DConfirm

datatype grant_kind = GrantCommand | GrantPath

record decision =
  d_kind :: decision_kind
  d_message :: "string option"
  d_grant_key :: "string option"
  d_grant_kind :: "grant_kind option"
  d_error_code :: "string option"
  d_error_kind :: "string option"

definition plain_decision :: "decision_kind \<Rightarrow> string option \<Rightarrow> decision" where
  \<comment> \<open>the optional fields left at their default\<close>
  "plain_decision k m = \<lparr>d_kind = k, d_message = m, d_grant_key = None, d_grant_kind = None,
     d_error_code = None, d_error_kind = None\<rparr>"

record inspector_call =
  ic_call_id :: string
  ic_name :: string
  ic_args :: jdict

record command_policy =
  cp_allowed_commands :: "string list"
  cp_allowed_path_prefixes :: "string list"
  cp_deny_patterns :: "string list"

datatype denial_text = PlainDenial string | JsonDenial jdict

definition format_denial :: "string option \<Rightarrow> string option \<Rightarrow> string option \<Rightarrow> denial_text" where
  \<comment> \<open>the object of \<open>JsonDenial\<close> is printed with \<open>json.dumps\<close>\<close>
  "format_denial message code error_kind =
     (let truthy = (\<lambda>v. v \<noteq> None \<and> v \<noteq> Some []);
          txt = (if truthy message then the message else ''tool call denied'');
          kind = (if truthy error_kind then error_kind else if truthy code then Some ''policy'' else None)
      in (case kind of
            None \<Rightarrow> PlainDenial txt
          | Some k \<Rightarrow> JsonDenial (
              [(''ok'', JBool False), (''error_kind'', JStr k), (''message'', JStr txt),
               (''hint'', JStr (if code = Some ''credential_denied''
                  then ''A folder grant does not unlock a credential file. Do not copy, move, or symlink it into the workspace to get around this.''
                  else ''This call is denied by policy. Do not work around the denial.''))]
              @ (if truthy code then [(''details'', JObj [(''code'', JStr (the code))])] else []))))"

section \<open>The argument list of a call\<close>

definition coerce_run_command_argv ::
    "(string \<Rightarrow> string + json) \<Rightarrow> json option \<Rightarrow> string + string list option" where
  "coerce_run_command_argv loads raw = (case raw of
       None \<Rightarrow> Inr None
     | Some JNull \<Rightarrow> Inr None
     | Some (JList vs) \<Rightarrow> Inr (if vs = [] then None else Some (map py_str_json vs))
     | Some (JStr s) \<Rightarrow>
         (let stripped = py_strip s
          in if stripped = [] then Inr None
             else if \<not> startswith stripped ''['' then Inl ''argv must be an array (or JSON array string), got string''
             else (case loads stripped of
                 Inl e \<Rightarrow> Inl (''argv must be an array (or JSON array string), got string that is not valid JSON: '' @ e)
               | Inr parsed \<Rightarrow> (case parsed of
                     JList (v # vs) \<Rightarrow> Inr (Some (map py_str_json (v # vs)))
                   | _ \<Rightarrow> Inl (''argv must be a non-empty array (or JSON array string), got JSON '' @ py_type_name parsed))))
     | Some v \<Rightarrow> Inl (''argv must be an array (or JSON array string), got '' @ py_type_name v))"

definition nonblank_text :: "json option \<Rightarrow> string option" where
  \<comment> \<open>\<open>isinstance(v, str) and v.strip()\<close>, stripped\<close>
  "nonblank_text v = (case v of Some (JStr s) \<Rightarrow> if py_strip s = [] then None else Some (py_strip s) | _ \<Rightarrow> None)"

definition not_null :: "json option \<Rightarrow> bool" where
  "not_null v \<longleftrightarrow> v \<noteq> None \<and> v \<noteq> Some JNull"

definition extra_args :: "jdict \<Rightarrow> json option" where
  "extra_args args = (if not_null (dict_get args ''args'') then dict_get args ''args'' else dict_get args ''arguments'')"

definition shell_arg :: "jdict \<Rightarrow> json option" where
  \<comment> \<open>\<open>args.get("shell") or args.get("script")\<close>\<close>
  "shell_arg args = (case dict_get args ''shell'' of
       Some v \<Rightarrow> if json_truthy v then Some v else dict_get args ''script'' | None \<Rightarrow> dict_get args ''script'')"

definition norm_run_command_line :: "(string \<Rightarrow> string + json) \<Rightarrow> jdict \<Rightarrow> string + string option" where
  "norm_run_command_line loads args =
     bind_result (coerce_run_command_argv loads (dict_get args ''argv'')) (\<lambda>argv.
       case argv of
         Some ws \<Rightarrow> Inr (Some (shlex_join ws))
       | None \<Rightarrow> (case nonblank_text (dict_get args ''command'') of
           Some cmd \<Rightarrow> (case extra_args args of
               Some (JList (v # vs)) \<Rightarrow> Inr (Some (shlex_join (cmd # map py_str_json (v # vs))))
             | _ \<Rightarrow> bind_result (shlex_split cmd) (\<lambda>parts.
                 if 1 < length parts then Inr (Some (shlex_join parts))
                 else Inr (Some (join_on '' '' (py_split cmd)))))
         | None \<Rightarrow> (case nonblank_text (shell_arg args) of
             Some sh \<Rightarrow> Inr (Some (join_on '' '' (py_split sh)))
           | None \<Rightarrow> Inr None)))"

section \<open>Paths and words\<close>

definition path_parts :: "string \<Rightarrow> string list" where
  "path_parts s = filter (\<lambda>p. p \<noteq> [] \<and> p \<noteq> ''.'') (split_on (CHR ''/'') s)"

definition path_root :: "string \<Rightarrow> string" where
  \<comment> \<open>POSIX keeps exactly two leading slashes apart\<close>
  "path_root s = (let n = length (takeWhile (\<lambda>c. c = CHR ''/'') s)
     in if n = 0 then [] else if n = 2 then ''//'' else ''/'')"

definition path_name :: "string \<Rightarrow> string" where
  \<comment> \<open>\<open>Path(s).name\<close>\<close>
  "path_name s = (if path_parts s = [] then [] else last (path_parts s))"

definition path_parent :: "string \<Rightarrow> string" where
  \<comment> \<open>\<open>str(Path(s).parent)\<close>\<close>
  "path_parent s = (let t = path_root s @ join_on ''/'' (butlast (path_parts s)) in if t = [] then ''.'' else t)"

definition str_isdigit :: "string \<Rightarrow> bool" where
  \<comment> \<open>\<open>s.isdigit()\<close>, which also counts the three superscript digits below 256\<close>
  "str_isdigit s \<longleftrightarrow> s \<noteq> [] \<and> list_all (\<lambda>c. py_isdigit c \<or> of_char c \<in> {178, 179, 185 :: nat}) s"

definition ascii_letter :: "char \<Rightarrow> bool" where
  "ascii_letter c \<longleftrightarrow> c \<in> set ''abcdefghijklmnopqrstuvwxyzABCDEFGHIJKLMNOPQRSTUVWXYZ''"

definition is_assignment :: "string \<Rightarrow> bool" where
  \<comment> \<open>\<open>_ASSIGNMENT_RE\<close>\<close>
  "is_assignment s = (case s of [] \<Rightarrow> False | c # cs \<Rightarrow>
     (ascii_letter c \<or> c = CHR ''_'')
     \<and> (case dropWhile (\<lambda>d. ascii_letter d \<or> py_isdigit d \<or> d = CHR ''_'') cs of
          [] \<Rightarrow> False | d # _ \<Rightarrow> d = CHR ''=''))"

definition is_shell_c_flag :: "string \<Rightarrow> bool" where
  \<comment> \<open>\<open>_SHELL_C_FLAG_RE\<close>: the end anchor also matches before one final newline\<close>
  "is_shell_c_flag s = (let t = (if s \<noteq> [] \<and> last s = nl then butlast s else s)
     in (case t of [] \<Rightarrow> False | c # cs \<Rightarrow> c = CHR ''-'' \<and> list_all ascii_letter cs \<and> CHR ''c'' \<in> set cs))"

definition shell_operator_tokens :: "string list" where
  "shell_operator_tokens = [''&&'', ''||'', '';'', ''|'', ''&'']"

definition shell_binaries :: "string list" where
  "shell_binaries = [''bash'', ''sh'', ''zsh'', ''dash'']"

definition shell_punctuation :: string where
  "shell_punctuation = ''();<>|&''"

definition max_shell_nesting :: nat where
  "max_shell_nesting = 3"

definition shell_value_opts :: "string list" where
  "shell_value_opts = [''-o'', ''+o'', ''-O'', ''+O'', ''--rcfile'', ''--init-file'']"

definition command_prefix_words :: "string list" where
  "command_prefix_words = [''if'', ''then'', ''elif'', ''else'', ''while'', ''until'', ''do'', ''!'', ''{'',
     ''time'', ''exec'', ''command'', ''builtin'', ''nohup'']"

definition wrapper_value_opts :: "(string, string list) dict" where
  "wrapper_value_opts =
     [(''env'', [''-u'', ''--unset'', ''-C'', ''--chdir'']),
      (''nice'', [''-n'', ''--adjustment'']),
      (''timeout'', [''-s'', ''--signal'', ''-k'', ''--kill-after'']),
      (''stdbuf'', [''-i'', ''-o'', ''-e'']),
      (''xargs'', [''-I'', ''-n'', ''-P'', ''-L'', ''-d'', ''-E'', ''-s'', ''-a'']),
      (''sudo'', [''-u'', ''-g'', ''-C'', ''-h'', ''-p''])]"

definition wrapper_positionals :: "string \<Rightarrow> nat" where
  "wrapper_positionals name = (if name = ''timeout'' then 1 else 0)"

definition system_bin_dirs :: "string list" where
  "system_bin_dirs = [''/bin'', ''/usr/bin'', ''/usr/local/bin'', ''/sbin'', ''/usr/sbin'']"

definition find_exec_flags :: "string list" where
  "find_exec_flags = [''-exec'', ''-execdir'', ''-ok'', ''-okdir'']"

section \<open>Screening a shell script\<close>

definition scanned :: "string \<Rightarrow> string \<Rightarrow> string + string \<times> string \<Rightarrow> string + string \<times> string" where
  "scanned a b r = (case r of Inl e \<Rightarrow> Inl e | Inr (x, y) \<Rightarrow> Inr (a @ x, b @ y))"

function scan_script :: "char option \<Rightarrow> string \<Rightarrow> string + string \<times> string" where
  \<comment> \<open>the open quote, the rest of the script; the left is the text of \<open>UnscreenableScript\<close>\<close>
  "scan_script q [] = Inr ([], [])"
| "scan_script q (c # cs) =
     (if q = Some quote_char then
        scanned [c] (if c = quote_char then [c] else '' '') (scan_script (if c = quote_char then None else q) cs)
      else if c = backslash \<and> cs \<noteq> [] then
        (if hd cs = nl \<and> q = None then scanned '' '' '' '' (scan_script q (tl cs))
         else scanned [c, hd cs] (if hd cs = CHR ''$'' \<or> hd cs = CHR 0x60 then ''  '' else [c, hd cs])
                (scan_script q (tl cs)))
      else if q = None \<and> c = CHR ''$'' \<and> take 1 cs = [quote_char] then
        Inl (''ANSI-C $'' @ [quote_char] @ ''...'' @ [quote_char] @ '' quoting'')
      else if q = None \<and> c = CHR ''<'' \<and> take 2 cs = ''<<'' then
        scanned ''<<<'' ''<<<'' (scan_script q (drop 2 cs))
      else if q = None \<and> c = CHR ''<'' \<and> take 1 cs = ''<'' then Inl ''heredoc''
      else if c = nl \<and> q = None then scanned '';'' [nl] (scan_script q cs)
      else scanned [c] [c]
             (scan_script (if lex_quote c \<and> (q = None \<or> q = Some c) then (if q = None then Some c else None) else q) cs))"
  by pat_completeness auto
termination by (relation "measure (length \<circ> snd)") auto

function substitutions :: "string \<Rightarrow> string list" where
  \<comment> \<open>the bodies \<open>_SUBSTITUTION_RE.finditer\<close> finds: command substitutions without inner parentheses, and backticks\<close>
  "substitutions [] = []"
| "substitutions (c # cs) =
     (if c = CHR ''$'' \<and> take 1 cs = ''('' then
        (let body = takeWhile (\<lambda>d. d \<noteq> CHR ''('' \<and> d \<noteq> CHR '')'') (tl cs);
             after = dropWhile (\<lambda>d. d \<noteq> CHR ''('' \<and> d \<noteq> CHR '')'') (tl cs)
         in if take 1 after = '')'' then body # substitutions (tl after) else substitutions cs)
      else if c = CHR 0x60 then
        (let body = takeWhile (\<lambda>d. d \<noteq> CHR 0x60) cs; after = dropWhile (\<lambda>d. d \<noteq> CHR 0x60) cs
         in if after \<noteq> [] then body # substitutions (tl after) else substitutions cs)
      else substitutions cs)"
  by pat_completeness auto
termination
proof (relation "measure length")
  fix c :: char and cs body after :: string
  assume "after = dropWhile (\<lambda>d. d \<noteq> CHR ''('' \<and> d \<noteq> CHR '')'') (tl cs)"
  then have "length after \<le> length (tl cs)" using length_dropWhile_le[of _ "tl cs"] by simp
  then show "(tl after, c # cs) \<in> measure length" by simp
next
  fix c :: char and cs body after :: string
  assume "after = dropWhile (\<lambda>d. d \<noteq> CHR 0x60) cs"
  then have "length after \<le> length cs" using length_dropWhile_le[of _ cs] by simp
  then show "(tl after, c # cs) \<in> measure length" by simp
qed auto

definition all_punctuation :: "string \<Rightarrow> bool" where
  "all_punctuation t \<longleftrightarrow> t \<noteq> [] \<and> list_all (\<lambda>c. c \<in> set shell_punctuation) t"

definition is_redirect :: "string \<Rightarrow> bool" where
  "is_redirect t \<longleftrightarrow> (CHR ''<'' \<in> set t \<or> CHR ''>'' \<in> set t) \<and> \<not> endswith t ''(''"

fun simple_commands :: "string list \<Rightarrow> bool \<Rightarrow> string list \<Rightarrow> string list list" where
  \<comment> \<open>the token loop: the words collected so far, whether the next token is a redirect target\<close>
  "simple_commands current skip_target [] = []"
| "simple_commands current skip_target (t # ts) =
     (if skip_target then simple_commands current False ts
      else if all_punctuation t then
        (if is_redirect t then
           simple_commands (if current \<noteq> [] \<and> str_isdigit (last current) then butlast current else current) True ts
         else (if current \<noteq> [] then [current] else []) @ simple_commands [] False ts)
      else simple_commands (current @ [t]) False ts)"

fun skip_wrapper_args :: "string \<Rightarrow> string list \<Rightarrow> nat \<Rightarrow> string list \<Rightarrow> string list" where
  \<comment> \<open>the inner loop of \<open>_strip_command_prefixes\<close>\<close>
  "skip_wrapper_args name value_opts positionals [] = []"
| "skip_wrapper_args name value_opts positionals [a] =
     (if a = ''--'' \<or> a \<in> set value_opts then []
      else if (startswith a ''-'' \<and> 1 < length a) \<or> (name = ''env'' \<and> is_assignment a) then []
      else if 0 < positionals then [] else [a])"
| "skip_wrapper_args name value_opts positionals (a # b # as) =
     (if a = ''--'' then b # as
      else if a \<in> set value_opts then skip_wrapper_args name value_opts positionals as
      else if (startswith a ''-'' \<and> 1 < length a) \<or> (name = ''env'' \<and> is_assignment a) then
        skip_wrapper_args name value_opts positionals (b # as)
      else if 0 < positionals then skip_wrapper_args name value_opts (positionals - 1) (b # as)
      else a # b # as)"

lemma length_skip_wrapper_args: "length (skip_wrapper_args name opts n as) \<le> length as"
  by (induction name opts n as rule: skip_wrapper_args.induct) auto

function command_tail :: "string list \<Rightarrow> string list" where
  "command_tail [] = []"
| "command_tail (t # ts) =
     (if t \<in> set command_prefix_words \<or> is_assignment t then command_tail ts
      else (case dict_get wrapper_value_opts (path_name t) of
          Some opts \<Rightarrow>
            command_tail (skip_wrapper_args (path_name t) opts (wrapper_positionals (path_name t)) ts)
        | None \<Rightarrow> t # ts))"
  by pat_completeness auto
termination
  by (relation "measure length") (simp_all add: le_imp_less_Suc length_skip_wrapper_args)

definition strip_command_prefixes :: "string list \<Rightarrow> string list" where
  "strip_command_prefixes argv = filter (\<lambda>a. a \<noteq> []) (command_tail argv)"

fun script_operand :: "string list \<Rightarrow> string option" where
  \<comment> \<open>the option loop of \<open>shell_script_arg\<close>\<close>
  "script_operand (a # b # as) =
     (if is_shell_c_flag a then Some b
      else if a \<in> set shell_value_opts then script_operand as
      else if \<not> (startswith a ''-'' \<or> startswith a ''+'') then None
      else script_operand (b # as))"
| "script_operand _ = None"

definition shell_script_arg :: "string list \<Rightarrow> string option" where
  "shell_script_arg argv =
     (if length argv < 3 \<or> path_name (hd argv) \<notin> set shell_binaries then None
      else script_operand (tl argv))"

fun find_exec_commands :: "string list \<Rightarrow> string list list" where
  \<comment> \<open>the argument lists after each \<open>-exec\<close>-like flag\<close>
  "find_exec_commands [] = []"
| "find_exec_commands (a # as) =
     (let cmd = takeWhile (\<lambda>t. t \<noteq> '';'' \<and> t \<noteq> ''+'') as
      in (if a \<in> set find_exec_flags \<and> cmd \<noteq> [] then [cmd] else []) @ find_exec_commands as)"

definition own_lines :: "string list \<Rightarrow> string list" where
  \<comment> \<open>the lines \<open>_command_lines\<close> makes from one argument list alone\<close>
  "own_lines argv =
     (let inner = strip_command_prefixes argv
      in [shlex_join argv]
         @ (if inner \<noteq> [] \<and> inner \<noteq> argv then [shlex_join inner] else [])
         @ (if inner \<noteq> [] \<and> path_parent (hd inner) \<in> set system_bin_dirs
            then [shlex_join (path_name (hd inner) # tl inner)] else []))"

definition runs_dynamic_code :: "string list \<Rightarrow> bool" where
  "runs_dynamic_code inner \<longleftrightarrow> inner \<noteq> [] \<and> path_name (hd inner) \<in> set [''eval'', ''source'', ''.''] \<and> 1 < length inner"

function split_shell_script :: "string \<Rightarrow> nat \<Rightarrow> string + string list"
  and command_lines :: "string list \<Rightarrow> nat \<Rightarrow> string + string list" where
  "split_shell_script script depth =
     bind_result (scan_script None script) (\<lambda>(separated, substitutable).
     bind_result (if depth < max_shell_nesting
                  then map_result (\<lambda>body. split_shell_script body (Suc depth)) (substitutions substitutable)
                  else Inr []) (\<lambda>inner.
     case shlex_tokens script_lexer separated of
       Inl e \<Rightarrow> Inl ''unparseable quoting''
     | Inr tokens \<Rightarrow>
         bind_result (map_result (\<lambda>argv. command_lines argv depth) (simple_commands [] False (tokens @ ['';'']))) (\<lambda>lines.
           Inr (concat inner @ concat lines))))"
| "command_lines argv depth =
     (let inner = strip_command_prefixes argv
      in bind_result (case shell_script_arg inner of
             None \<Rightarrow> Inr []
           | Some nested \<Rightarrow>
               if max_shell_nesting \<le> depth then Inl ''deeply nested shell''
               else split_shell_script nested (Suc depth)) (\<lambda>nested_lines.
         if runs_dynamic_code inner then Inl (path_name (hd inner) @ '' runs dynamic code'')
         else bind_result (if inner \<noteq> [] \<and> path_name (hd inner) = ''find'' \<and> depth < max_shell_nesting
                then map_result (\<lambda>cmd. command_lines cmd (Suc depth)) (find_exec_commands inner)
                else Inr []) (\<lambda>find_lines.
         Inr (own_lines argv @ nested_lines @ concat find_lines))))"
  by pat_completeness auto
termination
  by (relation "measure (\<lambda>x. case x of Inl (s, d) \<Rightarrow> 2 * (max_shell_nesting - d) + 1 | Inr (a, d) \<Rightarrow> 2 * (max_shell_nesting - d))")
    (auto simp: max_shell_nesting_def)

declare split_shell_script.simps [simp del] command_lines.simps [simp del]

section \<open>Which binary a call runs\<close>

definition needs_shell_wrapper :: "string \<Rightarrow> string list \<Rightarrow> bool" where
  "needs_shell_wrapper stripped parts \<longleftrightarrow>
     list_ex (\<lambda>p. p \<in> set shell_operator_tokens) parts \<or> list_ex (text_contains stripped) shell_operator_tokens"

definition argv_from_command_string :: "string \<Rightarrow> string + string \<times> string list" where
  "argv_from_command_string stripped =
     (if \<not> list_ex py_isspace stripped then
        bind_result (shlex_split stripped) (\<lambda>parts.
          if parts \<noteq> [] \<and> needs_shell_wrapper stripped parts then Inr (''bash'', [''-c'', stripped])
          else Inr (stripped, []))
      else bind_result (shlex_split stripped) (\<lambda>parts.
          if parts = [] then Inr (stripped, [])
          else if needs_shell_wrapper stripped parts then Inr (''bash'', [''-c'', stripped])
          else Inr (hd parts, tl parts)))"

definition parse_run_command :: "(string \<Rightarrow> string + json) \<Rightarrow> jdict \<Rightarrow> string + string \<times> string list" where
  "parse_run_command loads args =
     bind_result (coerce_run_command_argv loads (dict_get args ''argv'')) (\<lambda>argv.
       case argv of
         Some (w # ws) \<Rightarrow> Inr (w, ws)
       | _ \<Rightarrow> (case nonblank_text (dict_get args ''command'') of
           Some cmd \<Rightarrow> (case extra_args args of
               Some (JList (v # vs)) \<Rightarrow> Inr (cmd, map py_str_json (v # vs))
             | _ \<Rightarrow> argv_from_command_string cmd)
         | None \<Rightarrow> (case nonblank_text (shell_arg args) of
             Some sh \<Rightarrow> bind_result (shlex_split sh) (\<lambda>parts.
               if parts = [] then Inl ''shell/script is empty after parsing'' else argv_from_command_string sh)
           | None \<Rightarrow> Inl ''run_command needs one of: argv (non-empty list), command+args/arguments, or shell/script (parsed with shlex)'')))"

definition shell_script_segments :: "(string \<Rightarrow> string + json) \<Rightarrow> jdict \<Rightarrow> string + string list" where
  "shell_script_segments loads args =
     (case parse_run_command loads args of
        Inl e \<Rightarrow> Inr []
      | Inr (binary, rest) \<Rightarrow> command_lines (binary # rest) 0)"

section \<open>The policy file\<close>

definition default_deny_patterns :: "string list" where
  "default_deny_patterns =
     [''pip3?'' @ [backslash] @ ''s+install'',
      ''python3?'' @ [backslash] @ ''s+-m'' @ [backslash] @ ''s+pip'' @ [backslash] @ ''s+install'',
      ''(^|'' @ [backslash] @ ''s)uv'' @ [backslash] @ ''s+(add|remove|sync|pip'' @ [backslash] @ ''s+install|pip'' @ [backslash] @ ''s+sync)'',
      ''(^|'' @ [backslash] @ ''s)poetry'' @ [backslash] @ ''s+(add|install)'',
      ''(^|'' @ [backslash] @ ''s)conda'' @ [backslash] @ ''s+install'',
      ''(^|'' @ [backslash] @ ''s)(npm|pnpm|yarn)'' @ [backslash] @ ''s+(install|add|i)('' @ [backslash] @ ''s|$)'',
      ''(^|'' @ [backslash] @ ''s)(apt|apt-get)'' @ [backslash] @ ''s+install'',
      ''(^|'' @ [backslash] @ ''s)brew'' @ [backslash] @ ''s+install'']"

definition allowed_commands_default :: "string list" where
  "allowed_commands_default = [''cat'', ''ls'', ''grep'', ''rg'', ''echo'', ''python'', ''python3'', ''uv'', ''git'',
     ''gh'', ''bash'', ''mempalace'']"

definition allowed_paths_default :: "string list" where
  "allowed_paths_default = [''../memory/'', ''../memory'', ''./skills/'', ''./skills'', ''./global-skills/'',
     ''./global-skills'', ''./test-data/'', ''./code/'', ''./code'']"

definition text_item :: "json \<Rightarrow> string option" where
  \<comment> \<open>an item that is a string and not blank, as it is\<close>
  "text_item v = (case v of JStr s \<Rightarrow> if py_strip s = [] then None else Some s | _ \<Rightarrow> None)"

fun text_items :: "string \<Rightarrow> nat \<Rightarrow> json list \<Rightarrow> string + string list" where
  "text_items key i [] = Inr []"
| "text_items key i (v # vs) = (case text_item v of
       None \<Rightarrow> Inl ([quote_char] @ key @ ''['' @ str_of_nat i @ '']'' @ [quote_char] @ '' must be a non-empty string'')
     | Some s \<Rightarrow> bind_result (text_items key (Suc i) vs) (\<lambda>ss. Inr (s # ss)))"

definition optional_nonempty_str_list :: "jdict \<Rightarrow> string \<Rightarrow> string + string list option" where
  "optional_nonempty_str_list data key = (case dict_get data key of
       None \<Rightarrow> Inr None
     | Some (JList (v # vs)) \<Rightarrow> bind_result (text_items key 0 (v # vs)) (\<lambda>ss. Inr (Some ss))
     | Some _ \<Rightarrow> Inl ([quote_char] @ key @ [quote_char] @ '' must be a non-empty list of strings when present''))"

definition obsolete_key_reason :: "string \<Rightarrow> string" where
  "obsolete_key_reason key =
     ''obsolete key '' @ py_repr key @ '': tier-based policy was removed; use '' @ [quote_char] @ ''allowed_commands''
     @ [quote_char] @ '', '' @ [quote_char] @ ''allowed_path_prefixes'' @ [quote_char] @ '', and optional ''
     @ [quote_char] @ ''deny_patterns'' @ [quote_char]"

definition load_command_tier_policy :: "json \<Rightarrow> string + command_policy" where
  \<comment> \<open>from the parsed YAML document; the left is the reason of \<open>CommandTierConfigError\<close>\<close>
  "load_command_tier_policy doc = (case doc of
       JNull \<Rightarrow> Inl ''file is empty''
     | JObj data \<Rightarrow>
         if dict_get data ''tier_order'' \<noteq> None then Inl (obsolete_key_reason ''tier_order'')
         else if dict_get data ''default'' \<noteq> None then Inl (obsolete_key_reason ''default'')
         else bind_result (optional_nonempty_str_list data ''allowed_commands'') (\<lambda>ac.
           bind_result (optional_nonempty_str_list data ''allowed_path_prefixes'') (\<lambda>ap.
           bind_result (case dict_get data ''deny_patterns'' of
                None \<Rightarrow> Inr default_deny_patterns
              | Some JNull \<Rightarrow> Inr default_deny_patterns
              | Some (JList vs) \<Rightarrow> text_items ''deny_patterns'' 0 vs
              | Some _ \<Rightarrow> Inl ([quote_char] @ ''deny_patterns'' @ [quote_char] @ '' must be a list of strings when present''))
            (\<lambda>deny.
              Inr \<lparr>cp_allowed_commands = (case ac of None \<Rightarrow> allowed_commands_default | Some xs \<Rightarrow> xs),
                   cp_allowed_path_prefixes = (case ap of None \<Rightarrow> allowed_paths_default | Some xs \<Rightarrow> xs),
                   cp_deny_patterns = deny\<rparr>)))
     | _ \<Rightarrow> Inl ''root must be a mapping'')"

section \<open>The inspectors\<close>

record command_inspector =
  ci_policy :: command_policy
  ci_deny_regexes :: "(string \<Rightarrow> bool) list"
  ci_grants :: "string list option"

definition binary_allowed :: "command_inspector \<Rightarrow> string set \<Rightarrow> string \<Rightarrow> bool" where
  \<comment> \<open>\<open>ci_grants\<close>: the command names of the grant store, if one is configured\<close>
  "binary_allowed insp turn_command_grants binary \<longleftrightarrow>
     binary \<in> set (cp_allowed_commands (ci_policy insp))
     \<or> (case ci_grants insp of None \<Rightarrow> False | Some names \<Rightarrow> binary \<in> set names)
     \<or> binary \<in> turn_command_grants"

definition unscreenable_message :: "string \<Rightarrow> string" where
  "unscreenable_message e = ''run_command script uses '' @ e @ '' and cannot be screened against deny_patterns; run the steps as separate argv calls or write the content with write_file''"

definition check_command ::
    "(string \<Rightarrow> string + json) \<Rightarrow> command_inspector \<Rightarrow> string set \<Rightarrow> inspector_call \<Rightarrow> decision" where
  \<comment> \<open>\<open>CommandTierInspector.check\<close>\<close>
  "check_command loads insp turn_command_grants call =
     (if ic_name call \<noteq> ''run_command'' then plain_decision DAllow None
      else (case norm_run_command_line loads (ic_args call) of
          Inl e \<Rightarrow> plain_decision DDeny (Some e)
        | Inr line \<Rightarrow>
            if line = None \<or> line = Some [] then
              plain_decision DDeny (Some ''run_command policy check needs argv, command, or shell/script'')
            else (let screened = (\<lambda>segments.
                 if list_ex (\<lambda>rx. list_ex rx (the line # segments)) (ci_deny_regexes insp) then
                   plain_decision DDeny (Some ''denied by run_command deny_patterns policy'')
                 else (case parse_run_command loads (ic_args call) of
                     Inl e \<Rightarrow> plain_decision DAllow None
                   | Inr (binary, rest) \<Rightarrow>
                       if binary_allowed insp turn_command_grants binary then plain_decision DAllow None
                       else (plain_decision DConfirm
                           (Some ([CHR 0x60] @ binary @ [CHR 0x60] @ '' is not on the allowed-commands list yet.'')))
                         \<lparr>d_grant_key := Some binary, d_grant_kind := Some GrantCommand\<rparr>))
               in (case shell_script_segments loads (ic_args call) of
                    Inl e \<Rightarrow> if ci_deny_regexes insp \<noteq> []
                       then (plain_decision DDeny (Some (unscreenable_message e)))\<lparr>d_error_kind := Some ''policy''\<rparr>
                       else screened []
                  | Inr segments \<Rightarrow> screened segments))))"

fun check_rules :: "string list \<Rightarrow> inspector_call \<Rightarrow> decision" where
  \<comment> \<open>\<open>RulesInspector.check\<close>\<close>
  "check_rules [] call = plain_decision DAllow None"
| "check_rules (p # ps) call =
     (if text_contains (py_repr_json (JObj (ic_args call))) p
      then plain_decision DDeny (Some (''Blocked by rules: '' @ p)) else check_rules ps call)"

section \<open>Scripts of quoted words\<close>

definition script_operators :: "string list" where
  "script_operators = [nl] # shell_operator_tokens"

definition operator_text :: "string \<Rightarrow> string" where
  \<comment> \<open>how an operator stands between two commands\<close>
  "operator_text oper = (if oper = [nl] then [nl] else '' '' @ oper @ '' '')"

definition operator_token :: "string \<Rightarrow> string" where
  "operator_token oper = (if oper = [nl] then '';'' else oper)"

fun script_of :: "string list \<Rightarrow> (string \<times> string list) list \<Rightarrow> string" where
  \<comment> \<open>a first command, then operators and further commands, every word quoted\<close>
  "script_of c [] = shlex_join c"
| "script_of c ((oper, d) # rest) = shlex_join c @ operator_text oper @ script_of d rest"

definition words_ok :: "string list \<Rightarrow> bool" where
  \<comment> \<open>a command of at least one word, none of which looks like an operator\<close>
  "words_ok c \<longleftrightarrow> c \<noteq> [] \<and> list_all (\<lambda>w. \<not> all_punctuation w) c"

definition script_shape :: "string list \<Rightarrow> (string \<times> string list) list \<Rightarrow> bool" where
  "script_shape c rest \<longleftrightarrow> c \<noteq> [] \<and> list_all (\<lambda>(oper, d). oper \<in> set script_operators \<and> d \<noteq> []) rest"

definition script_ok :: "string list \<Rightarrow> (string \<times> string list) list \<Rightarrow> bool" where
  "script_ok c rest \<longleftrightarrow> words_ok c \<and> list_all (\<lambda>(oper, d). oper \<in> set script_operators \<and> words_ok d) rest"

subsection \<open>The scanner leaves quoted words alone\<close>

definition no_substitution :: "string \<Rightarrow> bool" where
  "no_substitution s \<longleftrightarrow> CHR ''$'' \<notin> set s \<and> CHR 0x60 \<notin> set s"

lemma substitutions_none: "no_substitution s \<Longrightarrow> substitutions s = []"
  by (induction s rule: substitutions.induct) (auto simp: no_substitution_def)

definition scans :: "char option \<Rightarrow> string \<Rightarrow> char option \<Rightarrow> string \<Rightarrow> bool" where
  \<comment> \<open>\<open>s\<close> is copied and leaves no substitution, whatever follows\<close>
  "scans q s q' s' \<longleftrightarrow> (\<forall>rest. \<exists>b. no_substitution b \<and> scan_script q (s @ rest) = scanned s' b (scan_script q' rest))"

lemma scanned_scanned [simp]: "scanned a b (scanned c d r) = scanned (a @ c) (b @ d) r"
  by (auto simp: scanned_def split: sum.splits)

lemma scanned_Nil [simp]: "scanned [] [] r = r"
  by (auto simp: scanned_def split: sum.splits)

lemma scans_Nil: "scans q [] q []"
  unfolding scans_def by (auto intro!: exI[of _ "[]"] simp: no_substitution_def)

lemma scans_append:
  assumes "scans q s q' s'" and "scans q' t q'' t'"
  shows "scans q (s @ t) q'' (s' @ t')"
  unfolding scans_def
proof
  fix rest
  obtain b where b: "no_substitution b" "scan_script q (s @ t @ rest) = scanned s' b (scan_script q' (t @ rest))"
    using assms(1) unfolding scans_def by blast
  obtain d where d: "no_substitution d" "scan_script q' (t @ rest) = scanned t' d (scan_script q'' rest)"
    using assms(2) unfolding scans_def by blast
  show "\<exists>b. no_substitution b \<and> scan_script q ((s @ t) @ rest) = scanned (s' @ t') b (scan_script q'' rest)"
    using b d by (intro exI[of _ "b @ d"]) (simp add: no_substitution_def)
qed

lemma scans_char:
  assumes "\<And>rest. scan_script q (c # rest) = scanned [c] [d] (scan_script q' rest)"
    and "d \<noteq> CHR ''$''" and "d \<noteq> CHR 0x60"
  shows "scans q [c] q' [c]"
  unfolding scans_def using assms by (auto intro!: exI[of _ "[d]"] simp: no_substitution_def)

lemma unsafe_chars: "\<not> shell_safe (CHR ''$'')" "\<not> shell_safe (CHR ''<'')" "\<not> shell_safe (CHR 0x60)" "\<not> shell_safe nl"
  by code_simp+

lemma scans_safe:
  assumes "shell_safe c"
  shows "scans None [c] None [c]"
proof (rule scans_char[where d = c])
  have ne: "c \<noteq> CHR ''$''" "c \<noteq> CHR ''<''" "c \<noteq> CHR 0x60" "c \<noteq> nl"
    using assms unsafe_chars by (metis, metis, metis, metis)
  then show "c \<noteq> CHR ''$''" "c \<noteq> CHR 0x60" by simp_all
  show "scan_script None (c # rest) = scanned [c] [c] (scan_script None rest)" for rest
    using ne safe_not_special[OF assms] by simp
qed

lemma scans_safe_run: "list_all shell_safe s \<Longrightarrow> scans None s None s"
proof (induction s)
  case (Cons c cs)
  then show ?case using scans_append[OF scans_safe[of c], of cs None cs] by simp
qed (simp add: scans_Nil)

lemma scans_open: "scans None [quote_char] (Some quote_char) [quote_char]"
  by (rule scans_char[where d = quote_char]) (simp_all add: quote_char_def nl_def backslash_def lex_quote_def)

lemma scans_close: "scans (Some quote_char) [quote_char] None [quote_char]"
  by (rule scans_char[where d = quote_char]) (simp_all add: quote_char_def)

lemma scans_inside: "c \<noteq> quote_char \<Longrightarrow> scans (Some quote_char) [c] (Some quote_char) [c]"
  by (rule scans_char[where d = "CHR '' ''"]) simp_all

lemma scans_dquoted: "scans None [dquote_char, quote_char, dquote_char] None [dquote_char, quote_char, dquote_char]"
  unfolding scans_def
  by (auto intro!: exI[of _ "[dquote_char, quote_char, dquote_char]"]
      simp: no_substitution_def quote_char_def dquote_char_def nl_def backslash_def lex_quote_def)

lemma scans_body: "scans (Some quote_char) (quote_body s) (Some quote_char) (quote_body s)"
proof (induction s)
  case (Cons c cs)
  show ?case
  proof (cases "c = quote_char")
    case True
    have "scans (Some quote_char) ([quote_char] @ [dquote_char, quote_char, dquote_char] @ [quote_char] @ quote_body cs)
        (Some quote_char) ([quote_char] @ [dquote_char, quote_char, dquote_char] @ [quote_char] @ quote_body cs)"
      by (rule scans_append[OF scans_close scans_append[OF scans_dquoted scans_append[OF scans_open Cons.IH]]])
    then show ?thesis using True by simp
  next
    case False
    then show ?thesis using scans_append[OF scans_inside[OF False] Cons.IH] by simp
  qed
qed (simp add: scans_Nil)

lemma scans_quote: "scans None (shlex_quote w) None (shlex_quote w)"
proof -
  have "scans None [quote_char, quote_char] None [quote_char, quote_char]"
    using scans_append[OF scans_open scans_close] by simp
  moreover have "scans None ([quote_char] @ quote_body w @ [quote_char]) None ([quote_char] @ quote_body w @ [quote_char])"
    by (rule scans_append[OF scans_open scans_append[OF scans_body scans_close]])
  ultimately show ?thesis using scans_safe_run by (simp add: shlex_quote_def)
qed

lemma scans_other:
  assumes "c \<in> set '' ;|&''"
  shows "scans None [c] None [c]"
  using assms by (intro scans_char[where d = c]) (auto simp: nl_def backslash_def lex_quote_def quote_char_def dquote_char_def)

lemma scans_join: "scans None (shlex_join ws) None (shlex_join ws)"
  unfolding shlex_join_def
proof (induction ws)
  case (Cons w ws)
  show ?case
  proof (cases ws)
    case Nil
    then show ?thesis using scans_quote by simp
  next
    case (Cons v vs)
    have "scans None (shlex_quote w @ '' '' @ join_on '' '' (map shlex_quote ws)) None
        (shlex_quote w @ '' '' @ join_on '' '' (map shlex_quote ws))"
      by (rule scans_append[OF scans_quote scans_append[OF scans_other Cons.IH]]) simp
    then show ?thesis using Cons by simp
  qed
qed (simp add: scans_Nil)

subsection \<open>Tokens and commands of a script\<close>

definition separated_text :: "string \<Rightarrow> string" where
  \<comment> \<open>an operator after the scan\<close>
  "separated_text oper = (if oper = [nl] then '';'' else '' '' @ oper @ '' '')"

fun separated_script :: "string list \<Rightarrow> (string \<times> string list) list \<Rightarrow> string" where
  "separated_script c [] = shlex_join c"
| "separated_script c ((oper, d) # rest) = shlex_join c @ separated_text oper @ separated_script d rest"

fun script_tokens :: "string list \<Rightarrow> (string \<times> string list) list \<Rightarrow> string list" where
  "script_tokens c [] = c"
| "script_tokens c ((oper, d) # rest) = c @ [operator_token oper] @ script_tokens d rest"

lemma script_operators_cases:
  assumes "oper \<in> set script_operators"
  obtains "oper = [nl]" | "oper = ''&&''" | "oper = ''||''" | "oper = '';''" | "oper = ''|''" | "oper = ''&''"
  using assms by (auto simp: script_operators_def shell_operator_tokens_def)

lemma scans_newline: "scans None [nl] None '';''"
  unfolding scans_def
  by (auto intro!: exI[of _ "[nl]"] simp: no_substitution_def nl_def backslash_def)

lemma scans_operator:
  assumes "oper \<in> set script_operators"
  shows "scans None (operator_text oper) None (separated_text oper)"
proof (cases "oper = [nl]")
  case True
  then show ?thesis using scans_newline by (simp add: operator_text_def separated_text_def)
next
  case False
  have sp: "scans None [c] None [c]" if "c \<in> set '' ;|&''" for c using that by (rule scans_other)
  have oper: "scans None oper None oper"
    using assms False scans_append[OF sp sp, of "CHR ''&''" "CHR ''&''"] scans_append[OF sp sp, of "CHR ''|''" "CHR ''|''"]
      sp[of "CHR '';''"] sp[of "CHR ''|''"] sp[of "CHR ''&''"]
    by (auto elim!: script_operators_cases)
  have "scans None ('' '' @ oper @ '' '') None ('' '' @ oper @ '' '')"
    by (rule scans_append[OF sp scans_append[OF oper sp]]) simp_all
  then show ?thesis using False by (simp add: operator_text_def separated_text_def)
qed

lemma script_ok_shape: "script_ok c rest \<Longrightarrow> script_shape c rest"
  by (auto simp: script_ok_def script_shape_def words_ok_def list_all_iff)

lemma scans_script:
  assumes "script_shape c rest"
  shows "scans None (script_of c rest) None (separated_script c rest)"
  using assms
proof (induction c rest rule: script_of.induct)
  case (1 c)
  then show ?case using scans_join by simp
next
  case (2 c oper d rest)
  then have "scans None (script_of d rest) None (separated_script d rest)" "oper \<in> set script_operators"
    by (auto simp: script_shape_def)
  then show ?case using scans_append[OF scans_join scans_append[OF scans_operator]] by simp
qed

lemma separated_script_head:
  assumes "script_shape c rest"
  obtains w tail where "separated_script c rest = shlex_quote w @ tail"
proof -
  obtain w ws where c: "c = w # ws" using assms by (cases c) (auto simp: script_shape_def)
  have "\<exists>t. shlex_join (w # ws) = shlex_quote w @ t" by (cases ws) (auto simp: shlex_join_def)
  then show ?thesis using that c by (cases rest) auto
qed

lemma lex_operator:
  assumes "oper \<in> set script_operators"
  shows "lex script_lexer LSpace (separated_text oper @ shlex_quote w @ tail)
    = emit_all [operator_token oper] (lex script_lexer LSpace (shlex_quote w @ tail))"
proof -
  have start: "lex script_lexer LSpace (CHR '' '' # s) = lex script_lexer LSpace s" for s
    by (simp add: lex_start_def lex_space_def)
  have first: "lex script_lexer LSpace (c # s) = lex script_lexer (LPunct [c]) s" if "c \<in> set '';|&''" for c s
    using that by (auto simp: lex_start_def lex_space_def script_lexer_def nl_def backslash_def)
  have more: "lex script_lexer (LPunct t) (c # s) = lex script_lexer (LPunct (t @ [c])) s" if "c \<in> set '';|&''" for c t s
    using that by (auto simp: lex_space_def script_lexer_def nl_def)
  have stop: "lex script_lexer (LPunct t) (CHR '' '' # s) = emit_all [t] (lex script_lexer LSpace s)" if "t \<noteq> []" for t s
    using that by (simp add: lex_space_def emit_word)
  show ?thesis using assms
    by (rule script_operators_cases)
      (simp_all add: separated_text_def operator_token_def nl_def start first more stop lex_punct_then del: lex.simps)
qed

lemma breaks_separated: "oper \<in> set script_operators \<Longrightarrow> breaks_word script_lexer (separated_text oper @ s)"
  by (auto simp: separated_text_def breaks_word_def script_lexer_def lex_space_def)

lemma lex_script:
  assumes "script_shape c rest"
  shows "shlex_tokens script_lexer (separated_script c rest) = Inr (script_tokens c rest)"
  using assms unfolding shlex_tokens_def
proof (induction c rest rule: script_of.induct)
  case (1 c)
  then show ?case using lex_join_then[of script_lexer "[]" c] by simp
next
  case (2 c oper d rest)
  then have oper: "oper \<in> set script_operators" and ok: "script_shape d rest" by (auto simp: script_shape_def)
  obtain w tail where tl: "separated_script d rest = shlex_quote w @ tail" using separated_script_head[OF ok] .
  have "lex script_lexer LSpace (separated_text oper @ separated_script d rest)
      = emit_all [operator_token oper] (Inr (script_tokens d rest))"
    using lex_operator[OF oper, of w tail] "2.IH"[OF ok] tl by simp
  then show ?case using lex_join_then[OF plain_lexers(2) breaks_separated[OF oper]] by simp
qed

lemma simple_commands_words:
  assumes "list_all (\<lambda>w. \<not> all_punctuation w) ws"
  shows "simple_commands cur False (ws @ ts) = simple_commands (cur @ ws) False ts"
  using assms by (induction ws arbitrary: cur) auto

lemma operator_token_props:
  assumes "oper \<in> set script_operators"
  shows "all_punctuation (operator_token oper)" and "\<not> is_redirect (operator_token oper)"
  using assms by (auto elim!: script_operators_cases
      simp: operator_token_def all_punctuation_def shell_punctuation_def is_redirect_def nl_def)

lemma simple_commands_script:
  assumes "script_ok c rest"
  shows "simple_commands [] False (script_tokens c rest @ ['';'']) = c # map snd rest"
  using assms
proof (induction c rest rule: script_of.induct)
  case (1 c)
  then show ?case using simple_commands_words[of c "[]" "['';'']"] operator_token_props[of "'';''"]
    by (auto simp: script_ok_def words_ok_def operator_token_def nl_def script_operators_def shell_operator_tokens_def)
next
  case (2 c oper d rest)
  then have c: "c \<noteq> []" "list_all (\<lambda>w. \<not> all_punctuation w) c" and oper: "oper \<in> set script_operators"
    and ok: "script_ok d rest" by (auto simp: script_ok_def words_ok_def)
  show ?case using simple_commands_words[OF c(2), of "[]"] c(1) operator_token_props[OF oper] "2.IH"[OF ok] by simp
qed

lemma split_scanned:
  assumes "scans None script None separated"
  shows "split_shell_script script depth = (case shlex_tokens script_lexer separated of
      Inl e \<Rightarrow> Inl ''unparseable quoting''
    | Inr tokens \<Rightarrow> bind_result (map_result (\<lambda>argv. command_lines argv depth) (simple_commands [] False (tokens @ ['';''])))
        (\<lambda>lines. Inr (concat lines)))"
proof -
  obtain b where b: "no_substitution b" "scan_script None (script @ []) = scanned separated b (scan_script None [])"
    using assms unfolding scans_def by blast
  then have "scan_script None script = Inr (separated, b)" by (simp add: scanned_def)
  then show ?thesis using substitutions_none[OF b(1)]
    by (subst split_shell_script.simps) (simp split: sum.split)
qed

text \<open>Screening a script is screening its commands one by one.\<close>

lemma split_script_commands:
  assumes "script_ok c rest"
  shows "split_shell_script (script_of c rest) depth
    = bind_result (map_result (\<lambda>argv. command_lines argv depth) (c # map snd rest)) (\<lambda>lines. Inr (concat lines))"
  using split_scanned[OF scans_script[OF script_ok_shape[OF assms]]] lex_script[OF script_ok_shape[OF assms]]
    simple_commands_script[OF assms] by simp

section \<open>What the policy guarantees\<close>

lemma command_lines_own:
  assumes "command_lines argv depth = Inr lines"
  shows "set (own_lines argv) \<subseteq> set lines"
  using assms by (subst (asm) command_lines.simps) (auto simp: Let_def bind_result_Inr_iff split: if_splits)

lemma map_result_member:
  assumes "map_result f xs = Inr ys" and "x \<in> set xs"
  shows "\<exists>y. f x = Inr y \<and> y \<in> set ys"
  using assms by (induction xs arbitrary: ys) (auto simp: bind_result_Inr_iff)

lemma command_lines_nested:
  assumes "command_lines argv depth = Inr lines" and "shell_script_arg (strip_command_prefixes argv) = Some script"
  shows "\<exists>nested. split_shell_script script (Suc depth) = Inr nested \<and> set nested \<subseteq> set lines"
  using assms by (subst (asm) command_lines.simps) (auto simp: Let_def bind_result_Inr_iff split: if_splits)

lemma shlex_join_Nil_iff: "shlex_join ws = [] \<longleftrightarrow> ws = []"
proof (cases ws)
  case (Cons w vs)
  obtain c cs where "shlex_quote w = c # cs" by (rule shlex_quote_head)
  then show ?thesis using Cons by (cases vs) (auto simp: shlex_join_def)
qed (simp add: shlex_join_def)

lemma script_of_not_Nil: "script_ok c rest \<Longrightarrow> script_of c rest \<noteq> []"
  by (cases rest) (auto simp: script_ok_def words_ok_def shlex_join_Nil_iff)

lemma shell_binary_facts:
  "list_all (\<lambda>sh. sh \<noteq> [] \<and> sh \<notin> set command_prefix_words \<and> \<not> is_assignment sh \<and> path_name sh = sh
     \<and> dict_get wrapper_value_opts sh = None) shell_binaries"
  by code_simp

lemma is_c_flag: "is_shell_c_flag ''-c''"
  by code_simp

lemma shell_call:
  assumes "sh \<in> set shell_binaries" and "script \<noteq> []"
  shows "strip_command_prefixes [sh, ''-c'', script] = [sh, ''-c'', script]"
    and "shell_script_arg [sh, ''-c'', script] = Some script"
  using assms shell_binary_facts
  by (auto simp: strip_command_prefixes_def shell_script_arg_def is_c_flag list_all_iff)

lemma script_lines_screened:
  assumes "script_ok c rest" and "sh \<in> set shell_binaries"
    and "command_lines [sh, ''-c'', script_of c rest] 0 = Inr lines" and "d \<in> set (c # map snd rest)"
  shows "set (own_lines d) \<subseteq> set lines"
proof -
  note call = shell_call[OF assms(2) script_of_not_Nil[OF assms(1)]]
  obtain nested where nested: "split_shell_script (script_of c rest) 1 = Inr nested" "set nested \<subseteq> set lines"
    using command_lines_nested[OF assms(3)] call by auto
  then obtain ls where ls: "map_result (\<lambda>argv. command_lines argv 1) (c # map snd rest) = Inr ls" "nested = concat ls"
    unfolding split_script_commands[OF assms(1)] by (auto simp: bind_result_Inr_iff simp del: map_result.simps)
  obtain y where "command_lines d 1 = Inr y" "y \<in> set ls" using map_result_member[OF ls(1) assms(4)] by blast
  then show ?thesis using command_lines_own[of d 1 y] ls(2) nested(2) by auto
qed

definition text_call :: "string list \<Rightarrow> inspector_call" where
  \<comment> \<open>a \<open>run_command\<close> call with an argument list of strings\<close>
  "text_call ws = \<lparr>ic_call_id = [], ic_name = ''run_command'', ic_args = [(''argv'', JList (map JStr ws))]\<rparr>"

lemma py_str_texts [simp]: "map (py_str_json \<circ> JStr) ws = ws"
  by (induction ws) (simp_all add: py_str_json_def)

lemma text_call_resolved:
  assumes "ws \<noteq> []"
  shows "norm_run_command_line loads (ic_args (text_call ws)) = Inr (Some (shlex_join ws))"
    and "parse_run_command loads (ic_args (text_call ws)) = Inr (hd ws, tl ws)"
    and "shell_script_segments loads (ic_args (text_call ws)) = command_lines ws 0"
  using assms
  by (auto simp: norm_run_command_line_def parse_run_command_def shell_script_segments_def text_call_def
      coerce_run_command_argv_def neq_Nil_conv py_str_json_def)

text \<open>
  The line a call is judged by says exactly what will run: it is not empty, splitting it with shell rules
  gives back the argument list of the call, and the binary that is looked up in the allowlist is the
  first word of it. Two calls with different argument lists never share a line.
\<close>
theorem command_line_faithful:
  assumes "ws \<noteq> []"
  shows "\<exists>line. norm_run_command_line loads (ic_args (text_call ws)) = Inr (Some line) \<and> line \<noteq> []
    \<and> shlex_split line = Inr ws \<and> parse_run_command loads (ic_args (text_call ws)) = Inr (hd ws, tl ws)
    \<and> (\<forall>vs. shlex_join vs = line \<longleftrightarrow> vs = ws)"
  using text_call_resolved[OF assms] assms by (simp add: shlex_join_Nil_iff split_of_join join_inject)

theorem command_line_faithful_witness:
  "\<exists>line. norm_run_command_line Inl (ic_args (text_call [''echo'', ''it is'', ''a;b''])) = Inr (Some line)
    \<and> shlex_split line = Inr [''echo'', ''it is'', ''a;b'']"
  using command_line_faithful[of "[''echo'', ''it is'', ''a;b'']" Inl] by blast

text \<open>
  C15: a denied command stays denied inside a script. When a shell is asked to run a script made of quoted
  words, none of which consists of punctuation alone, in commands separated by newlines, semicolons, pipes or the and, or and background operators, and a
  deny expression matches the line of one of its commands, also after its wrappers such as \<open>env\<close> or
  \<open>timeout\<close> are taken off, or with the directory of its binary taken off, the call is denied, wherever
  the command stands in the script.
\<close>
theorem script_command_denied:
  assumes "script_ok c rest" and "sh \<in> set shell_binaries" and "d \<in> set (c # map snd rest)"
    and "rx \<in> set (ci_deny_regexes insp)" and "line \<in> set (own_lines d)" and "rx line"
  shows "d_kind (check_command loads insp grants (text_call [sh, ''-c'', script_of c rest])) = DDeny"
proof -
  let ?ws = "[sh, ''-c'', script_of c rest]"
  have name: "ic_name (text_call ?ws) = ''run_command''" by (simp add: text_call_def)
  have some: "ci_deny_regexes insp \<noteq> []" using assms(4) by auto
  note res = text_call_resolved[of ?ws loads, OF list.distinct(2)]
  show ?thesis
  proof (cases "command_lines ?ws 0")
    case (Inl e)
    then show ?thesis using name some res by (simp add: check_command_def plain_decision_def shlex_join_Nil_iff)
  next
    case (Inr lines)
    then have "line \<in> set lines" using script_lines_screened[OF assms(1,2) Inr assms(3)] assms(5) by blast
    then have "list_ex (\<lambda>rx. list_ex rx (shlex_join ?ws # lines)) (ci_deny_regexes insp)"
      using assms(4,6) by (auto simp: list_ex_iff)
    then show ?thesis using name res Inr by (simp add: check_command_def plain_decision_def shlex_join_Nil_iff)
  qed
qed

definition sample_inspector :: command_inspector where
  "sample_inspector = \<lparr>ci_policy = \<lparr>cp_allowed_commands = allowed_commands_default,
       cp_allowed_path_prefixes = allowed_paths_default, cp_deny_patterns = [''^rm'']\<rparr>,
     ci_deny_regexes = [\<lambda>line. startswith line ''rm''], ci_grants = None\<rparr>"

theorem script_command_denied_witness:
  "d_kind (check_command Inl sample_inspector {} (text_call [''bash'', ''-c'',
     script_of [''echo'', ''hi''] [(''&&'', [''env'', ''A=1'', ''/bin/rm'', ''-rf'', ''x''])]])) = DDeny"
proof (rule script_command_denied[where d = "[''env'', ''A=1'', ''/bin/rm'', ''-rf'', ''x'']"
      and rx = "\<lambda>line. startswith line ''rm''" and line = "''rm -rf x''"])
  show "script_ok [''echo'', ''hi''] [(''&&'', [''env'', ''A=1'', ''/bin/rm'', ''-rf'', ''x''])]" by code_simp
  show "''bash'' \<in> set shell_binaries" by code_simp
  show "''rm -rf x'' \<in> set (own_lines [''env'', ''A=1'', ''/bin/rm'', ''-rf'', ''x''])" by code_simp
  show "startswith ''rm -rf x'' ''rm''" by code_simp
qed (simp_all add: sample_inspector_def)

section \<open>Two scripts that escape the screening\<close>

definition one_line :: "string list \<Rightarrow> bool" where
  "one_line c \<longleftrightarrow> list_all (\<lambda>w. nl \<notin> set w) c"

lemma one_line_join: "one_line c \<Longrightarrow> nl \<notin> set (shlex_join c)"
proof -
  have body: "nl \<notin> set (quote_body w)" if "nl \<notin> set w" for w
    using that by (induction w) (auto simp: nl_def quote_char_def dquote_char_def)
  have word: "nl \<notin> set (shlex_quote w)" if "nl \<notin> set w" for w
    using that body[OF that] by (auto simp: shlex_quote_def nl_def quote_char_def)
  show "one_line c \<Longrightarrow> nl \<notin> set (shlex_join c)"
    unfolding shlex_join_def one_line_def
  proof (induction c)
    case (Cons w ws)
    then show ?case using word[of w] by (cases ws) (auto simp: nl_def)
  qed simp
qed

lemma one_line_separated:
  assumes "script_shape c rest" and "list_all one_line (c # map snd rest)"
  shows "nl \<notin> set (separated_script c rest)"
  using assms
proof (induction c rest rule: script_of.induct)
  case (2 c oper d rest)
  have "nl \<notin> set (separated_text oper)" using "2.prems"(1)
    by (auto simp: script_shape_def separated_text_def nl_def elim!: script_operators_cases)
  then show ?case using 2 one_line_join[of c] by (auto simp: script_shape_def)
qed (simp add: one_line_join)

lemma lex_comment: "nl \<notin> set s \<Longrightarrow> lex L LComment s = Inr []"
  by (induction s) auto

lemma scans_hash: "scans None [CHR ''#''] None [CHR ''#'']"
  by (rule scans_char[where d = "CHR ''#''"]) (simp_all add: nl_def backslash_def lex_quote_def quote_char_def dquote_char_def)

lemma comment_prefix_facts:
  "list_all shell_safe ''echo''" "list_all shell_safe ''ok''"
  "own_lines [''echo'', ''ok''] = [''echo ok'']" "command_lines [''echo'', ''ok''] depth = Inr [''echo ok'']"
proof -
  show own: "own_lines [''echo'', ''ok''] = [''echo ok'']" by code_simp
  have inner: "strip_command_prefixes [''echo'', ''ok''] = [''echo'', ''ok'']"
    "shell_script_arg [''echo'', ''ok''] = None" "\<not> runs_dynamic_code [''echo'', ''ok'']"
    "path_name ''echo'' \<noteq> ''find''" by code_simp+
  show "command_lines [''echo'', ''ok''] depth = Inr [''echo ok'']"
    by (subst command_lines.simps) (simp add: own inner)
qed code_simp+

text \<open>
  A comment hides the rest of a script. Newlines are turned into semicolons before the script is split, and
  the splitter still treats a number sign as the start of a comment, which it skips to the next newline. So all
  commands on the lines after a comment line are never looked at, although the shell runs them: for every
  such script the screening only sees the command in front of the comment.
\<close>
theorem comment_hides_commands:
  assumes "script_ok c rest" and "list_all one_line (c # map snd rest)"
  shows "split_shell_script (''echo ok #'' @ [nl] @ script_of c rest) depth = Inr [''echo ok'']"
proof -
  have hash: "''echo ok #'' = shlex_join [''echo'', ''ok''] @ '' '' @ [CHR ''#'']" by code_simp
  have "scans None ((shlex_join [''echo'', ''ok''] @ '' '' @ [CHR ''#'']) @ [nl] @ script_of c rest) None
      ((shlex_join [''echo'', ''ok''] @ '' '' @ [CHR ''#'']) @ '';'' @ separated_script c rest)"
    by (intro scans_append[OF scans_append[OF scans_join scans_append[OF scans_other scans_hash]]
          scans_append[OF scans_newline scans_script[OF script_ok_shape[OF assms(1)]]]]) simp
  note split = split_scanned[OF this, of depth]
  have "lex script_lexer LSpace (shlex_join [''echo'', ''ok''] @ ('' #;'' @ separated_script c rest))
      = emit_all [''echo'', ''ok''] (lex script_lexer LSpace ('' #;'' @ separated_script c rest))"
    by (rule lex_join_then) (simp_all add: breaks_word_def lex_space_def)
  also have "lex script_lexer LSpace ('' #;'' @ separated_script c rest) = Inr []"
    using lex_comment one_line_separated[OF script_ok_shape[OF assms(1)] assms(2)]
    by (simp add: lex_start_def lex_space_def script_lexer_def nl_def)
  finally have tokens: "shlex_tokens script_lexer
      ((shlex_join [''echo'', ''ok''] @ '' '' @ [CHR ''#'']) @ '';'' @ separated_script c rest) = Inr [''echo'', ''ok'']"
    by (simp add: shlex_tokens_def)
  have "simple_commands [] False ([''echo'', ''ok''] @ ['';'']) = [[''echo'', ''ok'']]" by code_simp
  then show ?thesis using split tokens comment_prefix_facts(4) unfolding hash by simp
qed

theorem comment_hides_commands_witness:
  "split_shell_script (''echo ok #'' @ [nl] @ ''rm -rf x'') 0 = Inr [''echo ok'']"
proof -
  have "script_of [''rm'', ''-rf'', ''x''] [] = ''rm -rf x''" "script_ok [''rm'', ''-rf'', ''x''] []"
    "list_all one_line ([''rm'', ''-rf'', ''x''] # map snd [])" by code_simp+
  then show ?thesis using comment_hides_commands[of "[''rm'', ''-rf'', ''x'']" "[]" 0] by simp
qed

text \<open>
  A quoted redirection sign swallows the next operator. The splitter no longer knows that a word was
  quoted, takes the quoted sign for a redirection and skips the following token as its target. When that
  token is an operator, the next command is screened as if its words were arguments of the command
  before, although the shell runs it as a command of its own.
\<close>
theorem quoted_redirect_hides_command:
  assumes "script_ok c rest" and "oper \<in> set script_operators"
  shows "split_shell_script (script_of [''echo'', ''>''] ((oper, c) # rest)) depth
    = split_shell_script (script_of (''echo'' # c) rest) depth"
proof -
  have shape: "script_shape [''echo'', ''>''] ((oper, c) # rest)"
    using assms script_ok_shape[OF assms(1)] by (auto simp: script_shape_def)
  have ok: "script_ok (''echo'' # c) rest" using assms(1) by (auto simp: script_ok_def words_ok_def all_punctuation_def shell_punctuation_def)
  have toks: "script_tokens (''echo'' # c) rest = ''echo'' # script_tokens c rest" by (cases rest) auto
  have echo: "\<not> all_punctuation ''echo''" "all_punctuation ''>''" "is_redirect ''>''" "\<not> str_isdigit ''echo''" by code_simp+
  have "simple_commands [] False (script_tokens [''echo'', ''>''] ((oper, c) # rest) @ ['';''])
      = simple_commands [] False (script_tokens (''echo'' # c) rest @ ['';''])"
    unfolding toks by (simp add: echo)
  then show ?thesis
    using split_scanned[OF scans_script[OF shape], of depth] lex_script[OF shape]
      split_scanned[OF scans_script[OF script_ok_shape[OF ok]], of depth] lex_script[OF script_ok_shape[OF ok]] by simp
qed

theorem quoted_redirect_hides_command_witness:
  "split_shell_script (script_of [''echo'', ''>''] [('';'', [''rm'', ''-rf'', ''x''])]) 0
     = split_shell_script ''echo rm -rf x'' 0"
proof -
  have "script_ok [''rm'', ''-rf'', ''x''] []" "'';'' \<in> set script_operators"
    "script_of [''echo'', ''rm'', ''-rf'', ''x''] [] = ''echo rm -rf x''" by code_simp+
  then show ?thesis using quoted_redirect_hides_command[of "[''rm'', ''-rf'', ''x'']" "[]" "'';''" 0] by simp
qed

end
