(* ===== verification/Permissions.thy ===== *)
theory Permissions
  imports Command_Policy Tool_Batch
begin

text \<open>
  \<open>core/tools/permission.py\<close> and the gate of \<open>core/runtime/tool_dispatch.py\<close>: wildcard rules over tool names
  and resources, the last match wins; the approvals a session remembers; and the chain of inspectors
  each tool call passes before it runs, with the confirmation that waits for the user.
  \<open>fnmatch.fnmatchcase\<close> of the standard library is modelled with its character classes. A parsed YAML
  document is a JSON value. An inspector is a function of the call and the turn context; the user's answer to
  a confirmation is an argument. Logging and the events sent to the client are left out.
\<close>

section \<open>Shell wildcards\<close>

datatype fn_atom =
    FStar
  | FAny
  | FNever
  | FLit char
  | FClass bool "(char \<times> char) list"

function split_ranges :: "nat \<Rightarrow> string \<Rightarrow> string list" where
  \<comment> \<open>cut at the hyphens that make ranges: the first one is looked for after \<open>n\<close> characters\<close>
  "split_ranges n s =
     (case dropWhile (\<lambda>c. c \<noteq> CHR ''-'') (drop n s) of
        [] \<Rightarrow> [s]
      | _ # rest \<Rightarrow> (take n s @ takeWhile (\<lambda>c. c \<noteq> CHR ''-'') (drop n s)) # split_ranges 2 rest)"
  by pat_completeness auto
termination
proof (relation "measure (length \<circ> snd)")
  fix n :: nat and s c rest
  assume "dropWhile (\<lambda>c. c \<noteq> CHR ''-'') (drop n s) = c # rest"
  then have "length (c # rest) \<le> length (drop n s)" using length_dropWhile_le[of _ "drop n s"] by metis
  then show "((2, rest), n, s) \<in> measure (length \<circ> snd)" by simp
qed simp

definition range_chunks :: "string \<Rightarrow> string list" where
  "range_chunks stuff =
     (let cs = split_ranges (if take 1 stuff = ''!'' then 2 else 1) stuff
      in if last cs = [] then butlast (butlast cs) @ [last (butlast cs) @ ''-''] else cs)"

fun merge_empty_ranges :: "string list \<Rightarrow> string list" where
  \<comment> \<open>a range that runs backwards loses both ends\<close>
  "merge_empty_ranges [] = []"
| "merge_empty_ranges (c # cs) = (case merge_empty_ranges cs of
       [] \<Rightarrow> [c]
     | d # ds \<Rightarrow> if (of_char (last c) :: nat) > of_char (hd d) then (butlast c @ tl d) # ds else c # d # ds)"

fun class_members :: "string list \<Rightarrow> (char \<times> char) list" where
  "class_members [] = []"
| "class_members [c] = map (\<lambda>x. (x, x)) c"
| "class_members (c # d # cs) = map (\<lambda>x. (x, x)) c @ [(last c, hd d)] @ class_members (d # cs)"

definition fn_class :: "string \<Rightarrow> fn_atom" where
  "fn_class stuff =
     (let chunks = (if CHR ''-'' \<notin> set stuff then [stuff] else merge_empty_ranges (range_chunks stuff))
      in if chunks = [[]] then FNever
         else if chunks = [''!''] then FAny
         else if take 1 (hd chunks) = ''!'' then FClass True (class_members (tl (hd chunks) # tl chunks))
         else FClass False (class_members chunks))"

function fn_translate :: "string \<Rightarrow> fn_atom list" where
  "fn_translate [] = []"
| "fn_translate (c # cs) =
     (if c = CHR ''*'' then FStar # fn_translate cs
      else if c = CHR ''?'' then FAny # fn_translate cs
      else if c = CHR ''['' then
        (let bang = (if take 1 cs = ''!'' then 1 else 0);
             n = (if take 1 (drop bang cs) = '']'' then Suc bang else bang);
             after = dropWhile (\<lambda>d. d \<noteq> CHR '']'') (drop n cs)
         in if after = [] then FLit c # fn_translate cs
            else fn_class (take n cs @ takeWhile (\<lambda>d. d \<noteq> CHR '']'') (drop n cs)) # fn_translate (tl after))
      else FLit c # fn_translate cs)"
  by pat_completeness auto
termination
proof (relation "measure length")
  fix c :: char and cs :: string and bang n :: nat and after :: string
  assume "after = dropWhile (\<lambda>d. d \<noteq> CHR '']'') (drop n cs)"
  then have "length after \<le> length (drop n cs)" using length_dropWhile_le[of _ "drop n cs"] by simp
  then show "(tl after, c # cs) \<in> measure length" by simp
qed auto

fun fn_atom_matches :: "fn_atom \<Rightarrow> char \<Rightarrow> bool" where
  "fn_atom_matches (FLit c) d \<longleftrightarrow> c = d"
| "fn_atom_matches (FClass neg ranges) d \<longleftrightarrow>
     (list_ex (\<lambda>(lo, hi). (of_char lo :: nat) \<le> of_char d \<and> (of_char d :: nat) \<le> of_char hi) ranges) \<noteq> neg"
| "fn_atom_matches FNever d \<longleftrightarrow> False"
| "fn_atom_matches _ d \<longleftrightarrow> True"

fun fn_matches :: "fn_atom list \<Rightarrow> string \<Rightarrow> bool" where
  "fn_matches [] s \<longleftrightarrow> s = []"
| "fn_matches (a # as) [] \<longleftrightarrow> a = FStar \<and> fn_matches as []"
| "fn_matches (a # as) (c # cs) \<longleftrightarrow>
     (if a = FStar then fn_matches as (c # cs) \<or> fn_matches (a # as) cs
      else fn_atom_matches a c \<and> fn_matches as cs)"

definition fnmatchcase :: "string \<Rightarrow> string \<Rightarrow> bool" where
  "fnmatchcase name pat \<longleftrightarrow> fn_matches (fn_translate pat) name"

section \<open>Rules\<close>

datatype effect = EAllow | EAsk | EDeny

record permission_rule =
  pr_tool :: string
  pr_pattern :: string
  pr_effect :: effect
  pr_message :: "string option"

record permission_ruleset =
  prs_rules :: "permission_rule list"
  prs_default :: effect

definition resource_for_call :: "(string \<Rightarrow> string + json) \<Rightarrow> inspector_call \<Rightarrow> string" where
  "resource_for_call loads call =
     (let args = ic_args call;
          line = (if ic_name call = ''run_command''
                  then (case norm_run_command_line loads args of Inl _ \<Rightarrow> None | Inr l \<Rightarrow> l) else None)
      in if line \<noteq> None \<and> line \<noteq> Some [] then the line
         else (case nonblank_text (dict_get args ''path'') of
             Some p \<Rightarrow> p
           | None \<Rightarrow> (case dict_get args ''argv'' of
               Some (JList (v # vs)) \<Rightarrow> shlex_join (map py_str_json (v # vs))
             | _ \<Rightarrow> (case nonblank_text (dict_get args ''command'') of
                 Some cmd \<Rightarrow> join_on '' '' (py_split cmd)
               | None \<Rightarrow>
                   (let computer = startswith (ic_name call) ''computer_'';
                        url = nonblank_text (dict_get args ''url''); app = nonblank_text (dict_get args ''app'')
                    in if computer \<and> url \<noteq> None then the url
                       else if computer \<and> app \<noteq> None then the app
                       else json_dumps (JObj args))))))"

definition rule_match :: "permission_rule \<Rightarrow> string \<Rightarrow> string \<Rightarrow> bool" where
  "rule_match rule tool resource \<longleftrightarrow> fnmatchcase tool (pr_tool rule) \<and> fnmatchcase resource (pr_pattern rule)"

definition evaluate_rules :: "string \<Rightarrow> string \<Rightarrow> permission_rule list \<Rightarrow> permission_rule option" where
  "evaluate_rules tool resource rules =
     fold (\<lambda>rule matched. if rule_match rule tool resource then Some rule else matched) rules None"

definition effect_of_json :: "json \<Rightarrow> effect option" where
  "effect_of_json v = (if v = JStr ''allow'' then Some EAllow else if v = JStr ''ask'' then Some EAsk
     else if v = JStr ''deny'' then Some EDeny else None)"

definition rule_reason :: "nat \<Rightarrow> string \<Rightarrow> string" where
  "rule_reason i t = ''rules['' @ str_of_nat i @ '']'' @ t"

definition load_rule :: "nat \<Rightarrow> json \<Rightarrow> string + permission_rule" where
  "load_rule i item = (case item of
       JObj d \<Rightarrow>
         (let tool = nonblank_text (dict_get d ''tool'');
              pattern = nonblank_text (Some (case dict_get d ''pattern'' of None \<Rightarrow> JStr ''*'' | Some v \<Rightarrow> v));
              raw = (case dict_get d ''effect'' of None \<Rightarrow> JNull | Some v \<Rightarrow> v)
          in if tool = None then Inl (rule_reason i ''.tool must be a non-empty string'')
             else if pattern = None then Inl (rule_reason i ''.pattern must be a non-empty string'')
             else (case effect_of_json raw of
                 None \<Rightarrow> Inl (rule_reason i (''.effect must be allow|ask|deny, got '' @ py_repr_json raw))
               | Some e \<Rightarrow> (case dict_get d ''message'' of
                     Some (JStr m) \<Rightarrow> Inr \<lparr>pr_tool = the tool, pr_pattern = the pattern, pr_effect = e, pr_message = Some m\<rparr>
                   | Some JNull \<Rightarrow> Inr \<lparr>pr_tool = the tool, pr_pattern = the pattern, pr_effect = e, pr_message = None\<rparr>
                   | None \<Rightarrow> Inr \<lparr>pr_tool = the tool, pr_pattern = the pattern, pr_effect = e, pr_message = None\<rparr>
                   | Some _ \<Rightarrow> Inl (rule_reason i ''.message must be a string''))))
     | _ \<Rightarrow> Inl (rule_reason i '' must be a mapping''))"

fun load_rules :: "nat \<Rightarrow> json list \<Rightarrow> string + permission_rule list" where
  "load_rules i [] = Inr []"
| "load_rules i (v # vs) = bind_result (load_rule i v) (\<lambda>r. bind_result (load_rules (Suc i) vs) (\<lambda>rs. Inr (r # rs)))"

definition load_permissions :: "json \<Rightarrow> string + permission_ruleset" where
  \<comment> \<open>from the parsed document; the left is the reason of \<open>PermissionConfigError\<close>\<close>
  "load_permissions doc = (case doc of
       JNull \<Rightarrow> Inr \<lparr>prs_rules = [], prs_default = EAllow\<rparr>
     | JObj data \<Rightarrow>
         (let raw = (case dict_get data ''default'' of None \<Rightarrow> JStr ''allow'' | Some v \<Rightarrow> v)
          in (case effect_of_json raw of
                None \<Rightarrow> Inl ([quote_char] @ ''default'' @ [quote_char] @ '' must be allow|ask|deny, got '' @ py_repr_json raw)
              | Some e \<Rightarrow> (case dict_get data ''rules'' of
                    None \<Rightarrow> Inr \<lparr>prs_rules = [], prs_default = e\<rparr>
                  | Some JNull \<Rightarrow> Inr \<lparr>prs_rules = [], prs_default = e\<rparr>
                  | Some (JList vs) \<Rightarrow> bind_result (load_rules 0 vs) (\<lambda>rs. Inr \<lparr>prs_rules = rs, prs_default = e\<rparr>)
                  | Some _ \<Rightarrow> Inl ([quote_char] @ ''rules'' @ [quote_char] @ '' must be a list''))))
     | _ \<Rightarrow> Inl ''root must be a mapping'')"

section \<open>What a session remembers\<close>

type_synonym persist_hook = "string \<Rightarrow> string \<Rightarrow> bool option"

record session_grants =
  sb_approvals :: "(string \<times> string) set"
  sb_path_grants :: "string set"
  sb_command_grants :: "string set"

record gate_ctx =
  \<comment> \<open>the part of \<open>TurnContext\<close> the gate uses; a persist hook that raises answers \<open>None\<close>\<close>
  tc_path_grants :: "string set"
  tc_command_grants :: "string set"
  tc_bus :: "session_grants option"
  tc_grants_persist :: "persist_hook option"
  tc_approvals_persist :: "persist_hook option"

definition is_allowed :: "string \<Rightarrow> string \<Rightarrow> session_grants \<Rightarrow> bool" where
  "is_allowed tool resource bus \<longleftrightarrow> (tool, resource) \<in> sb_approvals bus"

definition remember :: "string \<Rightarrow> string \<Rightarrow> session_grants \<Rightarrow> session_grants" where
  "remember tool resource bus = bus\<lparr>sb_approvals := insert (tool, resource) (sb_approvals bus)\<rparr>"

definition clear_approvals :: "session_grants \<Rightarrow> session_grants" where
  "clear_approvals bus = bus\<lparr>sb_approvals := {}\<rparr>"

definition clear_matching :: "(string \<Rightarrow> bool) \<Rightarrow> session_grants \<Rightarrow> session_grants" where
  "clear_matching predicate bus = bus\<lparr>sb_approvals := Set.filter (\<lambda>(tool, resource). \<not> predicate tool) (sb_approvals bus)\<rparr>"

definition grant_session_access :: "grant_kind option \<Rightarrow> string \<Rightarrow> gate_ctx \<Rightarrow> gate_ctx" where
  "grant_session_access kind resource ctx = (case kind of
       None \<Rightarrow> ctx
     | Some GrantCommand \<Rightarrow> ctx\<lparr>tc_command_grants := insert resource (tc_command_grants ctx),
         tc_bus := map_option (\<lambda>b. b\<lparr>sb_command_grants := insert resource (sb_command_grants b)\<rparr>) (tc_bus ctx)\<rparr>
     | Some GrantPath \<Rightarrow> ctx\<lparr>tc_path_grants := insert resource (tc_path_grants ctx),
         tc_bus := map_option (\<lambda>b. b\<lparr>sb_path_grants := insert resource (sb_path_grants b)\<rparr>) (tc_bus ctx)\<rparr>)"

definition seed_turn_grants :: "gate_ctx \<Rightarrow> gate_ctx" where
  "seed_turn_grants ctx = (case tc_bus ctx of
       None \<Rightarrow> ctx
     | Some b \<Rightarrow> ctx\<lparr>tc_path_grants := tc_path_grants ctx \<union> sb_path_grants b,
         tc_command_grants := tc_command_grants ctx \<union> sb_command_grants b\<rparr>)"

definition remember_always_approval :: "string \<Rightarrow> string \<Rightarrow> persist_hook option \<Rightarrow> gate_ctx \<Rightarrow> gate_ctx" where
  "remember_always_approval tool resource persist ctx =
     (let should = (case persist of None \<Rightarrow> True | Some hook \<Rightarrow> (case hook tool resource of None \<Rightarrow> False | Some b \<Rightarrow> b))
      in if should then ctx\<lparr>tc_bus := map_option (remember tool resource) (tc_bus ctx)\<rparr> else ctx)"

section \<open>The permission inspector\<close>

definition text_or :: "string option \<Rightarrow> string \<Rightarrow> string" where
  \<comment> \<open>\<open>message or "..."\<close>\<close>
  "text_or m d = (if m = None \<or> m = Some [] then d else the m)"

definition decision_from_effect :: "effect \<Rightarrow> string option \<Rightarrow> decision" where
  "decision_from_effect e message = (case e of
       EAllow \<Rightarrow> plain_decision DAllow None
     | EDeny \<Rightarrow> plain_decision DDeny (Some (text_or message ''denied by permission ruleset''))
     | EAsk \<Rightarrow> plain_decision DConfirm (Some (text_or message ''Approval required for this tool call'')))"

definition check_permission ::
    "(string \<Rightarrow> string + json) \<Rightarrow> permission_ruleset \<Rightarrow> bool \<Rightarrow> inspector_call \<Rightarrow> gate_ctx \<Rightarrow> decision" where
  "check_permission loads ruleset allow_ask call ctx =
     (let resource = resource_for_call loads call
      in if (case tc_bus ctx of None \<Rightarrow> False | Some b \<Rightarrow> is_allowed (ic_name call) resource b)
         then plain_decision DAllow None
         else (let matched = evaluate_rules (ic_name call) resource (prs_rules ruleset);
                   e = (case matched of None \<Rightarrow> prs_default ruleset | Some r \<Rightarrow> pr_effect r);
                   message = (case matched of None \<Rightarrow> None | Some r \<Rightarrow> pr_message r)
               in if e = EAsk \<and> \<not> allow_ask
                  then plain_decision DDeny (Some (text_or message ''ask effect requires an interactive session; denied''))
                  else decision_from_effect e message))"

section \<open>The gate\<close>

datatype user_reply = ReplyTimeout | ReplyApproved bool | ReplyDenied "string option" | ReplyStopped

datatype gate_decision = GateAllow | GateDeny | GateConfirmDenied | GateConfirmApproved | GateConfirmAlways

record gate_outcome =
  go_allowed :: bool
  go_denial_message :: "string option"
  go_denial_code :: "string option"
  go_denial_kind :: "string option"
  go_decision :: gate_decision

definition default_outcome :: gate_outcome where
  "default_outcome = \<lparr>go_allowed = True, go_denial_message = None, go_denial_code = None,
     go_denial_kind = None, go_decision = GateAllow\<rparr>"

type_synonym inspector = "inspector_call \<Rightarrow> gate_ctx \<Rightarrow> decision"

definition approve :: "(string \<Rightarrow> string + json) \<Rightarrow> inspector_call \<Rightarrow> decision \<Rightarrow> bool \<Rightarrow> gate_ctx \<Rightarrow> gate_ctx" where
  \<comment> \<open>what an approved confirmation records\<close>
  "approve loads call d always ctx =
     (let resource = (if d_grant_key d \<noteq> None \<and> d_grant_key d \<noteq> Some [] then the (d_grant_key d)
                      else resource_for_call loads call);
          ctx1 = grant_session_access (d_grant_kind d) resource ctx
      in if always
         then remember_always_approval (ic_name call) resource
                (if d_grant_kind d \<noteq> None then tc_grants_persist ctx1 else tc_approvals_persist ctx1) ctx1
         else ctx1)"

fun resolve_inspector_decision ::
    "(string \<Rightarrow> string + json) \<Rightarrow> nat \<Rightarrow> user_reply \<Rightarrow> inspector_call \<Rightarrow> inspector list \<Rightarrow> gate_ctx
      \<Rightarrow> gate_outcome option \<times> gate_ctx" where
  \<comment> \<open>\<open>None\<close>: the wait was cancelled\<close>
  "resolve_inspector_decision loads timeout reply call [] ctx = (Some default_outcome, ctx)"
| "resolve_inspector_decision loads timeout reply call (insp # rest) ctx =
     (let d = insp call ctx
      in (case d_kind d of
            DAllow \<Rightarrow> resolve_inspector_decision loads timeout reply call rest ctx
          | DDeny \<Rightarrow> (Some (default_outcome\<lparr>go_allowed := False, go_decision := GateDeny, go_denial_message := d_message d,
               go_denial_code := d_error_code d, go_denial_kind := d_error_kind d\<rparr>), ctx)
          | DConfirm \<Rightarrow>
              if tc_bus ctx = None
              then (Some (default_outcome\<lparr>go_allowed := False, go_decision := GateDeny, go_denial_message :=
                     Some (text_or (d_message d) ''Confirmation required but no SSE session is available'')\<rparr>), ctx)
              else (case reply of
                  ReplyStopped \<Rightarrow> (None, ctx)
                | ReplyTimeout \<Rightarrow> (Some (default_outcome\<lparr>go_allowed := False, go_decision := GateConfirmDenied,
                     go_denial_message := Some (''user did not respond within '' @ str_of_nat timeout @ ''s'')\<rparr>), ctx)
                | ReplyApproved always \<Rightarrow> (Some (default_outcome\<lparr>
                     go_decision := (if always then GateConfirmAlways else GateConfirmApproved)\<rparr>),
                     approve loads call d always ctx)
                | ReplyDenied reason \<Rightarrow> (Some (default_outcome\<lparr>go_allowed := False, go_decision := GateConfirmDenied,
                     go_denial_message := Some (text_or reason ''denied by user'')\<rparr>), ctx))))"

record gated_call =
  \<comment> \<open>a call with what happens while it is gated\<close>
  gc_call :: tool_call
  gc_cancelled :: bool
  gc_reply :: user_reply

record gate_result =
  gr_allowed :: "tool_call list"
  gr_responses :: "(tool_call \<times> denial_text) list"
  gr_aborted :: bool

definition inspector_call_of :: "tool_call \<Rightarrow> inspector_call" where
  "inspector_call_of c = \<lparr>ic_call_id = call_id c, ic_name = call_name c, ic_args = call_args c\<rparr>"

fun gate_chunk_calls ::
    "(string \<Rightarrow> string + json) \<Rightarrow> nat \<Rightarrow> inspector list \<Rightarrow> gated_call list \<Rightarrow> gate_result \<Rightarrow> gate_ctx \<Rightarrow> gate_result \<times> gate_ctx" where
  "gate_chunk_calls loads timeout inspectors [] res ctx = (res, ctx)"
| "gate_chunk_calls loads timeout inspectors (g # gs) res ctx =
     (let c = gc_call g
      in if gc_cancelled g then (res\<lparr>gr_aborted := True\<rparr>, ctx)
         else if str_truthy (call_parse_error c)
         then gate_chunk_calls loads timeout inspectors gs
                (res\<lparr>gr_responses := gr_responses res @ [(c, PlainDenial (the (call_parse_error c)))]\<rparr>) ctx
         else (case resolve_inspector_decision loads timeout (gc_reply g) (inspector_call_of c) inspectors ctx of
             (None, ctx') \<Rightarrow> (res\<lparr>gr_aborted := True\<rparr>, ctx')
           | (Some oc, ctx') \<Rightarrow>
               if go_allowed oc
               then gate_chunk_calls loads timeout inspectors gs (res\<lparr>gr_allowed := gr_allowed res @ [c]\<rparr>) ctx'
               else gate_chunk_calls loads timeout inspectors gs
                      (res\<lparr>gr_responses := gr_responses res @
                         [(c, format_denial (go_denial_message oc) (go_denial_code oc) (go_denial_kind oc))]\<rparr>) ctx'))"

section \<open>Wildcards and rules\<close>

definition literal_text :: "string \<Rightarrow> bool" where
  "literal_text s \<longleftrightarrow> list_all (\<lambda>c. c \<noteq> CHR ''*'' \<and> c \<noteq> CHR ''?'' \<and> c \<noteq> CHR ''['') s"

lemma fn_translate_literal: "literal_text p \<Longrightarrow> fn_translate (p @ q) = map FLit p @ fn_translate q"
  by (induction p) (auto simp: literal_text_def)

lemma fn_matches_literal: "fn_matches (map FLit p @ as) s \<longleftrightarrow> startswith s p \<and> fn_matches as (drop (length p) s)"
proof (induction p arbitrary: s)
  case (Cons c p)
  then show ?case by (cases s) (auto simp: startswith_def)
qed (simp add: startswith_def)

lemma fn_matches_star: "fn_matches [FStar] s"
  by (induction s) auto

lemma fnmatchcase_literal: "literal_text p \<Longrightarrow> fnmatchcase s p \<longleftrightarrow> s = p"
  using fn_translate_literal[of p "[]"] fn_matches_literal[of p "[]" s]
  by (auto simp: fnmatchcase_def startswith_def)

lemma fnmatchcase_prefix: "literal_text p \<Longrightarrow> fnmatchcase s (p @ ''*'') \<longleftrightarrow> startswith s p"
  by (simp add: fnmatchcase_def fn_translate_literal fn_matches_literal fn_matches_star)

lemma evaluate_rules_snoc:
  "evaluate_rules tool resource (rules @ [r])
     = (if rule_match r tool resource then Some r else evaluate_rules tool resource rules)"
  by (simp add: evaluate_rules_def)

lemma evaluate_rules_last:
  "evaluate_rules tool resource rules =
     (let ms = filter (\<lambda>r. rule_match r tool resource) rules in if ms = [] then None else Some (last ms))"
  by (induction rules rule: rev_induct) (auto simp: evaluate_rules_snoc Let_def, simp add: evaluate_rules_def)

text \<open>
  The last rule that matches decides. The outcome of the ruleset is that of the last matching rule, and a
  rule for one tool with a literal prefix and a final star, put at the end, overrides everything before
  it on exactly the resources of that tool that start with the prefix, and changes nothing else.
\<close>
theorem last_rule_decides:
  assumes "literal_text (pr_tool r)" and "literal_text p" and "pr_pattern r = p @ ''*''"
  shows "evaluate_rules tool resource (rules @ [r]) =
      (if tool = pr_tool r \<and> startswith resource p then Some r
       else if filter (\<lambda>q. rule_match q tool resource) rules = [] then None
       else Some (last (filter (\<lambda>q. rule_match q tool resource) rules)))"
  using assms by (simp add: evaluate_rules_snoc rule_match_def fnmatchcase_literal fnmatchcase_prefix
      evaluate_rules_last Let_def)

definition sample_rules :: "permission_rule list" where
  "sample_rules = [\<lparr>pr_tool = ''*'', pr_pattern = ''*'', pr_effect = EAsk, pr_message = None\<rparr>]"

definition git_rule :: permission_rule where
  "git_rule = \<lparr>pr_tool = ''run_command'', pr_pattern = ''git push*'', pr_effect = EDeny, pr_message = None\<rparr>"

theorem last_rule_decides_witness:
  "evaluate_rules ''run_command'' ''git push origin'' (sample_rules @ [git_rule]) = Some git_rule
   \<and> evaluate_rules ''run_command'' ''git status'' (sample_rules @ [git_rule]) = Some (hd sample_rules)"
proof -
  have "literal_text (pr_tool git_rule)" "literal_text ''git push''" "pr_pattern git_rule = ''git push'' @ ''*''"
    by code_simp+
  note eq = last_rule_decides[OF this]
  have "startswith ''git push origin'' ''git push''" "\<not> startswith ''git status'' ''git push''" "pr_tool git_rule = ''run_command''"
    "filter (\<lambda>q. rule_match q ''run_command'' ''git status'') sample_rules = sample_rules" "sample_rules \<noteq> []"
    "last sample_rules = hd sample_rules"
    by code_simp+
  then show ?thesis by (simp add: eq)
qed

section \<open>The gate lets through what was allowed\<close>

definition objections :: "inspector list \<Rightarrow> inspector_call \<Rightarrow> gate_ctx \<Rightarrow> decision list" where
  "objections inspectors call ctx = filter (\<lambda>d. d_kind d \<noteq> DAllow) (map (\<lambda>i. i call ctx) inspectors)"

definition gate_passes :: "inspector list \<Rightarrow> inspector_call \<Rightarrow> user_reply \<Rightarrow> gate_ctx \<Rightarrow> bool" where
  \<comment> \<open>no inspector objects, or the first one to object asks and the user approves\<close>
  "gate_passes inspectors call reply ctx = (case objections inspectors call ctx of
       [] \<Rightarrow> True
     | d # _ \<Rightarrow> d_kind d = DConfirm \<and> tc_bus ctx \<noteq> None \<and> (\<exists>always \<in> {True, False}. reply = ReplyApproved always))"

lemma resolve_by_first_objection:
  "resolve_inspector_decision loads timeout reply call inspectors ctx =
     (case objections inspectors call ctx of
        [] \<Rightarrow> (Some default_outcome, ctx)
      | d # _ \<Rightarrow> resolve_inspector_decision loads timeout reply call [\<lambda>_ _. d] ctx)"
proof (induction inspectors)
  case (Cons i rest)
  then show ?case by (cases "d_kind (i call ctx)") (simp_all add: objections_def Let_def)
qed (simp add: objections_def)

text \<open>
  C16: a call runs only when the chain lets it through: every inspector allows it, or the first inspector that
  does not allow it asks, there is a session to ask, and the user approves. In every other case the call is
  refused or aborted, and nothing is remembered.
\<close>
theorem gate_sound:
  "case resolve_inspector_decision loads timeout reply call inspectors ctx of
     (Some oc, ctx') \<Rightarrow> (go_allowed oc \<longleftrightarrow> gate_passes inspectors call reply ctx)
       \<and> ctx' = (if gate_passes inspectors call reply ctx \<and> objections inspectors call ctx \<noteq> [] then ctx' else ctx)
   | (None, ctx') \<Rightarrow> \<not> gate_passes inspectors call reply ctx \<and> ctx' = ctx"
proof (cases "objections inspectors call ctx")
  case Nil
  then show ?thesis by (subst resolve_by_first_objection) (simp add: gate_passes_def default_outcome_def)
next
  case (Cons d ds)
  have "d_kind d \<noteq> DAllow" using Cons by (auto simp: objections_def filter_eq_Cons_iff)
  then show ?thesis using Cons
    by (subst resolve_by_first_objection)
      (cases "d_kind d"; cases reply; auto simp: gate_passes_def default_outcome_def Let_def)
qed

lemma gate_chunk_accounts:
  assumes "gate_chunk_calls loads timeout inspectors gs res ctx = (res', ctx')"
  shows "\<exists>k xs ys. k \<le> length gs \<and> (gr_aborted res' \<or> k = length gs)
    \<and> gr_allowed res' = gr_allowed res @ xs \<and> map fst (gr_responses res') = map fst (gr_responses res) @ ys
    \<and> mset xs + mset ys = mset (map gc_call (take k gs)) \<and> subseq xs (map gc_call gs) \<and> subseq ys (map gc_call gs)"
  using assms
proof (induction gs arbitrary: res ctx)
  case Nil
  then show ?case by auto
next
  case (Cons g gs)
  have stop: ?case if "res' = res\<lparr>gr_aborted := True\<rparr>"
    using that by (intro exI[of _ 0] exI[of _ "[]"]) simp
  have go: ?case if step: "gate_chunk_calls loads timeout inspectors gs res1 ctx1 = (res', ctx')"
    and one: "gr_allowed res1 = gr_allowed res @ a" "map fst (gr_responses res1) = map fst (gr_responses res) @ b"
      "gr_aborted res1 = gr_aborted res" "a @ b = [gc_call g]" for res1 ctx1 a b
  proof -
    obtain k xs ys where IH: "k \<le> length gs" "gr_aborted res' \<or> k = length gs" "gr_allowed res' = gr_allowed res1 @ xs"
      "map fst (gr_responses res') = map fst (gr_responses res1) @ ys"
      "mset xs + mset ys = mset (map gc_call (take k gs))" "subseq xs (map gc_call gs)" "subseq ys (map gc_call gs)"
      using Cons.IH[OF step] by auto
    have ab: "a = [gc_call g] \<and> b = [] \<or> a = [] \<and> b = [gc_call g]" using one(4) by (cases a) auto
    show ?thesis
      by (intro exI[of _ "Suc k"] exI[of _ "a @ xs"] exI[of _ "b @ ys"]) (use IH one ab in auto)
  qed
  show ?case
  proof (cases "gc_cancelled g \<or> str_truthy (call_parse_error (gc_call g))")
    case True
    then show ?thesis using Cons.prems stop go[of _ _ "[]" "[gc_call g]"]
      by (auto simp: Let_def split: if_splits)
  next
    case False
    obtain oc c1 where r: "resolve_inspector_decision loads timeout (gc_reply g) (inspector_call_of (gc_call g)) inspectors ctx = (oc, c1)"
      by fastforce
    show ?thesis
    proof (cases oc)
      case None
      then have "res' = res\<lparr>gr_aborted := True\<rparr>" using Cons.prems False r by (auto simp: Let_def)
      then show ?thesis by (rule stop)
    next
      case (Some d)
      then show ?thesis using Cons.prems False r go[of _ _ "[]" "[gc_call g]"] go[of _ _ "[gc_call g]" "[]"]
        by (cases "go_allowed d") (auto simp: Let_def)
    qed
  qed
qed

definition empty_gate :: gate_result where
  "empty_gate = \<lparr>gr_allowed = [], gr_responses = [], gr_aborted = False\<rparr>"

definition gate_chunk :: "(string \<Rightarrow> string + json) \<Rightarrow> nat \<Rightarrow> inspector list \<Rightarrow> gated_call list \<Rightarrow> gate_ctx \<Rightarrow> gate_result" where
  "gate_chunk loads timeout inspectors gs ctx = fst (gate_chunk_calls loads timeout inspectors gs empty_gate ctx)"

text \<open>
  Every call of a chunk that was gated is accounted for exactly once: it is either handed on for execution or
  it has an error response, in the order of the chunk, never both. Only an abort leaves calls over, and those
  are the last ones.
\<close>
theorem gate_chunk_partition:
  "\<exists>k. k \<le> length gs \<and> (gr_aborted (gate_chunk loads timeout inspectors gs ctx) \<or> k = length gs)
    \<and> mset (gr_allowed (gate_chunk loads timeout inspectors gs ctx))
        + mset (map fst (gr_responses (gate_chunk loads timeout inspectors gs ctx))) = mset (map gc_call (take k gs))
    \<and> subseq (gr_allowed (gate_chunk loads timeout inspectors gs ctx)) (map gc_call gs)
    \<and> subseq (map fst (gr_responses (gate_chunk loads timeout inspectors gs ctx))) (map gc_call gs)"
  using gate_chunk_accounts[of loads timeout inspectors gs empty_gate ctx
      "fst (gate_chunk_calls loads timeout inspectors gs empty_gate ctx)"
      "snd (gate_chunk_calls loads timeout inspectors gs empty_gate ctx)"]
  by (auto simp: gate_chunk_def empty_gate_def)

section \<open>An approval covers what was asked\<close>

definition hook_agrees :: "persist_hook option \<Rightarrow> string \<Rightarrow> string \<Rightarrow> bool" where
  \<comment> \<open>no hook, or the hook answered yes\<close>
  "hook_agrees persist tool resource \<longleftrightarrow>
     (case persist of None \<Rightarrow> True | Some hook \<Rightarrow> hook tool resource = Some True)"

lemma remember_always_eq:
  "remember_always_approval tool resource persist ctx =
     (if hook_agrees persist tool resource then ctx\<lparr>tc_bus := map_option (remember tool resource) (tc_bus ctx)\<rparr> else ctx)"
  by (auto simp: remember_always_approval_def hook_agrees_def Let_def split: option.splits)

lemma check_permission_confirm:
  assumes "d_kind (check_permission loads rs ask call ctx) = DConfirm"
  shows "d_grant_kind (check_permission loads rs ask call ctx) = None"
    and "d_grant_key (check_permission loads rs ask call ctx) = None"
  using assms by (auto simp: check_permission_def Let_def plain_decision_def decision_from_effect_def
      split: if_splits effect.splits)

lemma check_permission_remember:
  assumes "tc_bus ctx \<noteq> None"
  shows "check_permission loads rs ask call' (ctx\<lparr>tc_bus := map_option (remember tool resource) (tc_bus ctx)\<rparr>)
    = (if ic_name call' = tool \<and> resource_for_call loads call' = resource then plain_decision DAllow None
       else check_permission loads rs ask call' ctx)"
  using assms by (auto simp: check_permission_def is_allowed_def remember_def Let_def)

text \<open>
  An answer of always covers exactly the pair of tool and resource that was asked about. After the ruleset
  asked and the user said always, a later call to the same tool with the same resource is allowed without a
  question, and every other call is judged as before. When the hook that stores approvals refuses or fails,
  nothing is remembered and even the same call is asked about again.
\<close>
theorem always_approval_scope:
  assumes "d_kind (check_permission loads rs True call ctx) = DConfirm" and "tc_bus ctx \<noteq> None"
    and "resolve_inspector_decision loads timeout (ReplyApproved True) call [check_permission loads rs True] ctx = (oc, ctx')"
  shows "check_permission loads rs ask call' ctx' =
    (if hook_agrees (tc_approvals_persist ctx) (ic_name call) (resource_for_call loads call)
        \<and> ic_name call' = ic_name call \<and> resource_for_call loads call' = resource_for_call loads call
     then plain_decision DAllow None else check_permission loads rs ask call' ctx)"
proof -
  note none = check_permission_confirm[OF assms(1)]
  have "ctx' = remember_always_approval (ic_name call) (resource_for_call loads call) (tc_approvals_persist ctx) ctx"
    using assms by (auto simp: Let_def approve_def none grant_session_access_def)
  then show ?thesis using check_permission_remember[OF assms(2)] by (simp add: remember_always_eq)
qed

definition ask_all :: permission_ruleset where
  "ask_all = \<lparr>prs_rules = [], prs_default = EAsk\<rparr>"

definition open_ctx :: gate_ctx where
  "open_ctx = \<lparr>tc_path_grants = {}, tc_command_grants = {},
     tc_bus = Some \<lparr>sb_approvals = {}, sb_path_grants = {}, sb_command_grants = {}\<rparr>,
     tc_grants_persist = None, tc_approvals_persist = None\<rparr>"

definition sample_call :: inspector_call where
  "sample_call = \<lparr>ic_call_id = ''c1'', ic_name = ''read_file'', ic_args = [(''path'', JStr ''a.txt'')]\<rparr>"

theorem always_approval_scope_witness:
  "check_permission Inl ask_all True sample_call
     (snd (resolve_inspector_decision Inl 300 (ReplyApproved True) sample_call [check_permission Inl ask_all True] open_ctx))
   = plain_decision DAllow None"
proof -
  have ask: "d_kind (check_permission Inl ask_all True sample_call open_ctx) = DConfirm" "tc_bus open_ctx \<noteq> None"
    "tc_approvals_persist open_ctx = None" by (simp_all add: check_permission_def open_ctx_def is_allowed_def ask_all_def evaluate_rules_def
      decision_from_effect_def plain_decision_def)
  show ?thesis
    using always_approval_scope[OF ask(1,2), of 300
        "fst (resolve_inspector_decision Inl 300 (ReplyApproved True) sample_call [check_permission Inl ask_all True] open_ctx)"
        "snd (resolve_inspector_decision Inl 300 (ReplyApproved True) sample_call [check_permission Inl ask_all True] open_ctx)"
        True sample_call] ask(3)
    by (simp add: hook_agrees_def)
qed

end
