(* ===== verification/Splice.thy ===== *)
theory Splice
  imports Prelude
begin

text \<open>
  Editing a sequence in place. Both editors of the program, the one for texts and the one for patches, collect
  replacements against the unchanged original and then apply them from the last to the first, so that earlier
  positions stay valid. The reference definition \<open>splice\<close> writes the result from left to right. The lemmas:
  the two agree when the replacements are ordered and do not overlap, and which elements are kept.
\<close>

type_synonym 'a edit = "nat \<times> nat \<times> 'a list"

definition edit_at :: "'a edit \<Rightarrow> 'a list \<Rightarrow> 'a list" where
  \<comment> \<open>positions \<open>s\<close> up to \<open>e\<close> are replaced\<close>
  "edit_at ed xs = (case ed of (s, e, n) \<Rightarrow> take s xs @ n @ drop e xs)"

definition apply_backwards :: "'a edit list \<Rightarrow> 'a list \<Rightarrow> 'a list" where
  "apply_backwards eds xs = foldr edit_at eds xs"

fun splice :: "nat \<Rightarrow> 'a edit list \<Rightarrow> 'a list \<Rightarrow> 'a list" where
  "splice pos [] xs = drop pos xs"
| "splice pos ((s, e, n) # eds) xs = take (s - pos) (drop pos xs) @ n @ splice e eds xs"

fun edits_ok :: "nat \<Rightarrow> nat \<Rightarrow> 'a edit list \<Rightarrow> bool" where
  \<comment> \<open>ordered, disjoint, between \<open>pos\<close> and \<open>len\<close>\<close>
  "edits_ok pos len [] \<longleftrightarrow> pos \<le> len"
| "edits_ok pos len ((s, e, n) # eds) \<longleftrightarrow> pos \<le> s \<and> s \<le> e \<and> edits_ok e len eds"

lemma edits_ok_bound: "edits_ok pos len eds \<Longrightarrow> pos \<le> len"
  by (induction pos len eds rule: edits_ok.induct) auto

lemma edits_ok_mono: "edits_ok pos len eds \<Longrightarrow> q \<le> pos \<Longrightarrow> edits_ok q len eds"
  by (cases eds) auto

lemma apply_backwards_at:
  assumes "edits_ok pos (length xs) eds"
  shows "apply_backwards eds xs = take pos xs @ splice pos eds xs"
  using assms
proof (induction eds arbitrary: pos)
  case (Cons ed eds)
  obtain s e n where ed: "ed = (s, e, n)" by (cases ed) auto
  then have le: "pos \<le> s" "s \<le> e" and ok: "edits_ok e (length xs) eds" using Cons.prems by auto
  then have "e \<le> length xs" using edits_ok_bound by blast
  then have "apply_backwards (ed # eds) xs = take s xs @ n @ splice e eds xs"
    using Cons.IH[OF ok] le ed by (simp add: apply_backwards_def edit_at_def min_def)
  also have "take s xs = take pos xs @ take (s - pos) (drop pos xs)"
    using le by (metis le_add_diff_inverse take_add)
  finally show ?case using ed by simp
qed (simp add: apply_backwards_def)

lemma apply_backwards_splice: "edits_ok 0 (length xs) eds \<Longrightarrow> apply_backwards eds xs = splice 0 eds xs"
  by (simp add: apply_backwards_at)

lemma insort_last_edit:
  assumes "edits_ok pos len eds"
  shows "edits_ok pos len (insort_key fst (len, len, v) eds)"
  using assms
proof (induction eds arbitrary: pos)
  case (Cons ed eds)
  obtain s e n where ed: "ed = (s, e, n)" by (cases ed) auto
  then have ok: "pos \<le> s" "s \<le> e" "edits_ok e len eds" using Cons.prems by auto
  then have "e \<le> len" using edits_ok_bound by blast
  then show ?case using ok ed Cons.IH[of e] by auto
qed simp

lemma insort_first_edit:
  assumes "edits_ok e len eds" and "pos \<le> s" and "s \<le> e"
  shows "edits_ok pos len (insort_key fst (s, e, v) eds)"
proof (cases eds)
  case (Cons ed rest)
  then show ?thesis using assms by (cases ed) auto
qed (use assms in auto)

lemma edits_ok_starts: "edits_ok pos len eds \<Longrightarrow> ed \<in> set eds \<Longrightarrow> pos \<le> fst ed \<and> fst (snd ed) \<le> len"
proof (induction eds arbitrary: pos)
  case (Cons x eds)
  obtain s e n where x: "x = (s, e, n)" by (cases x) auto
  then have "e \<le> len" using Cons.prems(1) edits_ok_bound by auto
  then show ?case using Cons x by fastforce
qed simp

text \<open>Everything outside the replaced stretches survives, in order.\<close>

fun kept :: "nat \<Rightarrow> 'a edit list \<Rightarrow> 'a list \<Rightarrow> 'a list" where
  "kept pos [] xs = drop pos xs"
| "kept pos ((s, e, n) # eds) xs = take (s - pos) (drop pos xs) @ kept e eds xs"

lemma kept_subseq: "subseq (kept pos eds xs) (splice pos eds xs)"
  by (induction pos eds xs rule: kept.induct) (auto intro: list_emb_append_mono list_emb_append2)

end
