(* ===== verification/Text_Edit.thy ===== *)
theory Text_Edit
  imports Splice
begin

text \<open>
  The edit engine of \<open>core/tools/workspace_service.py\<close>: finding the text to replace, exactly or, failing that,
  up to white space, indentation or punctuation, and replacing it; and the range of lines an edit changed.
  A span is a pair of offsets. \<open>snippet_around\<close> is left out (it prints a character above 255).
  Shown: the exact mode is Python's own replacement, the reported range is where the texts differ, and a replacement
  of all fuzzy matches that overlap loses text.
\<close>

section \<open>Finding\<close>

type_synonym span = "nat \<times> nat"

fun find_at :: "string \<Rightarrow> string \<Rightarrow> nat \<Rightarrow> nat option" where
  "find_at needle [] i = (if needle = [] then Some i else None)"
| "find_at needle (c # cs) i = (if startswith (c # cs) needle then Some i else find_at needle cs (Suc i))"

definition text_find :: "string \<Rightarrow> string \<Rightarrow> nat \<Rightarrow> nat option" where
  \<comment> \<open>\<open>text.find(needle, start)\<close>\<close>
  "text_find doc needle i = (if i \<le> length doc then find_at needle (drop i doc) i else None)"

lemma find_at_bounds: "find_at needle s i = Some k \<Longrightarrow> i \<le> k \<and> k \<le> i + length s"
  by (induction needle s i rule: find_at.induct) (auto split: if_splits)

lemma text_find_bounds: "text_find doc needle i = Some k \<Longrightarrow> i \<le> k \<and> k \<le> length doc"
  using find_at_bounds[of needle "drop i doc" i k] by (auto simp: text_find_def split: if_splits)

function collect_exact_spans :: "string \<Rightarrow> string \<Rightarrow> nat \<Rightarrow> span list" where
  "collect_exact_spans doc needle i = (case text_find doc needle i of
       None \<Rightarrow> []
     | Some k \<Rightarrow> (k, k + length needle) # collect_exact_spans doc needle (k + max (length needle) 1))"
  by pat_completeness auto
termination
proof (relation "measure (\<lambda>(doc, needle, i). Suc (length doc) - i)")
  fix doc needle :: string and i k :: nat
  assume "text_find doc needle i = Some k"
  then have "i \<le> k" "k \<le> length doc" using text_find_bounds by blast+
  then show "((doc, needle, k + max (length needle) 1), doc, needle, i) \<in> measure (\<lambda>(doc, needle, i). Suc (length doc) - i)"
    by auto
qed simp

declare collect_exact_spans.simps [simp del]

definition line_offset :: "string list \<Rightarrow> nat \<Rightarrow> nat" where
  "line_offset ls i = sum_list (map (\<lambda>l. length l + 1) (take i ls))"

definition block_starts :: "(string \<Rightarrow> string \<Rightarrow> bool) \<Rightarrow> string list \<Rightarrow> string list \<Rightarrow> nat list" where
  "block_starts eq ls pattern =
     filter (\<lambda>i. list_all2 eq (take (length pattern) (drop i ls)) pattern) [0 ..< Suc (length ls) - length pattern]"

definition block_span :: "string list \<Rightarrow> nat \<Rightarrow> nat \<Rightarrow> span" where
  "block_span ls n i = (line_offset ls i,
     line_offset ls i + sum_list (map length (take n (drop i ls))) + (if 1 < n then n - 1 else 0))"

definition drop_last_empty :: "string list \<Rightarrow> string list" where
  "drop_last_empty ls = (if ls \<noteq> [] \<and> last ls = [] then butlast ls else ls)"

definition line_trimmed_spans :: "string \<Rightarrow> string \<Rightarrow> span list" where
  "line_trimmed_spans content wanted =
     (let ls = split_on nl content; search = drop_last_empty (split_on nl wanted)
      in if search = [] then []
         else map (block_span ls (length search)) (block_starts (\<lambda>a b. py_strip a = py_strip b) ls search))"

definition norm_spaces :: "string \<Rightarrow> string" where
  \<comment> \<open>white space runs become one space, the ends are stripped\<close>
  "norm_spaces s = join_on '' '' (py_split s)"

definition text_block :: "string list \<Rightarrow> nat \<Rightarrow> nat \<Rightarrow> string" where
  "text_block ls n i = join_on [nl] (take n (drop i ls))"

definition whitespace_normalized_spans :: "string \<Rightarrow> string \<Rightarrow> span list" where
  "whitespace_normalized_spans content wanted =
     (let ls = split_on nl content; n = length (split_on nl wanted)
      in map (\<lambda>i. (line_offset ls i, line_offset ls i + length (ls ! i)))
           (filter (\<lambda>i. norm_spaces (ls ! i) = norm_spaces wanted) [0 ..< length ls])
         @ (if 1 < n then
              map (\<lambda>i. (line_offset ls i, line_offset ls i + length (text_block ls n i)))
                (filter (\<lambda>i. norm_spaces (text_block ls n i) = norm_spaces wanted) [0 ..< Suc (length ls) - n])
            else []))"

definition deindent :: "string \<Rightarrow> string" where
  "deindent doc =
     (let ls = split_on nl doc; nonempty = filter (\<lambda>l. py_strip l \<noteq> []) ls
      in if nonempty = [] then doc
         else (let k = min_list (map (\<lambda>l. length l - length (py_lstrip l)) nonempty)
               in join_on [nl] (map (\<lambda>l. if py_strip l = [] then l else drop k l) ls)))"

definition indentation_flexible_spans :: "string \<Rightarrow> string \<Rightarrow> span list" where
  "indentation_flexible_spans content wanted =
     (let ls = split_on nl content; n = length (split_on nl wanted)
      in map (\<lambda>i. (line_offset ls i, line_offset ls i + length (text_block ls n i)))
           (filter (\<lambda>i. deindent (text_block ls n i) = deindent wanted) [0 ..< Suc (length ls) - n]))"

definition normalize_unicode_punctuation :: "string \<Rightarrow> string" where
  \<comment> \<open>of the characters it maps only the no-break space is below 256\<close>
  "normalize_unicode_punctuation s = map (\<lambda>c. if c = CHR 0xA0 then CHR '' '' else c) s"

definition unicode_normalized_spans :: "string \<Rightarrow> string \<Rightarrow> span list" where
  "unicode_normalized_spans content wanted =
     (let ls = split_on nl content; search = drop_last_empty (split_on nl wanted)
      in if search = [] then []
         else map (block_span ls (length search)) (block_starts
                (\<lambda>a b. normalize_unicode_punctuation (py_strip a) = normalize_unicode_punctuation (py_strip b)) ls search))"

definition is_disproportionate_match :: "string \<Rightarrow> string \<Rightarrow> bool" where
  "is_disproportionate_match search old =
     (let old_n = length (split_on nl old); search_n = length (split_on nl search)
      in if max (old_n + 3) (old_n * 2) \<le> search_n then True
         else if old_n = 1 then False
         else max (length (py_strip old) + 500) (length (py_strip old) * 4) < length (py_strip search))"

datatype edit_error = AmbiguousReplace | NotFoundReplace

datatype match_mode = ExactMatch | LineTrimmed | WhitespaceNormalized | IndentationFlexible | UnicodeNormalized

definition span_text :: "string \<Rightarrow> span \<Rightarrow> string" where
  "span_text doc sp = drop (fst sp) (take (snd sp) doc)"

fun fuzzy_spans :: "(match_mode \<times> (string \<Rightarrow> string \<Rightarrow> span list)) list \<Rightarrow> string \<Rightarrow> string \<Rightarrow> bool
    \<Rightarrow> edit_error + span list \<times> match_mode" where
  \<comment> \<open>the loop over the fuzzy finders\<close>
  "fuzzy_spans [] doc old replace_all = Inl NotFoundReplace"
| "fuzzy_spans ((mode, finder) # fs) doc old replace_all =
     (let keep = filter (\<lambda>sp. \<not> is_disproportionate_match (span_text doc sp) old) (finder doc old)
      in if keep = [] then fuzzy_spans fs doc old replace_all
         else if 1 < length keep \<and> \<not> replace_all then Inl AmbiguousReplace
         else Inr (if replace_all then keep else take 1 keep, mode))"

definition find_replace_span :: "string \<Rightarrow> string \<Rightarrow> bool \<Rightarrow> edit_error + span list \<times> match_mode" where
  "find_replace_span doc old replace_all =
     (let exact = collect_exact_spans doc old 0
      in if exact \<noteq> [] then
           (if 1 < length exact \<and> \<not> replace_all then Inl AmbiguousReplace
            else Inr (if replace_all then exact else take 1 exact, ExactMatch))
         else fuzzy_spans [(LineTrimmed, line_trimmed_spans), (WhitespaceNormalized, whitespace_normalized_spans),
                (IndentationFlexible, indentation_flexible_spans), (UnicodeNormalized, unicode_normalized_spans)]
                doc old replace_all)"

definition apply_replace_spans :: "string \<Rightarrow> span list \<Rightarrow> string \<Rightarrow> string" where
  "apply_replace_spans doc spans new =
     fold (\<lambda>(s, e) out. take s out @ new @ drop e out) (sort_key (\<lambda>(s, e). - int s) spans) doc"

section \<open>The changed range\<close>

definition line_break :: "char \<Rightarrow> bool" where
  \<comment> \<open>what \<open>str.splitlines\<close> splits at, below 256\<close>
  "line_break c \<longleftrightarrow> (let n = of_char c :: nat in (10 \<le> n \<and> n \<le> 13) \<or> (28 \<le> n \<and> n \<le> 30) \<or> n = 133)"

fun splitlines_acc :: "string \<Rightarrow> string \<Rightarrow> string list" where
  "splitlines_acc acc [] = (if acc = [] then [] else [rev acc])"
| "splitlines_acc acc [c] = (if line_break c then [rev acc] else [rev (c # acc)])"
| "splitlines_acc acc (c # d # cs) =
     (if c = CHR 0x0D \<and> d = nl then rev acc # splitlines_acc [] cs
      else if line_break c then rev acc # splitlines_acc [] (d # cs)
      else splitlines_acc (c # acc) (d # cs))"

definition py_splitlines :: "string \<Rightarrow> string list" where
  "py_splitlines s = splitlines_acc [] s"

fun common_prefix_len :: "'a list \<Rightarrow> 'a list \<Rightarrow> nat" where
  "common_prefix_len (x # xs) (y # ys) = (if x = y then Suc (common_prefix_len xs ys) else 0)"
| "common_prefix_len _ _ = 0"

definition changed_line_range :: "string \<Rightarrow> string \<Rightarrow> nat \<times> nat" where
  "changed_line_range old new =
     (let os = py_splitlines old; ns = py_splitlines new
      in if os = ns then (max 1 (length ns), max 1 (length ns))
         else (let prefix = common_prefix_len os ns;
                   suffix = common_prefix_len (rev (drop prefix os)) (rev (drop prefix ns));
                   first = min (prefix + 1) (max 1 (length ns));
                   last = max first (length ns - suffix)
               in (first, last)))"

section \<open>Exact replacement\<close>

function py_replace :: "string \<Rightarrow> string \<Rightarrow> string \<Rightarrow> string" where
  \<comment> \<open>\<open>s.replace(old, new)\<close> for a non-empty \<open>old\<close>\<close>
  "py_replace old new [] = []"
| "py_replace old new (c # cs) =
     (if startswith (c # cs) old then new @ py_replace old new (drop (length old - 1) cs)
      else c # py_replace old new cs)"
  by pat_completeness auto
termination by (relation "measure (\<lambda>(old, new, s). length s)") auto

lemma find_at_None: "find_at old s i = None \<Longrightarrow> py_replace old new s = s"
  by (induction old s i rule: find_at.induct) (auto split: if_splits)

lemma find_at_Some:
  assumes "find_at old s i = Some k" and "old \<noteq> []"
  shows "k - i + length old \<le> length s
    \<and> py_replace old new s = take (k - i) s @ new @ py_replace old new (drop (k - i + length old) s)"
  using assms
proof (induction old s i rule: find_at.induct)
  case (2 needle c cs i)
  show ?case
  proof (cases "startswith (c # cs) needle")
    case True
    then have "length needle \<le> length (c # cs)" by (metis min.absorb_iff2 length_take nat_le_linear startswith_def min_def)
    moreover have "drop (length needle - 1) cs = drop (length needle) (c # cs)" using "2.prems"(2) by (cases needle) auto
    moreover have "k = i" using "2.prems"(1) True by simp
    ultimately show ?thesis using True by simp
  next
    case False
    then have at: "find_at needle cs (Suc i) = Some k" using "2.prems"(1) by simp
    then have "Suc i \<le> k" using find_at_bounds by blast
    then show ?thesis using "2.IH"[OF False at "2.prems"(2)] False by (simp add: Suc_diff_Suc[symmetric] Suc_diff_le)
  qed
qed simp

lemma text_find_Some:
  assumes "text_find doc old i = Some k" and "old \<noteq> []"
  shows "i \<le> k" and "k + length old \<le> length doc"
    and "py_replace old new (drop i doc) = take (k - i) (drop i doc) @ new @ py_replace old new (drop (k + length old) doc)"
proof -
  have i: "i \<le> length doc" "find_at old (drop i doc) i = Some k" using assms(1) by (auto simp: text_find_def split: if_splits)
  show le: "i \<le> k" using find_at_bounds[OF i(2)] by simp
  note at = find_at_Some[OF i(2) assms(2), of new]
  show "k + length old \<le> length doc" using at le i(1) by (auto simp: le_diff_conv)
  have "drop (k - i + length old) (drop i doc) = drop (k + length old) doc" using le by (simp add: add.commute)
  then show "py_replace old new (drop i doc) = take (k - i) (drop i doc) @ new @ py_replace old new (drop (k + length old) doc)"
    using at by simp
qed

definition span_edits :: "string \<Rightarrow> span list \<Rightarrow> char edit list" where
  "span_edits new spans = map (\<lambda>(s, e). (s, e, new)) spans"

lemma exact_spans_edits:
  assumes "old \<noteq> []" and "i \<le> length doc"
  shows "edits_ok i (length doc) (span_edits new (collect_exact_spans doc old i))
    \<and> splice i (span_edits new (collect_exact_spans doc old i)) doc = py_replace old new (drop i doc)"
  using assms
proof (induction doc old i rule: collect_exact_spans.induct)
  case (1 doc old i)
  show ?case
  proof (cases "text_find doc old i")
    case None
    then have "py_replace old new (drop i doc) = drop i doc"
      using find_at_None[of old "drop i doc" i new] "1.prems"(2) by (simp add: text_find_def)
    then show ?thesis using None "1.prems"(2) by (simp add: collect_exact_spans.simps span_edits_def)
  next
    case (Some k)
    note at = text_find_Some[OF Some "1.prems"(1)]
    have m: "max (length old) 1 = length old" using "1.prems"(1) by (cases old) auto
    have "collect_exact_spans doc old i = (k, k + length old) # collect_exact_spans doc old (k + length old)"
      using Some m by (subst collect_exact_spans.simps) simp
    then show ?thesis using "1.IH"[OF Some "1.prems"(1)] at(1,2) at(3)[of new] m by (simp add: span_edits_def)
  qed
qed

lemma insort_at_end:
  fixes f :: "'b \<Rightarrow> 'k::linorder"
  shows "\<forall>y\<in>set ys. f y < f x \<Longrightarrow> insort_key f x ys = ys @ [x]"
  by (induction ys) (auto simp: not_le[symmetric])

lemma sort_descending:
  fixes f :: "'b \<Rightarrow> 'k::linorder"
  shows "sorted_wrt (\<lambda>x y. f y < f x) xs \<Longrightarrow> sort_key f xs = rev xs"
  by (induction xs) (auto simp: insort_at_end)

definition nonempty_spans :: "span list \<Rightarrow> bool" where
  "nonempty_spans spans \<longleftrightarrow> list_all (\<lambda>(s, e). s < e) spans"

lemma spans_increase:
  assumes "edits_ok p n (span_edits new spans)" and "nonempty_spans spans"
  shows "sorted_wrt (\<lambda>(s, e) (s', e'). s < s') spans \<and> list_all (\<lambda>(s, e). p \<le> s) spans"
  using assms
proof (induction spans arbitrary: p)
  case (Cons sp spans)
  obtain s e where sp: "sp = (s, e)" by (cases sp)
  then have "p \<le> s" "s < e" "edits_ok e n (span_edits new spans)" "nonempty_spans spans"
    using Cons.prems by (auto simp: span_edits_def nonempty_spans_def)
  then show ?case using Cons.IH[of e] sp by (fastforce simp: list_all_iff)
qed simp

lemma apply_spans_splice:
  assumes "edits_ok 0 (length doc) (span_edits new spans)" and "nonempty_spans spans"
  shows "apply_replace_spans doc spans new = splice 0 (span_edits new spans) doc"
proof -
  have "sorted_wrt (\<lambda>x y. (\<lambda>(s, e). - int s) y < (\<lambda>(s, e). - int s) x) spans"
    using spans_increase[OF assms] by (auto elim!: sorted_wrt_mono_rel[rotated] simp: case_prod_beta')
  then have "sort_key (\<lambda>(s, e). - int s) spans = rev spans" by (rule sort_descending)
  then have "apply_replace_spans doc spans new = apply_backwards (span_edits new spans) doc"
    by (simp add: apply_replace_spans_def apply_backwards_def foldr_conv_fold span_edits_def rev_map fold_map
        comp_def edit_at_def[abs_def] case_prod_beta')
  then show ?thesis using apply_backwards_splice[OF assms(1)] by simp
qed

lemma exact_spans_nonempty: "old \<noteq> [] \<Longrightarrow> nonempty_spans (collect_exact_spans doc old i)"
proof (induction doc old i rule: collect_exact_spans.induct)
  case (1 doc old i)
  then show ?case
    by (subst collect_exact_spans.simps) (auto simp: nonempty_spans_def split: option.splits)
qed

lemma contains_find: "text_contains s old \<longleftrightarrow> find_at old s i \<noteq> None"
  by (induction old s i rule: find_at.induct) auto

text \<open>
  C38: an edit of text that is there is Python's own replacement. When the text to replace occurs and the search
  succeeds, it is the exact mode that is used, the result is that of \<open>str.replace\<close>, and without the
  replace-all flag there was exactly one place.
\<close>
theorem exact_edit_is_replace:
  assumes "old \<noteq> []" and "text_contains doc old" and "find_replace_span doc old replace_all = Inr (spans, mode)"
  shows "mode = ExactMatch \<and> apply_replace_spans doc spans new = py_replace old new doc
    \<and> (replace_all \<or> length spans = 1)"
proof -
  let ?all = "collect_exact_spans doc old 0"
  have ne: "?all \<noteq> []" using contains_find[of doc old 0] assms(2)
    by (subst collect_exact_spans.simps) (auto simp: text_find_def)
  then have spans: "spans = ?all" "mode = ExactMatch" "replace_all \<or> length spans = 1"
    using assms(3) by (auto simp: find_replace_span_def Let_def split: if_splits) (cases ?all; auto)+
  show ?thesis using spans exact_spans_edits[OF assms(1), of 0 doc new]
      apply_spans_splice[of doc new ?all] exact_spans_nonempty[OF assms(1)] by simp
qed

theorem exact_edit_is_replace_witness:
  "apply_replace_spans ''a-b-c'' (collect_exact_spans ''a-b-c'' ''-'' 0) ''+'' = ''a+b+c''"
proof -
  have "text_contains ''a-b-c'' ''-''"
    "find_replace_span ''a-b-c'' ''-'' True = Inr (collect_exact_spans ''a-b-c'' ''-'' 0, ExactMatch)"
    "py_replace ''-'' ''+'' ''a-b-c'' = ''a+b+c''" by code_simp+
  then show ?thesis using exact_edit_is_replace[of "''-''" "''a-b-c''" True _ ExactMatch "''+''"] by simp
qed

text \<open>
  Replacing all fuzzy matches can lose text. The matches of the fuzzy finders may overlap; they are all replaced
  from the last to the first with the offsets of the original text, so the second replacement cuts into
  what the first one left. Three indented lines, of which a pair is to be replaced everywhere, become a
  single line: the line that was in no replaced pair is gone.
\<close>
theorem overlapping_matches_lose_text:
  "find_replace_span (''  a'' @ [nl] @ ''  a'' @ [nl] @ ''  a'') (''a'' @ [nl] @ ''a'') True
     = Inr ([(0, 7), (4, 11)], LineTrimmed)
   \<and> apply_replace_spans (''  a'' @ [nl] @ ''  a'' @ [nl] @ ''  a'') [(0, 7), (4, 11)] ''b'' = ''b''"
  by code_simp

section \<open>The range of an edit\<close>

lemma common_prefix_props:
  "common_prefix_len xs ys \<le> length xs" "common_prefix_len xs ys \<le> length ys"
  "take (common_prefix_len xs ys) xs = take (common_prefix_len xs ys) ys"
  by (induction xs ys rule: common_prefix_len.induct) auto

lemma common_suffix:
  fixes xs ys :: "'a list"
  defines "k \<equiv> common_prefix_len (rev xs) (rev ys)"
  shows "drop (length xs - k) xs = drop (length ys - k) ys"
proof -
  have "take k (rev xs) = take k (rev ys)" using common_prefix_props(3)[of "rev xs" "rev ys"] by (simp add: k_def)
  then show ?thesis by (metis rev_drop rev_rev_ident take_rev)
qed

lemma drop_prefix_suffix:
  assumes "take p xs = take p ys" and "p \<le> length xs" and "p \<le> length ys"
    and "k = common_prefix_len (rev (drop p xs)) (rev (drop p ys))"
  shows "drop (length ys - k) ys = drop (length xs - k) xs"
proof -
  have k: "k \<le> length xs - p" "k \<le> length ys - p" using common_prefix_props(1,2)[of "rev (drop p xs)" "rev (drop p ys)"] assms(4) by auto
  have "drop (length (drop p xs) - k) (drop p xs) = drop (length (drop p ys) - k) (drop p ys)"
    unfolding assms(4) by (rule common_suffix)
  then show ?thesis using k assms(2,3) by (simp add: drop_drop add.commute)
qed

text \<open>
  The range of lines reported after an edit is inside the new text, and everything outside it is unchanged: the
  lines before it are the first lines of the old text, the lines after it are the last lines of the old text.
\<close>
theorem changed_range_covers_difference:
  assumes "changed_line_range old new = (initial, final)"
  shows "1 \<le> initial \<and> initial \<le> final \<and> final \<le> max 1 (length (py_splitlines new))
    \<and> take (initial - 1) (py_splitlines new) = take (initial - 1) (py_splitlines old)
    \<and> (\<exists>k. drop final (py_splitlines new) = drop k (py_splitlines old))"
proof -
  define os ns where "os = py_splitlines old" and "ns = py_splitlines new"
  show ?thesis
  proof (cases "os = ns")
    case True
    then have "initial = max 1 (length ns)" "final = max 1 (length ns)"
      using assms by (auto simp: changed_line_range_def Let_def os_def ns_def)
    then show ?thesis using True by (auto simp: os_def[symmetric] ns_def[symmetric])
  next
    case False
    define p where "p = common_prefix_len os ns"
    define k where "k = common_prefix_len (rev (drop p os)) (rev (drop p ns))"
    have fl: "initial = min (p + 1) (max 1 (length ns))" "final = max initial (length ns - k)"
      using assms False by (auto simp: changed_line_range_def Let_def os_def ns_def p_def k_def)
    note p = common_prefix_props[of os ns, folded p_def]
    have suf: "drop (length ns - k) ns = drop (length os - k) os"
      using drop_prefix_suffix[OF p(3,1,2)] by (simp add: k_def)
    have "drop final ns = drop (final - (length ns - k)) (drop (length ns - k) ns)" using fl(2) by simp
    then have "\<exists>j. drop final ns = drop j os" unfolding suf by auto
    moreover have "take (initial - 1) ns = take (initial - 1) os" using p(3) fl(1)
      by (metis add_diff_cancel_right' diff_le_mono min.cobounded1 min_def take_take)
    ultimately show ?thesis using fl by (auto simp: os_def[symmetric] ns_def[symmetric])
  qed
qed

theorem changed_range_covers_difference_witness:
  "take (fst (changed_line_range (''a'' @ [nl] @ ''b'') (''a'' @ [nl] @ ''c'')) - 1) (py_splitlines (''a'' @ [nl] @ ''c'')) = [''a'']"
proof -
  have eq: "changed_line_range (''a'' @ [nl] @ ''b'') (''a'' @ [nl] @ ''c'') = (2, 2)" by code_simp
  have "py_splitlines (''a'' @ [nl] @ ''b'') = [''a'', ''b'']" by code_simp
  then show ?thesis using changed_range_covers_difference[OF eq] eq by (simp only: fst_conv) simp
qed

end
