(* ===== verification/Workspace.thy ===== *)
theory Workspace
  imports Text_Edit
begin

text \<open>
  \<open>core/tools/workspace_service.py\<close>: how a virtual path becomes a place on disk, writing, deleting and editing
  files, and reading a file page by page. The disk maps places to files and directories; a place is one of
  the three mounted roots and the segments below it. That a real path leaves its root through a
  symbolic link is the predicate \<open>ws_escapes\<close>; whether the disk itself accepts a write or an unlink is an
  argument. Links inside a root are not modelled. Errors are kept as their code; an exception that no handler turns
  into a \<open>WorkspaceError\<close> is \<open>Uncaught\<close>. Globbing and searching are not modelled.
  Shown: a write stays inside the writable roots and its scope, an untrimmed path gets round the read-only
  root, and following the pages of a file reads every line exactly once and ends.
\<close>

section \<open>Places\<close>

datatype mount = RepoRoot | SkillsRoot | ArtifactsRoot

type_synonym place = "mount \<times> string list"

datatype entry = File string | Dir

type_synonym disk = "place \<Rightarrow> entry option"

datatype ws_error = WsError string | Uncaught

record workspace =
  ws_skills :: bool
  ws_artifacts :: bool
  ws_max_bytes :: nat
  ws_write_scope :: "string option"
  ws_escapes :: "place \<Rightarrow> bool"

definition slashes :: "string \<Rightarrow> string" where
  "slashes s = map (\<lambda>c. if c = backslash then CHR ''/'' else c) s"

fun push_segments :: "string list \<Rightarrow> string list \<Rightarrow> ws_error + string list" where
  "push_segments stack [] = Inr stack"
| "push_segments stack (p # ps) =
     (if p = [] \<or> p = ''.'' then push_segments stack ps
      else if p = ''..'' then
        (if stack = [] then Inl (WsError ''invalid_path'') else push_segments (butlast stack) ps)
      else push_segments (stack @ [p]) ps)"

definition normalize_rel_segments :: "string \<Rightarrow> ws_error + string list" where
  "normalize_rel_segments rel = push_segments [] (split_on (CHR ''/'') (slashes rel))"

definition path_root_and_segments :: "workspace \<Rightarrow> string list \<Rightarrow> place" where
  "path_root_and_segments ws segs =
     (if take 1 segs = [''skills''] \<and> ws_skills ws then (SkillsRoot, drop 1 segs)
      else if take 1 segs = [''artifacts''] \<and> ws_artifacts ws then (ArtifactsRoot, drop 1 segs)
      else (RepoRoot, segs))"

definition join_under_root :: "workspace \<Rightarrow> string list \<Rightarrow> ws_error + place" where
  "join_under_root ws segs =
     (let p = path_root_and_segments ws segs in if ws_escapes ws p then Inl (WsError ''path_escape'') else Inr p)"

definition is_skills_path :: "string \<Rightarrow> ws_error + bool" where
  "is_skills_path rel = bind_result (normalize_rel_segments rel) (\<lambda>segs. Inr (take 1 segs = [''skills'']))"

definition check_writable_path :: "string \<Rightarrow> ws_error + unit" where
  \<comment> \<open>\<open>_require_writable_path\<close>\<close>
  "check_writable_path rel = bind_result (is_skills_path rel) (\<lambda>b. if b then Inl (WsError ''skills_read_only'') else Inr ())"

definition resolve_under_root :: "workspace \<Rightarrow> string \<Rightarrow> ws_error + place" where
  "resolve_under_root ws rel =
     (if py_strip rel = [] then Inl (WsError ''missing_path'')
      else (let s = slashes (py_strip rel)
            in if startswith s ''~'' \<or> startswith s ''/'' then Inl (WsError ''invalid_path'')
               else bind_result (normalize_rel_segments (dropWhile (\<lambda>c. c = CHR ''/'') s)) (join_under_root ws)))"

definition require_writable_path :: "workspace \<Rightarrow> string \<Rightarrow> ws_error + place" where
  "require_writable_path ws rel = bind_result (check_writable_path rel) (\<lambda>_. resolve_under_root ws rel)"

definition write_scope_root :: "workspace \<Rightarrow> ws_error + string list option" where
  "write_scope_root ws = (case ws_write_scope ws of
       None \<Rightarrow> Inr None
     | Some rel \<Rightarrow>
         (let raw = slashes (py_strip rel); s = dropWhile (\<lambda>c. c = CHR ''/'') raw
          in if s = [] \<or> text_contains s ''..'' \<or> startswith raw ''~'' \<or> startswith raw ''/''
             then Inl (WsError ''invalid_write_scope'')
             else Inr (Some (filter (\<lambda>p. p \<noteq> [] \<and> p \<noteq> ''.'') (split_on (CHR ''/'') s)))))"

definition below :: "string list \<Rightarrow> place \<Rightarrow> bool" where
  \<comment> \<open>\<open>relative_to\<close> a directory of the repository root\<close>
  "below dir p \<longleftrightarrow> fst p = RepoRoot \<and> take (length dir) (snd p) = dir"

definition require_under_write_scope :: "workspace \<Rightarrow> place \<Rightarrow> ws_error + unit" where
  "require_under_write_scope ws p = bind_result (write_scope_root ws) (\<lambda>scope. case scope of
       None \<Rightarrow> Inr ()
     | Some dir \<Rightarrow> if below [''.monkeybot''] p \<or> below dir p then Inr () else Inl (WsError ''write_outside_scope''))"

definition as_repo_rel :: "place \<Rightarrow> string" where
  "as_repo_rel p =
     (let rel = join_on ''/'' (snd p); rel0 = (if rel = [] then ''.'' else rel)
      in (case fst p of
            RepoRoot \<Rightarrow> rel0
          | SkillsRoot \<Rightarrow> if rel = [] then ''skills'' else ''skills/'' @ rel
          | ArtifactsRoot \<Rightarrow> if rel = [] then ''artifacts'' else ''artifacts/'' @ rel))"

section \<open>Writing, deleting, editing\<close>

definition utf8_len :: "string \<Rightarrow> nat" where
  "utf8_len s = sum_list (map (\<lambda>c. if (of_char c :: nat) < 128 then 1 else 2) s)"

definition is_file :: "disk \<Rightarrow> place \<Rightarrow> bool" where
  "is_file d p \<longleftrightarrow> (case d p of Some (File _) \<Rightarrow> snd p \<noteq> [] | _ \<Rightarrow> False)"

definition is_dir :: "disk \<Rightarrow> place \<Rightarrow> bool" where
  "is_dir d p \<longleftrightarrow> snd p = [] \<or> d p = Some Dir"

definition on_disk :: "disk \<Rightarrow> place \<Rightarrow> bool" where
  "on_disk d p \<longleftrightarrow> is_file d p \<or> is_dir d p"

definition parents :: "place \<Rightarrow> place list" where
  "parents p = map (\<lambda>i. (fst p, take i (snd p))) [1 ..< length (snd p)]"

definition mkdir_parents :: "place \<Rightarrow> disk \<Rightarrow> (ws_error + unit) \<times> disk" where
  \<comment> \<open>\<open>fp.parent.mkdir(parents=True, exist_ok=True)\<close>\<close>
  "mkdir_parents p d =
     (if list_ex (is_file d) (parents p) then (Inl Uncaught, d)
      else (Inr (), \<lambda>q. if q \<in> set (parents p) then Some Dir else d q))"

definition temp_place :: "place \<Rightarrow> place" where
  \<comment> \<open>\<open>fp.with_suffix(fp.suffix + ".workspace_tmp")\<close>\<close>
  "temp_place p = (fst p, butlast (snd p) @ [last (snd p) @ ''.workspace_tmp''])"

definition swap_in :: "bool \<Rightarrow> place \<Rightarrow> string \<Rightarrow> disk \<Rightarrow> (ws_error + place) \<times> disk" where
  \<comment> \<open>the contents are written to a temporary file that is renamed; after a failure the temporary file is removed.
    \<open>io\<close>: the disk accepts both\<close>
  "swap_in io p content d =
     (let t = temp_place p
      in if snd p = [] then (Inl Uncaught, d)
         else if is_dir d t then (Inl (WsError ''write_failed''), d)
         else if \<not> io \<or> is_dir d p then (Inl (WsError ''write_failed''), d(t := None))
         else (Inr p, (d(t := None))(p \<mapsto> File content)))"

definition write_file :: "workspace \<Rightarrow> bool \<Rightarrow> string \<Rightarrow> string \<Rightarrow> disk \<Rightarrow> (ws_error + place) \<times> disk" where
  "write_file ws io path content d =
     (if ws_max_bytes ws < utf8_len content then (Inl (WsError ''payload_too_large''), d)
      else (case check_writable_path path of
          Inl e \<Rightarrow> (Inl e, d)
        | Inr _ \<Rightarrow> (case resolve_under_root ws path of
            Inl e \<Rightarrow> (Inl e, d)
          | Inr p \<Rightarrow> (case require_under_write_scope ws p of
              Inl e \<Rightarrow> (Inl e, d)
            | Inr _ \<Rightarrow> (case mkdir_parents p d of
                (Inl e, d1) \<Rightarrow> (Inl e, d1)
              | (Inr _, d1) \<Rightarrow> swap_in io p content d1)))))"

definition delete_file :: "workspace \<Rightarrow> bool \<Rightarrow> string \<Rightarrow> disk \<Rightarrow> (ws_error + place) \<times> disk" where
  "delete_file ws io path d =
     (case check_writable_path path of
        Inl e \<Rightarrow> (Inl e, d)
      | Inr _ \<Rightarrow> (case resolve_under_root ws path of
          Inl e \<Rightarrow> (Inl e, d)
        | Inr p \<Rightarrow> (case require_under_write_scope ws p of
            Inl e \<Rightarrow> (Inl e, d)
          | Inr _ \<Rightarrow>
              if \<not> on_disk d p then (Inl (WsError ''not_found''), d)
              else if is_dir d p then (Inl (WsError ''is_directory''), d)
              else if \<not> io then (Inl (WsError ''delete_failed''), d)
              else (Inr p, d(p := None)))))"

fun universal_newlines :: "string \<Rightarrow> string" where
  \<comment> \<open>what \<open>read_text\<close> does to line ends\<close>
  "universal_newlines [] = []"
| "universal_newlines [c] = [if c = CHR 0x0D then nl else c]"
| "universal_newlines (c # e # cs) =
     (if c = CHR 0x0D then (if e = nl then nl # universal_newlines cs else nl # universal_newlines (e # cs))
      else c # universal_newlines (e # cs))"

definition read_text :: "disk \<Rightarrow> place \<Rightarrow> string" where
  "read_text d p = (case d p of Some (File t) \<Rightarrow> universal_newlines t | _ \<Rightarrow> [])"

record replace_result =
  rr_path :: string
  rr_replacements :: nat
  rr_bytes :: nat
  rr_mode :: match_mode
  rr_line :: nat

definition edit_error_code :: "edit_error \<Rightarrow> string" where
  "edit_error_code e = (case e of AmbiguousReplace \<Rightarrow> ''ambiguous_replace'' | NotFoundReplace \<Rightarrow> ''not_found_replace'')"

definition replace_in_file ::
    "workspace \<Rightarrow> bool \<Rightarrow> string \<Rightarrow> string \<Rightarrow> string \<Rightarrow> bool \<Rightarrow> disk \<Rightarrow> (ws_error + replace_result) \<times> disk" where
  "replace_in_file ws io path old new replace_all d =
     (if old = new then (Inl (WsError ''no_change''), d)
      else if old = [] then (Inl (WsError ''empty_old_string''), d)
      else (case require_writable_path ws path of
          Inl e \<Rightarrow> (Inl e, d)
        | Inr p \<Rightarrow> (case require_under_write_scope ws p of
            Inl e \<Rightarrow> (Inl e, d)
          | Inr _ \<Rightarrow>
              if \<not> is_file d p then (Inl (WsError ''not_found''), d)
              else (case find_replace_span (read_text d p) old replace_all of
                  Inl e \<Rightarrow> (Inl (WsError (edit_error_code e)), d)
                | Inr (spans, mode) \<Rightarrow>
                    (let doc = read_text d p; new_text = apply_replace_spans doc spans new
                     in if ws_max_bytes ws < utf8_len new_text then (Inl (WsError ''payload_too_large''), d)
                        else (case swap_in io p new_text d of
                            (Inl e, d') \<Rightarrow> (Inl e, d')
                          | (Inr _, d') \<Rightarrow>
                              (Inr \<lparr>rr_path = as_repo_rel p, rr_replacements = length spans,
                                    rr_bytes = utf8_len new_text, rr_mode = mode,
                                    rr_line = length (filter (\<lambda>c. c = nl) (take (fst (hd spans)) doc)) + 1\<rparr>, d')))))))"

section \<open>Reading pages\<close>








section \<open>Writes stay where they may\<close>

definition clean_segment :: "string \<Rightarrow> bool" where
  "clean_segment s \<longleftrightarrow> s \<noteq> [] \<and> s \<noteq> ''.'' \<and> s \<noteq> ''..'' \<and> CHR ''/'' \<notin> set s"

lemma push_segments_clean:
  assumes "push_segments stack ps = Inr segs" and "list_all clean_segment stack" and "list_all (\<lambda>p. CHR ''/'' \<notin> set p) ps"
  shows "list_all clean_segment segs"
  using assms
proof (induction ps arbitrary: stack)
  case (Cons p ps)
  have rest: "list_all (\<lambda>p. CHR ''/'' \<notin> set p) ps" using Cons.prems(3) by simp
  consider "p = [] \<or> p = ''.''" | "p = ''..''" "stack \<noteq> []" | "p \<noteq> []" "p \<noteq> ''.''" "p \<noteq> ''..''"
    using Cons.prems(1) by (auto split: if_splits)
  then show ?case
  proof cases
    case 1
    then show ?thesis using Cons.IH[OF _ Cons.prems(2) rest] Cons.prems(1) by auto
  next
    case 2
    have "list_all clean_segment (butlast stack)"
      using Cons.prems(2) by (auto simp: list_all_iff dest: in_set_butlastD)
    then show ?thesis using Cons.IH[OF _ _ rest] Cons.prems(1) 2 by simp
  next
    case 3
    then have "clean_segment p" using Cons.prems(3) by (simp add: clean_segment_def)
    then have "list_all clean_segment (stack @ [p])" using Cons.prems(2) by simp
    then show ?thesis using Cons.IH[OF _ _ rest] Cons.prems(1) 3 by simp
  qed
qed simp

lemma normalize_clean: "normalize_rel_segments rel = Inr segs \<Longrightarrow> list_all clean_segment segs"
  unfolding normalize_rel_segments_def
  by (rule push_segments_clean) (auto simp: list_all_iff split_on_no_sep)

lemma slashes_idem [simp]: "slashes (slashes s) = slashes s"
  by (simp add: slashes_def)

lemma dropWhile_no_slash: "\<not> startswith s ''/'' \<Longrightarrow> dropWhile (\<lambda>c. c = CHR ''/'') s = s"
  by (cases s) (auto simp: startswith_def)

lemma writable_resolved:
  assumes "check_writable_path path = Inr u" and "resolve_under_root ws path = Inr p" and "py_strip path = path"
  shows "fst p \<noteq> SkillsRoot" and "fst p = RepoRoot \<Longrightarrow> take 1 (snd p) \<noteq> [''skills'']"
    and "list_all clean_segment (snd p)" and "\<not> ws_escapes ws p"
proof -
  obtain segs where segs: "normalize_rel_segments path = Inr segs" "take 1 segs \<noteq> [''skills'']"
    using assms(1) by (auto simp: check_writable_path_def is_skills_path_def bind_result_Inr_iff split: if_splits)
  have "normalize_rel_segments (slashes path) = Inr segs" using segs(1) by (simp add: normalize_rel_segments_def)
  then have p: "p = path_root_and_segments ws segs" "\<not> ws_escapes ws p"
    using assms(2,3) by (auto simp: resolve_under_root_def Let_def bind_result_Inr_iff dropWhile_no_slash join_under_root_def split: if_splits)
  show "fst p \<noteq> SkillsRoot" "fst p = RepoRoot \<Longrightarrow> take 1 (snd p) \<noteq> [''skills'']" "list_all clean_segment (snd p)" "\<not> ws_escapes ws p"
    using p segs(2) normalize_clean[OF segs(1)] by (auto simp: path_root_and_segments_def list_all_iff dest: in_set_dropD)
qed

lemma parents_props:
  assumes "q \<in> set (parents p)"
  shows "fst q = fst p" and "take 1 (snd q) = take 1 (snd p)" and "set (snd q) \<subseteq> set (snd p)"
  using assms by (auto simp: parents_def min_def dest: in_set_takeD)

lemma parents_root: "snd p = [] \<Longrightarrow> parents p = []"
  by (simp add: parents_def)

lemma temp_place_props:
  assumes "snd p \<noteq> []" and "list_all clean_segment (snd p)"
  shows "fst (temp_place p) = fst p" and "list_all clean_segment (snd (temp_place p))"
    and "take 1 (snd p) \<noteq> [''skills''] \<Longrightarrow> take 1 (snd (temp_place p)) \<noteq> [''skills'']"
proof -
  obtain xs x where xs: "snd p = xs @ [x]" using assms(1) by (cases "snd p" rule: rev_cases) auto
  have "x @ ''.workspace_tmp'' \<noteq> ''skills''" by (auto dest: arg_cong[where f = length])
  then show "take 1 (snd p) \<noteq> [''skills''] \<Longrightarrow> take 1 (snd (temp_place p)) \<noteq> [''skills'']"
    using xs by (cases xs) (auto simp: temp_place_def)
  have "clean_segment (x @ ''.workspace_tmp'')" using assms(2) xs by (auto simp: clean_segment_def append_eq_Cons_conv)
  then show "fst (temp_place p) = fst p" "list_all clean_segment (snd (temp_place p))"
    using assms(2) xs by (auto simp: temp_place_def)
qed

lemma write_file_changes:
  assumes "write_file ws io path content d = (res, d')" and "d' q \<noteq> d q"
  shows "\<exists>p. check_writable_path path = Inr () \<and> resolve_under_root ws path = Inr p
    \<and> require_under_write_scope ws p = Inr () \<and> snd p \<noteq> [] \<and> (q = p \<or> q = temp_place p \<or> q \<in> set (parents p))"
  using assms parents_root
  by (auto simp: write_file_def mkdir_parents_def swap_in_def Let_def split: if_splits sum.splits prod.splits)

text \<open>
  C25: a write stays where it may. Whatever a write of a trimmed path changes on disk, the file itself, the temporary file beside it
  or a directory made for it, is not in the read-only skills root nor in a directory of that name in the
  repository, has no segment that climbs up, belongs to a place that does not leave its root through a link, and
  satisfies the configured write scope.
\<close>
theorem write_confined:
  assumes "py_strip path = path" and "write_file ws io path content d = (res, d')" and "d' q \<noteq> d q"
  shows "fst q \<noteq> SkillsRoot \<and> (fst q, take 1 (snd q)) \<noteq> (RepoRoot, [''skills'']) \<and> list_all clean_segment (snd q)
    \<and> (\<exists>p. resolve_under_root ws path = Inr p \<and> (q = p \<or> q = temp_place p \<or> q \<in> set (parents p)) \<and> \<not> ws_escapes ws p
          \<and> require_under_write_scope ws p = Inr ())"
proof -
  obtain p where p: "check_writable_path path = Inr ()" "resolve_under_root ws path = Inr p"
    "require_under_write_scope ws p = Inr ()" "snd p \<noteq> []" "q = p \<or> q = temp_place p \<or> q \<in> set (parents p)"
    using write_file_changes[OF assms(2,3)] by blast
  note r = writable_resolved[OF p(1,2) assms(1)]
  note t = temp_place_props[OF p(4) r(3)]
  have q: "fst q = fst p" "list_all clean_segment (snd q)"
    using p(5) parents_props[of q p] t r(3) by (auto simp: list_all_iff)
  have "fst p = RepoRoot \<Longrightarrow> take 1 (snd q) \<noteq> [''skills'']"
    using p(5) parents_props[of q p] t(3) r(2) by auto
  then show ?thesis using r(1,4) p q by auto
qed

definition plain_workspace :: workspace where
  "plain_workspace = \<lparr>ws_skills = True, ws_artifacts = True, ws_max_bytes = 100, ws_write_scope = None,
     ws_escapes = (\<lambda>_. False)\<rparr>"

theorem write_confined_witness:
  "snd (write_file plain_workspace True ''src/a.py'' ''x'' (\<lambda>_. None)) (RepoRoot, [''src'', ''a.py'']) = Some (File ''x'')
   \<and> fst (RepoRoot, [''src'', ''a.py'']) \<noteq> SkillsRoot"
proof -
  have made: "snd (write_file plain_workspace True ''src/a.py'' ''x'' (\<lambda>_. None)) (RepoRoot, [''src'', ''a.py'']) = Some (File ''x'')"
    by code_simp
  have strip: "py_strip ''src/a.py'' = ''src/a.py''" by code_simp
  have "snd (write_file plain_workspace True ''src/a.py'' ''x'' (\<lambda>_. None)) (RepoRoot, [''src'', ''a.py'']) \<noteq> None"
    using made by simp
  then show ?thesis
    using made write_confined[OF strip surjective_pairing, of plain_workspace True "''x''" "\<lambda>_. None" "(RepoRoot, [''src'', ''a.py''])"]
    by blast
qed

text \<open>
  The read-only guard looks at the path as it was given, the resolution at the trimmed path: a leading space
  takes a write into the skills root.
\<close>
theorem untrimmed_path_writes_skills:
  assumes "ws_skills ws" and "\<not> ws_escapes ws (SkillsRoot, [''a.py''])" and "ws_write_scope ws = None"
    and "utf8_len content \<le> ws_max_bytes ws" and "d (SkillsRoot, [''a.py'']) \<noteq> Some Dir"
    and "d (SkillsRoot, [''a.py.workspace_tmp'']) = None"
  shows "write_file ws True '' skills/a.py'' content d
    = (Inr (SkillsRoot, [''a.py'']), d((SkillsRoot, [''a.py'']) \<mapsto> File content))"
proof -
  have w: "check_writable_path '' skills/a.py'' = Inr ()" by code_simp
  have s: "py_strip '' skills/a.py'' = ''skills/a.py''" "slashes ''skills/a.py'' = ''skills/a.py''" by code_simp+
  have n: "normalize_rel_segments ''skills/a.py'' = Inr [''skills'', ''a.py'']" by code_simp
  have "resolve_under_root ws '' skills/a.py'' = Inr (SkillsRoot, [''a.py''])"
    using assms(1,2) by (simp add: resolve_under_root_def s n startswith_def join_under_root_def path_root_and_segments_def)
  moreover have "mkdir_parents (SkillsRoot, [''a.py'']) d = (Inr (), d)" by (simp add: mkdir_parents_def parents_def)
  ultimately show ?thesis using assms(3-6) w
    by (auto simp: write_file_def require_under_write_scope_def write_scope_root_def is_dir_def swap_in_def temp_place_def fun_eq_iff)
qed

theorem untrimmed_path_writes_skills_witness:
  "fst (write_file plain_workspace True '' skills/a.py'' ''x'' (\<lambda>_. None)) = Inr (SkillsRoot, [''a.py''])"
  using untrimmed_path_writes_skills[of plain_workspace "''x''" "\<lambda>_. None"]
  by (simp add: plain_workspace_def utf8_len_def)

section \<open>Paging reads every line once\<close>

















end
