(* ===== verification/Patch_Parse.thy ===== *)
theory Patch_Parse
  imports Workspace
begin

text \<open>
  The first half of \<open>core/tools/patch.py\<close>: the text of a patch is parsed into hunks. The parser walks the lines
  of the patch; where the code keeps an index into all lines, the model keeps the rest of the lines, and the
  end of the patch as the number of lines that stay behind it. An error is kept as its code.
  The property: printing hunks in the documented format and parsing the text gives the hunks back.
\<close>

section \<open>Hunks\<close>

datatype patch_error = PatchError string | Raised ws_error

record update_chunk =
  uc_old_lines :: "string list"
  uc_new_lines :: "string list"
  uc_change_context :: "string option"
  uc_is_end_of_file :: bool

datatype hunk =
    AddHunk string string
  | DeleteHunk string
  | UpdateHunk string "update_chunk list" "string option"

definition begin_marker :: string where
  "begin_marker = ''*** Begin Patch''"

definition end_marker :: string where
  "end_marker = ''*** End Patch''"

definition eof_marker :: string where
  "eof_marker = ''*** End of File''"

section \<open>A patch in a here-document\<close>

definition re_word :: "char \<Rightarrow> bool" where
  \<comment> \<open>the word characters of a regular expression, below 256\<close>
  "re_word c \<longleftrightarrow> py_isalpha c \<or> py_isdigit c \<or> c = CHR ''_'' \<or> of_char c \<in> {178, 179, 185, 188, 189, 190 :: nat}"

definition drop_quote :: "string \<Rightarrow> string" where
  "drop_quote s = (case s of [] \<Rightarrow> [] | c # cs \<Rightarrow> if c = CHR 0x27 \<or> c = CHR 0x22 then cs else s)"

fun heredoc_end :: "string \<Rightarrow> string \<Rightarrow> string option" where
  \<comment> \<open>the shortest body that is followed by a newline, the word and white space to the end\<close>
  "heredoc_end word [] = None"
| "heredoc_end word (c # cs) =
     (if startswith (c # cs) (nl # word) \<and> list_all py_isspace (drop (length word) cs) then Some []
      else map_option (Cons c) (heredoc_end word cs))"

fun heredoc_bodies :: "string \<Rightarrow> string \<Rightarrow> string option" where
  \<comment> \<open>the body starts after a newline of the white space, the last one that works\<close>
  "heredoc_bodies word [] = None"
| "heredoc_bodies word (c # cs) =
     (if \<not> py_isspace c then None
      else (case heredoc_bodies word cs of
          Some b \<Rightarrow> Some b
        | None \<Rightarrow> if c = nl then heredoc_end word cs else None))"

definition strip_heredoc :: "string \<Rightarrow> string" where
  "strip_heredoc s =
     (let after_cat = (if startswith s ''cat'' \<and> dropWhile py_isspace (drop 3 s) \<noteq> drop 3 s
                       then dropWhile py_isspace (drop 3 s) else s)
      in if \<not> startswith after_cat ''<<'' then s
         else (let t = drop_quote (drop 2 after_cat); word = takeWhile re_word t;
                   rest = drop_quote (dropWhile re_word t)
               in if word = [] then s
                  else (case heredoc_bodies word rest of Some b \<Rightarrow> b | None \<Rightarrow> s)))"

section \<open>Headers and hunks\<close>

datatype header = HAdd string | HDelete string | HUpdate string "string option"

definition after_prefix :: "string \<Rightarrow> string \<Rightarrow> string option" where
  "after_prefix p s = (if startswith s p then Some (py_strip (drop (length p) s)) else None)"

definition nonempty_opt :: "string \<Rightarrow> string option" where
  "nonempty_opt s = (if s = [] then None else Some s)"

fun parse_header :: "string list \<Rightarrow> (header \<times> string list) option" where
  "parse_header [] = None"
| "parse_header (line # rest) =
     (case after_prefix ''*** Add File:'' line of
        Some path \<Rightarrow> if path = [] then None else Some (HAdd path, rest)
      | None \<Rightarrow> (case after_prefix ''*** Delete File:'' line of
          Some path \<Rightarrow> if path = [] then None else Some (HDelete path, rest)
        | None \<Rightarrow> (case after_prefix ''*** Update File:'' line of
            Some path \<Rightarrow>
              (case rest of
                 [] \<Rightarrow> if path = [] then None else Some (HUpdate path None, rest)
               | l2 # rest2 \<Rightarrow> (case after_prefix ''*** Move to:'' l2 of
                     Some mv \<Rightarrow> if path = [] then None else Some (HUpdate path (nonempty_opt mv), rest2)
                   | None \<Rightarrow> if path = [] then None else Some (HUpdate path None, rest)))
          | None \<Rightarrow> None)))"

lemma parse_header_shorter: "parse_header ls = Some (h, rest) \<Longrightarrow> length rest < length ls"
  by (cases ls) (auto split: option.splits if_splits list.splits)

definition starred :: "string \<Rightarrow> bool" where
  "starred l \<longleftrightarrow> startswith l ''***''"

definition parse_add_content :: "string list \<Rightarrow> string \<times> string list" where
  "parse_add_content ls =
     (join_on [nl] (map tl (filter (\<lambda>l. startswith l ''+'') (takeWhile (\<lambda>l. \<not> starred l) ls))),
      dropWhile (\<lambda>l. \<not> starred l) ls)"

record chunk_acc =
  ca_old :: "string list"
  ca_new :: "string list"
  ca_blank :: nat

fun chunk_lines :: "chunk_acc \<Rightarrow> string list \<Rightarrow> patch_error + chunk_acc \<times> bool \<times> string list" where
  \<comment> \<open>the inner loop: what was collected, whether the end-of-file marker was met, the rest\<close>
  "chunk_lines a [] = Inr (a, False, [])"
| "chunk_lines a (l # ls) =
     (if startswith l ''@@'' then Inr (a, False, l # ls)
      else if l = eof_marker then Inr (a, True, ls)
      else if starred l then Inr (a, False, l # ls)
      else if l = [] then chunk_lines (a\<lparr>ca_old := ca_old a @ [[]], ca_new := ca_new a @ [[]], ca_blank := Suc (ca_blank a)\<rparr>) ls
      else if hd l = CHR '' '' then chunk_lines (a\<lparr>ca_old := ca_old a @ [tl l], ca_new := ca_new a @ [tl l], ca_blank := 0\<rparr>) ls
      else if hd l = CHR ''-'' then chunk_lines (a\<lparr>ca_old := ca_old a @ [tl l], ca_blank := 0\<rparr>) ls
      else if hd l = CHR ''+'' then chunk_lines (a\<lparr>ca_new := ca_new a @ [tl l], ca_blank := 0\<rparr>) ls
      else Inl (PatchError ''invalid_hunk_line''))"

definition no_lines :: chunk_acc where
  "no_lines = \<lparr>ca_old = [], ca_new = [], ca_blank = 0\<rparr>"

definition finish_chunk :: "string \<Rightarrow> chunk_acc \<Rightarrow> bool \<Rightarrow> update_chunk" where
  \<comment> \<open>blank lines that close a chunk are separators\<close>
  "finish_chunk context a eof =
     (let n = (if eof then 0 else ca_blank a)
      in \<lparr>uc_old_lines = take (length (ca_old a) - n) (ca_old a), uc_new_lines = take (length (ca_new a) - n) (ca_new a),
          uc_change_context = nonempty_opt context, uc_is_end_of_file = eof\<rparr>)"

lemma chunk_lines_shorter: "chunk_lines a ls = Inr (a', eof, rest) \<Longrightarrow> length rest \<le> length ls"
  by (induction a ls rule: chunk_lines.induct) (auto split: if_splits)

lemma chunk_lines_first:
  assumes "chunk_lines a (l # ls) = Inr (a', eof, rest)" and "hd l \<in> set '' -+''" and "l \<noteq> []"
  shows "length rest < length (l # ls)"
proof -
  have "\<not> startswith l ''@@''" "l \<noteq> eof_marker" "\<not> starred l"
    using assms(2,3) by (auto simp: startswith_def eof_marker_def starred_def neq_Nil_conv)
  then show ?thesis using assms by (auto split: if_splits dest!: chunk_lines_shorter)
qed

function parse_update_chunks :: "string list \<Rightarrow> patch_error + update_chunk list \<times> string list" where
  "parse_update_chunks [] = Inr ([], [])"
| "parse_update_chunks (h # ls) =
     (if starred h then Inr ([], h # ls)
      else if startswith h ''@@'' then
        (case chunk_lines no_lines ls of
           Inl e \<Rightarrow> Inl e
         | Inr (a, eof, rest) \<Rightarrow> bind_result (parse_update_chunks rest)
             (\<lambda>(cs, rest'). Inr (finish_chunk (py_strip (drop 2 h)) a eof # cs, rest')))
      else if py_strip h = [] then parse_update_chunks ls
      else if hd h \<in> set '' -+'' then
        (case chunk_lines no_lines (h # ls) of
           Inl e \<Rightarrow> Inl e
         | Inr (a, eof, rest) \<Rightarrow> bind_result (parse_update_chunks rest)
             (\<lambda>(cs, rest'). Inr (finish_chunk [] a eof # cs, rest')))
      else Inl (PatchError ''invalid_hunk_line''))"
  by pat_completeness auto
termination
proof (relation "measure length")
  fix h ls x a y eof rest
  assume "chunk_lines no_lines ls = Inr x" "(a, y) = x" "(eof, rest) = y"
  then show "(rest, h # ls) \<in> measure length" using chunk_lines_shorter[of no_lines ls a eof rest] by auto
next
  fix h ls x a y eof rest
  assume "\<not> py_strip h = []" "hd h \<in> set '' -+''" "chunk_lines no_lines (h # ls) = Inr x" "(a, y) = x" "(eof, rest) = y"
  then show "(rest, h # ls) \<in> measure length"
    using chunk_lines_first[of no_lines h ls a eof rest] by (cases "h = []") auto
qed auto

lemma parse_update_chunks_shorter: "parse_update_chunks ls = Inr (cs, rest) \<Longrightarrow> length rest \<le> length ls"
proof (induction ls arbitrary: cs rest rule: parse_update_chunks.induct)
  case (2 h ls)
  show ?case using "2.prems" "2.IH"(2) chunk_lines_shorter[of no_lines ls] chunk_lines_shorter[of no_lines "h # ls"]
      "2.IH"(1) "2.IH"(3)
    by (fastforce simp: bind_result_Inr_iff split: if_splits sum.splits prod.splits)
qed simp

function parse_hunks :: "nat \<Rightarrow> string list \<Rightarrow> patch_error + hunk list" where
  \<comment> \<open>the main loop; \<open>behind\<close> lines lie behind the end marker's position\<close>
  "parse_hunks behind ls =
     (if length ls \<le> behind then Inr []
      else (case parse_header ls of
          None \<Rightarrow> parse_hunks behind (tl ls)
        | Some (HAdd path, rest) \<Rightarrow>
            bind_result (parse_hunks behind (snd (parse_add_content rest))) (\<lambda>hs.
              Inr (AddHunk path (fst (parse_add_content rest)) # hs))
        | Some (HDelete path, rest) \<Rightarrow> bind_result (parse_hunks behind rest) (\<lambda>hs. Inr (DeleteHunk path # hs))
        | Some (HUpdate path mv, rest) \<Rightarrow>
            (case parse_update_chunks rest of
               Inl e \<Rightarrow> Inl e
             | Inr (cs, rest') \<Rightarrow>
                 if cs = [] \<and> mv = None then Inl (PatchError ''empty_hunk'')
                 else bind_result (parse_hunks behind rest') (\<lambda>hs. Inr (UpdateHunk path cs mv # hs)))))"
  by pat_completeness auto
termination
proof (relation "measure (length \<circ> snd)")
  fix behind :: nat and ls :: "string list" and x h rest path
  assume "parse_header ls = Some x" "(h, rest) = x"
  then have "length rest < length ls" using parse_header_shorter by metis
  then show "((behind, snd (parse_add_content rest)), behind, ls) \<in> measure (length \<circ> snd)"
    using length_dropWhile_le[of "\<lambda>l. \<not> starred l" rest] by (simp add: parse_add_content_def)
next
  fix behind :: nat and ls :: "string list" and x h rest path mv y cs rest'
  assume "parse_header ls = Some x" "(h, rest) = x" "parse_update_chunks rest = Inr y" "(cs, rest') = y"
  then have "length rest' < length ls" using parse_header_shorter[of ls h rest] parse_update_chunks_shorter[of rest cs rest'] by auto
  then show "((behind, rest'), behind, ls) \<in> measure (length \<circ> snd)" by simp
qed (auto dest: parse_header_shorter simp: not_le neq_Nil_conv)

declare parse_hunks.simps [simp del]

fun find_line :: "string \<Rightarrow> string list \<Rightarrow> nat option" where
  "find_line m [] = None"
| "find_line m (l # ls) = (if py_strip l = m then Some 0 else map_option Suc (find_line m ls))"

definition parse_patch :: "string \<Rightarrow> patch_error + hunk list" where
  "parse_patch doc =
     (let ls = split_on nl (strip_heredoc (py_strip doc))
      in (case (find_line begin_marker ls, find_line end_marker ls) of
            (Some b, Some e) \<Rightarrow>
              if e \<le> b then Inl (PatchError ''missing_markers'')
              else bind_result (parse_hunks (length ls - e) (drop (Suc b) ls)) (\<lambda>hs.
                if hs = [] then Inl (PatchError ''empty_patch'') else Inr hs)
          | _ \<Rightarrow> Inl (PatchError ''missing_markers'')))"

section \<open>Printing and parsing\<close>

definition show_chunk :: "update_chunk \<Rightarrow> string list" where
  \<comment> \<open>the documented format: all removed lines, then all added ones\<close>
  "show_chunk c =
     (''@@'' @ (case uc_change_context c of None \<Rightarrow> [] | Some ctx \<Rightarrow> '' '' @ ctx))
       # map (Cons (CHR ''-'')) (uc_old_lines c) @ map (Cons (CHR ''+'')) (uc_new_lines c)
       @ (if uc_is_end_of_file c then [eof_marker] else [])"

fun show_hunk :: "hunk \<Rightarrow> string list" where
  "show_hunk (AddHunk path contents) = (''*** Add File: '' @ path) # map (Cons (CHR ''+'')) (split_on nl contents)"
| "show_hunk (DeleteHunk path) = [''*** Delete File: '' @ path]"
| "show_hunk (UpdateHunk path chunks mv) =
     (''*** Update File: '' @ path) # (case mv of None \<Rightarrow> [] | Some m \<Rightarrow> [''*** Move to: '' @ m]) @ concat (map show_chunk chunks)"

definition show_patch :: "hunk list \<Rightarrow> string" where
  "show_patch hs = join_on [nl] (begin_marker # concat (map show_hunk hs) @ [end_marker])"

definition name_ok :: "string \<Rightarrow> bool" where
  \<comment> \<open>a path or a context line: not blank, on one line, no white space around it\<close>
  "name_ok s \<longleftrightarrow> s \<noteq> [] \<and> py_strip s = s \<and> nl \<notin> set s"

definition chunk_ok :: "update_chunk \<Rightarrow> bool" where
  "chunk_ok c \<longleftrightarrow> list_all (\<lambda>l. nl \<notin> set l) (uc_old_lines c) \<and> list_all (\<lambda>l. nl \<notin> set l) (uc_new_lines c)
     \<and> pred_option name_ok (uc_change_context c)"

fun hunk_ok :: "hunk \<Rightarrow> bool" where
  "hunk_ok (AddHunk path contents) \<longleftrightarrow> name_ok path"
| "hunk_ok (DeleteHunk path) \<longleftrightarrow> name_ok path"
| "hunk_ok (UpdateHunk path chunks mv) \<longleftrightarrow>
     name_ok path \<and> list_all chunk_ok chunks \<and> pred_option name_ok mv \<and> (chunks \<noteq> [] \<or> mv \<noteq> None)"

lemma py_strip_space: "py_strip (CHR '' '' # s) = py_strip s"
  by (simp add: py_strip_def py_lstrip_def py_isspace_def)

lemma name_ok_strip [simp]: "name_ok s \<Longrightarrow> py_strip (CHR '' '' # s) = s" "name_ok s \<Longrightarrow> s \<noteq> []"
  by (auto simp: name_ok_def py_strip_space)

definition chunk_stop :: "string list \<Rightarrow> bool" where
  "chunk_stop t \<longleftrightarrow> (case t of [] \<Rightarrow> True | l # _ \<Rightarrow> startswith l ''@@'' \<or> (starred l \<and> l \<noteq> eof_marker))"

lemma chunk_lines_stop: "chunk_stop t \<Longrightarrow> chunk_lines a t = Inr (a, False, t)"
  by (cases t) (auto simp: chunk_stop_def)

lemma startswith_Cons: "startswith (c # s) (x # p) \<longleftrightarrow> c = x \<and> startswith s p"
  by (auto simp: startswith_def)

lemma startswith_Nil [simp]: "startswith s []"
  by (simp add: startswith_def)

lemma marker_line [simp]:
  "\<not> startswith (CHR ''-'' # l) ''@@''" "\<not> startswith (CHR ''+'' # l) ''@@''" "\<not> starred (CHR ''-'' # l)" "\<not> starred (CHR ''+'' # l)"
  "CHR ''-'' # l \<noteq> eof_marker" "CHR ''+'' # l \<noteq> eof_marker"
  by (auto simp: startswith_Cons starred_def eof_marker_def)

lemma chunk_lines_removed:
  "ca_blank a = 0 \<Longrightarrow> chunk_lines a (map (Cons (CHR ''-'')) old @ t) = chunk_lines (a\<lparr>ca_old := ca_old a @ old\<rparr>) t"
  by (induction old arbitrary: a) (auto intro!: arg_cong[where f = "\<lambda>x. chunk_lines x t"])

lemma chunk_lines_added:
  "ca_blank a = 0 \<Longrightarrow> chunk_lines a (map (Cons (CHR ''+'')) new @ t) = chunk_lines (a\<lparr>ca_new := ca_new a @ new\<rparr>) t"
  by (induction new arbitrary: a) (auto intro!: arg_cong[where f = "\<lambda>x. chunk_lines x t"])

lemma eof_line: "chunk_lines a (eof_marker # t) = Inr (a, True, t)"
  by (simp add: eof_marker_def startswith_Cons)

lemma chunk_lines_show:
  assumes "chunk_stop t"
  shows "chunk_lines no_lines (tl (show_chunk c) @ t)
    = Inr (\<lparr>ca_old = uc_old_lines c, ca_new = uc_new_lines c, ca_blank = 0\<rparr>, uc_is_end_of_file c, t)"
  using chunk_lines_stop[OF assms]
  by (simp add: no_lines_def chunk_lines_removed chunk_lines_added eof_line show_chunk_def del: chunk_lines.simps)

lemma chunk_header:
  "startswith (hd (show_chunk c)) ''@@''" "\<not> starred (hd (show_chunk c))"
  "chunk_ok c \<Longrightarrow> nonempty_opt (py_strip (drop 2 (hd (show_chunk c)))) = uc_change_context c"
  by (auto simp: show_chunk_def startswith_Cons starred_def nonempty_opt_def chunk_ok_def split: option.splits)

definition hunk_stop :: "string list \<Rightarrow> bool" where
  "hunk_stop t \<longleftrightarrow> (case t of [] \<Rightarrow> True | l # _ \<Rightarrow> starred l \<and> l \<noteq> eof_marker)"

lemma parse_chunks_show:
  assumes "list_all chunk_ok cs" and "hunk_stop t"
  shows "parse_update_chunks (concat (map show_chunk cs) @ t) = Inr (cs, t)"
  using assms(1)
proof (induction cs)
  case Nil
  then show ?case using assms(2) by (cases t) (auto simp: hunk_stop_def)
next
  case (Cons c cs)
  let ?rest = "concat (map show_chunk cs) @ t"
  have "chunk_stop ?rest"
    using assms(2) by (cases cs) (auto simp: hunk_stop_def chunk_stop_def show_chunk_def startswith_Cons split: list.splits)
  then have lines: "chunk_lines no_lines (tl (show_chunk c) @ ?rest)
      = Inr (\<lparr>ca_old = uc_old_lines c, ca_new = uc_new_lines c, ca_blank = 0\<rparr>, uc_is_end_of_file c, ?rest)"
    by (rule chunk_lines_show)
  obtain h b where hb: "show_chunk c = h # b" by (simp add: show_chunk_def)
  let ?a = "\<lparr>ca_old = uc_old_lines c, ca_new = uc_new_lines c, ca_blank = 0\<rparr>"
  have h: "startswith h ''@@''" "\<not> starred h" "nonempty_opt (py_strip (drop 2 h)) = uc_change_context c"
    using chunk_header[of c] Cons.prems unfolding hb by auto
  have "parse_update_chunks (show_chunk c @ ?rest) = Inr (finish_chunk (py_strip (drop 2 h)) ?a (uc_is_end_of_file c) # cs, t)"
    using lines Cons h unfolding hb by simp
  moreover have "finish_chunk (py_strip (drop 2 h)) ?a (uc_is_end_of_file c) = c"
    using h(3) by (simp add: finish_chunk_def)
  ultimately show ?case by simp
qed

lemma after_prefix_append: "after_prefix p (p @ s) = Some (py_strip s)"
  by (simp add: after_prefix_def startswith_def)

lemma header_lines:
  assumes "name_ok path"
  shows "parse_header ((''*** Add File: '' @ path) # t) = Some (HAdd path, t)"
    and "parse_header ((''*** Delete File: '' @ path) # t) = Some (HDelete path, t)"
    and "name_ok m \<Longrightarrow> parse_header ((''*** Update File: '' @ path) # (''*** Move to: '' @ m) # t) = Some (HUpdate path (Some m), t)"
    and "\<not> startswith (hd t) ''*** Move to:'' \<Longrightarrow> parse_header ((''*** Update File: '' @ path) # t) = Some (HUpdate path None, t)"
  using assms by (auto simp: after_prefix_def startswith_Cons nonempty_opt_def split: list.splits)

definition plain_stop :: "string list \<Rightarrow> bool" where
  "plain_stop t \<longleftrightarrow> (case t of [] \<Rightarrow> True | l # _ \<Rightarrow> starred l \<and> l \<noteq> eof_marker \<and> \<not> startswith l ''*** Move to:'')"

lemma plain_stop_hunks: "plain_stop (concat (map show_hunk hs) @ [end_marker])"
proof (cases hs)
  case (Cons h hs')
  then show ?thesis by (cases h) (auto simp: plain_stop_def starred_def startswith_Cons eof_marker_def)
qed (simp add: plain_stop_def end_marker_def starred_def startswith_Cons eof_marker_def)

lemma add_content_show:
  assumes "hunk_stop t"
  shows "parse_add_content (map (Cons (CHR ''+'')) (split_on nl s) @ t) = (s, t)"
proof -
  have stop: "takeWhile (\<lambda>l. \<not> starred l) t = []" "dropWhile (\<lambda>l. \<not> starred l) t = t"
    using assms by (cases t; auto simp: hunk_stop_def)+
  have "takeWhile (\<lambda>l. \<not> starred l) (map (Cons (CHR ''+'')) ls @ t) = map (Cons (CHR ''+'')) ls"
    "dropWhile (\<lambda>l. \<not> starred l) (map (Cons (CHR ''+'')) ls @ t) = t" for ls
    by (induction ls) (use stop in simp_all)
  moreover have "filter (\<lambda>l. startswith l ''+'') (map (Cons (CHR ''+'')) ls) = map (Cons (CHR ''+'')) ls" for ls
    by (induction ls) (auto simp: startswith_Cons)
  ultimately show ?thesis by (simp add: parse_add_content_def comp_def join_split_on)
qed

lemma parse_hunks_show:
  assumes "list_all hunk_ok hs"
  shows "parse_hunks 1 (concat (map show_hunk hs) @ [end_marker]) = Inr hs"
  using assms
proof (induction hs)
  case Nil
  then show ?case by (simp add: parse_hunks.simps)
next
  case (Cons h hs)
  let ?t = "concat (map show_hunk hs) @ [end_marker]"
  have stop: "plain_stop ?t" by (rule plain_stop_hunks)
  then have hstop: "hunk_stop ?t" "\<not> startswith (hd ?t) ''*** Move to:''" by (auto simp: plain_stop_def hunk_stop_def split: list.splits)
  have ih: "parse_hunks 1 ?t = Inr hs" using Cons by simp
  show ?case
  proof (cases h)
    case (AddHunk path s)
    then have ok: "name_ok path" using Cons.prems by simp
    show ?thesis using AddHunk ih header_lines(1)[OF ok] add_content_show[OF hstop(1), of s]
      by (subst parse_hunks.simps) simp
  next
    case (DeleteHunk path)
    then have ok: "name_ok path" using Cons.prems by simp
    show ?thesis using DeleteHunk ih header_lines(2)[OF ok] by (subst parse_hunks.simps) simp
  next
    case (UpdateHunk path cs mv)
    then have ok: "name_ok path" "list_all chunk_ok cs" "pred_option name_ok mv" "cs \<noteq> [] \<or> mv \<noteq> None" using Cons.prems by auto
    note chunks = parse_chunks_show[OF ok(2) hstop(1)]
    show ?thesis
    proof (cases mv)
      case None
      have "\<not> startswith (hd (concat (map show_chunk cs) @ ?t)) ''*** Move to:''"
        using hstop(2) by (cases cs) (auto simp: show_chunk_def startswith_Cons)
      then show ?thesis using UpdateHunk None ih header_lines(4)[OF ok(1)] chunks ok(4)
        by (subst parse_hunks.simps) simp
    next
      case (Some m)
      then show ?thesis using UpdateHunk ih header_lines(3)[OF ok(1), of m] chunks ok(3)
        by (subst parse_hunks.simps) simp
    qed
  qed
qed

lemma strip_keeps_start:
  assumes "s \<noteq> []" and "\<not> py_isspace (hd s)"
  shows "startswith s (py_strip s)"
proof -
  have "py_strip s = py_rstrip s" using assms by (cases s) (auto simp: py_strip_def py_lstrip_def)
  moreover have "rev s = takeWhile py_isspace (rev s) @ dropWhile py_isspace (rev s)" by simp
  then have "s = py_rstrip s @ rev (takeWhile py_isspace (rev s))" unfolding py_rstrip_def by (metis rev_append rev_rev_ident)
  ultimately show ?thesis unfolding startswith_def by (metis append_eq_conv_conj)
qed

lemma strip_id:
  assumes "s \<noteq> []" and "\<not> py_isspace (hd s)" and "\<not> py_isspace (last s)"
  shows "py_strip s = s"
proof -
  have "py_lstrip s = s" using assms(1,2) by (cases s) (auto simp: py_lstrip_def)
  moreover have "dropWhile py_isspace (rev s) = rev s" using assms(1,3) by (cases s rule: rev_cases) auto
  ultimately show ?thesis by (simp add: py_strip_def py_rstrip_def)
qed

lemma join_on_snoc: "xs \<noteq> [] \<Longrightarrow> join_on sep (xs @ [v]) = join_on sep xs @ sep @ v"
  by (induction sep xs rule: join_on.induct) auto

lemma join_on_start: "\<exists>r. join_on sep (w # ws) = w @ r"
  by (cases ws) auto

lemma find_line_append: "list_all (\<lambda>l. py_strip l \<noteq> m) xs \<Longrightarrow> py_strip m = m \<Longrightarrow> find_line m (xs @ m # ys) = Some (length xs)"
  by (induction xs) auto

definition body_line :: "string \<Rightarrow> bool" where
  \<comment> \<open>a line between the two markers\<close>
  "body_line l \<longleftrightarrow> l \<noteq> [] \<and> hd l \<in> set ''*@-+'' \<and> \<not> startswith l end_marker \<and> nl \<notin> set l"

lemma body_line_intros:
  "nl \<notin> set s \<Longrightarrow> body_line (''*** Add File: '' @ s)" "nl \<notin> set s \<Longrightarrow> body_line (''*** Delete File: '' @ s)"
  "nl \<notin> set s \<Longrightarrow> body_line (''*** Update File: '' @ s)" "nl \<notin> set s \<Longrightarrow> body_line (''*** Move to: '' @ s)"
  "nl \<notin> set s \<Longrightarrow> body_line (CHR ''+'' # s)" "nl \<notin> set s \<Longrightarrow> body_line (CHR ''-'' # s)" "body_line eof_marker"
  "nl \<notin> set s \<Longrightarrow> body_line (''@@'' @ s)"
  by (simp_all add: body_line_def nl_def end_marker_def eof_marker_def startswith_Cons)

lemma show_chunk_lines:
  assumes "chunk_ok c" and "l \<in> set (show_chunk c)"
  shows "body_line l"
proof -
  have "nl \<notin> set (case uc_change_context c of None \<Rightarrow> [] | Some ctx \<Rightarrow> '' '' @ ctx)"
    using assms(1) by (cases "uc_change_context c") (auto simp: chunk_ok_def name_ok_def nl_def)
  then show ?thesis using assms body_line_intros(5-8)
    by (auto simp: show_chunk_def chunk_ok_def list_all_iff simp del: append_Cons split: if_splits)
qed

lemma show_hunk_lines:
  assumes "hunk_ok h" and "l \<in> set (show_hunk h)"
  shows "body_line l"
proof (cases h)
  case (UpdateHunk path cs mv)
  then consider "l = ''*** Update File: '' @ path" | m where "mv = Some m" "l = ''*** Move to: '' @ m"
    | c where "c \<in> set cs" "l \<in> set (show_chunk c)"
    using assms(2) by (auto split: option.splits)
  then show ?thesis
    using assms(1) UpdateHunk body_line_intros(3,4) show_chunk_lines
    by cases (auto simp: name_ok_def list_all_iff simp del: append_Cons)
qed (use assms body_line_intros(1,2,5) split_on_no_sep in \<open>auto simp: name_ok_def simp del: append_Cons\<close>)

lemma show_patch_lines:
  assumes "list_all hunk_ok hs"
  shows "split_on nl (strip_heredoc (py_strip (show_patch hs))) = begin_marker # concat (map show_hunk hs) @ [end_marker]"
proof -
  let ?ls = "begin_marker # concat (map show_hunk hs) @ [end_marker]"
  obtain r where start: "show_patch hs = begin_marker @ r" using join_on_start[of "[nl]" begin_marker] unfolding show_patch_def by blast
  obtain q where fin: "show_patch hs = q @ end_marker"
    using join_on_snoc[of "begin_marker # concat (map show_hunk hs)" "[nl]" end_marker] by (auto simp: show_patch_def)
  have "show_patch hs \<noteq> []" "hd (show_patch hs) = CHR ''*''" using start by (auto simp: begin_marker_def)
  moreover have "last (show_patch hs) = CHR ''h''" unfolding fin end_marker_def by simp
  ultimately have strip: "py_strip (show_patch hs) = show_patch hs" by (intro strip_id) (auto simp: py_isspace_def)
  have doc: "strip_heredoc (show_patch hs) = show_patch hs" unfolding start begin_marker_def
    by (simp add: strip_heredoc_def startswith_Cons Let_def)
  have "nl \<notin> set l" if "l \<in> set ?ls" for l
    using that assms show_hunk_lines[unfolded body_line_def] by (auto simp: begin_marker_def end_marker_def nl_def list_all_iff)
  then have "split_on nl (show_patch hs) = ?ls" unfolding show_patch_def by (intro split_join_on) auto
  then show ?thesis by (simp only: strip doc)
qed

text \<open>
  C37: printing hunks in the documented format, without unchanged lines between the removed and added ones, and parsing the text gives exactly the hunks back: any contents of added files,
  any removed and added lines, with or without a context line, an end-of-file mark and a new name.
\<close>
theorem patch_roundtrip:
  assumes "list_all hunk_ok hs" and "hs \<noteq> []"
  shows "parse_patch (show_patch hs) = Inr hs"
proof -
  let ?body = "concat (map show_hunk hs)"
  have "find_line begin_marker (begin_marker # ?body @ [end_marker]) = Some 0" by code_simp
  moreover have "py_strip l \<noteq> end_marker" if "l \<in> set (begin_marker # ?body)" for l
  proof -
    have "l \<noteq> [] \<and> hd l \<in> set ''*@-+'' \<and> \<not> startswith l end_marker"
      using that assms(1) show_hunk_lines[unfolded body_line_def] by (auto simp: list_all_iff begin_marker_def end_marker_def startswith_Cons)
    then show ?thesis using strip_keeps_start[of l] by (auto simp: py_isspace_def)
  qed
  then have "find_line end_marker ((begin_marker # ?body) @ end_marker # []) = Some (length (begin_marker # ?body))"
    by (intro find_line_append) (auto simp: list_all_iff, code_simp)
  ultimately show ?thesis using show_patch_lines[OF assms(1)] parse_hunks_show[OF assms(1)] assms(2)
    by (simp add: parse_patch_def)
qed

theorem patch_roundtrip_witness:
  "parse_patch (show_patch [AddHunk ''a.txt'' (''x'' @ [nl] @ ''y''),
       UpdateHunk ''b.txt'' [\<lparr>uc_old_lines = [''old''], uc_new_lines = [[], ''new''], uc_change_context = Some ''def f():'', uc_is_end_of_file = True\<rparr>] (Some ''c.txt'')])
   = Inr [AddHunk ''a.txt'' (''x'' @ [nl] @ ''y''),
       UpdateHunk ''b.txt'' [\<lparr>uc_old_lines = [''old''], uc_new_lines = [[], ''new''], uc_change_context = Some ''def f():'', uc_is_end_of_file = True\<rparr>] (Some ''c.txt'')]"
proof (rule patch_roundtrip)
  have "name_ok ''a.txt''" "name_ok ''b.txt''" "name_ok ''c.txt''" "name_ok ''def f():''" by code_simp+
  then show "list_all hunk_ok [AddHunk ''a.txt'' (''x'' @ [nl] @ ''y''),
       UpdateHunk ''b.txt'' [\<lparr>uc_old_lines = [''old''], uc_new_lines = [[], ''new''], uc_change_context = Some ''def f():'', uc_is_end_of_file = True\<rparr>] (Some ''c.txt'')]"
    by (simp add: chunk_ok_def nl_def)
qed simp

end
