(* ===== verification/Patch.thy ===== *)
theory Patch
  imports Patch_Parse Splice
begin

text \<open>
  The second half of \<open>core/tools/patch.py\<close>: the hunks of a patch are matched against the files, planned, applied and,
  when an operation fails half way, rolled back. The disk and the workspace operations come from \<open>Workspace\<close>;
  whether the disk accepts the n-th write or unlink is an argument. Messages, snippets and the error
  details are not kept, an error is its code.
\<close>

section \<open>Where a chunk belongs\<close>

definition comparators :: "(string \<Rightarrow> string \<Rightarrow> bool) list" where
  "comparators =
     [\<lambda>a b. a = b,
      \<lambda>a b. py_rstrip a = py_rstrip b,
      \<lambda>a b. py_strip a = py_strip b,
      \<lambda>a b. normalize_unicode_punctuation (py_strip a) = normalize_unicode_punctuation (py_strip b)]"

definition lines_match :: "(string \<Rightarrow> string \<Rightarrow> bool) \<Rightarrow> string list \<Rightarrow> string list \<Rightarrow> nat \<Rightarrow> bool" where
  "lines_match compare ls pattern i \<longleftrightarrow> list_all2 compare (take (length pattern) (drop i ls)) pattern"

definition try_match :: "string list \<Rightarrow> string list \<Rightarrow> nat \<Rightarrow> (string \<Rightarrow> string \<Rightarrow> bool) \<Rightarrow> bool \<Rightarrow> nat option" where
  "try_match ls pattern start_index compare eof =
     (if eof \<and> start_index + length pattern \<le> length ls
         \<and> lines_match compare ls pattern (length ls - length pattern)
      then Some (length ls - length pattern)
      else List.find (lines_match compare ls pattern) [start_index ..< Suc (length ls) - length pattern])"

fun first_some :: "('a \<Rightarrow> 'b option) \<Rightarrow> 'a list \<Rightarrow> 'b option" where
  "first_some f [] = None"
| "first_some f (x # xs) = (case f x of None \<Rightarrow> first_some f xs | Some y \<Rightarrow> Some y)"

definition seek_sequence :: "string list \<Rightarrow> string list \<Rightarrow> nat \<Rightarrow> bool \<Rightarrow> nat option" where
  "seek_sequence ls pattern start_index eof =
     (if pattern = [] then None else first_some (\<lambda>compare. try_match ls pattern start_index compare eof) comparators)"

definition match_starts :: "string list \<Rightarrow> string list \<Rightarrow> nat \<Rightarrow> nat list" where
  "match_starts ls pattern start_index =
     (case first_some (\<lambda>compare.
          let starts = filter (lines_match compare ls pattern) [start_index ..< Suc (length ls) - length pattern]
          in if starts = [] then None else Some starts) comparators of
        None \<Rightarrow> [] | Some starts \<Rightarrow> starts)"

definition chunk_target :: "string list \<Rightarrow> update_chunk \<Rightarrow> nat \<Rightarrow> nat option" where
  "chunk_target ls c i =
     (case seek_sequence ls (uc_old_lines c) i (uc_is_end_of_file c) of
        Some k \<Rightarrow> Some k
      | None \<Rightarrow> if last (uc_old_lines c) = [] then seek_sequence ls (butlast (uc_old_lines c)) i (uc_is_end_of_file c)
                else None)"

definition context_targets :: "string list \<Rightarrow> update_chunk \<Rightarrow> nat list \<Rightarrow> nat set" where
  "context_targets ls c header_starts =
     (if uc_old_lines c = [] then set (map Suc header_starts)
      else set (List.map_filter (\<lambda>h. chunk_target ls c (Suc h)) header_starts))"

definition find_anchor :: "string list \<Rightarrow> nat \<Rightarrow> update_chunk \<Rightarrow> patch_error + nat \<times> bool" where
  \<comment> \<open>the line index after the header line, and whether there is one\<close>
  "find_anchor ls line_index c = (case uc_change_context c of
       None \<Rightarrow> Inr (line_index, False)
     | Some ctx \<Rightarrow>
         if ctx = [] then Inr (line_index, False)
         else (case seek_sequence ls [ctx] line_index False of
             None \<Rightarrow> Inl (PatchError ''context_not_found'')
           | Some k \<Rightarrow>
               (let header_starts = match_starts ls [ctx] line_index
                in if 1 < length header_starts \<and> 1 < card (context_targets ls c header_starts)
                   then Inl (PatchError ''ambiguous_context'')
                   else Inr (Suc k, True))))"

definition place_chunk :: "string list \<Rightarrow> nat \<Rightarrow> bool \<Rightarrow> update_chunk \<Rightarrow> patch_error + string edit \<times> nat" where
  \<comment> \<open>the replacement of a chunk, from position to position, and the line index after it\<close>
  "place_chunk ls line_index context_matched c =
     (if uc_old_lines c = [] then
        (let insertion_idx = (if context_matched then line_index
                              else if ls \<noteq> [] \<and> last ls = [] then length ls - 1 else length ls)
         in Inr ((insertion_idx, insertion_idx, uc_new_lines c), line_index))
      else
        (let direct = seek_sequence ls (uc_old_lines c) line_index (uc_is_end_of_file c);
             retry = (direct = None \<and> last (uc_old_lines c) = []);
             pattern = (if retry then butlast (uc_old_lines c) else uc_old_lines c);
             new_slice = (if retry then drop_last_empty (uc_new_lines c) else uc_new_lines c);
             found = (if retry then seek_sequence ls pattern line_index (uc_is_end_of_file c) else direct)
         in (case found of
               None \<Rightarrow> Inl (PatchError ''hunk_not_found'')
             | Some k \<Rightarrow>
                 if \<not> context_matched \<and> \<not> uc_is_end_of_file c \<and> 1 < length (match_starts ls pattern line_index)
                 then Inl (PatchError ''ambiguous_context'')
                 else Inr ((k, k + length pattern, new_slice), k + length pattern))))"

fun derive_edits :: "string list \<Rightarrow> nat \<Rightarrow> update_chunk list \<Rightarrow> patch_error + string edit list" where
  "derive_edits ls line_index [] = Inr []"
| "derive_edits ls line_index (c # cs) =
     bind_result (find_anchor ls line_index c) (\<lambda>(i, context_matched).
     bind_result (place_chunk ls i context_matched c) (\<lambda>(ed, j).
     bind_result (derive_edits ls j cs) (\<lambda>eds. Inr (ed # eds))))"

definition patched_lines :: "string list \<Rightarrow> string edit list \<Rightarrow> string list" where
  "patched_lines ls eds = apply_backwards (sort_key fst eds) ls"

definition derive_new_contents :: "update_chunk list \<Rightarrow> string \<Rightarrow> patch_error + string" where
  "derive_new_contents chunks original_text =
     (let original_lines = drop_last_empty (split_on nl original_text)
      in bind_result (derive_edits original_lines 0 chunks) (\<lambda>eds.
        let res = patched_lines original_lines eds
        in Inr (join_on [nl] (if res = [] \<or> last res \<noteq> [] then res @ [[]] else res))))"

section \<open>Planning\<close>

datatype op_action = ActAdd | ActUpdate | ActMove | ActDelete

record planned_op =
  po_action :: op_action
  po_path :: string
  po_content :: "string option"
  po_move_path :: "string option"
  po_old_content :: "string option"

record plan_state =
  ps_planned :: "planned_op list"
  ps_reserved :: "string list"
  ps_removed :: "string list"

definition canon_path :: "workspace \<Rightarrow> string \<Rightarrow> patch_error + string \<times> place" where
  "canon_path ws path = (case require_writable_path ws path of
       Inl e \<Rightarrow> Inl (Raised e)
     | Inr p \<Rightarrow> Inr (as_repo_rel p, p))"

definition require_absent_dest :: "workspace \<Rightarrow> disk \<Rightarrow> plan_state \<Rightarrow> string \<Rightarrow> patch_error + string" where
  "require_absent_dest ws d ps path = bind_result (canon_path ws path) (\<lambda>(canon, p).
     if (on_disk d p \<and> canon \<notin> set (ps_removed ps)) \<or> canon \<in> set (ps_reserved ps)
     then Inl (PatchError ''already_exists'')
     else Inr canon)"

definition truthy_path :: "string option \<Rightarrow> bool" where
  "truthy_path mv \<longleftrightarrow> mv \<noteq> None \<and> mv \<noteq> Some []"

definition newline_ended :: "string \<Rightarrow> string" where
  "newline_ended s = (if s \<noteq> [] \<and> \<not> endswith s [nl] then s @ [nl] else s)"

fun plan_hunk :: "workspace \<Rightarrow> disk \<Rightarrow> hunk \<Rightarrow> plan_state \<Rightarrow> patch_error + plan_state" where
  "plan_hunk ws d (AddHunk path contents) ps =
     bind_result (require_absent_dest ws d ps path) (\<lambda>canon.
       Inr \<lparr>ps_planned = ps_planned ps @ [\<lparr>po_action = ActAdd, po_path = path, po_content = Some (newline_ended contents),
              po_move_path = None, po_old_content = None\<rparr>],
            ps_reserved = canon # ps_reserved ps, ps_removed = removeAll canon (ps_removed ps)\<rparr>)"
| "plan_hunk ws d (DeleteHunk path) ps =
     bind_result (canon_path ws path) (\<lambda>(canon, p).
       if \<not> is_file d p then Inl (PatchError ''not_found'')
       else Inr \<lparr>ps_planned = ps_planned ps @ [\<lparr>po_action = ActDelete, po_path = path, po_content = None,
                   po_move_path = None, po_old_content = Some (read_text d p)\<rparr>],
                 ps_reserved = removeAll canon (ps_reserved ps), ps_removed = canon # ps_removed ps\<rparr>)"
| "plan_hunk ws d (UpdateHunk path chunks mv) ps =
     bind_result (canon_path ws path) (\<lambda>(canon_src, p).
       if \<not> is_file d p then Inl (PatchError ''not_found'')
       else if truthy_path mv then
         bind_result (require_absent_dest ws d ps (the mv)) (\<lambda>canon_dest.
         bind_result (derive_new_contents chunks (read_text d p)) (\<lambda>new_content.
           Inr \<lparr>ps_planned = ps_planned ps @ [\<lparr>po_action = ActMove, po_path = path, po_content = Some new_content,
                  po_move_path = mv, po_old_content = Some (read_text d p)\<rparr>],
                ps_reserved = removeAll canon_src (canon_dest # ps_reserved ps),
                ps_removed = removeAll canon_dest (canon_src # ps_removed ps)\<rparr>))
       else
         bind_result (derive_new_contents chunks (read_text d p)) (\<lambda>new_content.
           Inr (ps\<lparr>ps_planned := ps_planned ps @ [\<lparr>po_action = ActUpdate, po_path = path, po_content = Some new_content,
                  po_move_path = None, po_old_content = Some (read_text d p)\<rparr>]\<rparr>)))"

fun plan_hunks :: "workspace \<Rightarrow> disk \<Rightarrow> hunk list \<Rightarrow> plan_state \<Rightarrow> patch_error + plan_state" where
  "plan_hunks ws d [] ps = Inr ps"
| "plan_hunks ws d (h # hs) ps = bind_result (plan_hunk ws d h ps) (plan_hunks ws d hs)"

definition plan_ops :: "workspace \<Rightarrow> disk \<Rightarrow> hunk list \<Rightarrow> patch_error + planned_op list" where
  "plan_ops ws d hunks =
     (if hunks = [] then Inl (PatchError ''empty_patch'')
      else bind_result (plan_hunks ws d hunks \<lparr>ps_planned = [], ps_reserved = [], ps_removed = []\<rparr>) (Inr \<circ> ps_planned))"

section \<open>Applying and rolling back\<close>

record file_entry =
  fe_path :: string
  fe_action :: op_action
  fe_from :: "string option"

record apply_run =
  ar_done :: "planned_op list"
  ar_files :: "file_entry list"
  ar_calls :: nat
  ar_disk :: disk

definition ws_write :: "workspace \<Rightarrow> (nat \<Rightarrow> bool) \<Rightarrow> string \<Rightarrow> string \<Rightarrow> apply_run \<Rightarrow> (ws_error + place) \<times> apply_run" where
  "ws_write ws io path content r = (case write_file ws (io (ar_calls r)) path content (ar_disk r) of
     (res, d) \<Rightarrow> (res, r\<lparr>ar_calls := Suc (ar_calls r), ar_disk := d\<rparr>))"

definition ws_delete :: "workspace \<Rightarrow> (nat \<Rightarrow> bool) \<Rightarrow> string \<Rightarrow> apply_run \<Rightarrow> (ws_error + place) \<times> apply_run" where
  "ws_delete ws io path r = (case delete_file ws (io (ar_calls r)) path (ar_disk r) of
     (res, d) \<Rightarrow> (res, r\<lparr>ar_calls := Suc (ar_calls r), ar_disk := d\<rparr>))"

definition applied :: "planned_op \<Rightarrow> apply_run \<Rightarrow> apply_run" where
  "applied op r = r\<lparr>ar_done := ar_done r @ [op]\<rparr>"

definition listed :: "string \<Rightarrow> op_action \<Rightarrow> string option \<Rightarrow> apply_run \<Rightarrow> apply_run" where
  "listed path act src r = r\<lparr>ar_files := ar_files r @ [\<lparr>fe_path = path, fe_action = act, fe_from = src\<rparr>]\<rparr>"

definition apply_op :: "workspace \<Rightarrow> (nat \<Rightarrow> bool) \<Rightarrow> planned_op \<Rightarrow> apply_run \<Rightarrow> patch_error option \<times> apply_run" where
  "apply_op ws io op r = (case po_action op of
       ActDelete \<Rightarrow> (case ws_delete ws io (po_path op) r of
           (Inl e, r1) \<Rightarrow> (Some (Raised e), r1)
         | (Inr _, r1) \<Rightarrow> (None, applied op (listed (po_path op) ActDelete None r1)))
     | ActMove \<Rightarrow> (case (po_content op, po_move_path op) of
           (Some content, Some dest) \<Rightarrow> (case ws_write ws io dest content r of
               (Inl e, r1) \<Rightarrow> (Some (Raised e), r1)
             | (Inr _, r1) \<Rightarrow> (case ws_delete ws io (po_path op) (applied op r1) of
                   (Inl e, r2) \<Rightarrow> (Some (Raised e), r2)
                 | (Inr _, r2) \<Rightarrow> (None, listed dest ActMove (Some (po_path op)) r2)))
         | _ \<Rightarrow> (Some (PatchError ''internal''), r))
     | act \<Rightarrow> (case po_content op of
           None \<Rightarrow> (Some (PatchError ''internal''), r)
         | Some content \<Rightarrow> (case ws_write ws io (po_path op) content r of
               (Inl e, r1) \<Rightarrow> (Some (Raised e), r1)
             | (Inr _, r1) \<Rightarrow> (None, applied op (listed (po_path op) act None r1)))))"

fun run_ops :: "workspace \<Rightarrow> (nat \<Rightarrow> bool) \<Rightarrow> planned_op list \<Rightarrow> apply_run \<Rightarrow> patch_error option \<times> apply_run" where
  "run_ops ws io [] r = (None, r)"
| "run_ops ws io (op # ops) r = (case apply_op ws io op r of
     (Some e, r1) \<Rightarrow> (Some e, r1)
   | (None, r1) \<Rightarrow> run_ops ws io ops r1)"

definition op_paths :: "planned_op \<Rightarrow> string list" where
  "op_paths op = po_path op # (case po_move_path op of None \<Rightarrow> [] | Some mv \<Rightarrow> [mv])"

datatype undo_result = UndoRaised | Undone "string list" "string list"

definition settle :: "(ws_error + place) \<times> apply_run \<Rightarrow> string list \<Rightarrow> undo_result \<times> apply_run" where
  \<comment> \<open>\<open>except WorkspaceError\<close> around one call of the rollback\<close>
  "settle cr paths = (case cr of
       (Inr _, r) \<Rightarrow> (Undone paths [], r)
     | (Inl (WsError _), r) \<Rightarrow> (Undone [] paths, r)
     | (Inl Uncaught, r) \<Rightarrow> (UndoRaised, r))"

definition restore_old :: "workspace \<Rightarrow> (nat \<Rightarrow> bool) \<Rightarrow> planned_op \<Rightarrow> string list \<Rightarrow> string list \<Rightarrow> apply_run \<Rightarrow> undo_result \<times> apply_run" where
  "restore_old ws io op paths idle r = (case po_old_content op of
       None \<Rightarrow> (Undone idle [], r)
     | Some old \<Rightarrow> settle (ws_write ws io (po_path op) old r) paths)"

definition undo_op :: "workspace \<Rightarrow> (nat \<Rightarrow> bool) \<Rightarrow> planned_op \<Rightarrow> apply_run \<Rightarrow> undo_result \<times> apply_run" where
  "undo_op ws io op r = (case po_action op of
       ActAdd \<Rightarrow> settle (ws_delete ws io (po_path op) r) (op_paths op)
     | ActMove \<Rightarrow>
         (case (case po_move_path op of
                  None \<Rightarrow> (Undone [] [], r)
                | Some dest \<Rightarrow> settle (ws_delete ws io dest r) [dest]) of
            (UndoRaised, r1) \<Rightarrow> (UndoRaised, r1)
          | (Undone rev1 dirty1, r1) \<Rightarrow>
              (case restore_old ws io op [po_path op] [] r1 of
                 (UndoRaised, r2) \<Rightarrow> (UndoRaised, r2)
               | (Undone rev2 dirty2, r2) \<Rightarrow> (Undone (rev1 @ rev2) (dirty1 @ dirty2), r2)))
     | _ \<Rightarrow> restore_old ws io op (op_paths op) (op_paths op) r)"

fun undo_all :: "workspace \<Rightarrow> (nat \<Rightarrow> bool) \<Rightarrow> planned_op list \<Rightarrow> apply_run \<Rightarrow> undo_result \<times> apply_run" where
  "undo_all ws io [] r = (Undone [] [], r)"
| "undo_all ws io (op # ops) r = (case undo_op ws io op r of
     (UndoRaised, r1) \<Rightarrow> (UndoRaised, r1)
   | (Undone rev1 dirty1, r1) \<Rightarrow> (case undo_all ws io ops r1 of
         (UndoRaised, r2) \<Rightarrow> (UndoRaised, r2)
       | (Undone rev2 dirty2, r2) \<Rightarrow> (Undone (rev1 @ rev2) (dirty1 @ dirty2), r2)))"

definition rollback_ops :: "workspace \<Rightarrow> (nat \<Rightarrow> bool) \<Rightarrow> apply_run \<Rightarrow> undo_result \<times> apply_run" where
  "rollback_ops ws io r = undo_all ws io (rev (ar_done r)) r"

definition apply_ops :: "workspace \<Rightarrow> (nat \<Rightarrow> bool) \<Rightarrow> planned_op list \<Rightarrow> disk \<Rightarrow> (patch_error + file_entry list) \<times> disk" where
  "apply_ops ws io planned d =
     (case run_ops ws io planned \<lparr>ar_done = [], ar_files = [], ar_calls = 0, ar_disk = d\<rparr> of
        (None, r) \<Rightarrow> (Inr (ar_files r), ar_disk r)
      | (Some (Raised Uncaught), r) \<Rightarrow> (Inl (Raised Uncaught), ar_disk r)
      | (Some exc, r) \<Rightarrow> (case rollback_ops ws io r of
            (UndoRaised, r1) \<Rightarrow> (Inl (Raised Uncaught), ar_disk r1)
          | (Undone reverted dirty, r1) \<Rightarrow>
              (Inl (if dirty \<noteq> [] then PatchError ''rollback_failed''
                    else (case exc of Raised (WsError code) \<Rightarrow> PatchError code | _ \<Rightarrow> exc)), ar_disk r1)))"

definition action_letter :: "op_action \<Rightarrow> char" where
  "action_letter a = (case a of ActAdd \<Rightarrow> CHR ''A'' | ActUpdate \<Rightarrow> CHR ''U'' | ActMove \<Rightarrow> CHR ''M'' | ActDelete \<Rightarrow> CHR ''D'')"

definition file_summary_line :: "file_entry \<Rightarrow> string" where
  "file_summary_line f =
     (if fe_action f = ActMove then ''M '' @ (case fe_from f of None \<Rightarrow> ''None'' | Some s \<Rightarrow> s) @ '' -> '' @ fe_path f
      else action_letter (fe_action f) # '' '' @ fe_path f)"

record patch_result =
  pr_files :: "file_entry list"
  pr_message :: string

definition plan_and_apply_patch ::
    "workspace \<Rightarrow> (nat \<Rightarrow> bool) \<Rightarrow> hunk list \<Rightarrow> disk \<Rightarrow> (patch_error + patch_result) \<times> disk" where
  "plan_and_apply_patch ws io hunks d =
     (case plan_ops ws d hunks of
        Inl e \<Rightarrow> (Inl e, d)
      | Inr planned \<Rightarrow> (case apply_ops ws io planned d of
          (Inl e, d') \<Rightarrow> (Inl e, d')
        | (Inr files, d') \<Rightarrow> (Inr \<lparr>pr_files = files,
            pr_message = ''Success. Updated the following files:'' @ [nl] @ join_on [nl] (map file_summary_line files)\<rparr>, d')))"

section \<open>The replacements of a patch are ordered and disjoint\<close>

lemma first_some_D: "first_some f xs = Some y \<Longrightarrow> \<exists>x\<in>set xs. f x = Some y"
  by (induction xs) (auto split: option.splits)

lemma find_SomeD: "List.find P xs = Some x \<Longrightarrow> x \<in> set xs \<and> P x"
  by (induction xs) (auto split: if_splits)

lemma try_match_sound:
  assumes "try_match ls pattern i compare eof = Some k"
  shows "i \<le> k" and "k + length pattern \<le> length ls \<or> pattern = []" and "lines_match compare ls pattern k"
  using assms by (auto simp: try_match_def split: if_splits dest!: find_SomeD)

definition loosely_equal :: "string list \<Rightarrow> string list \<Rightarrow> bool" where
  \<comment> \<open>equal up to white space at both ends of a line and non-breaking spaces\<close>
  "loosely_equal xs ys \<longleftrightarrow> list_all2 (\<lambda>a b.
     normalize_unicode_punctuation (py_strip a) = normalize_unicode_punctuation (py_strip b)) xs ys"

lemma rstrip_lstrip: "py_rstrip (py_lstrip s) = py_lstrip (py_rstrip s)"
proof (induction s)
  case (Cons c s)
  show ?case
  proof (cases "py_isspace c")
    case space: True
    show ?thesis
    proof (cases "list_all py_isspace s")
      case True
      then have "dropWhile py_isspace (c # s) = []" "dropWhile py_isspace (rev (c # s)) = []"
        using space by (auto simp: list_all_iff)
      then show ?thesis by (simp only: py_lstrip_def py_rstrip_def) simp
    next
      case False
      then obtain x where "x \<in> set (rev s)" "\<not> py_isspace x" by (auto simp: list_all_iff)
      then have "dropWhile py_isspace (rev s @ [c]) = dropWhile py_isspace (rev s) @ [c]" by (rule dropWhile_append1)
      then have "py_rstrip (c # s) = c # py_rstrip s" by (simp add: py_rstrip_def)
      then show ?thesis using Cons space by (simp add: py_lstrip_def)
    qed
  next
    case False
    then have "py_rstrip (c # s) = c # py_rstrip s" unfolding py_rstrip_def by (rule rev_dropWhile_Cons)
    then show ?thesis using False by (simp add: py_lstrip_def)
  qed
qed simp

lemma py_strip_rstrip: "py_strip (py_rstrip s) = py_strip s"
  by (simp add: py_strip_def rstrip_lstrip)

lemma comparators_loose: "compare \<in> set comparators \<Longrightarrow> compare a b
    \<Longrightarrow> normalize_unicode_punctuation (py_strip a) = normalize_unicode_punctuation (py_strip b)"
  by (auto simp: comparators_def) (metis py_strip_rstrip)

lemma seek_sequence_sound:
  assumes "seek_sequence ls pattern i eof = Some k"
  shows "i \<le> k" and "k + length pattern \<le> length ls" and "loosely_equal (take (length pattern) (drop k ls)) pattern"
proof -
  obtain compare where c: "compare \<in> set comparators" "try_match ls pattern i compare eof = Some k" and ne: "pattern \<noteq> []"
    using assms by (auto simp: seek_sequence_def split: if_splits dest!: first_some_D)
  show "i \<le> k" "k + length pattern \<le> length ls" using try_match_sound[OF c(2)] ne by auto
  show "loosely_equal (take (length pattern) (drop k ls)) pattern"
    using try_match_sound(3)[OF c(2)] comparators_loose[OF c(1)]
    by (auto simp: lines_match_def loosely_equal_def elim: list_all2_mono)
qed

definition chunk_edit_ok :: "string list \<Rightarrow> update_chunk \<Rightarrow> string edit \<Rightarrow> bool" where
  \<comment> \<open>an edit replaces exactly the lines the chunk expects by the chunk's new lines\<close>
  "chunk_edit_ok ls c ed = (case ed of (s, e, n) \<Rightarrow>
     (loosely_equal (drop s (take e ls)) (uc_old_lines c) \<and> n = uc_new_lines c)
     \<or> (uc_old_lines c \<noteq> [] \<and> last (uc_old_lines c) = []
        \<and> loosely_equal (drop s (take e ls)) (butlast (uc_old_lines c)) \<and> n = drop_last_empty (uc_new_lines c)))"

lemma find_anchor_sound: "find_anchor ls i c = Inr (j, m) \<Longrightarrow> i \<le> j \<and> (i \<le> length ls \<longrightarrow> j \<le> length ls)"
  by (auto simp: find_anchor_def Let_def split: option.splits if_splits dest: seek_sequence_sound)

lemma place_chunk_sound:
  assumes "place_chunk ls i m c = Inr (ed, j)" and "ls = [] \<or> last ls \<noteq> []" and "i \<le> length ls"
  shows "chunk_edit_ok ls c ed" and "i \<le> j" and "j \<le> length ls"
    and "fst (snd ed) = length ls \<and> fst ed = length ls \<or> i \<le> fst ed \<and> fst ed \<le> fst (snd ed) \<and> fst (snd ed) \<le> j"
proof -
  have "chunk_edit_ok ls c ed \<and> i \<le> j \<and> j \<le> length ls \<and> (fst (snd ed) = length ls \<and> fst ed = length ls
      \<or> i \<le> fst ed \<and> fst ed \<le> fst (snd ed) \<and> fst (snd ed) \<le> j)"
  proof (cases "uc_old_lines c = []")
    case True
    then show ?thesis using assms by (cases m) (auto simp: place_chunk_def chunk_edit_ok_def loosely_equal_def Let_def)
  next
    case False
    obtain k pat new where k: "seek_sequence ls pat i (uc_is_end_of_file c) = Some k"
      and res: "ed = (k, k + length pat, new)" "j = k + length pat"
      and pat: "pat = uc_old_lines c \<and> new = uc_new_lines c
        \<or> last (uc_old_lines c) = [] \<and> pat = butlast (uc_old_lines c) \<and> new = drop_last_empty (uc_new_lines c)"
      using assms(1) False by (auto simp: place_chunk_def Let_def split: option.splits if_splits)
    have "drop k (take (k + length pat) ls) = take (length pat) (drop k ls)" by (simp add: drop_take)
    then show ?thesis using seek_sequence_sound[OF k] res pat False by (auto simp: chunk_edit_ok_def)
  qed
  then show "chunk_edit_ok ls c ed" "i \<le> j" "j \<le> length ls"
    "fst (snd ed) = length ls \<and> fst ed = length ls \<or> i \<le> fst ed \<and> fst ed \<le> fst (snd ed) \<and> fst (snd ed) \<le> j"
    by auto
qed

lemma derive_edits_sound:
  assumes "derive_edits ls i chunks = Inr eds" and "ls = [] \<or> last ls \<noteq> []" and "i \<le> length ls"
  shows "edits_ok i (length ls) (sort_key fst eds)" and "list_all2 (chunk_edit_ok ls) chunks eds"
proof -
  have "edits_ok i (length ls) (sort_key fst eds) \<and> list_all2 (chunk_edit_ok ls) chunks eds"
    using assms(1,3)
  proof (induction chunks arbitrary: i eds)
    case (Cons c cs)
    obtain i1 m ed j eds' where steps: "find_anchor ls i c = Inr (i1, m)" "place_chunk ls i1 m c = Inr (ed, j)"
      "derive_edits ls j cs = Inr eds'" and eds: "eds = ed # eds'"
      using Cons.prems(1) by (auto simp: bind_result_Inr_iff)
    have i1: "i \<le> i1" "i1 \<le> length ls" using find_anchor_sound[OF steps(1)] Cons.prems(2) by auto
    note p = place_chunk_sound[OF steps(2) assms(2) i1(2)]
    have ih: "edits_ok j (length ls) (sort_key fst eds')" "list_all2 (chunk_edit_ok ls) cs eds'"
      using Cons.IH[OF steps(3) p(3)] by auto
    obtain s e n where ed: "ed = (s, e, n)" by (cases ed) auto
    have "edits_ok i (length ls) (insort_key fst (s, e, n) (sort_key fst eds'))"
    proof (cases "i1 \<le> s \<and> s \<le> e \<and> e \<le> j")
      case True
      then show ?thesis using i1 edits_ok_mono[OF ih(1)] by (auto intro!: insort_first_edit)
    next
      case False
      then have "s = length ls" "e = length ls" using p(4) ed by auto
      then show ?thesis using insort_last_edit[OF edits_ok_mono[OF ih(1)]] i1 p(2) by auto
    qed
    then show ?case using eds ed ih(2) p(1) by simp
  qed simp
  then show "edits_ok i (length ls) (sort_key fst eds)" "list_all2 (chunk_edit_ok ls) chunks eds" by auto
qed

text \<open>
  C24: applying the chunks of a patch is a clean edit. When the file does not end in a blank line and all chunks are
  placed, the replacements do not overlap, every one replaces exactly the lines its chunk expects (up to
  white space at the ends of lines) by the chunk's new lines, in particular no line outside the expected ones
  is lost, and deleting and inserting in place from the last replacement to the first writes what a
  single pass from the first line to the last would write.
\<close>
theorem patch_edits_disjoint:
  assumes "derive_edits ls 0 chunks = Inr eds" and "ls = [] \<or> last ls \<noteq> []"
  shows "edits_ok 0 (length ls) (sort_key fst eds) \<and> list_all2 (chunk_edit_ok ls) chunks eds
    \<and> patched_lines ls eds = splice 0 (sort_key fst eds) ls
    \<and> subseq (kept 0 (sort_key fst eds) ls) (patched_lines ls eds)"
proof -
  note s = derive_edits_sound[OF assms le0]
  have "patched_lines ls eds = splice 0 (sort_key fst eds) ls"
    unfolding patched_lines_def by (rule apply_backwards_splice[OF s(1)])
  then show ?thesis using s kept_subseq by metis
qed

definition change_chunk :: "string list \<Rightarrow> string list \<Rightarrow> update_chunk" where
  "change_chunk old new = \<lparr>uc_old_lines = old, uc_new_lines = new, uc_change_context = None, uc_is_end_of_file = False\<rparr>"

theorem patch_edits_disjoint_witness:
  "patched_lines [''a'', ''b'', ''c''] [(1, 2, [''x'']), (3, 3, [''y''])] = splice 0 [(1, 2, [''x'']), (3, 3, [''y''])] [''a'', ''b'', ''c'']"
proof -
  have "derive_edits [''a'', ''b'', ''c''] 0 [change_chunk [''b''] [''x''], change_chunk [] [''y'']]
      = Inr [(1, 2, [''x'']), (3, 3, [''y''])]" by code_simp
  from patch_edits_disjoint[OF this] show ?thesis by simp
qed

text \<open>
  Where the file ends in a blank line, a chunk that only adds lines goes before that blank line, also when an earlier
  chunk has just replaced it: the added line is lost.
\<close>
theorem insertion_before_blank_lost:
  "derive_new_contents [change_chunk [''x'', []] [''y'', []], change_chunk [] [''new'']] (''x'' @ [nl, nl]) = Inr (''y'' @ [nl, nl])"
  by code_simp

section \<open>Rolling back\<close>

definition undisturbed :: "disk \<Rightarrow> disk \<Rightarrow> place \<Rightarrow> bool" where
  \<comment> \<open>nothing changed but, at most, a directory was made where nothing was\<close>
  "undisturbed d d' q \<longleftrightarrow> d' q = d q \<or> d q = None \<and> d' q = Some Dir"

lemma undisturbed_refl [simp]: "undisturbed d d q"
  by (simp add: undisturbed_def)

lemma undisturbed_trans: "undisturbed d d1 q \<Longrightarrow> undisturbed d1 d2 q \<Longrightarrow> undisturbed d d2 q"
  by (auto simp: undisturbed_def)

lemma mkdir_parents_undisturbed: "mkdir_parents p d = (res, d') \<Longrightarrow> undisturbed d d' q"
proof (cases "list_ex (is_file d) (parents p) \<or> q \<notin> set (parents p)")
  case False
  assume "mkdir_parents p d = (res, d')"
  then have "d' q = Some Dir" using False by (auto simp: mkdir_parents_def)
  moreover have "\<not> is_file d q" "snd q \<noteq> []" using False by (auto simp: list_ex_iff parents_def)
  ultimately show ?thesis by (cases "d q"; cases "the (d q)") (auto simp: undisturbed_def is_file_def)
qed (auto simp: mkdir_parents_def undisturbed_def split: if_splits)

definition temp_free :: "disk \<Rightarrow> bool" where
  \<comment> \<open>nothing has the name of a temporary file\<close>
  "temp_free d \<longleftrightarrow> (\<forall>p. snd p \<noteq> [] \<longrightarrow> d (temp_place p) = None)"

definition leaves :: "disk \<Rightarrow> disk \<Rightarrow> place \<Rightarrow> bool" where
  \<comment> \<open>from any original disk without temporary files, an undisturbed place stays undisturbed\<close>
  "leaves d d' q \<longleftrightarrow> (\<forall>d0. temp_free d0 \<longrightarrow> undisturbed d0 d q \<longrightarrow> undisturbed d0 d' q)"

lemma leaves_refl [simp]: "leaves d d q"
  by (simp add: leaves_def)

lemma leaves_trans: "leaves d d1 q \<Longrightarrow> leaves d1 d2 q \<Longrightarrow> leaves d d2 q"
  by (simp add: leaves_def)

lemma undisturbed_leaves: "undisturbed d d' q \<Longrightarrow> leaves d d' q"
  by (auto simp: leaves_def intro: undisturbed_trans)


lemma same_leaves: "d' q = d q \<Longrightarrow> leaves d d' q"
  by (simp add: leaves_def undisturbed_def)

lemma temp_removed_leaves: "snd p \<noteq> [] \<Longrightarrow> leaves d (d(temp_place p := None)) q"
  by (auto simp: leaves_def temp_free_def undisturbed_def simp del: split_paired_All)

lemma temp_other: "snd p \<noteq> [] \<Longrightarrow> temp_place p \<noteq> p"
  by (auto simp: temp_place_def prod_eq_iff append_eq_conv_conj dest: arg_cong[where f = last])

lemma write_file_cases:
  assumes "write_file ws io path content d = (res, d')"
  obtains (ok) p where "res = Inr p" "require_writable_path ws path = Inr p" "d' p = Some (File content)"
      "\<And>q. q \<noteq> p \<Longrightarrow> leaves d d' q" "snd p \<noteq> []" "d' (temp_place p) = None"
      "\<And>q. q \<noteq> p \<Longrightarrow> q \<noteq> temp_place p \<Longrightarrow> undisturbed d d' q"
  | (failed) e where "res = Inl e" "\<And>q. leaves d d' q"
proof (cases res)
  case (Inl e)
  note m = undisturbed_leaves[OF mkdir_parents_undisturbed]
  have "leaves d d' q" for q
    using assms Inl m[of _ d _ _ q] by (auto simp: write_file_def swap_in_def Let_def split: if_splits sum.splits prod.splits
        intro!: leaves_trans[OF _ temp_removed_leaves])
  then show ?thesis using failed Inl by blast
next
  case (Inr p)
  then obtain d1 where d1: "mkdir_parents p d = (Inr (), d1)" "d' = (d1(temp_place p := None))(p \<mapsto> File content)" "snd p \<noteq> []"
    and w: "require_writable_path ws path = Inr p"
    using assms by (auto simp: write_file_def swap_in_def Let_def require_writable_path_def split: if_splits sum.splits prod.splits)
  note m = mkdir_parents_undisturbed[OF d1(1)]
  have "leaves d (d1(temp_place p := None)) q" for q
    using leaves_trans[OF undisturbed_leaves[OF m] temp_removed_leaves[OF d1(3)]] .
  moreover have "leaves (d1(temp_place p := None)) d' q" if "q \<noteq> p" for q using that d1(2) by (intro same_leaves) simp
  ultimately have "leaves d d' q" if "q \<noteq> p" for q using that leaves_trans by blast
  moreover have "undisturbed d d' q" if "q \<noteq> p" "q \<noteq> temp_place p" for q
    using m[of q] that d1(2) by (simp add: undisturbed_def)
  ultimately show ?thesis using ok[of p] Inr w d1 temp_other[OF d1(3)] by simp
qed

lemma delete_file_cases:
  assumes "delete_file ws io path d = (res, d')"
  obtains (ok) p where "res = Inr p" "require_writable_path ws path = Inr p" "d' = d(p := None)" "is_file d p"
  | (failed) e where "res = Inl e" "d' = d"
proof (cases res)
  case (Inl e)
  then have "d' = d" using assms by (auto simp: delete_file_def split: if_splits sum.splits)
  then show ?thesis using failed Inl by blast
next
  case (Inr p)
  then have "require_writable_path ws path = Inr p" "d' = d(p := None)" "is_file d p"
    using assms by (auto simp: delete_file_def require_writable_path_def on_disk_def split: if_splits sum.splits)
  then show ?thesis using ok Inr by blast
qed

definition targets :: "workspace \<Rightarrow> planned_op \<Rightarrow> place set" where
  "targets ws op = {p. \<exists>path\<in>set (op_paths op). require_writable_path ws path = Inr p}"

definition touched :: "workspace \<Rightarrow> planned_op list \<Rightarrow> place set" where
  "touched ws ops = (\<Union>op\<in>set ops. targets ws op)"

lemma touched_append [simp]: "touched ws (xs @ ys) = touched ws xs \<union> touched ws ys"
  by (auto simp: touched_def)

lemma touched_Cons [simp]: "touched ws (x # xs) = targets ws x \<union> touched ws xs" "touched ws [] = {}"
  by (auto simp: touched_def)

lemma ws_write_cases:
  assumes "ws_write ws io path content r = (res, r')"
  obtains (ok) p where "res = Inr p" "require_writable_path ws path = Inr p" "ar_disk r' p = Some (File content)"
      "\<And>q. q \<noteq> p \<Longrightarrow> leaves (ar_disk r) (ar_disk r') q" "ar_done r' = ar_done r"
      "ar_disk r' (temp_place p) = None" "\<And>q. q \<noteq> p \<Longrightarrow> q \<noteq> temp_place p \<Longrightarrow> undisturbed (ar_disk r) (ar_disk r') q"
  | (failed) e where "res = Inl e" "\<And>q. leaves (ar_disk r) (ar_disk r') q" "ar_done r' = ar_done r"
proof -
  obtain d' where w: "write_file ws (io (ar_calls r)) path content (ar_disk r) = (res, d')"
    and r': "r' = r\<lparr>ar_calls := Suc (ar_calls r), ar_disk := d'\<rparr>"
    using assms by (auto simp: ws_write_def split: prod.splits)
  show ?thesis using w by (cases rule: write_file_cases) (use r' that in auto)
qed

lemma ws_delete_cases:
  assumes "ws_delete ws io path r = (res, r')"
  obtains (ok) p where "res = Inr p" "require_writable_path ws path = Inr p" "ar_disk r' = (ar_disk r)(p := None)"
      "ar_done r' = ar_done r"
  | (failed) e where "res = Inl e" "ar_disk r' = ar_disk r" "ar_done r' = ar_done r"
proof -
  obtain d' where w: "delete_file ws (io (ar_calls r)) path (ar_disk r) = (res, d')"
    and r': "r' = r\<lparr>ar_calls := Suc (ar_calls r), ar_disk := d'\<rparr>"
    using assms by (auto simp: ws_delete_def split: prod.splits)
  show ?thesis using w by (cases rule: delete_file_cases) (use r' that in auto)
qed

lemma applied_sel [simp]: "ar_disk (applied op r) = ar_disk r" "ar_done (applied op r) = ar_done r @ [op]"
  by (simp_all add: applied_def)

lemma listed_sel [simp]: "ar_disk (listed p a s r) = ar_disk r" "ar_done (listed p a s r) = ar_done r"
  by (simp_all add: listed_def)



























lemma canon_path_Inr: "canon_path ws path = Inr (c, p) \<longleftrightarrow> require_writable_path ws path = Inr p \<and> c = as_repo_rel p"
  by (auto simp: canon_path_def split: sum.splits)





definition sample_disk :: disk where
  "sample_disk = [(RepoRoot, [''a.txt'']) \<mapsto> File (''a'' @ [nl] @ ''b'' @ [nl])]"


section \<open>A patch that succeeds\<close>

type_synonym file_store = "place \<Rightarrow> string option"

definition files :: "disk \<Rightarrow> file_store" where
  "files d p = (case d p of Some (File t) \<Rightarrow> Some t | _ \<Rightarrow> None)"

definition store_put :: "workspace \<Rightarrow> string \<Rightarrow> string option \<Rightarrow> file_store \<Rightarrow> file_store" where
  \<comment> \<open>a write takes the name of its temporary file, so a file of that name is gone afterwards\<close>
  "store_put ws path t fs = (case require_writable_path ws path of
       Inl _ \<Rightarrow> fs
     | Inr p \<Rightarrow> (case t of None \<Rightarrow> fs(p := None) | Some _ \<Rightarrow> (fs(temp_place p := None))(p := t)))"

fun hunk_effect :: "workspace \<Rightarrow> disk \<Rightarrow> hunk \<Rightarrow> file_store \<Rightarrow> file_store" where
  \<comment> \<open>what a hunk means, its update computed from the files as they were before the patch\<close>
  "hunk_effect ws d (AddHunk path contents) fs = store_put ws path (Some (newline_ended contents)) fs"
| "hunk_effect ws d (DeleteHunk path) fs = store_put ws path None fs"
| "hunk_effect ws d (UpdateHunk path chunks mv) fs =
     (case require_writable_path ws path of
        Inl _ \<Rightarrow> fs
      | Inr p \<Rightarrow> (case derive_new_contents chunks (read_text d p) of
          Inl _ \<Rightarrow> fs
        | Inr t \<Rightarrow> if truthy_path mv then store_put ws path None (store_put ws (the mv) (Some t) fs)
                   else store_put ws path (Some t) fs))"

definition op_effect :: "workspace \<Rightarrow> planned_op \<Rightarrow> file_store \<Rightarrow> file_store" where
  "op_effect ws op fs = (case po_action op of
       ActDelete \<Rightarrow> store_put ws (po_path op) None fs
     | ActMove \<Rightarrow> store_put ws (po_path op) None (store_put ws (the (po_move_path op)) (po_content op) fs)
     | _ \<Rightarrow> store_put ws (po_path op) (po_content op) fs)"

lemma files_undisturbed: "undisturbed d d' q \<Longrightarrow> files d' q = files d q"
  by (auto simp: undisturbed_def files_def)

lemma files_write:
  assumes "ws_write ws io path content r = (Inr p, r')"
  shows "files (ar_disk r') = store_put ws path (Some content) (files (ar_disk r))"
  using assms
proof (cases rule: ws_write_cases)
  case (ok p')
  show ?thesis
  proof
    fix q
    show "files (ar_disk r') q = store_put ws path (Some content) (files (ar_disk r)) q"
      using ok(2-6) ok(7)[of q] files_undisturbed[of "ar_disk r" "ar_disk r'" q]
      by (cases "q = p'"; cases "q = temp_place p'") (auto simp: store_put_def files_def)
  qed
qed simp

lemma files_delete:
  assumes "ws_delete ws io path r = (Inr p, r')"
  shows "files (ar_disk r') = store_put ws path None (files (ar_disk r))"
  using assms by (cases rule: ws_delete_cases) (auto simp: store_put_def files_def fun_eq_iff)

lemma apply_op_effect:
  assumes "apply_op ws io op r = (None, r')"
  shows "files (ar_disk r') = op_effect ws op (files (ar_disk r))"
proof (cases "po_action op")
  case ActMove
  then obtain content dest p r1 p2 r2 where m: "po_content op = Some content" "po_move_path op = Some dest"
    "ws_write ws io dest content r = (Inr p, r1)" "ws_delete ws io (po_path op) (applied op r1) = (Inr p2, r2)"
    "ar_disk r' = ar_disk r2"
    using assms by (auto simp: apply_op_def split: option.splits prod.splits sum.splits)
  show ?thesis using files_write[OF m(3)] files_delete[OF m(4)] by (simp add: op_effect_def ActMove m)
qed (use assms in \<open>auto simp: apply_op_def op_effect_def dest: files_write files_delete split: option.splits prod.splits sum.splits\<close>)

lemma run_ops_effect:
  "run_ops ws io ops r = (None, r') \<Longrightarrow> files (ar_disk r') = fold (op_effect ws) ops (files (ar_disk r))"
  by (induction ops arbitrary: r) (auto split: prod.splits option.splits dest: apply_op_effect)

lemma plan_hunk_effect:
  assumes "plan_hunk ws d h ps = Inr ps'"
  shows "\<exists>op. ps_planned ps' = ps_planned ps @ [op] \<and> hunk_effect ws d h = op_effect ws op"
  using assms
  by (cases h) (auto simp: bind_result_Inr_iff canon_path_Inr op_effect_def fun_eq_iff truthy_path_def store_put_def split: if_splits)

lemma plan_hunks_effect:
  "plan_hunks ws d hs ps = Inr ps' \<Longrightarrow>
   \<exists>ops. ps_planned ps' = ps_planned ps @ ops \<and> fold (hunk_effect ws d) hs = fold (op_effect ws) ops \<and> length ops = length hs"
proof (induction hs arbitrary: ps)
  case (Cons h hs)
  obtain ps1 where ps1: "plan_hunk ws d h ps = Inr ps1" "plan_hunks ws d hs ps1 = Inr ps'"
    using Cons.prems by (auto simp: bind_result_Inr_iff)
  obtain op where op: "ps_planned ps1 = ps_planned ps @ [op]" "hunk_effect ws d h = op_effect ws op"
    using plan_hunk_effect[OF ps1(1)] by blast
  obtain ops where "ps_planned ps' = ps_planned ps1 @ ops" "fold (hunk_effect ws d) hs = fold (op_effect ws) ops" "length ops = length hs"
    using Cons.IH[OF ps1(2)] by blast
  then show ?case using op by (intro exI[of _ "op # ops"]) simp
qed simp

text \<open>
  C23: a patch that succeeds does what its hunks say, and nothing else: the files afterwards are those before it with the effect
  of every hunk, in the order of the patch. All hunks are read against the files as they were before the
  patch.
\<close>
theorem patch_apply_refines:
  assumes "plan_and_apply_patch ws io hunks d = (Inr res, d')"
  shows "files d' = fold (hunk_effect ws d) hunks (files d)"
proof -
  obtain ops where plan: "plan_ops ws d hunks = Inr ops" and app: "apply_ops ws io ops d = (Inr (pr_files res), d')"
    using assms by (auto simp: plan_and_apply_patch_def split: sum.splits prod.splits)
  let ?start = "\<lparr>ar_done = [], ar_files = [], ar_calls = 0, ar_disk = d\<rparr>"
  obtain eo r where run: "run_ops ws io ops ?start = (eo, r)" by fastforce
  have r: "eo = None" "ar_disk r = d'"
    using app run by (cases eo; auto simp: apply_ops_def split: patch_error.splits ws_error.splits prod.splits undo_result.splits)+
  have "fold (hunk_effect ws d) hunks = fold (op_effect ws) ops"
    using plan plan_hunks_effect[of ws d hunks] by (fastforce simp: plan_ops_def bind_result_Inr_iff split: if_splits)
  then show ?thesis using run_ops_effect[of ws io ops ?start r] run r by simp
qed

theorem patch_apply_refines_witness:
  "files (snd (plan_and_apply_patch plain_workspace (\<lambda>_. True)
       [UpdateHunk ''a.txt'' [change_chunk [''a''] [''x'']] (Some ''c.txt'')] sample_disk)) (RepoRoot, [''c.txt''])
     = Some (''x'' @ [nl] @ ''b'' @ [nl])"
  (is "files (snd ?run) _ = _")
proof -
  have "\<not> isl (fst ?run)" by code_simp
  then have "fst ?run = Inr (projr (fst ?run))" by simp
  then obtain res where "?run = (Inr res, snd ?run)" by (metis surjective_pairing)
  from patch_apply_refines[OF this] have eq: "files (snd ?run)
    = fold (hunk_effect plain_workspace sample_disk) [UpdateHunk ''a.txt'' [change_chunk [''a''] [''x'']] (Some ''c.txt'')] (files sample_disk)" .
  show ?thesis unfolding eq by code_simp
qed

text \<open>
  Two update hunks for one file in one patch: both are computed from the file as it was, so the second one undoes the first,
  and the patch reports success.
\<close>
theorem second_update_undoes_first:
  "pr_files (projr (fst (plan_and_apply_patch plain_workspace (\<lambda>_. True)
       [UpdateHunk ''a.txt'' [change_chunk [''a''] [''x'']] None, UpdateHunk ''a.txt'' [change_chunk [''b''] [''y'']] None] sample_disk)))
     = [\<lparr>fe_path = ''a.txt'', fe_action = ActUpdate, fe_from = None\<rparr>, \<lparr>fe_path = ''a.txt'', fe_action = ActUpdate, fe_from = None\<rparr>]
   \<and> files (snd (plan_and_apply_patch plain_workspace (\<lambda>_. True)
       [UpdateHunk ''a.txt'' [change_chunk [''a''] [''x'']] None, UpdateHunk ''a.txt'' [change_chunk [''b''] [''y'']] None] sample_disk))
       (RepoRoot, [''a.txt'']) = Some (''a'' @ [nl] @ ''y'' @ [nl])"
  by code_simp

end
