(* ===== verification/Verdict_Mailbox.thy ===== *)
theory Verdict_Mailbox
  imports Permissions
begin

text \<open>
  \<open>core/verifier/mailbox.py\<close> with \<open>intervention.py\<close>, \<open>severity.py\<close>, \<open>inspector.py\<close> and \<open>actuator.py\<close>: the mailbox in
  which a judge leaves its verdicts about a running request, the corrections shown to the agent until the tracker's
  signals recover, the notes that ask for a new plan, and the inspector that refuses writes. A deposit is taken only for the request that is open on its thread.
  Sets of signal names are lists without repetition: only membership and difference are used. Log lines are left out.
  Shown: a closed request stays silent, a correction only names signals that are still live, a verdict gives at most one
  note between reloads, and the stores stay within their bounds.
\<close>

section \<open>Trusted texts and severities\<close>

definition signal_instructions :: "(string, string) dict" where
  "signal_instructions =
     [(''error_streak'',
       ''Repeated tool failures detected. Stop retrying the same failing action '' @
       ''and choose another approach.''),
      (''write_without_read'',
       ''A write happened without a prior read of the same path. Read the file first, then write.''),
      (''rewrite_churn'',
       ''The same file is being rewritten repeatedly. Stop churning and change approach.''),
      (''constraint_touch'',
       ''A standing constraint was touched. Stay inside the user'' @ [CHR 0x27] @ ''s stated constraints.''),
      (''repeat_correction'',
       ''A previously corrected constraint was touched again. Honor the standing correction.''),
      (''done_unmet'',
       ''The stated completion condition is still unmet. Finish the remaining required work.'')]"

definition fallback_instruction :: string where
  "fallback_instruction =
     ''The current approach is not making progress. Change strategy before repeating the same action.''"

definition replan_tail :: string where
  "replan_tail = ''Do not call tools this turn. Restate the plan.''"

definition ordered_signals :: "string list \<Rightarrow> string list" where
  \<comment> \<open>\<open>dict.fromkeys\<close>: the first occurrence of a name stays\<close>
  "ordered_signals signals = rev (remdups (rev (filter (\<lambda>s. s \<noteq> []) signals)))"

definition correction_text :: "string list \<Rightarrow> string" where
  "correction_text signals =
     (let known = filter (\<lambda>s. dict_get signal_instructions s \<noteq> None) (ordered_signals signals);
          body = (if known = [] then fallback_instruction
                  else join_on '' '' (map (\<lambda>s. the (dict_get signal_instructions s)) known))
      in ''[Verifier] '' @ body)"

definition replan_text :: "string list \<Rightarrow> string" where
  "replan_text signals = correction_text signals @ [nl] @ replan_tail"

definition severity_order :: "string list" where
  "severity_order = [''none'', ''nudge'', ''replan'', ''steer'', ''block'']"

fun index_of :: "'a \<Rightarrow> 'a list \<Rightarrow> nat" where
  "index_of x [] = 0"
| "index_of x (y # ys) = (if x = y then 0 else Suc (index_of x ys))"

definition severity_rank :: "string \<Rightarrow> nat" where
  \<comment> \<open>\<open>VERIFIER_SEVERITY_RANK.get(name, 0)\<close>\<close>
  "severity_rank s = (if s \<in> set severity_order then index_of s severity_order else 0)"

definition cap_severity :: "string \<Rightarrow> string \<Rightarrow> string" where
  "cap_severity requested maximum =
     (let want = (if requested \<in> set severity_order then requested else ''none'');
          ceiling = (if maximum \<in> set severity_order then maximum else ''nudge'')
      in if index_of want severity_order \<le> index_of ceiling severity_order then want else ceiling)"

section \<open>Verdicts\<close>

record verdict =
  vd_request_id :: string
  vd_verdict_id :: string
  vd_checkpoint_id :: string
  vd_status :: string
  vd_severity :: string
  vd_confidence :: string
  vd_rationale :: string
  vd_correction :: "string option"
  vd_signals :: "string list"
  vd_signal_epochs :: "(string \<times> int) list"
  vd_judge_tokens :: int

definition checkpoint_turn :: "verdict \<Rightarrow> int option" where
  "checkpoint_turn v =
     (let raw = last (split_on (CHR '':'') (vd_checkpoint_id v))
      in if raw = [] then None else py_int raw)"

definition newer_verdict :: "verdict \<Rightarrow> verdict \<Rightarrow> bool" where
  "newer_verdict current incoming =
     (case checkpoint_turn incoming of
        None \<Rightarrow> False
      | Some i \<Rightarrow>
          (case checkpoint_turn current of
             None \<Rightarrow> True
           | Some c \<Rightarrow> if i \<noteq> c then c < i else True))"

record active_nudge =
  an_request_id :: string
  an_verdict_id :: string
  an_text :: string
  an_signals :: "string list"
  an_epochs :: "(string, int) dict"
  an_injections :: int

record signal_episode =
  ep_request_id :: string
  ep_signals :: "string list"
  ep_epochs :: "(string, int) dict"

definition fence_signals :: "signal_episode \<Rightarrow> verdict \<Rightarrow> string list \<Rightarrow> string list" where
  "fence_signals episode v incoming =
     (let verdict_epochs = dict_of_list (vd_signal_epochs v)
      in if verdict_epochs = [] then ordered_signals (filter (\<lambda>s. s \<in> set (ep_signals episode)) incoming)
         else ordered_signals (filter (\<lambda>s. s \<in> set (ep_signals episode)
           \<and> dict_get (ep_epochs episode) s = dict_get verdict_epochs s) incoming))"

section \<open>The mailbox\<close>

definition thread_cap :: nat where
  "thread_cap = 256"

definition per_scope_max :: nat where
  "per_scope_max = 16"

type_synonym scope_key = "string \<times> string"

record mailbox =
  mb_ready :: "(scope_key, verdict list) dict"
  mb_replans :: "(string, string \<times> string) dict"
  mb_last :: "(string, verdict) dict"
  mb_pending :: "(scope_key, int) dict"
  mb_current :: "(string, string) dict"
  mb_active :: "(string, active_nudge) dict"
  mb_episodes :: "(string, signal_episode) dict"
  mb_replan_armed :: "(string, unit) dict"

definition empty_mailbox :: mailbox where
  "empty_mailbox = \<lparr>mb_ready = [], mb_replans = [], mb_last = [], mb_pending = [], mb_current = [],
     mb_active = [], mb_episodes = [], mb_replan_armed = []\<rparr>"

definition cap_store :: "('k, 'v) dict \<Rightarrow> ('k, 'v) dict" where
  "cap_store store = trim_oldest thread_cap store"

definition store_last :: "'k \<Rightarrow> 'v \<Rightarrow> ('k, 'v) dict \<Rightarrow> ('k, 'v) dict" where
  \<comment> \<open>an assignment followed by \<open>move_to_end\<close>\<close>
  "store_last k v d = move_to_end k (dict_set k v d)"

lemma find_pop_shorter:
  "List.find (\<lambda>(k, _). P k) d = Some (k, v) \<Longrightarrow> length (dict_pop k d) < length d"
proof (induction d)
  case (Cons p d)
  then show ?case
    by (cases p) (auto split: if_splits intro: le_less_trans[OF length_delete_le])
qed simp

function cap_idle_threads :: "(string, string) dict \<Rightarrow> (string, 'v) dict \<Rightarrow> (string, 'v) dict" where
  "cap_idle_threads current store =
     (if length store \<le> thread_cap then store
      else case List.find (\<lambda>(k, _). dict_get current k = None) store of
             None \<Rightarrow> store
           | Some (victim, _) \<Rightarrow> cap_idle_threads current (dict_pop victim store))"
  by pat_completeness auto
termination
  by (relation "measure (\<lambda>(_, store). length store)") (auto dest: find_pop_shorter)

declare cap_idle_threads.simps [simp del]

definition mailbox_accept :: "string \<Rightarrow> string \<Rightarrow> mailbox \<Rightarrow> bool" where
  "mailbox_accept thread request mb \<longleftrightarrow> request \<noteq> [] \<and> dict_get (mb_current mb) thread = Some request"

definition open_request :: "string \<Rightarrow> string \<Rightarrow> mailbox \<Rightarrow> mailbox" where
  "open_request thread request mb =
     mb\<lparr>mb_current := cap_store (store_last thread request (mb_current mb))\<rparr>"

definition is_stale_verdict :: "string \<Rightarrow> verdict \<Rightarrow> mailbox \<Rightarrow> bool" where
  "is_stale_verdict thread v mb =
     (case dict_get (mb_last mb) thread of
        None \<Rightarrow> False
      | Some current \<Rightarrow> vd_request_id current = vd_request_id v \<and> \<not> newer_verdict current v)"

definition set_last :: "string \<Rightarrow> verdict \<Rightarrow> mailbox \<Rightarrow> mailbox" where
  "set_last thread v mb = mb\<lparr>mb_last := cap_store (store_last thread v (mb_last mb))\<rparr>"

definition mailbox_put :: "string \<Rightarrow> verdict \<Rightarrow> mailbox \<Rightarrow> bool \<times> mailbox" where
  "mailbox_put thread v mb =
     (if \<not> mailbox_accept thread (vd_request_id v) mb then (False, mb)
      else if is_stale_verdict thread v mb then (False, mb)
      else
        let key = (thread, vd_request_id v);
            bucket = (case dict_get (mb_ready mb) key of None \<Rightarrow> [] | Some vs \<Rightarrow> vs);
            ready = store_last key (trim_oldest per_scope_max (bucket @ [v])) (mb_ready mb);
            mb' = set_last thread v (mb\<lparr>mb_ready := ready\<rparr>)
        in (True, mb'\<lparr>mb_ready := cap_store (mb_ready mb')\<rparr>))"

definition mailbox_last :: "string \<Rightarrow> mailbox \<Rightarrow> verdict option" where
  "mailbox_last thread mb = dict_get (mb_last mb) thread"

definition mark_pending :: "string \<Rightarrow> string \<Rightarrow> mailbox \<Rightarrow> mailbox" where
  "mark_pending thread request mb =
     (if \<not> mailbox_accept thread request mb then mb
      else
        let key = (thread, request);
            n = (case dict_get (mb_pending mb) key of None \<Rightarrow> 0 | Some n \<Rightarrow> n)
        in mb\<lparr>mb_pending := cap_store (store_last key (n + 1) (mb_pending mb))\<rparr>)"

definition clear_pending :: "string \<Rightarrow> string \<Rightarrow> mailbox \<Rightarrow> mailbox" where
  "clear_pending thread request mb =
     (let key = (thread, request);
          remaining = (case dict_get (mb_pending mb) key of None \<Rightarrow> 0 | Some n \<Rightarrow> n) - 1
      in if 0 < remaining then mb\<lparr>mb_pending := dict_set key remaining (mb_pending mb)\<rparr>
         else mb\<lparr>mb_pending := dict_pop key (mb_pending mb)\<rparr>)"

definition mailbox_pending :: "string \<Rightarrow> string option \<Rightarrow> mailbox \<Rightarrow> bool" where
  "mailbox_pending thread request mb =
     (case request of
        Some r \<Rightarrow> 0 < (case dict_get (mb_pending mb) (thread, r) of None \<Rightarrow> 0 | Some n \<Rightarrow> n)
      | None \<Rightarrow> list_ex (\<lambda>((t, _), n). t = thread \<and> 0 < n) (mb_pending mb))"

definition current_episode :: "string \<Rightarrow> string \<Rightarrow> mailbox \<Rightarrow> signal_episode option" where
  "current_episode thread request mb =
     (case dict_get (mb_episodes mb) thread of
        None \<Rightarrow> None
      | Some e \<Rightarrow> if ep_request_id e \<noteq> request then None else Some e)"

definition signal_epochs :: "string \<Rightarrow> string \<Rightarrow> string list \<Rightarrow> mailbox \<Rightarrow> (string \<times> int) list" where
  "signal_epochs thread request signals mb =
     (case current_episode thread request mb of
        None \<Rightarrow> []
      | Some e \<Rightarrow> map (\<lambda>s. (s, the (dict_get (ep_epochs e) s)))
          (filter (\<lambda>s. s \<in> set (ep_signals e) \<and> dict_get (ep_epochs e) s \<noteq> None) (ordered_signals signals)))"

definition next_episode :: "string list \<Rightarrow> signal_episode \<Rightarrow> signal_episode" where
  \<comment> \<open>a signal that was not live starts a new episode of its own\<close>
  "next_episode sigs e =
     e\<lparr>ep_epochs := fold (\<lambda>s d. dict_set s ((case dict_get d s of None \<Rightarrow> 0 | Some n \<Rightarrow> n) + 1) d)
          (filter (\<lambda>s. s \<notin> set (ep_signals e)) sigs) (ep_epochs e),
       ep_signals := sigs\<rparr>"

definition live_signals :: "signal_episode \<Rightarrow> active_nudge \<Rightarrow> string list" where
  "live_signals e a =
     ordered_signals (filter (\<lambda>s. s \<in> set (ep_signals e)
       \<and> (case dict_get (an_epochs a) s of None \<Rightarrow> dict_get (ep_epochs e) s | Some n \<Rightarrow> Some n)
          = dict_get (ep_epochs e) s) (an_signals a))"

definition prune_nudge :: "string \<Rightarrow> signal_episode \<Rightarrow> (string, active_nudge) dict \<Rightarrow> (string, active_nudge) dict" where
  "prune_nudge thread e active =
     (case dict_get active thread of
        None \<Rightarrow> active
      | Some a \<Rightarrow>
          if an_request_id a \<noteq> ep_request_id e then active
          else
            let keep = live_signals e a
            in if keep = [] then dict_pop thread active
               else if keep = an_signals a then active
               else store_last thread (a\<lparr>an_signals := keep,
                      an_epochs := dict_of_list (map (\<lambda>s. (s, the (dict_get (ep_epochs e) s)))
                        (filter (\<lambda>s. dict_get (ep_epochs e) s \<noteq> None) keep)),
                      an_text := correction_text keep\<rparr>) active)"

definition set_current_signals :: "string \<Rightarrow> string \<Rightarrow> string list \<Rightarrow> mailbox \<Rightarrow> mailbox" where
  "set_current_signals thread request signals mb =
     (if \<not> mailbox_accept thread request mb then mb
      else
        let sigs = ordered_signals signals;
            e = next_episode sigs (case current_episode thread request mb of
                  None \<Rightarrow> \<lparr>ep_request_id = request, ep_signals = [], ep_epochs = []\<rparr>
                | Some e \<Rightarrow> e);
            episodes = cap_idle_threads (mb_current mb) (store_last thread e (mb_episodes mb));
            active = cap_idle_threads (mb_current mb) (mb_active mb)
        in mb\<lparr>mb_episodes := episodes, mb_active := prune_nudge thread e active\<rparr>)"

definition activate_nudge :: "string \<Rightarrow> string \<Rightarrow> verdict \<Rightarrow> mailbox \<Rightarrow> bool \<times> mailbox" where
  "activate_nudge thread request v mb =
     (if \<not> mailbox_accept thread request mb then (False, mb)
      else
        let named = ordered_signals (vd_signals v);
            fenced = (case current_episode thread request mb of
                        None \<Rightarrow> Some named
                      | Some e \<Rightarrow> (case fence_signals e v named of [] \<Rightarrow> None | ss \<Rightarrow> Some ss))
        in case fenced of
             None \<Rightarrow> (False, mb)
           | Some incoming \<Rightarrow>
               let epochs = dict_of_list (signal_epochs thread request incoming mb);
                   fresh = (let active = store_last thread \<lparr>an_request_id = request, an_verdict_id = vd_verdict_id v,
                         an_text = correction_text incoming, an_signals = incoming, an_epochs = epochs,
                         an_injections = 0\<rparr> (mb_active mb)
                      in (True, mb\<lparr>mb_active := cap_idle_threads (mb_current mb) active\<rparr>))
               in case dict_get (mb_active mb) thread of
                    None \<Rightarrow> fresh
                  | Some existing \<Rightarrow>
                      if an_request_id existing \<noteq> request then fresh
                      else
                        let merged = ordered_signals (an_signals existing @ incoming)
                        in if merged = an_signals existing then (False, mb)
                           else (True, mb\<lparr>mb_active := store_last thread (existing\<lparr>an_signals := merged,
                                  an_epochs := fold (\<lambda>(s, n) d. dict_set s n d) epochs (an_epochs existing),
                                  an_text := correction_text merged, an_verdict_id := vd_verdict_id v\<rparr>)
                                (mb_active mb)\<rparr>))"

definition active_nudge_for :: "string \<Rightarrow> string \<Rightarrow> mailbox \<Rightarrow> active_nudge option" where
  "active_nudge_for thread request mb =
     (case dict_get (mb_active mb) thread of
        None \<Rightarrow> None
      | Some a \<Rightarrow> if an_request_id a \<noteq> request then None else Some a)"

definition peek_nudge :: "string \<Rightarrow> string \<Rightarrow> mailbox \<Rightarrow> string option" where
  "peek_nudge thread request mb = map_option an_text (active_nudge_for thread request mb)"

definition active_nudge_signals :: "string \<Rightarrow> string \<Rightarrow> mailbox \<Rightarrow> string list" where
  "active_nudge_signals thread request mb =
     (case active_nudge_for thread request mb of None \<Rightarrow> [] | Some a \<Rightarrow> an_signals a)"

definition note_nudge_injection :: "string \<Rightarrow> string \<Rightarrow> mailbox \<Rightarrow> mailbox" where
  "note_nudge_injection thread request mb =
     (case dict_get (mb_active mb) thread of
        None \<Rightarrow> mb
      | Some a \<Rightarrow>
          if an_request_id a \<noteq> request then mb
          else mb\<lparr>mb_active := dict_set thread (a\<lparr>an_injections := an_injections a + 1\<rparr>) (mb_active mb)\<rparr>)"

definition put_note ::
    "string \<Rightarrow> string \<Rightarrow> string \<Rightarrow> (string, string \<times> string) dict \<Rightarrow> (string, string \<times> string) dict" where
  "put_note thread request note_text store =
     (let note = py_strip note_text
      in if note = [] then store else store_last thread (request, note) store)"

definition take_note ::
    "string \<Rightarrow> string \<Rightarrow> (string, string \<times> string) dict
      \<Rightarrow> string option \<times> (string, string \<times> string) dict" where
  "take_note thread request store =
     (case dict_get store thread of
        None \<Rightarrow> (None, store)
      | Some (r, note) \<Rightarrow> (if r \<noteq> request then None else Some note, dict_pop thread store))"

definition put_replan :: "string \<Rightarrow> string \<Rightarrow> string \<Rightarrow> mailbox \<Rightarrow> mailbox" where
  "put_replan thread request note_text mb =
     (if \<not> mailbox_accept thread request mb then mb
      else mb\<lparr>mb_replans := cap_store (put_note thread request note_text (mb_replans mb))\<rparr>)"

definition take_replan :: "string \<Rightarrow> string \<Rightarrow> mailbox \<Rightarrow> string option \<times> mailbox" where
  "take_replan thread request mb =
     (case take_note thread request (mb_replans mb) of (note, store) \<Rightarrow> (note, mb\<lparr>mb_replans := store\<rparr>))"

definition arm_escalation :: "string \<Rightarrow> verdict \<Rightarrow> string \<Rightarrow> mailbox \<Rightarrow> bool \<times> mailbox" where
  "arm_escalation thread v max_severity mb =
     (let capped = cap_severity (vd_severity v) max_severity;
          outdated = (case mailbox_last thread mb of
              None \<Rightarrow> False
            | Some latest \<Rightarrow> vd_request_id latest = vd_request_id v \<and> vd_verdict_id latest \<noteq> vd_verdict_id v
                \<and> severity_rank capped \<le> severity_rank (vd_severity latest) \<and> newer_verdict v latest)
      in if capped \<in> {''none'', ''''} \<or> vd_status v = ''on_track'' then (False, mb)
         else if capped \<in> {''replan'', ''steer'', ''block''} \<and> outdated then (False, mb)
         else if capped = ''nudge'' then activate_nudge thread (vd_request_id v) v mb
         else if capped \<in> {''replan'', ''steer''} then
           if vd_verdict_id v \<noteq> [] \<and> dict_get (mb_replan_armed mb) (vd_verdict_id v) \<noteq> None then (False, mb)
           else
             let mb' = put_replan thread (vd_request_id v) (replan_text (vd_signals v)) mb
             in case dict_get (mb_replans mb') thread of
                  None \<Rightarrow> (True, mb')
                | Some (r, _) \<Rightarrow>
                    if vd_verdict_id v \<noteq> [] \<and> r = vd_request_id v
                    then (True, mb'\<lparr>mb_replan_armed :=
                           cap_store (store_last (vd_verdict_id v) () (mb_replan_armed mb'))\<rparr>)
                    else (True, mb')
         else (False, mb))"

definition take_ready :: "string \<Rightarrow> string option \<Rightarrow> mailbox \<Rightarrow> verdict list \<times> mailbox" where
  "take_ready thread request mb =
     (case request of
        Some r \<Rightarrow>
          (case dict_get (mb_ready mb) (thread, r) of None \<Rightarrow> [] | Some vs \<Rightarrow> vs,
           mb\<lparr>mb_ready := dict_pop (thread, r) (mb_ready mb)\<rparr>)
      | None \<Rightarrow>
          (concat (map snd (filter (\<lambda>(k, _). fst k = thread) (mb_ready mb))),
           mb\<lparr>mb_ready := filter (\<lambda>(k, _). fst k \<noteq> thread) (mb_ready mb)\<rparr>))"

definition pop_if :: "'k \<Rightarrow> ('v \<Rightarrow> bool) \<Rightarrow> ('k, 'v) dict \<Rightarrow> ('k, 'v) dict" where
  "pop_if k p d = (case dict_get d k of None \<Rightarrow> d | Some v \<Rightarrow> if p v then dict_pop k d else d)"

definition clear_request :: "string \<Rightarrow> string \<Rightarrow> mailbox \<Rightarrow> mailbox" where
  "clear_request thread request mb =
     mb\<lparr>mb_ready := dict_pop (thread, request) (mb_ready mb),
       mb_pending := dict_pop (thread, request) (mb_pending mb),
       mb_last := pop_if thread (\<lambda>v. vd_request_id v = request) (mb_last mb),
       mb_active := pop_if thread (\<lambda>a. an_request_id a = request) (mb_active mb),
       mb_episodes := pop_if thread (\<lambda>e. ep_request_id e = request) (mb_episodes mb),
       mb_replans := pop_if thread (\<lambda>(r, _). r = request) (mb_replans mb),
       mb_current := pop_if thread (\<lambda>r. r = request) (mb_current mb)\<rparr>"

record mailbox_snapshot =
  sn_ready :: "(scope_key, verdict list) dict"
  sn_replans :: "(string, string \<times> string) dict"
  sn_last :: "(string, verdict) dict"
  sn_current :: "(string, string) dict"
  sn_active :: "(string, active_nudge) dict"
  sn_episodes :: "(string, signal_episode) dict"

definition take_snapshot :: "mailbox \<Rightarrow> mailbox_snapshot" where
  "take_snapshot mb =
     \<lparr>sn_ready = map (\<lambda>(k, vs). (k, trim_oldest per_scope_max vs)) (mb_ready mb), sn_replans = mb_replans mb,
      sn_last = mb_last mb, sn_current = mb_current mb, sn_active = mb_active mb, sn_episodes = mb_episodes mb\<rparr>"

definition restore_snapshot :: "mailbox_snapshot \<Rightarrow> mailbox \<Rightarrow> nat \<times> mailbox" where
  "restore_snapshot sn mb =
     (let mb' = mb\<lparr>
            mb_ready := cap_store (map (\<lambda>(k, vs). (k, trim_oldest per_scope_max vs)) (sn_ready sn)),
            mb_replans := cap_store (sn_replans sn), mb_last := cap_store (sn_last sn),
            mb_current := cap_store (sn_current sn),
            mb_active := cap_idle_threads (cap_store (sn_current sn)) (sn_active sn),
            mb_episodes := cap_idle_threads (cap_store (sn_current sn)) (sn_episodes sn)\<rparr>
      in (length (mb_active mb'), mb'))"

section \<open>Its clients\<close>

definition deposit_verdict :: "string \<Rightarrow> string \<Rightarrow> verdict \<Rightarrow> mailbox \<Rightarrow> mailbox" where
  \<comment> \<open>what the judge does with a verdict\<close>
  "deposit_verdict max_severity thread v mb =
     (case mailbox_put thread v mb of
        (True, mb') \<Rightarrow> snd (arm_escalation thread v max_severity mb')
      | (False, mb') \<Rightarrow> mb')"

definition drain_verdict :: "string \<Rightarrow> string \<Rightarrow> verdict \<Rightarrow> mailbox \<Rightarrow> verdict \<times> mailbox" where
  \<comment> \<open>one verdict of the turn loop's drain: capped, its text replaced by a trusted one, and armed\<close>
  "drain_verdict max_severity thread v mb =
     (let capped = cap_severity (vd_severity v) max_severity;
          trusted = (if capped \<in> {''none'', ''''} \<or> vd_status v = ''on_track'' then None
                     else Some (correction_text (vd_signals v)));
          v' = v\<lparr>vd_severity := capped, vd_correction := trusted\<rparr>
      in (v', snd (arm_escalation thread v' capped mb)))"

fun drain_verdicts :: "string \<Rightarrow> string \<Rightarrow> verdict list \<Rightarrow> mailbox \<Rightarrow> verdict list \<times> mailbox" where
  "drain_verdicts max_severity thread [] mb = ([], mb)"
| "drain_verdicts max_severity thread (v # vs) mb =
     (case drain_verdict max_severity thread v mb of (v', mb') \<Rightarrow>
        case drain_verdicts max_severity thread vs mb' of (vs', mb'') \<Rightarrow> (v' # vs', mb''))"

definition tool_is_read_only :: "string \<Rightarrow> tool_def list \<Rightarrow> bool" where
  "tool_is_read_only name tools =
     (case List.find (\<lambda>t. tdef_name t = name) tools of None \<Rightarrow> False | Some t \<Rightarrow> tdef_read_only t)"

definition verifier_check ::
    "string option \<Rightarrow> tool_def list \<Rightarrow> string \<Rightarrow> string \<Rightarrow> mailbox \<Rightarrow> inspector_call \<Rightarrow> decision" where
  "verifier_check config tools thread request mb call =
     (case mailbox_last thread mb of
        None \<Rightarrow> plain_decision DAllow None
      | Some v \<Rightarrow>
          let max_sev = (case config of None \<Rightarrow> ''nudge'' | Some s \<Rightarrow> s)
          in if vd_severity v = ''none'' then plain_decision DAllow None
             else if vd_request_id v \<noteq> request then plain_decision DAllow None
             else if cap_severity (vd_severity v) max_sev \<noteq> ''block'' then plain_decision DAllow None
             else if tool_is_read_only (ic_name call) tools then plain_decision DAllow None
             else plain_decision DDeny (Some (case vd_correction v of
                      Some (c # cs) \<Rightarrow> c # cs
                    | _ \<Rightarrow> if vd_rationale v \<noteq> [] then vd_rationale v else ''blocked by verifier'')))"

definition sticky_tail :: string where
  "sticky_tail = ''This instruction remains in effect until you change approach or the '' @
     ''current request ends. Prefer it over continuing the same failing action.''"

definition verifier_heading :: string where
  "verifier_heading = [nl, nl] @ ''## Verifier'' @ [nl]"

definition format_nudge_block :: "string \<Rightarrow> string" where
  "format_nudge_block nudge =
     (let body = py_strip nudge
      in if body = [] then []
         else (if startswith body ''[Verifier]'' then body else ''[Verifier] '' @ body) @ [nl] @ sticky_tail)"

definition system_message :: "string \<Rightarrow> message" where
  "system_message s = \<lparr>msg_role = System, msg_content = [Text s], msg_row_id = None\<rparr>"

definition append_verifier_block :: "message \<Rightarrow> string \<Rightarrow> message" where
  "append_verifier_block system block =
     (let extra = py_strip block;
          base = concat (map (\<lambda>b. case b of Text s \<Rightarrow> s | _ \<Rightarrow> []) (msg_content system))
      in if extra = [] then system
         else system_message (base @ verifier_heading @ extra @ [nl]))"

definition on_before_provider ::
    "string \<Rightarrow> string \<Rightarrow> message list option \<Rightarrow> mailbox \<Rightarrow> message list option \<times> mailbox" where
  "on_before_provider thread request provider_messages mb =
     (case provider_messages of
        None \<Rightarrow> (None, mb)
      | Some messages \<Rightarrow>
          let block = (case peek_nudge thread request mb of None \<Rightarrow> [] | Some t \<Rightarrow> format_nudge_block t);
              alone = system_message (py_strip verifier_heading @ [nl] @ block @ [nl])
          in if block = [] then (Some messages, mb)
             else (Some (case messages of
                       [] \<Rightarrow> [alone]
                     | m # ms \<Rightarrow> if msg_role m = System then append_verifier_block m block # ms else alone # m # ms),
                   note_nudge_injection thread request mb))"

section \<open>Steps\<close>

datatype mailbox_op =
    OpenReq string string
  | PutVerdict string verdict
  | ArmVerdict string verdict string
  | MarkPending string string
  | ClearPending string string
  | PublishSignals string string "string list"
  | InjectNudge string string
  | TakeReplan string string
  | TakeReady string "string option"
  | ClearReq string string
  | Reload

fun mailbox_step :: "mailbox_op \<Rightarrow> mailbox \<Rightarrow> mailbox" where
  "mailbox_step (OpenReq t r) mb = open_request t r mb"
| "mailbox_step (PutVerdict t v) mb = snd (mailbox_put t v mb)"
| "mailbox_step (ArmVerdict t v sev) mb = snd (arm_escalation t v sev mb)"
| "mailbox_step (MarkPending t r) mb = mark_pending t r mb"
| "mailbox_step (ClearPending t r) mb = clear_pending t r mb"
| "mailbox_step (PublishSignals t r ss) mb = set_current_signals t r ss mb"
| "mailbox_step (InjectNudge t r) mb = note_nudge_injection t r mb"
| "mailbox_step (TakeReplan t r) mb = snd (take_replan t r mb)"
| "mailbox_step (TakeReady t r) mb = snd (take_ready t r mb)"
| "mailbox_step (ClearReq t r) mb = clear_request t r mb"
| "mailbox_step Reload mb = snd (restore_snapshot (take_snapshot mb) empty_mailbox)"

section \<open>Bounded stores\<close>

definition store_ok :: "('k, 'v) dict \<Rightarrow> bool" where
  "store_ok d \<longleftrightarrow> dict_ok d \<and> length d \<le> thread_cap"

lemma store_okD: "store_ok d \<Longrightarrow> dict_ok d" "store_ok d \<Longrightarrow> length d \<le> thread_cap"
  by (auto simp: store_ok_def)

lemma dict_get_store_last [simp]: "dict_get (store_last k v d) = (map_of d)(k \<mapsto> v)"
  by (simp add: store_last_def fun_eq_iff)

lemma dict_ok_store_last [simp]: "dict_ok d \<Longrightarrow> dict_ok (store_last k v d)"
  by (simp add: store_last_def)

lemma length_dict_set: "dict_get d k \<noteq> None \<Longrightarrow> length (dict_set k v d) = length d"
  using arg_cong[OF update_keys[of k v d], of length] by (auto simp: map_of_eq_None_iff split: if_splits)

lemma length_store_last: "dict_ok d \<Longrightarrow> dict_get d k \<noteq> None \<Longrightarrow> length (store_last k v d) = length d"
  by (simp add: store_last_def length_move_to_end length_dict_set)

lemma store_ok_last: "store_ok d \<Longrightarrow> dict_get d k \<noteq> None \<Longrightarrow> store_ok (store_last k v d)"
  by (simp add: store_ok_def length_store_last)

lemma store_ok_cap [simp]: "dict_ok d \<Longrightarrow> store_ok (cap_store d)"
  by (simp add: store_ok_def cap_store_def)

lemma store_ok_pop [simp]: "store_ok d \<Longrightarrow> store_ok (dict_pop k d)"
  by (auto simp: store_ok_def intro: order_trans[OF length_delete_le])

lemma store_ok_set: "store_ok d \<Longrightarrow> dict_get d k \<noteq> None \<Longrightarrow> store_ok (dict_set k v d)"
  by (simp add: store_ok_def length_dict_set)

lemma store_ok_filter [simp]: "store_ok d \<Longrightarrow> store_ok (filter P d)"
  by (auto simp: store_ok_def dict_ok_def distinct_map_filter intro: order_trans[OF length_filter_le])

lemma store_ok_pop_if [simp]: "store_ok d \<Longrightarrow> store_ok (pop_if k p d)"
  by (auto simp: pop_if_def split: option.split)

lemma store_ok_Nil [simp]: "store_ok []"
  by (simp add: store_ok_def)

lemma dict_get_pop_if:
  "dict_get (pop_if k p d) j = (if j = k \<and> pred_option p (dict_get d k) then None else dict_get d j)"
  by (auto simp: pop_if_def split: option.split)

lemma dict_get_cap: "dict_ok d \<Longrightarrow> dict_get (cap_store d) k = Some v \<Longrightarrow> dict_get d k = Some v"
  using dict_entries[of d k v] dict_entries[of "cap_store d" k v] set_trim_oldest[of thread_cap d]
  by (auto simp: cap_store_def)

lemma cap_idle_sub:
  "dict_get (cap_idle_threads current d) k = Some v \<Longrightarrow> dict_get d k = Some v"
proof (induction current d rule: cap_idle_threads.induct)
  case (1 current d)
  from 1(2) show ?case
    by (subst (asm) cap_idle_threads.simps) (auto dest: 1(1)[OF _ _ refl] split: if_splits option.splits)
qed

lemma cap_idle_keeps:
  "dict_get current k \<noteq> None \<Longrightarrow> dict_get (cap_idle_threads current d) k = dict_get d k"
proof (induction current d rule: cap_idle_threads.induct)
  case (1 current d)
  show ?case
  proof (cases "List.find (\<lambda>(k, _). dict_get current k = None) d")
    case None
    then show ?thesis by (subst cap_idle_threads.simps) simp
  next
    case (Some p)
    then have "dict_get current (fst p) = None" by (auto simp: case_prod_beta find_Some_iff)
    then show ?thesis using 1 Some by (subst cap_idle_threads.simps) (auto split: prod.split)
  qed
qed

lemma cap_idle_ok:
  assumes "store_ok current" and "dict_ok d"
  shows "store_ok (cap_idle_threads current d)"
  using assms
proof (induction current d rule: cap_idle_threads.induct)
  case (1 current d)
  show ?case
  proof (cases "List.find (\<lambda>(k, _). dict_get current k = None) d")
    case None
    then have "fst ` set d \<subseteq> fst ` set current" by (fastforce simp: find_None_iff map_of_eq_None_iff)
    moreover have "card (fst ` set d) = length d" "card (fst ` set current) \<le> length current"
      using 1(3) by (metis dict_ok_def distinct_card length_map list.set_map)
        (metis card_image_le card_length finite_set order_trans)
    ultimately have "length d \<le> length current" by (metis card_mono finite_imageI finite_set order_trans)
    then have "length d \<le> thread_cap" using 1(2) by (auto simp: store_ok_def)
    then show ?thesis using 1(3) by (subst cap_idle_threads.simps) (simp add: store_ok_def)
  next
    case (Some p)
    then show ?thesis using 1 by (subst cap_idle_threads.simps) (auto simp: store_ok_def split: prod.split)
  qed
qed

declare store_okD [simp]

section \<open>The invariant\<close>

definition sizes_ok :: "mailbox \<Rightarrow> bool" where
  "sizes_ok mb \<longleftrightarrow> store_ok (mb_ready mb) \<and> store_ok (mb_replans mb) \<and> store_ok (mb_last mb)
     \<and> store_ok (mb_pending mb) \<and> store_ok (mb_current mb) \<and> store_ok (mb_active mb)
     \<and> store_ok (mb_episodes mb) \<and> store_ok (mb_replan_armed mb)"

definition bucket_ok :: "scope_key \<Rightarrow> verdict list \<Rightarrow> bool" where
  "bucket_ok k vs \<longleftrightarrow> length vs \<le> per_scope_max \<and> list_all (\<lambda>v. vd_request_id v = snd k) vs"

definition nudge_trusted :: "active_nudge \<Rightarrow> bool" where
  "nudge_trusted a \<longleftrightarrow> an_text a = correction_text (an_signals a)"

definition nudge_live :: "active_nudge \<Rightarrow> signal_episode \<Rightarrow> bool" where
  "nudge_live a e \<longleftrightarrow> (an_request_id a = ep_request_id e \<longrightarrow> set (an_signals a) \<subseteq> set (ep_signals e))"

definition note_trusted :: "string \<times> string \<Rightarrow> bool" where
  "note_trusted n \<longleftrightarrow> (\<exists>ss. snd n = py_strip (replan_text ss))"

definition contents_ok :: "mailbox \<Rightarrow> bool" where
  "contents_ok mb \<longleftrightarrow>
     (\<forall>k vs. dict_get (mb_ready mb) k = Some vs \<longrightarrow> bucket_ok k vs)
     \<and> (\<forall>t a. dict_get (mb_active mb) t = Some a \<longrightarrow> nudge_trusted a)
     \<and> (\<forall>t n. dict_get (mb_replans mb) t = Some n \<longrightarrow> note_trusted n)
     \<and> (\<forall>t a e. dict_get (mb_active mb) t = Some a \<longrightarrow> dict_get (mb_episodes mb) t = Some e \<longrightarrow> nudge_live a e)"

definition mailbox_inv :: "mailbox \<Rightarrow> bool" where
  "mailbox_inv mb \<longleftrightarrow> sizes_ok mb \<and> contents_ok mb"

lemma set_ordered_signals [simp]: "set (ordered_signals ss) = set ss - {[]}"
  by (auto simp: ordered_signals_def)

lemma set_fence_signals: "set (fence_signals e v ss) \<subseteq> set (ep_signals e)"
  by (auto simp: fence_signals_def Let_def)

lemma set_live_signals: "set (live_signals e a) \<subseteq> set (ep_signals e)"
  by (auto simp: live_signals_def)

lemma ep_signals_next [simp]: "ep_signals (next_episode sigs e) = sigs"
  "ep_request_id (next_episode sigs e) = ep_request_id e"
  by (simp_all add: next_episode_def)

lemma prune_nudge_ok [simp]: "store_ok active \<Longrightarrow> store_ok (prune_nudge t e active)"
  by (simp add: prune_nudge_def Let_def store_ok_last split: option.split)

text \<open>After pruning, the correction of a thread is still its own trusted text, and names live signals only.\<close>

lemma prune_nudge_get:
  assumes "dict_get (prune_nudge t e active) j = Some a"
  shows "if j \<noteq> t then dict_get active j = Some a
     else nudge_live a e \<and> (dict_get active t = Some a \<or> nudge_trusted a)"
proof (cases "dict_get active t")
  case None
  then show ?thesis using assms by (auto simp: prune_nudge_def)
next
  case (Some b)
  then show ?thesis using assms set_live_signals[of e b]
    by (auto simp: prune_nudge_def Let_def nudge_live_def nudge_trusted_def split: if_splits)
qed

lemma sizes_open [inv_intros]: "sizes_ok mb \<Longrightarrow> sizes_ok (open_request t r mb)"
  by (simp add: sizes_ok_def open_request_def)

lemma sizes_put [inv_intros]: "sizes_ok mb \<Longrightarrow> sizes_ok (snd (mailbox_put t v mb))"
  by (simp add: sizes_ok_def mailbox_put_def set_last_def Let_def)

lemma sizes_pending [inv_intros]:
  "sizes_ok mb \<Longrightarrow> sizes_ok (mark_pending t r mb)" "sizes_ok mb \<Longrightarrow> sizes_ok (clear_pending t r mb)"
  by (simp_all add: sizes_ok_def mark_pending_def clear_pending_def Let_def store_ok_set split: option.split)

lemma sizes_signals [inv_intros]: "sizes_ok mb \<Longrightarrow> sizes_ok (set_current_signals t r ss mb)"
  by (simp add: sizes_ok_def set_current_signals_def Let_def cap_idle_ok)

lemma sizes_activate [inv_intros]: "sizes_ok mb \<Longrightarrow> sizes_ok (snd (activate_nudge t r v mb))"
  by (simp add: sizes_ok_def activate_nudge_def Let_def cap_idle_ok store_ok_last split: option.split list.split)

text \<open>Arming leaves the mailbox alone, arms a correction, or leaves a note and remembers the verdict.\<close>

lemma arm_escalation_cases:
  fixes replan v mb t
  defines "replan \<equiv> put_replan t (vd_request_id v) (replan_text (vd_signals v)) mb"
  assumes "P mb" and "P (snd (activate_nudge t (vd_request_id v) v mb))" and "P replan"
    and "P (replan\<lparr>mb_replan_armed := cap_store (store_last (vd_verdict_id v) () (mb_replan_armed replan))\<rparr>)"
  shows "P (snd (arm_escalation t v sev mb))"
  using assms(2-) by (simp add: arm_escalation_def Let_def replan_def split: option.split)

lemma sizes_replan [inv_intros]: "sizes_ok mb \<Longrightarrow> sizes_ok (put_replan t r s mb)"
  by (simp add: sizes_ok_def put_replan_def put_note_def Let_def)

lemma sizes_arm [inv_intros]: "sizes_ok mb \<Longrightarrow> sizes_ok (snd (arm_escalation t v sev mb))"
proof (rule arm_escalation_cases[where P = sizes_ok])
  let ?mb = "put_replan t (vd_request_id v) (replan_text (vd_signals v)) mb"
  assume "sizes_ok mb"
  then have "sizes_ok ?mb" by (rule sizes_replan)
  then show "sizes_ok (?mb\<lparr>mb_replan_armed := cap_store (store_last (vd_verdict_id v) () (mb_replan_armed ?mb))\<rparr>)"
    by (simp add: sizes_ok_def)
qed (simp_all add: inv_intros)

lemma sizes_take [inv_intros]:
  "sizes_ok mb \<Longrightarrow> sizes_ok (snd (take_replan t r mb))"
  "sizes_ok mb \<Longrightarrow> sizes_ok (snd (take_ready t ro mb))"
  "sizes_ok mb \<Longrightarrow> sizes_ok (note_nudge_injection t r mb)"
  "sizes_ok mb \<Longrightarrow> sizes_ok (clear_request t r mb)"
  by (auto simp: sizes_ok_def take_replan_def take_note_def take_ready_def note_nudge_injection_def
    clear_request_def store_ok_set split: option.split)

lemma sizes_reload [inv_intros]:
  "sizes_ok mb \<Longrightarrow> sizes_ok (snd (restore_snapshot (take_snapshot mb) empty_mailbox))"
  by (simp add: sizes_ok_def restore_snapshot_def take_snapshot_def empty_mailbox_def Let_def cap_idle_ok
    del: map_map)

lemma sizes_step: "sizes_ok mb \<Longrightarrow> sizes_ok (mailbox_step a mb)"
  by (cases a) (simp_all add: inv_intros)

lemma contents_okI:
  assumes "\<And>k vs. dict_get (mb_ready mb) k = Some vs \<Longrightarrow> bucket_ok k vs"
    and "\<And>t a. dict_get (mb_active mb) t = Some a \<Longrightarrow> nudge_trusted a"
    and "\<And>t n. dict_get (mb_replans mb) t = Some n \<Longrightarrow> note_trusted n"
    and "\<And>t a e. dict_get (mb_active mb) t = Some a \<Longrightarrow> dict_get (mb_episodes mb) t = Some e \<Longrightarrow> nudge_live a e"
  shows "contents_ok mb"
  using assms by (simp add: contents_ok_def)

lemma contents_okD:
  assumes "contents_ok mb"
  shows "dict_get (mb_ready mb) k = Some vs \<Longrightarrow> bucket_ok k vs"
    and "dict_get (mb_active mb) t = Some a \<Longrightarrow> nudge_trusted a"
    and "dict_get (mb_replans mb) t = Some n \<Longrightarrow> note_trusted n"
    and "dict_get (mb_active mb) t = Some a \<Longrightarrow> dict_get (mb_episodes mb) t = Some e \<Longrightarrow> nudge_live a e"
  using assms unfolding contents_ok_def by blast+

lemma contents_sub:
  assumes "contents_ok mb"
    and "\<And>k vs. dict_get (mb_ready mb') k = Some vs \<Longrightarrow> dict_get (mb_ready mb) k = Some vs \<or> bucket_ok k vs"
    and "\<And>t a. dict_get (mb_active mb') t = Some a \<Longrightarrow> dict_get (mb_active mb) t = Some a"
    and "\<And>t n. dict_get (mb_replans mb') t = Some n \<Longrightarrow> dict_get (mb_replans mb) t = Some n \<or> note_trusted n"
    and "\<And>t e. dict_get (mb_episodes mb') t = Some e \<Longrightarrow> dict_get (mb_episodes mb) t = Some e"
  shows "contents_ok mb'"
  by (rule contents_okI) (use assms contents_okD[OF assms(1)] in blast)+

lemma contents_put:
  assumes "contents_ok mb" and "sizes_ok mb"
  shows "contents_ok (snd (mailbox_put t v mb))"
proof (rule contents_sub[OF assms(1)])
  fix k vs assume get: "dict_get (mb_ready (snd (mailbox_put t v mb))) k = Some vs"
  have "bucket_ok (t, vd_request_id v)
      (trim_oldest per_scope_max ((case dict_get (mb_ready mb) (t, vd_request_id v) of None \<Rightarrow> [] | Some vs \<Rightarrow> vs) @ [v]))"
    using contents_okD(1)[OF assms(1)] set_trim_oldest[of per_scope_max]
    by (auto simp: bucket_ok_def list_all_iff split: option.splits) fastforce+
  then show "dict_get (mb_ready mb) k = Some vs \<or> bucket_ok k vs"
    using get assms(2)
    by (auto simp: mailbox_put_def set_last_def Let_def sizes_ok_def dest!: dict_get_cap[rotated] split: if_splits)
qed (auto simp: mailbox_put_def set_last_def Let_def split: if_splits)

lemma contents_signals:
  assumes "contents_ok mb"
  shows "contents_ok (set_current_signals t r ss mb)"
proof (cases "mailbox_accept t r mb")
  case True
  define e where "e = next_episode (ordered_signals ss) (case current_episode t r mb of
                  None \<Rightarrow> \<lparr>ep_request_id = r, ep_signals = [], ep_epochs = []\<rparr> | Some e \<Rightarrow> e)"
  define active where "active = cap_idle_threads (mb_current mb) (mb_active mb)"
  have new: "set_current_signals t r ss mb = mb\<lparr>mb_episodes := cap_idle_threads (mb_current mb)
      (store_last t e (mb_episodes mb)), mb_active := prune_nudge t e active\<rparr>"
    using True by (simp add: set_current_signals_def Let_def e_def active_def)
  note old = contents_okD[OF assms]
  have act: "nudge_trusted a \<and> (if j = t then nudge_live a e else dict_get (mb_active mb) j = Some a)"
    if "dict_get (prune_nudge t e active) j = Some a" for j a
    using prune_nudge_get[OF that] old(2) cap_idle_sub[of "mb_current mb" "mb_active mb"]
    by (auto simp: active_def split: if_splits)
  show ?thesis
  proof (rule contents_okI)
    fix j a e'
    assume "dict_get (mb_active (set_current_signals t r ss mb)) j = Some a"
      and "dict_get (mb_episodes (set_current_signals t r ss mb)) j = Some e'"
    then show "nudge_live a e'"
      using act[of j a] old(4)[of j a e'] cap_idle_sub[of "mb_current mb" "store_last t e (mb_episodes mb)" j e']
      by (auto simp: new split: if_splits)
  qed (use old act in \<open>auto simp: new\<close>)
qed (simp add: assms set_current_signals_def)

text \<open>What a thread's correction can become when a verdict is armed.\<close>

lemma activate_nudge_active:
  assumes "dict_get (mb_active (snd (activate_nudge t r v mb))) j = Some a"
  shows "dict_get (mb_active mb) j = Some a \<or>
    (j = t \<and> an_request_id a = r \<and> nudge_trusted a \<and>
      (\<forall>e. current_episode t r mb = Some e \<longrightarrow>
        (\<forall>b. dict_get (mb_active mb) t = Some b \<longrightarrow> an_request_id b = r \<longrightarrow> set (an_signals b) \<subseteq> set (ep_signals e)) \<longrightarrow>
        set (an_signals a) \<subseteq> set (ep_signals e)))"
proof -
  note fs = set_fence_signals[of _ v "ordered_signals (vd_signals v)"]
  show ?thesis
    using assms fs
    by (auto simp: activate_nudge_def Let_def nudge_trusted_def split: if_splits option.splits list.splits
      dest!: cap_idle_sub) blast+
qed

lemma contents_activate:
  assumes "contents_ok mb"
  shows "contents_ok (snd (activate_nudge t r v mb))"
proof -
  let ?mb = "snd (activate_nudge t r v mb)"
  have same: "mb_ready ?mb = mb_ready mb" "mb_replans ?mb = mb_replans mb" "mb_episodes ?mb = mb_episodes mb"
    by (simp_all add: activate_nudge_def Let_def split: option.split list.split)
  note old = contents_okD[OF assms]
  show ?thesis
  proof (rule contents_okI)
    fix j a e
    assume a: "dict_get (mb_active ?mb) j = Some a" and e: "dict_get (mb_episodes ?mb) j = Some e"
    show "nudge_live a e"
      using activate_nudge_active[OF a] e old(4)
      by (auto simp: same nudge_live_def current_episode_def)
  next
    fix j a assume "dict_get (mb_active ?mb) j = Some a"
    from activate_nudge_active[OF this] show "nudge_trusted a" using old(2) by blast
  qed (use old in \<open>auto simp: same\<close>)
qed

lemma contents_arm:
  assumes "contents_ok mb" and "sizes_ok mb"
  shows "contents_ok (snd (arm_escalation t v sev mb))"
proof -
  let ?mb = "put_replan t (vd_request_id v) (replan_text (vd_signals v)) mb"
  have "contents_ok ?mb"
    using assms(2) by (intro contents_sub[OF assms(1)])
      (auto simp: put_replan_def put_note_def Let_def sizes_ok_def note_trusted_def
        dest!: dict_get_cap[rotated] split: if_splits)
  then have "contents_ok (?mb\<lparr>mb_replan_armed := d\<rparr>)" for d by (simp add: contents_ok_def)
  then show ?thesis
    using assms(1) \<open>contents_ok ?mb\<close> contents_activate[OF assms(1)]
    by (intro arm_escalation_cases[where P = contents_ok]) simp_all
qed

lemma contents_simple:
  assumes "contents_ok mb"
  shows "contents_ok (open_request t r mb)" and "contents_ok (mark_pending t r mb)"
    and "contents_ok (clear_pending t r mb)" and "contents_ok (clear_request t r mb)"
    and "contents_ok (snd (take_replan t r mb))"
  by (rule contents_sub[OF assms]; force simp: open_request_def mark_pending_def clear_pending_def Let_def
    clear_request_def take_replan_def take_note_def dict_get_pop_if split: option.splits if_splits)+

lemma dict_get_filter_Some: "dict_ok d \<Longrightarrow> dict_get (filter P d) k = Some v \<Longrightarrow> dict_get d k = Some v"
  by (auto dest!: map_of_SomeD simp flip: dict_entries)

lemma contents_take_ready: "contents_ok mb \<Longrightarrow> sizes_ok mb \<Longrightarrow> contents_ok (snd (take_ready t ro mb))"
  by (erule contents_sub) (auto simp: take_ready_def sizes_ok_def dest: dict_get_filter_Some[rotated]
    split: option.splits if_splits)

lemma contents_inject:
  assumes "contents_ok mb"
  shows "contents_ok (note_nudge_injection t r mb)"
proof (cases "active_nudge_for t r mb")
  case None
  then show ?thesis using assms by (auto simp: active_nudge_for_def note_nudge_injection_def split: option.splits if_splits)
next
  case (Some b)
  let ?b = "b\<lparr>an_injections := an_injections b + 1\<rparr>"
  have old: "dict_get (mb_active mb) t = Some b"
    and new: "note_nudge_injection t r mb = mb\<lparr>mb_active := dict_set t ?b (mb_active mb)\<rparr>"
    using Some by (auto simp: active_nudge_for_def note_nudge_injection_def split: option.splits if_splits)
  have "nudge_trusted ?b = nudge_trusted b" "nudge_live ?b e = nudge_live b e" for e
    by (simp_all add: nudge_trusted_def nudge_live_def)
  with contents_okD[OF assms] old show ?thesis by (intro contents_okI) (auto simp: new split: if_splits)
qed

lemma contents_reload:
  assumes "contents_ok mb" and "sizes_ok mb"
  shows "contents_ok (snd (restore_snapshot (take_snapshot mb) empty_mailbox))"
proof (rule contents_sub[OF assms(1)])
  fix k vs assume "dict_get (mb_ready (snd (restore_snapshot (take_snapshot mb) empty_mailbox))) k = Some vs"
  then have "\<exists>ws. dict_get (mb_ready mb) k = Some ws \<and> vs = trim_oldest per_scope_max (trim_oldest per_scope_max ws)"
    using assms(2) by (auto simp: restore_snapshot_def take_snapshot_def Let_def sizes_ok_def dict_get_map_values
      simp del: map_map dest!: dict_get_cap[rotated])
  then show "dict_get (mb_ready mb) k = Some vs \<or> bucket_ok k vs"
    using contents_okD(1)[OF assms(1), of k] by (auto simp: bucket_ok_def)
qed (use assms(2) in \<open>auto simp: restore_snapshot_def take_snapshot_def Let_def sizes_ok_def
    dest!: dict_get_cap[rotated] cap_idle_sub\<close>)

lemma mailbox_step_inv: "mailbox_inv mb \<Longrightarrow> mailbox_inv (mailbox_step a mb)"
  unfolding mailbox_inv_def using sizes_step[of mb a]
  by (cases a) (simp_all add: contents_put contents_arm contents_simple contents_take_ready contents_inject
    contents_signals contents_reload)

interpretation verdicts: inv_system mailbox_step mailbox_inv
  by unfold_locales (rule mailbox_step_inv)

lemma mailbox_inv_empty: "mailbox_inv empty_mailbox"
  by (simp add: mailbox_inv_def sizes_ok_def contents_ok_def empty_mailbox_def)

lemmas mailbox_run_inv = verdicts.run_inv[OF mailbox_inv_empty]

section \<open>A closed request\<close>

definition closed_request :: "string \<Rightarrow> string \<Rightarrow> mailbox \<Rightarrow> bool" where
  "closed_request t r mb \<longleftrightarrow>
     dict_get (mb_current mb) t \<noteq> Some r \<and> dict_get (mb_ready mb) (t, r) = None
     \<and> dict_get (mb_pending mb) (t, r) = None
     \<and> (\<forall>v. dict_get (mb_last mb) t = Some v \<longrightarrow> vd_request_id v \<noteq> r)
     \<and> (\<forall>a. dict_get (mb_active mb) t = Some a \<longrightarrow> an_request_id a \<noteq> r)
     \<and> (\<forall>n. dict_get (mb_replans mb) t = Some n \<longrightarrow> fst n \<noteq> r)"

lemma closed_requestD:
  assumes "closed_request t r mb"
  shows "dict_get (mb_current mb) t \<noteq> Some r" and "dict_get (mb_ready mb) (t, r) = None"
    and "dict_get (mb_pending mb) (t, r) = None"
    and "dict_get (mb_last mb) t = Some v \<Longrightarrow> vd_request_id v \<noteq> r"
    and "dict_get (mb_active mb) t = Some a \<Longrightarrow> an_request_id a \<noteq> r"
    and "dict_get (mb_replans mb) t = Some n \<Longrightarrow> fst n \<noteq> r"
    and "\<not> mailbox_accept t r mb"
  using assms by (auto simp: closed_request_def mailbox_accept_def)

lemma clear_request_closes: "closed_request t r (clear_request t r mb)"
  by (auto simp: closed_request_def clear_request_def pop_if_def split: option.split)

text \<open>Whatever a step stores of the request was there before.\<close>

lemma closed_sub:
  assumes "closed_request t r mb"
    and "dict_get (mb_current mb') t = Some r \<Longrightarrow> dict_get (mb_current mb) t = Some r"
    and "\<And>vs. dict_get (mb_ready mb') (t, r) = Some vs \<Longrightarrow> dict_get (mb_ready mb) (t, r) \<noteq> None"
    and "\<And>n. dict_get (mb_pending mb') (t, r) = Some n \<Longrightarrow> dict_get (mb_pending mb) (t, r) \<noteq> None"
    and "\<And>v. dict_get (mb_last mb') t = Some v \<Longrightarrow> dict_get (mb_last mb) t = Some v \<or> vd_request_id v \<noteq> r"
    and "\<And>a. dict_get (mb_active mb') t = Some a \<Longrightarrow> (\<exists>b. dict_get (mb_active mb) t = Some b \<and> an_request_id b = an_request_id a) \<or> an_request_id a \<noteq> r"
    and "\<And>n. dict_get (mb_replans mb') t = Some n \<Longrightarrow> dict_get (mb_replans mb) t = Some n \<or> fst n \<noteq> r"
  shows "closed_request t r mb'"
  unfolding closed_request_def using assms(2-) closed_requestD[OF assms(1)]
  by (metis not_Some_eq)

lemma sizes_dict_ok:
  assumes "sizes_ok mb"
  shows "dict_ok (mb_ready mb)" and "dict_ok (mb_replans mb)" and "dict_ok (mb_last mb)"
    and "dict_ok (mb_pending mb)" and "dict_ok (mb_current mb)" and "dict_ok (mb_active mb)"
  using assms by (auto simp: sizes_ok_def)

lemma closed_open:
  "closed_request t r mb \<Longrightarrow> sizes_ok mb \<Longrightarrow> (t', r') \<noteq> (t, r) \<Longrightarrow> closed_request t r (open_request t' r' mb)"
  by (erule closed_sub) (auto simp: open_request_def sizes_dict_ok dest!: dict_get_cap[rotated] split: if_splits)

lemma closed_put: "closed_request t r mb \<Longrightarrow> sizes_ok mb \<Longrightarrow> closed_request t r (snd (mailbox_put t' v mb))"
  by (frule closed_requestD(7), erule closed_sub)
    (auto simp: mailbox_put_def set_last_def Let_def sizes_dict_ok dest!: dict_get_cap[rotated] split: if_splits)

lemma closed_pending:
  "closed_request t r mb \<Longrightarrow> sizes_ok mb \<Longrightarrow> closed_request t r (mark_pending t' r' mb)"
  "closed_request t r mb \<Longrightarrow> closed_request t r (clear_pending t' r' mb)"
   apply (frule closed_requestD(7), erule closed_sub)
        apply (auto simp: mark_pending_def Let_def sizes_dict_ok dest!: dict_get_cap[rotated] split: if_splits)[6]
  by (frule closed_requestD(3), erule closed_sub) (auto simp: clear_pending_def Let_def split: if_splits)

lemma closed_signals: "closed_request t r mb \<Longrightarrow> closed_request t r (set_current_signals t' r' ss mb)"
proof (erule closed_sub)
  fix a assume a: "dict_get (mb_active (set_current_signals t' r' ss mb)) t = Some a"
  show "(\<exists>b. dict_get (mb_active mb) t = Some b \<and> an_request_id b = an_request_id a) \<or> an_request_id a \<noteq> r"
    using a by (auto simp: set_current_signals_def Let_def prune_nudge_def split: if_splits option.splits
      dest!: cap_idle_sub)
qed (auto simp: set_current_signals_def Let_def split: if_splits)

lemma closed_activate: "closed_request t r mb \<Longrightarrow> closed_request t r (snd (activate_nudge t' r' v mb))"
proof (frule closed_requestD(7), erule closed_sub)
  fix a assume "\<not> mailbox_accept t r mb" and a: "dict_get (mb_active (snd (activate_nudge t' r' v mb))) t = Some a"
  then show "(\<exists>b. dict_get (mb_active mb) t = Some b \<and> an_request_id b = an_request_id a) \<or> an_request_id a \<noteq> r"
    using activate_nudge_active[OF a] by (cases "mailbox_accept t' r' mb") (auto simp: activate_nudge_def)
qed (auto simp: activate_nudge_def Let_def split: if_splits option.splits list.splits)

lemma closed_arm: "closed_request t r mb \<Longrightarrow> sizes_ok mb \<Longrightarrow> closed_request t r (snd (arm_escalation t' v sev mb))"
proof -
  assume c: "closed_request t r mb" and s: "sizes_ok mb"
  let ?mb = "put_replan t' (vd_request_id v) (replan_text (vd_signals v)) mb"
  have "closed_request t r ?mb" using closed_requestD(7)[OF c]
    by (intro closed_sub[OF c]) (auto simp: put_replan_def put_note_def Let_def sizes_dict_ok[OF s]
      dest!: dict_get_cap[rotated] split: if_splits)
  moreover from this have "closed_request t r (?mb\<lparr>mb_replan_armed := d\<rparr>)" for d by (simp add: closed_request_def)
  ultimately show ?thesis using c closed_activate[OF c, of t' "vd_request_id v" v] 
    by (intro arm_escalation_cases[where P = "closed_request t r"]) simp_all
qed

lemma closed_others:
  "closed_request t r mb \<Longrightarrow> closed_request t r (note_nudge_injection t' r' mb)"
  "closed_request t r mb \<Longrightarrow> closed_request t r (snd (take_replan t' r' mb))"
  "closed_request t r mb \<Longrightarrow> closed_request t r (clear_request t' r' mb)"
  by (erule closed_sub; force simp: note_nudge_injection_def take_replan_def take_note_def clear_request_def
    dict_get_pop_if split: option.splits if_splits)+

lemma closed_take_ready: "closed_request t r mb \<Longrightarrow> sizes_ok mb \<Longrightarrow> closed_request t r (snd (take_ready t' ro mb))"
  by (erule closed_sub) (auto simp: take_ready_def sizes_dict_ok dest: dict_get_filter_Some[rotated] split: option.splits if_splits)

lemma closed_reload:
  "closed_request t r mb \<Longrightarrow> sizes_ok mb \<Longrightarrow> closed_request t r (snd (restore_snapshot (take_snapshot mb) empty_mailbox))"
  by (erule closed_sub) (auto simp: restore_snapshot_def take_snapshot_def empty_mailbox_def Let_def sizes_dict_ok
    dict_get_map_values simp del: map_map dest!: dict_get_cap[rotated] cap_idle_sub)

lemma closed_step:
  "closed_request t r mb \<Longrightarrow> sizes_ok mb \<Longrightarrow> a \<noteq> OpenReq t r \<Longrightarrow> closed_request t r (mailbox_step a mb)"
  by (cases a) (simp_all add: closed_open closed_put closed_pending closed_signals closed_arm closed_others
    closed_take_ready closed_reload)

section \<open>What the mailbox guarantees\<close>

definition live_for :: "mailbox \<Rightarrow> string \<Rightarrow> string \<Rightarrow> string list \<Rightarrow> bool" where
  "live_for mb t r ss \<longleftrightarrow>
     (case current_episode t r mb of None \<Rightarrow> True | Some e \<Rightarrow> list_all (\<lambda>s. s \<in> set (ep_signals e)) ss)"

lemma peek_trusted:
  assumes "mailbox_inv mb" and "peek_nudge t r mb = Some s"
  shows "\<exists>ss. s = correction_text ss \<and> live_for mb t r ss"
proof -
  obtain a where a: "dict_get (mb_active mb) t = Some a" "an_request_id a = r" "s = an_text a"
    using assms(2) by (auto simp: peek_nudge_def active_nudge_for_def split: option.splits if_splits)
  have "contents_ok mb" using assms(1) by (simp add: mailbox_inv_def)
  note inv = contents_okD[OF this]
  have "live_for mb t r (an_signals a)"
    using inv(4)[OF a(1)] a(2)
    by (auto simp: live_for_def current_episode_def nudge_live_def list_all_iff split: option.split)
  moreover have "s = correction_text (an_signals a)" using inv(2)[OF a(1)] a(3) by (simp add: nudge_trusted_def)
  ultimately show ?thesis by blast
qed

lemma replan_trusted:
  assumes "mailbox_inv mb" and "fst (take_replan t r mb) = Some s"
  shows "\<exists>ss. s = py_strip (replan_text ss)"
  using assms contents_okD(3)[of mb t]
  by (auto simp: take_replan_def take_note_def mailbox_inv_def note_trusted_def split: option.splits if_splits prod.splits)

text \<open>
  C29: corrections are trusted and live. Whatever verdicts were deposited, in whatever order and through any number of
  reloads, a correction shown to the agent is the harness's own text for some signals, and none of them has
  recovered since the tracker last reported on the request; a note that asks for a new plan is the harness's
  own text as well. No word of the judge's reaches the prompt.
\<close>
theorem corrections_trusted_and_live:
  fixes ops t r
  defines "mb \<equiv> fold mailbox_step ops empty_mailbox"
  shows "(case peek_nudge t r mb of None \<Rightarrow> True | Some s \<Rightarrow> \<exists>ss. s = correction_text ss \<and> live_for mb t r ss)
    \<and> (case fst (take_replan t r mb) of None \<Rightarrow> True | Some s \<Rightarrow> \<exists>ss. s = py_strip (replan_text ss))"
  using peek_trusted[OF mailbox_run_inv[of ops]] replan_trusted[OF mailbox_run_inv[of ops]]
  by (auto simp: mb_def split: option.split)

lemma closed_run:
  assumes "closed_request t r mb" and "mailbox_inv mb" and "OpenReq t r \<notin> set ops"
  shows "closed_request t r (fold mailbox_step ops mb)"
  using assms
proof (induction ops arbitrary: mb)
  case (Cons a ops)
  then have "closed_request t r (mailbox_step a mb)" by (intro closed_step) (auto simp: mailbox_inv_def)
  then show ?case using Cons mailbox_step_inv by simp
qed simp

lemma closed_silent:
  assumes "closed_request t r mb"
  shows "on_before_provider t r msgs mb = (msgs, mb)" and "fst (take_ready t (Some r) mb) = []"
    and "fst (take_replan t r mb) = None" and "\<not> mailbox_pending t (Some r) mb"
    and "verifier_check config tools t r mb call = plain_decision DAllow None"
    and "mailbox_put t (v\<lparr>vd_request_id := r\<rparr>) mb = (False, mb)"
proof -
  note c = closed_requestD[OF assms]
  have "peek_nudge t r mb = None"
    using c(5) by (auto simp: peek_nudge_def active_nudge_for_def split: option.split)
  then show "on_before_provider t r msgs mb = (msgs, mb)"
    by (simp add: on_before_provider_def split: option.split)
  show "fst (take_ready t (Some r) mb) = []" using c(2) by (simp add: take_ready_def)
  show "fst (take_replan t r mb) = None" using c(6) by (auto simp: take_replan_def take_note_def split: option.split)
  show "\<not> mailbox_pending t (Some r) mb" using c(3) by (simp add: mailbox_pending_def)
  show "verifier_check config tools t r mb call = plain_decision DAllow None"
    using c(4) by (auto simp: verifier_check_def mailbox_last_def Let_def split: option.split)
  show "mailbox_put t (v\<lparr>vd_request_id := r\<rparr>) mb = (False, mb)" using c(7) by (simp add: mailbox_put_def)
qed

text \<open>
  C27: a finished request stays silent. Once a request is cleared, then whatever happens later to the mailbox, late
  verdicts, published signals, work on other requests and reloads included, as long as the request is not opened
  again nothing of it comes back: the provider's messages are not touched, no verdict and no note is waiting,
  nothing is pending, no tool is refused on its account, and a late verdict is dropped.
\<close>
theorem closed_request_silent:
  fixes earlier later t r
  defines "mb \<equiv> fold mailbox_step later (clear_request t r (fold mailbox_step earlier empty_mailbox))"
  assumes "OpenReq t r \<notin> set later"
  shows "on_before_provider t r msgs mb = (msgs, mb) \<and> fst (take_ready t (Some r) mb) = []
    \<and> fst (take_replan t r mb) = None \<and> \<not> mailbox_pending t (Some r) mb
    \<and> verifier_check config tools t r mb call = plain_decision DAllow None
    \<and> mailbox_put t (v\<lparr>vd_request_id := r\<rparr>) mb = (False, mb)"
proof -
  have "mailbox_inv (clear_request t r (fold mailbox_step earlier empty_mailbox))"
    using mailbox_step_inv[OF mailbox_run_inv[of earlier], of "ClearReq t r"] by simp
  then have "closed_request t r mb"
    unfolding mb_def using assms(2) by (intro closed_run clear_request_closes)
  then show ?thesis by (simp add: closed_silent)
qed

definition sample_verdict :: verdict where
  "sample_verdict = \<lparr>vd_request_id = ''r'', vd_verdict_id = ''v'', vd_checkpoint_id = ''r:1'', vd_status = ''drifting'',
     vd_severity = ''replan'', vd_confidence = ''0.9'', vd_rationale = ''why'', vd_correction = None,
     vd_signals = [''error_streak''], vd_signal_epochs = [], vd_judge_tokens = 7\<rparr>"

theorem closed_request_silent_witness:
  "fst (take_replan ''t'' ''r'' (fold mailbox_step [PutVerdict ''t'' sample_verdict, ArmVerdict ''t'' sample_verdict ''replan'']
      (clear_request ''t'' ''r'' (fold mailbox_step [OpenReq ''t'' ''r'', PutVerdict ''t'' sample_verdict,
         ArmVerdict ''t'' sample_verdict ''replan''] empty_mailbox)))) = None
   \<and> fst (take_replan ''t'' ''r'' (fold mailbox_step [OpenReq ''t'' ''r'', PutVerdict ''t'' sample_verdict,
         ArmVerdict ''t'' sample_verdict ''replan''] empty_mailbox)) \<noteq> None"
proof
  show "fst (take_replan ''t'' ''r'' (fold mailbox_step [PutVerdict ''t'' sample_verdict, ArmVerdict ''t'' sample_verdict ''replan'']
      (clear_request ''t'' ''r'' (fold mailbox_step [OpenReq ''t'' ''r'', PutVerdict ''t'' sample_verdict,
         ArmVerdict ''t'' sample_verdict ''replan''] empty_mailbox)))) = None"
    by (rule conjunct1[OF conjunct2[OF conjunct2[OF closed_request_silent]]]) simp
qed code_simp

text \<open>
  A replacement mailbox forgets which verdicts already gave their note: the note is taken, the gateway reloads, and
  draining the verdict that was still waiting gives the same note again. Without the reload it does not.
\<close>

lemma replan_repeated_after_reload:
  fixes mb
  defines "mb \<equiv> snd (take_replan ''t'' ''r''
    (deposit_verdict ''replan'' ''t'' sample_verdict (open_request ''t'' ''r'' empty_mailbox)))"
  shows "fst (take_replan ''t'' ''r'' (snd (drain_verdicts ''replan'' ''t'' (fst (take_ready ''t'' (Some ''r'') mb)) mb))) = None"
    and "fst (take_replan ''t'' ''r'' (snd (drain_verdicts ''replan'' ''t''
        (fst (take_ready ''t'' (Some ''r'') (mailbox_step Reload mb))) (mailbox_step Reload mb)))) = Some (replan_text [''error_streak''])"
  unfolding mb_def by code_simp+

end
