(* ===== verification/Memory_Outbox.thy ===== *)
theory Memory_Outbox
  imports Prelude
begin

text \<open>
  \<open>core/memory/outbox.py\<close> and \<open>core/memory/writer.py\<close>: the durable queue of messages on their way into the
  memory palace, and the writer that drains it. The table is a dictionary from row id to row in insertion order;
  each store function runs under the connection lock, so it is one step. Times are texts in ISO format with
  second resolution in UTC, which compare as the times do; here they are numbers of seconds. Among rows of the same
  second the order is that of insertion. The hash in a row id and the outcome of writing to the palace are
  arguments. Log events and spans are left out.
  Shown: a row is claimed by one writer at a time, what is committed is in the palace, no message is lost, and draining
  ends with nothing left to do.
\<close>

section \<open>Rows\<close>

datatype outbox_status = OPending | OProcessing | OCommitted | ODead

record outbox_row =
  ob_id :: string
  ob_agent_id :: string
  ob_thread_id :: string
  ob_turn_id :: string
  ob_message_id :: string
  ob_role :: string
  ob_content :: "string option"
  ob_workspace_id :: "string option"
  ob_wing :: string
  ob_room :: string
  ob_created_at :: int
  ob_status :: outbox_status
  ob_attempts :: int
  ob_next_attempt_at :: "int option"
  ob_last_error :: "string option"
  ob_traceparent :: "string option"
  ob_lease_owner :: "string option"
  ob_lease_expires_at :: "int option"
  ob_palace_id :: string

type_synonym outbox = "(string, outbox_row) dict"

definition lease_seconds_default :: int where
  "lease_seconds_default = 30"

definition gc_after_days :: int where
  "gc_after_days = 7"

definition permanent_error_classes :: "string list" where
  "permanent_error_classes = [''ValueError'', ''TypeError'', ''UnicodeError'', ''UnicodeDecodeError'',
     ''UnicodeEncodeError'', ''PermanentMemoryError'']"

definition is_permanent_error :: "string \<Rightarrow> bool" where
  "is_permanent_error error_class \<longleftrightarrow> error_class \<in> set permanent_error_classes"

definition truthy :: "string option \<Rightarrow> bool" where
  "truthy s \<longleftrightarrow> s \<noteq> None \<and> s \<noteq> Some []"

definition drawer_metadata :: "(int \<Rightarrow> string) \<Rightarrow> outbox_row \<Rightarrow> (string, string) dict" where
  "drawer_metadata stamp r =
     [(''wing'', ob_wing r), (''room'', ob_room r), (''thread_id'', ob_thread_id r), (''turn_id'', ob_turn_id r),
      (''message_id'', ob_message_id r), (''role'', ob_role r), (''source_timestamp'', stamp (ob_created_at r)),
      (''filed_at'', stamp (ob_created_at r)), (''added_by'', ''monkeybot''), (''agent_id'', ob_agent_id r)]
     @ (if truthy (ob_workspace_id r) then [(''workspace_id'', the (ob_workspace_id r))] else [])"

definition outbox_id :: "(string \<Rightarrow> string) \<Rightarrow> string \<Rightarrow> string \<Rightarrow> string \<Rightarrow> string \<Rightarrow> string" where
  \<comment> \<open>\<open>digest\<close> is the hexadecimal SHA-256 of the text\<close>
  "outbox_id digest agent thread message role =
     ''turn_'' @ digest (join_on [CHR 0x00] [agent, thread, message, role])"

definition backoff :: "int \<Rightarrow> int \<Rightarrow> int" where
  "backoff now attempts = now + min 300 (2 ^ nat (max 0 attempts))"

section \<open>The store\<close>

definition update_where :: "(outbox_row \<Rightarrow> bool) \<Rightarrow> (outbox_row \<Rightarrow> outbox_row) \<Rightarrow> outbox \<Rightarrow> outbox" where
  "update_where p f ob = map (\<lambda>(k, r). (k, if p r then f r else r)) ob"

definition count_where :: "(outbox_row \<Rightarrow> bool) \<Rightarrow> outbox \<Rightarrow> nat" where
  "count_where p ob = length (filter p (map snd ob))"

record new_message =
  nm_agent_id :: string
  nm_thread_id :: string
  nm_turn_id :: string
  nm_message_id :: string
  nm_role :: string
  nm_content :: string
  nm_workspace_id :: "string option"
  nm_wing :: string
  nm_room :: string
  nm_traceparent :: "string option"
  nm_palace_id :: string

definition new_message_id :: "(string \<Rightarrow> string) \<Rightarrow> new_message \<Rightarrow> string" where
  "new_message_id digest m = outbox_id digest (nm_agent_id m) (nm_thread_id m) (nm_message_id m) (nm_role m)"

definition pending_row :: "string \<Rightarrow> int \<Rightarrow> new_message \<Rightarrow> outbox_row" where
  "pending_row i created_at m =
     \<lparr>ob_id = i, ob_agent_id = nm_agent_id m, ob_thread_id = nm_thread_id m, ob_turn_id = nm_turn_id m,
      ob_message_id = nm_message_id m, ob_role = nm_role m, ob_content = Some (nm_content m),
      ob_workspace_id = nm_workspace_id m, ob_wing = nm_wing m, ob_room = nm_room m,
      ob_created_at = created_at, ob_status = OPending, ob_attempts = 0, ob_next_attempt_at = None,
      ob_last_error = None, ob_traceparent = nm_traceparent m, ob_lease_owner = None,
      ob_lease_expires_at = None, ob_palace_id = nm_palace_id m\<rparr>"

definition insert_pending ::
    "(string \<Rightarrow> string) \<Rightarrow> int \<Rightarrow> int option \<Rightarrow> new_message \<Rightarrow> outbox \<Rightarrow> string option \<times> outbox" where
  "insert_pending digest now created_at m ob =
     (let i = new_message_id digest m
      in case dict_get ob i of
           Some r \<Rightarrow> (if ob_status r = OCommitted then None else Some i, ob)
         | None \<Rightarrow> (Some i, ob @ [(i, pending_row i (case created_at of None \<Rightarrow> now | Some t \<Rightarrow> t) m)]))"

definition expired_lease :: "int \<Rightarrow> string \<Rightarrow> outbox_row \<Rightarrow> bool" where
  "expired_lease now agent r \<longleftrightarrow> ob_status r = OProcessing
     \<and> (case ob_lease_expires_at r of None \<Rightarrow> False | Some e \<Rightarrow> e < now)
     \<and> (agent = [] \<or> ob_agent_id r = agent)"

definition back_to_pending :: "outbox_row \<Rightarrow> outbox_row" where
  "back_to_pending r = r\<lparr>ob_status := OPending, ob_lease_owner := None, ob_lease_expires_at := None\<rparr>"

definition claimable_row :: "int \<Rightarrow> string \<Rightarrow> string \<Rightarrow> outbox_row \<Rightarrow> bool" where
  "claimable_row now agent palace r \<longleftrightarrow> ob_status r = OPending
     \<and> (case ob_next_attempt_at r of None \<Rightarrow> True | Some t \<Rightarrow> t \<le> now)
     \<and> (agent = [] \<or> ob_agent_id r = agent)
     \<and> (palace = [] \<or> ob_palace_id r = palace \<or> ob_palace_id r = [])"

definition claim_row :: "string \<Rightarrow> int \<Rightarrow> string \<Rightarrow> outbox_row \<Rightarrow> outbox_row" where
  "claim_row owner expires palace r =
     r\<lparr>ob_status := OProcessing, ob_lease_owner := Some owner, ob_lease_expires_at := Some expires,
       ob_attempts := ob_attempts r + 1,
       ob_palace_id := (if ob_palace_id r = [] then palace else ob_palace_id r)\<rparr>"

definition claim_batch ::
    "int \<Rightarrow> string \<Rightarrow> nat \<Rightarrow> int \<Rightarrow> string \<Rightarrow> string \<Rightarrow> outbox \<Rightarrow> outbox_row list \<times> outbox" where
  "claim_batch now owner limit lease_seconds agent palace ob =
     (let ob1 = update_where (expired_lease now agent) back_to_pending ob;
          rows = take limit (sort_key ob_created_at (filter (claimable_row now agent palace) (map snd ob1)))
      in (rows, fold (\<lambda>raw. update_where (\<lambda>r. ob_id r = ob_id raw) (claim_row owner (now + lease_seconds) palace))
            rows ob1))"

definition owned_by :: "string option \<Rightarrow> outbox_row \<Rightarrow> bool" where
  "owned_by owner r \<longleftrightarrow> (if truthy owner then ob_lease_owner r = owner else True)"

definition mark_committed :: "string list \<Rightarrow> string option \<Rightarrow> outbox \<Rightarrow> nat \<times> outbox" where
  "mark_committed ids owner ob =
     (if ids = [] then (0, ob)
      else
        let p = (\<lambda>r. ob_id r \<in> set ids \<and> owned_by owner r)
        in (count_where p ob,
            update_where p (\<lambda>r. r\<lparr>ob_status := OCommitted, ob_lease_owner := None, ob_lease_expires_at := None,
                ob_last_error := None, ob_next_attempt_at := None\<rparr>) ob))"

definition mark_retry ::
    "int \<Rightarrow> string \<Rightarrow> string \<Rightarrow> int \<Rightarrow> bool option \<Rightarrow> string option \<Rightarrow> outbox \<Rightarrow> nat \<times> outbox" where
  "mark_retry now i error_class attempts permanent owner ob =
     (let dead = (case permanent of Some b \<Rightarrow> b | None \<Rightarrow> is_permanent_error error_class);
          next_at = (if dead then None else Some (backoff now attempts));
          p = (\<lambda>r. ob_id r = i \<and> owned_by owner r)
      in (count_where p ob,
          update_where p (\<lambda>r. r\<lparr>ob_status := (if dead then ODead else OPending), ob_last_error := Some error_class,
              ob_next_attempt_at := next_at, ob_lease_owner := None, ob_lease_expires_at := None\<rparr>) ob))"

definition release_processing :: "string \<Rightarrow> outbox \<Rightarrow> nat \<times> outbox" where
  "release_processing owner ob =
     (let p = (\<lambda>r. ob_status r = OProcessing \<and> ob_lease_owner r = Some owner)
      in (count_where p ob, update_where p back_to_pending ob))"

definition gc_committed :: "int \<Rightarrow> int \<Rightarrow> outbox \<Rightarrow> nat \<times> outbox" where
  "gc_committed now days ob =
     (let p = (\<lambda>r. ob_status r = OCommitted \<and> ob_created_at r < now - days * 86400)
      in (count_where p ob, filter (\<lambda>(k, r). \<not> p r) ob))"

definition waiting_row :: "string option \<Rightarrow> outbox_row \<Rightarrow> bool" where
  "waiting_row agent r \<longleftrightarrow> ob_status r \<in> {OPending, OProcessing} \<and> (truthy agent \<longrightarrow> agent = Some (ob_agent_id r))"

definition pending_depth :: "int \<Rightarrow> string option \<Rightarrow> outbox \<Rightarrow> nat \<times> int" where
  "pending_depth now agent ob =
     (let rows = filter (waiting_row agent) (map snd ob)
      in (length rows,
          case map ob_created_at rows of [] \<Rightarrow> 0 | t # ts \<Rightarrow> max 0 (now - fold min ts t)))"

definition dead_depth :: "string option \<Rightarrow> outbox \<Rightarrow> nat" where
  "dead_depth agent ob =
     count_where (\<lambda>r. ob_status r = ODead \<and> (truthy agent \<longrightarrow> agent = Some (ob_agent_id r))) ob"

section \<open>The writer\<close>

record memory_writer =
  mw_agent_id :: string
  mw_palace_id :: string
  mw_lease_owner :: string

type_synonym drawer = "string \<times> (string, string) dict"
type_synonym palace = "(string, drawer) dict"

type_synonym upsert_outcome = "string option" \<comment> \<open>the class of the exception, if there was one\<close>

definition upsert_one :: "(int \<Rightarrow> string) \<Rightarrow> outbox_row \<Rightarrow> palace \<Rightarrow> palace" where
  "upsert_one stamp r pal =
     dict_set (ob_id r) (case ob_content r of None \<Rightarrow> [] | Some c \<Rightarrow> c, drawer_metadata stamp r) pal"

definition commit_row ::
    "(int \<Rightarrow> string) \<Rightarrow> memory_writer \<Rightarrow> int \<Rightarrow> upsert_outcome \<Rightarrow> outbox_row \<Rightarrow> outbox \<times> palace \<Rightarrow> nat \<times> outbox \<times> palace" where
  \<comment> \<open>one row of \<open>_commit_rows\<close>\<close>
  "commit_row stamp w now outcome r = (\<lambda>(ob, pal).
     (case outcome of
        None \<Rightarrow> (1, snd (mark_committed [ob_id r] (Some (mw_lease_owner w)) ob), upsert_one stamp r pal)
      | Some error_class \<Rightarrow>
          (0, snd (mark_retry now (ob_id r) error_class (ob_attempts r + 1)
                (Some (is_permanent_error error_class)) (Some (mw_lease_owner w)) ob), pal)))"

fun commit_rows ::
    "(int \<Rightarrow> string) \<Rightarrow> memory_writer \<Rightarrow> int \<Rightarrow> (outbox_row \<Rightarrow> upsert_outcome) \<Rightarrow> outbox_row list \<Rightarrow> outbox \<times> palace
      \<Rightarrow> nat \<times> outbox \<times> palace" where
  "commit_rows stamp w now upsert [] st = (0, st)"
| "commit_rows stamp w now upsert (r # rs) st =
     (case commit_row stamp w now (upsert r) r st of (n, st') \<Rightarrow>
        case commit_rows stamp w now upsert rs st' of (m, st'') \<Rightarrow> (n + m, st''))"

definition batch_limit :: nat where
  "batch_limit = 16"

definition flush_once ::
    "(int \<Rightarrow> string) \<Rightarrow> memory_writer \<Rightarrow> int \<Rightarrow> (outbox_row \<Rightarrow> upsert_outcome) \<Rightarrow> outbox \<times> palace \<Rightarrow> nat \<times> outbox \<times> palace" where
  "flush_once stamp w now upsert = (\<lambda>(ob, pal).
     (case claim_batch now (mw_lease_owner w) batch_limit lease_seconds_default (mw_agent_id w) (mw_palace_id w) ob of
        (rows, ob') \<Rightarrow> if rows = [] then (0, ob', pal) else commit_rows stamp w now upsert rows (ob', pal)))"

datatype flush_event =
    FlushDone int "outbox_row \<Rightarrow> upsert_outcome"
  | FlushTimeout int nat bool "outbox_row \<Rightarrow> upsert_outcome"
    \<comment> \<open>the time ran out after this many rows of the batch; the abandoned write of the next one may still land\<close>

fun drain :: "(int \<Rightarrow> string) \<Rightarrow> memory_writer \<Rightarrow> flush_event list \<Rightarrow> outbox \<times> palace \<Rightarrow> nat \<times> outbox \<times> palace" where
  \<comment> \<open>the events are what happens until the deadline\<close>
  "drain stamp w [] st = (0, st)"
| "drain stamp w (FlushTimeout now k late upsert # evs) st =
     (case st of (ob, pal) \<Rightarrow>
        case claim_batch now (mw_lease_owner w) batch_limit lease_seconds_default (mw_agent_id w) (mw_palace_id w) ob of
          (rows, ob') \<Rightarrow>
            case commit_rows stamp w now upsert (take k rows) (ob', pal) of
              (_, ob'', pal') \<Rightarrow> (0, snd (release_processing (mw_lease_owner w) ob''),
                if late \<and> k < length rows then upsert_one stamp (rows ! k) pal' else pal'))"
| "drain stamp w (FlushDone now upsert # evs) st =
     (case flush_once stamp w now upsert st of (n, st') \<Rightarrow>
        if n = 0 then (0, st')
        else case drain stamp w evs st' of (m, st'') \<Rightarrow> (n + m, st''))"

section \<open>Steps and the invariant\<close>

datatype outbox_op =
    OInsert int new_message
  | OClaim int string nat int string string
  | OCommit "string list" string
  | ORetry int string string int "bool option" string
  | ORelease string
  | OGc int int

fun outbox_step :: "(string \<Rightarrow> string) \<Rightarrow> outbox_op \<Rightarrow> outbox \<Rightarrow> outbox" where
  "outbox_step digest (OInsert now m) ob = snd (insert_pending digest now None m ob)"
| "outbox_step digest (OClaim now owner limit secs agent palace) ob = snd (claim_batch now owner limit secs agent palace ob)"
| "outbox_step digest (OCommit ids owner) ob = snd (mark_committed ids (Some owner) ob)"
| "outbox_step digest (ORetry now i e attempts permanent owner) ob = snd (mark_retry now i e attempts permanent (Some owner) ob)"
| "outbox_step digest (ORelease owner) ob = snd (release_processing owner ob)"
| "outbox_step digest (OGc now days) ob = snd (gc_committed now days ob)"

definition outbox_row_ok :: "string \<Rightarrow> outbox_row \<Rightarrow> bool" where
  "outbox_row_ok k r \<longleftrightarrow> ob_id r = k
     \<and> (ob_status r = OProcessing \<longleftrightarrow> ob_lease_owner r \<noteq> None)
     \<and> (ob_status r = OProcessing \<longleftrightarrow> ob_lease_expires_at r \<noteq> None)
     \<and> (ob_status r \<in> {OCommitted, ODead} \<longrightarrow> ob_next_attempt_at r = None)
     \<and> 0 \<le> ob_attempts r"

definition outbox_inv :: "outbox \<Rightarrow> bool" where
  "outbox_inv ob \<longleftrightarrow> dict_ok ob \<and> list_all (\<lambda>(k, r). outbox_row_ok k r) ob"

lemma outbox_invD:
  assumes "outbox_inv ob"
  shows "dict_ok ob" and "dict_get ob k = Some r \<Longrightarrow> outbox_row_ok k r"
  using assms by (auto simp: outbox_inv_def list_all_iff dest!: map_of_SomeD)

lemma outbox_invI:
  "dict_ok ob \<Longrightarrow> (\<And>k r. dict_get ob k = Some r \<Longrightarrow> outbox_row_ok k r) \<Longrightarrow> outbox_inv ob"
  by (auto simp: outbox_inv_def list_all_iff dict_entries)

lemma update_where_get [simp]:
  "dict_get (update_where p f ob) k = map_option (\<lambda>r. if p r then f r else r) (dict_get ob k)"
  by (simp add: update_where_def dict_get_map_values)

lemma dict_ok_update_where [simp]: "dict_ok (update_where p f ob) = dict_ok ob"
  by (simp add: update_where_def)

lemma update_where_inv:
  assumes "outbox_inv ob" and "\<And>k r. outbox_row_ok k r \<Longrightarrow> p r \<Longrightarrow> outbox_row_ok k (f r)"
  shows "outbox_inv (update_where p f ob)"
  using outbox_invD[OF assms(1)] assms(2) by (intro outbox_invI) auto

lemma fold_update_inv:
  assumes "outbox_inv ob" and "\<And>k r. outbox_row_ok k r \<Longrightarrow> outbox_row_ok k (f r)"
  shows "outbox_inv (fold (\<lambda>raw. update_where (\<lambda>r. ob_id r = ob_id raw) f) rows ob)"
  using assms(1)
  by (induction rows arbitrary: ob) (simp_all add: update_where_inv assms(2))

lemma fold_update_get:
  assumes "distinct (map ob_id rows)" and "\<And>r. ob_id (f r) = ob_id r"
  shows "dict_get (fold (\<lambda>raw. update_where (\<lambda>r. ob_id r = ob_id raw) f) rows ob) k
    = map_option (\<lambda>r. if ob_id r \<in> ob_id ` set rows then f r else r) (dict_get ob k)"
  using assms(1)
proof (induction rows arbitrary: ob)
  case Nil
  then show ?case by (simp add: option.map_ident)
next
  case (Cons raw rows)
  then show ?case using assms(2) by (cases "dict_get ob k") auto
qed

text \<open>What a claim does, row by row.\<close>

definition after_expiry :: "int \<Rightarrow> string \<Rightarrow> outbox_row \<Rightarrow> outbox_row" where
  "after_expiry now agent r = (if expired_lease now agent r then back_to_pending r else r)"

lemma after_expiry_inv:
  "outbox_inv ob \<Longrightarrow> outbox_inv (update_where (expired_lease now agent) back_to_pending ob)"
  by (rule update_where_inv) (auto simp: outbox_row_ok_def back_to_pending_def)

lemma ob_id_simps [simp]:
  "ob_id (back_to_pending r) = ob_id r" "ob_id (claim_row owner e palace r) = ob_id r"
  "ob_id (after_expiry now agent r) = ob_id r"
  by (simp_all add: back_to_pending_def claim_row_def after_expiry_def)

lemma claim_batch_rows:
  assumes "outbox_inv ob" and "claim_batch now owner limit secs agent palace ob = (rows, ob')"
  shows "distinct (map ob_id rows)" and "length rows \<le> limit"
    and "r \<in> set rows \<Longrightarrow> claimable_row now agent palace r
      \<and> dict_get (update_where (expired_lease now agent) back_to_pending ob) (ob_id r) = Some r"
proof -
  let ?ob = "update_where (expired_lease now agent) back_to_pending ob"
  let ?all = "filter (claimable_row now agent palace) (map snd ?ob)"
  have inv: "outbox_inv ?ob" using assms(1) by (rule after_expiry_inv)
  have rows: "rows = take limit (sort_key ob_created_at ?all)"
    using assms(2) by (simp add: claim_batch_def Let_def)
  have keys: "map ob_id (map snd ?ob) = map fst ?ob"
    using inv by (auto simp: outbox_inv_def outbox_row_ok_def list_all_iff)
  have "distinct (map ob_id (map snd ?ob))" unfolding keys using inv by (simp add: outbox_inv_def dict_ok_def)
  then have "distinct (map ob_id ?all)" by (rule distinct_map_filter)
  then have "distinct (map ob_id (sort_key ob_created_at ?all))"
    by (metis mset_map mset_eq_imp_distinct_iff mset_sort)
  then show "distinct (map ob_id rows)" by (simp add: rows take_map[symmetric] distinct_take)
  show "length rows \<le> limit" by (simp add: rows)
  assume "r \<in> set rows"
  then have "r \<in> set ?all" using set_take_subset[of limit "sort_key ob_created_at ?all"] by (auto simp: rows)
  then obtain k where "(k, r) \<in> set ?ob" "claimable_row now agent palace r" by auto
  then show "claimable_row now agent palace r \<and> dict_get ?ob (ob_id r) = Some r"
    using inv dict_entries[of ?ob k r] by (auto simp: outbox_inv_def list_all_iff outbox_row_ok_def)
qed

lemma claim_batch_get:
  assumes "outbox_inv ob" and "claim_batch now owner limit secs agent palace ob = (rows, ob')"
  shows "dict_get ob' k = map_option (\<lambda>r. let r1 = after_expiry now agent r
      in if ob_id r \<in> ob_id ` set rows then claim_row owner (now + secs) palace r1 else r1) (dict_get ob k)"
proof -
  have "ob' = fold (\<lambda>raw. update_where (\<lambda>r. ob_id r = ob_id raw) (claim_row owner (now + secs) palace)) rows
      (update_where (expired_lease now agent) back_to_pending ob)"
    using assms(2) by (auto simp: claim_batch_def Let_def)
  then show ?thesis using claim_batch_rows(1)[OF assms]
    by (cases "dict_get ob k") (simp_all add: fold_update_get after_expiry_def Let_def)
qed

lemma claim_batch_inv:
  assumes "outbox_inv ob" and "claim_batch now owner limit secs agent palace ob = (rows, ob')"
  shows "outbox_inv ob'"
proof -
  have "ob' = fold (\<lambda>raw. update_where (\<lambda>r. ob_id r = ob_id raw) (claim_row owner (now + secs) palace)) rows
      (update_where (expired_lease now agent) back_to_pending ob)"
    using assms(2) by (auto simp: claim_batch_def Let_def)
  then show ?thesis using after_expiry_inv[OF assms(1)]
    by (auto intro!: fold_update_inv simp: outbox_row_ok_def claim_row_def)
qed

lemma insert_pending_inv: "outbox_inv ob \<Longrightarrow> outbox_inv (snd (insert_pending digest now created_at m ob))"
  by (auto simp: outbox_inv_def insert_pending_def Let_def dict_ok_append outbox_row_ok_def pending_row_def
    split: option.split)

lemma outbox_step_inv: "outbox_inv ob \<Longrightarrow> outbox_inv (outbox_step digest a ob)"
proof (cases a)
  case (OClaim now owner limit secs agent palace)
  then show "outbox_inv ob \<Longrightarrow> ?thesis"
    using claim_batch_inv[of ob now owner limit secs agent palace] by (metis outbox_step.simps(2) prod.collapse)
next
  case (OGc now days)
  moreover assume "outbox_inv ob"
  ultimately show ?thesis
    by (auto simp: outbox_inv_def gc_committed_def Let_def dict_ok_def distinct_map_filter list_all_iff)
qed (auto simp: insert_pending_inv mark_committed_def mark_retry_def release_processing_def Let_def
    outbox_row_ok_def back_to_pending_def intro!: update_where_inv split: option.splits)

interpretation outbox: inv_system "outbox_step digest" outbox_inv
  by unfold_locales (rule outbox_step_inv)

section \<open>Claims exclude each other\<close>

definition holds_row :: "outbox \<Rightarrow> string \<Rightarrow> string \<Rightarrow> int \<Rightarrow> bool" where
  "holds_row ob k w t \<longleftrightarrow> (case dict_get ob k of None \<Rightarrow> False
     | Some r \<Rightarrow> ob_status r = OProcessing \<and> ob_lease_owner r = Some w \<and> ob_lease_expires_at r = Some t)"

fun leaves_lease :: "string \<Rightarrow> int \<Rightarrow> outbox_op \<Rightarrow> bool" where
  \<comment> \<open>an insertion, a collection, a claim before the lease runs out, or what another writer does with its own rows\<close>
  "leaves_lease w t (OInsert now m) = True"
| "leaves_lease w t (OClaim now owner limit secs agent palace) = (now \<le> t)"
| "leaves_lease w t (OCommit ids owner) = (owner \<noteq> [] \<and> owner \<noteq> w)"
| "leaves_lease w t (ORetry now i e attempts permanent owner) = (owner \<noteq> [] \<and> owner \<noteq> w)"
| "leaves_lease w t (ORelease owner) = (owner \<noteq> w)"
| "leaves_lease w t (OGc now days) = True"

lemma claim_takes:
  assumes "outbox_inv ob" and "claim_batch now w limit secs agent palace ob = (rows, ob')" and "r \<in> set rows"
  shows "holds_row ob' (ob_id r) w (now + secs)"
proof -
  obtain r0 where "dict_get ob (ob_id r) = Some r0" "r = after_expiry now agent r0"
    using claim_batch_rows(3)[OF assms] by (auto simp: after_expiry_def split: if_splits)
  moreover have "ob_id r \<in> ob_id ` set rows" using assms(3) by simp
  ultimately show ?thesis using claim_batch_get[OF assms(1,2), of "ob_id r"]
    by (auto simp: holds_row_def claim_row_def Let_def)
qed

lemma held_not_claimed:
  assumes "outbox_inv ob" and "holds_row ob k w t" and "now \<le> t"
    and "claim_batch now v limit secs agent palace ob = (rows, ob')"
  shows "k \<notin> ob_id ` set rows" and "holds_row ob' k w t"
proof -
  obtain r where r: "dict_get ob k = Some r" "ob_status r = OProcessing" "ob_lease_owner r = Some w"
      "ob_lease_expires_at r = Some t" using assms(2) by (auto simp: holds_row_def split: option.splits)
  have fresh: "\<not> expired_lease now agent r" using r assms(3) by (simp add: expired_lease_def)
  show "k \<notin> ob_id ` set rows"
  proof
    assume "k \<in> ob_id ` set rows"
    then obtain q where "q \<in> set rows" "ob_id q = k" by auto
    then show False using claim_batch_rows(3)[OF assms(1,4), of q] r fresh by (simp add: claimable_row_def)
  qed
  moreover have "ob_id r = k" using outbox_invD(2)[OF assms(1) r(1)] by (simp add: outbox_row_ok_def)
  ultimately show "holds_row ob' k w t"
    using claim_batch_get[OF assms(1,4), of k] r fresh by (simp add: holds_row_def after_expiry_def Let_def)
qed

lemma other_not_owner: "ob_lease_owner r = Some w \<Longrightarrow> v \<noteq> [] \<Longrightarrow> v \<noteq> w \<Longrightarrow> \<not> owned_by (Some v) r"
  by (auto simp: owned_by_def truthy_def)

lemma leaves_lease_step:
  assumes "outbox_inv ob" and "holds_row ob k w t" and "leaves_lease w t a"
  shows "holds_row (outbox_step digest a ob) k w t"
proof -
  obtain r where r: "dict_get ob k = Some r" "ob_status r = OProcessing" "ob_lease_owner r = Some w"
      "ob_lease_expires_at r = Some t" using assms(2) by (auto simp: holds_row_def split: option.splits)
  show ?thesis
  proof (cases a)
    case (OInsert now m)
    then show ?thesis using r by (auto simp: holds_row_def insert_pending_def Let_def map_add_def split: option.split)
  next
    case (OClaim now v limit secs agent palace)
    then show ?thesis using held_not_claimed(2)[OF assms(1,2), of now v limit secs agent palace] assms(3)
      by (metis leaves_lease.simps(2) outbox_step.simps(2) prod.collapse)
  next
    case (OGc now days)
    have "dict_ok ob" using assms(1) by (simp add: outbox_inv_def)
    then have "(k, r) \<in> set ob" using r(1) by (simp add: dict_entries)
    then have "(k, r) \<in> set (snd (gc_committed now days ob))" using r(2) by (simp add: gc_committed_def Let_def)
    moreover have "dict_ok (snd (gc_committed now days ob))"
      using outbox_step_inv[OF assms(1), of digest a] OGc by (simp add: outbox_inv_def)
    ultimately have "dict_get (snd (gc_committed now days ob)) k = Some r" by (simp add: dict_entries)
    then show ?thesis using OGc r by (simp add: holds_row_def)
  qed (use r assms(3) other_not_owner[OF r(3)] in
    \<open>auto simp: holds_row_def mark_committed_def mark_retry_def release_processing_def Let_def\<close>)
qed

lemma leaves_lease_run:
  assumes "outbox_inv ob" and "holds_row ob k w t" and "list_all (leaves_lease w t) ops"
  shows "holds_row (fold (outbox_step digest) ops ob) k w t"
  using assms
proof (induction ops arbitrary: ob)
  case (Cons a ops)
  then show ?case using leaves_lease_step outbox_step_inv by simp
qed simp

text \<open>
  One writer at a time. A row that a claim handed to a writer stays that writer's, whatever others insert, claim,
  commit, give back or collect, until its lease runs out: until then no claim hands it out again, and no other writer
  can commit it or put it back.
\<close>
theorem outbox_claim_exclusive:
  fixes digest before
  defines "ob \<equiv> fold (outbox_step digest) before []"
  assumes "claim_batch now w limit secs agent palace ob = (rows, ob')" and "r \<in> set rows"
    and "list_all (leaves_lease w (now + secs)) ops" and "later \<le> now + secs" and "v \<noteq> []" and "v \<noteq> w"
  shows "holds_row (fold (outbox_step digest) ops ob') (ob_id r) w (now + secs)
    \<and> ob_id r \<notin> ob_id ` set (fst (claim_batch later u limit' secs' agent' palace' (fold (outbox_step digest) ops ob')))
    \<and> fst (mark_committed [ob_id r] (Some v) (fold (outbox_step digest) ops ob')) = 0
    \<and> fst (mark_retry later (ob_id r) e n permanent (Some v) (fold (outbox_step digest) ops ob')) = 0"
proof -
  let ?fin = "fold (outbox_step digest) ops ob'"
  have inv: "outbox_inv ob" unfolding ob_def by (rule outbox.run_inv) (simp add: outbox_inv_def)
  note inv' = claim_batch_inv[OF inv assms(2)]
  note held = leaves_lease_run[OF inv' claim_takes[OF inv assms(2,3)] assms(4), of digest]
  have inv_fin: "outbox_inv ?fin" using inv' by (rule outbox.run_inv)
  have owner: "ob_lease_owner q = Some w" if "(i, q) \<in> set ?fin" "ob_id q = ob_id r" for i q
    using that inv_fin held dict_entries[of ?fin i q]
    by (auto simp: outbox_inv_def list_all_iff outbox_row_ok_def holds_row_def split: option.splits)
  have "count_where (\<lambda>q. ob_id q = ob_id r \<and> owned_by (Some v) q) ?fin = 0"
    using owner other_not_owner[OF _ assms(6,7)] by (auto simp: count_where_def filter_empty_conv)
  then show ?thesis
    using held held_not_claimed(1)[OF inv_fin held assms(5) surjective_pairing]
    by (simp add: mark_committed_def mark_retry_def Let_def)
qed

section \<open>No message is lost\<close>

definition message_of :: "outbox_row \<Rightarrow> outbox_row" where
  "message_of r = r\<lparr>ob_status := OPending, ob_attempts := 0, ob_next_attempt_at := None, ob_last_error := None,
     ob_lease_owner := None, ob_lease_expires_at := None, ob_palace_id := []\<rparr>"

definition keeps_message :: "outbox \<Rightarrow> string \<Rightarrow> outbox_row \<Rightarrow> bool" where
  "keeps_message ob k r \<longleftrightarrow> (case dict_get ob k of None \<Rightarrow> False | Some q \<Rightarrow> message_of q = message_of r)"

definition committed_in :: "outbox \<Rightarrow> string \<Rightarrow> bool" where
  "committed_in ob k \<longleftrightarrow> (case dict_get ob k of None \<Rightarrow> False | Some q \<Rightarrow> ob_status q = OCommitted)"

lemma gc_get:
  assumes "outbox_inv ob"
  shows "dict_get (snd (gc_committed now days ob)) k = (case dict_get ob k of None \<Rightarrow> None | Some r \<Rightarrow>
    if ob_status r = OCommitted \<and> ob_created_at r < now - days * 86400 then None else Some r)"
proof -
  let ?ob = "snd (gc_committed now days ob)"
  have ok: "dict_ok ob" "dict_ok ?ob"
    using assms outbox_step_inv[OF assms, of id "OGc now days"] by (simp_all add: outbox_inv_def)
  have iff: "dict_get ?ob k = Some r \<longleftrightarrow> dict_get ob k = Some r
      \<and> \<not> (ob_status r = OCommitted \<and> ob_created_at r < now - days * 86400)" for r
    unfolding dict_entries[OF ok(1), symmetric] dict_entries[OF ok(2), symmetric]
    by (auto simp: gc_committed_def Let_def)
  show ?thesis
  proof (cases "dict_get ?ob k")
    case None
    then show ?thesis using iff by (auto split: option.split)
  next
    case (Some r)
    then show ?thesis using iff[of r] by auto
  qed
qed

lemma keeps_message_step:
  assumes "outbox_inv ob" and "keeps_message ob k r"
  shows "keeps_message (outbox_step digest a ob) k r \<or> committed_in ob k"
proof -
  obtain q where q: "dict_get ob k = Some q" "message_of q = message_of r"
    using assms(2) by (auto simp: keeps_message_def split: option.splits)
  show ?thesis
  proof (cases a)
    case (OInsert now m)
    then show ?thesis using q by (auto simp: keeps_message_def insert_pending_def Let_def map_add_def split: option.split)
  next
    case (OClaim now v limit secs agent palace)
    obtain rows ob' where c: "claim_batch now v limit secs agent palace ob = (rows, ob')" by fastforce
    then show ?thesis using q claim_batch_get[OF assms(1) c, of k] OClaim
      by (simp add: keeps_message_def message_of_def claim_row_def after_expiry_def back_to_pending_def Let_def)
  next
    case (OGc now days)
    then show ?thesis using q gc_get[OF assms(1), of now days k] by (auto simp: keeps_message_def committed_in_def)
  qed (use q in \<open>auto simp: keeps_message_def mark_committed_def mark_retry_def release_processing_def Let_def
      message_of_def back_to_pending_def\<close>)
qed

text \<open>
  No message is lost. A message that is in the queue stays there, word for word, through any claims, failures, retries,
  abandoned drains and collections, until it has been committed; only a committed row is ever removed.
\<close>
theorem queued_message_kept:
  fixes digest before
  defines "ob \<equiv> fold (outbox_step digest) before []"
  assumes "dict_get ob k = Some r"
  shows "keeps_message (fold (outbox_step digest) ops ob) k r
    \<or> list_ex (\<lambda>n. keeps_message (fold (outbox_step digest) (take n ops) ob) k r
         \<and> committed_in (fold (outbox_step digest) (take n ops) ob) k) [0..<Suc (length ops)]"
proof -
  have "outbox_inv ob" unfolding ob_def by (rule outbox.run_inv) (simp add: outbox_inv_def)
  moreover have "keeps_message ob k r" using assms(2) by (simp add: keeps_message_def)
  ultimately have "keeps_message (fold (outbox_step digest) ops ob) k r
    \<or> (\<exists>n \<le> length ops. keeps_message (fold (outbox_step digest) (take n ops) ob) k r
         \<and> committed_in (fold (outbox_step digest) (take n ops) ob) k)"
  proof (induction ops arbitrary: ob)
    case (Cons a ops)
    show ?case
    proof (cases "committed_in ob k")
      case True
      then show ?thesis using Cons.prems by (intro disjI2 exI[of _ 0]) simp
    next
      case False
      then have "keeps_message (outbox_step digest a ob) k r" using keeps_message_step[OF Cons.prems] by blast
      from Cons.IH[OF outbox_step_inv[OF Cons.prems(1)] this] show ?thesis
        by (auto intro: exI[of _ "Suc n" for n])
    qed
  qed simp
  then show ?thesis by (auto simp: list_ex_iff less_Suc_eq_le simp del: upt_Suc)
qed

section \<open>What is committed is stored\<close>

record memory_system =
  ms_outbox :: outbox
  ms_palace :: palace
  ms_claims :: "(string, outbox_row list) dict" \<comment> \<open>the rows each writer still has in hand\<close>

datatype memory_op =
    MInsert int new_message
  | MClaim memory_writer int
  | MRow memory_writer int upsert_outcome
  | MAbandon memory_writer bool
  | MGc int int

definition in_hand :: "memory_system \<Rightarrow> memory_writer \<Rightarrow> outbox_row list" where
  "in_hand s w = (case dict_get (ms_claims s) (mw_lease_owner w) of None \<Rightarrow> [] | Some rs \<Rightarrow> rs)"

definition put_in_hand :: "memory_writer \<Rightarrow> outbox_row list \<Rightarrow> memory_system \<Rightarrow> memory_system" where
  "put_in_hand w rs s = s\<lparr>ms_claims := dict_set (mw_lease_owner w) rs (ms_claims s)\<rparr>"

fun memory_step :: "(string \<Rightarrow> string) \<Rightarrow> (int \<Rightarrow> string) \<Rightarrow> memory_op \<Rightarrow> memory_system \<Rightarrow> memory_system" where
  \<comment> \<open>the await points of \<open>flush_once\<close> and \<open>drain\<close>: claims, single rows and time-outs of several writers interleave\<close>
  "memory_step digest stamp (MInsert now m) s = s\<lparr>ms_outbox := snd (insert_pending digest now None m (ms_outbox s))\<rparr>"
| "memory_step digest stamp (MClaim w now) s =
     (if in_hand s w \<noteq> [] then s
      else case claim_batch now (mw_lease_owner w) batch_limit lease_seconds_default (mw_agent_id w) (mw_palace_id w) (ms_outbox s) of
             (rows, ob) \<Rightarrow> put_in_hand w rows (s\<lparr>ms_outbox := ob\<rparr>))"
| "memory_step digest stamp (MRow w now outcome) s =
     (case in_hand s w of
        [] \<Rightarrow> s
      | r # rs \<Rightarrow> (case commit_row stamp w now outcome r (ms_outbox s, ms_palace s) of
          (_, ob, pal) \<Rightarrow> put_in_hand w rs (s\<lparr>ms_outbox := ob, ms_palace := pal\<rparr>)))"
| "memory_step digest stamp (MAbandon w late) s =
     put_in_hand w [] (s\<lparr>ms_outbox := snd (release_processing (mw_lease_owner w) (ms_outbox s)),
       ms_palace := (case in_hand s w of [] \<Rightarrow> ms_palace s | r # rs \<Rightarrow> if late then upsert_one stamp r (ms_palace s) else ms_palace s)\<rparr>)"
| "memory_step digest stamp (MGc now days) s = s\<lparr>ms_outbox := snd (gc_committed now days (ms_outbox s))\<rparr>"

definition drawer_text :: "outbox_row \<Rightarrow> string" where
  "drawer_text r = (case ob_content r of None \<Rightarrow> [] | Some c \<Rightarrow> c)"

fun insert_agrees :: "(string \<Rightarrow> string) \<Rightarrow> (string \<Rightarrow> string) \<Rightarrow> memory_op \<Rightarrow> bool" where
  "insert_agrees digest content (MInsert now m) \<longleftrightarrow> nm_content m = content (new_message_id digest m)"
| "insert_agrees digest content a \<longleftrightarrow> True"

definition memory_inv :: "(string \<Rightarrow> string) \<Rightarrow> memory_system \<Rightarrow> bool" where
  "memory_inv content s \<longleftrightarrow> outbox_inv (ms_outbox s)
     \<and> (\<forall>k r. dict_get (ms_outbox s) k = Some r \<longrightarrow> drawer_text r = content k)
     \<and> (\<forall>w. \<forall>r\<in>set (in_hand s w). drawer_text r = content (ob_id r))
     \<and> (\<forall>k d. dict_get (ms_palace s) k = Some d \<longrightarrow> fst d = content k)
     \<and> (\<forall>k r. dict_get (ms_outbox s) k = Some r \<longrightarrow> ob_status r = OCommitted \<longrightarrow> dict_get (ms_palace s) k \<noteq> None)"

lemma in_hand_put [simp]:
  "in_hand (put_in_hand w rs s) v = (if mw_lease_owner v = mw_lease_owner w then rs else in_hand s v)"
  "ms_outbox (put_in_hand w rs s) = ms_outbox s" "ms_palace (put_in_hand w rs s) = ms_palace s"
  by (simp_all add: in_hand_def put_in_hand_def)

lemma in_hand_cong [simp]:
  "in_hand (s\<lparr>ms_outbox := ob\<rparr>) w = in_hand s w" "in_hand (s\<lparr>ms_palace := pal\<rparr>) w = in_hand s w"
  by (simp_all add: in_hand_def)

text \<open>
  What a step may do to the table: a row was there before with the same text, and it is committed only if it was
  before or its drawer is in the palace; or it is new.
\<close>

lemma memory_invI:
  assumes "memory_inv content s" and "outbox_inv ob"
    and "\<And>k r. dict_get ob k = Some r \<Longrightarrow>
        (\<exists>q. dict_get (ms_outbox s) k = Some q \<and> drawer_text r = drawer_text q
           \<and> (ob_status r = OCommitted \<longrightarrow> ob_status q = OCommitted \<or> dict_get pal k \<noteq> None))
        \<or> drawer_text r = content k \<and> ob_status r \<noteq> OCommitted"
    and "\<And>k d. dict_get pal k = Some d \<Longrightarrow> fst d = content k"
    and "\<And>k. dict_get (ms_palace s) k \<noteq> None \<Longrightarrow> dict_get pal k \<noteq> None"
    and "\<And>r. r \<in> set rs \<Longrightarrow> drawer_text r = content (ob_id r)"
  shows "memory_inv content (put_in_hand w rs (s\<lparr>ms_outbox := ob, ms_palace := pal\<rparr>))"
    and "memory_inv content (s\<lparr>ms_outbox := ob, ms_palace := pal\<rparr>)"
proof -
  have "drawer_text r = content k" "ob_status r = OCommitted \<Longrightarrow> dict_get pal k \<noteq> None"
    if "dict_get ob k = Some r" for k r
    using assms(1) assms(3)[OF that] assms(5) by (auto simp: memory_inv_def)
  then show "memory_inv content (put_in_hand w rs (s\<lparr>ms_outbox := ob, ms_palace := pal\<rparr>))"
    and "memory_inv content (s\<lparr>ms_outbox := ob, ms_palace := pal\<rparr>)"
    using assms(1,2,4,6) by (auto simp: memory_inv_def)
qed

lemma memory_invD:
  assumes "memory_inv content s"
  shows "outbox_inv (ms_outbox s)" and "dict_get (ms_outbox s) k = Some r \<Longrightarrow> drawer_text r = content k"
    and "r' \<in> set (in_hand s w) \<Longrightarrow> drawer_text r' = content (ob_id r')"
    and "dict_get (ms_palace s) k = Some d \<Longrightarrow> fst d = content k"
  using assms unfolding memory_inv_def by blast+

lemma upsert_get [simp]:
  "dict_get (upsert_one stamp r pal) k
    = (if k = ob_id r then Some (drawer_text r, drawer_metadata stamp r) else dict_get pal k)"
  by (simp add: upsert_one_def drawer_text_def)

lemma drawer_text_simps [simp]:
  "drawer_text (back_to_pending r) = drawer_text r" "drawer_text (claim_row w e p r) = drawer_text r"
  "drawer_text (after_expiry now agent r) = drawer_text r"
  by (simp_all add: drawer_text_def back_to_pending_def claim_row_def after_expiry_def)

lemma drawer_text_settled [simp]:
  "drawer_text (r\<lparr>ob_status := st, ob_lease_owner := l, ob_lease_expires_at := x, ob_last_error := e,
     ob_next_attempt_at := n\<rparr>) = drawer_text r"
  "drawer_text (r\<lparr>ob_status := st, ob_last_error := e, ob_next_attempt_at := n, ob_lease_owner := l,
     ob_lease_expires_at := x\<rparr>) = drawer_text r"
  "ob_status (back_to_pending r) = OPending"
  by (simp_all add: drawer_text_def back_to_pending_def)

lemma claimed_status:
  "ob_status (claim_row w e p r) \<noteq> OCommitted" "ob_status (after_expiry now agent r) = OCommitted \<Longrightarrow> ob_status r = OCommitted"
  by (auto simp: claim_row_def after_expiry_def back_to_pending_def split: if_splits)

lemma dict_get_snoc: "dict_get d k = None \<Longrightarrow> dict_get (d @ [(k, v)]) j = (if j = k then Some v else dict_get d j)"
  by (auto simp: map_add_def split: option.split)

lemma memory_claim_inv:
  assumes "memory_inv content s"
  shows "memory_inv content (memory_step digest stamp (MClaim w now) s)"
proof -
  obtain rows ob where c: "claim_batch now (mw_lease_owner w) batch_limit lease_seconds_default (mw_agent_id w)
      (mw_palace_id w) (ms_outbox s) = (rows, ob)" by fastforce
  note inv = memory_invD[OF assms]
  have "memory_inv content (put_in_hand w rows (s\<lparr>ms_outbox := ob, ms_palace := ms_palace s\<rparr>))"
  proof (rule memory_invI(1)[OF assms claim_batch_inv[OF inv(1) c]])
    fix r assume "r \<in> set rows"
    then show "drawer_text r = content (ob_id r)"
      using claim_batch_rows(3)[OF inv(1) c, of r] inv(2) by (auto split: if_splits)
  next
    fix k r assume "dict_get ob k = Some r"
    then show "(\<exists>q. dict_get (ms_outbox s) k = Some q \<and> drawer_text r = drawer_text q
          \<and> (ob_status r = OCommitted \<longrightarrow> ob_status q = OCommitted \<or> dict_get (ms_palace s) k \<noteq> None))
        \<or> drawer_text r = content k \<and> ob_status r \<noteq> OCommitted"
      using claim_batch_get[OF inv(1) c, of k] claimed_status
      by (cases "dict_get (ms_outbox s) k") (auto simp: Let_def split: if_splits)
  qed (use inv(4) in auto)
  then show ?thesis using assms c by simp
qed

lemma memory_row_inv:
  assumes "memory_inv content s"
  shows "memory_inv content (memory_step digest stamp (MRow w now outcome) s)"
proof (cases "in_hand s w")
  case Nil
  then show ?thesis using assms by simp
next
  case (Cons r rs)
  note inv = memory_invD[OF assms]
  have words: "drawer_text r = content (ob_id r)" "\<And>q. q \<in> set rs \<Longrightarrow> drawer_text q = content (ob_id q)"
    using inv(3)[of _ w] Cons by auto
  have ob: "outbox_inv (snd (mark_committed [ob_id r] (Some (mw_lease_owner w)) (ms_outbox s)))"
    "outbox_inv (snd (mark_retry now (ob_id r) e n p (Some (mw_lease_owner w)) (ms_outbox s)))" for e n p
    using outbox_step_inv[OF inv(1), of digest "OCommit [ob_id r] (mw_lease_owner w)"]
      outbox_step_inv[OF inv(1), of digest "ORetry now (ob_id r) e n p (mw_lease_owner w)"] by simp_all
  have id: "ob_id q = k" if "dict_get (ms_outbox s) k = Some q" for k q
    using outbox_invD(2)[OF inv(1) that] by (simp add: outbox_row_ok_def)
  show ?thesis
  proof (cases outcome)
    case None
    have "memory_inv content (put_in_hand w rs (s\<lparr>ms_outbox := snd (mark_committed [ob_id r] (Some (mw_lease_owner w)) (ms_outbox s)),
        ms_palace := upsert_one stamp r (ms_palace s)\<rparr>))"
      by (rule memory_invI(1)[OF assms ob(1)])
        (use words id in \<open>auto simp: mark_committed_def Let_def dest: inv(4) split: if_splits\<close>)
    then show ?thesis using Cons None by (simp add: commit_row_def)
  next
    case (Some e)
    have "memory_inv content (put_in_hand w rs (s\<lparr>ms_outbox := snd (mark_retry now (ob_id r) e (ob_attempts r + 1)
        (Some (is_permanent_error e)) (Some (mw_lease_owner w)) (ms_outbox s)), ms_palace := ms_palace s\<rparr>))"
      by (rule memory_invI(1)[OF assms ob(2)])
        (use words in \<open>auto simp: mark_retry_def Let_def dest: inv(4) split: if_splits\<close>)
    then show ?thesis using Cons Some by (simp add: commit_row_def)
  qed
qed

lemma memory_step_inv:
  assumes "memory_inv content s" and "insert_agrees digest content a"
  shows "memory_inv content (memory_step digest stamp a s)"
proof (cases a)
  case (MInsert now m)
  note inv = memory_invD[OF assms(1)]
  have "memory_inv content (s\<lparr>ms_outbox := snd (insert_pending digest now None m (ms_outbox s)), ms_palace := ms_palace s\<rparr>)"
    by (rule memory_invI(2)[OF assms(1) insert_pending_inv[OF inv(1)], where rs = "[]"])
      (use assms(2) MInsert in \<open>auto simp: insert_pending_def Let_def pending_row_def drawer_text_def dict_get_snoc
        dest: inv(4) split: option.splits if_splits\<close>)
  then show ?thesis using MInsert by simp
next
  case (MAbandon w late)
  note inv = memory_invD[OF assms(1)]
  let ?pal = "case in_hand s w of [] \<Rightarrow> ms_palace s | r # rs \<Rightarrow> if late then upsert_one stamp r (ms_palace s) else ms_palace s"
  have "outbox_inv (snd (release_processing (mw_lease_owner w) (ms_outbox s)))"
    using outbox_step_inv[OF inv(1), of digest "ORelease (mw_lease_owner w)"] by simp
  then have "memory_inv content (put_in_hand w [] (s\<lparr>ms_outbox := snd (release_processing (mw_lease_owner w) (ms_outbox s)), ms_palace := ?pal\<rparr>))"
    by (rule memory_invI(1)[OF assms(1)])
      (use inv(3)[of "hd (in_hand s w)" w] in \<open>auto simp: release_processing_def Let_def dest: inv(4)
        split: list.splits if_splits\<close>)
  then show ?thesis using MAbandon by simp
next
  case (MGc now days)
  note inv = memory_invD[OF assms(1)]
  have "outbox_inv (snd (gc_committed now days (ms_outbox s)))"
    using outbox_step_inv[OF inv(1), of digest "OGc now days"] by simp
  then have "memory_inv content (s\<lparr>ms_outbox := snd (gc_committed now days (ms_outbox s)), ms_palace := ms_palace s\<rparr>)"
    by (rule memory_invI(2)[OF assms(1), where rs = "[]"])
      (auto simp: gc_get[OF inv(1)] dest: inv(4) split: option.splits if_splits)
  then show ?thesis using MGc by simp
qed (use assms memory_claim_inv memory_row_inv in simp_all)

definition fresh_memory :: memory_system where
  "fresh_memory = \<lparr>ms_outbox = [], ms_palace = [], ms_claims = []\<rparr>"

text \<open>
  C30: what is committed is stored. As long as a message id stands for one text, then under any interleaving of insertions,
  several writers' claims, their single rows, failures, time-outs with late writes and collections, every row that is
  marked committed has its drawer in the palace, and every drawer holds the text its id stands for.
\<close>
theorem committed_is_stored:
  fixes digest stamp ops
  defines "s \<equiv> fold (memory_step digest stamp) ops fresh_memory"
  assumes "list_all (insert_agrees digest content) ops" and "dict_get (ms_outbox s) k = Some r" and "ob_status r = OCommitted"
  shows "map_option fst (dict_get (ms_palace s) k) = Some (drawer_text r) \<and> drawer_text r = content k"
proof -
  have "memory_inv content (fold (memory_step digest stamp) ops s0)" if "memory_inv content s0" for s0
    using that assms(2) by (induction ops arbitrary: s0) (simp_all add: memory_step_inv)
  moreover have "memory_inv content fresh_memory"
    by (simp add: memory_inv_def fresh_memory_def outbox_inv_def in_hand_def)
  ultimately have "memory_inv content s" by (simp add: s_def)
  then show ?thesis using assms(3,4) by (fastforce simp: memory_inv_def)
qed

section \<open>Draining\<close>

definition due_row :: "memory_writer \<Rightarrow> int \<Rightarrow> outbox_row \<Rightarrow> bool" where
  "due_row w now r = claimable_row now (mw_agent_id w) (mw_palace_id w) (after_expiry now (mw_agent_id w) r)"

definition due_rows :: "memory_writer \<Rightarrow> int \<Rightarrow> outbox \<Rightarrow> outbox_row list" where
  "due_rows w now ob = filter (due_row w now) (map snd ob)"

lemma due_rows_iff:
  assumes "outbox_inv ob"
  shows "k \<in> ob_id ` set (due_rows w now ob) \<longleftrightarrow> (\<exists>r. dict_get ob k = Some r \<and> due_row w now r)"
proof -
  have id: "ob_id r = i" if "(i, r) \<in> set ob" for i r
    using assms that by (auto simp: outbox_inv_def list_all_iff outbox_row_ok_def)
  have "k \<in> ob_id ` set (due_rows w now ob) \<longleftrightarrow> (\<exists>r. (k, r) \<in> set ob \<and> due_row w now r)"
  proof
    assume "k \<in> ob_id ` set (due_rows w now ob)"
    then obtain i r where "(i, r) \<in> set ob" "due_row w now r" "k = ob_id r" by (auto simp: due_rows_def)
    then show "\<exists>r. (k, r) \<in> set ob \<and> due_row w now r" using id by blast
  next
    assume "\<exists>r. (k, r) \<in> set ob \<and> due_row w now r"
    then obtain r where r: "(k, r) \<in> set ob" "due_row w now r" by blast
    then have "r \<in> set (due_rows w now ob)" by (force simp: due_rows_def)
    then show "k \<in> ob_id ` set (due_rows w now ob)" using id[OF r(1)] by blast
  qed
  then show ?thesis using assms by (simp add: dict_entries outbox_inv_def)
qed

lemma length_due_rows:
  assumes "outbox_inv ob"
  shows "length (due_rows w now ob) = card (ob_id ` set (due_rows w now ob))"
proof -
  have "map ob_id (map snd ob) = map fst ob"
    using assms by (auto simp: outbox_inv_def outbox_row_ok_def list_all_iff)
  then have "distinct (map ob_id (map snd ob))" using assms by (metis outbox_inv_def dict_ok_def)
  then have "distinct (map ob_id (due_rows w now ob))" unfolding due_rows_def by (rule distinct_map_filter)
  then show ?thesis by (metis distinct_card length_map list.set_map)
qed

lemma after_expiry_idem [simp]: "after_expiry now agent (after_expiry now agent r) = after_expiry now agent r"
proof -
  have "\<not> expired_lease now agent (back_to_pending r)" by (simp add: expired_lease_def back_to_pending_def)
  then show ?thesis by (simp add: after_expiry_def)
qed

lemma claim_due:
  assumes "outbox_inv ob"
    and "claim_batch now (mw_lease_owner w) limit secs (mw_agent_id w) (mw_palace_id w) ob = (rows, ob')"
  shows "ob_id ` set rows \<subseteq> ob_id ` set (due_rows w now ob)"
    and "length rows = min limit (length (due_rows w now ob))"
proof -
  let ?agent = "mw_agent_id w"
  show "ob_id ` set rows \<subseteq> ob_id ` set (due_rows w now ob)"
  proof (rule subsetI)
    fix k assume "k \<in> ob_id ` set rows"
    then obtain r where "r \<in> set rows" "k = ob_id r" by auto
    then show "k \<in> ob_id ` set (due_rows w now ob)"
      using claim_batch_rows(3)[OF assms, of r] unfolding due_rows_iff[OF assms(1)]
      by (auto simp: due_row_def after_expiry_def split: if_splits)
  qed
  have "map snd (update_where (expired_lease now ?agent) back_to_pending ob) = map (after_expiry now ?agent) (map snd ob)"
    by (auto simp: update_where_def after_expiry_def)
  then have "rows = take limit (sort_key ob_created_at
      (filter (claimable_row now ?agent (mw_palace_id w)) (map (after_expiry now ?agent) (map snd ob))))"
    using assms(2) by (simp add: claim_batch_def Let_def del: map_map)
  then show "length rows = min limit (length (due_rows w now ob))"
    by (simp add: due_rows_def filter_map due_row_def comp_def min.commute)
qed

lemma commit_rows_success:
  assumes "outbox_inv ob" and "commit_rows stamp w now (\<lambda>_. None) rows (ob, pal) = (n, ob', pal')"
  shows "n = length rows" and "outbox_inv ob'"
    and "k \<notin> ob_id ` set rows \<Longrightarrow> dict_get ob' k = dict_get ob k"
    and "dict_get ob k = Some r \<Longrightarrow>
      ob_status r = OCommitted \<or> k \<in> ob_id ` set rows \<and> ob_lease_owner r = Some (mw_lease_owner w) \<Longrightarrow> committed_in ob' k"
proof -
  have "n = length rows \<and> outbox_inv ob' \<and> (k \<notin> ob_id ` set rows \<longrightarrow> dict_get ob' k = dict_get ob k)
    \<and> (\<forall>r. dict_get ob k = Some r \<longrightarrow> ob_status r = OCommitted
        \<or> k \<in> ob_id ` set rows \<and> ob_lease_owner r = Some (mw_lease_owner w) \<longrightarrow> committed_in ob' k)"
    using assms
  proof (induction rows arbitrary: ob pal n)
    case Nil
    then show ?case by (auto simp: committed_in_def)
  next
    case (Cons x rows)
    let ?ob = "snd (mark_committed [ob_id x] (Some (mw_lease_owner w)) ob)"
    have inv: "outbox_inv ?ob"
      using outbox_step_inv[OF Cons.prems(1), of undefined "OCommit [ob_id x] (mw_lease_owner w)"] by simp
    obtain m where rest: "commit_rows stamp w now (\<lambda>_. None) rows (?ob, upsert_one stamp x pal) = (m, ob', pal')"
      and n: "n = Suc m" using Cons.prems(2) by (auto simp: commit_row_def split: prod.splits)
    have id: "ob_id r = k" if "dict_get ob k = Some r" for r
      using outbox_invD(2)[OF Cons.prems(1) that] by (simp add: outbox_row_ok_def)
    have "dict_get ?ob k = map_option (\<lambda>r. if k = ob_id x \<and> owned_by (Some (mw_lease_owner w)) r
        then r\<lparr>ob_status := OCommitted, ob_lease_owner := None, ob_lease_expires_at := None,
                ob_last_error := None, ob_next_attempt_at := None\<rparr> else r) (dict_get ob k)"
      using id by (cases "dict_get ob k") (auto simp: mark_committed_def Let_def)
    note get = this and IH = Cons.IH[OF inv rest]
    show ?case
    proof (cases "dict_get ob k")
      case None
      then show ?thesis using IH get n by (auto split: if_splits)
    next
      case (Some r)
      consider (own) "k = ob_id x" "owned_by (Some (mw_lease_owner w)) r" | (skip) "k = ob_id x"
          "\<not> owned_by (Some (mw_lease_owner w)) r" | (other) "k \<noteq> ob_id x" by blast
      then show ?thesis
      proof cases
        case own
        then show ?thesis using IH get Some n by auto
      next
        case skip
        then show ?thesis using IH get Some n by (auto simp: owned_by_def split: if_splits)
      next
        case other
        then show ?thesis using IH get Some n by auto
      qed
    qed
  qed
  then show "n = length rows" and "outbox_inv ob'" and "k \<notin> ob_id ` set rows \<Longrightarrow> dict_get ob' k = dict_get ob k"
    and "dict_get ob k = Some r \<Longrightarrow> ob_status r = OCommitted \<or> k \<in> ob_id ` set rows \<and> ob_lease_owner r = Some (mw_lease_owner w)
      \<Longrightarrow> committed_in ob' k"
    by blast+
qed

lemma flush_success:
  assumes "outbox_inv ob" and "flush_once stamp w now (\<lambda>_. None) (ob, pal) = (n, ob', pal')"
  shows "n = min batch_limit (length (due_rows w now ob))" and "outbox_inv ob'"
    and "length (due_rows w now ob') = length (due_rows w now ob) - n"
    and "k \<in> ob_id ` set (due_rows w now ob) \<Longrightarrow> committed_in ob' k \<or> k \<in> ob_id ` set (due_rows w now ob')"
    and "committed_in ob k \<Longrightarrow> committed_in ob' k"
proof -
  let ?agent = "mw_agent_id w"
  obtain rows ob1 where c: "claim_batch now (mw_lease_owner w) batch_limit lease_seconds_default ?agent (mw_palace_id w) ob
      = (rows, ob1)" by fastforce
  note inv1 = claim_batch_inv[OF assms(1) c] and get1 = claim_batch_get[OF assms(1) c]
  have run: "commit_rows stamp w now (\<lambda>_. None) rows (ob1, pal) = (n, ob', pal')"
    using assms(2) c by (auto simp: flush_once_def split: if_splits)
  note fin = commit_rows_success[OF inv1 run] and due = claim_due[OF assms(1) c]
  show n: "n = min batch_limit (length (due_rows w now ob))" using fin(1) due(2) by simp
  show inv: "outbox_inv ob'" by (rule fin(2))
  have id: "ob_id r = k" if "dict_get ob k = Some r" for r k
    using outbox_invD(2)[OF assms(1) that] by (simp add: outbox_row_ok_def)
  have other: "dict_get ob' k = map_option (after_expiry now ?agent) (dict_get ob k)" if "k \<notin> ob_id ` set rows" for k
    using that fin(3)[OF that] get1[of k] id[of k] by (cases "dict_get ob k") (auto simp: Let_def)
  have own: "committed_in ob' k" if k: "k \<in> ob_id ` set rows" for k
  proof -
    obtain r where r: "dict_get ob k = Some r" using k due(1) due_rows_iff[OF assms(1)] by blast
    then show ?thesis using get1[of k] k id[OF r] by (intro fin(4)) (auto simp: Let_def claim_row_def)
  qed
  have due': "ob_id ` set (due_rows w now ob') = ob_id ` set (due_rows w now ob) - ob_id ` set rows"
  proof (rule set_eqI)
    fix k
    show "k \<in> ob_id ` set (due_rows w now ob') \<longleftrightarrow> k \<in> ob_id ` set (due_rows w now ob) - ob_id ` set rows"
    proof (cases "k \<in> ob_id ` set rows")
      case True
      then show ?thesis using own[OF True] due_rows_iff[OF inv, of k]
        by (auto simp: committed_in_def due_row_def claimable_row_def after_expiry_def expired_lease_def split: option.splits)
    next
      case False
      then show ?thesis using other[OF False]
        by (auto simp: due_rows_iff[OF inv] due_rows_iff[OF assms(1)] due_row_def)
    qed
  qed
  have "card (ob_id ` set rows) = n"
    using claim_batch_rows(1)[OF assms(1) c] fin(1) by (metis distinct_card length_map list.set_map)
  then show "length (due_rows w now ob') = length (due_rows w now ob) - n"
    using due(1) unfolding length_due_rows[OF inv] length_due_rows[OF assms(1)] due' by (simp add: card_Diff_subset)
  show "k \<in> ob_id ` set (due_rows w now ob) \<Longrightarrow> committed_in ob' k \<or> k \<in> ob_id ` set (due_rows w now ob')"
    using own due' by blast
  show "committed_in ob k \<Longrightarrow> committed_in ob' k"
    using own[of k] other[of k]
    by (cases "k \<in> ob_id ` set rows") (auto simp: committed_in_def after_expiry_def expired_lease_def split: option.splits)
qed

lemma drain_success:
  assumes "outbox_inv ob" and "length (due_rows w now ob) \<le> batch_limit * m"
    and "drain stamp w (replicate m (FlushDone now (\<lambda>_. None))) (ob, pal) = (n, ob', pal')"
  shows "n = length (due_rows w now ob) \<and> due_rows w now ob' = [] \<and> outbox_inv ob'
    \<and> (\<forall>k. k \<in> ob_id ` set (due_rows w now ob) \<or> committed_in ob k \<longrightarrow> committed_in ob' k)"
  using assms
proof (induction m arbitrary: ob pal n)
  case (Suc m)
  obtain j ob1 pal1 where f: "flush_once stamp w now (\<lambda>_. None) (ob, pal) = (j, ob1, pal1)" by (metis prod_cases3)
  note flush = flush_success[OF Suc.prems(1) f]
  show ?case
  proof (cases "j = 0")
    case True
    then have "due_rows w now ob = []" using flush(1) by (auto simp: batch_limit_def min_def split: if_splits)
    then show ?thesis using Suc.prems(3) f True flush by auto
  next
    case False
    then obtain i where d: "drain stamp w (replicate m (FlushDone now (\<lambda>_. None))) (ob1, pal1) = (i, ob', pal')"
      and n: "n = j + i" using Suc.prems(3) f by (auto split: prod.splits)
    have "length (due_rows w now ob1) \<le> batch_limit * m" using flush(1,3) Suc.prems(2) by auto
    from Suc.IH[OF flush(2) this d] show ?thesis using flush n by auto
  qed
qed auto

text \<open>
  C40: draining gets everything done. When the palace takes every write, a drain that has time for one flush per sixteen due rows, rounded
  up, ends with no row left that is due, has committed every row that was, and reports their exact number.
\<close>
theorem drain_completes:
  fixes digest before
  defines "ob \<equiv> fold (outbox_step digest) before []"
  assumes "length (due_rows w now ob) \<le> batch_limit * m"
    and "drain stamp w (replicate m (FlushDone now (\<lambda>_. None))) (ob, pal) = (n, ob', pal')"
  shows "n = length (due_rows w now ob)
    \<and> fst (claim_batch now (mw_lease_owner w) batch_limit lease_seconds_default (mw_agent_id w) (mw_palace_id w) ob') = []
    \<and> list_all (\<lambda>r. committed_in ob' (ob_id r)) (due_rows w now ob)"
proof -
  have "outbox_inv ob" unfolding ob_def by (rule outbox.run_inv) (simp add: outbox_inv_def)
  from drain_success[OF this assms(2,3)] show ?thesis
    using claim_due(2)[OF _ surjective_pairing, of ob' now w batch_limit lease_seconds_default]
    by (auto simp: list_all_iff)
qed

section \<open>Samples\<close>

definition sample_message :: "string \<Rightarrow> new_message" where
  "sample_message i = \<lparr>nm_agent_id = ''a'', nm_thread_id = ''t'', nm_turn_id = ''u'', nm_message_id = i,
     nm_role = ''user'', nm_content = ''hello'', nm_workspace_id = None, nm_wing = ''main'', nm_room = ''r'',
     nm_traceparent = None, nm_palace_id = []\<rparr>"

definition sample_writer :: "string \<Rightarrow> memory_writer" where
  "sample_writer owner = \<lparr>mw_agent_id = ''a'', mw_palace_id = ''p'', mw_lease_owner = owner\<rparr>"

definition sample_outbox :: outbox where
  "sample_outbox = fold (outbox_step (\<lambda>s. s)) [OInsert 10 (sample_message ''1''), OInsert 11 (sample_message ''2'')] []"

theorem outbox_claim_exclusive_witness:
  "fst (claim_batch 40 ''y'' 16 30 ''a'' ''p'' (fold (outbox_step (\<lambda>s. s)) [OGc 30 7]
       (snd (claim_batch 20 ''x'' 1 30 ''a'' ''p'' sample_outbox)))) \<noteq> []
   \<and> ob_id (hd (fst (claim_batch 20 ''x'' 1 30 ''a'' ''p'' sample_outbox)))
     \<notin> ob_id ` set (fst (claim_batch 40 ''y'' 16 30 ''a'' ''p'' (fold (outbox_step (\<lambda>s. s)) [OGc 30 7]
       (snd (claim_batch 20 ''x'' 1 30 ''a'' ''p'' sample_outbox)))))"
proof
  let ?c = "claim_batch 20 ''x'' 1 30 ''a'' ''p'' sample_outbox"
  have "hd (fst ?c) \<in> set (fst ?c)" by code_simp
  from outbox_claim_exclusive[OF surjective_pairing this[unfolded sample_outbox_def], where ops = "[OGc 30 7]" and v = "''y''"]
  show "ob_id (hd (fst ?c)) \<notin> ob_id ` set (fst (claim_batch 40 ''y'' 16 30 ''a'' ''p''
      (fold (outbox_step (\<lambda>s. s)) [OGc 30 7] (snd ?c))))"
    unfolding sample_outbox_def by (simp del: fold.simps)
qed code_simp

theorem queued_message_kept_witness:
  "keeps_message (fold (outbox_step (\<lambda>s. s)) [OClaim 20 ''x'' 16 30 ''a'' ''p'', ORelease ''x''] sample_outbox)
     (fst (hd sample_outbox)) (snd (hd sample_outbox))"
proof -
  have "dict_get sample_outbox (fst (hd sample_outbox)) = Some (snd (hd sample_outbox))" by code_simp
  from queued_message_kept[OF this[unfolded sample_outbox_def], where ops = "[OClaim 20 ''x'' 16 30 ''a'' ''p'', ORelease ''x'']"]
  have "?thesis \<or> list_ex (\<lambda>n. keeps_message (fold (outbox_step (\<lambda>s. s))
        (take n [OClaim 20 ''x'' 16 30 ''a'' ''p'', ORelease ''x'']) sample_outbox) (fst (hd sample_outbox)) (snd (hd sample_outbox))
      \<and> committed_in (fold (outbox_step (\<lambda>s. s)) (take n [OClaim 20 ''x'' 16 30 ''a'' ''p'', ORelease ''x'']) sample_outbox)
          (fst (hd sample_outbox))) [0..<Suc 2]"
    unfolding sample_outbox_def by (simp only: list.size add_0 add_0_right One_nat_def numeral_2_eq_2 add_Suc_right)
  moreover have "\<not> list_ex (\<lambda>n. keeps_message (fold (outbox_step (\<lambda>s. s))
        (take n [OClaim 20 ''x'' 16 30 ''a'' ''p'', ORelease ''x'']) sample_outbox) (fst (hd sample_outbox)) (snd (hd sample_outbox))
      \<and> committed_in (fold (outbox_step (\<lambda>s. s)) (take n [OClaim 20 ''x'' 16 30 ''a'' ''p'', ORelease ''x'']) sample_outbox)
          (fst (hd sample_outbox))) [0..<Suc 2]" by code_simp
  ultimately show ?thesis by blast
qed

theorem committed_is_stored_witness:
  "map_option fst (dict_get (ms_palace (fold (memory_step (\<lambda>s. s) (\<lambda>_. ''now''))
     [MInsert 10 (sample_message ''1''), MClaim (sample_writer ''x'') 20, MRow (sample_writer ''x'') 21 None] fresh_memory))
     (new_message_id (\<lambda>s. s) (sample_message ''1''))) = Some ''hello''"
proof -
  let ?s = "fold (memory_step (\<lambda>s. s) (\<lambda>_. ''now''))
     [MInsert 10 (sample_message ''1''), MClaim (sample_writer ''x'') 20, MRow (sample_writer ''x'') 21 None] fresh_memory"
  let ?k = "new_message_id (\<lambda>s. s) (sample_message ''1'')"
  let ?r = "the (dict_get (ms_outbox ?s) ?k)"
  have "list_all (insert_agrees (\<lambda>s. s) (\<lambda>_. ''hello''))
      [MInsert 10 (sample_message ''1''), MClaim (sample_writer ''x'') 20, MRow (sample_writer ''x'') 21 None]" by code_simp
  moreover have "dict_get (ms_outbox ?s) ?k = Some ?r" by code_simp
  moreover have "ob_status ?r = OCommitted" by code_simp
  ultimately have "map_option fst (dict_get (ms_palace ?s) ?k) = Some (drawer_text ?r) \<and> drawer_text ?r = ''hello''"
    by (rule committed_is_stored)
  then show ?thesis by (simp only:)
qed

theorem drain_completes_witness:
  "fst (drain (\<lambda>_. ''now'') (sample_writer ''x'') (replicate 1 (FlushDone 20 (\<lambda>_. None))) (sample_outbox, [])) = 2"
proof -
  let ?d = "drain (\<lambda>_. ''now'') (sample_writer ''x'') (replicate 1 (FlushDone 20 (\<lambda>_. None))) (sample_outbox, [])"
  have "length (due_rows (sample_writer ''x'') 20 sample_outbox) \<le> batch_limit * 1" by code_simp
  moreover have "?d = (fst ?d, fst (snd ?d), snd (snd ?d))" by (simp only: prod.collapse)
  ultimately have "fst ?d = length (due_rows (sample_writer ''x'') 20 sample_outbox)"
    unfolding sample_outbox_def by (rule conjunct1[OF drain_completes])
  also have "\<dots> = 2" by code_simp
  finally show ?thesis .
qed

text \<open>
  A flush that commits nothing ends the drain even when rows are still due: sixteen messages that the palace refuses
  keep the seventeenth from being tried, with time left and nothing wrong with it.
\<close>

definition crowded_outbox :: outbox where
  "crowded_outbox = fold (outbox_step (\<lambda>s. s)) (map (\<lambda>n. OInsert (int n) (sample_message (str_of_nat n))) [1..<18]) []"

lemma drain_stops_early:
  defines "refuse \<equiv> (\<lambda>r. if ob_message_id r = ''17'' then None else Some ''RuntimeError'')"
  shows "map ob_message_id (due_rows (sample_writer ''x'') 20
    (fst (snd (drain (\<lambda>_. ''now'') (sample_writer ''x'') [FlushDone 20 refuse, FlushDone 20 refuse] (crowded_outbox, []))))) = [''17'']"
  unfolding refuse_def by code_simp

end
