(* ===== verification/Goal_Ledger.thy ===== *)
theory Goal_Ledger
  imports Json
begin

text \<open>
  \<open>core/persistence/goal_ledger.py\<close> and the parts of \<open>core/verifier/ledger.py\<close> that work on rows: what the user has asked
  for, message by message, each classified by a model, and the view of goals and constraints that follows from it. The table is
  the list of its rows in the order of insertion, across threads; each store call is one transaction. A JSON column is the
  value it holds, or nothing when its text does not parse. Fresh ids and clock reads are arguments. The model's answer is an argument.
  Shown: unless rows were pruned, dropping the end of a conversation leaves the ledger as if that end had never been, a branch sees what the
  conversation it was cut from would see, and text that is not the user's never changes the view.
\<close>

section \<open>Entries\<close>

datatype provenance = PHuman | PVerifierSteer | PContextSummary | PToolResult | PHarness

datatype channel = CMessage | CSteer | CFollowUp

datatype intent = INewGoal | IRefinement | IScopeChange | ICorrection | IPreempt | IAnswer | INoise

datatype goal_status = GActive | GDeferred | GSatisfied | GSuperseded | GAbandoned

datatype constraint_kind = KPathGlob | KToolName | KCommandRegex | KFreeText

definition provenance_values :: "(string \<times> provenance) list" where
  "provenance_values = [(''human'', PHuman), (''verifier_steer'', PVerifierSteer),
     (''context_summary'', PContextSummary), (''tool_result'', PToolResult), (''harness'', PHarness)]"

definition channel_values :: "(string \<times> channel) list" where
  "channel_values = [(''message'', CMessage), (''steer'', CSteer), (''follow_up'', CFollowUp)]"

definition intent_values :: "(string \<times> intent) list" where
  "intent_values = [(''new_goal'', INewGoal), (''refinement'', IRefinement), (''scope_change'', IScopeChange),
     (''correction'', ICorrection), (''preempt'', IPreempt), (''answer'', IAnswer), (''noise'', INoise)]"

definition status_values :: "(string \<times> goal_status) list" where
  "status_values = [(''active'', GActive), (''deferred'', GDeferred), (''satisfied'', GSatisfied),
     (''superseded'', GSuperseded), (''abandoned'', GAbandoned)]"

definition kind_values :: "(string \<times> constraint_kind) list" where
  "kind_values = [(''path_glob'', KPathGlob), (''tool_name'', KToolName), (''command_regex'', KCommandRegex),
     (''free_text'', KFreeText)]"

definition value_of :: "(string \<times> 'a) list \<Rightarrow> 'a \<Rightarrow> string" where
  "value_of vs x = (case List.find (\<lambda>(_, y). y = x) vs of None \<Rightarrow> [] | Some (s, _) \<Rightarrow> s)"

record constraint =
  cn_kind :: constraint_kind
  cn_pattern :: string
  cn_source :: string
  cn_verbatim :: string

record goal_entry =
  ge_id :: string
  ge_thread :: string
  ge_seq :: int
  ge_verbatim :: string
  ge_provenance :: provenance
  ge_channel :: "channel option"
  ge_intent :: intent
  ge_status :: goal_status
  ge_relates_to :: "string option"
  ge_constraints :: "constraint list"
  ge_done_when :: "string list"
  ge_created_at :: int
  ge_source_row :: "string option"

record resolved_intent =
  ri_active :: "goal_entry option"
  ri_deferred :: "goal_entry list"
  ri_standing :: "constraint list"
  ri_corrections :: "(constraint, nat) dict"
  ri_pending :: bool

record constraint_draft =
  dr_kind :: constraint_kind
  dr_pattern :: string
  dr_verbatim :: string

record classification =
  cl_intent :: intent
  cl_relates_to :: "string option"
  cl_constraints :: "constraint_draft list"
  cl_done_when :: "string list"

definition match_key :: "constraint \<Rightarrow> constraint_kind \<times> string" where
  "match_key c = (cn_kind c, cn_pattern c)"

definition truthy_text :: "string option \<Rightarrow> bool" where
  "truthy_text s \<longleftrightarrow> s \<noteq> None \<and> s \<noteq> Some []"

section \<open>The view\<close>

definition empty_resolved :: "bool \<Rightarrow> resolved_intent" where
  "empty_resolved pending = \<lparr>ri_active = None, ri_deferred = [], ri_standing = [], ri_corrections = [],
     ri_pending = pending\<rparr>"

definition standing_by_key :: "goal_entry list \<Rightarrow> (constraint_kind \<times> string, constraint) dict" where
  "standing_by_key human = fold (\<lambda>e d. fold (\<lambda>c. dict_set (match_key c) c) (ge_constraints e) d) human []"

definition count_correction ::
    "constraint \<Rightarrow> (constraint_kind \<times> string, constraint \<times> nat) dict \<Rightarrow> (constraint_kind \<times> string, constraint \<times> nat) dict" where
  "count_correction c d =
     dict_set (match_key c) (c, (case dict_get d (match_key c) of None \<Rightarrow> 0 | Some (_, n) \<Rightarrow> n) + 1) d"

definition correction_counts :: "goal_entry list \<Rightarrow> (constraint_kind \<times> string, constraint \<times> nat) dict" where
  "correction_counts human =
     fold (\<lambda>e d. if ge_intent e \<noteq> ICorrection then d else fold count_correction (ge_constraints e) d) human []"

definition resolve_intent :: "goal_entry list \<Rightarrow> bool \<Rightarrow> resolved_intent" where
  "resolve_intent entries pending =
     (let human = filter (\<lambda>e. ge_provenance e = PHuman) entries
      in \<lparr>ri_active = List.find (\<lambda>e. ge_status e = GActive) (rev human),
          ri_deferred = filter (\<lambda>e. ge_status e = GDeferred) human,
          ri_standing = map snd (standing_by_key human),
          ri_corrections = dict_of_list (map snd (correction_counts human)),
          ri_pending = pending\<rparr>)"

section \<open>Rows\<close>

record ledger_row =
  lr_id :: string
  lr_thread :: string
  lr_seq :: int
  lr_verbatim :: string
  lr_provenance :: string
  lr_channel :: "string option"
  lr_intent :: string
  lr_status :: string
  lr_relates_to :: "string option"
  lr_constraints :: "json option"
  lr_done_when :: "json option"
  lr_created_at :: int
  lr_source_row :: "string option"

definition constraints_to_json :: "constraint list \<Rightarrow> json" where
  "constraints_to_json cs = JList (map (\<lambda>c. JObj
     [(''kind'', JStr (value_of kind_values (cn_kind c))), (''pattern'', JStr (cn_pattern c)),
      (''source_entry_id'', JStr (cn_source c)), (''verbatim'', JStr (cn_verbatim c))]) cs)"

definition or_default :: "json option \<Rightarrow> string \<Rightarrow> string" where
  \<comment> \<open>\<open>str(v or default)\<close>\<close>
  "or_default v d = (case v of None \<Rightarrow> d | Some j \<Rightarrow> if json_truthy j then py_str_json j else d)"

definition constraint_from_json :: "string \<Rightarrow> json \<Rightarrow> constraint option" where
  "constraint_from_json fallback item = (case item of
       JObj d \<Rightarrow> Some \<lparr>cn_kind = (case map_of kind_values (or_default (dict_get d ''kind'') []) of
                           None \<Rightarrow> KFreeText | Some k \<Rightarrow> k),
                       cn_pattern = or_default (dict_get d ''pattern'') [],
                       cn_source = or_default (dict_get d ''source_entry_id'') fallback,
                       cn_verbatim = or_default (dict_get d ''verbatim'') []\<rparr>
     | _ \<Rightarrow> None)"

definition constraints_from_json :: "json option \<Rightarrow> string \<Rightarrow> constraint list" where
  "constraints_from_json raw fallback = (case raw of
       Some (JList items) \<Rightarrow> List.map_filter (constraint_from_json fallback) items
     | _ \<Rightarrow> [])"

definition done_when_from_json :: "json option \<Rightarrow> string list" where
  "done_when_from_json raw = (case raw of
       Some (JList items) \<Rightarrow> filter (\<lambda>s. py_strip s \<noteq> []) (map py_str_json items)
     | _ \<Rightarrow> [])"

definition row_of_entry :: "goal_entry \<Rightarrow> ledger_row" where
  "row_of_entry e =
     \<lparr>lr_id = ge_id e, lr_thread = ge_thread e, lr_seq = ge_seq e, lr_verbatim = ge_verbatim e,
      lr_provenance = value_of provenance_values (ge_provenance e),
      lr_channel = map_option (value_of channel_values) (ge_channel e),
      lr_intent = value_of intent_values (ge_intent e), lr_status = value_of status_values (ge_status e),
      lr_relates_to = ge_relates_to e, lr_constraints = Some (constraints_to_json (ge_constraints e)),
      lr_done_when = Some (JList (map JStr (ge_done_when e))), lr_created_at = ge_created_at e,
      lr_source_row = ge_source_row e\<rparr>"

definition entry_from_row :: "ledger_row \<Rightarrow> goal_entry option" where
  \<comment> \<open>\<open>None\<close> is the \<open>ValueError\<close> of an unknown enum value\<close>
  "entry_from_row r =
     (case (map_of provenance_values (lr_provenance r), map_of intent_values (lr_intent r),
            map_of status_values (lr_status r)) of
        (Some p, Some i, Some s) \<Rightarrow>
          (let entry = (\<lambda>ch. \<lparr>ge_id = lr_id r, ge_thread = lr_thread r, ge_seq = lr_seq r,
                 ge_verbatim = lr_verbatim r, ge_provenance = p, ge_channel = ch, ge_intent = i, ge_status = s,
                 ge_relates_to = (if truthy_text (lr_relates_to r) then lr_relates_to r else None),
                 ge_constraints = constraints_from_json (lr_constraints r) (lr_id r),
                 ge_done_when = done_when_from_json (lr_done_when r), ge_created_at = lr_created_at r,
                 ge_source_row = (if truthy_text (lr_source_row r) then lr_source_row r else None)\<rparr>)
           in if truthy_text (lr_channel r)
              then (case map_of channel_values (the (lr_channel r)) of None \<Rightarrow> None | Some ch \<Rightarrow> Some (entry (Some ch)))
              else Some (entry None))
      | _ \<Rightarrow> None)"

section \<open>The store\<close>

type_synonym ledger_table = "goal_entry list"

datatype store_error = IntegrityError

definition list_entries :: "string \<Rightarrow> ledger_table \<Rightarrow> goal_entry list" where
  "list_entries thread tab = sort_key ge_seq (filter (\<lambda>e. ge_thread e = thread) tab)"

definition next_seq :: "string \<Rightarrow> ledger_table \<Rightarrow> int" where
  "next_seq thread tab = fold max (map ge_seq (filter (\<lambda>e. ge_thread e = thread) tab)) 0 + 1"

definition insert_entry :: "goal_entry \<Rightarrow> ledger_table \<Rightarrow> store_error + ledger_table" where
  "insert_entry e tab =
     (if list_ex (\<lambda>q. ge_id q = ge_id e \<or> ge_thread q = ge_thread e \<and> ge_seq q = ge_seq e) tab
      then Inl IntegrityError else Inr (tab @ [e]))"

definition update_status :: "string \<times> goal_status \<Rightarrow> ledger_table \<Rightarrow> ledger_table" where
  "update_status u tab = map (\<lambda>e. if ge_id e = fst u then e\<lparr>ge_status := snd u\<rparr> else e) tab"

definition update_statuses :: "(string \<times> goal_status) list \<Rightarrow> ledger_table \<Rightarrow> ledger_table" where
  "update_statuses us tab = fold update_status us tab"

definition commit_classified ::
    "goal_entry \<Rightarrow> (string \<times> goal_status) list \<Rightarrow> ledger_table \<Rightarrow> store_error + goal_entry \<times> ledger_table" where
  "commit_classified e us tab =
     (let stamped = e\<lparr>ge_seq := next_seq (ge_thread e) tab\<rparr>
      in bind_result (insert_entry stamped (update_statuses us tab)) (\<lambda>tab'. Inr (stamped, tab')))"

definition delete_entry :: "string \<Rightarrow> ledger_table \<Rightarrow> ledger_table" where
  "delete_entry i tab = filter (\<lambda>e. ge_id e \<noteq> i) tab"

fun insert_entries :: "goal_entry list \<Rightarrow> ledger_table \<Rightarrow> store_error + ledger_table" where
  "insert_entries [] tab = Inr tab"
| "insert_entries (e # es) tab = bind_result (insert_entry e tab) (insert_entries es)"

definition truncate_entries ::
    "string \<Rightarrow> int \<Rightarrow> (string \<times> goal_status) list \<Rightarrow> ledger_table \<Rightarrow> nat \<times> ledger_table" where
  "truncate_entries thread from_seq us tab =
     (let gone = (\<lambda>e. ge_thread e = thread \<and> from_seq \<le> ge_seq e)
      in (length (filter gone tab), update_statuses us (filter (\<lambda>e. \<not> gone e) tab)))"

section \<open>Classified messages\<close>

record ledger_job =
  jb_thread :: string
  jb_verbatim :: string
  jb_provenance :: provenance
  jb_channel :: "channel option"
  jb_source_row :: "string option"
  jb_generation :: int

definition record_intents :: "intent list" where
  "record_intents = [ICorrection, IAnswer, INoise]"

definition terminal_statuses :: "goal_status list" where
  "terminal_statuses = [GSatisfied, GSuperseded, GAbandoned]"

definition related_status :: "(intent, goal_status) dict" where
  "related_status = [(IPreempt, GDeferred), (IScopeChange, GSuperseded), (INewGoal, GSuperseded)]"

definition base_status :: "intent \<Rightarrow> goal_status" where
  "base_status i = (if i \<in> set record_intents then GSatisfied else GActive)"

definition latest_active :: "goal_entry list \<Rightarrow> goal_entry option" where
  "latest_active entries = List.find (\<lambda>e. ge_provenance e = PHuman \<and> ge_status e = GActive) (rev entries)"

definition related_entry :: "classification \<Rightarrow> goal_entry list \<Rightarrow> string option" where
  \<comment> \<open>the entry a message relates to, before a new goal is made to replace the active one\<close>
  "related_entry result entries =
     (let named = (if truthy_text (cl_relates_to result)
                      \<and> \<not> list_ex (\<lambda>e. Some (ge_id e) = cl_relates_to result) entries
                   then None else cl_relates_to result)
      in if named = None \<and> cl_intent result \<in> {IRefinement, IScopeChange, IPreempt, ICorrection}
         then map_option ge_id (latest_active entries) else named)"

definition status_updates :: "classification \<Rightarrow> goal_entry list \<Rightarrow> (string \<times> goal_status) list \<times> string option" where
  "status_updates result entries =
     (let relates = related_entry result entries
      in if cl_intent result = IPreempt \<and> truthy_text relates then ([(the relates, GDeferred)], relates)
         else if cl_intent result \<in> {IScopeChange, INewGoal} \<and> truthy_text relates
         then ([(the relates, GSuperseded)], relates)
         else if cl_intent result = INewGoal \<and> \<not> truthy_text relates then
           (case latest_active entries of
              None \<Rightarrow> ([], relates)
            | Some a \<Rightarrow> ([(ge_id a, GSuperseded)], Some (ge_id a)))
         else ([], relates))"

definition classified_entry ::
    "string \<Rightarrow> int \<Rightarrow> ledger_job \<Rightarrow> classification \<Rightarrow> string option \<Rightarrow> goal_entry" where
  "classified_entry i now job result relates =
     \<lparr>ge_id = i, ge_thread = jb_thread job, ge_seq = 0, ge_verbatim = jb_verbatim job,
      ge_provenance = jb_provenance job, ge_channel = jb_channel job, ge_intent = cl_intent result,
      ge_status = base_status (cl_intent result), ge_relates_to = relates,
      ge_constraints = map (\<lambda>d. \<lparr>cn_kind = dr_kind d, cn_pattern = dr_pattern d, cn_source = i,
          cn_verbatim = dr_verbatim d\<rparr>) (cl_constraints result),
      ge_done_when = cl_done_when result, ge_created_at = now, ge_source_row = jb_source_row job\<rparr>"

definition commit_classification ::
    "string \<Rightarrow> int \<Rightarrow> ledger_job \<Rightarrow> classification \<Rightarrow> goal_entry list \<Rightarrow> ledger_table \<Rightarrow> store_error + ledger_table" where
  \<comment> \<open>\<open>_apply_classification\<close> up to its commit\<close>
  "commit_classification i now job result entries tab =
     (case status_updates result entries of (us, relates) \<Rightarrow>
        bind_result (commit_classified (classified_entry i now job result relates) us tab) (\<lambda>(_, tab'). Inr tab'))"

definition prune :: "nat \<Rightarrow> string \<Rightarrow> ledger_table \<Rightarrow> ledger_table" where
  "prune max_entries thread tab =
     (let entries = list_entries thread tab;
          extra = length entries - max_entries;
          terminal = filter (\<lambda>e. ge_status e \<in> set terminal_statuses) entries;
          droppable = filter (\<lambda>e. ge_constraints e = []) terminal @ filter (\<lambda>e. ge_constraints e \<noteq> []) terminal
      in if length entries \<le> max_entries then tab
         else fold (\<lambda>e. delete_entry (ge_id e)) (take extra droppable) tab)"

definition noise :: classification where
  "noise = \<lparr>cl_intent = INoise, cl_relates_to = None, cl_constraints = [], cl_done_when = []\<rparr>"

definition persist_non_human :: "string \<Rightarrow> int \<Rightarrow> ledger_job \<Rightarrow> ledger_table \<Rightarrow> store_error + ledger_table" where
  "persist_non_human i now job tab =
     bind_result (commit_classified (classified_entry i now job noise None) [] tab) (\<lambda>(_, tab'). Inr tab')"

definition fail_open_classification :: "goal_entry list \<Rightarrow> classification" where
  "fail_open_classification open_entries =
     noise\<lparr>cl_intent := (if open_entries \<noteq> [] then IAnswer else INewGoal)\<rparr>"

definition draft_of_json :: "json \<Rightarrow> constraint_draft option" where
  "draft_of_json item = (case item of
       JObj d \<Rightarrow>
         (let kind = (case map_of kind_values (py_strip (or_default (dict_get d ''kind'') [])) of
                None \<Rightarrow> KFreeText | Some k \<Rightarrow> k);
              pattern = py_strip (or_default (dict_get d ''pattern'') []);
              verbatim = py_strip (or_default (dict_get d ''verbatim'') [])
          in if pattern = [] \<and> verbatim = [] then None
             else Some \<lparr>dr_kind = kind, dr_pattern = (if pattern \<noteq> [] then pattern else verbatim),
                        dr_verbatim = (if verbatim \<noteq> [] then verbatim else pattern)\<rparr>)
     | _ \<Rightarrow> None)"

definition done_when_items :: "json option \<Rightarrow> string list" where
  "done_when_items raw = (case raw of
       Some (JList items) \<Rightarrow> List.map_filter (\<lambda>j. case j of
           JStr s \<Rightarrow> if py_strip s \<noteq> [] then Some (py_strip s) else None | _ \<Rightarrow> None) items
     | _ \<Rightarrow> [])"

definition classification_of_payload :: "json \<Rightarrow> classification option" where
  \<comment> \<open>\<open>parse_classification\<close> from the parsed payload on\<close>
  "classification_of_payload payload = (case payload of
       JObj d \<Rightarrow>
         (let relates = (case dict_get d ''relates_to'' of None \<Rightarrow> None
                | Some j \<Rightarrow> if json_truthy j then Some (py_strip (py_str_json j)) else None)
          in case map_of intent_values (py_strip (or_default (dict_get d ''intent'') [])) of
               None \<Rightarrow> None
             | Some i \<Rightarrow> Some \<lparr>cl_intent = i,
                 cl_relates_to = (if relates \<in> {Some [], Some ''null'', Some ''None''} then None else relates),
                 cl_constraints = (case dict_get d ''constraints'' of
                     Some (JList items) \<Rightarrow> List.map_filter draft_of_json items | _ \<Rightarrow> []),
                 cl_done_when = done_when_items (dict_get d ''done_when'')\<rparr>)
     | _ \<Rightarrow> None)"

definition open_entries :: "goal_entry list \<Rightarrow> goal_entry list" where
  "open_entries entries = filter (\<lambda>e. ge_provenance e = PHuman \<and> ge_status e = GActive) entries"

section \<open>Rewriting a conversation\<close>

definition statuses_without_dropped :: "goal_entry list \<Rightarrow> goal_entry list \<Rightarrow> (string \<times> goal_status) list" where
  "statuses_without_dropped kept dropped =
     (let touched = map (\<lambda>r. the (ge_relates_to r)) (filter (\<lambda>r. truthy_text (ge_relates_to r)
            \<and> dict_get related_status (ge_intent r) \<noteq> None) dropped);
          ordered = sort_key ge_seq kept;
          status = (\<lambda>r. fold (\<lambda>later st. if ge_relates_to later = Some (ge_id r)
                \<and> dict_get related_status (ge_intent later) \<noteq> None
              then the (dict_get related_status (ge_intent later)) else st) ordered (base_status (ge_intent r)))
      in map (\<lambda>r. (ge_id r, status r))
           (filter (\<lambda>r. ge_id r \<in> set touched \<and> status r \<noteq> ge_status r) ordered))"

definition split_at_dropped :: "goal_entry list \<Rightarrow> string list \<Rightarrow> goal_entry list \<times> goal_entry list" where
  "split_at_dropped entries dropped_ids =
     (let ordered = sort_key ge_seq entries;
          stays = (\<lambda>r. case ge_source_row r of None \<Rightarrow> True | Some i \<Rightarrow> i \<notin> set dropped_ids)
      in (takeWhile stays ordered, dropWhile stays ordered))"

definition drop_rows :: "string \<Rightarrow> string list \<Rightarrow> ledger_table \<Rightarrow> nat \<times> ledger_table" where
  "drop_rows thread dropped_ids tab =
     (if dropped_ids = [] then (0, tab)
      else case split_at_dropped (list_entries thread tab) dropped_ids of
        (kept, []) \<Rightarrow> (0, tab)
      | (kept, d # ds) \<Rightarrow> truncate_entries thread (ge_seq d) (statuses_without_dropped kept (d # ds)) tab)"

definition retargeted_copies :: "string list \<Rightarrow> goal_entry list \<Rightarrow> string \<Rightarrow> goal_entry list" where
  \<comment> \<open>\<open>fresh\<close> are the new ids, one per entry\<close>
  "retargeted_copies fresh entries thread =
     (let id_map = dict_of_list (zip (map ge_id entries) fresh)
      in map (\<lambda>(seq, e).
           let new_id = the (dict_get id_map (ge_id e))
           in e\<lparr>ge_id := new_id, ge_thread := thread, ge_seq := int seq,
                ge_relates_to := (if truthy_text (ge_relates_to e) then dict_get id_map (the (ge_relates_to e)) else None),
                ge_constraints := map (\<lambda>c. c\<lparr>cn_source := (case dict_get id_map (cn_source c) of
                    None \<Rightarrow> new_id | Some j \<Rightarrow> j)\<rparr>) (ge_constraints e)\<rparr>)
         (zip [1..<Suc (length entries)] (sort_key ge_seq entries)))"

definition branch_copies :: "string list \<Rightarrow> string \<Rightarrow> string \<Rightarrow> string list \<Rightarrow> ledger_table \<Rightarrow> goal_entry list" where
  "branch_copies fresh source target dropped_ids tab =
     (case split_at_dropped (list_entries source tab) dropped_ids of (kept, dropped) \<Rightarrow>
        let fixes = dict_of_list (statuses_without_dropped kept dropped)
        in map2 (\<lambda>row copy. case dict_get fixes (ge_id row) of None \<Rightarrow> copy | Some s \<Rightarrow> copy\<lparr>ge_status := s\<rparr>)
             kept (retargeted_copies fresh kept target))"

definition copy_branch ::
    "string list \<Rightarrow> string \<Rightarrow> string \<Rightarrow> string list \<Rightarrow> ledger_table \<Rightarrow> store_error + nat \<times> ledger_table" where
  "copy_branch fresh source target dropped_ids tab =
     (let copies = branch_copies fresh source target dropped_ids tab
      in bind_result (insert_entries copies tab) (\<lambda>tab'. Inr (length copies, tab')))"

section \<open>Statuses follow from the rows\<close>

definition marks :: "goal_entry list \<Rightarrow> string \<Rightarrow> goal_entry list" where
  "marks ls i = filter (\<lambda>l. ge_relates_to l = Some i \<and> dict_get related_status (ge_intent l) \<noteq> None) ls"

definition implied_status :: "goal_entry list \<Rightarrow> goal_entry \<Rightarrow> goal_status" where
  "implied_status ls e = (if marks ls (ge_id e) = [] then base_status (ge_intent e)
     else the (dict_get related_status (ge_intent (last (marks ls (ge_id e))))))"

lemma marks_append [simp]: "marks (xs @ ys) i = marks xs i @ marks ys i"
  by (simp add: marks_def)

lemma marks_Nil [simp]: "marks [] i = []"
  by (simp add: marks_def)

lemma fold_status_implied:
  "fold (\<lambda>later st. if ge_relates_to later = Some i \<and> dict_get related_status (ge_intent later) \<noteq> None
      then the (dict_get related_status (ge_intent later)) else st) ls st
   = (if marks ls i = [] then st else the (dict_get related_status (ge_intent (last (marks ls i)))))"
  by (induction ls rule: rev_induct) (auto simp: marks_def)

lemma statuses_without_dropped_eq:
  "statuses_without_dropped kept dropped =
     map (\<lambda>r. (ge_id r, implied_status (sort_key ge_seq kept) r))
       (filter (\<lambda>r. marks dropped (ge_id r) \<noteq> [] \<and> implied_status (sort_key ge_seq kept) r \<noteq> ge_status r) (sort_key ge_seq kept))"
  if "\<And>r. r \<in> set kept \<Longrightarrow> ge_id r \<noteq> []"
proof -
  let ?touched = "map (\<lambda>r. the (ge_relates_to r)) (filter (\<lambda>r. truthy_text (ge_relates_to r)
      \<and> dict_get related_status (ge_intent r) \<noteq> None) dropped)"
  have "ge_id r \<in> set ?touched \<longleftrightarrow> marks dropped (ge_id r) \<noteq> []" if "r \<in> set kept" for r
    using that[THEN \<open>\<And>r. r \<in> set kept \<Longrightarrow> ge_id r \<noteq> []\<close>]
    by (auto simp: marks_def truthy_text_def filter_empty_conv image_iff)
  then show ?thesis
    unfolding statuses_without_dropped_def Let_def fold_status_implied implied_status_def[symmetric]
    by (intro map_cong filter_cong) auto
qed

text \<open>What a status is implied by does not include the statuses themselves.\<close>

definition forget_status :: "goal_entry \<Rightarrow> goal_entry" where
  "forget_status e = e\<lparr>ge_status := GActive\<rparr>"

lemma forget_status_simps [simp]:
  "ge_id (forget_status e) = ge_id e" "ge_intent (forget_status e) = ge_intent e" "ge_seq (forget_status e) = ge_seq e"
  "ge_thread (forget_status e) = ge_thread e" "ge_relates_to (forget_status e) = ge_relates_to e"
  "ge_source_row (forget_status e) = ge_source_row e"
  "forget_status (e\<lparr>ge_status := s\<rparr>) = forget_status e"
  by (simp_all add: forget_status_def)

lemma same_but_status: "forget_status e = forget_status q \<Longrightarrow> ge_status e = ge_status q \<Longrightarrow> e = q"
  by (cases e; cases q) (simp add: forget_status_def)

lemma forget_status_fields:
  assumes "forget_status e = forget_status q"
  shows "ge_id e = ge_id q" and "ge_intent e = ge_intent q" and "ge_seq e = ge_seq q" and "ge_thread e = ge_thread q"
    and "ge_relates_to e = ge_relates_to q" and "ge_source_row e = ge_source_row q"
  using arg_cong[OF assms, of ge_id] arg_cong[OF assms, of ge_intent] arg_cong[OF assms, of ge_seq]
    arg_cong[OF assms, of ge_thread] arg_cong[OF assms, of ge_relates_to] arg_cong[OF assms, of ge_source_row]
  by simp_all

lemma marks_same:
  assumes "map forget_status xs = map forget_status ys"
  shows "(marks xs i = [] \<longleftrightarrow> marks ys i = []) \<and> (marks xs i \<noteq> [] \<longrightarrow> ge_intent (last (marks xs i)) = ge_intent (last (marks ys i)))"
proof -
  have "map forget_status (marks zs i) = marks (map forget_status zs) i" for zs
    by (induction zs) (auto simp: marks_def)
  then have "map forget_status (marks xs i) = map forget_status (marks ys i)" using assms by metis
  then have "map ge_intent (marks xs i) = map ge_intent (marks ys i)"
    by (metis (no_types, lifting) forget_status_simps(2) list.map_comp map_cong comp_apply)
  then show ?thesis by (metis last_map list.map_disc_iff)
qed

lemma implied_same:
  assumes "map forget_status xs = map forget_status ys" and "forget_status e = forget_status q"
  shows "implied_status xs e = implied_status ys q"
  using marks_same[OF assms(1), of "ge_id q"] forget_status_fields[OF assms(2)] by (auto simp: implied_status_def)

definition thread_rows :: "string \<Rightarrow> ledger_table \<Rightarrow> goal_entry list" where
  "thread_rows t tab = filter (\<lambda>e. ge_thread e = t) tab"

definition ledger_ok :: "string \<Rightarrow> ledger_table \<Rightarrow> bool" where
  \<comment> \<open>rows in order, with ids of their own, and every status the one the thread's rows imply\<close>
  "ledger_ok t tab \<longleftrightarrow> sorted_wrt (<) (map ge_seq (thread_rows t tab)) \<and> distinct (map ge_id tab)
     \<and> list_all (\<lambda>e. ge_id e \<noteq> [] \<and> (ge_thread e = t \<longrightarrow> 0 < ge_seq e)) tab
     \<and> list_all (\<lambda>e. ge_status e = implied_status (thread_rows t tab) e) (thread_rows t tab)"

lemma list_entries_ok:
  assumes "sorted_wrt (<) (map ge_seq (thread_rows t tab))"
  shows "list_entries t tab = thread_rows t tab"
proof -
  have "sorted (map ge_seq (thread_rows t tab))" using assms by (rule strict_sorted_imp_sorted)
  then show ?thesis by (simp add: list_entries_def thread_rows_def sort_key_id_if_sorted)
qed

text \<open>One message, from its classification to the stored row.\<close>

record message_event =
  me_job :: ledger_job
  me_id :: string
  me_now :: int
  me_result :: classification

definition record_message :: "nat \<Rightarrow> message_event \<Rightarrow> ledger_table \<Rightarrow> store_error + ledger_table" where
  "record_message max_entries ev tab =
     (let job = me_job ev
      in if jb_provenance job \<noteq> PHuman then persist_non_human (me_id ev) (me_now ev) job tab
         else bind_result (commit_classification (me_id ev) (me_now ev) job (me_result ev)
                 (list_entries (jb_thread job) tab) tab) (\<lambda>tab'. Inr (prune max_entries (jb_thread job) tab')))"

fun record_messages :: "nat \<Rightarrow> message_event list \<Rightarrow> ledger_table \<Rightarrow> store_error + ledger_table" where
  "record_messages max_entries [] tab = Inr tab"
| "record_messages max_entries (ev # evs) tab =
     bind_result (record_message max_entries ev tab) (record_messages max_entries evs)"

definition fresh_id :: "string \<Rightarrow> ledger_table \<Rightarrow> bool" where
  "fresh_id i tab \<longleftrightarrow> i \<noteq> [] \<and> list_all (\<lambda>e. ge_id e \<noteq> i \<and> ge_relates_to e \<noteq> Some i) tab"

lemma fresh_id_iff:
  "fresh_id i tab \<longleftrightarrow> i \<noteq> [] \<and> i \<notin> set (map ge_id tab) \<and> Some i \<notin> set (map ge_relates_to tab)"
  by (auto simp: fresh_id_def list_all_iff image_iff)

definition row_source :: "message_event \<Rightarrow> string option" where
  "row_source ev = jb_source_row (me_job ev)"

lemma status_updates_spec:
  assumes "status_updates result entries = (us, relates)" and "\<And>e. e \<in> set entries \<Longrightarrow> ge_id e \<noteq> []"
  shows "us = (if truthy_text relates \<and> dict_get related_status (cl_intent result) \<noteq> None
      then [(the relates, the (dict_get related_status (cl_intent result)))] else [])"
    and "relates = None \<or> relates = Some [] \<or> (\<exists>e\<in>set entries. relates = Some (ge_id e))"
proof -
  have active: "a \<in> set entries" if "latest_active entries = Some a" for a
    using that by (auto simp: latest_active_def find_Some_iff) (metis length_rev nth_mem set_rev)
  have named: "related_entry result entries = None \<or> related_entry result entries = Some []
      \<or> (\<exists>e\<in>set entries. related_entry result entries = Some (ge_id e))"
  proof -
    define named where "named = (if truthy_text (cl_relates_to result)
        \<and> \<not> list_ex (\<lambda>e. Some (ge_id e) = cl_relates_to result) entries then None else cl_relates_to result)"
    have n: "named = None \<or> named = Some [] \<or> (\<exists>e\<in>set entries. named = Some (ge_id e))"
      unfolding named_def truthy_text_def list_ex_iff by metis
    have "related_entry result entries = map_option ge_id (latest_active entries) \<or> related_entry result entries = named"
      by (simp add: related_entry_def named_def Let_def)
    then show ?thesis using n active by (cases "latest_active entries") auto
  qed
  show "us = (if truthy_text relates \<and> dict_get related_status (cl_intent result) \<noteq> None
      then [(the relates, the (dict_get related_status (cl_intent result)))] else [])"
    using assms(1) assms(2)[OF active] by (cases "cl_intent result")
      (auto simp: status_updates_def Let_def related_status_def truthy_text_def split: if_splits option.splits)
  show "relates = None \<or> relates = Some [] \<or> (\<exists>e\<in>set entries. relates = Some (ge_id e))"
    using assms named active by (auto simp: status_updates_def Let_def split: if_splits option.splits)
qed

lemma update_status_props:
  "map forget_status (update_status u tab) = map forget_status tab"
  "ge_id e \<noteq> fst u \<Longrightarrow> e \<in> set (update_status u tab) \<longleftrightarrow> e \<in> set tab"
  by (auto simp: update_status_def)

lemma next_seq_pos: "0 < next_seq t tab"
proof -
  have "0 \<le> fold max xs 0" for xs :: "int list"
    using Max_ge[of "set (0 # xs)" 0] by (simp add: Max.set_eq_fold[symmetric] del: Max_insert)
  then show ?thesis by (simp add: next_seq_def add_strict_increasing2)
qed

lemma next_seq_greater: "e \<in> set (thread_rows t tab) \<Longrightarrow> ge_seq e < next_seq t tab"
proof -
  have "next_seq t tab = Max (set (0 # map ge_seq (thread_rows t tab))) + 1"
    by (simp only: next_seq_def thread_rows_def Max.set_eq_fold)
  moreover assume "e \<in> set (thread_rows t tab)"
  ultimately show ?thesis by (simp add: less_le_trans[of _ _ "_ + 1"] Max_ge zle_add1_eq_le del: Max_insert)
qed

text \<open>
  How a table grows: a new row of the thread at the end, and the rows before it with at most their statuses changed, and
  those only in the thread.
\<close>

definition grown :: "string \<Rightarrow> ledger_table \<Rightarrow> ledger_table \<Rightarrow> goal_entry list \<Rightarrow> bool" where
  "grown t tab front rows \<longleftrightarrow> map forget_status front = map forget_status tab
     \<and> list_all2 (\<lambda>e q. ge_thread e \<noteq> t \<longrightarrow> e = q) tab front
     \<and> list_all (\<lambda>r. ge_thread r = t \<and> list_all (\<lambda>e. ge_seq e < ge_seq r) (thread_rows t tab)) rows"

lemma map_forget_rows:
  "map forget_status front = map forget_status tab \<Longrightarrow> map forget_status (thread_rows t front) = map forget_status (thread_rows t tab)"
proof -
  have "map forget_status (thread_rows t zs) = thread_rows t (map forget_status zs)" for zs
    by (induction zs) (auto simp: thread_rows_def)
  then show "map forget_status front = map forget_status tab \<Longrightarrow> ?thesis" by metis
qed

lemma forget_map_eq:
  assumes "map forget_status xs = map forget_status ys" and "\<And>e. f (forget_status e) = f e"
  shows "map f xs = map f ys"
  using arg_cong[OF assms(1), of "map f"] assms(2) by (simp add: comp_def)

lemma forget_list_all:
  assumes "map forget_status xs = map forget_status ys" and "\<And>e. P (forget_status e) = P e"
  shows "list_all P xs = list_all P ys"
  using arg_cong[OF assms(1), of "list_all P"] assms(2) by (simp add: list.pred_map comp_def)

lemma forget_maps:
  assumes "map forget_status front = map forget_status tab"
  shows "map ge_id front = map ge_id tab" and "map ge_seq (thread_rows t front) = map ge_seq (thread_rows t tab)"
    and "map ge_source_row (thread_rows t front) = map ge_source_row (thread_rows t tab)"
    and "map ge_thread front = map ge_thread tab" and "map ge_seq front = map ge_seq tab"
    and "map ge_relates_to front = map ge_relates_to tab"
proof -
  note rows = map_forget_rows[OF assms, of t]
  show "map ge_id front = map ge_id tab" "map ge_thread front = map ge_thread tab" "map ge_seq front = map ge_seq tab"
    "map ge_relates_to front = map ge_relates_to tab"
    "map ge_seq (thread_rows t front) = map ge_seq (thread_rows t tab)"
    "map ge_source_row (thread_rows t front) = map ge_source_row (thread_rows t tab)"
    by (rule forget_map_eq[OF assms], simp)+ (rule forget_map_eq[OF rows], simp)+
qed

lemma thread_rows_append [simp]: "thread_rows t (xs @ ys) = thread_rows t xs @ thread_rows t ys"
  by (simp add: thread_rows_def)

lemma ledger_ok_grow:
  assumes ok: "ledger_ok t tab"
    and stamped: "us = (if truthy_text relates \<and> dict_get related_status (ge_intent row) \<noteq> None
        then [(the relates, the (dict_get related_status (ge_intent row)))] else [])"
    and relates: "relates = None \<or> relates = Some [] \<or> (\<exists>e\<in>set (thread_rows t tab). relates = Some (ge_id e))"
    and fresh: "fresh_id (ge_id row) tab"
    and row: "ge_relates_to row = relates" "ge_thread row = t" "ge_seq row = next_seq t tab"
      "ge_status row = base_status (ge_intent row)"
  shows "ledger_ok t (update_statuses us tab @ [row])" and "grown t tab (update_statuses us tab) [row]"
proof -
  let ?front = "update_statuses us tab"
  have ids: "ge_id e \<noteq> []" if "e \<in> set tab" for e using ok that by (auto simp: ledger_ok_def list_all_iff)
  have same: "map forget_status ?front = map forget_status tab"
    using stamped by (auto simp: update_statuses_def update_status_props)
  note maps = forget_maps[OF same]
  define f :: "goal_entry \<Rightarrow> goal_entry" where "f = (\<lambda>e. if truthy_text relates \<and> dict_get related_status (ge_intent row) \<noteq> None \<and> relates = Some (ge_id e)
      then e\<lparr>ge_status := the (dict_get related_status (ge_intent row))\<rparr> else e)"
  have front: "?front = map f tab"
    using stamped by (auto simp: update_statuses_def update_status_def truthy_text_def f_def)
  have rows: "thread_rows t ?front = map f (thread_rows t tab)"
    unfolding front thread_rows_def by (simp add: filter_map comp_def) (auto simp: f_def intro!: map_cong filter_cong)
  have inj: "e = q" if "e \<in> set tab" "q \<in> set tab" "ge_id e = ge_id q" for e q
    using ok that by (auto simp: ledger_ok_def distinct_map inj_on_def)
  have seq: "list_all (\<lambda>e. ge_seq e < ge_seq row) (thread_rows t tab)"
    using next_seq_greater row(3) by (auto simp: list_all_iff)
  have new: "marks (thread_rows t ?front @ [row]) (ge_id row) = []"
  proof -
    have "ge_relates_to e \<noteq> Some (ge_id row)" if "e \<in> set (thread_rows t ?front)" for e
    proof -
      have "e \<in> set ?front" using that by (simp add: thread_rows_def)
      then have "ge_relates_to e \<in> set (map ge_relates_to tab)" using maps(6) by (metis image_eqI list.set_map)
      then show ?thesis using fresh by (auto simp: fresh_id_def list_all_iff)
    qed
    moreover have "ge_relates_to row \<noteq> Some (ge_id row)"
      using relates fresh row(1) by (auto simp: fresh_id_def list_all_iff thread_rows_def)
    ultimately show ?thesis by (auto simp: marks_def filter_empty_conv)
  qed
  have statuses: "ge_status e = implied_status (thread_rows t ?front @ [row]) e" if "e \<in> set (thread_rows t ?front)" for e
  proof -
    have "e \<in> f ` set (thread_rows t tab)" using that unfolding rows by simp
    then obtain q where q: "q \<in> set (thread_rows t tab)" "e = f q" by auto
    have "ge_id q \<noteq> []" using ids q(1) by (simp add: thread_rows_def)
    moreover have "ge_status q = implied_status (thread_rows t ?front) q"
      using ok q(1) implied_same[OF map_forget_rows[OF same], of q q t] by (auto simp: ledger_ok_def list_all_iff)
    ultimately show ?thesis using q(2) row(1) by (auto simp: f_def implied_status_def marks_def truthy_text_def)
  qed
  have "implied_status (thread_rows t ?front @ [row]) row = base_status (ge_intent row)"
    using new by (simp add: implied_status_def)
  moreover have "distinct (map ge_id ?front @ [ge_id row])"
    using ok fresh maps(1) by (auto simp: ledger_ok_def fresh_id_def list_all_iff)
  moreover note next_seq_pos[of t tab]
  moreover have "list_all (\<lambda>e. ge_id e \<noteq> [] \<and> (ge_thread e = t \<longrightarrow> 0 < ge_seq e)) ?front"
    unfolding front using ok by (auto simp: ledger_ok_def list_all_iff f_def)
  ultimately show "ledger_ok t (?front @ [row])"
    using ok fresh row statuses seq maps(2)
    by (auto simp: ledger_ok_def thread_rows_def[of t "[row]"] sorted_wrt_append list_all_iff fresh_id_def)
  show "grown t tab ?front [row]"
    unfolding grown_def using same seq row(2) relates inj
    by (auto simp: front f_def truthy_text_def list_all2_map2 list_all2_same thread_rows_def dest: inj)
qed

lemma commit_grows:
  assumes ok: "ledger_ok t tab" and row: "ge_thread row = t" "fresh_id (ge_id row) tab"
    and us: "map forget_status (update_statuses us tab) = map forget_status tab"
  shows "commit_classified row us tab = Inr (row\<lparr>ge_seq := next_seq t tab\<rparr>,
    update_statuses us tab @ [row\<lparr>ge_seq := next_seq t tab\<rparr>])"
proof -
  let ?front = "update_statuses us tab"
  note maps = forget_maps[OF us]
  have "ge_id q \<noteq> ge_id row" if "q \<in> set ?front" for q
  proof -
    have "ge_id q \<in> ge_id ` set tab" using that maps(1) by (metis image_eqI list.set_map)
    then show ?thesis using row(2) by (auto simp: fresh_id_def list_all_iff)
  qed
  moreover have "ge_seq q \<noteq> next_seq t tab" if "q \<in> set ?front" "ge_thread q = t" for q
  proof -
    have "q \<in> set (thread_rows t ?front)" using that by (simp add: thread_rows_def)
    then have "ge_seq q \<in> ge_seq ` set (thread_rows t tab)" using maps(2) by (metis image_eqI list.set_map)
    then show ?thesis using next_seq_greater by fastforce
  qed
  ultimately show ?thesis using row(1) by (auto simp: commit_classified_def insert_entry_def Let_def list_ex_iff)
qed

lemma record_message_grows:
  assumes ok: "ledger_ok t tab" and job: "jb_thread (me_job ev) = t" and fresh: "fresh_id (me_id ev) tab"
    and room: "length (thread_rows t tab) < max_entries"
  obtains front row where "record_message max_entries ev tab = Inr (front @ [row])"
    and "ledger_ok t (front @ [row])" and "grown t tab front [row]" and "ge_source_row row = row_source ev"
    and "\<And>i. i \<noteq> me_id ev \<Longrightarrow> fresh_id i tab \<Longrightarrow> fresh_id i (front @ [row])"
proof -
  have le: "list_entries t tab = thread_rows t tab" using ok by (intro list_entries_ok) (simp add: ledger_ok_def)
  define result where "result = (if jb_provenance (me_job ev) \<noteq> PHuman then noise else me_result ev)"
  obtain us relates where u: "(if jb_provenance (me_job ev) \<noteq> PHuman then ([], None)
      else status_updates (me_result ev) (thread_rows t tab)) = (us, relates)" by fastforce
  have ids: "ge_id e \<noteq> []" if "e \<in> set (thread_rows t tab)" for e
    using ok that by (auto simp: ledger_ok_def list_all_iff thread_rows_def)
  have us: "us = (if truthy_text relates \<and> dict_get related_status (cl_intent result) \<noteq> None
      then [(the relates, the (dict_get related_status (cl_intent result)))] else [])"
    and rel: "relates = None \<or> relates = Some [] \<or> (\<exists>e\<in>set (thread_rows t tab). relates = Some (ge_id e))"
    using u status_updates_spec[of "me_result ev" "thread_rows t tab" us relates] ids
    by (auto simp: result_def truthy_text_def split: if_splits)
  let ?e = "classified_entry (me_id ev) (me_now ev) (me_job ev) result relates"
  let ?row = "?e\<lparr>ge_seq := next_seq t tab\<rparr>"
  have fields: "ge_intent ?row = cl_intent result" "ge_id ?row = me_id ev" "ge_relates_to ?row = relates" "ge_thread ?row = t"
    "ge_status ?row = base_status (ge_intent ?row)" "ge_source_row ?row = row_source ev" "ge_seq ?row = next_seq t tab"
    by (simp_all add: classified_entry_def job row_source_def)
  note grow = ledger_ok_grow[OF ok us[folded fields(1)] rel _ fields(3,4,7,5)]
  have f: "fresh_id (ge_id ?row) tab" using fresh fields(2) by simp
  have commit: "commit_classified ?e us tab = Inr (?row, update_statuses us tab @ [?row])"
    using commit_grows[OF ok, of ?e us] grow(2)[OF f] fields f by (simp add: grown_def classified_entry_def)
  have "list_entries t (update_statuses us tab @ [?row]) = thread_rows t (update_statuses us tab @ [?row])"
    using grow(1)[OF f] by (intro list_entries_ok) (simp add: ledger_ok_def)
  moreover have "length (thread_rows t (update_statuses us tab)) = length (thread_rows t tab)"
    using forget_maps(2)[of "update_statuses us tab" tab t] grow(2)[OF f] by (metis grown_def length_map)
  ultimately have "length (list_entries t (update_statuses us tab @ [?row])) \<le> max_entries"
    using room fields(4) by (simp add: thread_rows_def)
  then have "record_message max_entries ev tab = Inr (update_statuses us tab @ [?row])"
    using u commit le job
    by (auto simp: record_message_def persist_non_human_def commit_classification_def prune_def Let_def result_def split: if_splits)
  moreover have "fresh_id i (update_statuses us tab @ [?row])" if "i \<noteq> me_id ev" "fresh_id i tab" for i
  proof -
    have "map forget_status (update_statuses us tab) = map forget_status tab" using grow(2)[OF f] by (simp add: grown_def)
    note maps = forget_maps[OF this]
    have "fresh_id i (update_statuses us tab)" using that(2) unfolding fresh_id_iff maps(1) maps(6) .
    moreover have "relates \<noteq> Some i" using rel that(2) by (auto simp: fresh_id_iff thread_rows_def)
    ultimately show ?thesis using that fields by (simp add: fresh_id_def)
  qed
  ultimately show ?thesis using that grow[OF f] fields(6) by blast
qed

definition fresh_ids :: "message_event list \<Rightarrow> ledger_table \<Rightarrow> bool" where
  "fresh_ids evs tab \<longleftrightarrow> distinct (map me_id evs) \<and> list_all (\<lambda>ev. fresh_id (me_id ev) tab) evs"

lemma grown_refl: "grown t tab tab []"
  by (simp add: grown_def list.rel_refl)

lemma grown_trans:
  assumes "grown t tab front rows" and "grown t (front @ rows) (front' @ rows') [row]" and "length front' = length front"
  shows "grown t tab front' (rows' @ [row])"
proof -
  have parts: "map forget_status front' = map forget_status front" "map forget_status rows' = map forget_status rows"
    using assms(2,3) by (simp_all add: grown_def)
  have "list_all2 (\<lambda>e q. ge_thread e \<noteq> t \<longrightarrow> e = q) (front @ rows) (front' @ rows')" using assms(2) by (simp add: grown_def)
  then have keep: "list_all2 (\<lambda>e q. ge_thread e \<noteq> t \<longrightarrow> e = q) front front'"
    using assms(3) by (simp add: list_all2_append)
  have "list_all2 (\<lambda>e q. ge_thread e \<noteq> t \<longrightarrow> e = q) tab front'"
    using assms(1) keep by (auto simp: grown_def list_all2_conv_all_nth)
  moreover have "list_all (\<lambda>r. ge_thread r = t \<and> list_all (\<lambda>e. ge_seq e < ge_seq r) (thread_rows t tab)) rows'"
    using assms(1) by (subst forget_list_all[OF parts(2)]) (simp_all add: grown_def)
  moreover have "list_all (\<lambda>e. ge_seq e < ge_seq row) (thread_rows t tab)"
  proof -
    have "map forget_status tab = map forget_status front" using assms(1) by (simp add: grown_def)
    from forget_list_all[OF map_forget_rows[OF this, of t], of "\<lambda>e. ge_seq e < ge_seq row"]
    show ?thesis using assms(2) by (simp add: grown_def)
  qed
  ultimately show ?thesis using assms(1,2) parts by (simp add: grown_def)
qed

lemma record_messages_grow:
  assumes "ledger_ok t tab" and "list_all (\<lambda>ev. jb_thread (me_job ev) = t) evs" and "fresh_ids evs tab"
    and "length (thread_rows t tab) + length evs \<le> max_entries"
  shows "\<exists>front rows. record_messages max_entries evs tab = Inr (front @ rows) \<and> ledger_ok t (front @ rows)
    \<and> grown t tab front rows \<and> map ge_source_row rows = map row_source evs \<and> length front = length tab
    \<and> (\<forall>i. i \<notin> set (map me_id evs) \<longrightarrow> fresh_id i tab \<longrightarrow> fresh_id i (front @ rows))"
  using assms
proof (induction evs rule: rev_induct)
  case Nil
  then show ?case using grown_refl[of t tab] by (intro exI[of _ tab] exI[of _ "[]"]) simp
next
  case (snoc ev evs)
  obtain front rows where IH: "record_messages max_entries evs tab = Inr (front @ rows)" "ledger_ok t (front @ rows)"
      "grown t tab front rows" "map ge_source_row rows = map row_source evs" "length front = length tab"
      "\<And>i. i \<notin> set (map me_id evs) \<Longrightarrow> fresh_id i tab \<Longrightarrow> fresh_id i (front @ rows)"
    using snoc by (auto simp: fresh_ids_def)
  have split: "record_messages max_entries (xs @ ys) tb = bind_result (record_messages max_entries xs tb) (record_messages max_entries ys)"
    for xs ys tb
    by (induction xs arbitrary: tb) (simp, simp, metis bind_result.simps sumE)
  have "length rows = length evs" using IH(4) by (metis length_map)
  moreover have "thread_rows t rows = rows" using IH(3) by (auto simp: grown_def thread_rows_def list_all_iff)
  moreover have "length (thread_rows t front) = length (thread_rows t tab)"
    using IH(3) forget_maps(2)[of front tab t] by (metis grown_def length_map)
  ultimately have room: "length (thread_rows t (front @ rows)) < max_entries" using snoc.prems(4) by simp
  have "fresh_id (me_id ev) (front @ rows)" using snoc.prems(3) IH(6) by (auto simp: fresh_ids_def)
  from record_message_grows[OF IH(2) _ this room] snoc.prems(2) obtain front2 row where
    r: "record_message max_entries ev (front @ rows) = Inr (front2 @ [row])" "ledger_ok t (front2 @ [row])"
      "grown t (front @ rows) front2 [row]" "ge_source_row row = row_source ev"
      "\<And>i. i \<noteq> me_id ev \<Longrightarrow> fresh_id i (front @ rows) \<Longrightarrow> fresh_id i (front2 @ [row])" by auto
  have len: "length front2 = length front + length rows" using r(3) by (metis grown_def length_append length_map)
  define f2 r2 where "f2 = take (length front) front2" and "r2 = drop (length front) front2"
  have f2: "front2 = f2 @ r2" "length f2 = length front" using len by (simp_all add: f2_def r2_def)
  have "map forget_status r2 = map forget_status rows" using r(3) f2 by (simp add: grown_def)
  then have "map ge_source_row r2 = map ge_source_row rows" by (rule forget_map_eq) simp
  moreover have "\<forall>i. i \<notin> set (map me_id (evs @ [ev])) \<longrightarrow> fresh_id i tab \<longrightarrow> fresh_id i (front2 @ [row])"
    using IH(6) r(5) by simp
  moreover have "record_messages max_entries (evs @ [ev]) tab = Inr (f2 @ r2 @ [row])"
    using IH(1) r(1) f2(1) split by simp
  moreover note grown_trans[OF IH(3) r(3)[unfolded f2(1)] f2(2)]
  moreover have "ledger_ok t (f2 @ r2 @ [row])" using r(2) f2(1) by simp
  ultimately show ?case using IH(4,5) r(4) f2 by (intro exI[of _ f2] exI[of _ "r2 @ [row]"] conjI) simp_all
qed

section \<open>Dropping the end of a conversation\<close>

definition stays_row :: "string list \<Rightarrow> goal_entry \<Rightarrow> bool" where
  "stays_row D r = (case ge_source_row r of None \<Rightarrow> True | Some i \<Rightarrow> i \<notin> set D)"

definition update_one :: "(string \<times> goal_status) list \<Rightarrow> goal_entry \<Rightarrow> goal_entry" where
  "update_one us e = (case map_of us (ge_id e) of None \<Rightarrow> e | Some s \<Rightarrow> e\<lparr>ge_status := s\<rparr>)"

lemma update_statuses_map: "distinct (map fst us) \<Longrightarrow> update_statuses us tab = map (update_one us) tab"
proof (induction us arbitrary: tab)
  case Nil
  then show ?case by (simp add: update_statuses_def update_one_def[abs_def])
next
  case (Cons u us)
  then have "map_of us (fst u) = None" by (simp add: map_of_eq_None_iff)
  then show ?case using Cons
    by (cases u) (auto simp: update_statuses_def update_status_def update_one_def intro!: map_cong split: option.split)
qed

lemma drop_undoes_growth:
  assumes ok: "ledger_ok t tab" and ok': "ledger_ok t (front @ rows)" and grown: "grown t tab front rows"
    and rows: "rows = r # rs" and stay: "list_all (stays_row D) (thread_rows t tab)" and gone: "\<not> stays_row D r"
  shows "drop_rows t D (front @ rows) = (length rows, tab)"
proof -
  let ?kept = "thread_rows t front"
  have same: "map forget_status front = map forget_status tab" using grown by (simp add: grown_def)
  note maps = forget_maps[OF same] and same_rows = map_forget_rows[OF same, of t]
  have trows: "thread_rows t rows = rows" using grown by (auto simp: grown_def thread_rows_def list_all_iff)
  have le: "list_entries t (front @ rows) = ?kept @ rows"
    using ok' by (subst list_entries_ok) (simp_all add: ledger_ok_def trows)
  have sorted: "sorted_wrt (<) (map ge_seq (?kept @ rows))" using ok' by (simp add: ledger_ok_def trows)
  then have "sorted (map ge_seq (?kept @ rows))" by (rule strict_sorted_imp_sorted)
  then have srt: "sort_key ge_seq (?kept @ rows) = ?kept @ rows" "sort_key ge_seq ?kept = ?kept"
    by (simp_all add: sort_key_id_if_sorted sorted_append)
  have "list_all (stays_row D) ?kept"
    using stay forget_list_all[OF same_rows, of "stays_row D"] by (simp add: stays_row_def)
  then have cut: "split_at_dropped (?kept @ rows) D = (?kept, rows)"
    using gone rows unfolding split_at_dropped_def srt Let_def stays_row_def[symmetric]
    by (simp add: list_all_iff takeWhile_append2 dropWhile_append2)
  have ids: "ge_id e \<noteq> []" if "e \<in> set ?kept" for e
    using ok' that by (auto simp: ledger_ok_def list_all_iff thread_rows_def)
  let ?us = "statuses_without_dropped ?kept rows"
  have us: "?us = map (\<lambda>q. (ge_id q, implied_status ?kept q))
      (filter (\<lambda>q. marks rows (ge_id q) \<noteq> [] \<and> implied_status ?kept q \<noteq> ge_status q) ?kept)"
    using statuses_without_dropped_eq[OF ids] srt by simp
  have "distinct (map ge_id ?kept)"
    using ok' by (auto simp: ledger_ok_def thread_rows_def distinct_map_filter)
  then have dist: "distinct (map fst ?us)" unfolding us by (simp add: comp_def distinct_map_filter)
  have restores: "update_one ?us q = e" if eq: "e \<in> set tab" "q \<in> set front" "forget_status q = forget_status e"
      "ge_thread e \<noteq> t \<longrightarrow> e = q" for e q
  proof (cases "ge_thread e = t")
    case False
    then have "q = e" using eq(4) by simp
    have "map_of ?us (ge_id q) = None"
    proof (rule ccontr)
      assume "map_of ?us (ge_id q) \<noteq> None"
      then obtain p where p: "p \<in> set ?kept" "ge_id p = ge_id q" unfolding us by (auto simp: map_of_eq_None_iff)
      then have "p \<in> set front" "ge_thread p = t" by (simp_all add: thread_rows_def)
      moreover have "distinct (map ge_id front)" using ok' by (simp add: ledger_ok_def)
      ultimately show False using p(2) eq(2) \<open>q = e\<close> False by (metis distinct_map inj_on_def)
    qed
    then show ?thesis using \<open>q = e\<close> by (simp add: update_one_def)
  next
    case True
    then have thread: "ge_thread q = t" using forget_status_fields[OF eq(3)] by simp
    then have q: "q \<in> set ?kept" and e: "e \<in> set (thread_rows t tab)" using eq(1,2) True by (simp_all add: thread_rows_def)
    have was: "ge_status e = implied_status ?kept q"
      using ok e implied_same[OF same_rows eq(3)] by (simp add: ledger_ok_def list_all_iff)
    have now: "ge_status q = implied_status (?kept @ rows) q"
      using ok' q by (auto simp: ledger_ok_def list_all_iff trows)
    have get: "map_of ?us (ge_id q) = (if marks rows (ge_id q) \<noteq> [] \<and> implied_status ?kept q \<noteq> ge_status q
        then Some (implied_status ?kept q) else None)"
    proof -
      have uniq: "p = q" if "p \<in> set ?kept" "ge_id p = ge_id q" for p
        using that q \<open>distinct (map ge_id ?kept)\<close> by (auto simp: distinct_map inj_on_def)
      show ?thesis
      proof (cases "marks rows (ge_id q) \<noteq> [] \<and> implied_status ?kept q \<noteq> ge_status q")
        case True
        then have "(ge_id q, implied_status ?kept q) \<in> set ?us" unfolding us using q by auto
        then show ?thesis using True dist by simp
      next
        case False
        then have "ge_id q \<notin> fst ` set ?us" unfolding us using uniq by auto
        then show ?thesis using False by (auto simp: map_of_eq_None_iff)
      qed
    qed
    have "ge_status (update_one ?us q) = ge_status e"
      using was now by (auto simp: update_one_def get implied_status_def)
    moreover have "forget_status (update_one ?us q) = forget_status e"
      using eq(3) by (simp add: update_one_def split: option.split)
    ultimately show ?thesis by (rule same_but_status[rotated])
  qed
  have undone: "map (update_one ?us) front = tab"
  proof (rule nth_equalityI)
    show len: "length (map (update_one ?us) front) = length tab" using same by (metis length_map)
    fix k assume "k < length (map (update_one ?us) front)"
    then have k: "k < length front" "k < length tab" using len by simp_all
    have "list_all2 (\<lambda>e q. ge_thread e \<noteq> t \<longrightarrow> e = q) tab front" using grown by (simp add: grown_def)
    then have "ge_thread (tab ! k) \<noteq> t \<longrightarrow> tab ! k = front ! k" using k by (simp add: list_all2_conv_all_nth)
    moreover have "forget_status (front ! k) = forget_status (tab ! k)" using same k by (metis nth_map)
    ultimately show "map (update_one ?us) front ! k = tab ! k" using restores[of "tab ! k" "front ! k"] k by simp
  qed
  have "\<not> (ge_thread e = t \<and> ge_seq r \<le> ge_seq e)" if "e \<in> set front" for e
    using that sorted rows by (auto simp: thread_rows_def sorted_wrt_append)
  moreover have "ge_thread e = t \<and> ge_seq r \<le> ge_seq e" if "e \<in> set rows" for e
  proof -
    have "ge_thread e = t" using that grown by (simp add: grown_def list_all_iff)
    moreover have "sorted_wrt (<) (map ge_seq (r # rs))" using sorted rows by (simp add: sorted_wrt_append)
    ultimately show ?thesis using that rows by auto
  qed
  ultimately have parts: "filter (\<lambda>e. ge_thread e = t \<and> ge_seq r \<le> ge_seq e) (front @ rows) = rows"
      "filter (\<lambda>e. \<not> (ge_thread e = t \<and> ge_seq r \<le> ge_seq e)) (front @ rows) = front"
    by (auto simp: filter_empty_conv filter_id_conv)
  have "D \<noteq> []" using gone by (auto simp: stays_row_def split: option.splits)
  then have "drop_rows t D (front @ rows) = truncate_entries t (ge_seq r) ?us (front @ rows)"
    unfolding drop_rows_def le cut by (simp add: rows)
  then show ?thesis
    unfolding truncate_entries_def Let_def parts update_statuses_map[OF dist] undone .
qed

lemma record_messages_append:
  "record_messages n (xs @ ys) tab = bind_result (record_messages n xs tab) (record_messages n ys)"
  by (induction xs arbitrary: tab) (simp, simp, metis bind_result.simps sumE)

definition stays_event :: "string list \<Rightarrow> message_event \<Rightarrow> bool" where
  "stays_event D ev = (case row_source ev of None \<Rightarrow> True | Some i \<Rightarrow> i \<notin> set D)"

text \<open>
  C12: While the ledger of a conversation stays within its limit, so that nothing is pruned, dropping the messages at the end
  of the conversation leaves the ledger as it was when the last kept message had been recorded: the rows of the dropped messages are gone, and every goal they had deferred or replaced has the status it had,
  however the kept messages had changed it before.
\<close>

theorem drop_equals_never:
  assumes "ledger_ok t tab" and "list_all (\<lambda>e. jb_thread (me_job e) = t) (kept @ ev # later)"
    and "fresh_ids (kept @ ev # later) tab"
    and "length (thread_rows t tab) + length (kept @ ev # later) \<le> max_entries"
    and "list_all (stays_row D) (thread_rows t tab)" and "list_all (stays_event D) kept" and "\<not> stays_event D ev"
  shows "\<exists>before after. record_messages max_entries kept tab = Inr before
    \<and> record_messages max_entries (kept @ ev # later) tab = Inr after
    \<and> drop_rows t D after = (Suc (length later), before)"
proof -
  obtain front rows where first: "record_messages max_entries kept tab = Inr (front @ rows)" "ledger_ok t (front @ rows)"
      "grown t tab front rows" "map ge_source_row rows = map row_source kept"
      "\<And>i. i \<notin> set (map me_id kept) \<Longrightarrow> fresh_id i tab \<Longrightarrow> fresh_id i (front @ rows)"
    using record_messages_grow[OF assms(1), of kept max_entries] assms(2-4) by (auto simp: fresh_ids_def)
  have "fresh_ids (ev # later) (front @ rows)"
    using assms(3) by (auto simp: fresh_ids_def list_all_iff intro!: first(5))
  moreover have trows: "thread_rows t rows = rows" using first(3) by (auto simp: grown_def thread_rows_def list_all_iff)
  moreover have same: "map forget_status (thread_rows t front) = map forget_status (thread_rows t tab)"
    using first(3) by (intro map_forget_rows) (simp add: grown_def)
  moreover have "length rows = length kept" using first(4) by (metis length_map)
  ultimately obtain front2 rows2 where second: "record_messages max_entries (ev # later) (front @ rows) = Inr (front2 @ rows2)"
      "ledger_ok t (front2 @ rows2)" "grown t (front @ rows) front2 rows2" "map ge_source_row rows2 = map row_source (ev # later)"
    using record_messages_grow[OF first(2), of "ev # later" max_entries] assms(2,4) map_eq_imp_length_eq[OF same] by auto
  obtain r rs where rows2: "rows2 = r # rs" "ge_source_row r = row_source ev" "length rs = length later"
    using second(4) by (cases rows2) (auto dest: map_eq_imp_length_eq)
  have "list_all (stays_row D) rows"
    using assms(6) arg_cong[OF first(4), of "list_all (\<lambda>s. case s of None \<Rightarrow> True | Some i \<Rightarrow> i \<notin> set D)"]
    by (simp add: list.pred_map comp_def stays_row_def[abs_def] stays_event_def[abs_def])
  then have "list_all (stays_row D) (thread_rows t (front @ rows))"
    using assms(5) forget_list_all[OF same, of "stays_row D"] by (simp add: trows stays_row_def[abs_def])
  then have "drop_rows t D (front2 @ rows2) = (length rows2, front @ rows)"
    using rows2 assms(7) by (intro drop_undoes_growth[OF first(2) second(2,3)]) (auto simp: stays_row_def stays_event_def)
  moreover have "record_messages max_entries (kept @ ev # later) tab = Inr (front2 @ rows2)"
    unfolding record_messages_append first(1) bind_result.simps by (rule second(1))
  moreover have "length rows2 = Suc (length later)" using rows2 by simp
  ultimately show ?thesis using first(1) by metis
qed

section \<open>Rows read back\<close>

definition constraint_wf :: "constraint \<Rightarrow> bool" where
  "constraint_wf c \<longleftrightarrow> cn_source c \<noteq> []"

definition entry_wf :: "goal_entry \<Rightarrow> bool" where
  "entry_wf e \<longleftrightarrow> ge_relates_to e \<noteq> Some [] \<and> ge_source_row e \<noteq> Some []
     \<and> list_all constraint_wf (ge_constraints e) \<and> list_all (\<lambda>s. py_strip s \<noteq> []) (ge_done_when e)"

lemma value_of_inverse:
  "map_of provenance_values (value_of provenance_values p) = Some p"
  "map_of channel_values (value_of channel_values ch) = Some ch" "value_of channel_values ch \<noteq> []"
  "map_of intent_values (value_of intent_values i) = Some i"
  "map_of status_values (value_of status_values s) = Some s"
  "map_of kind_values (value_of kind_values k) = Some k"
proof -
  show "map_of provenance_values (value_of provenance_values p) = Some p"
    by (cases p) (simp_all add: provenance_values_def value_of_def)
  show "map_of channel_values (value_of channel_values ch) = Some ch" "value_of channel_values ch \<noteq> []"
    by (cases ch; simp add: channel_values_def value_of_def)+
  show "map_of intent_values (value_of intent_values i) = Some i"
    by (cases i) (simp_all add: intent_values_def value_of_def)
  show "map_of status_values (value_of status_values s) = Some s"
    by (cases s) (simp_all add: status_values_def value_of_def)
  show "map_of kind_values (value_of kind_values k) = Some k"
    by (cases k) (simp_all add: kind_values_def value_of_def)
qed

lemma or_default_JStr [simp]: "or_default (Some (JStr s)) d = (if s = [] then d else s)"
  by (simp add: or_default_def json_truthy_def py_str_json_def)

lemma constraint_reads_back:
  assumes "constraint_wf c"
  shows "constraint_from_json i (JObj [(''kind'', JStr (value_of kind_values (cn_kind c))), (''pattern'', JStr (cn_pattern c)),
      (''source_entry_id'', JStr (cn_source c)), (''verbatim'', JStr (cn_verbatim c))]) = Some c"
proof -
  have "value_of kind_values k \<noteq> []" for k by (cases k) (simp_all add: kind_values_def value_of_def)
  then show ?thesis using assms by (simp add: constraint_from_json_def value_of_inverse constraint_wf_def)
qed

lemma constraints_read_back:
  "list_all constraint_wf cs \<Longrightarrow> constraints_from_json (Some (constraints_to_json cs)) i = cs"
  by (induction cs) (simp_all add: constraints_from_json_def constraints_to_json_def map_filter_simps constraint_reads_back)

lemma entry_reads_back: "entry_wf e \<Longrightarrow> entry_from_row (row_of_entry e) = Some e"
proof -
  assume wf: "entry_wf e"
  have "done_when_from_json (Some (JList (map JStr (ge_done_when e)))) = ge_done_when e"
    using wf by (simp add: done_when_from_json_def entry_wf_def comp_def py_str_json_def list_all_iff filter_id_conv)
  moreover have "constraints_from_json (Some (constraints_to_json (ge_constraints e))) (ge_id e) = ge_constraints e"
    using wf by (intro constraints_read_back) (simp add: entry_wf_def)
  ultimately show ?thesis
    using wf by (cases "ge_channel e")
      (auto simp: entry_from_row_def row_of_entry_def value_of_inverse truthy_text_def entry_wf_def Let_def)
qed

definition classification_wf :: "classification \<Rightarrow> bool" where
  "classification_wf r \<longleftrightarrow> cl_relates_to r \<noteq> Some [] \<and> list_all (\<lambda>s. py_strip s \<noteq> []) (cl_done_when r)"

lemma classification_of_payload_wf: "classification_of_payload j = Some r \<Longrightarrow> classification_wf r"
proof -
  have "list_all (\<lambda>s. py_strip s \<noteq> []) (done_when_items (Some (JList items)))" for items
    by (induction items) (auto simp: done_when_items_def map_filter_simps split: json.split option.split)
  then have "list_all (\<lambda>s. py_strip s \<noteq> []) (done_when_items raw)" for raw
    by (auto simp: done_when_items_def split: option.split json.split)
  then show "classification_of_payload j = Some r \<Longrightarrow> ?thesis"
    by (auto simp: classification_of_payload_def classification_wf_def Let_def split: json.splits option.splits if_splits)
qed

lemma fail_open_wf [simp]: "classification_wf (fail_open_classification es)" "classification_wf noise"
  by (simp_all add: classification_wf_def fail_open_classification_def noise_def)

definition event_wf :: "message_event \<Rightarrow> bool" where
  "event_wf ev \<longleftrightarrow> me_id ev \<noteq> [] \<and> row_source ev \<noteq> Some [] \<and> classification_wf (me_result ev)"

definition table_wf :: "ledger_table \<Rightarrow> bool" where
  "table_wf tab \<longleftrightarrow> list_all (\<lambda>e. ge_id e \<noteq> [] \<and> entry_wf e) tab"

lemma status_wf [simp]: "entry_wf (e\<lparr>ge_status := s\<rparr>) = entry_wf e" "entry_wf (e\<lparr>ge_seq := n\<rparr>) = entry_wf e"
  by (simp_all add: entry_wf_def)

lemma table_wf_simps [simp]:
  "table_wf []" "table_wf (xs @ ys) \<longleftrightarrow> table_wf xs \<and> table_wf ys" "table_wf (e # es) \<longleftrightarrow> ge_id e \<noteq> [] \<and> entry_wf e \<and> table_wf es"
  by (simp_all add: table_wf_def)

lemma table_wf_filter: "table_wf tab \<Longrightarrow> table_wf (filter P tab)"
  by (simp add: table_wf_def list_all_iff)

lemma table_wf_update: "table_wf tab \<Longrightarrow> table_wf (update_statuses us tab)"
proof (induction us arbitrary: tab)
  case Nil
  then show ?case by (simp add: update_statuses_def)
next
  case (Cons u us)
  have "table_wf (update_status u tab)" using Cons.prems by (auto simp: table_wf_def list_all_iff update_status_def)
  then show ?case using Cons.IH[of "update_status u tab"] by (simp add: update_statuses_def)
qed

lemma table_wf_commit:
  "table_wf tab \<Longrightarrow> ge_id e \<noteq> [] \<Longrightarrow> entry_wf e \<Longrightarrow> commit_classified e us tab = Inr (s, tab') \<Longrightarrow> table_wf tab'"
  using table_wf_update[of tab us] by (auto simp: commit_classified_def insert_entry_def Let_def split: if_splits)

lemma table_wf_delete: "table_wf tab \<Longrightarrow> table_wf (fold (\<lambda>e. delete_entry (ge_id e)) es tab)"
  by (induction es arbitrary: tab) (simp_all add: delete_entry_def table_wf_filter)

lemma table_wf_insert: "insert_entries es tab = Inr tab' \<Longrightarrow> table_wf tab \<Longrightarrow> table_wf es \<Longrightarrow> table_wf tab'"
  by (induction es arbitrary: tab) (auto simp: insert_entry_def split: if_splits)

lemma classified_entry_wf:
  assumes "event_wf ev" and "r = noise \<or> r = me_result ev" and "relates \<noteq> Some []"
  shows "entry_wf (classified_entry (me_id ev) now (me_job ev) r relates)"
  using assms
  by (auto simp: entry_wf_def classified_entry_def event_wf_def classification_wf_def row_source_def noise_def constraint_wf_def
        list_all_iff)

lemma status_updates_relates:
  assumes "status_updates r entries = (us, relates)" and "table_wf entries" and "classification_wf r"
  shows "relates \<noteq> Some []"
proof -
  have "ge_id a \<noteq> []" if "latest_active entries = Some a" for a
  proof -
    have "a \<in> set entries" using that by (auto simp: latest_active_def find_Some_iff) (metis length_rev nth_mem set_rev)
    then show ?thesis using assms(2) by (simp add: table_wf_def list_all_iff)
  qed
  moreover from this have "related_entry r entries \<noteq> Some []"
    using assms(3) by (auto simp: related_entry_def Let_def classification_wf_def)
  ultimately show ?thesis
    using assms(1) by (auto simp: status_updates_def Let_def split: if_splits option.splits)
qed

lemma record_message_wf:
  assumes "table_wf tab" and "event_wf ev" and "record_message n ev tab = Inr tab'"
  shows "table_wf tab'"
proof (cases "jb_provenance (me_job ev) = PHuman")
  case False
  have e: "entry_wf (classified_entry (me_id ev) (me_now ev) (me_job ev) noise None)"
    by (intro classified_entry_wf[OF assms(2)]) simp_all
  obtain s where "commit_classified (classified_entry (me_id ev) (me_now ev) (me_job ev) noise None) [] tab = Inr (s, tab')"
    using assms(3) False by (auto simp: record_message_def persist_non_human_def Let_def)
  then show ?thesis using table_wf_commit[OF assms(1) _ e] assms(2) by (simp add: classified_entry_def event_wf_def)
next
  case True
  let ?es = "list_entries (jb_thread (me_job ev)) tab"
  obtain us relates where u: "status_updates (me_result ev) ?es = (us, relates)" by fastforce
  have "table_wf ?es" using assms(1) by (simp add: table_wf_def list_entries_def list_all_iff)
  then have "relates \<noteq> Some []" using status_updates_relates[OF u] assms(2) by (simp add: event_wf_def)
  then have e: "entry_wf (classified_entry (me_id ev) (me_now ev) (me_job ev) (me_result ev) relates)"
    by (intro classified_entry_wf[OF assms(2)]) simp_all
  obtain s mid where "commit_classified (classified_entry (me_id ev) (me_now ev) (me_job ev) (me_result ev) relates) us tab = Inr (s, mid)"
      and tab': "tab' = prune n (jb_thread (me_job ev)) mid"
    using assms(3) True u by (auto simp: record_message_def commit_classification_def Let_def)
  then have "table_wf mid"
    using table_wf_commit[OF assms(1) _ e] assms(2) by (simp add: classified_entry_def event_wf_def)
  then show ?thesis unfolding tab' by (simp add: prune_def Let_def table_wf_delete)
qed

lemma drop_rows_wf: "table_wf tab \<Longrightarrow> table_wf (snd (drop_rows t D tab))"
  by (simp add: drop_rows_def truncate_entries_def Let_def table_wf_update table_wf_filter split: prod.split list.split)

lemma id_map_range: "dict_get (dict_of_list (zip xs ys)) k = Some v \<Longrightarrow> v \<in> set ys"
  by (auto simp: dict_get_of_list dest!: map_of_SomeD dest: set_zip_rightD)

lemma id_map_total:
  "k \<in> set xs \<Longrightarrow> length xs \<le> length ys \<Longrightarrow> \<exists>v. dict_get (dict_of_list (zip xs ys)) k = Some v"
proof -
  assume "k \<in> set xs" "length xs \<le> length ys"
  then have "k \<in> fst ` set (dict_of_list (zip xs ys))"
    by (force simp: in_set_conv_nth image_iff set_zip)
  then have "dict_get (dict_of_list (zip xs ys)) k \<noteq> None" by (simp add: map_of_eq_None_iff)
  then show ?thesis by simp
qed

lemma retargeted_copies_wf:
  assumes "table_wf es" and "list_all (\<lambda>i. i \<noteq> []) fresh" and "length es \<le> length fresh"
  shows "table_wf (retargeted_copies fresh es t)"
proof -
  define m where "m = dict_of_list (zip (map ge_id es) fresh)"
  have named: "v \<noteq> []" if "dict_get m k = Some v" for k v
    using assms(2) id_map_range[OF that[unfolded m_def]] by (simp add: list_all_iff)
  have "the (dict_get m (ge_id e)) \<noteq> []" if "e \<in> set es" for e
    using id_map_total[of "ge_id e" "map ge_id es" fresh] that assms(3) named by (auto simp: m_def)
  moreover have "entry_wf e" if "e \<in> set es" for e using assms(1) that by (simp add: table_wf_def list_all_iff)
  moreover have "dict_get m k \<noteq> Some []" for k using named by blast
  ultimately show ?thesis
    unfolding retargeted_copies_def Let_def m_def[symmetric] table_wf_def
    by (auto simp: list_all_iff entry_wf_def constraint_wf_def dest!: set_zip_rightD split: option.splits if_splits)
qed

lemma branch_copies_wf:
  assumes "table_wf tab" and "list_all (\<lambda>i. i \<noteq> []) fresh" and "length (list_entries s tab) \<le> length fresh"
  shows "table_wf (branch_copies fresh s t D tab)"
proof -
  obtain kept dropped where split: "split_at_dropped (list_entries s tab) D = (kept, dropped)" by fastforce
  then have kept: "set kept \<subseteq> set (list_entries s tab)" "length kept \<le> length (list_entries s tab)"
    by (auto simp: split_at_dropped_def Let_def length_takeWhile_le dest: set_takeWhileD)
       (metis length_sort length_takeWhile_le)
  have "table_wf kept" using assms(1) kept(1) by (auto simp: table_wf_def list_all_iff list_entries_def)
  then have "table_wf (retargeted_copies fresh kept t)"
    using assms(2,3) kept(2) by (intro retargeted_copies_wf) auto
  then show ?thesis
    unfolding branch_copies_def split
    by (auto simp: table_wf_def list_all_iff dest!: set_zip_rightD split: option.splits)
qed

text \<open>The tables the ledger's operations lead to.\<close>

inductive ledger_reached :: "ledger_table \<Rightarrow> bool" where
  Fresh: "ledger_reached []"
| Message: "ledger_reached tab \<Longrightarrow> event_wf ev \<Longrightarrow> record_message n ev tab = Inr tab' \<Longrightarrow> ledger_reached tab'"
| Drop: "ledger_reached tab \<Longrightarrow> ledger_reached (snd (drop_rows t D tab))"
| Clear: "ledger_reached tab \<Longrightarrow> ledger_reached (snd (truncate_entries t 0 [] tab))"
| Branch: "ledger_reached tab \<Longrightarrow> list_all (\<lambda>i. i \<noteq> []) fresh \<Longrightarrow> length (list_entries s tab) \<le> length fresh
    \<Longrightarrow> copy_branch fresh s t D tab = Inr (n, tab') \<Longrightarrow> ledger_reached tab'"

lemma ledger_reached_wf: "ledger_reached tab \<Longrightarrow> table_wf tab"
proof (induction rule: ledger_reached.induct)
  case (Branch tab fresh s t D n tab')
  then show ?case
    using table_wf_insert[OF _ Branch.IH branch_copies_wf[OF Branch.IH Branch.hyps(2,3)]]
    by (auto simp: copy_branch_def Let_def)
qed (auto intro: record_message_wf drop_rows_wf simp: truncate_entries_def Let_def update_statuses_def table_wf_filter)

text \<open>
  Whatever sequence of messages, drops, clears and branches led to the table, every row of it is read back as the
  entry that was written: no stored value is outside its enumeration, and no constraint, condition or reference is lost in
  the text columns.
\<close>

theorem stored_rows_read_back:
  assumes "ledger_reached tab"
  shows "map (\<lambda>e. entry_from_row (row_of_entry e)) tab = map Some tab"
  using ledger_reached_wf[OF assms] entry_reads_back by (auto simp: table_wf_def list_all_iff)

definition note_event :: "string \<Rightarrow> string \<Rightarrow> intent \<Rightarrow> message_event" where
  "note_event i source what =
     \<lparr>me_job = \<lparr>jb_thread = ''t'', jb_verbatim = ''do it'', jb_provenance = PHuman, jb_channel = Some CMessage,
        jb_source_row = Some source, jb_generation = 0\<rparr>, me_id = i, me_now = 5,
      me_result = noise\<lparr>cl_intent := what, cl_done_when := [''built''],
        cl_constraints := [\<lparr>dr_kind = KPathGlob, dr_pattern = ''src/x'', dr_verbatim = ''not there''\<rparr>]\<rparr>\<rparr>"

lemma stored_rows_read_back_witness:
  "\<exists>e. record_message 4 (note_event ''a'' ''m1'' INewGoal) [] = Inr [e] \<and> ge_done_when e = [''built'']
     \<and> entry_from_row (row_of_entry e) = Some e"
proof -
  let ?ev = "note_event ''a'' ''m1'' INewGoal"
  have ok: "event_wf ?ev" by code_simp
  obtain e where e: "record_message 4 ?ev [] = Inr [e]" "ge_done_when e = [''built'']"
    by (simp add: record_message_def commit_classification_def commit_classified_def insert_entry_def note_event_def noise_def
          status_updates_def related_entry_def latest_active_def list_entries_def prune_def truthy_text_def classified_entry_def
          update_statuses_def Let_def)
  from ledger_reached.Message[OF ledger_reached.Fresh ok e(1)] stored_rows_read_back have
    "map (\<lambda>e. entry_from_row (row_of_entry e)) [e] = map Some [e]" by blast
  then show ?thesis using e by simp
qed

lemma drop_equals_never_witness:
  "\<exists>before after. record_messages 9 [note_event ''a'' ''m1'' INewGoal] [] = Inr before
     \<and> record_messages 9 [note_event ''a'' ''m1'' INewGoal, note_event ''b'' ''m2'' IPreempt] [] = Inr after
     \<and> drop_rows ''t'' [''m2''] after = (1, before)"
  using drop_equals_never[of "''t''" "[]" "[note_event ''a'' ''m1'' INewGoal]" "note_event ''b'' ''m2'' IPreempt" "[]" 9 "[''m2'']"]
  by (simp add: ledger_ok_def thread_rows_def fresh_ids_def fresh_id_def note_event_def noise_def stays_event_def row_source_def
        del: record_messages.simps)

section \<open>Text that is not the user's\<close>

lemma human_entries:
  "filter (\<lambda>e. ge_provenance e = PHuman) (list_entries t tab) = list_entries t (filter (\<lambda>e. ge_provenance e = PHuman) tab)"
  unfolding list_entries_def filter_sort filter_filter by (metis (mono_tags, lifting) filter_cong)

text \<open>
  A message that is not the user's (a verifier's steer, a summary, a tool result, the harness's own text) is stored but
  is inert: for every thread the goals, constraints and corrections the agent sees afterwards are those it saw before,
  whatever the text says.
\<close>

theorem foreign_text_inert:
  assumes "jb_provenance (me_job ev) \<noteq> PHuman" and "record_message n ev tab = Inr tab'"
  shows "length tab' = Suc (length tab) \<and> resolve_intent (list_entries t tab') pending = resolve_intent (list_entries t tab) pending"
proof -
  obtain row where "tab' = tab @ [row]" "ge_provenance row = jb_provenance (me_job ev)"
    using assms by (auto simp: record_message_def persist_non_human_def commit_classified_def insert_entry_def Let_def
        update_statuses_def classified_entry_def split: if_splits)
  moreover from this have "filter (\<lambda>e. ge_provenance e = PHuman) tab' = filter (\<lambda>e. ge_provenance e = PHuman) tab"
    using assms(1) by simp
  ultimately show ?thesis by (simp add: resolve_intent_def human_entries)
qed

lemma foreign_text_inert_witness:
  "\<exists>tab'. record_message 4 ((note_event ''a'' ''m1'' IScopeChange)\<lparr>me_job := (me_job (note_event ''a'' ''m1'' IScopeChange))
        \<lparr>jb_provenance := PToolResult\<rparr>\<rparr>) [] = Inr tab' \<and> length tab' = 1
     \<and> resolve_intent (list_entries ''t'' tab') False = resolve_intent [] False"
proof -
  let ?ev = "(note_event ''a'' ''m1'' IScopeChange)\<lparr>me_job := (me_job (note_event ''a'' ''m1'' IScopeChange))\<lparr>jb_provenance := PToolResult\<rparr>\<rparr>"
  obtain tab' where "record_message 4 ?ev [] = Inr tab'"
    by (simp add: record_message_def persist_non_human_def commit_classified_def insert_entry_def note_event_def Let_def
          update_statuses_def)
  moreover from foreign_text_inert[OF _ this, of "''t''" False] have
    "length tab' = 1 \<and> resolve_intent (list_entries ''t'' tab') False = resolve_intent [] False"
    by (simp add: note_event_def list_entries_def)
  ultimately show ?thesis by blast
qed

section \<open>A pruned row takes its mark with it\<close>

definition status_in :: "string \<Rightarrow> store_error + ledger_table \<Rightarrow> goal_status option" where
  "status_in i r = (case r of Inl _ \<Rightarrow> None | Inr tab \<Rightarrow> map_of (map (\<lambda>e. (ge_id e, ge_status e)) tab) i)"

definition plain_event :: "string \<Rightarrow> string \<Rightarrow> intent \<Rightarrow> string option \<Rightarrow> message_event" where
  "plain_event i source what relates =
     (note_event i source what)\<lparr>me_result := noise\<lparr>cl_intent := what, cl_relates_to := relates\<rparr>\<rparr>"

definition pruned_history :: "message_event list" where
  "pruned_history = [note_event ''a'' ''m1'' INewGoal, plain_event ''b'' ''m2'' IPreempt None,
     plain_event ''c'' ''m3'' IScopeChange (Some ''b''), plain_event ''e'' ''m4'' INoise None]"

text \<open>
  The goal \<open>a\<close> was put off by \<open>b\<close>, and \<open>b\<close> is pruned. Dropping the later message that replaced \<open>a\<close> makes \<open>a\<close> the active
  goal again: the row that had put it off is no longer there to say so.
\<close>

lemma pruned_deferral_lost:
  "status_in ''a'' (record_messages 3 pruned_history []) = Some GDeferred
   \<and> status_in ''a'' (bind_result (record_messages 3 (pruned_history @ [plain_event ''d'' ''m5'' INewGoal (Some ''a'')]) [])
     (\<lambda>tab. Inr (snd (drop_rows ''t'' [''m5''] tab)))) = Some GActive"
  by code_simp

end
