(* ===== verification/Ledger_Worker.thy ===== *)
theory Ledger_Worker
  imports Goal_Ledger
begin

text \<open>
  The class \<open>GoalLedger\<close> of \<open>core/verifier/ledger.py\<close>: a queue and a worker per thread, the cached views, and the rewrites of
  a conversation that run beside the worker. A step is what happens between two points where the code waits: the store
  serves its calls in the order they are made, so a call is part of the step that makes it. The classifier's answer, the
  fresh ids and the clock are arguments of the step that uses them; the wait for a queue to drain gives up after a bounded
  time, so the end of a rewrite may come at any point. Rewrites of one thread hold its turn lock, so there is one at a
  time. Shown: after a conversation was cleared only messages said since then leave rows, and a job whose message was dropped leaves none;
  and the view says that a classification is pending as long as one is.
\<close>

section \<open>State\<close>

datatype ledger_phase =
    WIdle
  | WClassify ledger_job "goal_entry list"
  | WPrune
  | WDelete "string list"
  | WSettle
  | WRefresh

record ledger_state =
  ls_queues :: "string \<rightharpoonup> ledger_job list"
  ls_workers :: "string \<rightharpoonup> ledger_phase"
  ls_pending :: "string \<rightharpoonup> int"
  ls_cache :: "(string, resolved_intent) dict"
  ls_dropped :: "string \<rightharpoonup> string list"
  ls_generations :: "string \<rightharpoonup> int"
  ls_closed :: bool
  ls_table :: ledger_table
  ls_branches :: "string \<rightharpoonup> goal_entry list"
  ls_cuts :: "string \<rightharpoonup> int \<times> (string \<times> goal_status) list"
  ls_max :: nat
  ls_cap :: nat

definition new_ledger :: "ledger_table \<Rightarrow> int \<Rightarrow> int \<Rightarrow> ledger_state" where
  "new_ledger tab max_entries thread_cap =
     \<lparr>ls_queues = Map.empty, ls_workers = Map.empty, ls_pending = Map.empty, ls_cache = [], ls_dropped = Map.empty,
      ls_generations = Map.empty, ls_closed = False, ls_table = tab, ls_branches = Map.empty, ls_cuts = Map.empty,
      ls_max = nat (max 1 max_entries), ls_cap = nat (max 1 thread_cap)\<rparr>"

definition get_or :: "('a \<rightharpoonup> 'b) \<Rightarrow> 'a \<Rightarrow> 'b \<Rightarrow> 'b" where
  "get_or m k d = (case m k of None \<Rightarrow> d | Some v \<Rightarrow> v)"

section \<open>Views\<close>

definition trim_cache :: "nat \<Rightarrow> (string, resolved_intent) dict \<Rightarrow> (string, resolved_intent) dict" where
  "trim_cache cap c = trim_oldest cap c"

definition put_view :: "string \<Rightarrow> resolved_intent \<Rightarrow> ledger_state \<Rightarrow> ledger_state" where
  "put_view t v st = st\<lparr>ls_cache := trim_cache (ls_cap st) (move_to_end t (dict_set t v (ls_cache st)))\<rparr>"

definition touch_pending_view :: "string \<Rightarrow> ledger_state \<Rightarrow> ledger_state" where
  "touch_pending_view t st = put_view t (case dict_get (ls_cache st) t of
       None \<Rightarrow> empty_resolved True
     | Some v \<Rightarrow> v\<lparr>ri_pending := True\<rparr>) st"

definition refresh_view :: "string \<Rightarrow> ledger_state \<Rightarrow> ledger_state" where
  "refresh_view t st =
     put_view t (resolve_intent (list_entries t (ls_table st)) (0 < get_or (ls_pending st) t 0)) st"

definition resolved_intent :: "string \<Rightarrow> ledger_state \<Rightarrow> resolved_intent option \<times> ledger_state" where
  "resolved_intent t st =
     (let pending = 0 < get_or (ls_pending st) t 0
      in case dict_get (ls_cache st) t of
           None \<Rightarrow> (if pending then Some (empty_resolved pending) else None, st)
         | Some v \<Rightarrow>
             if pending \<and> \<not> ri_pending v then (Some (v\<lparr>ri_pending := True\<rparr>), st)
             else (Some v, st\<lparr>ls_cache := move_to_end t (ls_cache st)\<rparr>))"

definition format_compaction_facts :: "resolved_intent \<Rightarrow> string" where
  "format_compaction_facts view = join_on [nl]
     ([''Ledger facts (authoritative; do not contradict these in Objective or Important Details):'']
      @ (case ri_active view of None \<Rightarrow> [] | Some g \<Rightarrow> [''- Objective: '' @ ge_verbatim g])
      @ map (\<lambda>c. ''- Constraint ('' @ value_of kind_values (cn_kind c) @ '' `'' @ cn_pattern c @ ''`): '' @ cn_verbatim c)
          (ri_standing view)
      @ map (\<lambda>d. ''- Deferred: '' @ ge_verbatim d) (ri_deferred view)
      @ (if ri_active view = None \<and> ri_standing view = [] then [''- (none)''] else []))"

definition format_subagent_context :: "resolved_intent \<Rightarrow> string" where
  "format_subagent_context view = join_on [nl]
     ([''Parent goal ledger:'']
      @ (case ri_active view of None \<Rightarrow> [] | Some g \<Rightarrow> [''Active goal: '' @ ge_verbatim g])
      @ map (\<lambda>c. ''Constraint: '' @ cn_verbatim c @ '' ('' @ value_of kind_values (cn_kind c) @ '' '' @ cn_pattern c @ '')'')
          (ri_standing view))"

definition compaction_facts :: "string \<Rightarrow> ledger_state \<Rightarrow> string option" where
  "compaction_facts t st = (case fst (resolved_intent t st) of
       None \<Rightarrow> None
     | Some v \<Rightarrow> if ri_pending v \<and> ri_active v = None then None else Some (format_compaction_facts v))"

definition subagent_context :: "string \<Rightarrow> ledger_state \<Rightarrow> string option" where
  "subagent_context t st = (case fst (resolved_intent t st) of
       None \<Rightarrow> None
     | Some v \<Rightarrow> if ri_active v = None \<and> ri_standing v = [] then None else Some (format_subagent_context v))"

definition restore_views :: "(string, resolved_intent) dict \<Rightarrow> ledger_state \<Rightarrow> nat \<times> ledger_state" where
  "restore_views views st =
     (let c = trim_cache (ls_cap st) views in (length c, st\<lparr>ls_cache := c\<rparr>))"

section \<open>Admission and the worker\<close>

definition ensure_worker :: "string \<Rightarrow> ledger_state \<Rightarrow> ledger_state" where
  "ensure_worker t st = (if ls_queues st t \<noteq> None then st
     else st\<lparr>ls_queues := (ls_queues st)(t \<mapsto> []), ls_workers := (ls_workers st)(t \<mapsto> WIdle)\<rparr>)"

definition admit :: "string \<Rightarrow> string \<Rightarrow> provenance \<Rightarrow> channel option \<Rightarrow> string option \<Rightarrow> ledger_state \<Rightarrow> ledger_state" where
  "admit t verbatim prov ch source st =
     (if ls_closed st \<or> py_strip verbatim = [] then st
      else let st1 = ensure_worker t st;
               st2 = st1\<lparr>ls_pending := (ls_pending st1)(t \<mapsto> get_or (ls_pending st1) t 0 + 1)\<rparr>;
               st3 = touch_pending_view t st2;
               job = \<lparr>jb_thread = t, jb_verbatim = py_strip verbatim, jb_provenance = prov, jb_channel = ch,
                      jb_source_row = source, jb_generation = get_or (ls_generations st3) t 0\<rparr>
           in st3\<lparr>ls_queues := (ls_queues st3)(t \<mapsto> get_or (ls_queues st3) t [] @ [job])\<rparr>)"

definition on_user_message :: "string \<Rightarrow> string option \<Rightarrow> string option \<Rightarrow> ledger_state \<Rightarrow> ledger_state" where
  "on_user_message t user_message row st =
     (let words = py_strip (case user_message of None \<Rightarrow> [] | Some m \<Rightarrow> m)
      in if words = [] then st else admit t words PHuman (Some CMessage) row st)"

definition is_stale :: "ledger_job \<Rightarrow> ledger_state \<Rightarrow> bool" where
  "is_stale job st \<longleftrightarrow> jb_generation job \<noteq> get_or (ls_generations st) (jb_thread job) 0
     \<or> (case jb_source_row job of None \<Rightarrow> False | Some i \<Rightarrow> i \<in> set (get_or (ls_dropped st) (jb_thread job) []))"

definition set_phase :: "string \<Rightarrow> ledger_phase \<Rightarrow> ledger_state \<Rightarrow> ledger_state" where
  "set_phase t p st = st\<lparr>ls_workers := (ls_workers st)(t \<mapsto> p)\<rparr>"

definition take_job :: "string \<Rightarrow> string \<Rightarrow> int \<Rightarrow> ledger_state \<Rightarrow> ledger_state option" where
  \<comment> \<open>from \<open>queue.get()\<close> to the classifier, or, for text that is not the user's, to the stored row\<close>
  "take_job t i now st = (case (ls_workers st t, get_or (ls_queues st) t []) of
       (Some WIdle, job # rest) \<Rightarrow>
         (let st1 = st\<lparr>ls_queues := (ls_queues st)(t \<mapsto> rest)\<rparr>
          in if ls_closed st1 \<or> is_stale job st1 then Some (set_phase t WSettle st1)
             else if jb_provenance job \<noteq> PHuman then
               (case persist_non_human i now job (ls_table st1) of
                  Inl _ \<Rightarrow> Some (set_phase t WSettle st1)
                | Inr tab \<Rightarrow> Some (set_phase t WSettle (st1\<lparr>ls_table := tab\<rparr>)))
             else Some (set_phase t (WClassify job (list_entries (jb_thread job) (ls_table st1))) st1))
     | _ \<Rightarrow> None)"

definition classified :: "string \<Rightarrow> string \<Rightarrow> int \<Rightarrow> classification option \<Rightarrow> ledger_state \<Rightarrow> ledger_state option" where
  \<comment> \<open>the classifier has answered, or raised\<close>
  "classified t i now answer st = (case ls_workers st t of
       Some (WClassify job entries) \<Rightarrow>
         (let result = (case answer of None \<Rightarrow> fail_open_classification (open_entries entries) | Some r \<Rightarrow> r)
          in if is_stale job st then Some (set_phase t WSettle st)
             else (case commit_classification i now job result entries (ls_table st) of
                 Inl _ \<Rightarrow> Some (set_phase t WSettle st)
               | Inr tab \<Rightarrow> Some (set_phase t WPrune (st\<lparr>ls_table := tab\<rparr>))))
     | _ \<Rightarrow> None)"

definition prune_ids :: "nat \<Rightarrow> string \<Rightarrow> ledger_table \<Rightarrow> string list" where
  "prune_ids max_entries thread tab =
     (let entries = list_entries thread tab;
          extra = length entries - max_entries;
          terminal = filter (\<lambda>e. ge_status e \<in> set terminal_statuses) entries
      in if length entries \<le> max_entries then []
         else map ge_id (take extra (filter (\<lambda>e. ge_constraints e = []) terminal
                @ filter (\<lambda>e. ge_constraints e \<noteq> []) terminal)))"

definition delete_next :: "string \<Rightarrow> string list \<Rightarrow> ledger_phase" where
  "delete_next t ids = (if ids = [] then WSettle else WDelete ids)"

definition prune_step :: "string \<Rightarrow> ledger_state \<Rightarrow> ledger_state option" where
  "prune_step t st = (case ls_workers st t of
       Some WPrune \<Rightarrow> Some (set_phase t (delete_next t (prune_ids (ls_max st) t (ls_table st))) st)
     | Some (WDelete (i # ids)) \<Rightarrow>
         Some (set_phase t (delete_next t ids) (st\<lparr>ls_table := delete_entry i (ls_table st)\<rparr>))
     | _ \<Rightarrow> None)"

definition settle_job :: "string \<Rightarrow> ledger_state \<Rightarrow> ledger_state option" where
  "settle_job t st = (case ls_workers st t of
       Some WSettle \<Rightarrow>
         (let pending = get_or (ls_pending st) t 0 - 1;
              st1 = (if pending \<le> 0
                then st\<lparr>ls_pending := (ls_pending st)(t := None), ls_dropped := (ls_dropped st)(t := None),
                        ls_generations := (ls_generations st)(t := None)\<rparr>
                else st\<lparr>ls_pending := (ls_pending st)(t \<mapsto> pending)\<rparr>)
          in Some (set_phase t WRefresh st1))
     | _ \<Rightarrow> None)"

definition finish_job :: "string \<Rightarrow> ledger_state \<Rightarrow> ledger_state option" where
  "finish_job t st = (case ls_workers st t of
       Some WRefresh \<Rightarrow> Some (set_phase t WIdle (if ls_closed st then st else refresh_view t st))
     | _ \<Rightarrow> None)"

section \<open>Rewrites\<close>

definition clear_start :: "string \<Rightarrow> ledger_state \<Rightarrow> ledger_state" where
  "clear_start t st = st\<lparr>ls_generations := (ls_generations st)(t \<mapsto> get_or (ls_generations st) t 0 + 1)\<rparr>"

definition clear_end :: "string \<Rightarrow> ledger_state \<Rightarrow> ledger_state" where
  "clear_end t st = st\<lparr>ls_table := snd (truncate_entries t 0 [] (ls_table st)), ls_cache := dict_pop t (ls_cache st)\<rparr>"

definition drop_start :: "string \<Rightarrow> string list \<Rightarrow> ledger_state \<Rightarrow> ledger_state" where
  "drop_start t D st =
     (if D \<noteq> [] \<and> get_or (ls_pending st) t 0 \<noteq> 0
      then st\<lparr>ls_dropped := (ls_dropped st)(t \<mapsto> List.union (get_or (ls_dropped st) t []) D)\<rparr> else st)"

definition drop_read :: "string \<Rightarrow> string list \<Rightarrow> ledger_state \<Rightarrow> ledger_state" where
  \<comment> \<open>what the truncation will remove and restore; \<open>None\<close> when the drop ends here\<close>
  "drop_read t D st =
     (case split_at_dropped (list_entries t (ls_table st)) D of
        (kept, d # ds) \<Rightarrow>
          st\<lparr>ls_cuts := (ls_cuts st)(t := (if D = [] then None
                else Some (ge_seq d, statuses_without_dropped kept (d # ds))))\<rparr>
      | (_, []) \<Rightarrow> st\<lparr>ls_cuts := (ls_cuts st)(t := None)\<rparr>)"

definition drop_end :: "string \<Rightarrow> ledger_state \<Rightarrow> ledger_state" where
  "drop_end t st = (case ls_cuts st t of
       None \<Rightarrow> st
     | Some (from_seq, us) \<Rightarrow>
         refresh_view t (st\<lparr>ls_table := snd (truncate_entries t from_seq us (ls_table st)), ls_cuts := (ls_cuts st)(t := None)\<rparr>))"

definition branch_read :: "string list \<Rightarrow> string \<Rightarrow> string \<Rightarrow> string list \<Rightarrow> ledger_state \<Rightarrow> ledger_state" where
  "branch_read fresh source target D st =
     st\<lparr>ls_branches := (ls_branches st)(target \<mapsto> branch_copies fresh source target D (ls_table st))\<rparr>"

definition branch_end :: "string \<Rightarrow> ledger_state \<Rightarrow> ledger_state" where
  \<comment> \<open>a failed insert raises before the view is refreshed\<close>
  "branch_end target st = (case ls_branches st target of
       None \<Rightarrow> st
     | Some copies \<Rightarrow>
         (let st1 = st\<lparr>ls_branches := (ls_branches st)(target := None)\<rparr>
          in case insert_entries copies (ls_table st) of
               Inl _ \<Rightarrow> st1
             | Inr tab \<Rightarrow> refresh_view target (st1\<lparr>ls_table := tab\<rparr>)))"

definition busy :: "string \<Rightarrow> ledger_state \<Rightarrow> bool" where
  "busy t st = (case ls_workers st t of
       None \<Rightarrow> False | Some WIdle \<Rightarrow> False | Some WRefresh \<Rightarrow> False | _ \<Rightarrow> True)"

definition close_ledger :: "ledger_state \<Rightarrow> ledger_state" where
  \<comment> \<open>a worker cancelled inside a job still runs its \<open>finally\<close>\<close>
  "close_ledger st = st\<lparr>ls_closed := True, ls_workers := Map.empty, ls_queues := Map.empty, ls_pending := Map.empty,
     ls_dropped := Map.empty, ls_generations := (\<lambda>t. if busy t st then None else ls_generations st t)\<rparr>"

datatype ledger_event =
    LAdmit string string provenance "channel option" "string option"
  | LTake string string int
  | LAnswer string string int "classification option"
  | LPrune string
  | LSettle string
  | LFinish string
  | LClearStart string
  | LClearEnd string
  | LDropStart string "string list"
  | LDropRead string "string list"
  | LDropEnd string
  | LBranchRead "string list" string string "string list"
  | LBranchEnd string
  | LClose

fun ledger_step :: "ledger_event \<Rightarrow> ledger_state \<Rightarrow> ledger_state option" where
  "ledger_step (LAdmit t v p c s) st = Some (admit t v p c s st)"
| "ledger_step (LTake t i now) st = take_job t i now st"
| "ledger_step (LAnswer t i now r) st = classified t i now r st"
| "ledger_step (LPrune t) st = prune_step t st"
| "ledger_step (LSettle t) st = settle_job t st"
| "ledger_step (LFinish t) st = finish_job t st"
| "ledger_step (LClearStart t) st = Some (clear_start t st)"
| "ledger_step (LClearEnd t) st = Some (clear_end t st)"
| "ledger_step (LDropStart t D) st = Some (drop_start t D st)"
| "ledger_step (LDropRead t D) st = Some (drop_read t D st)"
| "ledger_step (LDropEnd t) st = Some (drop_end t st)"
| "ledger_step (LBranchRead fresh s t D) st = Some (branch_read fresh s t D st)"
| "ledger_step (LBranchEnd t) st = Some (branch_end t st)"
| "ledger_step LClose st = Some (close_ledger st)"

fun ledger_run :: "ledger_event list \<Rightarrow> ledger_state \<Rightarrow> ledger_state option" where
  "ledger_run [] st = Some st"
| "ledger_run (ev # evs) st = (case ledger_step ev st of None \<Rightarrow> None | Some st' \<Rightarrow> ledger_run evs st')"

lemma ledger_run_append:
  "ledger_run (xs @ ys) st = (case ledger_run xs st of None \<Rightarrow> None | Some st' \<Rightarrow> ledger_run ys st')"
  by (induction xs arbitrary: st) (simp_all split: option.split)

lemma prune_by_steps: "prune n t tab = fold delete_entry (prune_ids n t tab) tab"
  by (simp add: prune_def prune_ids_def Let_def fold_map comp_def)

section \<open>Outstanding jobs\<close>

definition waiting :: "string \<Rightarrow> ledger_state \<Rightarrow> ledger_job list" where
  \<comment> \<open>the jobs of a thread that have not been given up or stored\<close>
  "waiting t st = (case ls_workers st t of Some (WClassify j _) \<Rightarrow> [j] | _ \<Rightarrow> []) @ get_or (ls_queues st) t []"

definition load :: "string \<Rightarrow> ledger_state \<Rightarrow> nat" where
  "load t st = length (get_or (ls_queues st) t []) + (if busy t st then 1 else 0)"

definition worker_ok :: "string \<Rightarrow> ledger_state \<Rightarrow> bool" where
  "worker_ok t st \<longleftrightarrow> ls_pending st t = (if load t st = 0 then None else Some (int (load t st)))
     \<and> list_all (\<lambda>j. jb_thread j = t \<and> jb_generation j \<le> get_or (ls_generations st) t 0) (waiting t st)
     \<and> (ls_workers st t = None \<longleftrightarrow> ls_queues st t = None) \<and> ls_workers st t \<noteq> Some (WDelete [])"

definition thread_part ::
    "string \<Rightarrow> ledger_state \<Rightarrow> ledger_job list option \<times> ledger_phase option \<times> int option \<times> string list option \<times> int option" where
  "thread_part t st = (ls_queues st t, ls_workers st t, ls_pending st t, ls_dropped st t, ls_generations st t)"

lemma put_view_parts [simp]:
  "thread_part t (put_view u v st) = thread_part t st" "ls_table (put_view u v st) = ls_table st"
  "ls_cuts (put_view u v st) = ls_cuts st" "ls_branches (put_view u v st) = ls_branches st" "ls_closed (put_view u v st) = ls_closed st"
  "ls_queues (put_view u v st) = ls_queues st" "ls_workers (put_view u v st) = ls_workers st"
  "ls_pending (put_view u v st) = ls_pending st" "ls_dropped (put_view u v st) = ls_dropped st"
  "ls_generations (put_view u v st) = ls_generations st"
  by (simp_all add: put_view_def thread_part_def)

lemma thread_part_eq:
  "thread_part t st = thread_part t st' \<longleftrightarrow> ls_queues st t = ls_queues st' t \<and> ls_workers st t = ls_workers st' t
     \<and> ls_pending st t = ls_pending st' t \<and> ls_dropped st t = ls_dropped st' t \<and> ls_generations st t = ls_generations st' t"
  by (simp add: thread_part_def)

lemma jobs_cong:
  assumes "ls_queues st t = ls_queues st' t" and "ls_workers st t = ls_workers st' t"
  shows "busy t st = busy t st'" and "waiting t st = waiting t st'" and "load t st = load t st'"
proof -
  show "busy t st = busy t st'" "waiting t st = waiting t st'" by (simp_all add: busy_def waiting_def get_or_def assms)
  then show "load t st = load t st'" by (simp add: load_def get_or_def assms)
qed

lemma worker_ok_mono:
  assumes "worker_ok t st" and "ls_queues st t = ls_queues st' t" and "ls_workers st t = ls_workers st' t"
    and "ls_pending st t = ls_pending st' t" and "get_or (ls_generations st) t 0 \<le> get_or (ls_generations st') t 0"
  shows "worker_ok t st'"
  using assms jobs_cong[OF assms(2,3)] by (auto simp: worker_ok_def list_all_iff intro: order_trans)

lemma thread_part_cong:
  assumes "thread_part t st = thread_part t st'"
  shows "waiting t st = waiting t st'" and "load t st = load t st'" and "worker_ok t st \<Longrightarrow> worker_ok t st'"
  using assms jobs_cong[of st t st'] worker_ok_mono[of t st st'] by (simp_all add: thread_part_eq get_or_def)

fun event_thread :: "ledger_event \<Rightarrow> string option" where
  "event_thread (LAdmit t v p c s) = Some t"
| "event_thread (LTake t i now) = Some t"
| "event_thread (LAnswer t i now r) = Some t"
| "event_thread (LPrune t) = Some t"
| "event_thread (LSettle t) = Some t"
| "event_thread (LFinish t) = Some t"
| "event_thread (LClearStart t) = Some t"
| "event_thread (LDropStart t D) = Some t"
| "event_thread ev = None"

lemma worker_ok_new: "worker_ok t (new_ledger tab n c)"
  by (simp add: worker_ok_def new_ledger_def load_def waiting_def busy_def get_or_def)

lemma take_job_cases:
  assumes "take_job t i now st = Some st'"
  obtains job rest where "ls_workers st t = Some WIdle" and "ls_queues st t = Some (job # rest)"
    and "ls_closed st \<or> is_stale job st" and "st' = set_phase t WSettle (st\<lparr>ls_queues := (ls_queues st)(t \<mapsto> rest)\<rparr>)"
  | job rest where "ls_workers st t = Some WIdle" and "ls_queues st t = Some (job # rest)"
    and "\<not> is_stale job st" and "persist_non_human i now job (ls_table st) = Inl IntegrityError"
    and "st' = set_phase t WSettle (st\<lparr>ls_queues := (ls_queues st)(t \<mapsto> rest)\<rparr>)"
  | job rest tab where "ls_workers st t = Some WIdle" and "ls_queues st t = Some (job # rest)"
    and "\<not> is_stale job st" and "persist_non_human i now job (ls_table st) = Inr tab"
    and "st' = set_phase t WSettle (st\<lparr>ls_queues := (ls_queues st)(t \<mapsto> rest), ls_table := tab\<rparr>)"
  | job rest where "ls_workers st t = Some WIdle" and "ls_queues st t = Some (job # rest)" and "\<not> is_stale job st"
    and "st' = set_phase t (WClassify job (list_entries (jb_thread job) (ls_table st)))
      (st\<lparr>ls_queues := (ls_queues st)(t \<mapsto> rest)\<rparr>)"
proof -
  have st: "is_stale j (st\<lparr>ls_queues := q\<rparr>) = is_stale j st" for j q by (simp add: is_stale_def split: option.split)
  have w: "ls_workers st t = Some WIdle"
    using assms by (auto simp: take_job_def split: option.splits ledger_phase.splits)
  obtain job rest where q: "ls_queues st t = Some (job # rest)"
    using assms w by (auto simp: take_job_def get_or_def split: option.splits list.splits)
  show thesis
  proof (cases "ls_closed st \<or> is_stale job st \<or> jb_provenance job = PHuman")
    case True
    then show thesis using assms w q that(1,4) by (auto simp: take_job_def get_or_def st Let_def split: if_splits)
  next
    case False
    have "e = IntegrityError" for e by (cases e) simp
    then show thesis using assms w q that(2,3) False
      by (cases "persist_non_human i now job (ls_table st)") (auto simp: take_job_def get_or_def st Let_def)
  qed
qed

lemma classified_cases:
  assumes "classified t i now r st = Some st'"
  obtains job entries where "ls_workers st t = Some (WClassify job entries)" and "st' = set_phase t WSettle st"
  | job entries result tab where "ls_workers st t = Some (WClassify job entries)" and "\<not> is_stale job st"
    and "commit_classification i now job result entries (ls_table st) = Inr tab"
    and "st' = set_phase t WPrune (st\<lparr>ls_table := tab\<rparr>)"
proof -
  obtain job entries where w: "ls_workers st t = Some (WClassify job entries)"
    using assms by (auto simp: classified_def split: option.splits ledger_phase.splits)
  show thesis
    using assms w that by (auto simp: classified_def Let_def split: if_splits sum.splits)
qed

lemma prune_step_cases:
  assumes "prune_step t st = Some st'"
  obtains ids where "ls_workers st t = Some WPrune" and "st' = set_phase t (delete_next t ids) st"
  | i ids where "ls_workers st t = Some (WDelete (i # ids))"
    and "st' = set_phase t (delete_next t ids) (st\<lparr>ls_table := delete_entry i (ls_table st)\<rparr>)"
proof -
  obtain p where w: "ls_workers st t = Some p" using assms by (auto simp: prune_step_def split: option.splits)
  show thesis
  proof (cases p)
    case (WDelete ids)
    then show thesis using assms w that(2) by (cases ids) (simp_all add: prune_step_def)
  qed (use assms w that(1) in \<open>auto simp: prune_step_def\<close>)
qed

lemma settle_job_iff: "settle_job t st = Some st' \<longleftrightarrow> ls_workers st t = Some WSettle
    \<and> st' = set_phase t WRefresh (if get_or (ls_pending st) t 0 \<le> 1
        then st\<lparr>ls_pending := (ls_pending st)(t := None), ls_dropped := (ls_dropped st)(t := None),
                ls_generations := (ls_generations st)(t := None)\<rparr>
        else st\<lparr>ls_pending := (ls_pending st)(t \<mapsto> get_or (ls_pending st) t 0 - 1)\<rparr>)"
  by (cases "ls_workers st t"; simp add: settle_job_def Let_def) (auto simp: settle_job_def Let_def split: ledger_phase.split)

lemma finish_iff: "finish_job t st = Some st' \<longleftrightarrow> ls_workers st t = Some WRefresh
    \<and> st' = set_phase t WIdle (if ls_closed st then st else refresh_view t st)"
  by (cases "ls_workers st t"; simp add: finish_job_def) (auto split: ledger_phase.split)

lemma step_frame:
  assumes "ledger_step ev st = Some st'" and "event_thread ev \<noteq> Some t" and "ev \<noteq> LClose"
  shows "thread_part t st' = thread_part t st"
proof (cases ev)
  case (LAdmit u v p c s)
  then show ?thesis using assms by (auto simp: admit_def ensure_worker_def touch_pending_view_def thread_part_eq Let_def)
next
  case (LTake u i now)
  then have "take_job u i now st = Some st'" using assms by simp
  then show ?thesis using LTake assms(2) by (cases rule: take_job_cases) (simp_all add: set_phase_def thread_part_eq)
next
  case (LAnswer u i now r)
  then have "classified u i now r st = Some st'" using assms by simp
  then show ?thesis using LAnswer assms(2) by (cases rule: classified_cases) (simp_all add: set_phase_def thread_part_eq)
next
  case (LPrune u)
  then have "prune_step u st = Some st'" using assms by simp
  then show ?thesis using LPrune assms(2) by (cases rule: prune_step_cases) (simp_all add: set_phase_def thread_part_eq)
next
  case (LSettle u)
  then show ?thesis using assms by (simp add: settle_job_iff set_phase_def thread_part_eq)
next
  case (LFinish u)
  then show ?thesis using assms by (simp add: finish_iff refresh_view_def set_phase_def thread_part_eq)
next
  case (LDropRead u D)
  then show ?thesis using assms by (auto simp: drop_read_def thread_part_eq split: prod.splits list.splits)
next
  case (LDropEnd u)
  then show ?thesis using assms by (auto simp: drop_end_def refresh_view_def thread_part_eq split: option.splits)
next
  case (LBranchEnd u)
  then show ?thesis using assms
    by (auto simp: branch_end_def refresh_view_def thread_part_eq Let_def split: option.splits sum.splits)
qed (use assms in \<open>auto simp: clear_start_def clear_end_def drop_start_def branch_read_def thread_part_eq\<close>)

lemma admit_parts:
  assumes "\<not> ls_closed st" and "py_strip v \<noteq> []"
  shows "ls_queues (admit t v p c s st) t = Some (get_or (ls_queues st) t [] @ [\<lparr>jb_thread = t, jb_verbatim = py_strip v,
      jb_provenance = p, jb_channel = c, jb_source_row = s, jb_generation = get_or (ls_generations st) t 0\<rparr>])"
    and "ls_workers (admit t v p c s st) t = (if ls_queues st t = None then Some WIdle else ls_workers st t)"
    and "ls_pending (admit t v p c s st) t = Some (get_or (ls_pending st) t 0 + 1)"
    and "ls_generations (admit t v p c s st) = ls_generations st" and "ls_dropped (admit t v p c s st) = ls_dropped st"
  using assms by (simp_all add: admit_def ensure_worker_def touch_pending_view_def get_or_def Let_def)

lemma admit_idle: "ls_closed st \<or> py_strip v = [] \<Longrightarrow> admit t v p c s st = st"
  by (simp add: admit_def)

lemma worker_ok_step:
  assumes ok: "worker_ok t st" and step: "ledger_step ev st = Some st'"
  shows "worker_ok t st'"
proof (cases "event_thread ev = Some t \<or> ev = LClose")
  case False
  then show ?thesis using step_frame[OF step, of t] thread_part_cong(3)[of t st st'] ok by simp
next
  case True
  then show ?thesis
  proof (cases ev)
    case (LAdmit u v p c s)
    then have st': "st' = admit t v p c s st" using True step by simp
    show ?thesis
    proof (cases "ls_closed st \<or> py_strip v = []")
      case True
      then show ?thesis using ok st' by (simp add: admit_idle)
    next
      case False
      then have "\<not> ls_closed st" "py_strip v \<noteq> []" by simp_all
      note parts = admit_parts[OF this, of t p c s, folded st']
      have "busy t st' = busy t st" using ok parts(2) by (auto simp: busy_def worker_ok_def)
      moreover from this have "load t st' = Suc (load t st)" using parts(1) by (simp add: load_def get_or_def)
      moreover have "waiting t st' = waiting t st @ [\<lparr>jb_thread = t, jb_verbatim = py_strip v, jb_provenance = p, jb_channel = c,
          jb_source_row = s, jb_generation = get_or (ls_generations st) t 0\<rparr>]"
        using ok parts(1,2) by (auto simp: waiting_def worker_ok_def get_or_def)
      ultimately show ?thesis using ok parts by (auto simp: worker_ok_def get_or_def)
    qed
  next
    case (LTake u i now)
    then have "take_job t i now st = Some st'" using True step by simp
    then show ?thesis using ok
      by (cases rule: take_job_cases) (auto simp: set_phase_def worker_ok_def load_def waiting_def busy_def get_or_def)
  next
    case (LAnswer u i now r)
    then have "classified t i now r st = Some st'" using True step by simp
    then show ?thesis using ok
      by (cases rule: classified_cases) (auto simp: set_phase_def worker_ok_def load_def waiting_def busy_def get_or_def)
  next
    case (LPrune u)
    then have "prune_step t st = Some st'" using True step by simp
    then show ?thesis using ok
      by (cases rule: prune_step_cases)
         (auto simp: set_phase_def worker_ok_def load_def waiting_def busy_def get_or_def delete_next_def)
  next
    case (LSettle u)
    then have "settle_job t st = Some st'" using True step by simp
    then show ?thesis using ok
      by (auto simp: settle_job_iff set_phase_def worker_ok_def load_def waiting_def busy_def get_or_def)
  next
    case (LFinish u)
    then have "finish_job t st = Some st'" using True step by simp
    then show ?thesis using ok
      by (auto simp: finish_iff refresh_view_def set_phase_def worker_ok_def load_def waiting_def busy_def get_or_def)
  next
    case (LClearStart u)
    then show ?thesis using True step
      by (intro worker_ok_mono[OF ok]) (auto simp: clear_start_def get_or_def)
  next
    case (LDropStart u D)
    then show ?thesis using step by (intro worker_ok_mono[OF ok]) (auto simp: drop_start_def)
  next
    case LClose
    then show ?thesis using step by (auto simp: close_ledger_def worker_ok_def load_def waiting_def busy_def get_or_def)
  qed simp_all
qed

lemma worker_ok_run: "ledger_run evs st = Some st' \<Longrightarrow> worker_ok t st \<Longrightarrow> worker_ok t st'"
  by (induction evs arbitrary: st) (auto split: option.splits dest: worker_ok_step)

section \<open>What a step can add to the table\<close>

definition free_of :: "(goal_entry \<Rightarrow> bool) \<Rightarrow> ledger_table \<Rightarrow> bool" where
  "free_of P tab \<longleftrightarrow> list_all (\<lambda>e. \<not> P e) tab"

definition unmarked :: "(goal_entry \<Rightarrow> bool) \<Rightarrow> bool" where
  \<comment> \<open>what is asked of a row does not depend on its status\<close>
  "unmarked P \<longleftrightarrow> (\<forall>e. P (forget_status e) = P e)"

lemma free_of_update: "unmarked P \<Longrightarrow> free_of P tab \<Longrightarrow> free_of P (update_statuses us tab)"
proof -
  assume *: "unmarked P" "free_of P tab"
  have "map forget_status (update_statuses us tab) = map forget_status tab"
    by (induction us arbitrary: tab) (simp_all add: update_statuses_def update_status_props(1))
  from forget_list_all[OF this, of "\<lambda>e. \<not> P e"] show ?thesis using * by (simp add: free_of_def unmarked_def)
qed

lemma free_of_filter: "free_of P tab \<Longrightarrow> free_of P (filter Q tab)"
  by (simp add: free_of_def list_all_iff)

definition makes :: "(goal_entry \<Rightarrow> bool) \<Rightarrow> ledger_job \<Rightarrow> bool" where
  "makes P j \<longleftrightarrow> (\<exists>e. 0 < ge_seq e \<and> ge_thread e = jb_thread j \<and> ge_source_row e = jb_source_row j
     \<and> ge_verbatim e = jb_verbatim j \<and> P e)"

lemma free_of_commit:
  assumes "commit_classified (classified_entry i now j r rel) us tab = Inr (s, tab')" and "\<not> makes P j" and "unmarked P"
    and "free_of P tab"
  shows "free_of P tab'"
  using assms free_of_update[OF assms(3,4), of us]
  by (auto simp: commit_classified_def insert_entry_def Let_def free_of_def makes_def classified_entry_def next_seq_pos split: if_splits)

lemma free_of_insert: "insert_entries es tab = Inr tab' \<Longrightarrow> free_of P es \<Longrightarrow> free_of P tab \<Longrightarrow> free_of P tab'"
  by (induction es arbitrary: tab) (auto simp: insert_entry_def free_of_def split: if_splits)

lemma waiting_next:
  "ls_workers st t = Some WIdle \<Longrightarrow> ls_queues st t = Some (job # rest) \<Longrightarrow> job \<in> set (waiting t st)"
  "ls_workers st t = Some (WClassify job entries) \<Longrightarrow> job \<in> set (waiting t st)"
  by (simp_all add: waiting_def get_or_def)

lemma step_keeps_free:
  assumes step: "ledger_step ev st = Some st'" and un: "unmarked P" and free: "free_of P (ls_table st)"
    and jobs: "\<And>t j. j \<in> set (waiting t st) \<Longrightarrow> is_stale j st \<or> \<not> makes P j"
    and branch: "\<And>u cs. ev = LBranchEnd u \<Longrightarrow> ls_branches st u = Some cs \<Longrightarrow> free_of P cs"
  shows "free_of P (ls_table st')"
proof (cases ev)
  case (LTake u i now)
  then have "take_job u i now st = Some st'" using step by simp
  then show ?thesis
  proof (cases rule: take_job_cases)
    case (3 job rest tab)
    then have "\<not> makes P job" using jobs waiting_next(1) by blast
    with 3 show ?thesis using free_of_commit[OF _ _ un free] by (auto simp: persist_non_human_def set_phase_def)
  qed (use free in \<open>simp_all add: set_phase_def\<close>)
next
  case (LAnswer u i now r)
  then have "classified u i now r st = Some st'" using step by simp
  then show ?thesis
  proof (cases rule: classified_cases)
    case (2 job entries result tab)
    then have "\<not> makes P job" using jobs waiting_next(2) by blast
    with 2 show ?thesis using free_of_commit[OF _ _ un free]
      by (auto simp: commit_classification_def set_phase_def split: prod.splits)
  qed (use free in \<open>simp_all add: set_phase_def\<close>)
next
  case (LPrune u)
  then show ?thesis using step free
    by (auto simp: prune_step_def set_phase_def delete_entry_def free_of_filter
          split: option.splits ledger_phase.splits list.splits)
next
  case (LDropEnd u)
  then show ?thesis using step free
    by (auto simp: drop_end_def refresh_view_def truncate_entries_def Let_def
          intro!: free_of_update[OF un] free_of_filter split: option.splits)
next
  case (LBranchEnd u)
  then show ?thesis using step free branch free_of_insert
    by (auto simp: branch_end_def refresh_view_def Let_def split: sum.splits option.splits)
next
  case (LClearEnd u)
  then show ?thesis using step free by (auto simp: clear_end_def truncate_entries_def Let_def update_statuses_def intro: free_of_filter)
next
  case (LDropRead u D)
  then show ?thesis using step free by (auto simp: drop_read_def split: prod.splits list.splits)
next
  case (LSettle u)
  then show ?thesis using step free
    by (auto simp: settle_job_def set_phase_def Let_def split: option.splits ledger_phase.splits if_splits)
next
  case (LFinish u)
  then show ?thesis using step free
    by (auto simp: finish_job_def set_phase_def refresh_view_def split: option.splits ledger_phase.splits if_splits)
qed (use step free in \<open>auto simp: admit_def ensure_worker_def touch_pending_view_def Let_def clear_start_def drop_start_def
       close_ledger_def branch_read_def split: if_splits\<close>)

section \<open>Jobs that are given up\<close>

fun admits :: "string \<Rightarrow> ledger_event \<Rightarrow> bool" where
  "admits t (LAdmit u v p c s) = (u = t)"
| "admits t ev = False"

lemma waiting_step:
  assumes ok: "worker_ok t st" and step: "ledger_step ev st = Some st'" and quiet: "\<not> admits t ev"
  shows "set (waiting t st') \<subseteq> set (waiting t st)
    \<and> (waiting t st' \<noteq> [] \<longrightarrow> get_or (ls_generations st) t 0 \<le> get_or (ls_generations st') t 0
         \<and> set (get_or (ls_dropped st) t []) \<subseteq> set (get_or (ls_dropped st') t []))"
proof (cases "event_thread ev = Some t \<or> ev = LClose")
  case False
  then have "thread_part t st' = thread_part t st" using step_frame[OF step, of t] by simp
  then show ?thesis using thread_part_cong(1)[of t st' st] by (simp add: thread_part_eq get_or_def)
next
  case True
  then show ?thesis
  proof (cases ev)
    case (LTake u i now)
    then have "take_job t i now st = Some st'" using True step by simp
    then show ?thesis by (cases rule: take_job_cases) (auto simp: set_phase_def waiting_def get_or_def)
  next
    case (LAnswer u i now r)
    then have "classified t i now r st = Some st'" using True step by simp
    then show ?thesis by (cases rule: classified_cases) (auto simp: set_phase_def waiting_def get_or_def)
  next
    case (LPrune u)
    then have "prune_step t st = Some st'" using True step by simp
    then show ?thesis
      by (cases rule: prune_step_cases) (auto simp: set_phase_def waiting_def get_or_def delete_next_def)
  next
    case (LSettle u)
    then have "settle_job t st = Some st'" using True step by simp
    then have s: "ls_workers st t = Some WSettle" "settle_job t st = Some st'" by (simp_all add: settle_job_iff)
    then have w: "waiting t st' = waiting t st" by (auto simp: settle_job_iff waiting_def get_or_def set_phase_def)
    have "load t st = Suc (length (waiting t st))" using s(1) by (simp add: load_def busy_def waiting_def)
    then have "ls_pending st t = Some (int (Suc (length (waiting t st))))" using ok by (simp add: worker_ok_def)
    then show ?thesis using s w by (auto simp: settle_job_iff get_or_def set_phase_def)
  next
    case (LFinish u)
    then have "finish_job t st = Some st'" using True step by simp
    then show ?thesis by (auto simp: finish_iff refresh_view_def set_phase_def waiting_def get_or_def)
  next
    case (LClearStart u)
    then have "waiting t st' = waiting t st" "get_or (ls_generations st) t 0 \<le> get_or (ls_generations st') t 0"
      "ls_dropped st' = ls_dropped st"
      using True step by (auto simp: clear_start_def get_or_def intro: jobs_cong)
    then show ?thesis by simp
  next
    case (LDropStart u D)
    then have "waiting t st' = waiting t st" "ls_generations st' = ls_generations st"
      "set (get_or (ls_dropped st) t []) \<subseteq> set (get_or (ls_dropped st') t [])"
      using True step by (auto simp: drop_start_def get_or_def intro: jobs_cong)
    then show ?thesis by (simp add: get_or_def)
  next
    case LClose
    then show ?thesis using step by (auto simp: close_ledger_def waiting_def get_or_def)
  qed (use True quiet in simp_all)
qed

definition origin :: "ledger_job \<Rightarrow> string option \<times> string" where
  \<comment> \<open>the message of a job: its row and its words\<close>
  "origin j = (jb_source_row j, jb_verbatim j)"

definition outdated :: "string \<Rightarrow> (string option \<times> string) set \<Rightarrow> ledger_state \<Rightarrow> bool" where
  \<comment> \<open>a job of the thread is of an older generation or one of the new messages\<close>
  "outdated t S st \<longleftrightarrow> list_all (\<lambda>j. jb_generation j < get_or (ls_generations st) t 0 \<or> origin j \<in> S) (waiting t st)"

definition skipped :: "string \<Rightarrow> string \<Rightarrow> ledger_state \<Rightarrow> bool" where
  "skipped t i st \<longleftrightarrow>
     list_all (\<lambda>j. jb_source_row j = Some i \<longrightarrow> i \<in> set (get_or (ls_dropped st) t [])) (waiting t st)"

fun says :: "string \<Rightarrow> ledger_event \<Rightarrow> (string option \<times> string) list" where
  \<comment> \<open>the message that an event admits to a thread\<close>
  "says t (LAdmit u v p c s) = (if u = t then [(s, py_strip v)] else [])"
| "says t ev = []"

lemma outdated_step:
  assumes ok: "worker_ok t st" and step: "ledger_step ev st = Some st'" and new: "set (says t ev) \<subseteq> S" and out: "outdated t S st"
  shows "outdated t S st'"
proof (cases "admits t ev")
  case False
  show ?thesis
  proof (cases "waiting t st' = []")
    case True
    then show ?thesis by (simp add: outdated_def)
  next
    case False
    with waiting_step[OF ok step \<open>\<not> admits t ev\<close>] show ?thesis using out by (auto simp: outdated_def list_all_iff intro: less_le_trans)
  qed
next
  case True
  then obtain v p c s where ev: "ev = LAdmit t v p c s" by (cases ev) auto
  then have st': "st' = admit t v p c s st" and s: "(s, py_strip v) \<in> S" using step new by auto
  show ?thesis
  proof (cases "ls_closed st \<or> py_strip v = []")
    case True
    then show ?thesis using out st' by (simp add: admit_idle)
  next
    case False
    then have "\<not> ls_closed st" "py_strip v \<noteq> []" by simp_all
    note parts = admit_parts[OF this, of t p c s, folded st']
    show ?thesis using out ok s parts by (auto simp: outdated_def origin_def waiting_def worker_ok_def get_or_def)
  qed
qed

fun admits_row :: "string \<Rightarrow> string \<Rightarrow> ledger_event \<Rightarrow> bool" where
  "admits_row t i (LAdmit u v p c s) = (u = t \<and> s = Some i)"
| "admits_row t i ev = False"

lemma skipped_step:
  assumes ok: "worker_ok t st" and step: "ledger_step ev st = Some st'" and quiet: "\<not> admits_row t i ev" and sk: "skipped t i st"
  shows "skipped t i st'"
proof (cases "admits t ev")
  case False
  show ?thesis
  proof (cases "waiting t st' = []")
    case True
    then show ?thesis by (simp add: skipped_def)
  next
    case False
    with waiting_step[OF ok step \<open>\<not> admits t ev\<close>] show ?thesis using sk by (auto simp: skipped_def list_all_iff)
  qed
next
  case True
  then obtain v p c s where ev: "ev = LAdmit t v p c s" by (cases ev) auto
  then have s: "s \<noteq> Some i" and st': "st' = admit t v p c s st" using quiet step by auto
  show ?thesis
  proof (cases "ls_closed st \<or> py_strip v = []")
    case True
    then show ?thesis using sk st' by (simp add: admit_idle)
  next
    case False
    then have "\<not> ls_closed st" "py_strip v \<noteq> []" by simp_all
    note parts = admit_parts[OF this, of t p c s, folded st']
    show ?thesis using sk ok s parts by (auto simp: skipped_def waiting_def worker_ok_def get_or_def)
  qed
qed

lemma outdated_stale: "worker_ok t st \<Longrightarrow> outdated t S st \<Longrightarrow> j \<in> set (waiting t st) \<Longrightarrow> is_stale j st \<or> origin j \<in> S"
  by (auto simp: outdated_def worker_ok_def is_stale_def list_all_iff)

lemma skipped_stale: "worker_ok t st \<Longrightarrow> skipped t i st \<Longrightarrow> j \<in> set (waiting t st) \<Longrightarrow> jb_source_row j = Some i \<Longrightarrow> is_stale j st"
  by (auto simp: skipped_def worker_ok_def is_stale_def list_all_iff)

section \<open>Runs\<close>

definition branches_ok :: "ledger_state \<Rightarrow> bool" where
  "branches_ok st \<longleftrightarrow> (\<forall>u cs. ls_branches st u = Some cs \<longrightarrow> list_all (\<lambda>e. ge_thread e = u \<and> 0 < ge_seq e) cs)"

definition ledger_inv :: "ledger_state \<Rightarrow> bool" where
  "ledger_inv st \<longleftrightarrow> (\<forall>u. worker_ok u st) \<and> branches_ok st \<and> free_of (\<lambda>e. ge_seq e \<le> 0) (ls_table st)"

lemma branch_copies_target: "list_all (\<lambda>e. ge_thread e = u \<and> 0 < ge_seq e) (branch_copies fresh s u D tab)"
proof -
  have copy: "ge_thread e = u \<and> 0 < ge_seq e" if "e \<in> set (retargeted_copies fresh es u)" for e es
    using that by (auto simp: retargeted_copies_def Let_def dest!: set_zip_leftD)
  show ?thesis
    unfolding branch_copies_def by (auto simp: list_all_iff dest!: set_zip_rightD dest: copy split: prod.splits option.splits)
qed

lemma branches_step:
  assumes "ledger_step ev st = Some st'" and "branches_ok st"
  shows "branches_ok st'"
proof (cases "ev = LClose \<or> (\<exists>f s t D. ev = LBranchRead f s t D) \<or> (\<exists>t. ev = LBranchEnd t)")
  case True
  then show ?thesis using assms branch_copies_target
    by (auto simp: branches_ok_def branch_read_def branch_end_def refresh_view_def Let_def close_ledger_def
          split: option.splits sum.splits if_splits)
next
  case False
  have "ls_branches st' = ls_branches st"
  proof (cases ev)
    case (LTake u i now)
    then have "take_job u i now st = Some st'" using assms by simp
    then show ?thesis by (cases rule: take_job_cases) (simp_all add: set_phase_def)
  next
    case (LAnswer u i now r)
    then have "classified u i now r st = Some st'" using assms by simp
    then show ?thesis by (cases rule: classified_cases) (simp_all add: set_phase_def)
  next
    case (LPrune u)
    then have "prune_step u st = Some st'" using assms by simp
    then show ?thesis by (cases rule: prune_step_cases) (simp_all add: set_phase_def)
  next
    case (LDropRead u D)
    then show ?thesis using assms by (auto simp: drop_read_def split: prod.splits list.splits)
  next
    case (LDropEnd u)
    then show ?thesis using assms by (auto simp: drop_end_def refresh_view_def split: option.splits)
  qed (use False assms(1) in \<open>auto simp: admit_def ensure_worker_def touch_pending_view_def settle_job_iff finish_iff set_phase_def
         refresh_view_def clear_start_def clear_end_def drop_start_def Let_def\<close>)
  then show ?thesis using assms(2) by (simp add: branches_ok_def)
qed

lemma ledger_inv_step:
  assumes "ledger_step ev st = Some st'" and inv: "ledger_inv st"
  shows "ledger_inv st'"
proof -
  have "free_of (\<lambda>e. ge_seq e \<le> 0) (ls_table st')"
    using inv by (intro step_keeps_free[OF assms(1)])
      (auto simp: ledger_inv_def unmarked_def makes_def branches_ok_def free_of_def list_all_iff not_le)
  then show ?thesis
    using inv worker_ok_step[OF _ assms(1)] branches_step[OF assms(1)] by (simp add: ledger_inv_def)
qed

lemma ledger_run_keeps:
  assumes run: "ledger_run evs st = Some st'" and "Q st" and "list_all R evs"
    and "\<And>ev a b. Q a \<Longrightarrow> R ev \<Longrightarrow> ledger_step ev a = Some b \<Longrightarrow> Q b"
  shows "Q st'"
  using assms(1-3)
proof (induction evs arbitrary: st)
  case (Cons ev evs)
  then obtain mid where "ledger_step ev st = Some mid" "ledger_run evs mid = Some st'" by (auto split: option.splits)
  then show ?case using Cons assms(4) by auto
qed simp

lemma ledger_run_split:
  assumes "ledger_run (xs @ ys) st = Some st'"
  obtains mid where "ledger_run xs st = Some mid" and "ledger_run ys mid = Some st'"
  using assms by (auto simp: ledger_run_append split: option.splits)

lemma ledger_run_Cons:
  assumes "ledger_run (ev # evs) st = Some st'"
  obtains mid where "ledger_step ev st = Some mid" and "ledger_run evs mid = Some st'"
  using assms by (auto split: option.splits)

lemma ledger_inv_run: "ledger_run evs st = Some st' \<Longrightarrow> ledger_inv st \<Longrightarrow> ledger_inv st'"
  using ledger_run_keeps[where Q = ledger_inv and R = "\<lambda>_. True"] ledger_inv_step by (auto simp: list_all_iff)

lemma ledger_inv_new: "list_all (\<lambda>e. 0 < ge_seq e) tab \<Longrightarrow> ledger_inv (new_ledger tab n c)"
  by (simp add: ledger_inv_def worker_ok_new) (simp add: branches_ok_def free_of_def list_all_iff new_ledger_def not_le)

fun copies_to :: "string \<Rightarrow> ledger_event \<Rightarrow> bool" where
  "copies_to t (LBranchEnd u) = (u = t)"
| "copies_to t ev = False"

lemma clear_start_outdates:
  assumes "ledger_inv st"
  shows "outdated t S (clear_start t st)"
proof -
  have "waiting t (clear_start t st) = waiting t st" by (rule jobs_cong) (simp_all add: clear_start_def)
  then show ?thesis
    using assms by (auto simp: ledger_inv_def worker_ok_def outdated_def list_all_iff clear_start_def get_or_def)
qed

definition unsaid :: "string \<Rightarrow> (string option \<times> string) set \<Rightarrow> goal_entry \<Rightarrow> bool" where
  \<comment> \<open>an entry of the thread that comes from none of the messages\<close>
  "unsaid t S e \<longleftrightarrow> ge_thread e = t \<and> (ge_source_row e, ge_verbatim e) \<notin> S"

lemma unmarked_unsaid: "unmarked (unsaid t S)"
  by (simp add: unmarked_def unsaid_def forget_status_def)

lemma step_keeps_thread_clear:
  assumes inv: "ledger_inv st" and out: "outdated t S st" and "\<not> copies_to t ev" and step: "ledger_step ev st = Some st'"
    and "free_of (unsaid t S) (ls_table st)"
  shows "free_of (unsaid t S) (ls_table st')"
proof (rule step_keeps_free[OF step])
  fix u j assume j: "j \<in> set (waiting u st)"
  have "jb_thread j = u" using inv j by (simp add: ledger_inv_def worker_ok_def list_all_iff)
  then show "is_stale j st \<or> \<not> makes (unsaid t S) j"
    using inv out j outdated_stale[of u st S j] by (cases "u = t") (auto simp: ledger_inv_def makes_def unsaid_def origin_def)
next
  fix u cs assume "ev = LBranchEnd u" "ls_branches st u = Some cs"
  then show "free_of (unsaid t S) cs"
    using inv assms(3) by (auto simp: ledger_inv_def branches_ok_def free_of_def list_all_iff unsaid_def)
qed (use assms unmarked_unsaid in simp_all)

lemma outdated_run_step:
  assumes "ledger_inv st \<and> outdated t S st" and "set (says t ev) \<subseteq> S" and "ledger_step ev st = Some st'"
  shows "ledger_inv st' \<and> outdated t S st'"
proof -
  have "worker_ok t st" using assms(1) by (simp add: ledger_inv_def)
  then show ?thesis using ledger_inv_step[OF assms(3)] outdated_step[OF _ assms(3,2)] assms(1) by blast
qed

lemma thread_clear_run_step:
  assumes "ledger_inv st \<and> outdated t S st \<and> free_of (unsaid t S) (ls_table st)"
    and "set (says t ev) \<subseteq> S \<and> \<not> copies_to t ev" and "ledger_step ev st = Some st'"
  shows "ledger_inv st' \<and> outdated t S st' \<and> free_of (unsaid t S) (ls_table st')"
  using outdated_run_step[of st t S ev st'] step_keeps_thread_clear[of st t S ev st'] assms by blast

text \<open>
  C13: A message admitted before its conversation was cleared leaves nothing behind: whatever the worker was doing when the
  clear began, a job in its queue or one whose classifier was still running, whenever the clear ended and whatever was said in
  the meantime and afterwards, every row of that conversation comes from a message admitted after the clear began, as long as
  no branch is copied onto it.
\<close>

theorem cleared_jobs_never_land:
  assumes "ledger_run (pre @ LClearStart t # mid @ LClearEnd t # post) (new_ledger tab n c) = Some st"
    and "list_all (\<lambda>e. 0 < ge_seq e) tab" and "list_all (\<lambda>ev. \<not> copies_to t ev) post"
  shows "list_all (\<lambda>e. (ge_source_row e, ge_verbatim e) \<in> set (concat (map (says t) (mid @ post)))) (list_entries t (ls_table st))"
proof -
  let ?S = "set (concat (map (says t) (mid @ post)))"
  obtain s1 where run1: "ledger_run pre (new_ledger tab n c) = Some s1"
      "ledger_run (mid @ LClearEnd t # post) (clear_start t s1) = Some st"
    using ledger_run_split[OF assms(1)] by auto
  obtain s2 where run: "ledger_run pre (new_ledger tab n c) = Some s1" "ledger_run mid (clear_start t s1) = Some s2"
      "ledger_run post (clear_end t s2) = Some st"
    using ledger_run_split[OF run1(2)] run1(1) by auto
  have i1: "ledger_inv s1" by (rule ledger_inv_run[OF run(1) ledger_inv_new[OF assms(2)]])
  have "ledger_inv (clear_start t s1)" by (rule ledger_inv_step[of "LClearStart t" s1]) (simp_all add: i1)
  moreover have "outdated t ?S (clear_start t s1)" by (rule clear_start_outdates[OF i1])
  ultimately have start: "ledger_inv (clear_start t s1) \<and> outdated t ?S (clear_start t s1)" by blast
  have said: "list_all (\<lambda>ev. set (says t ev) \<subseteq> ?S) mid" "list_all (\<lambda>ev. set (says t ev) \<subseteq> ?S) post"
    by (auto simp: list_all_iff)
  have s2: "ledger_inv s2 \<and> outdated t ?S s2"
    by (rule ledger_run_keeps[where Q = "\<lambda>s. ledger_inv s \<and> outdated t ?S s", OF run(2) start said(1) outdated_run_step])
  have "ledger_inv (clear_end t s2)" by (rule ledger_inv_step[of "LClearEnd t" s2]) (simp_all add: s2)
  moreover have "outdated t ?S (clear_end t s2)" using outdated_run_step[OF s2, of "LClearEnd t"] by simp
  moreover have "free_of (unsaid t ?S) (ls_table (clear_end t s2))"
    using s2 by (auto simp: ledger_inv_def clear_end_def truncate_entries_def update_statuses_def free_of_def list_all_iff Let_def unsaid_def)
  ultimately have cleared: "ledger_inv (clear_end t s2) \<and> outdated t ?S (clear_end t s2)
      \<and> free_of (unsaid t ?S) (ls_table (clear_end t s2))" by blast
  have new: "list_all (\<lambda>ev. set (says t ev) \<subseteq> ?S \<and> \<not> copies_to t ev) post" using said(2) assms(3) by (simp add: list_all_iff)
  have "ledger_inv st \<and> outdated t ?S st \<and> free_of (unsaid t ?S) (ls_table st)"
    by (rule ledger_run_keeps[where Q = "\<lambda>s. ledger_inv s \<and> outdated t ?S s \<and> free_of (unsaid t ?S) (ls_table s)",
          OF run(3) cleared new thread_clear_run_step])
  then show ?thesis by (auto simp: free_of_def list_entries_def list_all_iff unsaid_def)
qed

definition from_row :: "string \<Rightarrow> string \<Rightarrow> (int \<times> (string \<times> goal_status) list) option \<Rightarrow> goal_entry \<Rightarrow> bool" where
  \<comment> \<open>an entry of the message that a drop will not remove\<close>
  "from_row t i slice e \<longleftrightarrow> ge_thread e = t \<and> ge_source_row e = Some i \<and> (case slice of None \<Rightarrow> True | Some (from_seq, _) \<Rightarrow> ge_seq e < from_seq)"

fun drops :: "string \<Rightarrow> ledger_event \<Rightarrow> bool" where
  "drops t (LDropRead u D) = (u = t)"
| "drops t (LDropEnd u) = (u = t)"
| "drops t ev = False"

lemma unmarked_from_row: "unmarked (from_row t i slice)"
  by (cases slice) (auto simp: unmarked_def from_row_def)

lemma cuts_step:
  assumes "ledger_step ev st = Some st'" and "\<not> drops t ev"
  shows "ls_cuts st' t = ls_cuts st t"
proof (cases ev)
  case (LTake u i now)
  then have "take_job u i now st = Some st'" using assms by simp
  then show ?thesis by (cases rule: take_job_cases) (simp_all add: set_phase_def)
next
  case (LAnswer u i now r)
  then have "classified u i now r st = Some st'" using assms by simp
  then show ?thesis by (cases rule: classified_cases) (simp_all add: set_phase_def)
next
  case (LPrune u)
  then have "prune_step u st = Some st'" using assms by simp
  then show ?thesis by (cases rule: prune_step_cases) (simp_all add: set_phase_def)
next
  case (LBranchEnd u)
  then show ?thesis using assms by (auto simp: branch_end_def refresh_view_def Let_def split: option.splits sum.splits)
next
  case (LDropRead u D)
  then show ?thesis using assms by (auto simp: drop_read_def split: prod.splits list.splits)
next
  case (LDropEnd u)
  then show ?thesis using assms by (auto simp: drop_end_def refresh_view_def split: option.splits)
qed (use assms in \<open>auto simp: admit_def ensure_worker_def touch_pending_view_def settle_job_iff finish_iff set_phase_def
       refresh_view_def clear_start_def clear_end_def drop_start_def branch_read_def close_ledger_def Let_def\<close>)

lemma skipped_run_step:
  assumes "ledger_inv st \<and> skipped t i st" and "\<not> admits_row t i ev" and "ledger_step ev st = Some st'"
  shows "ledger_inv st' \<and> skipped t i st'"
proof -
  have "worker_ok t st" using assms(1) by (simp add: ledger_inv_def)
  then show ?thesis using ledger_inv_step[OF assms(3)] skipped_step[OF _ assms(3,2)] assms(1) by blast
qed

lemma step_keeps_row_gone:
  assumes "ledger_inv st \<and> skipped t i st" and "\<not> copies_to t ev" and step: "ledger_step ev st = Some st'"
    and "free_of (from_row t i slice) (ls_table st)"
  shows "free_of (from_row t i slice) (ls_table st')"
proof (rule step_keeps_free[OF step])
  fix u j assume "j \<in> set (waiting u st)"
  then show "is_stale j st \<or> \<not> makes (from_row t i slice) j"
    using assms(1) skipped_stale[of u st i j]
    by (cases "u = t") (auto simp: ledger_inv_def worker_ok_def makes_def list_all_iff from_row_def)
next
  fix u cs assume "ev = LBranchEnd u" "ls_branches st u = Some cs"
  then show "free_of (from_row t i slice) cs"
    using assms(1,2) by (auto simp: ledger_inv_def branches_ok_def free_of_def list_all_iff from_row_def)
qed (use assms in \<open>simp_all add: unmarked_from_row\<close>)

lemma row_gone_run_step:
  assumes "ledger_inv st \<and> skipped t i st \<and> ls_cuts st t = slice \<and> free_of (from_row t i slice) (ls_table st)"
    and "\<not> admits_row t i ev \<and> \<not> copies_to t ev \<and> \<not> drops t ev" and "ledger_step ev st = Some st'"
  shows "ledger_inv st' \<and> skipped t i st' \<and> ls_cuts st' t = slice \<and> free_of (from_row t i slice) (ls_table st')"
  using skipped_run_step[of st t i ev st'] step_keeps_row_gone[of st t i ev st' slice] cuts_step[of ev st st' t] assms by metis

lemma row_gone_end_step:
  assumes "ledger_inv st \<and> skipped t i st \<and> free_of (from_row t i None) (ls_table st)"
    and "\<not> admits_row t i ev \<and> \<not> copies_to t ev" and "ledger_step ev st = Some st'"
  shows "ledger_inv st' \<and> skipped t i st' \<and> free_of (from_row t i None) (ls_table st')"
  using skipped_run_step[of st t i ev st'] step_keeps_row_gone[of st t i ev st' None] assms by blast

lemma drop_start_skips:
  assumes "ledger_inv st" and "i \<in> set D"
  shows "skipped t i (drop_start t D st)"
proof -
  have w: "waiting t (drop_start t D st) = waiting t st" by (rule jobs_cong) (simp_all add: drop_start_def)
  have ok: "worker_ok t st" using assms(1) by (simp add: ledger_inv_def)
  show ?thesis
  proof (cases "get_or (ls_pending st) t 0 = 0")
    case True
    then have "load t st = 0" using ok by (auto simp: worker_ok_def get_or_def split: if_splits)
    then have "waiting t st = []" by (auto simp: load_def waiting_def busy_def split: option.splits ledger_phase.splits if_splits)
    then show ?thesis using w by (simp add: skipped_def)
  next
    case False
    then show ?thesis using w assms(2) by (auto simp: skipped_def drop_start_def get_or_def list_all_iff)
  qed
qed

lemma drop_read_cut:
  assumes "i \<in> set D"
  shows "free_of (from_row t i (ls_cuts (drop_read t D st) t)) (ls_table (drop_read t D st))"
proof -
  define stays :: "goal_entry \<Rightarrow> bool" where "stays = (\<lambda>r. case ge_source_row r of None \<Rightarrow> True | Some i \<Rightarrow> i \<notin> set D)"
  define es where "es = sort_key ge_seq (list_entries t (ls_table st))"
  have split: "split_at_dropped (list_entries t (ls_table st)) D = (takeWhile stays es, dropWhile stays es)"
    by (simp add: split_at_dropped_def stays_def es_def Let_def)
  have "D \<noteq> []" using assms by auto
  have row: "e \<in> set (dropWhile stays es)" if "e \<in> set (ls_table st)" "ge_thread e = t" "ge_source_row e = Some i" for e
  proof -
    have "e \<in> set es" using that by (simp add: es_def list_entries_def)
    moreover have "e \<notin> set (takeWhile stays es)" using that(3) assms by (auto simp: stays_def dest: set_takeWhileD)
    ultimately show ?thesis by (metis Un_iff set_append takeWhile_dropWhile_id)
  qed
  have table: "ls_table (drop_read t D st) = ls_table st"
    by (simp add: drop_read_def split: prod.splits list.splits)
  show ?thesis
  proof (cases "dropWhile stays es")
    case Nil
    have "\<not> from_row t i k e" if "e \<in> set (ls_table st)" for k e
      using row[OF that] unfolding Nil by (auto simp: from_row_def)
    then show ?thesis by (simp add: table free_of_def list_all_iff)
  next
    case (Cons d ds)
    then have slice: "ls_cuts (drop_read t D st) t = Some (ge_seq d, statuses_without_dropped (takeWhile stays es) (d # ds))"
      using \<open>D \<noteq> []\<close> by (simp add: drop_read_def split)
    have "sorted (map ge_seq (takeWhile stays es @ d # ds))" using Cons by (metis es_def sorted_sort_key takeWhile_dropWhile_id)
    then have "ge_seq d \<le> ge_seq e" if "e \<in> set (d # ds)" for e using that by (auto simp: sorted_append)
    then show ?thesis using row Cons unfolding slice table by (fastforce simp: free_of_def list_all_iff from_row_def)
  qed
qed

lemma drop_end_clears:
  assumes "free_of (from_row t i (ls_cuts st t)) (ls_table st)"
  shows "free_of (from_row t i None) (ls_table (drop_end t st))"
proof (cases "ls_cuts st t")
  case None
  then show ?thesis using assms by (simp add: drop_end_def)
next
  case (Some slice)
  obtain from_seq us where slice: "slice = (from_seq, us)" by (cases slice)
  have "free_of (from_row t i None) (filter (\<lambda>e. \<not> (ge_thread e = t \<and> from_seq \<le> ge_seq e)) (ls_table st))"
    using assms by (auto simp: Some slice free_of_def list_all_iff from_row_def)
  then show ?thesis
    by (simp add: drop_end_def Some slice refresh_view_def truncate_entries_def Let_def free_of_update[OF unmarked_from_row])
qed

text \<open>
  C14: Once a drop of messages has ended there is no entry for a dropped message in the thread's ledger, and none appears
  later, although the message may have been waiting for its classification when the drop began or have been classified while
  the drop was waiting: only admitting that message again, or copying a branch onto the thread, can bring it back.
\<close>

theorem dropped_messages_never_return:
  assumes "ledger_run (pre @ LDropStart t D # mid @ LDropRead t D # late @ LDropEnd t # post) (new_ledger tab n c) = Some st"
    and "list_all (\<lambda>e. 0 < ge_seq e) tab" and "i \<in> set D"
    and "list_all (\<lambda>ev. \<not> admits_row t i ev \<and> \<not> copies_to t ev) (mid @ late @ post)" and "list_all (\<lambda>ev. \<not> drops t ev) late"
  shows "list_all (\<lambda>e. ge_source_row e \<noteq> Some i) (list_entries t (ls_table st))"
proof -
  obtain s1 where run1: "ledger_run pre (new_ledger tab n c) = Some s1"
      "ledger_run (mid @ LDropRead t D # late @ LDropEnd t # post) (drop_start t D s1) = Some st"
    using ledger_run_split[OF assms(1)] by auto
  obtain s2 where run2: "ledger_run mid (drop_start t D s1) = Some s2"
      "ledger_run (late @ LDropEnd t # post) (drop_read t D s2) = Some st"
    using ledger_run_split[OF run1(2)] by auto
  obtain s3 where run3: "ledger_run late (drop_read t D s2) = Some s3" "ledger_run post (drop_end t s3) = Some st"
    using ledger_run_split[OF run2(2)] by auto
  have i1: "ledger_inv s1" by (rule ledger_inv_run[OF run1(1) ledger_inv_new[OF assms(2)]])
  have start: "ledger_inv (drop_start t D s1) \<and> skipped t i (drop_start t D s1)"
    using ledger_inv_step[OF _ i1, of "LDropStart t D"] drop_start_skips[OF i1 assms(3)] by simp
  have s2: "ledger_inv s2 \<and> skipped t i s2"
    by (rule ledger_run_keeps[where Q = "\<lambda>s. ledger_inv s \<and> skipped t i s" and R = "\<lambda>ev. \<not> admits_row t i ev",
          OF run2(1) start _ skipped_run_step]) (use assms(4) in \<open>auto simp: list_all_iff\<close>)
  let ?slice = "ls_cuts (drop_read t D s2) t"
  have read: "ledger_inv (drop_read t D s2) \<and> skipped t i (drop_read t D s2) \<and> ls_cuts (drop_read t D s2) t = ?slice
      \<and> free_of (from_row t i ?slice) (ls_table (drop_read t D s2))"
    using skipped_run_step[OF s2, of "LDropRead t D"] drop_read_cut[OF assms(3)] by simp
  have s3: "ledger_inv s3 \<and> skipped t i s3 \<and> ls_cuts s3 t = ?slice \<and> free_of (from_row t i ?slice) (ls_table s3)"
    by (rule ledger_run_keeps[where Q = "\<lambda>s. ledger_inv s \<and> skipped t i s \<and> ls_cuts s t = ?slice \<and> free_of (from_row t i ?slice) (ls_table s)"
          and R = "\<lambda>ev. \<not> admits_row t i ev \<and> \<not> copies_to t ev \<and> \<not> drops t ev", OF run3(1) read _ row_gone_run_step])
       (use assms(4,5) in \<open>auto simp: list_all_iff\<close>)
  have ended: "ledger_inv (drop_end t s3) \<and> skipped t i (drop_end t s3) \<and> free_of (from_row t i None) (ls_table (drop_end t s3))"
    using skipped_run_step[of s3 t i "LDropEnd t"] drop_end_clears[of t i s3] s3 by simp
  have "ledger_inv st \<and> skipped t i st \<and> free_of (from_row t i None) (ls_table st)"
    by (rule ledger_run_keeps[where Q = "\<lambda>s. ledger_inv s \<and> skipped t i s \<and> free_of (from_row t i None) (ls_table s)"
          and R = "\<lambda>ev. \<not> admits_row t i ev \<and> \<not> copies_to t ev", OF run3(2) ended _ row_gone_end_step])
       (use assms(4) in \<open>auto simp: list_all_iff\<close>)
  then show ?thesis by (auto simp: free_of_def list_entries_def list_all_iff from_row_def)
qed

definition worker_trace :: "ledger_event list" where
  \<comment> \<open>a first message is stored, the classifier is asked about a second, a third waits\<close>
  "worker_trace = [LAdmit ''t'' ''build it'' PHuman (Some CMessage) (Some ''m1''), LTake ''t'' ''a'' 1,
     LAnswer ''t'' ''a'' 1 (Some (noise\<lparr>cl_intent := INewGoal\<rparr>)), LPrune ''t'', LSettle ''t'', LFinish ''t'',
     LAdmit ''t'' ''then this'' PHuman (Some CMessage) (Some ''m2''), LTake ''t'' ''b'' 2,
     LAdmit ''t'' ''and that'' PHuman (Some CSteer) (Some ''m3'')]"

definition late_answers :: "ledger_event list" where
  "late_answers = [LAnswer ''t'' ''b'' 3 None, LSettle ''t'', LFinish ''t'', LTake ''t'' ''c'' 4, LSettle ''t'', LFinish ''t'']"

lemma cleared_jobs_never_land_witness:
  \<comment> \<open>something new is said while the old classifier still runs, and its goal is stored\<close>
  "\<exists>st. ledger_run (worker_trace @ LClearStart ''t'' # [] @ LClearEnd ''t''
        # LAdmit ''t'' ''a new thing'' PHuman (Some CMessage) (Some ''m4'') # late_answers
        @ [LTake ''t'' ''d'' 5, LAnswer ''t'' ''d'' 6 (Some (noise\<lparr>cl_intent := INewGoal\<rparr>))]) (new_ledger [] 64 256) = Some st
     \<and> map ge_verbatim (list_entries ''t'' (ls_table st)) = [''a new thing'']
     \<and> list_all (\<lambda>e. (ge_source_row e, ge_verbatim e) = (Some ''m4'', ''a new thing'')) (list_entries ''t'' (ls_table st))"
proof -
  let ?post = "LAdmit ''t'' ''a new thing'' PHuman (Some CMessage) (Some ''m4'') # late_answers
        @ [LTake ''t'' ''d'' 5, LAnswer ''t'' ''d'' 6 (Some (noise\<lparr>cl_intent := INewGoal\<rparr>))]"
  have "case ledger_run (worker_trace @ LClearStart ''t'' # [] @ LClearEnd ''t'' # ?post) (new_ledger [] 64 256) of None \<Rightarrow> False
      | Some st \<Rightarrow> map ge_verbatim (list_entries ''t'' (ls_table st)) = [''a new thing'']" by code_simp
  then obtain st where run: "ledger_run (worker_trace @ LClearStart ''t'' # [] @ LClearEnd ''t'' # ?post) (new_ledger [] 64 256) = Some st"
      "map ge_verbatim (list_entries ''t'' (ls_table st)) = [''a new thing'']" by (auto split: option.splits)
  have "py_strip ''a new thing'' = ''a new thing''" by code_simp
  then have said: "concat (map (says ''t'') ([] @ ?post)) = [(Some ''m4'', ''a new thing'')]" by (simp add: late_answers_def)
  have none: "list_all (\<lambda>ev. \<not> copies_to ''t'' ev) ?post" by (simp add: late_answers_def)
  from cleared_jobs_never_land[OF run(1) _ none] have "list_all (\<lambda>e. (ge_source_row e, ge_verbatim e) = (Some ''m4'', ''a new thing''))
      (list_entries ''t'' (ls_table st))" unfolding said by simp
  then show ?thesis by (intro exI[of _ st] conjI run)
qed

lemma dropped_messages_never_return_witness:
  "\<exists>st. ledger_run (worker_trace @ LDropStart ''t'' [''m2'', ''m3''] # [] @ LDropRead ''t'' [''m2'', ''m3''] # [] @ LDropEnd ''t'' # late_answers)
       (new_ledger [] 64 256) = Some st
     \<and> list_all (\<lambda>e. ge_source_row e \<noteq> Some ''m2'') (list_entries ''t'' (ls_table st))
     \<and> list_ex (\<lambda>e. ge_source_row e = Some ''m1'') (list_entries ''t'' (ls_table st))"
proof -
  let ?evs = "worker_trace @ LDropStart ''t'' [''m2'', ''m3''] # [] @ LDropRead ''t'' [''m2'', ''m3''] # [] @ LDropEnd ''t'' # late_answers"
  have "case ledger_run ?evs (new_ledger [] 64 256) of None \<Rightarrow> False
      | Some st \<Rightarrow> list_ex (\<lambda>e. ge_source_row e = Some ''m1'') (list_entries ''t'' (ls_table st))" by code_simp
  then obtain st where run: "ledger_run ?evs (new_ledger [] 64 256) = Some st"
      "list_ex (\<lambda>e. ge_source_row e = Some ''m1'') (list_entries ''t'' (ls_table st))" by (auto split: option.splits)
  from dropped_messages_never_return[OF run(1), of "''m2''"] show ?thesis using run by (auto simp: late_answers_def)
qed

text \<open>
  As long as a message of a thread is waiting for its classification or being classified, a reader of the thread's view
  gets a view, and the view says that a classification is pending.
\<close>

theorem pending_view_honest:
  assumes "ledger_run evs (new_ledger tab n c) = Some st" and "waiting t st \<noteq> []"
  shows "\<exists>v. fst (resolved_intent t st) = Some v \<and> ri_pending v"
proof -
  have "worker_ok t st" using worker_ok_run[OF assms(1) worker_ok_new] .
  moreover have "0 < load t st" using assms(2)
    by (auto simp: load_def waiting_def busy_def split: option.splits ledger_phase.splits)
  ultimately have "0 < get_or (ls_pending st) t 0" by (simp add: worker_ok_def get_or_def)
  then show ?thesis by (auto simp: resolved_intent_def empty_resolved_def Let_def split: option.split)
qed

lemma pending_view_honest_witness:
  "\<exists>st v. ledger_run worker_trace (new_ledger [] 64 256) = Some st \<and> fst (resolved_intent ''t'' st) = Some v \<and> ri_pending v"
proof -
  have "case ledger_run worker_trace (new_ledger [] 64 256) of None \<Rightarrow> False | Some st \<Rightarrow> \<not> List.null (waiting ''t'' st)" by code_simp
  then obtain st where "ledger_run worker_trace (new_ledger [] 64 256) = Some st" "waiting ''t'' st \<noteq> []"
    by (auto simp: List.null_iff split: option.splits)
  with pending_view_honest[of worker_trace "[]" 64 256 st "''t''"] show ?thesis by blast
qed

end
