(* ===== verification/File_Lock.thy ===== *)
theory File_Lock
  imports Prelude
begin

text \<open>
  The lock file that \<open>core/tools/grant_store.py\<close> and \<open>computer/approvals.py\<close> put beside their JSON files, and the
  read-modify-write that runs under it, for any number of processes. A step is one call of the operating system, so
  processes interleave between any two of them; \<open>rmw\<close> is what an operation answers and writes for the bytes it read. A
  lock file has the inode and the modification time of its creation. Shown: as long as no process takes a lock file for
  abandoned, the processes exclude each other and the file holds what the operations would have left one after the other;
  and taking an abandoned lock away is not safe, for two processes can do it to the same lock.
\<close>

section \<open>Processes\<close>

datatype ('f, 'o, 'r) lock_phase =
    LockTry 'o int
  | LockStat 'o int
  | LockStale 'o int
  | LockSleep 'o int
  | LockPid 'o nat
  | LockRead 'o nat
  | LockWrite 'o nat 'r "'f option"
  | LockUnlink 'o nat 'r
  | LockReturned 'o 'r
  | LockTimeout

record ('f, 'o, 'r) lock_world =
  lw_file :: 'f
  lw_lock :: "(nat \<times> int) option"
  lw_now :: int
  lw_inode :: nat
  lw_procs :: "nat \<Rightarrow> ('f, 'o, 'r) lock_phase option"
  lw_reclaims :: nat
  lw_log :: "('o \<times> 'r) list"

definition lock_stale :: int where
  \<comment> \<open>milliseconds\<close>
  "lock_stale = 5000"

definition lock_timeout :: int where
  "lock_timeout = 5000"

datatype 'o lock_event = Enter nat 'o | Advance nat | Elapse nat | Crash nat

definition set_proc :: "nat \<Rightarrow> ('f, 'o, 'r) lock_phase \<Rightarrow> ('f, 'o, 'r) lock_world \<Rightarrow> ('f, 'o, 'r) lock_world" where
  "set_proc p ph w = w\<lparr>lw_procs := (lw_procs w)(p \<mapsto> ph)\<rparr>"

definition past_deadline :: "'o \<Rightarrow> int \<Rightarrow> ('f, 'o, 'r) lock_world \<Rightarrow> ('f, 'o, 'r) lock_phase" where
  "past_deadline op deadline w = (if deadline \<le> lw_now w then LockTimeout else LockSleep op deadline)"

fun advance ::
    "bool \<Rightarrow> ('o \<Rightarrow> 'f \<Rightarrow> 'r \<times> 'f option) \<Rightarrow> nat \<Rightarrow> ('f, 'o, 'r) lock_phase \<Rightarrow> ('f, 'o, 'r) lock_world \<Rightarrow> ('f, 'o, 'r) lock_world" where
  \<comment> \<open>\<open>spins\<close>: a lock file that vanished before \<open>stat\<close> is tried again at once, without looking at the deadline\<close>
  "advance spins rmw p (LockTry op d) w = (case lw_lock w of
       None \<Rightarrow> set_proc p (LockPid op (lw_inode w)) (w\<lparr>lw_lock := Some (lw_inode w, lw_now w), lw_inode := Suc (lw_inode w)\<rparr>)
     | Some _ \<Rightarrow> set_proc p (LockStat op d) w)"
| "advance spins rmw p (LockStat op d) w = (case lw_lock w of
       None \<Rightarrow> set_proc p (if spins then LockTry op d else past_deadline op d w) w
     | Some (_, m) \<Rightarrow> set_proc p (if lock_stale < lw_now w - m then LockStale op d else past_deadline op d w) w)"
| "advance spins rmw p (LockStale op d) w = set_proc p (LockTry op d) (w\<lparr>lw_lock := None, lw_reclaims := Suc (lw_reclaims w)\<rparr>)"
| "advance spins rmw p (LockSleep op d) w = set_proc p (LockTry op d) w"
| "advance spins rmw p (LockPid op i) w = set_proc p (LockRead op i)
     (w\<lparr>lw_lock := (case lw_lock w of None \<Rightarrow> None | Some (j, m) \<Rightarrow> Some (j, if j = i then lw_now w else m))\<rparr>)"
| "advance spins rmw p (LockRead op i) w = (case rmw op (lw_file w) of (r, new) \<Rightarrow> set_proc p (LockWrite op i r new) w)"
| "advance spins rmw p (LockWrite op i r new) w = set_proc p (LockUnlink op i r)
     (w\<lparr>lw_file := (case new of None \<Rightarrow> lw_file w | Some f \<Rightarrow> f), lw_log := lw_log w @ [(op, r)]\<rparr>)"
| "advance spins rmw p (LockUnlink op i r) w = set_proc p (LockReturned op r) (w\<lparr>lw_lock := None\<rparr>)"
| "advance spins rmw p (LockReturned op r) w = w"
| "advance spins rmw p LockTimeout w = w"

fun lock_step ::
    "bool \<Rightarrow> ('o \<Rightarrow> 'f \<Rightarrow> 'r \<times> 'f option) \<Rightarrow> 'o lock_event \<Rightarrow> ('f, 'o, 'r) lock_world \<Rightarrow> ('f, 'o, 'r) lock_world" where
  \<comment> \<open>a process that is not running may enter; one that crashes leaves its lock file behind\<close>
  "lock_step spins rmw (Enter p op) w =
     (if lw_procs w p = None then set_proc p (LockTry op (lw_now w + lock_timeout)) w else w)"
| "lock_step spins rmw (Advance p) w = (case lw_procs w p of None \<Rightarrow> w | Some ph \<Rightarrow> advance spins rmw p ph w)"
| "lock_step spins rmw (Elapse n) w = w\<lparr>lw_now := lw_now w + int n\<rparr>"
| "lock_step spins rmw (Crash p) w = w\<lparr>lw_procs := (lw_procs w)(p := None)\<rparr>"

definition new_world :: "'f \<Rightarrow> int \<Rightarrow> ('f, 'o, 'r) lock_world" where
  "new_world f now = \<lparr>lw_file = f, lw_lock = None, lw_now = now, lw_inode = 0, lw_procs = (\<lambda>_. None), lw_reclaims = 0,
     lw_log = []\<rparr>"

definition lock_run ::
    "bool \<Rightarrow> ('o \<Rightarrow> 'f \<Rightarrow> 'r \<times> 'f option) \<Rightarrow> 'o lock_event list \<Rightarrow> ('f, 'o, 'r) lock_world \<Rightarrow> ('f, 'o, 'r) lock_world" where
  "lock_run spins rmw evs w = fold (lock_step spins rmw) evs w"

section \<open>Exclusion\<close>

fun lock_held :: "('f, 'o, 'r) lock_phase \<Rightarrow> nat option" where
  "lock_held (LockPid op i) = Some i"
| "lock_held (LockRead op i) = Some i"
| "lock_held (LockWrite op i r new) = Some i"
| "lock_held (LockUnlink op i r) = Some i"
| "lock_held ph = None"

definition inside :: "('f, 'o, 'r) lock_world \<Rightarrow> nat \<Rightarrow> nat option" where
  "inside w p = Option.bind (lw_procs w p) lock_held"

definition exclusive_world :: "('f, 'o, 'r) lock_world \<Rightarrow> bool" where
  "exclusive_world w \<longleftrightarrow> (\<forall>p i. inside w p = Some i \<longrightarrow> map_option fst (lw_lock w) = Some i)
     \<and> (\<forall>p q. inside w p \<noteq> None \<longrightarrow> inside w q \<noteq> None \<longrightarrow> p = q)"

lemma inside_set_proc [simp]:
  "inside (set_proc p ph w) q = (if q = p then lock_held ph else inside w q)"
  "lw_lock (set_proc p ph w) = lw_lock w" "lw_file (set_proc p ph w) = lw_file w" "lw_log (set_proc p ph w) = lw_log w"
  "lw_reclaims (set_proc p ph w) = lw_reclaims w"
  by (simp_all add: inside_def set_proc_def)

lemma inside_update [simp]:
  "inside (w\<lparr>lw_lock := l\<rparr>) p = inside w p" "inside (w\<lparr>lw_file := f\<rparr>) p = inside w p" "inside (w\<lparr>lw_now := n\<rparr>) p = inside w p"
  "inside (w\<lparr>lw_inode := m\<rparr>) p = inside w p" "inside (w\<lparr>lw_log := g\<rparr>) p = inside w p"
  "inside (w\<lparr>lw_reclaims := m\<rparr>) p = inside w p"
  by (simp_all add: inside_def)

lemma past_deadline_held [simp]: "lock_held (past_deadline op d w) = None"
  by (simp add: past_deadline_def)

lemma reclaims_mono: "lw_reclaims w \<le> lw_reclaims (lock_step spins rmw ev w)"
proof (cases ev)
  case (Advance p)
  show ?thesis
  proof (cases "lw_procs w p")
    case (Some ph)
    then show ?thesis using Advance by (cases ph) (auto split: option.split prod.split)
  qed (simp add: Advance)
qed auto

lemma exclusive_step:
  assumes inv: "exclusive_world w" and "lw_reclaims (lock_step spins rmw ev w) = lw_reclaims w"
  shows "exclusive_world (lock_step spins rmw ev w)"
proof (cases ev)
  case (Enter p op)
  then show ?thesis using inv by (auto simp: exclusive_world_def split: if_splits)
next
  case (Advance p)
  show ?thesis
  proof (cases "lw_procs w p")
    case None
    then show ?thesis using Advance inv by simp
  next
    case (Some ph)
    have held: "inside w p = lock_held ph" using Some by (simp add: inside_def)
    show ?thesis
      using inv held assms(2) Advance Some
      by (cases ph) (auto simp: exclusive_world_def split: option.split prod.split if_splits)
  qed
next
  case (Elapse n)
  then show ?thesis using inv by (simp add: exclusive_world_def)
next
  case (Crash p)
  then show ?thesis using inv by (auto simp: exclusive_world_def inside_def split: if_splits)
qed

section \<open>Serializability\<close>

fun serial :: "('o \<Rightarrow> 'f \<Rightarrow> 'r \<times> 'f option) \<Rightarrow> ('o \<times> 'r) list \<Rightarrow> 'f \<Rightarrow> 'f option" where
  \<comment> \<open>the file after the operations, one after the other, when they answer what the log says\<close>
  "serial rmw [] f = Some f"
| "serial rmw ((op, r) # log) f = (case rmw op f of (r', new) \<Rightarrow>
     if r' = r then serial rmw log (case new of None \<Rightarrow> f | Some g \<Rightarrow> g) else None)"

lemma serial_append:
  "serial rmw (xs @ ys) f = (case serial rmw xs f of None \<Rightarrow> None | Some g \<Rightarrow> serial rmw ys g)"
  by (induction xs arbitrary: f) (auto split: prod.split)

fun phase_ok :: "('o \<Rightarrow> 'f \<Rightarrow> 'r \<times> 'f option) \<Rightarrow> 'f \<Rightarrow> ('o \<times> 'r) list \<Rightarrow> ('f, 'o, 'r) lock_phase \<Rightarrow> bool" where
  "phase_ok rmw f log (LockWrite op i r new) \<longleftrightarrow> rmw op f = (r, new)"
| "phase_ok rmw f log (LockUnlink op i r) \<longleftrightarrow> (op, r) \<in> set log"
| "phase_ok rmw f log (LockReturned op r) \<longleftrightarrow> (op, r) \<in> set log"
| "phase_ok rmw f log ph \<longleftrightarrow> True"

definition serial_world :: "('o \<Rightarrow> 'f \<Rightarrow> 'r \<times> 'f option) \<Rightarrow> 'f \<Rightarrow> ('f, 'o, 'r) lock_world \<Rightarrow> bool" where
  "serial_world rmw f w \<longleftrightarrow> exclusive_world w \<and> serial rmw (lw_log w) f = Some (lw_file w)
     \<and> (\<forall>p ph. lw_procs w p = Some ph \<longrightarrow> phase_ok rmw (lw_file w) (lw_log w) ph)"

lemma procs_set_proc [simp]: "lw_procs (set_proc p ph w) = (lw_procs w)(p \<mapsto> ph)"
  by (simp add: set_proc_def)

lemma past_deadline_ok [simp]: "phase_ok rmw f log (past_deadline op d w)"
  by (simp add: past_deadline_def)

lemma serial_set_proc:
  assumes "serial_world rmw f w" and "exclusive_world w'" and "lw_procs w' = (lw_procs w)(p \<mapsto> ph')"
    and "lw_file w' = lw_file w" and "lw_log w' = lw_log w" and "phase_ok rmw (lw_file w) (lw_log w) ph'"
  shows "serial_world rmw f w'"
  using assms by (simp add: serial_world_def)

lemma phase_ok_log: "phase_ok rmw f log ph \<Longrightarrow> phase_ok rmw f (log @ log2) ph"
  by (cases ph) auto

lemma phase_ok_outside: "phase_ok rmw f log ph \<Longrightarrow> lock_held ph = None \<Longrightarrow> phase_ok rmw g log ph"
  by (cases ph) auto

lemma advance_shape:
  assumes "lw_procs w p = Some ph" and "phase_ok rmw (lw_file w) (lw_log w) ph" and "\<And>op i r new. ph \<noteq> LockWrite op i r new"
  shows "\<exists>ph'. lw_procs (advance spins rmw p ph w) = (lw_procs w)(p \<mapsto> ph') \<and> lw_file (advance spins rmw p ph w) = lw_file w
    \<and> lw_log (advance spins rmw p ph w) = lw_log w \<and> phase_ok rmw (lw_file w) (lw_log w) ph'"
proof (cases ph)
  case (LockTry op d)
  then show ?thesis by (cases "lw_lock w") auto
next
  case (LockStat op d)
  then show ?thesis by (cases "lw_lock w") (auto split: prod.split)
next
  case (LockRead op i)
  then show ?thesis by (cases "rmw op (lw_file w)") auto
next
  case (LockReturned op r)
  then show ?thesis using assms by (intro exI[of _ ph]) (simp add: fun_upd_idem)
next
  case LockTimeout
  then show ?thesis using assms by (intro exI[of _ ph]) (simp add: fun_upd_idem)
qed (use assms in auto)

lemma serial_advance_quiet:
  assumes inv: "serial_world rmw f w" and ph: "lw_procs w p = Some ph" and ex: "exclusive_world (advance spins rmw p ph w)"
    and quiet: "\<And>op i r new. ph \<noteq> LockWrite op i r new"
  shows "serial_world rmw f (advance spins rmw p ph w)"
proof -
  have "phase_ok rmw (lw_file w) (lw_log w) ph" using inv ph by (simp add: serial_world_def)
  from advance_shape[OF ph this quiet] obtain ph' where
    "lw_procs (advance spins rmw p ph w) = (lw_procs w)(p \<mapsto> ph')" "lw_file (advance spins rmw p ph w) = lw_file w"
    "lw_log (advance spins rmw p ph w) = lw_log w" "phase_ok rmw (lw_file w) (lw_log w) ph'" by blast
  then show ?thesis by (intro serial_set_proc[OF inv ex])
qed

lemma serial_advance:
  assumes inv: "serial_world rmw f w" and ph: "lw_procs w p = Some ph" and ex: "exclusive_world (advance spins rmw p ph w)"
  shows "serial_world rmw f (advance spins rmw p ph w)"
proof (cases ph)
  case (LockWrite op i r new)
  let ?g = "case new of None \<Rightarrow> lw_file w | Some f \<Rightarrow> f" and ?log = "lw_log w @ [(op, r)]"
  have rmw: "rmw op (lw_file w) = (r, new)" using inv ph LockWrite by (fastforce simp: serial_world_def)
  have "phase_ok rmw ?g ?log qh" if q: "lw_procs w q = Some qh" "q \<noteq> p" for q qh
  proof -
    have "inside w p \<noteq> None" using ph LockWrite by (simp add: inside_def)
    then have "inside w q = None" using inv q(2) by (auto simp: serial_world_def exclusive_world_def)
    then have "lock_held qh = None" using q(1) by (simp add: inside_def)
    moreover have "phase_ok rmw (lw_file w) (lw_log w) qh" using inv q(1) by (simp add: serial_world_def)
    ultimately show ?thesis by (blast intro: phase_ok_outside phase_ok_log)
  qed
  then show ?thesis
    using inv LockWrite ex rmw by (simp add: serial_world_def serial_append)
qed (rule serial_advance_quiet[OF inv ph ex]; simp)+

lemma serial_step:
  assumes inv: "serial_world rmw f w" and "lw_reclaims (lock_step spins rmw ev w) = lw_reclaims w"
  shows "serial_world rmw f (lock_step spins rmw ev w)"
proof -
  have ex: "exclusive_world (lock_step spins rmw ev w)"
    using inv by (intro exclusive_step[OF _ assms(2)]) (simp add: serial_world_def)
  show ?thesis
  proof (cases ev)
    case (Advance p)
    then show ?thesis using inv ex serial_advance[OF inv] by (cases "lw_procs w p") auto
  next
    case (Enter p op)
    then show ?thesis using inv ex by (auto intro!: serial_set_proc[OF inv, of _ p])
  next
    case (Elapse n)
    then show ?thesis using inv ex by (simp add: serial_world_def)
  next
    case (Crash p)
    then show ?thesis using inv ex by (simp add: serial_world_def)
  qed
qed

lemma serial_world_new: "serial_world rmw f (new_world f now)"
  by (simp add: serial_world_def exclusive_world_def new_world_def inside_def)

lemma lock_run_reclaims: "lw_reclaims w \<le> lw_reclaims (lock_run spins rmw evs w)"
proof (induction evs arbitrary: w)
  case (Cons ev evs)
  then show ?case using reclaims_mono[of w spins rmw ev] by (auto simp: lock_run_def intro: order_trans)
qed (simp add: lock_run_def)

lemma serial_run:
  assumes "serial_world rmw f w" and "lw_reclaims (lock_run spins rmw evs w) = lw_reclaims w"
  shows "serial_world rmw f (lock_run spins rmw evs w)"
  using assms
proof (induction evs arbitrary: w)
  case (Cons ev evs)
  let ?w = "lock_step spins rmw ev w"
  have "lw_reclaims (lock_run spins rmw evs ?w) = lw_reclaims w" using Cons.prems(2) by (simp add: lock_run_def)
  moreover have "lw_reclaims w \<le> lw_reclaims ?w" "lw_reclaims ?w \<le> lw_reclaims (lock_run spins rmw evs ?w)"
    by (rule reclaims_mono lock_run_reclaims)+
  ultimately have same: "lw_reclaims ?w = lw_reclaims w" "lw_reclaims (lock_run spins rmw evs ?w) = lw_reclaims ?w" by simp_all
  show ?case using Cons.IH[OF serial_step[OF Cons.prems(1) same(1)] same(2)] by (simp add: lock_run_def)
qed (simp add: lock_run_def)

text \<open>
  The contract of a store behind such a lock: what a file says (\<open>view\<close>), and what an operation that was carried out makes of
  that. An operation that is refused leaves the file alone.
\<close>

locale locked_store =
  fixes rmw :: "'o \<Rightarrow> 'f \<Rightarrow> 'r \<times> 'f option"
    and view :: "'f \<Rightarrow> 'v"
    and effect :: "'o \<Rightarrow> 'v \<Rightarrow> 'v"
    and carried :: "'r \<Rightarrow> bool"
  assumes carried_out: "rmw op f = (r, new) \<Longrightarrow> carried r \<Longrightarrow> view (case new of None \<Rightarrow> f | Some g \<Rightarrow> g) = effect op (view f)"
    and refused: "rmw op f = (r, new) \<Longrightarrow> \<not> carried r \<Longrightarrow> new = None"
begin

lemma serial_view:
  "serial rmw log f = Some g \<Longrightarrow> view g = fold effect (map fst (filter (\<lambda>(_, r). carried r) log)) (view f)"
proof (induction log arbitrary: f)
  case (Cons entry log)
  obtain op r where entry: "entry = (op, r)" by (cases entry)
  obtain new where rmw: "rmw op f = (r, new)" using Cons.prems entry by (auto split: prod.splits if_splits)
  then have rest: "serial rmw log (case new of None \<Rightarrow> f | Some h \<Rightarrow> h) = Some g" using Cons.prems entry by simp
  show ?case
  proof (cases "carried r")
    case True
    then show ?thesis using Cons.IH[OF rest] carried_out[OF rmw] entry by simp
  next
    case False
    then show ?thesis using Cons.IH[OF rest] refused[OF rmw] entry by simp
  qed
qed simp

lemma run_view:
  assumes "lw_reclaims (lock_run spins rmw evs (new_world f now)) = 0"
  shows "view (lw_file (lock_run spins rmw evs (new_world f now)))
    = fold effect (map fst (filter (\<lambda>(_, r). carried r) (lw_log (lock_run spins rmw evs (new_world f now))))) (view f)"
proof -
  have "lw_reclaims (new_world f now :: ('f, 'o, 'r) lock_world) = 0" by (simp add: new_world_def)
  then have "serial_world rmw f (lock_run spins rmw evs (new_world f now))"
    using assms by (intro serial_run serial_world_new) simp
  then show ?thesis by (intro serial_view) (simp add: serial_world_def)
qed

lemma returned_logged:
  assumes "lw_reclaims (lock_run spins rmw evs (new_world f now)) = 0"
    and "lw_procs (lock_run spins rmw evs (new_world f now)) p = Some (LockReturned op r)"
  shows "(op, r) \<in> set (lw_log (lock_run spins rmw evs (new_world f now)))"
proof -
  have "lw_reclaims (new_world f now :: ('f, 'o, 'r) lock_world) = 0" by (simp add: new_world_def)
  then have "serial_world rmw f (lock_run spins rmw evs (new_world f now))"
    using assms(1) by (intro serial_run serial_world_new) simp
  then have "phase_ok rmw (lw_file (lock_run spins rmw evs (new_world f now))) (lw_log (lock_run spins rmw evs (new_world f now)))
      (LockReturned op r)" using assms(2) unfolding serial_world_def by blast
  then show ?thesis by simp
qed

end

end
