(* ===== verification/Grant_Store.thy ===== *)
theory Grant_Store
  imports File_Lock Permissions
begin

text \<open>
  \<open>core/tools/grant_store.py\<close> and \<open>computer/approvals.py\<close>: the two JSON files that keep what the user has allowed for good,
  each read, changed and written under its lock file. A file is what reading it gives: nothing there, an error of the
  operating system, bytes that are not UTF-8, text that is not JSON, or a JSON document. Shown: without reclaimed locks
  every approval of a command or folder that was acknowledged is in the file until it is removed, whatever processes do at the same time; a grants
  file that cannot be read is never overwritten; and a remembered resource allows that resource and no other.
\<close>

section \<open>Files\<close>

datatype store_file = NoFile | Unopenable | BadBytes | BadJson | Document json

datatype store_raise = UnicodeDecodeError

record command_grant =
  cg_command :: string
  cg_created_at :: string

record path_grant =
  pg_path :: string
  pg_mode :: string
  pg_created_at :: string

record grants =
  gr_commands :: "command_grant list"
  gr_paths :: "path_grant list"

definition no_grants :: grants where
  "no_grants = \<lparr>gr_commands = [], gr_paths = []\<rparr>"

definition text_of :: "json option \<Rightarrow> string" where
  \<comment> \<open>\<open>str(item.get(key, ""))\<close>\<close>
  "text_of v = (case v of None \<Rightarrow> [] | Some j \<Rightarrow> py_str_json j)"

definition parse_command :: "json \<Rightarrow> command_grant option" where
  "parse_command item = (case item of
       JObj d \<Rightarrow> (case dict_get d ''command'' of
           Some (JStr c) \<Rightarrow> if py_strip c = [] then None
             else Some \<lparr>cg_command = py_strip c, cg_created_at = text_of (dict_get d ''created_at'')\<rparr>
         | _ \<Rightarrow> None)
     | _ \<Rightarrow> None)"

definition parse_path :: "json \<Rightarrow> path_grant option" where
  \<comment> \<open>every mode is taken for \<open>read\<close>\<close>
  "parse_path item = (case item of
       JObj d \<Rightarrow> (case dict_get d ''path'' of
           Some (JStr p) \<Rightarrow> if py_strip p = [] then None
             else Some \<lparr>pg_path = py_strip p, pg_mode = ''read'', pg_created_at = text_of (dict_get d ''created_at'')\<rparr>
         | _ \<Rightarrow> None)
     | _ \<Rightarrow> None)"

definition list_items :: "json option \<Rightarrow> json list" where
  "list_items v = (case v of Some (JList items) \<Rightarrow> items | _ \<Rightarrow> [])"

definition parse_grants :: "store_file \<Rightarrow> store_raise + grants option" where
  "parse_grants f = (case f of
       NoFile \<Rightarrow> Inr (Some no_grants)
     | Unopenable \<Rightarrow> Inr None
     | BadBytes \<Rightarrow> Inl UnicodeDecodeError
     | BadJson \<Rightarrow> Inr None
     | Document (JObj d) \<Rightarrow> Inr (Some
         \<lparr>gr_commands = List.map_filter parse_command (list_items (dict_get d ''commands'')),
          gr_paths = List.map_filter parse_path (list_items (dict_get d ''paths''))\<rparr>)
     | Document _ \<Rightarrow> Inr None)"

definition load_grants :: "store_file \<Rightarrow> store_raise + grants" where
  "load_grants f = bind_result (parse_grants f) (\<lambda>g. Inr (case g of None \<Rightarrow> no_grants | Some g \<Rightarrow> g))"

definition grants_payload :: "grants \<Rightarrow> json" where
  "grants_payload g = JObj
     [(''version'', JInt 1),
      (''commands'', JList (map (\<lambda>c. JObj [(''command'', JStr (cg_command c)), (''created_at'', JStr (cg_created_at c))]) (gr_commands g))),
      (''paths'', JList (map (\<lambda>p. JObj [(''path'', JStr (pg_path p)), (''mode'', JStr (pg_mode p)),
          (''created_at'', JStr (pg_created_at p))]) (gr_paths g)))]"

section \<open>Grants\<close>

datatype grant_op =
    AddCommand string string
  | RemoveCommand string
  | AddPath string string string
  | RemovePath string

fun change_grants :: "grant_op \<Rightarrow> grants \<Rightarrow> grants option" where
  \<comment> \<open>\<open>None\<close> when there is nothing to remove\<close>
  "change_grants (AddCommand c t) g =
     Some (g\<lparr>gr_commands := filter (\<lambda>x. cg_command x \<noteq> c) (gr_commands g) @ [\<lparr>cg_command = c, cg_created_at = t\<rparr>]\<rparr>)"
| "change_grants (RemoveCommand c) g =
     (let remaining = filter (\<lambda>x. cg_command x \<noteq> c) (gr_commands g)
      in if length remaining = length (gr_commands g) then None else Some (g\<lparr>gr_commands := remaining\<rparr>))"
| "change_grants (AddPath f m t) g =
     Some (g\<lparr>gr_paths := filter (\<lambda>x. pg_path x \<noteq> f) (gr_paths g) @ [\<lparr>pg_path = f, pg_mode = m, pg_created_at = t\<rparr>]\<rparr>)"
| "change_grants (RemovePath f) g =
     (let remaining = filter (\<lambda>x. pg_path x \<noteq> f) (gr_paths g)
      in if length remaining = length (gr_paths g) then None else Some (g\<lparr>gr_paths := remaining\<rparr>))"

definition grants_rmw :: "grant_op \<Rightarrow> store_file \<Rightarrow> (store_raise + bool) \<times> store_file option" where
  "grants_rmw op f = (case parse_grants f of
       Inl e \<Rightarrow> (Inl e, None)
     | Inr None \<Rightarrow> (Inr False, None)
     | Inr (Some g) \<Rightarrow> (case change_grants op g of
           None \<Rightarrow> (Inr False, None)
         | Some g' \<Rightarrow> (Inr True, Some (Document (grants_payload g')))))"

section \<open>Approvals\<close>

record approval =
  ap_tool :: string
  ap_resource :: string
  ap_scope :: string
  ap_created_at :: string

definition parse_approval :: "json \<Rightarrow> approval option" where
  "parse_approval item = (case item of
       JObj d \<Rightarrow> (case (dict_get d ''tool'', dict_get d ''resource'') of
           (Some (JStr t), Some (JStr r)) \<Rightarrow>
             Some \<lparr>ap_tool = t, ap_resource = r,
               ap_scope = (if dict_get d ''scope'' = Some (JStr ''tool'') then ''tool'' else ''resource''),
               ap_created_at = text_of (dict_get d ''created_at'')\<rparr>
         | _ \<Rightarrow> None)
     | _ \<Rightarrow> None)"

definition load_approvals :: "store_file \<Rightarrow> store_raise + approval list" where
  "load_approvals f = (case f of
       BadBytes \<Rightarrow> Inl UnicodeDecodeError
     | Document (JObj d) \<Rightarrow> Inr (List.map_filter parse_approval (list_items (dict_get d ''approvals'')))
     | _ \<Rightarrow> Inr [])"

definition approvals_payload :: "approval list \<Rightarrow> json" where
  "approvals_payload rs = JObj [(''version'', JInt 1),
     (''approvals'', JList (map (\<lambda>r. JObj [(''tool'', JStr (ap_tool r)), (''resource'', JStr (ap_resource r)),
        (''scope'', JStr (ap_scope r)), (''created_at'', JStr (ap_created_at r))]) rs))]"

datatype approval_op = AddApproval string string string string | RemoveApproval string string

definition other_approvals :: "string \<Rightarrow> string \<Rightarrow> approval list \<Rightarrow> approval list" where
  "other_approvals tool resource rs = filter (\<lambda>r. \<not> (ap_tool r = tool \<and> ap_resource r = resource)) rs"

fun change_approvals :: "approval_op \<Rightarrow> approval list \<Rightarrow> approval list option" where
  "change_approvals (AddApproval t r s c) rs =
     Some (other_approvals t r rs @ [\<lparr>ap_tool = t, ap_resource = r, ap_scope = s, ap_created_at = c\<rparr>])"
| "change_approvals (RemoveApproval t r) rs =
     (let remaining = other_approvals t r rs in if length remaining = length rs then None else Some remaining)"

definition approvals_rmw :: "approval_op \<Rightarrow> store_file \<Rightarrow> (store_raise + bool) \<times> store_file option" where
  \<comment> \<open>\<open>add_approval\<close> answers nothing; here it answers \<open>True\<close>\<close>
  "approvals_rmw op f = (case load_approvals f of
       Inl e \<Rightarrow> (Inl e, None)
     | Inr rs \<Rightarrow> (case change_approvals op rs of
           None \<Rightarrow> (Inr False, None)
         | Some rs' \<Rightarrow> (Inr True, Some (Document (approvals_payload rs')))))"

definition glob_escape :: "string \<Rightarrow> string" where
  \<comment> \<open>\<open>glob.escape\<close>\<close>
  "glob_escape s = concat (map (\<lambda>c. if c \<in> {CHR ''*'', CHR ''?'', CHR ''[''} then [CHR ''['', c, CHR '']''] else [c]) s)"

definition to_permission_rules :: "approval list \<Rightarrow> (string \<times> string \<times> string) list" where
  "to_permission_rules rs = map (\<lambda>r.
     (ap_tool r, if ap_scope r = ''tool'' then ''*'' else glob_escape (ap_resource r), ''allow'')) rs"

section \<open>What is remembered\<close>

definition normal_command :: "command_grant \<Rightarrow> command_grant option" where
  "normal_command c = (if py_strip (cg_command c) = [] then None else Some (c\<lparr>cg_command := py_strip (cg_command c)\<rparr>))"

definition normal_path :: "path_grant \<Rightarrow> path_grant option" where
  "normal_path p = (if py_strip (pg_path p) = [] then None else Some (p\<lparr>pg_path := py_strip (pg_path p), pg_mode := ''read''\<rparr>))"

definition normal_grants :: "grants \<Rightarrow> grants" where
  \<comment> \<open>what is read back from a file with these grants\<close>
  "normal_grants g = \<lparr>gr_commands = List.map_filter normal_command (gr_commands g),
     gr_paths = List.map_filter normal_path (gr_paths g)\<rparr>"

lemma map_filter_map: "List.map_filter f (map g xs) = List.map_filter (\<lambda>x. f (g x)) xs"
  by (induction xs) (simp_all add: map_filter_simps split: option.split)

lemma parse_payload: "parse_grants (Document (grants_payload g)) = Inr (Some (normal_grants g))"
proof -
  have "parse_command (JObj [(''command'', JStr (cg_command c)), (''created_at'', JStr (cg_created_at c))]) = normal_command c" for c
    by (simp add: parse_command_def normal_command_def text_of_def py_str_json_def)
  moreover have "parse_path (JObj [(''path'', JStr (pg_path p)), (''mode'', JStr (pg_mode p)), (''created_at'', JStr (pg_created_at p))])
      = normal_path p" for p
    by (simp add: parse_path_def normal_path_def text_of_def py_str_json_def)
  ultimately show ?thesis
    by (simp add: parse_grants_def grants_payload_def normal_grants_def list_items_def map_filter_map)
qed

definition grants_view :: "store_file \<Rightarrow> grants" where
  "grants_view f = (case load_grants f of Inl _ \<Rightarrow> no_grants | Inr g \<Rightarrow> g)"

definition grants_effect :: "grant_op \<Rightarrow> grants \<Rightarrow> grants" where
  "grants_effect op g = (case change_grants op g of None \<Rightarrow> g | Some g' \<Rightarrow> normal_grants g')"

lemma grants_view_payload: "grants_view (Document (grants_payload g)) = normal_grants g"
  by (simp add: grants_view_def load_grants_def parse_payload)

interpretation grant_file: locked_store grants_rmw grants_view grants_effect "\<lambda>r. r = Inr True"
proof
  fix op f r new
  assume rmw: "grants_rmw op f = (r, new)"
  show "grants_view (case new of None \<Rightarrow> f | Some g \<Rightarrow> g) = grants_effect op (grants_view f)" if ok: "r = Inr True"
  proof -
    obtain g where g: "parse_grants f = Inr (Some g)" using rmw ok by (auto simp: grants_rmw_def split: sum.splits option.splits)
    then have "grants_view f = g" by (simp add: grants_view_def load_grants_def)
    then show ?thesis
      using rmw ok g by (auto simp: grants_rmw_def grants_effect_def grants_view_payload split: option.splits)
  qed
  show "new = None" if "r \<noteq> Inr True"
    using rmw that by (auto simp: grants_rmw_def split: sum.splits option.splits)
qed

definition normal_approval :: "approval \<Rightarrow> approval" where
  "normal_approval r = r\<lparr>ap_scope := (if ap_scope r = ''tool'' then ''tool'' else ''resource'')\<rparr>"

definition approvals_view :: "store_file \<Rightarrow> approval list" where
  "approvals_view f = (case load_approvals f of Inl _ \<Rightarrow> [] | Inr rs \<Rightarrow> rs)"

definition approvals_effect :: "approval_op \<Rightarrow> approval list \<Rightarrow> approval list" where
  "approvals_effect op rs = (case change_approvals op rs of None \<Rightarrow> rs | Some rs' \<Rightarrow> map normal_approval rs')"

lemma approvals_view_payload: "approvals_view (Document (approvals_payload rs)) = map normal_approval rs"
proof -
  have "parse_approval (JObj [(''tool'', JStr (ap_tool r)), (''resource'', JStr (ap_resource r)), (''scope'', JStr (ap_scope r)),
      (''created_at'', JStr (ap_created_at r))]) = Some (normal_approval r)" for r
    by (simp add: parse_approval_def normal_approval_def text_of_def py_str_json_def)
  then have "List.map_filter (\<lambda>r. parse_approval (JObj [(''tool'', JStr (ap_tool r)), (''resource'', JStr (ap_resource r)),
      (''scope'', JStr (ap_scope r)), (''created_at'', JStr (ap_created_at r))])) rs = map normal_approval rs"
    by (induction rs) (simp_all add: map_filter_simps)
  then show ?thesis by (simp add: approvals_view_def load_approvals_def approvals_payload_def list_items_def map_filter_map)
qed

interpretation approval_file: locked_store approvals_rmw approvals_view approvals_effect "\<lambda>r. r = Inr True"
proof
  fix op f r new
  assume rmw: "approvals_rmw op f = (r, new)"
  show "approvals_view (case new of None \<Rightarrow> f | Some g \<Rightarrow> g) = approvals_effect op (approvals_view f)" if ok: "r = Inr True"
  proof -
    obtain rs where rs: "load_approvals f = Inr rs" using rmw ok by (auto simp: approvals_rmw_def split: sum.splits)
    then have "approvals_view f = rs" by (simp add: approvals_view_def)
    then show ?thesis
      using rmw ok rs by (auto simp: approvals_rmw_def approvals_effect_def approvals_view_payload split: option.splits)
  qed
  show "new = None" if "r \<noteq> Inr True"
    using rmw that by (auto simp: approvals_rmw_def split: sum.splits option.splits)
qed

definition held :: "bool \<Rightarrow> grants \<Rightarrow> string list" where
  \<comment> \<open>the granted commands, or folders\<close>
  "held cmd g = (if cmd then map cg_command (gr_commands g) else map pg_path (gr_paths g))"

definition removal :: "bool \<Rightarrow> string \<Rightarrow> grant_op" where
  "removal cmd s = (if cmd then RemoveCommand s else RemovePath s)"

lemma held_normal:
  assumes "s \<in> set (held cmd g)" and "py_strip s = s" and "s \<noteq> []"
  shows "s \<in> set (held cmd (normal_grants g))"
proof -
  have "s \<in> set (map cg_command (List.map_filter normal_command cs))" if "s \<in> set (map cg_command cs)" for cs
    using that assms(2,3) by (induction cs) (auto simp: map_filter_simps normal_command_def)
  moreover have "s \<in> set (map pg_path (List.map_filter normal_path ps))" if "s \<in> set (map pg_path ps)" for ps
    using that assms(2,3) by (induction ps) (auto simp: map_filter_simps normal_path_def)
  ultimately show ?thesis using assms(1) by (simp add: held_def normal_grants_def split: if_splits)
qed

lemma change_grants_keeps:
  assumes "change_grants op g = Some g'" and "s \<in> set (held cmd g)" and "op \<noteq> removal cmd s"
  shows "s \<in> set (held cmd g')"
  using assms by (cases op) (auto simp: held_def removal_def Let_def split: if_splits)

lemma grants_effect_keeps:
  assumes "s \<in> set (held cmd g)" and "py_strip s = s" and "s \<noteq> []" and "op \<noteq> removal cmd s"
  shows "s \<in> set (held cmd (grants_effect op g))"
proof (cases "change_grants op g")
  case (Some g')
  then show ?thesis using held_normal[OF change_grants_keeps[OF Some assms(1,4)] assms(2,3)] by (simp add: grants_effect_def)
qed (simp add: grants_effect_def assms(1))

lemma grants_effects_keep:
  assumes "s \<in> set (held cmd g)" and "py_strip s = s" and "s \<noteq> []" and "removal cmd s \<notin> set ops"
  shows "s \<in> set (held cmd (fold grants_effect ops g))"
  using assms(1,4)
proof (induction ops arbitrary: g)
  case (Cons op ops)
  then have "s \<in> set (held cmd (grants_effect op g))" by (intro grants_effect_keeps[OF _ assms(2,3)]) auto
  then show ?case using Cons by simp
qed simp

fun grant_of :: "grant_op \<Rightarrow> (bool \<times> string) option" where
  \<comment> \<open>what an operation grants: a command or a folder, as it will be read back\<close>
  "grant_of (AddCommand c t) = Some (True, py_strip c)"
| "grant_of (AddPath f m t) = Some (False, py_strip f)"
| "grant_of _ = None"

lemma grants_effect_adds:
  assumes "grant_of op = Some (cmd, s)" and "s \<noteq> []"
  shows "s \<in> set (held cmd (grants_effect op g))" and "py_strip s = s"
  using assms by (cases op; auto simp: grants_effect_def normal_grants_def map_filter_def normal_command_def normal_path_def held_def)+

text \<open>
  C19: An approval of a command or of a folder that was acknowledged stays in force. Whatever number of processes change the
  grants file at the same time, in whatever interleaving, as long as no lock file was taken for abandoned, the command or the
  folder is among the granted ones afterwards, unless it was removed.
\<close>

theorem acknowledged_grant_kept:
  assumes "lw_reclaims (lock_run False grants_rmw evs (new_world f now)) = 0"
    and "lw_procs (lock_run False grants_rmw evs (new_world f now)) p = Some (LockReturned op (Inr True))"
    and "grant_of op = Some (cmd, s)" and "s \<noteq> []"
    and "removal cmd s \<notin> set (map fst (lw_log (lock_run False grants_rmw evs (new_world f now))))"
  shows "s \<in> set (held cmd (grants_view (lw_file (lock_run False grants_rmw evs (new_world f now)))))"
proof -
  let ?w = "lock_run False grants_rmw evs (new_world f now)"
  have "(op, Inr True) \<in> set (lw_log ?w)" by (rule grant_file.returned_logged[OF assms(1,2)])
  then have "op \<in> set (map fst (filter (\<lambda>(_, r). r = Inr True) (lw_log ?w)))" by force
  then obtain before after where ops: "map fst (filter (\<lambda>(_, r). r = Inr True) (lw_log ?w)) = before @ op # after"
    by (auto dest!: split_list)
  have "set (map fst (filter (\<lambda>(_, r). r = Inr True) (lw_log ?w))) \<subseteq> set (map fst (lw_log ?w))" by auto
  then have "removal cmd s \<notin> set after" using ops assms(5) by auto
  then have "s \<in> set (held cmd (fold grants_effect after (grants_effect op (fold grants_effect before (grants_view f)))))"
    using grants_effect_adds[OF assms(3,4)] assms(4) by (intro grants_effects_keep) simp_all
  then show ?thesis using grant_file.run_view[OF assms(1)] ops by simp
qed

definition solo :: "nat \<Rightarrow> 'o \<Rightarrow> 'o lock_event list" where
  "solo p op = Enter p op # replicate 5 (Advance p)"

lemma acknowledged_grant_kept_witness:
  "''ffmpeg'' \<in> set (held True (grants_view (lw_file
     (lock_run False grants_rmw (solo 0 (AddCommand ''ffmpeg'' ''t0'') @ solo 1 (AddPath ''/docs'' ''read'' ''t1'')) (new_world NoFile 0)))))
   \<and> ''/docs'' \<in> set (held False (grants_view (lw_file
     (lock_run False grants_rmw (solo 0 (AddCommand ''ffmpeg'' ''t0'') @ solo 1 (AddPath ''/docs'' ''read'' ''t1'')) (new_world NoFile 0)))))"
proof -
  let ?w = "lock_run False grants_rmw (solo 0 (AddCommand ''ffmpeg'' ''t0'') @ solo 1 (AddPath ''/docs'' ''read'' ''t1'')) (new_world NoFile 0)"
  have "lw_reclaims ?w = 0" "lw_procs ?w 0 = Some (LockReturned (AddCommand ''ffmpeg'' ''t0'') (Inr True))"
    "lw_procs ?w 1 = Some (LockReturned (AddPath ''/docs'' ''read'' ''t1'') (Inr True))"
    "removal True ''ffmpeg'' \<notin> set (map fst (lw_log ?w))" "removal False ''/docs'' \<notin> set (map fst (lw_log ?w))"
    "grant_of (AddCommand ''ffmpeg'' ''t0'') = Some (True, ''ffmpeg'')" "grant_of (AddPath ''/docs'' ''read'' ''t1'') = Some (False, ''/docs'')"
    by code_simp+
  from acknowledged_grant_kept[OF this(1,2,6) _ this(4)] acknowledged_grant_kept[OF this(1,3,7) _ this(5)] show ?thesis by simp
qed

text \<open>
  What a damaged file says is not known, so it is not rewritten: not even a process that found the lock file abandoned does.
\<close>

definition damaged :: "store_file \<Rightarrow> bool" where
  \<comment> \<open>there is a file, and it cannot be read, is not UTF-8, is not JSON or is no object\<close>
  "damaged f \<longleftrightarrow> f \<noteq> NoFile \<and> (\<forall>d. f \<noteq> Document (JObj d))"

lemma damaged_unreadable: "damaged f \<Longrightarrow> parse_grants f = Inr None \<or> parse_grants f = Inl UnicodeDecodeError"
  by (auto simp: damaged_def parse_grants_def split: store_file.splits json.splits)

fun writes_nothing :: "('f, 'o, store_raise + bool) lock_phase \<Rightarrow> bool" where
  "writes_nothing (LockWrite op i r new) \<longleftrightarrow> new = None \<and> r \<noteq> Inr True"
| "writes_nothing (LockUnlink op i r) \<longleftrightarrow> r \<noteq> Inr True"
| "writes_nothing (LockReturned op r) \<longleftrightarrow> r \<noteq> Inr True"
| "writes_nothing ph \<longleftrightarrow> True"

definition untouched :: "store_file \<Rightarrow> (store_file, grant_op, store_raise + bool) lock_world \<Rightarrow> bool" where
  "untouched f w \<longleftrightarrow> lw_file w = f \<and> (\<forall>p ph. lw_procs w p = Some ph \<longrightarrow> writes_nothing ph)"

lemma untouched_step:
  assumes "damaged f" and inv: "untouched f w"
  shows "untouched f (lock_step False grants_rmw ev w)"
proof (cases ev)
  case (Advance p)
  show ?thesis
  proof (cases "lw_procs w p")
    case (Some ph)
    then have quiet: "writes_nothing ph" using inv by (simp add: untouched_def)
    have late: "writes_nothing (past_deadline op d w)" for op d by (simp add: past_deadline_def)
    show ?thesis
    proof (cases ph)
      case (LockRead op i)
      obtain r new where rmw: "grants_rmw op f = (r, new)" by fastforce
      then have "new = None" "r \<noteq> Inr True"
        using damaged_unreadable[OF assms(1)] by (auto simp: grants_rmw_def)
      then show ?thesis using inv Advance Some LockRead rmw by (simp add: untouched_def)
    qed (use inv quiet late Advance Some in \<open>auto simp: untouched_def split: option.split prod.split\<close>)
  qed (use Advance inv in simp)
qed (use inv in \<open>auto simp: untouched_def split: if_splits\<close>)

text \<open>
  C21: A grants file that cannot be read or is not a JSON object is left as it is, whatever any number of processes do, with
  or without lock files taken for abandoned: no operation writes it, and none reports success.
\<close>

theorem damaged_grants_kept:
  assumes "damaged f"
  shows "lw_file (lock_run False grants_rmw evs (new_world f now)) = f
    \<and> lw_procs (lock_run False grants_rmw evs (new_world f now)) p \<noteq> Some (LockReturned op (Inr True))"
proof -
  have "untouched f (lock_run False grants_rmw evs w)" if "untouched f w" for w
    unfolding lock_run_def using that by (induction evs arbitrary: w) (simp_all add: untouched_step[OF assms])
  moreover have "untouched f (new_world f now)" by (simp add: untouched_def new_world_def)
  ultimately have inv: "untouched f (lock_run False grants_rmw evs (new_world f now))" by blast
  moreover have "\<not> writes_nothing (LockReturned op (Inr True) :: (store_file, grant_op, store_raise + bool) lock_phase)" by simp
  ultimately show ?thesis unfolding untouched_def by blast
qed

lemma damaged_grants_kept_witness:
  "lw_file (lock_run False grants_rmw (solo 0 (AddCommand ''rm'' ''t'')) (new_world (Document (JList [])) 0)) = Document (JList [])"
  using damaged_grants_kept[of "Document (JList [])" "solo 0 (AddCommand ''rm'' ''t'')" 0 0 "AddCommand ''rm'' ''t''"]
  by (simp add: damaged_def)

text \<open>The approvals of \<open>computer\<close> are lost when their file is damaged, and bytes that are not UTF-8 raise in both stores.\<close>

lemma damaged_approvals_overwritten:
  "approvals_rmw (AddApproval t r s c) BadJson
    = (Inr True, Some (Document (approvals_payload [\<lparr>ap_tool = t, ap_resource = r, ap_scope = s, ap_created_at = c\<rparr>])))"
  by (simp add: approvals_rmw_def load_approvals_def other_approvals_def)

lemma bad_bytes_raise:
  "grants_rmw op BadBytes = (Inl UnicodeDecodeError, None) \<and> load_grants BadBytes = Inl UnicodeDecodeError
   \<and> load_approvals BadBytes = Inl UnicodeDecodeError"
  by (simp add: grants_rmw_def load_grants_def parse_grants_def load_approvals_def)

section \<open>An abandoned lock\<close>

definition two_reclaim :: "grant_op lock_event list" where
  \<comment> \<open>process 0 dies with the lock; 1 and 2 both see that it is old before either removes it\<close>
  "two_reclaim = [Enter 0 (AddCommand ''x'' ''t''), Advance 0, Crash 0, Elapse 5001,
     Enter 1 (AddCommand ''a'' ''t''), Enter 2 (AddCommand ''b'' ''t''), Advance 1, Advance 2, Advance 1, Advance 2,
     Advance 1, Advance 1, Advance 1, Advance 2, Advance 2, Advance 2, Advance 1, Advance 2,
     Advance 1, Advance 1, Advance 2, Advance 2]"

lemma reclaim_loses_grant:
  "let w = lock_run False grants_rmw two_reclaim (new_world NoFile 0)
   in lw_procs w 1 = Some (LockReturned (AddCommand ''a'' ''t'') (Inr True))
    \<and> lw_procs w 2 = Some (LockReturned (AddCommand ''b'' ''t'') (Inr True))
    \<and> map cg_command (gr_commands (grants_view (lw_file w))) = [''b'']"
  by code_simp

section \<open>Remembered resources\<close>

lemma fn_translate_escape: "fn_translate (glob_escape s) = map (\<lambda>c. if c \<in> {CHR ''*'', CHR ''?'', CHR ''[''} then fn_class [c] else FLit c) s"
proof (induction s)
  case (Cons c s)
  show ?case
  proof (cases "c \<in> {CHR ''*'', CHR ''?'', CHR ''[''}")
    case True
    then have "glob_escape (c # s) = CHR ''['' # c # CHR '']'' # glob_escape s" by (simp add: glob_escape_def)
    then show ?thesis using True Cons.IH by auto
  next
    case False
    then have "glob_escape (c # s) = c # glob_escape s" by (simp add: glob_escape_def)
    then show ?thesis using False Cons.IH by simp
  qed
qed (simp add: glob_escape_def)

lemma escape_matches: "fnmatchcase s (glob_escape resource) \<longleftrightarrow> s = resource"
proof -
  have cls: "fn_class [c] = FClass False [(c, c)]" if "c \<in> {CHR ''*'', CHR ''?'', CHR ''[''}" for c
    using that by (auto simp: fn_class_def)
  have "(of_char c :: nat) \<le> of_char d \<and> (of_char d :: nat) \<le> of_char c \<longleftrightarrow> c = d" for c d :: char
    by (metis antisym of_char_eq_iff order_refl)
  then have single: "fn_atom_matches (fn_class [c]) d \<longleftrightarrow> c = d" if "c \<in> {CHR ''*'', CHR ''?'', CHR ''[''}" for c d
    using cls[OF that] by simp
  show ?thesis
    unfolding fnmatchcase_def fn_translate_escape
  proof (induction resource arbitrary: s)
    case Nil
    then show ?case by simp
  next
    case (Cons c cs)
    have "fn_class [c] \<noteq> FStar" if "c \<in> {CHR ''*'', CHR ''?'', CHR ''[''}" for c using cls[OF that] by simp
    then show ?case using Cons single by (cases s) auto
  qed
qed

section \<open>Hooks and the cached reader\<close>

definition path_grant_tools :: "string list" where
  "path_grant_tools = [''read_file'', ''load_file'', ''glob'', ''grep'']"

definition grants_persist_op :: "string \<Rightarrow> string \<Rightarrow> string \<Rightarrow> grant_op option" where
  \<comment> \<open>what \<open>build_grants_persist_hook\<close> does for an approval; \<open>None\<close> when there is nothing to store\<close>
  "grants_persist_op now tool resource =
     (if tool = ''run_command'' then Some (AddCommand resource now)
      else if tool \<in> set path_grant_tools then Some (AddPath resource ''read'' now) else None)"

definition always_scope :: "(string, string) dict" where
  "always_scope = [(''computer_open'', ''resource''), (''computer_open_url'', ''resource''), (''computer_clipboard_read'', ''tool''),
     (''computer_clipboard_write'', ''tool''), (''computer_list_dir'', ''resource''), (''computer_find'', ''resource'')]"

definition computer_tool_names :: "string list" where
  "computer_tool_names = [''computer_open'', ''computer_open_url'', ''computer_open_app'', ''computer_clipboard_read'',
     ''computer_clipboard_write'', ''computer_list_dir'', ''computer_find'', ''computer_move'', ''computer_trash'']"

definition is_computer_tool_name :: "string \<Rightarrow> bool" where
  "is_computer_tool_name n \<longleftrightarrow> n \<in> set computer_tool_names"

definition approvals_persist_op :: "string \<Rightarrow> string \<Rightarrow> string \<Rightarrow> bool \<times> approval_op option" where
  \<comment> \<open>the answer of \<open>build_persist_hook\<close>, and what it stores\<close>
  "approvals_persist_op now tool resource =
     (if \<not> is_computer_tool_name tool then (True, None)
      else case dict_get always_scope tool of
          None \<Rightarrow> (False, None)
        | Some scope \<Rightarrow> (True, Some (AddApproval tool resource scope now)))"

record grant_cache =
  gc_stamp :: "(int \<times> int \<times> int) option"
  gc_grants :: grants

definition new_grant_cache :: grant_cache where
  "new_grant_cache = \<lparr>gc_stamp = None, gc_grants = no_grants\<rparr>"

definition cached_grants :: "(int \<times> int \<times> int) option \<Rightarrow> store_file \<Rightarrow> grant_cache \<Rightarrow> (store_raise + grants) \<times> grant_cache" where
  \<comment> \<open>\<open>get\<close>, with the stamp and the file it finds\<close>
  "cached_grants stamp f c =
     (if stamp = gc_stamp c then (Inr (gc_grants c), c)
      else case load_grants f of
          Inl e \<Rightarrow> (Inl e, c)
        | Inr g \<Rightarrow> (Inr g, \<lparr>gc_stamp = stamp, gc_grants = g\<rparr>))"

definition granted_commands :: "grants \<Rightarrow> string list" where
  "granted_commands g = map cg_command (gr_commands g)"

definition path_grant_for :: "string \<Rightarrow> grants \<Rightarrow> path_grant option" where
  "path_grant_for folder g = List.find (\<lambda>p. pg_path p = folder) (gr_paths g)"

lemma cached_grants_fresh:
  "stamp \<noteq> gc_stamp c \<Longrightarrow> load_grants f = Inr g \<Longrightarrow> fst (cached_grants stamp f c) = Inr g"
  by (simp add: cached_grants_def)

definition overlay_rules :: "approval list \<Rightarrow> permission_rule list" where
  "overlay_rules rs = map (\<lambda>(t, p, e). \<lparr>pr_tool = t, pr_pattern = p, pr_effect = EAllow, pr_message = None\<rparr>) (to_permission_rules rs)"

lemma overlay_match:
  assumes "evaluate_rules tool resource (overlay_rules rs) = Some rule" and "list_all (\<lambda>r. literal_text (ap_tool r)) rs"
  shows "\<exists>r\<in>set rs. ap_tool r = tool \<and> (ap_scope r = ''tool'' \<or> ap_resource r = resource)"
  using assms
proof (induction rs rule: rev_induct)
  case (snoc r rs)
  show ?case
  proof (cases "evaluate_rules tool resource (overlay_rules rs) = Some rule")
    case True
    then show ?thesis using snoc by auto
  next
    case False
    then have "fnmatchcase tool (ap_tool r) \<and> (ap_scope r = ''tool'' \<or> fnmatchcase resource (glob_escape (ap_resource r)))"
      using snoc.prems(1)
      by (auto simp: evaluate_rules_def overlay_rules_def to_permission_rules_def rule_match_def split: if_splits)
    then show ?thesis
      using snoc.prems(2) fnmatchcase_literal escape_matches by auto
  qed
qed (simp add: evaluate_rules_def overlay_rules_def to_permission_rules_def)

text \<open>
  Remembering an approval of one resource allows that resource of that tool and nothing else, whatever wildcard
  characters the resource contains: after it is stored, read back and turned into rules, a call is allowed by these rules
  exactly when its tool and resource are the approved ones.
\<close>

theorem remembered_resource_exact:
  assumes "approvals_persist_op now tool resource = (True, Some op)" and "dict_get always_scope tool = Some ''resource''"
    and "approvals_rmw op NoFile = (Inr True, Some f)" and "load_approvals f = Inr rs"
  shows "evaluate_rules t r (overlay_rules rs) \<noteq> None \<longleftrightarrow> t = tool \<and> r = resource"
proof -
  have op: "op = AddApproval tool resource ''resource'' now" and tool: "tool \<in> set computer_tool_names"
    using assms(1,2) by (auto simp: approvals_persist_op_def is_computer_tool_name_def split: if_splits)
  have "approvals_view f = [\<lparr>ap_tool = tool, ap_resource = resource, ap_scope = ''resource'', ap_created_at = now\<rparr>]"
    using assms(3) op
    by (auto simp: approvals_rmw_def load_approvals_def other_approvals_def approvals_view_payload normal_approval_def)
  then have "rs = [\<lparr>ap_tool = tool, ap_resource = resource, ap_scope = ''resource'', ap_created_at = now\<rparr>]"
    using assms(4) by (simp add: approvals_view_def)
  moreover have "literal_text tool" using tool by (auto simp: computer_tool_names_def literal_text_def)
  ultimately show ?thesis
    by (simp add: evaluate_rules_def overlay_rules_def to_permission_rules_def rule_match_def fnmatchcase_literal escape_matches)
qed

lemma remembered_resource_exact_witness:
  "\<exists>f rs. approvals_rmw (AddApproval ''computer_open'' ''~/a[1]*.pdf'' ''resource'' ''t'') NoFile = (Inr True, Some f)
     \<and> load_approvals f = Inr rs \<and> evaluate_rules ''computer_open'' ''~/a1x.pdf'' (overlay_rules rs) = None"
proof -
  let ?op = "AddApproval ''computer_open'' ''~/a[1]*.pdf'' ''resource'' ''t''"
  have "approvals_persist_op ''t'' ''computer_open'' ''~/a[1]*.pdf'' = (True, Some ?op)"
    "dict_get always_scope ''computer_open'' = Some ''resource''"
    by (simp_all add: approvals_persist_op_def is_computer_tool_name_def computer_tool_names_def always_scope_def)
  moreover obtain f where f: "approvals_rmw ?op NoFile = (Inr True, Some f)"
    by (simp add: approvals_rmw_def load_approvals_def other_approvals_def)
  moreover obtain rs where "load_approvals f = Inr rs"
    using f by (auto simp: approvals_rmw_def load_approvals_def other_approvals_def approvals_payload_def)
  ultimately show ?thesis
    using remembered_resource_exact[of "''t''" "''computer_open''" "''~/a[1]*.pdf''" ?op f rs "''computer_open''" "''~/a1x.pdf''"] by auto
qed

end
