(* ===== verification/Computer_Safety.thy ===== *)
theory Computer_Safety
  imports Grant_Store
begin

text \<open>
  \<open>computer/safety.py\<close>, the inspector of \<open>computer/permissions.py\<close> and \<open>core/tools/path_grant_inspector.py\<close>: what the
  tools that act on the user's machine may touch, whatever has been approved. A resolved path is the list of its parts below
  the root. What the file system and the environment answer is the record \<open>machine\<close>; an error keeps its kind and message, its
  hint is left out. Shown: a call that names a path outside the home directory or inside a protected place is denied, documents of the
  agent's own workspace that are opened or moved away apart, before
  any rule or approval is looked at; without a rule or an approval every call asks; a read outside the workspace is allowed
  only inside a granted folder. Also shown is where this ends: a protected directory in other letter case, and one whose
  parent was moved.
\<close>

type_synonym path = "string list"

section \<open>Paths\<close>

datatype named_path = FromHome string | Verbatim string

record machine =
  mc_home :: path
  mc_resolve :: "named_path \<Rightarrow> path"
  mc_app_home :: "string option"
  mc_config :: "string option"
  mc_workspace :: string
  mc_is_dir :: "path \<Rightarrow> bool"
  mc_is_file :: "path \<Rightarrow> bool"
  mc_exists :: "path \<Rightarrow> bool"
  mc_executable :: "path \<Rightarrow> bool"

datatype error_kind = KValidation | KPolicy | KRuntime

type_synonym computer_error = "error_kind \<times> string"

definition denied_home_subdirs :: "string list" where
  "denied_home_subdirs = [''.ssh'', ''.aws'', ''.gnupg'', ''.kube'', ''.docker'', ''.config/gcloud'', ''.monkeybot'',
     ''Library/Keychains'', ''Library/Cookies'', ''Library/Messages'', ''Library/Mail'',
     ''Library/Application Support/MobileSync'', ''Library/Application Support/com.apple.TCC'', ''Library/Group Containers'',
     ''Library/Containers/com.apple.Safari'', ''Library/Safari'', ''Library/Application Support/Google/Chrome'',
     ''Library/Application Support/Firefox'', ''Library/Application Support/BraveSoftware'',
     ''Library/Application Support/Monkeybot'']"

definition denied_basenames :: "string list" where
  "denied_basenames = filter (\<lambda>d. CHR ''/'' \<notin> set d) denied_home_subdirs"

definition denied_filename_patterns :: "string list" where
  "denied_filename_patterns = [''.env'', ''.env.*'', ''*.pem'', ''*.key'', ''id_rsa*'', ''id_ed25519*'', ''*.p12'', ''*.keychain*'',
     ''.netrc'', ''.npmrc'', ''.pypirc'', ''credentials'', ''credentials.json'', ''*.mobileprovision'']"

definition exec_suffixes :: "string list" where
  "exec_suffixes = [''.command'', ''.sh'', ''.bash'', ''.zsh'', ''.app'', ''.scpt'', ''.scptd'', ''.applescript'', ''.workflow'', ''.term'',
     ''.terminal'', ''.fileloc'', ''.webloc'', ''.inetloc'', ''.pkg'', ''.mpkg'', ''.dmg'', ''.jar'', ''.action'', ''.prefpane'', ''.osax'',
     ''.py'', ''.rb'', ''.pl'', ''.exe'']"

definition document_suffixes :: "string list" where
  "document_suffixes = [''.pdf'', ''.png'', ''.jpg'', ''.jpeg'', ''.gif'', ''.webp'', ''.heic'', ''.tif'', ''.tiff'', ''.bmp'', ''.txt'', ''.md'',
     ''.csv'', ''.rtf'', ''.doc'', ''.docx'', ''.xls'', ''.xlsx'', ''.ppt'', ''.pptx'', ''.mp3'', ''.mp4'', ''.mov'', ''.wav'', ''.m4a'', ''.webm'']"

definition denied_app_names :: "string list" where
  "denied_app_names = [''terminal'', ''iterm'', ''iterm2'', ''warp'', ''ghostty'', ''hyper'', ''alacritty'', ''kitty'', ''wezterm'',
     ''script editor'', ''script debugger'', ''automator'', ''console'', ''xcode'', ''activity monitor'', ''visual studio code'', ''vscode'',
     ''code'', ''cursor'', ''android studio'']"

definition protected_top_level :: "string list" where
  "protected_top_level = [''desktop'', ''documents'', ''downloads'', ''library'', ''applications'', ''movies'', ''music'', ''pictures'', ''public'']"

definition allowed_url_schemes :: "string list" where
  "allowed_url_schemes = [''http'', ''https'', ''mailto'']"

definition path_str :: "path \<Rightarrow> string" where
  "path_str p = CHR ''/'' # join_on ''/'' p"

definition path_name :: "path \<Rightarrow> string" where
  "path_name p = (if p = [] then [] else last p)"

definition path_suffix :: "path \<Rightarrow> string" where
  "path_suffix p = (let n = path_name p; after = rev (takeWhile (\<lambda>c. c \<noteq> CHR ''.'') (rev n))
     in if after = [] \<or> length n \<le> Suc (length after) then [] else CHR ''.'' # after)"

definition is_within :: "path \<Rightarrow> path \<Rightarrow> bool" where
  "is_within p root \<longleftrightarrow> take (length root) p = root"

definition expand_tilde :: "string \<Rightarrow> named_path" where
  "expand_tilde raw = (if raw = ''~'' then FromHome [] else if startswith raw ''~/'' then FromHome (drop 2 raw) else Verbatim raw)"

definition app_home :: "machine \<Rightarrow> path option" where
  "app_home m = (case mc_app_home m of None \<Rightarrow> None
     | Some raw \<Rightarrow> if py_strip raw = [] then None else Some (mc_resolve m (expand_tilde (py_strip raw))))"

definition workspace_root :: "machine \<Rightarrow> path option" where
  "workspace_root m = (if mc_workspace m = [] then None else Some (mc_resolve m (expand_tilde (mc_workspace m))))"

definition denied_dirs :: "machine \<Rightarrow> path list" where
  "denied_dirs m = map (\<lambda>rel. mc_resolve m (FromHome rel)) denied_home_subdirs
     @ (case app_home m of None \<Rightarrow> [] | Some p \<Rightarrow> [p])
     @ (case mc_config m of None \<Rightarrow> [] | Some c \<Rightarrow> if c = [] then [] else [butlast (mc_resolve m (expand_tilde c))])
     @ (case workspace_root m of None \<Rightarrow> [] | Some p \<Rightarrow> [p])"

definition is_workspace_path :: "machine \<Rightarrow> path \<Rightarrow> bool" where
  "is_workspace_path m p = (case workspace_root m of None \<Rightarrow> False | Some root \<Rightarrow> p = root \<or> is_within p root)"

definition denied_filename :: "path \<Rightarrow> bool" where
  "denied_filename p = list_ex (\<lambda>pat. fnmatchcase (py_lower (path_name p)) (py_lower pat)) denied_filename_patterns"

definition check_filename_denied :: "path \<Rightarrow> computer_error + unit" where
  "check_filename_denied p =
     (if denied_filename p
      then Inl (KPolicy, ''Refusing to touch a credential-shaped file: '' @ py_repr_json (JStr (path_name p))) else Inr ())"

definition check_denied_dirs :: "machine \<Rightarrow> bool \<Rightarrow> path \<Rightarrow> computer_error + unit" where
  "check_denied_dirs m allow_workspace p =
     (let under = (case workspace_root m of None \<Rightarrow> None
            | Some w \<Rightarrow> if allow_workspace \<and> (p = w \<or> is_within p w) then Some w else None);
          roots = filter (\<lambda>d. case under of None \<Rightarrow> True | Some w \<Rightarrow> \<not> (d = w \<or> is_within w d)) (denied_dirs m);
          parts = (case under of None \<Rightarrow> p | Some w \<Rightarrow> drop (length w) p)
      in if list_ex (\<lambda>d. p = d \<or> is_within p d) roots
         then Inl (KPolicy, ''Path is inside a protected directory: '' @ path_str p)
         else (case List.find (\<lambda>part. part \<in> set denied_basenames) parts of
             Some part \<Rightarrow> Inl (KPolicy, ''Path passes through a protected directory name: '' @ py_repr_json (JStr part))
           | None \<Rightarrow> Inr ()))"

definition resolve_user_path :: "machine \<Rightarrow> bool \<Rightarrow> bool \<Rightarrow> string \<Rightarrow> computer_error + path" where
  "resolve_user_path m must_exist allow_workspace raw =
     (if py_strip raw = [] then Inl (KValidation, ''path is required'')
      else let p = mc_resolve m (expand_tilde (py_strip raw))
           in if \<not> (is_within p (mc_home m) \<or> p = mc_home m)
              then Inl (KPolicy, ''Path is outside allowed locations: '' @ path_str p)
              else bind_result (check_denied_dirs m allow_workspace p) (\<lambda>_.
                   bind_result (check_filename_denied p) (\<lambda>_.
                   if must_exist \<and> \<not> mc_exists m p then Inl (KValidation, ''Path does not exist: '' @ path_str p) else Inr p)))"

definition is_credential_path :: "machine \<Rightarrow> path \<Rightarrow> bool" where
  "is_credential_path m p \<longleftrightarrow> list_ex (\<lambda>d. p = d \<or> is_within p d) (denied_dirs m)
     \<or> list_ex (\<lambda>part. part \<in> set denied_basenames) p \<or> denied_filename p"

definition is_path_denied :: "machine \<Rightarrow> path \<Rightarrow> bool" where
  "is_path_denied m p \<longleftrightarrow> \<not> (is_within p (mc_home m) \<or> p = mc_home m) \<or> is_credential_path m p"

section \<open>What may be opened, launched and trashed\<close>

definition check_workspace_document :: "machine \<Rightarrow> bool \<Rightarrow> path \<Rightarrow> computer_error + unit" where
  "check_workspace_document m allow_dir p =
     (if allow_dir \<and> mc_is_dir m p \<or> py_lower (path_suffix p) \<in> set document_suffixes then Inr ()
      else Inl (KPolicy, ''Refusing a non-document workspace path: ''
             @ (if path_suffix p \<noteq> [] then path_suffix p else path_name p)))"

definition check_not_exec_surface :: "machine \<Rightarrow> path \<Rightarrow> computer_error + unit" where
  "check_not_exec_surface m p =
     (if py_lower (path_suffix p) \<in> set exec_suffixes
      then Inl (KPolicy, ''Refusing to open an executable file type: '' @ path_suffix p)
      else if mc_is_file m p \<and> mc_executable m p
      then Inl (KPolicy, ''Refusing to open an executable file: '' @ path_name p) else Inr ())"

definition remove_suffix :: "string \<Rightarrow> string \<Rightarrow> string" where
  "remove_suffix t s = (if t \<noteq> [] \<and> endswith s t then take (length s - length t) s else s)"

definition check_app_name_allowed :: "string \<Rightarrow> computer_error + unit" where
  "check_app_name_allowed app =
     (if remove_suffix ''.app'' (py_lower (py_strip app)) \<in> set denied_app_names
      then Inl (KPolicy, ''Refusing to launch '' @ py_repr_json (JStr app) @ '': this app is itself a code-execution surface.'')
      else Inr ())"

definition url_scheme :: "string \<Rightarrow> string" where
  "url_scheme url = (if CHR '':'' \<in> set url then py_lower (takeWhile (\<lambda>c. c \<noteq> CHR '':'') url) else [])"

definition validate_url :: "string \<Rightarrow> computer_error + string" where
  "validate_url raw =
     (if py_strip raw = [] then Inl (KValidation, ''url is required'')
      else if url_scheme (py_strip raw) \<in> set allowed_url_schemes then Inr (py_strip raw)
      else Inl (KPolicy, ''URL scheme not allowed: '' @ py_repr_json (JStr (url_scheme (py_strip raw)))))"

definition check_trashable_cheap :: "machine \<Rightarrow> path \<Rightarrow> computer_error + unit" where
  "check_trashable_cheap m p =
     (if p = mc_home m then Inl (KPolicy, ''Refusing to trash the home directory.'')
      else if butlast p = mc_home m \<and> py_lower (path_name p) \<in> set protected_top_level
      then Inl (KPolicy, ''Refusing to trash a top-level folder: '' @ path_name p)
      else if p = [] \<or> p = [''Volumes''] then Inl (KPolicy, ''Refusing to trash a volume root.'')
      else Inr ())"

definition policy_error :: "computer_error + 'a \<Rightarrow> computer_error option" where
  "policy_error r = (case r of Inl (KPolicy, m) \<Rightarrow> Some (KPolicy, m) | _ \<Rightarrow> None)"

definition str_arg :: "jdict \<Rightarrow> string \<Rightarrow> string option" where
  "str_arg args key = (case dict_get args key of Some (JStr s) \<Rightarrow> if py_strip s = [] then None else Some s | _ \<Rightarrow> None)"

definition check_path ::
    "machine \<Rightarrow> bool \<Rightarrow> bool \<Rightarrow> bool \<Rightarrow> bool \<Rightarrow> string \<Rightarrow> computer_error + unit" where
  "check_path m exec_surface trashable allow_workspace workspace_dirs raw =
     bind_result (resolve_user_path m False allow_workspace raw) (\<lambda>p.
     bind_result (if exec_surface then check_not_exec_surface m p else Inr ()) (\<lambda>_.
     bind_result (if allow_workspace \<and> is_workspace_path m p then check_workspace_document m workspace_dirs p else Inr ()) (\<lambda>_.
     if trashable then check_trashable_cheap m p else Inr ())))"

definition path_policy ::
    "machine \<Rightarrow> bool \<Rightarrow> bool \<Rightarrow> bool \<Rightarrow> bool \<Rightarrow> string option \<Rightarrow> computer_error option" where
  "path_policy m exec_surface trashable allow_workspace workspace_dirs raw = (case raw of
       None \<Rightarrow> None
     | Some r \<Rightarrow> policy_error (check_path m exec_surface trashable allow_workspace workspace_dirs r))"

definition app_policy :: "string option \<Rightarrow> computer_error option" where
  "app_policy app = (case app of None \<Rightarrow> None | Some a \<Rightarrow> policy_error (check_app_name_allowed a))"

definition or_else :: "'a option \<Rightarrow> 'a option \<Rightarrow> 'a option" where
  "or_else a b = (case a of None \<Rightarrow> b | Some _ \<Rightarrow> a)"

definition precheck_policy :: "machine \<Rightarrow> string \<Rightarrow> jdict \<Rightarrow> computer_error option" where
  "precheck_policy m tool args =
     (if tool = ''computer_open''
      then or_else (path_policy m True False True True (str_arg args ''path'')) (app_policy (str_arg args ''app''))
      else if tool = ''computer_open_url''
      then (case str_arg args ''url'' of None \<Rightarrow> None | Some u \<Rightarrow> policy_error (validate_url u))
      else if tool = ''computer_open_app'' then app_policy (str_arg args ''app'')
      else if tool = ''computer_list_dir'' \<or> tool = ''computer_find''
      then path_policy m False False False False (str_arg args ''path'')
      else if tool = ''computer_move''
      then or_else (path_policy m False False True False (str_arg args ''path''))
             (path_policy m False False False False (str_arg args ''destination''))
      else if tool = ''computer_trash'' then path_policy m False True False False (str_arg args ''path'')
      else None)"

section \<open>The inspectors\<close>

definition baseline_rules :: "permission_rule list" where
  "baseline_rules = [\<lparr>pr_tool = ''computer_*'', pr_pattern = ''*'', pr_effect = EAsk,
     pr_message = Some ''Allow this action on your computer?''\<rparr>]"

record computer_inspector =
  ci_base :: permission_ruleset
  ci_allow_ask :: bool
  ci_overlay :: "permission_rule list"
  ci_stamp :: "(int \<times> int \<times> int) option"

definition new_computer_inspector :: "permission_ruleset \<Rightarrow> bool \<Rightarrow> computer_inspector" where
  "new_computer_inspector base allow_ask = \<lparr>ci_base = base, ci_allow_ask = allow_ask, ci_overlay = [], ci_stamp = None\<rparr>"

definition reload_overlay ::
    "(int \<times> int \<times> int) option \<Rightarrow> approval list \<Rightarrow> computer_inspector \<Rightarrow> gate_ctx \<Rightarrow> computer_inspector \<times> gate_ctx" where
  \<comment> \<open>with the stamp and the approvals it finds\<close>
  "reload_overlay stamp records ci ctx =
     (if stamp = ci_stamp ci then (ci, ctx)
      else (ci\<lparr>ci_overlay := overlay_rules records, ci_stamp := stamp\<rparr>,
            if ci_stamp ci = None then ctx
            else ctx\<lparr>tc_bus := map_option (clear_matching is_computer_tool_name) (tc_bus ctx)\<rparr>))"

definition kind_text :: "error_kind \<Rightarrow> string" where
  "kind_text k = (case k of KValidation \<Rightarrow> ''validation'' | KPolicy \<Rightarrow> ''policy'' | KRuntime \<Rightarrow> ''runtime'')"

definition check_computer_call ::
    "(string \<Rightarrow> string + json) \<Rightarrow> machine \<Rightarrow> (int \<times> int \<times> int) option \<Rightarrow> approval list \<Rightarrow> computer_inspector
      \<Rightarrow> inspector_call \<Rightarrow> gate_ctx \<Rightarrow> decision \<times> computer_inspector \<times> gate_ctx" where
  "check_computer_call loads m stamp records ci call ctx = (case precheck_policy m (ic_name call) (ic_args call) of
       Some (k, message) \<Rightarrow> ((plain_decision DDeny (Some message))\<lparr>d_error_kind := Some (kind_text k)\<rparr>, ci, ctx)
     | None \<Rightarrow>
         (case reload_overlay stamp records ci ctx of (ci', ctx') \<Rightarrow>
            (check_permission loads
               \<lparr>prs_rules = baseline_rules @ ci_overlay ci' @ prs_rules (ci_base ci'), prs_default = prs_default (ci_base ci')\<rparr>
               (ci_allow_ask ci') call ctx', ci', ctx')))"

record grant_machine =
  gm_machine :: machine
  gm_workspace :: path
  gm_home :: "path option"
  gm_resolve :: "string \<Rightarrow> path option"

definition candidate_path :: "jdict \<Rightarrow> string option" where
  "candidate_path args = (case nonblank_text (dict_get args ''path'') of
       Some p \<Rightarrow> Some p | None \<Rightarrow> nonblank_text (dict_get args ''root''))"

definition looks_absolute_or_home :: "string \<Rightarrow> bool" where
  "looks_absolute_or_home raw \<longleftrightarrow> take 1 raw \<in> {''/'', [CHR 0x5C], ''~''}"

definition check_path_grant ::
    "grant_machine \<Rightarrow> path list \<Rightarrow> inspector_call \<Rightarrow> decision option" where
  \<comment> \<open>the granted folders are those of the turn and of the store, resolved; \<open>None\<close> when expanding the path raises\<close>
  "check_path_grant g granted call =
     (case candidate_path (ic_args call) of
        Some raw \<Rightarrow>
          (if ic_name call \<notin> set path_grant_tools \<or> \<not> looks_absolute_or_home raw then Some (plain_decision DAllow None)
           else (case gm_resolve g raw of None \<Rightarrow> None | Some p \<Rightarrow> Some (
             if p = gm_workspace g \<or> is_within p (gm_workspace g) then plain_decision DAllow None
             else if (case gm_home g of None \<Rightarrow> True | Some home \<Rightarrow> \<not> (p = home \<or> is_within p home))
             then plain_decision DDeny (Some (''This path is outside the user'' @ [CHR 0x27] @ ''s home directory and is always denied.''))
             else if is_credential_path (gm_machine g) p
             then (plain_decision DDeny (Some ''This path is inside a protected directory (credentials, keychains, browser profiles, or app-internal state) and is always denied, regardless of approval.''))
                    \<lparr>d_error_code := Some ''credential_denied''\<rparr>
             else (let folder = (if mc_is_dir (gm_machine g) p then p else butlast p)
                   in if list_ex (\<lambda>f. folder = f \<or> is_within folder f) granted then plain_decision DAllow None
                      else (plain_decision DConfirm (Some (''Allow reading files in '' @ path_str folder @ ''?'')))
                             \<lparr>d_grant_key := Some (path_str folder), d_grant_kind := Some GrantPath\<rparr>))))
      | None \<Rightarrow> Some (plain_decision DAllow None))"

section \<open>Hard limits\<close>

datatype place_use = Opened | Browsed | MovedFrom | MovedTo | Trashed

definition named_paths :: "string \<Rightarrow> jdict \<Rightarrow> (string \<times> place_use) list" where
  \<comment> \<open>the paths a call names and what it asks to do with them\<close>
  "named_paths tool args =
     (let named = (\<lambda>key u. case str_arg args key of None \<Rightarrow> [] | Some p \<Rightarrow> [(p, u)])
      in if tool = ''computer_open'' then named ''path'' Opened
         else if tool = ''computer_list_dir'' \<or> tool = ''computer_find'' then named ''path'' Browsed
         else if tool = ''computer_move'' then named ''path'' MovedFrom @ named ''destination'' MovedTo
         else if tool = ''computer_trash'' then named ''path'' Trashed
         else [])"

definition outside_protected :: "machine \<Rightarrow> path \<Rightarrow> bool" where
  \<comment> \<open>in the home directory, outside every protected directory, and with no secret's name\<close>
  "outside_protected m p \<longleftrightarrow> is_within p (mc_home m) \<and> \<not> denied_filename p
     \<and> list_all (\<lambda>d. \<not> is_within p d) (denied_dirs m) \<and> list_all (\<lambda>part. part \<notin> set denied_basenames) p"

definition in_own_workspace :: "machine \<Rightarrow> path \<Rightarrow> bool" where
  \<comment> \<open>in the agent's workspace, and in no protected directory that is not around it\<close>
  "in_own_workspace m p \<longleftrightarrow> is_within p (mc_home m) \<and> \<not> denied_filename p
     \<and> (\<exists>w. workspace_root m = Some w \<and> is_within p w
          \<and> list_all (\<lambda>part. part \<notin> set denied_basenames) (drop (length w) p)
          \<and> list_all (\<lambda>d. is_within p d \<longrightarrow> is_within w d) (denied_dirs m))"

definition is_document :: "path \<Rightarrow> bool" where
  "is_document p \<longleftrightarrow> py_lower (path_suffix p) \<in> set document_suffixes"

fun place_ok :: "machine \<Rightarrow> place_use \<Rightarrow> path \<Rightarrow> bool" where
  "place_ok m Opened p \<longleftrightarrow> (outside_protected m p \<or> in_own_workspace m p \<and> (is_document p \<or> mc_is_dir m p))
     \<and> py_lower (path_suffix p) \<notin> set exec_suffixes \<and> \<not> (mc_is_file m p \<and> mc_executable m p)"
| "place_ok m Browsed p \<longleftrightarrow> outside_protected m p"
| "place_ok m MovedFrom p \<longleftrightarrow> outside_protected m p \<or> in_own_workspace m p \<and> is_document p"
| "place_ok m MovedTo p \<longleftrightarrow> outside_protected m p"
| "place_ok m Trashed p \<longleftrightarrow> outside_protected m p \<and> p \<noteq> mc_home m
     \<and> \<not> (butlast p = mc_home m \<and> py_lower (path_name p) \<in> set protected_top_level)"

definition harmless_place :: "machine \<Rightarrow> bool \<Rightarrow> path \<Rightarrow> bool" where
  \<comment> \<open>what \<open>resolve_user_path\<close> lets through, with the workspace or without\<close>
  "harmless_place m allow_workspace p \<longleftrightarrow> outside_protected m p \<or> allow_workspace \<and> in_own_workspace m p"

lemma is_within_refl [simp]: "is_within p p"
  by (simp add: is_within_def)

lemma within_member: "f \<in> S \<Longrightarrow> \<exists>x\<in>S. is_within f x"
  using is_within_refl by blast

lemma find_None: "List.find P xs = None \<longleftrightarrow> list_all (\<lambda>x. \<not> P x) xs"
  by (auto simp: find_None_iff list_all_iff)

lemma check_denied_dirs_ok:
  assumes "check_denied_dirs m allow_workspace p = Inr ()"
  shows "list_all (\<lambda>d. \<not> is_within p d) (denied_dirs m) \<and> list_all (\<lambda>part. part \<notin> set denied_basenames) p
    \<or> allow_workspace \<and> (\<exists>w. workspace_root m = Some w \<and> is_within p w
         \<and> list_all (\<lambda>part. part \<notin> set denied_basenames) (drop (length w) p)
         \<and> list_all (\<lambda>d. is_within p d \<longrightarrow> is_within w d) (denied_dirs m))"
proof (cases "\<exists>w. workspace_root m = Some w \<and> allow_workspace \<and> is_within p w")
  case True
  then obtain w where w: "workspace_root m = Some w" "allow_workspace" "is_within p w" by blast
  then have "list_all (\<lambda>d. is_within p d \<longrightarrow> is_within w d) (denied_dirs m)"
    using assms by (auto simp: check_denied_dirs_def list_ex_iff list_all_iff split: if_splits)
  moreover have "list_all (\<lambda>part. part \<notin> set denied_basenames) (drop (length w) p)"
    using assms w by (auto simp: check_denied_dirs_def find_None split: if_splits option.splits)
  ultimately show ?thesis using w by blast
next
  case False
  then have under: "(case workspace_root m of None \<Rightarrow> None
      | Some w \<Rightarrow> if allow_workspace \<and> (p = w \<or> is_within p w) then Some w else None) = None"
    by (auto split: option.split)
  then show ?thesis
    using assms by (auto simp: check_denied_dirs_def find_None list_ex_iff list_all_iff split: if_splits option.splits)
qed

lemma resolve_user_path_ok:
  assumes "resolve_user_path m e w raw = Inr p"
  shows "p = mc_resolve m (expand_tilde (py_strip raw)) \<and> harmless_place m w p"
proof -
  have p: "p = mc_resolve m (expand_tilde (py_strip raw))" and home: "is_within p (mc_home m)"
    and dirs: "check_denied_dirs m w p = Inr ()" and name: "check_filename_denied p = Inr ()"
    using assms by (auto simp: resolve_user_path_def Let_def split: if_splits)
  then have "\<not> denied_filename p" by (auto simp: check_filename_denied_def split: if_splits)
  with p home check_denied_dirs_ok[OF dirs] show ?thesis
    by (auto simp: harmless_place_def outside_protected_def in_own_workspace_def)
qed

lemma own_workspace: "in_own_workspace m p \<Longrightarrow> is_workspace_path m p"
  by (auto simp: in_own_workspace_def is_workspace_path_def)

lemma document_checked: "check_workspace_document m d p = Inr () \<longleftrightarrow> is_document p \<or> d \<and> mc_is_dir m p"
  by (auto simp: check_workspace_document_def is_document_def)

lemma check_kinds:
  "check_not_exec_surface m p = Inl e \<Longrightarrow> fst e = KPolicy"
  "check_workspace_document m d p = Inl e \<Longrightarrow> fst e = KPolicy"
  "check_trashable_cheap m p = Inl e \<Longrightarrow> fst e = KPolicy"
  "resolve_user_path m False w raw = Inl e \<Longrightarrow> py_strip raw \<noteq> [] \<Longrightarrow> fst e = KPolicy"
  by (auto simp: check_not_exec_surface_def check_workspace_document_def check_trashable_cheap_def resolve_user_path_def
      check_denied_dirs_def check_filename_denied_def Let_def split: if_splits option.splits)

lemma bind_result_Inl: "bind_result r f = Inl e \<longleftrightarrow> r = Inl e \<or> (\<exists>x. r = Inr x \<and> f x = Inl e)"
  by (cases r) auto

lemma check_path_kind:
  assumes "check_path m x t w d raw = Inl e" and "py_strip raw \<noteq> []"
  shows "fst e = KPolicy"
  using assms by (auto simp: check_path_def bind_result_Inl split: if_splits elim: check_kinds)

lemma path_policy_ok:
  assumes "path_policy m x t w d (Some raw) = None" and "py_strip raw \<noteq> []" and "p = mc_resolve m (expand_tilde (py_strip raw))"
  shows "(outside_protected m p \<or> w \<and> in_own_workspace m p \<and> (is_document p \<or> d \<and> mc_is_dir m p))
    \<and> (x \<longrightarrow> check_not_exec_surface m p = Inr ()) \<and> (t \<longrightarrow> check_trashable_cheap m p = Inr ())"
proof -
  have "check_path m x t w d raw \<noteq> Inl e" for e
  proof
    assume e: "check_path m x t w d raw = Inl e"
    have "e = (KPolicy, snd e)" using check_path_kind[OF e assms(2)] by (metis prod.collapse)
    then have "policy_error (check_path m x t w d raw) = Some e" unfolding e by (metis (mono_tags, lifting) error_kind.simps(8) old.prod.case policy_error_def sum.case(1))
    then show False using assms(1) by (simp add: path_policy_def)
  qed
  then have "check_path m x t w d raw = Inr ()" by (cases "check_path m x t w d raw") auto
  then obtain q where q: "resolve_user_path m False w raw = Inr q" "x \<longrightarrow> check_not_exec_surface m q = Inr ()"
      "w \<and> is_workspace_path m q \<longrightarrow> check_workspace_document m d q = Inr ()" "t \<longrightarrow> check_trashable_cheap m q = Inr ()"
    by (auto simp: check_path_def split: if_splits)
  have q_p: "q = p" using conjunct1[OF resolve_user_path_ok[OF q(1)]] assms(3) by simp
  have place: "harmless_place m w p" using conjunct2[OF resolve_user_path_ok[OF q(1)]] unfolding q_p .
  note exec = q(2)[unfolded q_p] and doc = q(3)[unfolded q_p] and trash = q(4)[unfolded q_p]
  show ?thesis using place exec doc trash own_workspace by (auto simp: harmless_place_def document_checked)
qed

lemma precheck_paths:
  assumes "precheck_policy m tool args = None" and "(raw, u) \<in> set (named_paths tool args)"
  shows "place_ok m u (mc_resolve m (expand_tilde (py_strip raw)))"
proof -
  have nonblank: "py_strip r \<noteq> []" if "str_arg args key = Some r" for key r
    using that by (auto simp: str_arg_def split: option.splits json.splits if_splits)
  have both: "or_else a b = None \<longleftrightarrow> a = None \<and> b = None" for a b :: "computer_error option" by (cases a) (simp_all add: or_else_def)
  have exec: "check_not_exec_surface m p = Inr () \<longleftrightarrow> py_lower (path_suffix p) \<notin> set exec_suffixes \<and> \<not> (mc_is_file m p \<and> mc_executable m p)" for p
    by (auto simp: check_not_exec_surface_def)
  have trash: "check_trashable_cheap m p = Inr () \<Longrightarrow> p \<noteq> mc_home m \<and> \<not> (butlast p = mc_home m \<and> py_lower (path_name p) \<in> set protected_top_level)" for p
    by (auto simp: check_trashable_cheap_def split: if_splits)
  note policy = path_policy_ok[OF _ nonblank refl]
  have "tool = ''computer_open'' \<and> u = Opened \<and> str_arg args ''path'' = Some raw
    \<or> tool \<in> {''computer_list_dir'', ''computer_find''} \<and> u = Browsed \<and> str_arg args ''path'' = Some raw
    \<or> tool = ''computer_move'' \<and> u = MovedFrom \<and> str_arg args ''path'' = Some raw
    \<or> tool = ''computer_move'' \<and> u = MovedTo \<and> str_arg args ''destination'' = Some raw
    \<or> tool = ''computer_trash'' \<and> u = Trashed \<and> str_arg args ''path'' = Some raw"
  proof -
    have named: "(raw, u) \<in> set (case x of None \<Rightarrow> [] | Some p \<Rightarrow> [(p, v)]) \<longleftrightarrow> x = Some raw \<and> u = v" for x :: "string option" and v
      by (cases x) auto
    show ?thesis
    proof (cases "tool = ''computer_open'' \<or> tool \<in> {''computer_list_dir'', ''computer_find''} \<or> tool = ''computer_trash''")
      case True
      then show ?thesis using assms(2) by (elim disjE insertE) (simp_all add: named_paths_def named)
    next
      case False
      then show ?thesis using assms(2) by (cases "tool = ''computer_move''") (simp_all add: named_paths_def named, auto)
    qed
  qed
  then consider "tool = ''computer_open''" "u = Opened" "str_arg args ''path'' = Some raw"
    | "tool \<in> {''computer_list_dir'', ''computer_find''}" "u = Browsed" "str_arg args ''path'' = Some raw"
    | "tool = ''computer_move''" "u = MovedFrom" "str_arg args ''path'' = Some raw"
    | "tool = ''computer_move''" "u = MovedTo" "str_arg args ''destination'' = Some raw"
    | "tool = ''computer_trash''" "u = Trashed" "str_arg args ''path'' = Some raw"
    by metis
  then show ?thesis
  proof cases
    case 1
    then have "path_policy m True False True True (Some raw) = None" using assms(1) by (simp add: precheck_policy_def both)
    from policy[OF this 1(3)] 1(2) show ?thesis by (auto simp: exec)
  next
    case 2
    then have "path_policy m False False False False (Some raw) = None" using assms(1) by (auto simp: precheck_policy_def)
    from policy[OF this 2(3)] 2(2) show ?thesis by simp
  next
    case 3
    then have "path_policy m False False True False (Some raw) = None" using assms(1) by (simp add: precheck_policy_def both)
    from policy[OF this 3(3)] 3(2) show ?thesis by auto
  next
    case 4
    then have "path_policy m False False False False (Some raw) = None" using assms(1) by (simp add: precheck_policy_def both)
    from policy[OF this 4(3)] 4(2) show ?thesis by simp
  next
    case 5
    then have "path_policy m False True False False (Some raw) = None" using assms(1) by (simp add: precheck_policy_def)
    from policy[OF this 5(3)] 5(2) trash show ?thesis by simp
  qed
qed

text \<open>
  C17: The hard limits hold whatever has been approved. A call of a computer tool that is not denied, be it because a rule, a
  remembered approval or an answer of this session allows it or because the user is asked, names only paths that lie in the
  home directory, are not named like a secret and are outside every protected directory. Only what is opened, or moved away,
  may instead be a document of the agent's own workspace, or, for opening, a directory of it. What is opened is no
  executable, and what is trashed is neither the home directory nor one of its standard folders.
\<close>

theorem hard_limits_before_approvals:
  assumes "d_kind (fst (check_computer_call loads m stamp records ci call ctx)) \<noteq> DDeny"
    and "(raw, u) \<in> set (named_paths (ic_name call) (ic_args call))"
  shows "place_ok m u (mc_resolve m (expand_tilde (py_strip raw)))"
proof -
  have "precheck_policy m (ic_name call) (ic_args call) = None"
    using assms(1) by (auto simp: check_computer_call_def plain_decision_def split: option.splits)
  then show ?thesis using precheck_paths assms(2) by blast
qed

definition sample_resolve :: "named_path \<Rightarrow> path" where
  \<comment> \<open>a machine without links, with the home directory \<open>/u/me\<close>\<close>
  "sample_resolve n = (case n of
       FromHome r \<Rightarrow> [''u'', ''me''] @ filter (\<lambda>w. w \<noteq> []) (split_on CHR ''/'' r)
     | Verbatim r \<Rightarrow> filter (\<lambda>w. w \<noteq> []) (split_on CHR ''/'' r))"

definition sample_machine :: machine where
  "sample_machine = \<lparr>mc_home = [''u'', ''me''], mc_resolve = sample_resolve, mc_app_home = None, mc_config = None,
     mc_workspace = [], mc_is_dir = (\<lambda>p. p = [''u'', ''me'', ''docs'']), mc_is_file = (\<lambda>_. False), mc_exists = (\<lambda>_. True),
     mc_executable = (\<lambda>_. False)\<rparr>"

definition sample_call :: "string \<Rightarrow> (string \<times> string) list \<Rightarrow> inspector_call" where
  "sample_call tool args = \<lparr>ic_call_id = ''c'', ic_name = tool, ic_args = map (\<lambda>(k, v). (k, JStr v)) args\<rparr>"

definition open_gate :: gate_ctx where
  "open_gate = \<lparr>tc_path_grants = {}, tc_command_grants = {}, tc_bus = None, tc_grants_persist = None, tc_approvals_persist = None\<rparr>"

definition allow_all :: computer_inspector where
  "allow_all = new_computer_inspector \<lparr>prs_rules = [\<lparr>pr_tool = ''*'', pr_pattern = ''*'', pr_effect = EAllow, pr_message = None\<rparr>],
     prs_default = EAllow\<rparr> True"

lemma hard_limits_before_approvals_witness:
  "place_ok sample_machine Opened [''u'', ''me'', ''a.pdf''] \<and>
   d_kind (fst (check_computer_call (\<lambda>_. Inl []) sample_machine None [] allow_all
     (sample_call ''computer_open'' [(''path'', ''~/a.pdf'')]) open_gate)) = DAllow \<and>
   d_kind (fst (check_computer_call (\<lambda>_. Inl []) sample_machine None [] allow_all
     (sample_call ''computer_open'' [(''path'', ''~/.ssh/id'')]) open_gate)) = DDeny"
proof -
  let ?call = "sample_call ''computer_open'' [(''path'', ''~/a.pdf'')]"
  have k: "d_kind (fst (check_computer_call (\<lambda>_. Inl []) sample_machine None [] allow_all ?call open_gate)) = DAllow"
    "d_kind (fst (check_computer_call (\<lambda>_. Inl []) sample_machine None [] allow_all
       (sample_call ''computer_open'' [(''path'', ''~/.ssh/id'')]) open_gate)) = DDeny"
    "list_ex (\<lambda>r. r = (''~/a.pdf'', Opened)) (named_paths (ic_name ?call) (ic_args ?call))"
    "mc_resolve sample_machine (expand_tilde (py_strip ''~/a.pdf'')) = [''u'', ''me'', ''a.pdf'']" by code_simp+
  then show ?thesis
    using hard_limits_before_approvals[of "\<lambda>_. Inl []" sample_machine None "[]" allow_all ?call open_gate "''~/a.pdf''" Opened]
    by (auto simp: list_ex_iff simp del: place_ok.simps)
qed

section \<open>Asking\<close>

lemma baseline_matches: "startswith tool ''computer_'' \<Longrightarrow> rule_match (hd baseline_rules) tool resource"
proof -
  assume s: "startswith tool ''computer_''"
  have "literal_text ''computer_''" by (simp add: literal_text_def)
  then have "fnmatchcase tool ''computer_*''" using fnmatchcase_prefix[of "''computer_''" tool] s by simp
  moreover have "fnmatchcase resource ''*''" using fnmatchcase_prefix[of "[]" resource] by (simp add: literal_text_def startswith_def)
  ultimately show ?thesis by (simp add: rule_match_def baseline_rules_def)
qed

lemma evaluate_rules_append:
  "evaluate_rules tool resource (xs @ ys) = (case evaluate_rules tool resource ys of None \<Rightarrow> evaluate_rules tool resource xs | Some r \<Rightarrow> Some r)"
  by (induction ys rule: rev_induct) (auto simp: evaluate_rules_def)

text \<open>
  Every action on the computer asks by default. A call of a computer tool is allowed without a question only when this
  session has remembered an approval of exactly this tool and resource, when the stored approvals hold one for this tool and
  this resource or for the whole tool, or when a rule of the user's own file that applies to it says so; the default
  of the user's file, a missing file and a broken file never allow it.
\<close>

theorem computer_asks_by_default:
  assumes "d_kind (fst (check_computer_call loads m stamp records ci call ctx)) = DAllow"
    and "ic_name call \<in> set computer_tool_names"
    and "ci_overlay (fst (reload_overlay stamp records ci ctx)) = overlay_rules rs" and "list_all (\<lambda>r. literal_text (ap_tool r)) rs"
  shows "(\<exists>b. tc_bus ctx = Some b \<and> is_allowed (ic_name call) (resource_for_call loads call) b)
    \<or> (\<exists>r\<in>set rs. ap_tool r = ic_name call \<and> (ap_scope r = ''tool'' \<or> ap_resource r = resource_for_call loads call))
    \<or> (\<exists>rule. evaluate_rules (ic_name call) (resource_for_call loads call) (prs_rules (ci_base ci)) = Some rule \<and> pr_effect rule = EAllow)"
proof -
  obtain ci' ctx' where reload: "reload_overlay stamp records ci ctx = (ci', ctx')" by fastforce
  let ?tool = "ic_name call" and ?resource = "resource_for_call loads call"
  let ?rules = "baseline_rules @ ci_overlay ci' @ prs_rules (ci_base ci')"
  have base: "ci_base ci' = ci_base ci" using reload by (auto simp: reload_overlay_def split: if_splits)
  have session: "is_allowed t r b'" if "tc_bus ctx' = Some b" "is_allowed t r b" "tc_bus ctx = Some b'" for t r b b'
    using reload that by (auto simp: reload_overlay_def is_allowed_def clear_matching_def split: if_splits)
  have check: "d_kind (check_permission loads \<lparr>prs_rules = ?rules, prs_default = prs_default (ci_base ci')\<rparr> (ci_allow_ask ci') call ctx') = DAllow"
    using assms(1) reload by (auto simp: check_computer_call_def plain_decision_def split: option.splits)
  show ?thesis
  proof (cases "\<exists>b. tc_bus ctx' = Some b \<and> is_allowed ?tool ?resource b")
    case True
    moreover have "tc_bus ctx \<noteq> None" if "tc_bus ctx' \<noteq> None"
      using reload that by (auto simp: reload_overlay_def split: if_splits)
    ultimately show ?thesis using session by fastforce
  next
    case False
    have "startswith ?tool ''computer_''" using assms(2) by (auto simp: computer_tool_names_def startswith_def)
    then have some: "evaluate_rules ?tool ?resource baseline_rules = Some (hd baseline_rules)"
      using baseline_matches[of ?tool ?resource] by (simp add: evaluate_rules_def baseline_rules_def)
    obtain rule where rule: "evaluate_rules ?tool ?resource ?rules = Some rule"
      using some
      by (cases "evaluate_rules ?tool ?resource (prs_rules (ci_base ci'))"; cases "evaluate_rules ?tool ?resource (ci_overlay ci')")
        (auto simp: evaluate_rules_append)
    have no_bus: "\<not> (case tc_bus ctx' of None \<Rightarrow> False | Some b \<Rightarrow> is_allowed ?tool ?resource b)"
      using False by (auto split: option.splits)
    have allow: "pr_effect rule = EAllow"
      using check rule no_bus
      by (auto simp: check_permission_def Let_def plain_decision_def decision_from_effect_def split: if_splits effect.splits)
    have ask: "pr_effect (hd baseline_rules) = EAsk" by (simp add: baseline_rules_def)
    have "ci_overlay ci' = overlay_rules rs" using assms(3) reload by simp
    then consider "evaluate_rules ?tool ?resource (prs_rules (ci_base ci)) = Some rule"
      | "evaluate_rules ?tool ?resource (overlay_rules rs) = Some rule" | "rule = hd baseline_rules"
      using rule some base
      by (cases "evaluate_rules ?tool ?resource (prs_rules (ci_base ci))"; cases "evaluate_rules ?tool ?resource (overlay_rules rs)")
        (auto simp: evaluate_rules_append)
    then show ?thesis
      using allow ask overlay_match[of ?tool ?resource rs rule] assms(4) by cases auto
  qed
qed

lemma computer_asks_by_default_witness:
  "d_kind (fst (check_computer_call (\<lambda>_. Inl []) sample_machine (Some (1, 1, 1))
     [\<lparr>ap_tool = ''computer_open'', ap_resource = ''~/a.pdf'', ap_scope = ''resource'', ap_created_at = []\<rparr>]
     (new_computer_inspector \<lparr>prs_rules = [], prs_default = EAllow\<rparr> True)
     (sample_call ''computer_open'' [(''path'', ''~/a.pdf'')]) open_gate)) = DAllow \<and>
   d_kind (fst (check_computer_call (\<lambda>_. Inl []) sample_machine None []
     (new_computer_inspector \<lparr>prs_rules = [], prs_default = EAllow\<rparr> True)
     (sample_call ''computer_open'' [(''path'', ''~/a.pdf'')]) open_gate)) = DConfirm \<and>
   resource_for_call (\<lambda>_. Inl []) (sample_call ''computer_open'' [(''path'', ''~/a.pdf'')]) = ''~/a.pdf''"
proof -
  let ?call = "sample_call ''computer_open'' [(''path'', ''~/a.pdf'')]"
  let ?ci = "new_computer_inspector \<lparr>prs_rules = [], prs_default = EAllow\<rparr> True"
  let ?rs = "[\<lparr>ap_tool = ''computer_open'', ap_resource = ''~/a.pdf'', ap_scope = ''resource'', ap_created_at = []\<rparr>]"
  have allowed: "d_kind (fst (check_computer_call (\<lambda>_. Inl []) sample_machine (Some (1, 1, 1)) ?rs ?ci ?call open_gate)) = DAllow"
    by code_simp
  have asked: "d_kind (fst (check_computer_call (\<lambda>_. Inl []) sample_machine None [] ?ci ?call open_gate)) = DConfirm" by code_simp
  have "ci_overlay (fst (reload_overlay (Some (1, 1, 1)) ?rs ?ci open_gate)) = overlay_rules ?rs"
    by (simp add: reload_overlay_def new_computer_inspector_def)
  moreover have "list_all (\<lambda>r. literal_text (ap_tool r)) ?rs" by code_simp
  moreover have "ic_name ?call \<in> set computer_tool_names" by code_simp
  moreover have "tc_bus open_gate = None" "prs_rules (ci_base ?ci) = []" by code_simp+
  moreover have no_rule: "evaluate_rules t r [] = None" for t r by (simp add: evaluate_rules_def)
  ultimately have "ap_resource (hd ?rs) = resource_for_call (\<lambda>_. Inl []) ?call"
    using computer_asks_by_default[OF allowed _ _ _ , of ?rs] by (auto simp: no_rule)
  then show ?thesis using allowed asked by simp
qed

section \<open>Folders outside the workspace\<close>

text \<open>
  Reading outside the workspace needs a granted folder. When a call of a reading tool with an absolute path or one that
  starts at the home directory is allowed, the resolved path is in the workspace, or it is in the home directory, is no
  credential path, and the folder it is in lies inside a folder that was granted.
\<close>

theorem granted_read_confined:
  assumes "check_path_grant g granted call = Some d" and "d_kind d = DAllow"
    and "ic_name call \<in> set path_grant_tools" and "candidate_path (ic_args call) = Some raw" and "looks_absolute_or_home raw"
  obtains p where "gm_resolve g raw = Some p"
    and "is_within p (gm_workspace g)
      \<or> (\<exists>home. gm_home g = Some home \<and> is_within p home) \<and> \<not> is_credential_path (gm_machine g) p
        \<and> (\<exists>f\<in>set granted. is_within (if mc_is_dir (gm_machine g) p then p else butlast p) f)"
proof -
  obtain p where p: "gm_resolve g raw = Some p"
    using assms by (cases "gm_resolve g raw") (simp_all add: check_path_grant_def)
  consider "is_within p (gm_workspace g)" | "\<not> is_within p (gm_workspace g)" by blast
  then show ?thesis
  proof cases
    case 2
    then have ne: "p \<noteq> gm_workspace g" by auto
    obtain home where home: "gm_home g = Some home" "is_within p home"
      using assms p 2 ne by (auto simp: check_path_grant_def plain_decision_def split: if_splits option.splits)
    moreover have cred: "\<not> is_credential_path (gm_machine g) p"
      using assms p 2 ne home by (auto simp: check_path_grant_def plain_decision_def)
    ultimately have "list_ex (\<lambda>f. is_within (if mc_is_dir (gm_machine g) p then p else butlast p) f) granted"
      using assms p 2 ne
      by (auto simp: check_path_grant_def plain_decision_def Let_def list_ex_iff split: if_splits intro: within_member)
    with p home cred that show ?thesis by (auto simp: list_ex_iff)
  qed (use p that in blast)
qed

definition sample_grants :: grant_machine where
  "sample_grants = \<lparr>gm_machine = sample_machine, gm_workspace = [''u'', ''me'', ''ws''], gm_home = Some [''u'', ''me''],
     gm_resolve = (\<lambda>raw. Some (sample_resolve (expand_tilde raw)))\<rparr>"

lemma granted_read_confined_witness:
  "is_within (butlast [''u'', ''me'', ''docs'', ''a.txt'']) [''u'', ''me'', ''docs''] \<and>
   map_option d_kind (check_path_grant sample_grants [] (sample_call ''read_file'' [(''path'', ''~/docs/a.txt'')])) = Some DConfirm \<and>
   map_option d_kind (check_path_grant sample_grants [[''u'', ''me'']] (sample_call ''read_file'' [(''path'', ''~/.aws/x'')])) = Some DDeny"
proof -
  let ?call = "sample_call ''read_file'' [(''path'', ''~/docs/a.txt'')]"
  have d: "check_path_grant sample_grants [[''u'', ''me'', ''docs'']] ?call = Some (plain_decision DAllow None)"
    "list_ex ((=) (ic_name ?call)) path_grant_tools" "candidate_path (ic_args ?call) = Some ''~/docs/a.txt''"
    "looks_absolute_or_home ''~/docs/a.txt''" "gm_resolve sample_grants ''~/docs/a.txt'' = Some [''u'', ''me'', ''docs'', ''a.txt'']"
    "\<not> is_within [''u'', ''me'', ''docs'', ''a.txt''] (gm_workspace sample_grants)"
    "\<not> mc_is_dir (gm_machine sample_grants) [''u'', ''me'', ''docs'', ''a.txt'']" by code_simp+
  have "d_kind (plain_decision DAllow None) = DAllow" by (simp add: plain_decision_def)
  then obtain p where "gm_resolve sample_grants ''~/docs/a.txt'' = Some p"
    "is_within p (gm_workspace sample_grants) \<or> (\<exists>f\<in>set [[''u'', ''me'', ''docs'']]. is_within (if mc_is_dir (gm_machine sample_grants) p then p else butlast p) f)"
    using granted_read_confined[OF d(1) _ _ d(3,4)] d(2) unfolding list_ex_iff by metis
  then have "is_within (butlast [''u'', ''me'', ''docs'', ''a.txt'']) [''u'', ''me'', ''docs'']" using d by auto
  moreover have "map_option d_kind (check_path_grant sample_grants [] ?call) = Some DConfirm"
    "map_option d_kind (check_path_grant sample_grants [[''u'', ''me'']] (sample_call ''read_file'' [(''path'', ''~/.aws/x'')])) = Some DDeny"
    by code_simp+
  ultimately show ?thesis by blast
qed

section \<open>Where the limits end\<close>

text \<open>
  The names of the secret files are compared without regard to letter case, those of the protected directories are not: on
  a file system that ignores case the second path is the first.
\<close>

lemma protected_directory_case:
  "precheck_policy sample_machine ''computer_open'' [(''path'', JStr ''~/.ssh/config'')] \<noteq> None \<and>
   precheck_policy sample_machine ''computer_open'' [(''path'', JStr ''~/.SSH/config'')] = None \<and>
   precheck_policy sample_machine ''computer_open'' [(''path'', JStr ''~/x/SERVER.KEY'')] \<noteq> None"
  by code_simp

text \<open>
  A directory that has a protected one below it may be moved; what was protected is found afterwards under a path that is not.
\<close>

lemma protected_parent_moves:
  "precheck_policy sample_machine ''computer_open'' [(''path'', JStr ''~/.config/gcloud/access_tokens.db'')] \<noteq> None \<and>
   precheck_policy sample_machine ''computer_move''
     [(''path'', JStr ''~/.config''), (''destination'', JStr ''~/cfg'')] = None \<and>
   precheck_policy sample_machine ''computer_open'' [(''path'', JStr ''~/cfg/gcloud/access_tokens.db'')] = None"
  by code_simp

text \<open>
  An approval of opening a path is kept under the path alone, so it covers opening it with any application.
\<close>

lemma open_approval_covers_any_app:
  "resource_for_call loads (sample_call ''computer_open'' [(''path'', ''~/a.pdf''), (''app'', a)]) = ''~/a.pdf''"
proof -
  have "nonblank_text (Some (JStr ''~/a.pdf'')) = Some ''~/a.pdf''" by code_simp
  then show ?thesis by (simp add: resource_for_call_def sample_call_def)
qed

end
