(* ===== verification/Computer_Tools.thy ===== *)
theory Computer_Tools
  imports Computer_Safety
begin

text \<open>
  \<open>computer/tools.py\<close> and the moving parts of \<open>computer/safety.py\<close>: opening, listing, searching, moving and trashing on the
  user's machine. The disk is the list of its entries, a path with a folder or the bytes of a document, in the order in
  which a directory is read; links are not among them. \<open>os.rename\<close> and \<open>shutil.move\<close> are written out as POSIX and the Python
  library document them. An error of the operating system is a runtime error without its text. Shown: whatever the tools are
  asked, no document disappears, provided the name chosen in the trash is free; a listing and a search never name a
  protected place and a search that is not cut short finds everything; what is handed to \<open>open\<close> is no program.
\<close>

section \<open>The disk\<close>

datatype node = Folder | Doc string

type_synonym home_disk = "(path \<times> node) list"

type_synonym 'a outcome = "home_disk \<times> (computer_error + 'a)"

definition at_disk :: "machine \<Rightarrow> home_disk \<Rightarrow> machine" where
  \<comment> \<open>the machine as its checks see it now\<close>
  "at_disk m d = m\<lparr>mc_is_dir := (\<lambda>p. map_of d p = Some Folder),
     mc_is_file := (\<lambda>p. map_of d p \<noteq> None \<and> map_of d p \<noteq> Some Folder), mc_exists := (\<lambda>p. map_of d p \<noteq> None)\<rparr>"

definition os_error :: computer_error where
  "os_error = (KRuntime, [])"

definition strictly_below :: "path \<Rightarrow> path \<Rightarrow> bool" where
  "strictly_below q p \<longleftrightarrow> is_within q p \<and> q \<noteq> p"

definition carried_to :: "path \<Rightarrow> path \<Rightarrow> path \<Rightarrow> path" where
  "carried_to s t q = (if is_within q s then t @ drop (length s) q else q)"

definition put_tree :: "path \<Rightarrow> path \<Rightarrow> home_disk \<Rightarrow> home_disk" where
  \<comment> \<open>the entries at and below the first path are found under the second, which they replace\<close>
  "put_tree s t d = map (\<lambda>(q, n). (carried_to s t q, n)) (filter (\<lambda>(q, _). q \<noteq> t) d)"

definition os_rename :: "path \<Rightarrow> path \<Rightarrow> home_disk \<Rightarrow> home_disk option" where
  "os_rename s t d =
     (if map_of d s = None \<or> map_of d (butlast t) \<noteq> Some Folder \<or> strictly_below t s then None
      else if t = s then Some d
      else (case map_of d t of
          None \<Rightarrow> Some (put_tree s t d)
        | Some Folder \<Rightarrow>
            if map_of d s = Some Folder \<and> list_all (\<lambda>(q, _). \<not> strictly_below q t) d then Some (put_tree s t d) else None
        | Some (Doc _) \<Rightarrow> if map_of d s = Some Folder then None else Some (put_tree s t d)))"

fun make_dirs :: "path list \<Rightarrow> home_disk \<Rightarrow> home_disk option" where
  \<comment> \<open>\<open>os.makedirs\<close> over the ancestors, the outermost first\<close>
  "make_dirs [] d = Some d"
| "make_dirs (p # ps) d = (case map_of d p of
       Some Folder \<Rightarrow> make_dirs ps d
     | Some (Doc _) \<Rightarrow> None
     | None \<Rightarrow> make_dirs ps (d @ [(p, Folder)]))"

definition ancestors :: "path \<Rightarrow> path list" where
  "ancestors p = map (\<lambda>n. take n p) [0..<length p]"

definition copy_tree :: "path \<Rightarrow> path \<Rightarrow> home_disk \<Rightarrow> home_disk option" where
  \<comment> \<open>what \<open>shutil.move\<close> does where a rename fails: copy, then remove the source\<close>
  "copy_tree s t d = (case map_of d s of
       None \<Rightarrow> None
     | Some Folder \<Rightarrow>
         if is_within t s \<or> map_of d t \<noteq> None then None
         else map_option (put_tree s t) (make_dirs (ancestors t) d)
     | Some (Doc _) \<Rightarrow>
         if t = s \<or> map_of d (butlast t) \<noteq> Some Folder \<or> map_of d t = Some Folder then None else Some (put_tree s t d))"

definition shutil_move :: "bool \<Rightarrow> path \<Rightarrow> path \<Rightarrow> home_disk \<Rightarrow> home_disk option" where
  \<comment> \<open>the flag tells whether both ends are on one device\<close>
  "shutil_move one_device s t d =
     (if map_of d t = Some Folder \<and> s = t then Some d
      else if map_of d t = Some Folder \<and> map_of d (t @ [path_name s]) \<noteq> None then None
      else (let real = (if map_of d t = Some Folder then t @ [path_name s] else t)
            in case (if one_device then os_rename s real d else None) of
                 Some d' \<Rightarrow> Some d'
               | None \<Rightarrow> copy_tree s real d))"

definition copy_file :: "path \<Rightarrow> path \<Rightarrow> home_disk \<Rightarrow> home_disk option" where
  \<comment> \<open>\<open>shutil.copy2\<close> to a path that holds nothing\<close>
  "copy_file s t d = (case map_of d s of
       Some (Doc c) \<Rightarrow> if map_of d (butlast t) = Some Folder \<and> map_of d t = None then Some (d @ [(t, Doc c)]) else None
     | _ \<Rightarrow> None)"

section \<open>The trash\<close>

definition trash_max_items :: nat where
  "trash_max_items = 10000"

definition count_items :: "home_disk \<Rightarrow> path \<Rightarrow> nat" where
  "count_items d p = (case map_of d p of Some (Doc _) \<Rightarrow> 1 | _ \<Rightarrow> length (filter (\<lambda>(q, _). strictly_below q p) d))"

definition check_trashable :: "machine \<Rightarrow> home_disk \<Rightarrow> path \<Rightarrow> computer_error + unit" where
  "check_trashable m d p = bind_result (check_trashable_cheap m p) (\<lambda>_.
     if trash_max_items < count_items d p
     then Inl (KPolicy, ''Refusing to trash more than '' @ str_of_nat trash_max_items @ '' items at once.'') else Inr ())"

definition path_stem :: "path \<Rightarrow> string" where
  "path_stem p = take (length (path_name p) - length (path_suffix p)) (path_name p)"

definition home_trash :: "machine \<Rightarrow> path" where
  "home_trash m = mc_resolve m (FromHome ''.Trash'')"

definition trash_name :: "machine \<Rightarrow> nat \<Rightarrow> home_disk \<Rightarrow> path \<Rightarrow> path" where
  \<comment> \<open>with the time in seconds\<close>
  "trash_name m now d p =
     (if map_of d (home_trash m @ [path_name p]) = None then home_trash m @ [path_name p]
      else home_trash m @ [path_stem p @ ''-'' @ str_of_nat now @ path_suffix p])"

definition make_trash :: "machine \<Rightarrow> home_disk \<Rightarrow> home_disk option" where
  "make_trash m d = (case map_of d (home_trash m) of
       Some Folder \<Rightarrow> Some d
     | Some (Doc _) \<Rightarrow> None
     | None \<Rightarrow> if map_of d (butlast (home_trash m)) = Some Folder then Some (d @ [(home_trash m, Folder)]) else None)"

definition trash_path :: "machine \<Rightarrow> (path \<Rightarrow> bool) \<Rightarrow> nat \<Rightarrow> path \<Rightarrow> home_disk \<Rightarrow> path outcome" where
  \<comment> \<open>the second argument tells which paths are on the device of the trash\<close>
  "trash_path m local now p d = (case check_trashable m d p of
       Inl e \<Rightarrow> (d, Inl e)
     | Inr _ \<Rightarrow> (case make_trash m d of
         None \<Rightarrow> (d, Inl os_error)
       | Some d1 \<Rightarrow>
           (let t = trash_name m now d1 p
            in case (if local p then os_rename p t d1 else shutil_move False p t d1) of
                 None \<Rightarrow> (d1, Inl os_error)
               | Some d2 \<Rightarrow> (d2, Inr t))))"

section \<open>Moving and trashing\<close>

definition missing :: "string \<Rightarrow> computer_error" where
  "missing what = (KValidation, what)"

definition bool_arg :: "jdict \<Rightarrow> string \<Rightarrow> bool" where
  "bool_arg args key = (case dict_get args key of None \<Rightarrow> False | Some v \<Rightarrow> json_truthy v)"

definition move_target :: "machine \<Rightarrow> path \<Rightarrow> path \<Rightarrow> computer_error + path" where
  \<comment> \<open>a folder as destination means an item of the source's name in it\<close>
  "move_target m src dest = (if mc_is_dir m dest
     then resolve_user_path m False False (path_str (dest @ (if src = [] then [] else [path_name src]))) else Inr dest)"

definition move_item :: "(path \<Rightarrow> path \<Rightarrow> bool) \<Rightarrow> bool \<Rightarrow> path \<Rightarrow> path \<Rightarrow> home_disk \<Rightarrow> jdict outcome" where
  "move_item same_device exporting src dest d =
     (case (if exporting then copy_file src dest d else shutil_move (same_device src dest) src dest d) of
        None \<Rightarrow> (d, Inl os_error)
      | Some d' \<Rightarrow> (d', Inr ([(''path'', JStr (path_str src)), (''destination'', JStr (path_str dest))]
                            @ (if exporting then [(''copied'', JBool True)] else []))))"

definition move_plan :: "machine \<Rightarrow> jdict \<Rightarrow> computer_error + path \<times> path" where
  \<comment> \<open>everything that is checked before anything is changed\<close>
  "move_plan m args = (case (dict_get args ''path'', dict_get args ''destination'') of
       (Some (JStr raw_path), Some (JStr raw_dest)) \<Rightarrow>
         bind_result (resolve_user_path m True True raw_path) (\<lambda>src.
         bind_result (resolve_user_path m False False raw_dest) (\<lambda>dest.
         bind_result (if is_workspace_path m src then check_workspace_document m False src else Inr ()) (\<lambda>_.
         bind_result (move_target m src dest) (\<lambda>dest.
         if mc_is_dir m src \<and> (dest = src \<or> is_within dest src)
         then Inl (missing ''Cannot move a folder into itself or a subfolder of itself.'')
         else if mc_exists m dest \<and> \<not> bool_arg args ''overwrite''
         then Inl (missing (''Destination already exists: '' @ path_str dest))
         else Inr (src, dest)))))
     | (Some (JStr _), _) \<Rightarrow> Inl (missing ''destination is required'')
     | _ \<Rightarrow> Inl (missing ''path is required''))"

definition computer_move ::
    "machine \<Rightarrow> (path \<Rightarrow> bool) \<Rightarrow> (path \<Rightarrow> path \<Rightarrow> bool) \<Rightarrow> nat \<Rightarrow> jdict \<Rightarrow> home_disk \<Rightarrow> jdict outcome" where
  "computer_move machine local same_device now args d =
     (let m = at_disk machine d
      in case move_plan m args of
        Inl e \<Rightarrow> (d, Inl e)
      | Inr (src, dest) \<Rightarrow>
          (case (if mc_exists m dest then trash_path m local now dest d else (d, Inr [])) of
             (d1, Inl e) \<Rightarrow> (d1, Inl e)
           | (d1, Inr _) \<Rightarrow> move_item same_device (is_workspace_path m src) src dest d1))"

definition computer_trash :: "machine \<Rightarrow> (path \<Rightarrow> bool) \<Rightarrow> nat \<Rightarrow> jdict \<Rightarrow> home_disk \<Rightarrow> jdict outcome" where
  "computer_trash machine local now args d =
     (let m = at_disk machine d
      in case dict_get args ''path'' of
        Some (JStr raw_path) \<Rightarrow>
          (case resolve_user_path m True False raw_path of
             Inl e \<Rightarrow> (d, Inl e)
           | Inr p \<Rightarrow> (case trash_path m local now p d of
               (d1, Inl e) \<Rightarrow> (d1, Inl e)
             | (d1, Inr t) \<Rightarrow> (d1, Inr [(''path'', JStr (path_str p)), (''trashed_to'', JStr (path_str t))])))
      | _ \<Rightarrow> (d, Inl (missing ''path is required'')))"

section \<open>Listing and searching\<close>

definition parse_limit :: "(string \<Rightarrow> int option) \<Rightarrow> int \<Rightarrow> int \<Rightarrow> jdict \<Rightarrow> int" where
  \<comment> \<open>the first argument is \<open>int\<close> of a float, kept as its text; an infinite one is not considered\<close>
  "parse_limit int_of_float dflt cap args = (case dict_get args ''limit'' of
       Some (JInt i) \<Rightarrow> min i cap
     | Some (JBool b) \<Rightarrow> min (if b then 1 else 0) cap
     | Some (JFloat r) \<Rightarrow> (case int_of_float r of None \<Rightarrow> dflt | Some i \<Rightarrow> min i cap)
     | Some (JStr s) \<Rightarrow> (case py_int s of None \<Rightarrow> dflt | Some i \<Rightarrow> min i cap)
     | _ \<Rightarrow> dflt)"

definition children :: "home_disk \<Rightarrow> path \<Rightarrow> (string \<times> node) list" where
  "children d p = map (\<lambda>(q, n). (last q, n)) (filter (\<lambda>(q, _). q \<noteq> [] \<and> butlast q = p) d)"

record listed =
  ld_name :: string
  ld_is_dir :: bool
  ld_size :: int
  ld_modified :: int

fun scan_entries ::
    "(path \<Rightarrow> bool) \<Rightarrow> (path \<Rightarrow> (int \<times> int) option) \<Rightarrow> bool \<Rightarrow> int \<Rightarrow> path \<Rightarrow> (string \<times> node) list \<Rightarrow> listed list
      \<Rightarrow> listed list \<times> bool" where
  \<comment> \<open>\<open>None\<close> from the second argument is a \<open>stat\<close> that fails\<close>
  "scan_entries denied stat hidden limit p [] acc = (acc, False)"
| "scan_entries denied stat hidden limit p ((name, n) # es) acc =
     (if \<not> hidden \<and> startswith name ''.'' \<or> denied (p @ [name]) then scan_entries denied stat hidden limit p es acc
      else if limit \<le> int (length acc) then (acc, True)
      else (case stat (p @ [name]) of
          None \<Rightarrow> scan_entries denied stat hidden limit p es acc
        | Some (bytes, changed) \<Rightarrow> scan_entries denied stat hidden limit p es
            (acc @ [\<lparr>ld_name = name, ld_is_dir = (n = Folder), ld_size = bytes, ld_modified = changed\<rparr>])))"

definition list_order :: "listed list \<Rightarrow> listed list" where
  \<comment> \<open>folders first, then by name without letter case\<close>
  "list_order es = sort_key (\<lambda>e. \<not> ld_is_dir e) (sort_key (\<lambda>e. py_lower (ld_name e)) es)"

definition computer_list_dir ::
    "machine \<Rightarrow> (path \<Rightarrow> (int \<times> int) option) \<Rightarrow> (string \<Rightarrow> int option) \<Rightarrow> jdict \<Rightarrow> home_disk
      \<Rightarrow> computer_error + path \<times> listed list \<times> bool" where
  "computer_list_dir machine stat int_of_float args d =
     (let m = at_disk machine d
      in case dict_get args ''path'' of
        Some (JStr raw_path) \<Rightarrow> bind_result (resolve_user_path m True False raw_path) (\<lambda>p.
          if \<not> mc_is_dir m p then Inl (missing (''Not a directory: '' @ path_str p))
          else (case scan_entries (is_path_denied m) stat (bool_arg args ''include_hidden'') (parse_limit int_of_float 200 500 args)
                       p (children d p) [] of
                  (es, truncated) \<Rightarrow> Inr (p, list_order es, truncated)))
      | _ \<Rightarrow> Inl (missing ''path is required''))"

definition folders_in :: "home_disk \<Rightarrow> path \<Rightarrow> string list" where
  "folders_in d p = map fst (filter (\<lambda>(_, n). n = Folder) (children d p))"

definition files_in :: "home_disk \<Rightarrow> path \<Rightarrow> string list" where
  "files_in d p = map fst (filter (\<lambda>(_, n). n \<noteq> Folder) (children d p))"

fun walk :: "(path \<Rightarrow> bool) \<Rightarrow> home_disk \<Rightarrow> nat \<Rightarrow> path \<Rightarrow> (path \<times> string list \<times> string list) list" where
  \<comment> \<open>\<open>os.walk\<close> from the top, with the denied folders taken out of the names it descends into; the depth is bounded\<close>
  "walk denied d 0 p = []"
| "walk denied d (Suc depth) p =
     (let dirs = filter (\<lambda>x. \<not> denied (p @ [x])) (folders_in d p)
      in (p, dirs, files_in d p) # concat (map (\<lambda>x. walk denied d depth (p @ [x])) dirs))"

fun take_matches ::
    "(path \<Rightarrow> bool) \<Rightarrow> string \<Rightarrow> int \<Rightarrow> path \<Rightarrow> (string \<times> bool) list \<Rightarrow> (path \<times> bool) list \<Rightarrow> (path \<times> bool) list \<times> bool" where
  "take_matches denied query limit p [] acc = (acc, False)"
| "take_matches denied query limit p ((name, is_folder) # cs) acc =
     (if \<not> text_contains (py_lower name) query \<or> denied (p @ [name]) then take_matches denied query limit p cs acc
      else if limit \<le> int (length acc) then (acc, True)
      else take_matches denied query limit p cs (acc @ [(p @ [name], is_folder)]))"

definition candidates :: "string \<Rightarrow> string list \<Rightarrow> string list \<Rightarrow> (string \<times> bool) list" where
  "candidates kind dirs files =
     (if kind \<in> {''dir'', ''any''} then map (\<lambda>x. (x, True)) dirs else [])
     @ (if kind \<in> {''file'', ''any''} then map (\<lambda>x. (x, False)) files else [])"

fun search_steps ::
    "(path \<Rightarrow> bool) \<Rightarrow> string \<Rightarrow> string \<Rightarrow> int \<Rightarrow> (path \<times> string list \<times> string list) list \<Rightarrow> (path \<times> bool) list
      \<Rightarrow> (path \<times> bool) list \<times> bool" where
  "search_steps denied query kind limit [] acc = (acc, False)"
| "search_steps denied query kind limit ((p, dirs, files) # ws) acc =
     (case take_matches denied query limit p (candidates kind dirs files) acc of
        (acc', True) \<Rightarrow> (acc', True)
      | (acc', False) \<Rightarrow> search_steps denied query kind limit ws acc')"

definition find_kind :: "jdict \<Rightarrow> string" where
  \<comment> \<open>a value that is no string matches no kind\<close>
  "find_kind args = (case dict_get args ''kind'' of
       Some (JStr k) \<Rightarrow> if k = [] then ''any'' else k | Some v \<Rightarrow> if json_truthy v then [] else ''any'' | None \<Rightarrow> ''any'')"

definition computer_find ::
    "machine \<Rightarrow> (string \<Rightarrow> int option) \<Rightarrow> jdict \<Rightarrow> home_disk \<Rightarrow> computer_error + (path \<times> bool) list \<times> bool" where
  "computer_find machine int_of_float args d =
     (let m = at_disk machine d
      in case dict_get args ''path'' of
        Some (JStr raw_path) \<Rightarrow> (case dict_get args ''query'' of
            Some (JStr raw_query) \<Rightarrow>
              if py_strip raw_query = [] then Inl (missing ''query is required'')
              else bind_result (resolve_user_path m True False raw_path) (\<lambda>root.
                if \<not> mc_is_dir m root then Inl (missing (''Not a directory: '' @ path_str root))
                else Inr (search_steps (is_path_denied m) (py_lower (py_strip raw_query)) (find_kind args)
                            (parse_limit int_of_float 100 200 args) (walk (is_path_denied m) d (Suc (length d)) root) []))
          | _ \<Rightarrow> Inl (missing ''query is required''))
      | _ \<Rightarrow> Inl (missing ''path is required''))"

section \<open>Opening\<close>

definition app_bundle_name :: "string \<Rightarrow> string" where
  "app_bundle_name app = (if endswith (py_strip app) ''.app'' then py_strip app else py_strip app @ ''.app'')"

definition app_roots :: "(string \<Rightarrow> named_path) list" where
  \<comment> \<open>where applications are looked for, as a function of what follows the root\<close>
  "app_roots = [\<lambda>rest. Verbatim (''/Applications'' @ rest), \<lambda>rest. FromHome (''Applications'' @ rest)]"

definition bundle_in :: "machine \<Rightarrow> string \<Rightarrow> (string \<Rightarrow> named_path) \<Rightarrow> path option" where
  "bundle_in m name root =
     (let base = mc_resolve m (root []); candidate = mc_resolve m (root (CHR ''/'' # name))
      in if mc_exists m base \<and> mc_exists m candidate \<and> path_suffix candidate = ''.app'' \<and> is_within candidate base
         then Some candidate else None)"

definition resolve_app_bundle :: "machine \<Rightarrow> string \<Rightarrow> computer_error + path" where
  "resolve_app_bundle m app =
     (if py_strip app = [] then Inl (missing ''app_name is required'')
      else bind_result (check_app_name_allowed app) (\<lambda>_.
        if CHR ''/'' \<in> set (py_strip app) \<or> text_contains (py_strip app) ''..''
        then Inl (missing ''app_name must be a plain application name'')
        else (case List.map_filter (bundle_in m (app_bundle_name app)) app_roots of
            candidate # _ \<Rightarrow> Inr candidate
          | [] \<Rightarrow> Inl (missing (''No installed application found matching '' @ py_repr_json (JStr app))))))"

definition open_bin :: string where
  "open_bin = ''/usr/bin/open''"

definition check_openable :: "machine \<Rightarrow> path \<Rightarrow> computer_error + unit" where
  "check_openable m p = bind_result (check_not_exec_surface m p) (\<lambda>_.
     if is_workspace_path m p then check_workspace_document m True p else Inr ())"

definition open_path :: "machine \<Rightarrow> path \<Rightarrow> bool \<Rightarrow> computer_error + string list" where
  \<comment> \<open>the arguments that are executed\<close>
  "open_path m p reveal = bind_result (check_openable m p) (\<lambda>_.
     Inr (if reveal then [open_bin, ''-R'', path_str p] else [open_bin, path_str p]))"

definition open_path_with_app :: "machine \<Rightarrow> path \<Rightarrow> string \<Rightarrow> computer_error + string list" where
  "open_path_with_app m p app = bind_result (check_openable m p) (\<lambda>_.
     bind_result (resolve_app_bundle m app) (\<lambda>bundle. Inr [open_bin, ''-a'', path_str bundle, path_str p]))"

definition run_argv ::
    "(string list \<Rightarrow> computer_error + string \<times> string \<times> int) \<Rightarrow> string list \<Rightarrow> computer_error + string \<times> string \<times> int" where
  "run_argv runs argv = (case argv of
       (CHR ''/'' # _) # _ \<Rightarrow> runs argv
     | _ \<Rightarrow> Inl (KRuntime, ''internal error: computer tool built a non-absolute argv''))"

definition run_open ::
    "(string list \<Rightarrow> computer_error + string \<times> string \<times> int) \<Rightarrow> string list \<Rightarrow> computer_error + unit" where
  "run_open runs argv = bind_result (run_argv runs argv) (\<lambda>(_, err, code).
     if code \<noteq> 0 then Inl (KRuntime, ''open failed: '' @ (if py_strip err \<noteq> [] then py_strip err else str_of_int code))
     else Inr ())"

definition computer_open_argv :: "machine \<Rightarrow> jdict \<Rightarrow> computer_error + path \<times> string option \<times> string list" where
  "computer_open_argv m args = (case dict_get args ''path'' of
       Some (JStr raw_path) \<Rightarrow> bind_result (resolve_user_path m True True raw_path) (\<lambda>p.
         (case str_arg args ''app'' of
            Some app \<Rightarrow> bind_result (open_path_with_app m p app) (\<lambda>argv. Inr (p, Some app, argv))
          | None \<Rightarrow> bind_result (open_path m p (bool_arg args ''reveal'')) (\<lambda>argv. Inr (p, None, argv))))
     | _ \<Rightarrow> Inl (missing ''path is required''))"

definition computer_open ::
    "(string list \<Rightarrow> computer_error + string \<times> string \<times> int) \<Rightarrow> machine \<Rightarrow> jdict \<Rightarrow> computer_error + jdict" where
  "computer_open runs m args = bind_result (computer_open_argv m args) (\<lambda>(p, app, argv).
     bind_result (run_open runs argv) (\<lambda>_.
     Inr [(''path'', JStr (path_str p)),
          (case app of Some a \<Rightarrow> (''opened_with'', JStr a) | None \<Rightarrow> (''revealed'', JBool (bool_arg args ''reveal'')))]))"

definition computer_open_url ::
    "(string list \<Rightarrow> computer_error + string \<times> string \<times> int) \<Rightarrow> jdict \<Rightarrow> computer_error + jdict" where
  "computer_open_url runs args = (case dict_get args ''url'' of
       Some (JStr raw) \<Rightarrow> bind_result (validate_url raw) (\<lambda>url.
         bind_result (run_open runs [open_bin, url]) (\<lambda>_. Inr [(''url'', JStr url)]))
     | _ \<Rightarrow> Inl (missing ''url is required''))"

definition computer_open_app ::
    "(string list \<Rightarrow> computer_error + string \<times> string \<times> int) \<Rightarrow> machine \<Rightarrow> jdict \<Rightarrow> computer_error + jdict" where
  "computer_open_app runs m args = (case dict_get args ''app'' of
       Some (JStr raw) \<Rightarrow> bind_result (resolve_app_bundle m raw) (\<lambda>bundle.
         bind_result (run_open runs [open_bin, ''-a'', path_str bundle]) (\<lambda>_. Inr [(''app'', JStr (py_strip raw))]))
     | _ \<Rightarrow> Inl (missing ''app is required''))"

definition max_clipboard_chars :: nat where
  "max_clipboard_chars = 20000"

definition computer_clipboard_read ::
    "(string list \<Rightarrow> computer_error + string \<times> string \<times> int) \<Rightarrow> computer_error + jdict" where
  "computer_clipboard_read runs = bind_result (run_argv runs [''/usr/bin/pbpaste'']) (\<lambda>(out, err, code).
     if code \<noteq> 0 then Inl (KRuntime, ''pbpaste failed: '' @ py_strip err)
     else (let shown = take max_clipboard_chars out
           in Inr [(''text'', JStr shown), (''truncated'', JBool (max_clipboard_chars \<le> length shown))]))"

definition computer_clipboard_write ::
    "(string list \<Rightarrow> string \<Rightarrow> computer_error + string \<times> string \<times> int) \<Rightarrow> jdict \<Rightarrow> computer_error + jdict" where
  \<comment> \<open>with what a command does that reads a text\<close>
  "computer_clipboard_write runs args = (case dict_get args ''text'' of
       Some (JStr raw) \<Rightarrow> bind_result (run_argv (\<lambda>argv. runs argv raw) [''/usr/bin/pbcopy'']) (\<lambda>(_, err, code).
         if code \<noteq> 0 then Inl (KRuntime, ''pbcopy failed: '' @ py_strip err)
         else Inr [(''chars_written'', JInt (int (length raw)))])
     | _ \<Rightarrow> Inl (missing ''text is required''))"

definition require_macos :: "bool \<Rightarrow> computer_error + unit" where
  "require_macos darwin = (if darwin then Inr ()
     else Inl (KPolicy, ''Computer-control tools are only supported on macOS.''))"

definition run_tool :: "bool \<Rightarrow> (home_disk \<Rightarrow> 'a outcome) \<Rightarrow> home_disk \<Rightarrow> 'a outcome" where
  "run_tool darwin body d = (case require_macos darwin of Inl e \<Rightarrow> (d, Inl e) | Inr _ \<Rightarrow> body d)"

section \<open>Nothing disappears\<close>

definition disk_ok :: "home_disk \<Rightarrow> bool" where
  \<comment> \<open>one entry for each path, and each has a folder above it\<close>
  "disk_ok d \<longleftrightarrow> distinct (map fst d) \<and> map_of d [] = Some Folder
     \<and> list_all (\<lambda>(q, _). q = [] \<or> map_of d (butlast q) = Some Folder) d"

definition contents :: "home_disk \<Rightarrow> node multiset" where
  "contents d = mset (map snd d)"

lemma disk_ok_parent:
  assumes "disk_ok d" and "map_of d q = Some n" and "q \<noteq> []"
  shows "map_of d (butlast q) = Some Folder"
  using assms by (auto simp: disk_ok_def list_all_iff dest!: map_of_SomeD)

lemma within_prefix: "is_within q p \<longleftrightarrow> (\<exists>r. q = p @ r)"
  by (auto simp: is_within_def) (metis append_take_drop_id)

lemma nothing_below_missing:
  assumes "disk_ok d" and "map_of d p = None \<or> (\<exists>c. map_of d p = Some (Doc c))" and "is_within q p" and "q \<noteq> p"
  shows "map_of d q = None"
proof -
  have "r \<noteq> [] \<Longrightarrow> map_of d (p @ r) = None" for r
  proof (induction r rule: rev_induct)
    case (snoc x r)
    show ?case
    proof (rule ccontr)
      assume "map_of d (p @ r @ [x]) \<noteq> None"
      then obtain n where "map_of d (p @ r @ [x]) = Some n" by blast
      then have "map_of d (p @ r) = Some Folder" using disk_ok_parent[OF assms(1), of "p @ r @ [x]" n] by (simp add: butlast_append)
      then show False using assms(2) snoc.IH by (cases "r = []") auto
    qed
  qed simp
  moreover obtain r where "q = p @ r" "r \<noteq> []" using assms(3,4) by (auto simp: within_prefix)
  ultimately show ?thesis by simp
qed

lemma carried_inj:
  assumes "carried_to s t q = carried_to s t r" and "\<And>x. x \<in> {q, r} \<Longrightarrow> is_within x s \<or> \<not> is_within x t"
  shows "q = r"
  using assms(1) assms(2)[of q] assms(2)[of r] by (auto simp: carried_to_def within_prefix split: if_splits)

lemma put_tree_entries:
  "(k, n) \<in> set (put_tree s t d) \<longleftrightarrow> (\<exists>q. (q, n) \<in> set d \<and> q \<noteq> t \<and> k = carried_to s t q)"
  by (auto simp: put_tree_def)

lemma put_tree_ok:
  assumes "disk_ok d" and "s \<noteq> []" and "map_of d (butlast t) = Some Folder" and "\<not> is_within t s" and t: "t \<noteq> []"
    and below: "\<And>q n. (q, n) \<in> set d \<Longrightarrow> \<not> strictly_below q t"
  shows "disk_ok (put_tree s t d)"
proof -
  have dist: "distinct (map fst d)" and root: "([], Folder) \<in> set d" using assms(1) by (auto simp: disk_ok_def dest: map_of_SomeD)
  have parent: "(butlast q, Folder) \<in> set d" if "(q, n) \<in> set d" "q \<noteq> []" for q n
    using assms(1) that by (auto simp: disk_ok_def list_all_iff dest: map_of_SomeD)
  have inj: "inj_on (carried_to s t) {q. \<exists>n. (q, n) \<in> set d \<and> q \<noteq> t}"
  proof (rule inj_onI)
    fix q r assume "q \<in> {q. \<exists>n. (q, n) \<in> set d \<and> q \<noteq> t}" "r \<in> {q. \<exists>n. (q, n) \<in> set d \<and> q \<noteq> t}"
      and eq: "carried_to s t q = carried_to s t r"
    then have "\<not> is_within x t" if "x \<in> {q, r}" for x using below that by (auto simp: strictly_below_def)
    then show "q = r" using carried_inj[OF eq] by blast
  qed
  have "map fst (put_tree s t d) = map (carried_to s t) (map fst (filter (\<lambda>(q, _). q \<noteq> t) d))"
    by (simp add: put_tree_def case_prod_beta comp_def)
  moreover have "distinct (map fst (filter (\<lambda>(q, _). q \<noteq> t) d))" using dist by (rule distinct_map_filter)
  moreover have "inj_on (carried_to s t) (set (map fst (filter (\<lambda>(q, _). q \<noteq> t) d)))"
    by (rule inj_on_subset[OF inj]) auto
  ultimately have distinct: "distinct (map fst (put_tree s t d))" by (simp only: distinct_map simp_thms)
  have up: "\<not> is_within (butlast q) s" if "\<not> is_within q s" "q \<noteq> []" for q
  proof
    assume "is_within (butlast q) s"
    then obtain r where "butlast q = s @ r" by (auto simp: within_prefix)
    then have "q = s @ r @ [last q]" using that(2) by (metis append_assoc append_butlast_last_id)
    then show False using that(1) by (auto simp: within_prefix)
  qed
  have "([], Folder) \<in> set (put_tree s t d)"
    unfolding put_tree_entries using root t assms(2) by (intro exI[of _ "[]"]) (simp add: carried_to_def is_within_def)
  moreover have "k = [] \<or> (butlast k, Folder) \<in> set (put_tree s t d)" if entry: "(k, n) \<in> set (put_tree s t d)" for k n
  proof -
    obtain q where q: "(q, n) \<in> set d" "q \<noteq> t" "k = carried_to s t q"
      using entry unfolding put_tree_entries by blast
    consider "q = s" | r where "q = s @ r" "r \<noteq> []" | "\<not> is_within q s" "q \<noteq> []" | "q = []"
      by (auto simp: within_prefix)
    then show ?thesis
    proof cases
      case 1
      then have "k = t" using q by (simp add: carried_to_def)
      moreover have "carried_to s t (butlast t) = butlast t" using up[OF assms(4) t] by (simp add: carried_to_def)
      moreover have "butlast t \<noteq> t" using t by (metis append_butlast_last_id append_self_conv not_Cons_self2)
      ultimately show ?thesis using assms(3) unfolding put_tree_entries by (metis map_of_SomeD)
    next
      case 2
      then have "butlast k = carried_to s t (s @ butlast r)" using q by (simp add: carried_to_def is_within_def butlast_append)
      moreover have "(s @ butlast r, Folder) \<in> set d" using parent[OF q(1)] 2 by (simp add: butlast_append)
      moreover have "s @ butlast r \<noteq> t" using assms(4) by (auto simp: within_prefix)
      ultimately show ?thesis unfolding put_tree_entries by blast
    next
      case 3
      then have "k = q" "carried_to s t (butlast q) = butlast q" using q up by (simp_all add: carried_to_def)
      moreover have "butlast q \<noteq> t"
      proof
        assume eq: "butlast q = t"
        then have "q = t @ [last q]" using 3(2) append_butlast_last_id[of q] by metis
        then have "strictly_below q t" by (auto simp: strictly_below_def within_prefix)
        then show False using below[OF q(1)] by blast
      qed
      ultimately show ?thesis using parent[OF q(1) 3(2)] unfolding put_tree_entries by metis
    next
      case 4
      then show ?thesis using q assms(2) by (auto simp: carried_to_def is_within_def)
    qed
  qed
  ultimately show ?thesis using distinct by (auto simp: disk_ok_def list_all_iff)
qed

lemma put_tree_contents:
  assumes "map_of d t = None"
  shows "contents (put_tree s t d) = contents d"
proof -
  have "filter (\<lambda>(q, _). q \<noteq> t) d = d" using assms by (auto simp: filter_id_conv map_of_eq_None_iff image_iff)
  then show ?thesis by (simp add: put_tree_def contents_def case_prod_beta comp_def)
qed

definition kept :: "home_disk \<Rightarrow> home_disk \<Rightarrow> bool" where
  \<comment> \<open>still a tree, and every folder and every document is somewhere in it\<close>
  "kept d d' \<longleftrightarrow> disk_ok d' \<and> contents d \<subseteq># contents d'"

lemma kept_refl: "disk_ok d \<Longrightarrow> kept d d"
  by (simp add: kept_def)

lemma kept_trans: "kept d1 d2 \<Longrightarrow> kept d2 d3 \<Longrightarrow> kept d1 d3"
  by (auto simp: kept_def intro: subset_mset.order_trans)

lemma root_folder: "disk_ok d \<Longrightarrow> map_of d [] = Some Folder"
  by (simp add: disk_ok_def)

lemma none_below:
  assumes "disk_ok d" and "map_of d t = None" and "(q, n) \<in> set d"
  shows "\<not> strictly_below q t"
proof
  assume "strictly_below q t"
  then have "map_of d q = None" using nothing_below_missing[OF assms(1), of t q] assms(2) unfolding strictly_below_def by blast
  then show False using weak_map_of_SomeI[OF assms(3)] by simp
qed

lemma put_tree_kept:
  assumes "disk_ok d" and "s \<noteq> []" and "map_of d t = None" and "map_of d (butlast t) = Some Folder" and "\<not> is_within t s"
  shows "kept d (put_tree s t d)"
proof -
  have "t \<noteq> []" using root_folder[OF assms(1)] assms(3) by auto
  then show ?thesis
    using put_tree_ok[OF assms(1,2,4,5) _ none_below[OF assms(1,3)]] put_tree_contents[OF assms(3)] by (simp add: kept_def)
qed

lemma add_entry_kept:
  assumes "disk_ok d" and "map_of d p = None" and "map_of d (butlast p) = Some Folder"
  shows "kept d (d @ [(p, n)])"
proof -
  have same: "map_of (d @ [(p, n)]) q = map_of d q" if "map_of d q = Some m" for q m
    using that by (simp add: map_add_def)
  have "distinct (map fst (d @ [(p, n)]))" using assms by (auto simp: disk_ok_def map_of_eq_None_iff)
  moreover have "list_all (\<lambda>(q, _). q = [] \<or> map_of (d @ [(p, n)]) (butlast q) = Some Folder) (d @ [(p, n)])"
    using assms(1,3) same unfolding disk_ok_def list_all_iff by fastforce
  moreover have "map_of (d @ [(p, n)]) [] = Some Folder" using same[OF root_folder[OF assms(1)]] root_folder[OF assms(1)] by simp
  moreover have "contents d \<subseteq># contents (d @ [(p, n)])" by (simp add: contents_def)
  ultimately show ?thesis unfolding kept_def disk_ok_def by blast
qed

lemma os_rename_kept:
  assumes "disk_ok d" and "os_rename s t d = Some d'" and "map_of d t = None"
  shows "kept d d'"
proof -
  have "t \<noteq> []" using root_folder[OF assms(1)] assms(3) by auto
  moreover have "t \<noteq> s" "\<not> strictly_below t s" "map_of d (butlast t) = Some Folder" "d' = put_tree s t d"
    using assms by (auto simp: os_rename_def split: if_splits)
  moreover from this have "s \<noteq> []" "\<not> is_within t s" by (auto simp: strictly_below_def is_within_def)
  ultimately show ?thesis using put_tree_kept[OF assms(1) _ assms(3)] by blast
qed

lemma make_dirs_kept:
  assumes "make_dirs (map (\<lambda>n. take n p) [i..<length p]) d = Some d'" and "disk_ok d"
    and "i = 0 \<or> map_of d (take (i - 1) p) = Some Folder" and "i \<le> length p"
  shows "kept d d' \<and> (p \<noteq> [] \<longrightarrow> map_of d' (butlast p) = Some Folder)
    \<and> (\<forall>q. map_of d q \<noteq> None \<longrightarrow> map_of d' q = map_of d q) \<and> (map_of d p = None \<longrightarrow> map_of d' p = None)"
  using assms
proof (induction "length p - i" arbitrary: i d)
  case 0
  then have "i = length p" by simp
  with 0 show ?case by (auto simp: kept_refl butlast_conv_take)
next
  case (Suc k)
  then have i: "i < length p" and k: "k = length p - Suc i" by simp_all
  have unfold: "make_dirs (map (\<lambda>n. take n p) [i..<length p]) d = make_dirs (take i p # map (\<lambda>n. take n p) [Suc i..<length p]) d"
    using i by (simp add: upt_conv_Cons)
  show ?case
  proof (cases "map_of d (take i p)")
    case None
    have up: "map_of d (butlast (take i p)) = Some Folder" using Suc.prems(2,3) i root_folder by (auto simp: butlast_take)
    let ?d = "d @ [(take i p, Folder)]"
    have new: "kept d ?d" using add_entry_kept[OF Suc.prems(2) None up] .
    have "make_dirs (map (\<lambda>n. take n p) [Suc i..<length p]) ?d = Some d'" using Suc.prems(1) unfold None by simp
    from Suc.hyps(1)[OF k this] new None i
    have ind: "kept ?d d' \<and> (p \<noteq> [] \<longrightarrow> map_of d' (butlast p) = Some Folder)
      \<and> (\<forall>q. map_of ?d q \<noteq> None \<longrightarrow> map_of d' q = map_of ?d q) \<and> (map_of ?d p = None \<longrightarrow> map_of d' p = None)"
      by (auto simp: kept_def map_add_def)
    have "map_of d' q = map_of d q" if "map_of d q \<noteq> None" for q
    proof -
      have "map_of ?d q = map_of d q" using that None by (auto simp: map_add_def)
      then show ?thesis using ind that by metis
    qed
    moreover have "map_of d' p = None" if "map_of d p = None"
    proof -
      have "map_of ?d p = None" using that i by (auto simp: map_add_def dest: sym)
      then show ?thesis using ind by blast
    qed
    ultimately show ?thesis using ind kept_trans[OF new] by blast
  next
    case (Some n)
    then have "n = Folder" "make_dirs (map (\<lambda>n. take n p) [Suc i..<length p]) d = Some d'"
      using Suc.prems(1) unfold by (cases n; simp)+
    then show ?thesis using Suc.hyps(1)[OF k] Suc.prems(2) Some i by simp
  qed
qed

lemma copy_tree_kept:
  assumes "disk_ok d" and "copy_tree s t d = Some d'" and "map_of d t = None"
  shows "kept d d'"
proof -
  have t: "t \<noteq> []" using root_folder[OF assms(1)] assms(3) by auto
  consider (dir) d1 where "\<not> is_within t s" "make_dirs (ancestors t) d = Some d1" "d' = put_tree s t d1"
    | (doc) c where "map_of d s = Some (Doc c)" "map_of d (butlast t) = Some Folder" "t \<noteq> s" "d' = put_tree s t d"
    using assms(2) by (auto simp: copy_tree_def split: option.splits node.splits if_splits)
  then show ?thesis
  proof cases
    case dir
    then have "make_dirs (map (\<lambda>n. take n t) [0..<length t]) d = Some d1" by (simp add: ancestors_def)
    from make_dirs_kept[OF this assms(1)] t assms(3)
    have "kept d d1" "map_of d1 (butlast t) = Some Folder" "map_of d1 t = None" by auto
    moreover have "s \<noteq> []" using dir by (auto simp: is_within_def)
    ultimately have "kept d1 (put_tree s t d1)" using put_tree_kept dir(1) by (simp add: kept_def)
    then show ?thesis using dir \<open>kept d d1\<close> kept_trans by blast
  next
    case doc
    have "s \<noteq> []" using root_folder[OF assms(1)] doc(1) by auto
    moreover have "\<not> is_within t s"
    proof
      assume "is_within t s"
      then obtain r where r: "t = s @ r" "r \<noteq> []" using doc(3) by (auto simp: within_prefix)
      then have "is_within (butlast t) s" by (auto simp: within_prefix butlast_append)
      then show False using nothing_below_missing[OF assms(1), of s "butlast t"] doc(1,2) by (cases "butlast t = s") auto
    qed
    ultimately show ?thesis using put_tree_kept assms(1,3) doc(2,4) by blast
  qed
qed

lemma shutil_move_kept:
  assumes "disk_ok d" and "shutil_move dev s t d = Some d'" and "map_of d t = None"
  shows "kept d d'"
  using assms os_rename_kept copy_tree_kept
  by (auto simp: shutil_move_def Let_def split: option.splits if_splits)

lemma copy_file_kept:
  assumes "disk_ok d" and "copy_file s t d = Some d'"
  shows "kept d d'"
  using assms(2) add_entry_kept[OF assms(1)] by (auto simp: copy_file_def split: option.splits node.splits if_splits)

definition stamped :: "machine \<Rightarrow> nat \<Rightarrow> path \<Rightarrow> path" where
  "stamped m now p = home_trash m @ [path_stem p @ ''-'' @ str_of_nat now @ path_suffix p]"

definition names_free :: "machine \<Rightarrow> nat \<Rightarrow> home_disk \<Rightarrow> bool" where
  \<comment> \<open>nothing in the trash has the name that an item would be given there because its own is taken\<close>
  "names_free m now d \<longleftrightarrow> list_all (\<lambda>(p, _). map_of d (stamped m now p) = None) d"

lemma make_trash_kept:
  assumes "disk_ok d" and "make_trash m d = Some d1"
  shows "kept d d1 \<and> (\<forall>x. map_of d1 (home_trash m @ [x]) = map_of d (home_trash m @ [x])) \<and> set d1 \<subseteq> insert (home_trash m, Folder) (set d)"
  using assms(2) kept_refl[OF assms(1)] add_entry_kept[OF assms(1)]
  by (auto simp: make_trash_def map_add_def split: option.splits node.splits if_splits)

lemma trash_name_free:
  assumes "names_free m now d" and "(p, n) \<in> set d"
  shows "map_of d (trash_name m now d p) = None"
  using assms by (auto simp: names_free_def stamped_def trash_name_def list_all_iff)

lemma put_tree_vacates:
  assumes "\<not> is_within s t"
  shows "map_of (put_tree s t d) s = None"
proof -
  have "(s, n) \<notin> set (put_tree s t d)" for n
    using assms by (auto simp: put_tree_entries carried_to_def within_prefix split: if_splits)
  then show ?thesis by (auto simp: map_of_eq_None_iff)
qed

lemma moved_away:
  assumes "disk_ok d" and "map_of d t = None" and "map_of d s \<noteq> None"
    and "os_rename s t d = Some d' \<or> shutil_move False s t d = Some d'"
  shows "map_of d' s = None"
proof -
  have "s \<noteq> t" using assms(2,3) by auto
  then have below: "\<not> is_within s t" using nothing_below_missing[OF assms(1), of t s] assms(2,3) by auto
  have "t \<noteq> []" using root_folder[OF assms(1)] assms(2) by auto
  have "\<exists>d1. d' = put_tree s t d1"
    using assms(2,4) \<open>s \<noteq> t\<close>
    by (auto simp: os_rename_def shutil_move_def copy_tree_def Let_def split: if_splits option.splits node.splits)
  then show ?thesis using put_tree_vacates[OF below] by fast
qed

lemma trash_path_kept:
  assumes "disk_ok d" and "names_free m now d" and "map_of d p \<noteq> None"
  shows "kept d (fst (trash_path m local now p d))
    \<and> (\<forall>t. snd (trash_path m local now p d) = Inr t \<longrightarrow> map_of (fst (trash_path m local now p d)) p = None)"
proof (cases "make_trash m d")
  case None
  then show ?thesis by (simp add: trash_path_def kept_refl[OF assms(1)] split: sum.split)
next
  case (Some d1)
  note made = make_trash_kept[OF assms(1) Some]
  let ?t = "trash_name m now d1 p"
  let ?move = "if local p then os_rename p ?t d1 else shutil_move False p ?t d1"
  have "?t = trash_name m now d p" "map_of d1 (trash_name m now d p) = map_of d (trash_name m now d p)"
    using made by (auto simp: trash_name_def)
  moreover have "map_of d (trash_name m now d p) = None" using trash_name_free[OF assms(2)] assms(3) by (auto dest: map_of_SomeD)
  ultimately have free: "map_of d1 ?t = None" by simp
  have d1: "disk_ok d1" "kept d d1" using made by (simp_all add: kept_def)
  have "map_of d1 p \<noteq> None"
  proof -
    have "d1 = d \<or> (\<exists>e. d1 = d @ e)" using Some by (auto simp: make_trash_def split: option.splits node.splits if_splits)
    then show ?thesis using assms(3) by (auto simp: map_add_def split: option.splits)
  qed
  then have "kept d d2 \<and> map_of d2 p = None" if "?move = Some d2" for d2
    using that os_rename_kept[OF d1(1) _ free] shutil_move_kept[OF d1(1) _ free] moved_away[OF d1(1) free, of p d2] kept_trans[OF d1(2)]
    by (cases "local p") auto
  then show ?thesis
    using d1(2) kept_refl[OF assms(1)] Some
    by (cases "check_trashable m d p"; cases ?move) (auto simp: trash_path_def Let_def)
qed

lemma at_disk_names: "names_free (at_disk m d') now d = names_free m now d"
  by (simp add: names_free_def stamped_def home_trash_def at_disk_def)

lemma resolved_exists: "resolve_user_path (at_disk m d) True w raw = Inr p \<Longrightarrow> map_of d p \<noteq> None"
  by (auto simp: resolve_user_path_def Let_def at_disk_def split: if_splits)

lemma computer_trash_disk:
  "fst (computer_trash m local now args d) = d
   \<or> (\<exists>raw p. resolve_user_path (at_disk m d) True False raw = Inr p
        \<and> fst (computer_trash m local now args d) = fst (trash_path (at_disk m d) local now p d))"
proof (cases "\<exists>raw p. dict_get args ''path'' = Some (JStr raw) \<and> resolve_user_path (at_disk m d) True False raw = Inr p")
  case True
  then obtain raw p where path: "dict_get args ''path'' = Some (JStr raw)"
    and p: "resolve_user_path (at_disk m d) True False raw = Inr p" by blast
  have "fst (computer_trash m local now args d) = fst (trash_path (at_disk m d) local now p d)"
    by (simp add: computer_trash_def path p Let_def split: prod.split sum.split)
  with p show ?thesis by blast
next
  case False
  then show ?thesis by (auto simp: computer_trash_def Let_def split: option.split json.split sum.split)
qed

lemma computer_trash_kept:
  assumes "disk_ok d" and "names_free m now d"
  shows "kept d (fst (computer_trash m local now args d))"
proof -
  have "kept d (fst (trash_path (at_disk m d) local now p d))" if "resolve_user_path (at_disk m d) True False raw = Inr p" for raw p
    using trash_path_kept[OF assms(1) _ resolved_exists[OF that]] assms(2) at_disk_names by blast
  then show ?thesis using computer_trash_disk[of m local now args d] kept_refl[OF assms(1)] by (elim disjE exE conjE) simp_all
qed

lemma move_item_kept:
  assumes "disk_ok d" and "exporting \<or> map_of d dest = None"
  shows "kept d (fst (move_item same exporting src dest d))"
  using kept_refl[OF assms(1)] copy_file_kept[OF assms(1)] shutil_move_kept[OF assms(1)] assms(2)
  by (auto simp: move_item_def split: option.split)

lemma computer_move_kept:
  assumes "disk_ok d" and "names_free m now d"
  shows "kept d (fst (computer_move m local same now args d))"
proof (cases "move_plan (at_disk m d) args")
  case (Inl e)
  then show ?thesis by (simp add: computer_move_def kept_refl[OF assms(1)])
next
  case (Inr sd)
  obtain src dest where sd: "sd = (src, dest)" by fastforce
  let ?m = "at_disk m d"
  have ex: "mc_exists ?m dest \<longleftrightarrow> map_of d dest \<noteq> None" by (simp add: at_disk_def)
  show ?thesis
  proof (cases "map_of d dest")
    case None
    then show ?thesis using move_item_kept[OF assms(1)] Inr sd ex by (simp add: computer_move_def)
  next
    case (Some n)
    obtain d1 r where trash: "trash_path ?m local now dest d = (d1, r)" by fastforce
    have "kept d d1 \<and> (\<forall>t. r = Inr t \<longrightarrow> map_of d1 dest = None)"
      using trash_path_kept[OF assms(1), of ?m now dest local] assms(2) at_disk_names trash Some by auto
    then show ?thesis
      using move_item_kept[of d1 _ dest] kept_trans[of d d1] Inr sd ex Some trash
      by (cases r) (auto simp: computer_move_def kept_def)
  qed
qed

datatype change = Move_Item jdict | Trash_Item jdict

definition changed ::
    "machine \<Rightarrow> (path \<Rightarrow> bool) \<Rightarrow> (path \<Rightarrow> path \<Rightarrow> bool) \<Rightarrow> nat \<Rightarrow> change \<Rightarrow> home_disk \<Rightarrow> home_disk" where
  "changed m local same now c d = (case c of
       Move_Item args \<Rightarrow> fst (computer_move m local same now args d)
     | Trash_Item args \<Rightarrow> fst (computer_trash m local now args d))"

fun changes :: "machine \<Rightarrow> (path \<Rightarrow> bool) \<Rightarrow> (path \<Rightarrow> path \<Rightarrow> bool) \<Rightarrow> (nat \<times> change) list \<Rightarrow> home_disk \<Rightarrow> home_disk" where
  "changes m local same [] d = d"
| "changes m local same ((now, c) # cs) d = changes m local same cs (changed m local same now c d)"

fun always_free :: "machine \<Rightarrow> (path \<Rightarrow> bool) \<Rightarrow> (path \<Rightarrow> path \<Rightarrow> bool) \<Rightarrow> (nat \<times> change) list \<Rightarrow> home_disk \<Rightarrow> bool" where
  "always_free m local same [] d \<longleftrightarrow> True"
| "always_free m local same ((now, c) # cs) d \<longleftrightarrow> names_free m now d \<and> always_free m local same cs (changed m local same now c d)"

text \<open>
  C18: Moving and trashing never lose anything. Whatever sequence of moves, with or without overwriting, exports from the
  workspace and trashings is carried out or fails half-way, on one device or on several, every folder and every document
  that was on the disk is still on it, and the disk is still a tree, provided that each time the name that an item would be
  given because its own is taken in the trash is free there.
\<close>

theorem nothing_is_deleted:
  assumes "disk_ok d" and "always_free m local same cs d"
  shows "contents d \<subseteq># contents (changes m local same cs d) \<and> disk_ok (changes m local same cs d)"
proof -
  have "kept d (changes m local same cs d)" using assms
  proof (induction cs arbitrary: d)
    case (Cons nc cs)
    obtain now c where nc: "nc = (now, c)" by fastforce
    have "kept d (changed m local same now c d)"
      using Cons.prems nc computer_move_kept computer_trash_kept by (cases c) (auto simp: changed_def)
    moreover from this have "disk_ok (changed m local same now c d)" by (simp add: kept_def)
    ultimately show ?case using Cons nc kept_trans by auto
  qed (simp add: kept_refl)
  then show ?thesis by (simp add: kept_def)
qed

definition sample_disk :: home_disk where
  "sample_disk = [([], Folder), ([''u''], Folder), ([''u'', ''me''], Folder), ([''u'', ''me'', ''.Trash''], Folder),
     ([''u'', ''me'', ''docs''], Folder), ([''u'', ''me'', ''docs'', ''a.txt''], Doc ''one''),
     ([''u'', ''me'', ''a.txt''], Doc ''two''), ([''u'', ''me'', ''old''], Folder), ([''u'', ''me'', ''old'', ''a.txt''], Doc ''three'')]"

definition sample_args :: "(string \<times> string) list \<Rightarrow> jdict" where
  "sample_args args = map (\<lambda>(k, v). (k, if v = ''true'' then JBool True else JStr v)) args"

lemma nothing_is_deleted_witness:
  "contents sample_disk \<subseteq># contents (changes sample_machine (\<lambda>_. True) (\<lambda>_ _. True)
     [(7, Move_Item (sample_args [(''path'', ''~/a.txt''), (''destination'', ''~/docs''), (''overwrite'', ''true'')])),
      (8, Trash_Item (sample_args [(''path'', ''~/docs/a.txt'')]))] sample_disk) \<and>
   map_of (changes sample_machine (\<lambda>_. True) (\<lambda>_ _. True)
     [(7, Move_Item (sample_args [(''path'', ''~/a.txt''), (''destination'', ''~/docs''), (''overwrite'', ''true'')])),
      (8, Trash_Item (sample_args [(''path'', ''~/docs/a.txt'')]))] sample_disk) [''u'', ''me'', ''.Trash'', ''a-8.txt''] = Some (Doc ''two'')"
proof -
  let ?cs = "[(7, Move_Item (sample_args [(''path'', ''~/a.txt''), (''destination'', ''~/docs''), (''overwrite'', ''true'')])),
      (8, Trash_Item (sample_args [(''path'', ''~/docs/a.txt'')]))]"
  have "disk_ok sample_disk" "always_free sample_machine (\<lambda>_. True) (\<lambda>_ _. True) ?cs sample_disk"
    "map_of (changes sample_machine (\<lambda>_. True) (\<lambda>_ _. True) ?cs sample_disk) [''u'', ''me'', ''.Trash'', ''a-8.txt''] = Some (Doc ''two'')"
    by code_simp+
  then show ?thesis using nothing_is_deleted by blast
qed

text \<open>
  Without the proviso it fails: of three items of one name that are trashed within a second, the second is overwritten.
\<close>

lemma same_second_overwrites:
  "map snd (changes sample_machine (\<lambda>_. True) (\<lambda>_ _. True)
     [(7, Trash_Item (sample_args [(''path'', ''~/docs/a.txt'')])), (7, Trash_Item (sample_args [(''path'', ''~/a.txt'')])),
      (7, Trash_Item (sample_args [(''path'', ''~/old/a.txt'')]))] sample_disk)
     = [Folder, Folder, Folder, Folder, Folder, Doc ''one'', Folder, Doc ''three'']"
  by code_simp

text \<open>
  An item that is moved onto itself with \<open>overwrite\<close> is put in the trash, and the call fails.
\<close>

lemma move_onto_itself_trashes:
  "(case computer_move sample_machine (\<lambda>_. True) (\<lambda>_ _. True) 7
      (sample_args [(''path'', ''~/a.txt''), (''destination'', ''~''), (''overwrite'', ''true'')]) sample_disk of
      (d, r) \<Rightarrow> r = Inl os_error \<and> map_of d [''u'', ''me'', ''a.txt''] = None
        \<and> map_of d [''u'', ''me'', ''.Trash'', ''a.txt''] = Some (Doc ''two''))"
  by code_simp

section \<open>Searching\<close>

definition step_matches ::
    "(path \<Rightarrow> bool) \<Rightarrow> string \<Rightarrow> path \<Rightarrow> (string \<times> bool) list \<Rightarrow> (path \<times> bool) list" where
  "step_matches denied query p cs = map (\<lambda>(x, b). (p @ [x], b))
     (filter (\<lambda>(x, _). text_contains (py_lower x) query \<and> \<not> denied (p @ [x])) cs)"

definition all_matches ::
    "(path \<Rightarrow> bool) \<Rightarrow> string \<Rightarrow> string \<Rightarrow> (path \<times> string list \<times> string list) list \<Rightarrow> (path \<times> bool) list" where
  "all_matches denied query kind ws =
     concat (map (\<lambda>(p, dirs, files). step_matches denied query p (candidates kind dirs files)) ws)"

lemma take_matches_exact:
  "take_matches denied query limit p cs acc =
     (let k = nat (limit - int (length acc)); found = step_matches denied query p cs in (acc @ take k found, k < length found))"
proof (induction cs arbitrary: acc)
  case (Cons c cs)
  obtain x b where c: "c = (x, b)" by fastforce
  show ?case
  proof (cases "text_contains (py_lower x) query \<and> \<not> denied (p @ [x])")
    case hit: True
    show ?thesis
    proof (cases "limit \<le> int (length acc)")
      case False
      then have "nat (limit - int (length acc)) = Suc (nat (limit - int (length (acc @ [(p @ [x], b)]))))" by simp
      then show ?thesis using Cons hit False by (simp add: c step_matches_def Let_def)
    qed (use hit in \<open>simp add: c step_matches_def Let_def\<close>)
  qed (use Cons in \<open>auto simp: c step_matches_def Let_def\<close>)
qed (simp add: step_matches_def Let_def)

lemma search_steps_exact:
  "search_steps denied query kind limit ws acc =
     (let k = nat (limit - int (length acc)); found = all_matches denied query kind ws in (acc @ take k found, k < length found))"
proof (induction ws arbitrary: acc)
  case (Cons w ws)
  obtain p dirs files where w: "w = (p, dirs, files)" by (cases w) auto
  let ?here = "step_matches denied query p (candidates kind dirs files)"
  let ?k = "nat (limit - int (length acc))"
  have all: "all_matches denied query kind (w # ws) = ?here @ all_matches denied query kind ws"
    by (simp add: w all_matches_def)
  show ?case
  proof (cases "?k < length ?here")
    case False
    then have "nat (limit - int (length (acc @ ?here))) = ?k - length ?here" by auto
    then show ?thesis using Cons[of "acc @ ?here"] False all by (auto simp: w take_matches_exact Let_def)
  qed (simp add: w take_matches_exact Let_def all[unfolded w])
qed (simp add: all_matches_def Let_def)

fun open_way :: "(path \<Rightarrow> bool) \<Rightarrow> home_disk \<Rightarrow> path \<Rightarrow> path \<Rightarrow> bool" where
  \<comment> \<open>every folder on the way down from the first path is there and not denied\<close>
  "open_way denied d p [] \<longleftrightarrow> True"
| "open_way denied d p (x # r) \<longleftrightarrow> map_of d (p @ [x]) = Some Folder \<and> \<not> denied (p @ [x]) \<and> open_way denied d (p @ [x]) r"

lemma children_entries:
  assumes "disk_ok d"
  shows "(x, n) \<in> set (children d p) \<longleftrightarrow> map_of d (p @ [x]) = Some n"
proof -
  have "(x, n) \<in> set (children d p) \<longleftrightarrow> (p @ [x], n) \<in> set d"
    by (auto simp: children_def image_iff)
  then show ?thesis using assms by (simp add: disk_ok_def)
qed

lemma walk_folders:
  assumes "disk_ok d"
  shows "(q, dirs, files) \<in> set (walk denied d depth p) \<longleftrightarrow>
    (\<exists>r. q = p @ r \<and> length r < depth \<and> open_way denied d p r)
    \<and> dirs = filter (\<lambda>x. \<not> denied (q @ [x])) (folders_in d q) \<and> files = files_in d q"
proof (induction depth arbitrary: p)
  case (Suc depth)
  let ?way = "\<lambda>p depth. \<exists>r. q = p @ r \<and> length r < depth \<and> open_way denied d p r"
  have "?way p (Suc depth) \<longleftrightarrow> q = p \<or> (\<exists>x. map_of d (p @ [x]) = Some Folder \<and> \<not> denied (p @ [x]) \<and> ?way (p @ [x]) depth)"
  proof
    assume "?way p (Suc depth)"
    then obtain r where r: "q = p @ r" "length r < Suc depth" "open_way denied d p r" by blast
    then show "q = p \<or> (\<exists>x. map_of d (p @ [x]) = Some Folder \<and> \<not> denied (p @ [x]) \<and> ?way (p @ [x]) depth)"
      by (cases r) auto
  next
    assume "q = p \<or> (\<exists>x. map_of d (p @ [x]) = Some Folder \<and> \<not> denied (p @ [x]) \<and> ?way (p @ [x]) depth)"
    then show "?way p (Suc depth)"
    proof (elim disjE exE conjE)
      fix x r assume "map_of d (p @ [x]) = Some Folder" "\<not> denied (p @ [x])" "q = (p @ [x]) @ r" "length r < depth"
        "open_way denied d (p @ [x]) r"
      then show "?way p (Suc depth)" by (intro exI[of _ "x # r"]) simp
    qed (intro exI[of _ "[]"], simp)
  qed
  moreover have "x \<in> set (folders_in d p) \<longleftrightarrow> map_of d (p @ [x]) = Some Folder" for x
    using children_entries[OF assms, of x Folder p] by (auto simp: folders_in_def image_iff)
  ultimately show ?case
    by (auto simp: Let_def Suc.IH)
qed simp

definition findable ::
    "(path \<Rightarrow> bool) \<Rightarrow> home_disk \<Rightarrow> string \<Rightarrow> string \<Rightarrow> path \<Rightarrow> path \<Rightarrow> bool \<Rightarrow> bool" where
  \<comment> \<open>an entry of the asked name and kind that is reached from the root through places that are not denied\<close>
  "findable denied d query kind root q b \<longleftrightarrow> (\<exists>r x n. q = root @ r @ [x] \<and> map_of d q = Some n \<and> b = (n = Folder)
     \<and> open_way denied d root r \<and> \<not> denied q \<and> text_contains (py_lower x) query
     \<and> kind \<in> (if b then {''dir'', ''any''} else {''file'', ''any''}))"

lemma prefix_exists:
  assumes "disk_ok d" and "map_of d q \<noteq> None"
  shows "map_of d (take k q) \<noteq> None"
proof -
  have "is_within q (take k q)" by (metis append_take_drop_id within_prefix)
  then show ?thesis using nothing_below_missing[OF assms(1), of "take k q" q] assms(2) by metis
qed

lemma depth_bound:
  assumes "disk_ok d" and "map_of d q \<noteq> None"
  shows "length q < length d"
proof -
  have "inj_on (\<lambda>k. take k q) {..length q}" by (rule inj_onI) (metis atMost_iff length_take min.absorb2)
  then have "card ((\<lambda>k. take k q) ` {..length q}) = Suc (length q)" by (simp add: card_image)
  moreover have "(\<lambda>k. take k q) ` {..length q} \<subseteq> set (map fst d)"
    using prefix_exists[OF assms] by (auto simp: map_of_eq_None_iff)
  then have "card ((\<lambda>k. take k q) ` {..length q}) \<le> card (set (map fst d))" by (rule card_mono[OF finite_set])
  moreover have "card (set (map fst d)) \<le> length d" using card_length[of "map fst d"] by simp
  ultimately show ?thesis by linarith
qed

lemma open_way_exists: "open_way denied d p r \<Longrightarrow> map_of d p \<noteq> None \<Longrightarrow> map_of d (p @ r) \<noteq> None"
proof (induction r arbitrary: p)
  case (Cons x r)
  then show ?case using Cons.IH[of "p @ [x]"] by simp
qed simp

lemma all_matches_findable:
  assumes ok: "disk_ok d" and "map_of d root \<noteq> None"
  shows "(q, b) \<in> set (all_matches denied query kind (walk denied d (Suc (length d)) root))
    \<longleftrightarrow> findable denied d query kind root q b"
proof -
  let ?dirs = "\<lambda>p. filter (\<lambda>x. \<not> denied (p @ [x])) (folders_in d p)"
  have bound: "open_way denied d root r \<Longrightarrow> length r < Suc (length d)" for r
    using depth_bound[OF ok open_way_exists[OF _ assms(2)], of denied r] by simp
  have dirs: "x \<in> set (folders_in d p) \<longleftrightarrow> map_of d (p @ [x]) = Some Folder"
    and files: "x \<in> set (files_in d p) \<longleftrightarrow> (\<exists>c. map_of d (p @ [x]) = Some (Doc c))" for x p
    using children_entries[OF ok, of x _ p]
    by (auto simp: folders_in_def files_in_def image_iff) (metis node.exhaust)+
  have "(q, b) \<in> set (all_matches denied query kind (walk denied d (Suc (length d)) root))
    \<longleftrightarrow> (\<exists>r. open_way denied d root r
          \<and> (q, b) \<in> set (step_matches denied query (root @ r) (candidates kind (?dirs (root @ r)) (files_in d (root @ r)))))"
    (is "_ \<longleftrightarrow> ?steps")
  proof -
    have "(q, b) \<in> set (all_matches denied query kind (walk denied d (Suc (length d)) root)) \<longleftrightarrow>
      (\<exists>p ds fs. (p, ds, fs) \<in> set (walk denied d (Suc (length d)) root) \<and> (q, b) \<in> set (step_matches denied query p (candidates kind ds fs)))"
      by (force simp: all_matches_def simp del: walk.simps)
    then show ?thesis unfolding walk_folders[OF ok] using bound by blast
  qed
  also have "\<dots> \<longleftrightarrow> findable denied d query kind root q b"
  proof
    assume ?steps
    then obtain r x where way: "open_way denied d root r" and q: "q = root @ r @ [x]" "\<not> denied q" "text_contains (py_lower x) query"
      and x: "(x, b) \<in> set (candidates kind (?dirs (root @ r)) (files_in d (root @ r)))"
      by (auto simp: step_matches_def)
    from x consider "b" "kind \<in> {''dir'', ''any''}" "map_of d q = Some Folder"
      | c where "\<not> b" "kind \<in> {''file'', ''any''}" "map_of d q = Some (Doc c)"
      using dirs[of x "root @ r"] files[of x "root @ r"] q(1) by (auto simp: candidates_def split: if_splits)
    then show "findable denied d query kind root q b"
      using way q unfolding findable_def by cases auto
  next
    assume "findable denied d query kind root q b"
    then obtain r x n where q: "q = root @ r @ [x]" "map_of d q = Some n" "b = (n = Folder)" "open_way denied d root r"
      "\<not> denied q" "text_contains (py_lower x) query" "kind \<in> (if b then {''dir'', ''any''} else {''file'', ''any''})"
      unfolding findable_def by blast
    then have "(x, b) \<in> set (candidates kind (?dirs (root @ r)) (files_in d (root @ r)))"
      using dirs[of x "root @ r"] files[of x "root @ r"] by (cases n) (auto simp: candidates_def)
    then have "(q, b) \<in> set (step_matches denied query (root @ r) (candidates kind (?dirs (root @ r)) (files_in d (root @ r))))"
      using q by (force simp: step_matches_def)
    then show ?steps using q(4) by blast
  qed
  finally show ?thesis .
qed

text \<open>
  C20: A search names no protected place and misses nothing else. What it returns are entries below the asked folder whose
  name contains the query, of the asked kind, reached without passing through a denied place; there are at most as many as
  the limit; and when it does not report that it was cut short, it returns every such entry.
\<close>

theorem search_exact:
  assumes "disk_ok d" and "computer_find machine int_of_float args d = Inr (results, truncated)"
    and "dict_get args ''path'' = Some (JStr raw)" and "dict_get args ''query'' = Some (JStr query)"
    and "resolve_user_path (at_disk machine d) True False raw = Inr root"
  shows "(\<forall>(q, b) \<in> set results. findable (is_path_denied (at_disk machine d)) d (py_lower (py_strip query)) (find_kind args) root q b)
    \<and> length results \<le> nat (parse_limit int_of_float 100 200 args)
    \<and> (truncated \<or> (\<forall>q b. findable (is_path_denied (at_disk machine d)) d (py_lower (py_strip query)) (find_kind args) root q b
         \<longrightarrow> (q, b) \<in> set results))"
proof -
  let ?denied = "is_path_denied (at_disk machine d)" and ?q = "py_lower (py_strip query)"
  let ?limit = "parse_limit int_of_float 100 200 args"
  let ?found = "all_matches ?denied ?q (find_kind args) (walk ?denied d (Suc (length d)) root)"
  have "search_steps ?denied ?q (find_kind args) ?limit (walk ?denied d (Suc (length d)) root) [] = (results, truncated)"
    using assms(2-5) by (simp add: computer_find_def Let_def del: walk.simps split: if_splits)
  then have results: "results = take (nat ?limit) ?found" "truncated \<longleftrightarrow> nat ?limit < length ?found"
    by (simp_all add: search_steps_exact Let_def del: walk.simps)
  have found: "(q, b) \<in> set ?found \<longleftrightarrow> findable ?denied d ?q (find_kind args) root q b" for q b
    using all_matches_findable[OF assms(1) resolved_exists[OF assms(5)]] .
  have "findable ?denied d ?q (find_kind args) root q b" if "(q, b) \<in> set results" for q b
    using that results(1) found in_set_takeD by metis
  moreover have "length results \<le> nat ?limit" by (simp add: results(1) del: walk.simps)
  moreover have "(q, b) \<in> set results" if "\<not> truncated" "findable ?denied d ?q (find_kind args) root q b" for q b
    using that results found by (simp del: walk.simps)
  ultimately show ?thesis by blast
qed

lemma search_exact_witness:
  "(case computer_find sample_machine (\<lambda>_. None) (sample_args [(''path'', ''~''), (''query'', ''A.'')]) sample_disk of
      Inr (results, truncated) \<Rightarrow> \<not> truncated \<and> length results = 3
        \<and> (\<forall>(q, b) \<in> set results. findable (is_path_denied (at_disk sample_machine sample_disk)) sample_disk ''a.'' ''any'' [''u'', ''me''] q b)
    | Inl _ \<Rightarrow> False)"
proof -
  let ?args = "sample_args [(''path'', ''~''), (''query'', ''A.'')]"
  have facts: "disk_ok sample_disk" "dict_get ?args ''path'' = Some (JStr ''~'')" "dict_get ?args ''query'' = Some (JStr ''A.'')"
    "resolve_user_path (at_disk sample_machine sample_disk) True False ''~'' = Inr [''u'', ''me'']"
    "py_lower (py_strip ''A.'') = ''a.''" "find_kind ?args = ''any''"
    "computer_find sample_machine (\<lambda>_. None) ?args sample_disk
       = Inr ([([''u'', ''me'', ''a.txt''], False), ([''u'', ''me'', ''docs'', ''a.txt''], False), ([''u'', ''me'', ''old'', ''a.txt''], False)], False)"
    by code_simp+
  show ?thesis using search_exact[OF facts(1,7,2-4)] unfolding facts(5-7) by simp
qed

section \<open>What is opened\<close>

text \<open>
  Nothing that \<open>open\<close> would run is handed to it. When opening a path gets as far as a command, the path is harmless in
  the sense of the hard limits, exists, has no suffix of a program, a script or an installer and no executable bit, and is a
  document or a folder if it is in the workspace; the command is exactly \<open>open\<close> with this path, and an application that
  was asked for is an installed bundle whose name is not one of a terminal or an editor.
\<close>

theorem opened_is_no_program:
  assumes "computer_open_argv m args = Inr (p, app, argv)"
  shows "harmless_place m True p \<and> mc_exists m p \<and> py_lower (path_suffix p) \<notin> set exec_suffixes \<and> \<not> (mc_is_file m p \<and> mc_executable m p)
    \<and> (is_workspace_path m p \<longrightarrow> mc_is_dir m p \<or> py_lower (path_suffix p) \<in> set document_suffixes)
    \<and> (case app of
          None \<Rightarrow> argv = [open_bin, path_str p] \<or> argv = [open_bin, ''-R'', path_str p]
        | Some a \<Rightarrow> remove_suffix ''.app'' (py_lower (py_strip a)) \<notin> set denied_app_names
            \<and> (\<exists>root\<in>set app_roots. \<exists>bundle. bundle_in m (app_bundle_name a) root = Some bundle
                 \<and> argv = [open_bin, ''-a'', path_str bundle, path_str p]))"
proof -
  obtain raw where path: "resolve_user_path m True True raw = Inr p" and openable: "check_openable m p = Inr ()"
    and rest: "case app of None \<Rightarrow> argv = [open_bin, path_str p] \<or> argv = [open_bin, ''-R'', path_str p]
      | Some a \<Rightarrow> \<exists>bundle. resolve_app_bundle m a = Inr bundle \<and> argv = [open_bin, ''-a'', path_str bundle, path_str p]"
    using assms
    by (auto simp: computer_open_argv_def open_path_def open_path_with_app_def
             split: option.splits json.splits if_splits)
  have "mc_exists m p" using path by (auto simp: resolve_user_path_def Let_def split: if_splits)
  moreover have "py_lower (path_suffix p) \<notin> set exec_suffixes \<and> \<not> (mc_is_file m p \<and> mc_executable m p)
    \<and> (is_workspace_path m p \<longrightarrow> mc_is_dir m p \<or> py_lower (path_suffix p) \<in> set document_suffixes)"
    using openable
    by (auto simp: check_openable_def check_not_exec_surface_def check_workspace_document_def split: if_splits)
  moreover have "remove_suffix ''.app'' (py_lower (py_strip a)) \<notin> set denied_app_names
      \<and> (\<exists>root\<in>set app_roots. bundle_in m (app_bundle_name a) root = Some target)" if "resolve_app_bundle m a = Inr target" for a target
  proof -
    have "target \<in> set (List.map_filter (bundle_in m (app_bundle_name a)) app_roots)"
      and "check_app_name_allowed a = Inr ()"
      using that by (auto simp: resolve_app_bundle_def split: if_splits list.splits)
    then show ?thesis by (auto simp: check_app_name_allowed_def map_filter_def split: if_splits)
  qed
  moreover have "harmless_place m True p" using resolve_user_path_ok[OF path] by blast
  ultimately show ?thesis using rest by (cases app) (simp_all, metis)
qed

lemma opened_is_no_program_witness:
  "harmless_place (at_disk sample_machine sample_disk) True [''u'', ''me'', ''a.txt'']
   \<and> (case computer_open_argv (at_disk sample_machine (sample_disk @ [([''u'', ''me'', ''run.SH''], Doc [])]))
        (sample_args [(''path'', ''~/run.SH'')]) of Inl e \<Rightarrow> fst e = KPolicy | Inr _ \<Rightarrow> False)"
proof -
  have "computer_open_argv (at_disk sample_machine sample_disk) (sample_args [(''path'', ''~/a.txt''), (''reveal'', ''true'')])
      = Inr ([''u'', ''me'', ''a.txt''], None, [open_bin, ''-R'', ''/u/me/a.txt''])" by code_simp
  moreover have "(case computer_open_argv (at_disk sample_machine (sample_disk @ [([''u'', ''me'', ''run.SH''], Doc [])]))
      (sample_args [(''path'', ''~/run.SH'')]) of Inl e \<Rightarrow> fst e = KPolicy | Inr _ \<Rightarrow> False)" by code_simp
  ultimately show ?thesis using opened_is_no_program by blast
qed

section \<open>Listing\<close>

lemma scan_entries_clean:
  assumes "scan_entries denied stat hidden limit p es acc = (out, truncated)"
    and "list_all (\<lambda>e. \<not> denied (p @ [ld_name e])) acc" and "int (length acc) \<le> max 0 limit"
  shows "list_all (\<lambda>e. \<not> denied (p @ [ld_name e])) out \<and> int (length out) \<le> max 0 limit"
  using assms
  by (induction denied stat hidden limit p es acc rule: scan_entries.induct) (auto split: if_splits option.splits)

lemma listing_clean:
  assumes "computer_list_dir machine stat int_of_float args d = Inr (p, es, truncated)"
  shows "list_all (\<lambda>e. \<not> is_path_denied (at_disk machine d) (p @ [ld_name e])) es \<and> sorted (map (\<lambda>e. \<not> ld_is_dir e) es)
    \<and> int (length es) \<le> max 0 (parse_limit int_of_float 200 500 args)"
proof -
  obtain found where scan: "scan_entries (is_path_denied (at_disk machine d)) stat (bool_arg args ''include_hidden'')
      (parse_limit int_of_float 200 500 args) p (children d p) [] = (found, truncated)" and es: "es = list_order found"
    using assms by (auto simp: computer_list_dir_def Let_def split: option.splits json.splits if_splits prod.splits)
  from scan_entries_clean[OF scan] es show ?thesis by (simp add: list_order_def list_all_iff)
qed

end
