(* ===== verification/Progress_Tracker.thy ===== *)
theory Progress_Tracker
  imports Goal_Ledger Verdict_Mailbox
begin

text \<open>
  \<open>core/verifier/tracker.py\<close> and \<open>core/verifier/match.py\<close>: the observer that turns the tool calls of a thread into signals
  of suspicion. It keeps a record per thread, the least recently used one is dropped beyond 256, publishes the live signals
  to the mailbox and emits at most one verdict, or one piece of evidence for the judge, per answer of the provider. A Python
  set of paths is a set; the set of latched signals is the list of its members, whose order only names an order in which the
  set may be read. Regular expressions are a parameter. Shown: what each signal says of the calls of the thread, through
  branches, rewinds and evictions. Also shown: hidden files escape the path constraints,
  and reading a churned file makes the tracker forget that it was written.
\<close>

section \<open>Matching\<close>

definition path_keys :: "string list" where
  "path_keys = [''path'', ''file_path'', ''file'', ''filename'', ''dest'', ''destination'', ''target'']"

definition path_list_keys :: "string list" where
  "path_list_keys = [''paths'', ''files'']"

definition command_keys :: "string list" where
  "command_keys = [''command'', ''cmd'', ''script'', ''argv'']"

definition write_tools :: "string list" where
  "write_tools = [''write_file'', ''edit_file'', ''replace_in_file'', ''apply_patch'']"

definition read_tools :: "string list" where
  "read_tools = [''read_file'', ''glob'']"

definition ledger_signal_names :: "string list" where
  "ledger_signal_names = [''constraint_touch'', ''repeat_correction'', ''done_unmet'']"

definition verdict_status :: "string list \<Rightarrow> string \<times> string" where
  \<comment> \<open>the confidence by its text\<close>
  "verdict_status signals =
     (if list_ex (\<lambda>s. s \<in> {''error_streak'', ''done_unmet''}) signals then ''stuck'' else ''drifting'',
      if list_ex (\<lambda>s. s \<in> set ledger_signal_names) signals then ''0.9'' else ''0.6'')"

definition path_args :: "jdict option \<Rightarrow> string list" where
  "path_args args = (case args of None \<Rightarrow> [] | Some d \<Rightarrow>
     List.map_filter (\<lambda>k. case dict_get d k of Some (JStr s) \<Rightarrow> if py_strip s = [] then None else Some (py_strip s) | _ \<Rightarrow> None) path_keys
     @ concat (map (\<lambda>k. case dict_get d k of
          Some (JList items) \<Rightarrow> filter (\<lambda>s. s \<noteq> []) (map (\<lambda>v. py_strip (py_str_json v)) items) | _ \<Rightarrow> []) path_list_keys))"

definition command_text :: "jdict option \<Rightarrow> string" where
  "command_text args = (case args of None \<Rightarrow> [] | Some d \<Rightarrow>
     join_on '' '' (concat (map (\<lambda>k. case dict_get d k of
          Some (JStr s) \<Rightarrow> if py_strip s = [] then [] else [py_strip s]
        | Some (JList items) \<Rightarrow> filter (\<lambda>s. py_strip s \<noteq> []) (map py_str_json items)
        | _ \<Rightarrow> []) command_keys)))"

definition posix :: "string \<Rightarrow> string" where
  \<comment> \<open>\<open>replace\<close> of the backslashes\<close>
  "posix s = map (\<lambda>c. if c = backslash then CHR ''/'' else c) s"

definition strip_dots :: "string \<Rightarrow> string" where
  \<comment> \<open>\<open>lstrip("./")\<close>, which takes off characters and not a prefix\<close>
  "strip_dots s = dropWhile (\<lambda>c. c \<in> {CHR ''.'', CHR ''/''}) s"

definition glob_match :: "string \<Rightarrow> string \<Rightarrow> bool" where
  "glob_match p pattern =
     (let normalized = strip_dots (posix p); pat = posix pattern
      in fnmatchcase normalized pat
         \<or> endswith pat ''/**'' \<and> (let prefix = take (length pat - 3) pat
              in normalized = prefix \<or> startswith normalized (prefix @ ''/'')))"

definition constraint_matches :: "(string \<Rightarrow> string \<Rightarrow> bool option) \<Rightarrow> constraint \<Rightarrow> string \<Rightarrow> jdict option \<Rightarrow> bool" where
  \<comment> \<open>the first argument is \<open>re.search\<close> of a pattern in a text; \<open>None\<close> for a pattern that is no regular expression\<close>
  "constraint_matches search c tool args = (case cn_kind c of
       KFreeText \<Rightarrow> False
     | KToolName \<Rightarrow> tool = cn_pattern c
     | KPathGlob \<Rightarrow> list_ex (\<lambda>p. glob_match p (cn_pattern c)) (path_args args)
     | KCommandRegex \<Rightarrow> command_text args \<noteq> [] \<and> search (cn_pattern c) (command_text args) = Some True)"

definition looks_like_path :: "string \<Rightarrow> bool" where
  "looks_like_path item \<longleftrightarrow> CHR ''/'' \<in> set item \<or> endswith item ''.txt'' \<or> endswith item ''.md''"

definition done_when_satisfied :: "string \<Rightarrow> string list \<Rightarrow> bool" where
  "done_when_satisfied item written =
     (let needle = strip_dots (posix item)
      in needle \<noteq> [] \<and> list_ex (\<lambda>p. let normalized = strip_dots (posix p)
           in normalized = needle \<or> endswith normalized (''/'' @ needle) \<or> glob_match normalized needle) written)"

section \<open>The record of a thread\<close>

record track =
  tk_files_read :: "string set"
  tk_write_counts :: "(string, nat) dict"
  tk_error_streak :: nat
  tk_no_text_turns :: nat
  tk_inner_turn :: int
  tk_emitted :: bool
  tk_seen_tool :: bool
  tk_seen_provider :: bool
  tk_latched :: "string list"
  tk_unread_writes :: "string set"
  tk_churn_paths :: "string set"

definition new_track :: track where
  "new_track = \<lparr>tk_files_read = {}, tk_write_counts = [], tk_error_streak = 0, tk_no_text_turns = 0, tk_inner_turn = 0,
     tk_emitted = False, tk_seen_tool = False, tk_seen_provider = False, tk_latched = [], tk_unread_writes = {},
     tk_churn_paths = {}\<rparr>"

definition rewound :: "track \<Rightarrow> track" where
  \<comment> \<open>what a branch or a shortened conversation keeps: what it knows of the workspace\<close>
  "rewound st = new_track\<lparr>tk_files_read := tk_files_read st, tk_write_counts := tk_write_counts st,
     tk_unread_writes := tk_unread_writes st, tk_churn_paths := tk_churn_paths st\<rparr>"

record tracker_config =
  pt_threshold :: nat
  pt_min_turn :: int

record hook_payload =
  hp_thread :: string
  hp_request :: string
  hp_inner_turn :: "int option"
  hp_tool_name :: "string option"
  hp_tool_args :: "jdict option"
  hp_tool_error :: "string option"
  hp_usage :: "(int \<times> int) option"
  hp_text :: "string option"
  hp_has_tools :: bool
  hp_window :: int

definition latch :: "string \<Rightarrow> string list \<Rightarrow> string list" where
  "latch s l = (if s \<in> set l then l else l @ [s])"

definition unlatch :: "string \<Rightarrow> string list \<Rightarrow> string list" where
  "unlatch s l = filter (\<lambda>x. x \<noteq> s) l"

definition bump :: "(string, nat) dict \<Rightarrow> string \<Rightarrow> (string, nat) dict" where
  "bump d p = dict_set p ((case dict_get d p of None \<Rightarrow> 0 | Some n \<Rightarrow> n) + 1) d"

definition payload_turn :: "hook_payload \<Rightarrow> track \<Rightarrow> int" where
  \<comment> \<open>\<open>payload.inner_turn or state.inner_turn\<close>\<close>
  "payload_turn pl st = (case hp_inner_turn pl of None \<Rightarrow> tk_inner_turn st | Some n \<Rightarrow> if n = 0 then tk_inner_turn st else n)"

definition note_files :: "string \<Rightarrow> string list \<Rightarrow> track \<Rightarrow> track" where
  "note_files tool paths st = st
     \<lparr>tk_files_read := (if tool \<in> set read_tools then tk_files_read st \<union> set paths else tk_files_read st),
      tk_write_counts := (if tool \<in> set write_tools then foldl bump (tk_write_counts st) paths else tk_write_counts st)\<rparr>"

definition note_error :: "tracker_config \<Rightarrow> bool \<Rightarrow> bool \<Rightarrow> track \<Rightarrow> track \<times> string list" where
  "note_error cfg warm failed st =
     (let streak = (if failed then tk_error_streak st + 1 else 0); st1 = st\<lparr>tk_error_streak := streak\<rparr>
      in if warm \<and> pt_threshold cfg \<le> streak
         then (st1\<lparr>tk_latched := latch ''error_streak'' (tk_latched st1)\<rparr>, [''error_streak''])
         else if streak = 0 then (st1\<lparr>tk_latched := unlatch ''error_streak'' (tk_latched st1)\<rparr>, [])
         else (st1, []))"

definition note_unread :: "bool \<Rightarrow> string \<Rightarrow> string list \<Rightarrow> track \<Rightarrow> track \<times> string list" where
  "note_unread warm tool paths st =
     (let unread = filter (\<lambda>p. p \<notin> tk_files_read st) paths
      in if warm \<and> tool \<in> set write_tools \<and> unread \<noteq> []
         then (st\<lparr>tk_latched := latch ''write_without_read'' (tk_latched st),
                  tk_unread_writes := tk_unread_writes st \<union> set unread\<rparr>, [''write_without_read''])
         else (st, []))"

definition note_churn :: "tracker_config \<Rightarrow> bool \<Rightarrow> string \<Rightarrow> string list \<Rightarrow> track \<Rightarrow> track \<times> string list" where
  "note_churn cfg warm tool paths st =
     (let churned = filter (\<lambda>p. pt_threshold cfg \<le> (case dict_get (tk_write_counts st) p of None \<Rightarrow> 0 | Some n \<Rightarrow> n)) paths
      in if warm \<and> tool \<in> set write_tools \<and> churned \<noteq> []
         then (st\<lparr>tk_latched := latch ''rewrite_churn'' (tk_latched st),
                  tk_churn_paths := tk_churn_paths st \<union> set churned\<rparr>, [''rewrite_churn''])
         else (st, []))"

definition settle_unread :: "track \<Rightarrow> track" where
  "settle_unread st =
     (if tk_unread_writes st \<noteq> {} \<and> tk_unread_writes st \<subseteq> tk_files_read st
      then st\<lparr>tk_latched := unlatch ''write_without_read'' (tk_latched st), tk_unread_writes := {}\<rparr> else st)"

definition settle_churn :: "string \<Rightarrow> string list \<Rightarrow> track \<Rightarrow> track" where
  "settle_churn tool paths st =
     (if tk_churn_paths st \<noteq> {} \<and> tk_churn_paths st \<subseteq> tk_files_read st
         \<and> \<not> (tool \<in> set write_tools \<and> list_ex (\<lambda>p. p \<in> tk_churn_paths st) paths)
      then st\<lparr>tk_latched := unlatch ''rewrite_churn'' (tk_latched st),
              tk_write_counts := filter (\<lambda>(p, _). p \<notin> tk_churn_paths st) (tk_write_counts st), tk_churn_paths := {}\<rparr>
      else st)"

definition observe_call :: "tracker_config \<Rightarrow> string \<Rightarrow> string list \<Rightarrow> bool \<Rightarrow> track \<Rightarrow> track \<times> string list" where
  \<comment> \<open>the part of \<open>_observe_tool\<close> that looks at the call alone: the new record and what fires\<close>
  "observe_call cfg tool paths failed st =
     (let warm = tk_seen_tool st;
          (st1, f1) = note_error cfg warm failed (note_files tool paths st);
          (st2, f2) = note_unread warm tool paths st1;
          (st3, f3) = note_churn cfg warm tool paths st2
      in (settle_churn tool paths (settle_unread st3), f1 @ f2 @ f3))"

section \<open>The tracker\<close>

record evidence =
  ev_thread :: string
  ev_request :: string
  ev_inner_turn :: int
  ev_signals :: "string list"
  ev_epochs :: "(string \<times> int) list"

record tracker =
  tr_by_thread :: "(string, track) dict"
  tr_mailbox :: mailbox
  tr_judge :: "evidence list option"
  tr_agent_tokens :: "(string \<times> string \<times> int) list"
  \<comment> \<open>what the judge was given, oldest first, when there is a judge, and the tokens it was told of\<close>

definition new_tracker :: "bool \<Rightarrow> mailbox \<Rightarrow> tracker" where
  "new_tracker judge mb = \<lparr>tr_by_thread = [], tr_mailbox = mb, tr_judge = (if judge then Some [] else None), tr_agent_tokens = []\<rparr>"

definition thread_state_cap :: nat where
  "thread_state_cap = 256"

definition track_of :: "string \<Rightarrow> tracker \<Rightarrow> track" where
  "track_of th tr = (case dict_get (tr_by_thread tr) th of None \<Rightarrow> new_track | Some st \<Rightarrow> st)"

definition touch_state :: "string \<Rightarrow> tracker \<Rightarrow> tracker" where
  \<comment> \<open>\<open>_state\<close>: move to the end, or begin and drop the oldest beyond the cap\<close>
  "touch_state th tr =
     (if dict_get (tr_by_thread tr) th \<noteq> None then tr\<lparr>tr_by_thread := move_to_end th (tr_by_thread tr)\<rparr>
      else tr\<lparr>tr_by_thread := trim_oldest thread_state_cap (tr_by_thread tr @ [(th, new_track)])\<rparr>)"

definition set_track :: "string \<Rightarrow> track \<Rightarrow> tracker \<Rightarrow> tracker" where
  "set_track th st tr = tr\<lparr>tr_by_thread := dict_set th st (tr_by_thread tr)\<rparr>"

definition fork_thread :: "string \<Rightarrow> string \<Rightarrow> tracker \<Rightarrow> tracker" where
  "fork_thread source target tr = (case dict_get (tr_by_thread tr) source of
       None \<Rightarrow> tr\<lparr>tr_by_thread := dict_pop target (tr_by_thread tr)\<rparr>
     | Some st \<Rightarrow> tr\<lparr>tr_by_thread := trim_oldest thread_state_cap (store_last target (rewound st) (tr_by_thread tr))\<rparr>)"

definition reset_conversation_state :: "string \<Rightarrow> tracker \<Rightarrow> tracker" where
  "reset_conversation_state th tr = (case dict_get (tr_by_thread tr) th of
       None \<Rightarrow> tr | Some st \<Rightarrow> set_track th (rewound st) tr)"

definition forget_thread :: "string \<Rightarrow> tracker \<Rightarrow> tracker" where
  "forget_thread th tr = tr\<lparr>tr_by_thread := dict_pop th (tr_by_thread tr)\<rparr>"

definition touched_signal :: "resolved_intent \<Rightarrow> constraint \<Rightarrow> string" where
  \<comment> \<open>the count of the first correction with the key of the constraint\<close>
  "touched_signal view c =
     (case List.find (\<lambda>(keyed, _). match_key keyed = match_key c) (ri_corrections view) of
        Some (_, n) \<Rightarrow> if 1 \<le> n then ''repeat_correction'' else ''constraint_touch''
      | None \<Rightarrow> ''constraint_touch'')"

definition ledger_signals ::
    "(string \<Rightarrow> string \<Rightarrow> bool option) \<Rightarrow> resolved_intent option \<Rightarrow> string list \<Rightarrow> string \<Rightarrow> jdict option \<Rightarrow> bool \<Rightarrow> string list" where
  \<comment> \<open>for the view of the ledger, when there is one, and the paths written by the thread\<close>
  "ledger_signals search view written tool args turn_end = (case view of
       None \<Rightarrow> []
     | Some v \<Rightarrow> ordered_signals
         ((if tool \<noteq> [] then map (touched_signal v) (filter (\<lambda>c. constraint_matches search c tool args) (ri_standing v)) else [])
          @ (if turn_end \<and> (case ri_active v of None \<Rightarrow> False | Some goal \<Rightarrow>
                list_ex (\<lambda>item. looks_like_path item \<and> \<not> done_when_satisfied item written) (ge_done_when goal))
             then [''done_unmet''] else [])))"

definition publish_signals :: "hook_payload \<Rightarrow> string list \<Rightarrow> tracker \<Rightarrow> tracker" where
  "publish_signals pl signals tr =
     tr\<lparr>tr_mailbox := set_current_signals (hp_thread pl) (hp_request pl) signals (tr_mailbox tr)\<rparr>"

definition emitted_signals :: "tracker_config \<Rightarrow> int \<Rightarrow> string list \<Rightarrow> string list" where
  \<comment> \<open>signals of the ledger first; the others not before the configured turn\<close>
  "emitted_signals cfg inner signals =
     filter (\<lambda>s. s \<in> set ledger_signal_names) signals
     @ (if inner < pt_min_turn cfg then [] else filter (\<lambda>s. s \<notin> set ledger_signal_names) signals)"

definition tracker_verdict :: "string \<Rightarrow> hook_payload \<Rightarrow> int \<Rightarrow> string list \<Rightarrow> (string \<times> int) list \<Rightarrow> verdict" where
  \<comment> \<open>the first argument is the random id\<close>
  "tracker_verdict vid pl inner signals epochs = \<lparr>vd_request_id = hp_request pl, vd_verdict_id = vid,
     vd_checkpoint_id = hp_request pl @ '':'' @ str_of_int inner, vd_status = fst (verdict_status signals),
     vd_severity = ''none'', vd_confidence = snd (verdict_status signals), vd_rationale = join_on '', '' signals,
     vd_correction = None, vd_signals = signals, vd_signal_epochs = epochs, vd_judge_tokens = 0\<rparr>"

definition maybe_emit :: "tracker_config \<Rightarrow> string \<Rightarrow> hook_payload \<Rightarrow> string list \<Rightarrow> tracker \<Rightarrow> tracker" where
  "maybe_emit cfg vid pl signals tr =
     (let st = track_of (hp_thread pl) tr;
          inner = (if payload_turn pl st = 0 then 1 else payload_turn pl st);
          out = emitted_signals cfg inner signals;
          epochs = signal_epochs (hp_thread pl) (hp_request pl) out (tr_mailbox tr);
          marked = set_track (hp_thread pl) (st\<lparr>tk_emitted := True\<rparr>) tr
      in if signals = [] \<or> tk_emitted st \<or> out = [] then tr
         else (case tr_judge tr of
             Some sent \<Rightarrow> marked\<lparr>tr_judge := Some (sent @ [\<lparr>ev_thread = hp_thread pl, ev_request = hp_request pl,
               ev_inner_turn = inner, ev_signals = out, ev_epochs = epochs\<rparr>])\<rparr>
           | None \<Rightarrow> marked\<lparr>tr_mailbox :=
               snd (mailbox_put (hp_thread pl) (tracker_verdict vid pl inner out epochs) (tr_mailbox tr))\<rparr>))"

definition text_or_empty :: "string option \<Rightarrow> string" where
  "text_or_empty s = (case s of None \<Rightarrow> [] | Some t \<Rightarrow> t)"

definition observe_tool ::
    "tracker_config \<Rightarrow> (string \<Rightarrow> string \<Rightarrow> bool option) \<Rightarrow> resolved_intent option \<Rightarrow> string \<Rightarrow> hook_payload \<Rightarrow> tracker \<Rightarrow> tracker" where
  "observe_tool cfg search view vid pl tr =
     (let th = hp_thread pl; tr1 = touch_state th tr; st = track_of th tr1;
          tool = text_or_empty (hp_tool_name pl); paths = path_args (hp_tool_args pl);
          failed = (hp_tool_error pl \<noteq> None \<and> hp_tool_error pl \<noteq> Some []);
          (st1, fired) = observe_call cfg tool paths failed (st\<lparr>tk_inner_turn := payload_turn pl st\<rparr>);
          ledger = ledger_signals search view (map fst (tk_write_counts st1)) tool (hp_tool_args pl) False;
          st2 = st1\<lparr>tk_latched := foldl (\<lambda>l s. latch s l) (tk_latched st1) ledger, tk_seen_tool := True\<rparr>
      in maybe_emit cfg vid pl (fired @ ledger) (publish_signals pl (tk_latched st2) (set_track th st2 tr1)))"

definition observe_provider :: "hook_payload \<Rightarrow> tracker \<Rightarrow> tracker" where
  \<comment> \<open>its other two signals are only written to the log\<close>
  "observe_provider pl tr =
     (let th = hp_thread pl; tr1 = touch_state th tr; st = track_of th tr1;
          tokens = (case hp_usage pl of None \<Rightarrow> 0 | Some (i, out) \<Rightarrow> i + out);
          st1 = st\<lparr>tk_inner_turn := payload_turn pl st, tk_emitted := False,
                   tk_no_text_turns := (if hp_has_tools pl \<and> py_strip (text_or_empty (hp_text pl)) = []
                                        then tk_no_text_turns st + 1 else 0),
                   tk_seen_provider := True\<rparr>
      in set_track th st1 (if tr_judge tr1 \<noteq> None \<and> tokens \<noteq> 0
           then tr1\<lparr>tr_agent_tokens := tr_agent_tokens tr1 @ [(th, hp_request pl, tokens)]\<rparr> else tr1))"

definition observe_turn_end ::
    "tracker_config \<Rightarrow> (string \<Rightarrow> string \<Rightarrow> bool option) \<Rightarrow> resolved_intent option \<Rightarrow> string \<Rightarrow> hook_payload \<Rightarrow> tracker \<Rightarrow> tracker" where
  "observe_turn_end cfg search view vid pl tr =
     (let th = hp_thread pl;
          signals = ledger_signals search view (map fst (tk_write_counts (track_of th tr))) [] None True;
          tr1 = touch_state th tr; st = track_of th tr1;
          st1 = st\<lparr>tk_latched := (if signals \<noteq> [] then foldl (\<lambda>l s. latch s l) (tk_latched st) signals
                                  else unlatch ''done_unmet'' (tk_latched st))\<rparr>
      in maybe_emit cfg vid pl signals (publish_signals pl (tk_latched st1) (set_track th st1 tr1)))"

datatype tracker_event =
    Tool "resolved_intent option" string hook_payload
  | Provider hook_payload
  | Turn_End "resolved_intent option" string hook_payload
  | Fork string string
  | Reset string
  | Forget string
  | Other_Mail mailbox

fun tracker_step ::
    "tracker_config \<Rightarrow> (string \<Rightarrow> string \<Rightarrow> bool option) \<Rightarrow> tracker_event \<Rightarrow> tracker \<Rightarrow> tracker" where
  \<comment> \<open>whoever else uses the mailbox may leave it as it likes\<close>
  "tracker_step cfg search (Tool view vid pl) tr = observe_tool cfg search view vid pl tr"
| "tracker_step cfg search (Provider pl) tr = observe_provider pl tr"
| "tracker_step cfg search (Turn_End view vid pl) tr = observe_turn_end cfg search view vid pl tr"
| "tracker_step cfg search (Fork s t) tr = fork_thread s t tr"
| "tracker_step cfg search (Reset th) tr = reset_conversation_state th tr"
| "tracker_step cfg search (Forget th) tr = forget_thread th tr"
| "tracker_step cfg search (Other_Mail mb) tr = tr\<lparr>tr_mailbox := mb\<rparr>"

section \<open>The history of a thread\<close>

datatype seen = Call string "string list" bool | Rewound
  \<comment> \<open>a call with its tool, its paths and whether it failed; a branch or a shortened conversation\<close>

definition reads :: "string \<Rightarrow> seen list \<Rightarrow> bool" where
  "reads p h \<longleftrightarrow> (\<exists>tool paths e. Call tool paths e \<in> set h \<and> tool \<in> set read_tools \<and> p \<in> set paths)"

fun writes :: "string \<Rightarrow> seen list \<Rightarrow> nat" where
  \<comment> \<open>how often a path was written\<close>
  "writes p [] = 0"
| "writes p (Call tool paths _ # h) = (if tool \<in> set write_tools then count_list paths p else 0) + writes p h"
| "writes p (Rewound # h) = writes p h"

definition recent :: "seen list \<Rightarrow> seen list" where
  \<comment> \<open>the calls since the last rewind\<close>
  "recent h = rev (takeWhile (\<lambda>s. s \<noteq> Rewound) (rev h))"

fun call_failed :: "seen \<Rightarrow> bool" where
  "call_failed (Call _ _ e) = e"
| "call_failed Rewound = False"

definition failing_run :: "seen list \<Rightarrow> nat" where
  "failing_run h = length (takeWhile call_failed (rev (recent h)))"

definition written_warm :: "string \<Rightarrow> seen list \<Rightarrow> bool" where
  \<comment> \<open>written by a call that is not the first since the last rewind\<close>
  "written_warm p h \<longleftrightarrow> (\<exists>tool paths e. Call tool paths e \<in> set (tl (recent h)) \<and> tool \<in> set write_tools \<and> p \<in> set paths)"

lemma reads_Nil [simp]: "\<not> reads p []"
  by (simp add: reads_def)

lemma reads_snoc [simp]:
  "reads p (h @ [Call tool paths e]) \<longleftrightarrow> reads p h \<or> tool \<in> set read_tools \<and> p \<in> set paths"
  "reads p (h @ [Rewound]) \<longleftrightarrow> reads p h"
  by (auto simp: reads_def)

lemma writes_append [simp]: "writes p (h @ g) = writes p h + writes p g"
  by (induction h rule: writes.induct) simp_all

lemma recent_snoc [simp]: "recent [] = []" "recent (h @ [Call tool paths e]) = recent h @ [Call tool paths e]" "recent (h @ [Rewound]) = []"
  by (simp_all add: recent_def)

lemma failing_run_snoc [simp]: "failing_run [] = 0" "failing_run (h @ [Rewound]) = 0"
  "failing_run (h @ [Call tool paths e]) = (if e then failing_run h + 1 else 0)"
  by (simp_all add: failing_run_def)

lemma written_warm_snoc [simp]: "\<not> written_warm p []" "\<not> written_warm p (h @ [Rewound])"
  "written_warm p (h @ [Call tool paths e]) \<longleftrightarrow>
     written_warm p h \<or> recent h \<noteq> [] \<and> tool \<in> set write_tools \<and> p \<in> set paths"
  by (auto simp: written_warm_def tl_append split: list.splits)

definition backed :: "tracker_config \<Rightarrow> seen list \<Rightarrow> track \<Rightarrow> bool" where
  \<comment> \<open>what the record of a thread says is so in its history\<close>
  "backed cfg h st \<longleftrightarrow>
     tk_files_read st = {p. reads p h}
     \<and> (tk_seen_tool st \<longleftrightarrow> recent h \<noteq> [])
     \<and> tk_error_streak st = failing_run h
     \<and> (''error_streak'' \<in> set (tk_latched st) \<longleftrightarrow> pt_threshold cfg \<le> failing_run h \<and> 2 \<le> length (recent h))
     \<and> tk_unread_writes st \<subseteq> {p. 0 < writes p h}
     \<and> (''write_without_read'' \<in> set (tk_latched st) \<longrightarrow> \<not> tk_unread_writes st \<subseteq> tk_files_read st)
     \<and> (\<forall>p. written_warm p h \<longrightarrow> \<not> reads p h \<longrightarrow> p \<in> tk_unread_writes st \<and> ''write_without_read'' \<in> set (tk_latched st))
     \<and> (\<forall>p. (case dict_get (tk_write_counts st) p of None \<Rightarrow> 0 | Some n \<Rightarrow> n) \<le> writes p h)
     \<and> tk_churn_paths st \<subseteq> {p. pt_threshold cfg \<le> writes p h}
     \<and> (''rewrite_churn'' \<in> set (tk_latched st) \<longrightarrow> tk_churn_paths st \<noteq> {})"

lemma latch_set [simp]: "set (latch s l) = insert s (set l)" "set (unlatch s l) = set l - {s}"
  by (auto simp: latch_def unlatch_def)

lemma latches_set [simp]: "set (foldl (\<lambda>l s. latch s l) l ss) = set l \<union> set ss"
  by (induction ss arbitrary: l) auto

lemma bumps: "(case dict_get (foldl bump d ps) p of None \<Rightarrow> 0 | Some n \<Rightarrow> n)
    = (case dict_get d p of None \<Rightarrow> 0 | Some n \<Rightarrow> n) + count_list ps p"
  by (induction ps arbitrary: d) (auto simp: bump_def split: option.splits)

lemma backed_new: "0 < pt_threshold cfg \<Longrightarrow> backed cfg [] new_track"
  by (simp add: backed_def new_track_def)

lemma backed_rewound:
  assumes "0 < pt_threshold cfg" and "backed cfg h st"
  shows "backed cfg (h @ [Rewound]) (rewound st)"
  using assms by (simp add: backed_def rewound_def new_track_def)

lemma core_names: "''error_streak'' \<noteq> ''write_without_read''" "''error_streak'' \<noteq> ''rewrite_churn''" "''write_without_read'' \<noteq> ''rewrite_churn''"
  by simp_all

lemma backed_other_fields:
  assumes "backed cfg h st"
    and "tk_files_read st' = tk_files_read st" "tk_write_counts st' = tk_write_counts st" "tk_error_streak st' = tk_error_streak st"
      "tk_seen_tool st' = tk_seen_tool st" "tk_unread_writes st' = tk_unread_writes st" "tk_churn_paths st' = tk_churn_paths st"
    and "\<And>s. s \<in> {''error_streak'', ''write_without_read'', ''rewrite_churn''} \<Longrightarrow> s \<in> set (tk_latched st') \<longleftrightarrow> s \<in> set (tk_latched st)"
  shows "backed cfg h st'"
  using assms(1) assms(8)[of "''error_streak''"] assms(8)[of "''write_without_read''"] assms(8)[of "''rewrite_churn''"]
  unfolding backed_def assms(2-7) by auto

lemma note_files_backed:
  assumes "backed cfg h st"
  shows "tk_files_read (note_files tool paths st) = {p. reads p (h @ [Call tool paths e])}"
    and "(case dict_get (tk_write_counts (note_files tool paths st)) p of None \<Rightarrow> 0 | Some n \<Rightarrow> n) \<le> writes p (h @ [Call tool paths e])"
  using assms by (auto simp: note_files_def backed_def bumps)

lemma note_files_fields [simp]:
  "tk_error_streak (note_files tool paths st) = tk_error_streak st" "tk_latched (note_files tool paths st) = tk_latched st"
  "tk_seen_tool (note_files tool paths st) = tk_seen_tool st" "tk_unread_writes (note_files tool paths st) = tk_unread_writes st"
  "tk_churn_paths (note_files tool paths st) = tk_churn_paths st" "tk_emitted (note_files tool paths st) = tk_emitted st"
  by (simp_all add: note_files_def)

lemma note_error_fields [simp]:
  "tk_files_read (fst (note_error cfg warm failed st)) = tk_files_read st"
  "tk_write_counts (fst (note_error cfg warm failed st)) = tk_write_counts st"
  "tk_seen_tool (fst (note_error cfg warm failed st)) = tk_seen_tool st"
  "tk_unread_writes (fst (note_error cfg warm failed st)) = tk_unread_writes st"
  "tk_churn_paths (fst (note_error cfg warm failed st)) = tk_churn_paths st"
  "tk_emitted (fst (note_error cfg warm failed st)) = tk_emitted st"
  "tk_error_streak (fst (note_error cfg warm failed st)) = (if failed then tk_error_streak st + 1 else 0)"
  "s \<in> set (tk_latched (fst (note_error cfg warm failed st))) \<longleftrightarrow>
     (if s = ''error_streak''
      then warm \<and> pt_threshold cfg \<le> (if failed then tk_error_streak st + 1 else 0) \<or> failed \<and> s \<in> set (tk_latched st)
      else s \<in> set (tk_latched st))"
  by (auto simp: note_error_def Let_def)

lemma note_unread_fields [simp]:
  "tk_files_read (fst (note_unread warm tool paths st)) = tk_files_read st"
  "tk_write_counts (fst (note_unread warm tool paths st)) = tk_write_counts st"
  "tk_seen_tool (fst (note_unread warm tool paths st)) = tk_seen_tool st"
  "tk_churn_paths (fst (note_unread warm tool paths st)) = tk_churn_paths st"
  "tk_emitted (fst (note_unread warm tool paths st)) = tk_emitted st"
  "tk_error_streak (fst (note_unread warm tool paths st)) = tk_error_streak st"
  "tk_unread_writes (fst (note_unread warm tool paths st)) = tk_unread_writes st
     \<union> (if warm \<and> tool \<in> set write_tools then {p \<in> set paths. p \<notin> tk_files_read st} else {})"
  "s \<in> set (tk_latched (fst (note_unread warm tool paths st))) \<longleftrightarrow> s \<in> set (tk_latched st)
     \<or> s = ''write_without_read'' \<and> warm \<and> tool \<in> set write_tools \<and> (\<exists>p\<in>set paths. p \<notin> tk_files_read st)"
  by (auto simp: note_unread_def Let_def filter_empty_conv)

lemma note_churn_fields [simp]:
  "tk_files_read (fst (note_churn cfg warm tool paths st)) = tk_files_read st"
  "tk_write_counts (fst (note_churn cfg warm tool paths st)) = tk_write_counts st"
  "tk_seen_tool (fst (note_churn cfg warm tool paths st)) = tk_seen_tool st"
  "tk_unread_writes (fst (note_churn cfg warm tool paths st)) = tk_unread_writes st"
  "tk_emitted (fst (note_churn cfg warm tool paths st)) = tk_emitted st"
  "tk_error_streak (fst (note_churn cfg warm tool paths st)) = tk_error_streak st"
  "tk_churn_paths (fst (note_churn cfg warm tool paths st)) = tk_churn_paths st
     \<union> (if warm \<and> tool \<in> set write_tools then {p \<in> set paths. pt_threshold cfg
          \<le> (case dict_get (tk_write_counts st) p of None \<Rightarrow> 0 | Some n \<Rightarrow> n)} else {})"
  "s \<in> set (tk_latched (fst (note_churn cfg warm tool paths st))) \<longleftrightarrow> s \<in> set (tk_latched st)
     \<or> s = ''rewrite_churn'' \<and> warm \<and> tool \<in> set write_tools \<and> (\<exists>p\<in>set paths. pt_threshold cfg
          \<le> (case dict_get (tk_write_counts st) p of None \<Rightarrow> 0 | Some n \<Rightarrow> n))"
  by (auto simp: note_churn_def Let_def filter_empty_conv)

lemma settle_unread_fields [simp]:
  "tk_files_read (settle_unread st) = tk_files_read st" "tk_write_counts (settle_unread st) = tk_write_counts st"
  "tk_seen_tool (settle_unread st) = tk_seen_tool st" "tk_churn_paths (settle_unread st) = tk_churn_paths st"
  "tk_emitted (settle_unread st) = tk_emitted st" "tk_error_streak (settle_unread st) = tk_error_streak st"
  "tk_unread_writes (settle_unread st) = (if tk_unread_writes st \<subseteq> tk_files_read st then {} else tk_unread_writes st)"
  "s \<in> set (tk_latched (settle_unread st)) \<longleftrightarrow> s \<in> set (tk_latched st)
     \<and> \<not> (s = ''write_without_read'' \<and> tk_unread_writes st \<noteq> {} \<and> tk_unread_writes st \<subseteq> tk_files_read st)"
  by (auto simp: settle_unread_def)

definition churn_settled :: "string \<Rightarrow> string list \<Rightarrow> track \<Rightarrow> bool" where
  "churn_settled tool paths st \<longleftrightarrow> tk_churn_paths st \<noteq> {} \<and> tk_churn_paths st \<subseteq> tk_files_read st
     \<and> \<not> (tool \<in> set write_tools \<and> list_ex (\<lambda>p. p \<in> tk_churn_paths st) paths)"

lemma settle_churn_fields [simp]:
  "tk_files_read (settle_churn tool paths st) = tk_files_read st"
  "tk_seen_tool (settle_churn tool paths st) = tk_seen_tool st" "tk_unread_writes (settle_churn tool paths st) = tk_unread_writes st"
  "tk_emitted (settle_churn tool paths st) = tk_emitted st" "tk_error_streak (settle_churn tool paths st) = tk_error_streak st"
  "tk_write_counts (settle_churn tool paths st) =
     (if churn_settled tool paths st then filter (\<lambda>(p, _). p \<notin> tk_churn_paths st) (tk_write_counts st) else tk_write_counts st)"
  "tk_churn_paths (settle_churn tool paths st) = (if churn_settled tool paths st then {} else tk_churn_paths st)"
  "s \<in> set (tk_latched (settle_churn tool paths st)) \<longleftrightarrow> s \<in> set (tk_latched st)
     \<and> \<not> (s = ''rewrite_churn'' \<and> churn_settled tool paths st)"
  by (auto simp: settle_churn_def churn_settled_def)

lemma observe_call_stages:
  "observe_call cfg tool paths failed st =
    (let warm = tk_seen_tool st; a = note_error cfg warm failed (note_files tool paths st);
         b = note_unread warm tool paths (fst a); c = note_churn cfg warm tool paths (fst b)
     in (settle_churn tool paths (settle_unread (fst c)), snd a @ snd b @ snd c))"
  by (simp add: observe_call_def Let_def case_prod_beta)

lemma filtered_lookup: "dict_get (filter (\<lambda>(p, _). p \<notin> C) d) q = (if q \<in> C then None else dict_get d q)"
  by (induction d) auto

lemma filtered_count:
  "(case dict_get (filter (\<lambda>(p, _). p \<notin> C) d) q of None \<Rightarrow> 0 | Some n \<Rightarrow> (n::nat)) \<le> (case dict_get d q of None \<Rightarrow> 0 | Some n \<Rightarrow> n)"
  by (simp add: filtered_lookup)

lemma backed_call:
  assumes pos: "0 < pt_threshold cfg" and b: "backed cfg h st"
  shows "backed cfg (h @ [Call tool paths failed]) ((fst (observe_call cfg tool paths failed st))\<lparr>tk_seen_tool := True\<rparr>)"
proof -
  let ?h = "h @ [Call tool paths failed]"
  let ?st0 = "note_files tool paths st"
  let ?count = "\<lambda>d p. case dict_get d p of None \<Rightarrow> 0 | Some n \<Rightarrow> (n :: nat)"
  note read = note_files_backed(1)[OF b, of tool paths failed] and count = note_files_backed(2)[OF b, of tool paths _ failed]
  note old = b[unfolded backed_def]
  have counted: "pt_threshold cfg \<le> ?count (tk_write_counts ?st0) p \<Longrightarrow> pt_threshold cfg \<le> writes p ?h" for p
    using count[of p] by linarith
  have warm: "tk_seen_tool st \<longleftrightarrow> recent h \<noteq> []" using old by blast
  have len: "recent h \<noteq> [] \<longleftrightarrow> 2 \<le> length (recent ?h)" by (cases "recent h") simp_all
  have grow: "writes p h \<le> writes p ?h" for p by simp
  define a where "a = fst (note_error cfg (tk_seen_tool st) failed ?st0)"
  define c where "c = fst (note_churn cfg (tk_seen_tool st) tool paths (fst (note_unread (tk_seen_tool st) tool paths a)))"
  have files: "tk_files_read c = {p. reads p ?h}" and counts: "tk_write_counts c = tk_write_counts ?st0"
    unfolding c_def a_def using read by simp_all
  have unread: "tk_unread_writes c = tk_unread_writes st
      \<union> (if recent h \<noteq> [] \<and> tool \<in> set write_tools then {p \<in> set paths. \<not> reads p ?h} else {})"
    unfolding c_def a_def using warm read by auto
  have unread_latched: "''write_without_read'' \<in> set (tk_latched c) \<longleftrightarrow> ''write_without_read'' \<in> set (tk_latched st)
      \<or> recent h \<noteq> [] \<and> tool \<in> set write_tools \<and> (\<exists>p\<in>set paths. \<not> reads p ?h)"
    unfolding c_def a_def using warm read by auto
  have churn: "tk_churn_paths c = tk_churn_paths st
      \<union> (if recent h \<noteq> [] \<and> tool \<in> set write_tools then {p \<in> set paths. pt_threshold cfg \<le> ?count (tk_write_counts ?st0) p} else {})"
    unfolding c_def a_def using warm by auto
  have churn_latched: "''rewrite_churn'' \<in> set (tk_latched c) \<longleftrightarrow> ''rewrite_churn'' \<in> set (tk_latched st)
      \<or> recent h \<noteq> [] \<and> tool \<in> set write_tools \<and> (\<exists>p\<in>set paths. pt_threshold cfg \<le> ?count (tk_write_counts ?st0) p)"
    unfolding c_def a_def using warm by auto
  have streak: "tk_error_streak c = failing_run ?h" "''error_streak'' \<in> set (tk_latched c) \<longleftrightarrow>
      pt_threshold cfg \<le> failing_run ?h \<and> 2 \<le> length (recent ?h)"
    unfolding c_def a_def using old warm len pos by auto
  have unread_old: "''write_without_read'' \<in> set (tk_latched st) \<Longrightarrow> tk_unread_writes st \<noteq> {}"
    and churn_old: "''rewrite_churn'' \<in> set (tk_latched st) \<Longrightarrow> tk_churn_paths st \<noteq> {}"
    using old by auto
  have result: "fst (observe_call cfg tool paths failed st) = settle_churn tool paths (settle_unread c)"
    unfolding c_def a_def observe_call_stages Let_def by simp
  have kept: "p \<in> tk_unread_writes c \<and> ''write_without_read'' \<in> set (tk_latched c)"
    if "written_warm p ?h" "\<not> reads p ?h" for p
  proof -
    have "\<not> reads p h" using that(2) by simp
    then have "written_warm p h \<Longrightarrow> p \<in> tk_unread_writes st \<and> ''write_without_read'' \<in> set (tk_latched st)" using old by blast
    moreover have "written_warm p h \<or> recent h \<noteq> [] \<and> tool \<in> set write_tools \<and> p \<in> set paths"
      using that(1) unfolding written_warm_snoc .
    ultimately show ?thesis using that(2) unfolding unread unread_latched by auto
  qed
  have "tk_unread_writes st \<subseteq> {p. 0 < writes p ?h}" "tk_churn_paths st \<subseteq> {p. pt_threshold cfg \<le> writes p ?h}"
    using old grow by (blast intro: less_le_trans le_trans)+
  moreover have "p \<in> set paths \<Longrightarrow> tool \<in> set write_tools \<Longrightarrow> 0 < writes p ?h" for p
    using count_list_0_iff[of paths p] by (cases "count_list paths p") simp_all
  ultimately have written: "tk_unread_writes c \<subseteq> {p. 0 < writes p ?h}"
    and churned: "tk_churn_paths c \<subseteq> {p. pt_threshold cfg \<le> writes p ?h}"
    using counted unfolding unread churn by (auto simp: count_list_0_iff)
  have some_unread: "tk_unread_writes c \<noteq> {}" if "''write_without_read'' \<in> set (tk_latched c)"
    using that unread unread_old unfolding unread_latched by fastforce
  have some_churn: "tk_churn_paths c \<noteq> {}" if "''rewrite_churn'' \<in> set (tk_latched c)"
    using that churn churn_old unfolding churn_latched by fastforce
  show ?thesis
    unfolding backed_def result
    apply (intro conjI)
    subgoal using files by simp
    subgoal by simp
    subgoal using streak by simp
    subgoal using streak by simp
    subgoal using written by auto
    subgoal using some_unread by (simp add: files)
    subgoal using kept by (auto simp: files)
    subgoal using le_trans[OF filtered_count count] count by (simp add: counts)
    subgoal using churned by auto
    subgoal using some_churn by simp
    done
qed

section \<open>All threads\<close>

definition call_failed_flag :: "hook_payload \<Rightarrow> bool" where
  "call_failed_flag pl \<longleftrightarrow> hp_tool_error pl \<noteq> None \<and> hp_tool_error pl \<noteq> Some []"

definition call_of :: "hook_payload \<Rightarrow> seen" where
  "call_of pl = Call (text_or_empty (hp_tool_name pl)) (path_args (hp_tool_args pl)) (call_failed_flag pl)"

definition known :: "tracker \<Rightarrow> (string \<Rightarrow> seen list) \<Rightarrow> string \<Rightarrow> seen list" where
  \<comment> \<open>a thread without a record starts afresh\<close>
  "known tr H th = (if dict_get (tr_by_thread tr) th = None then [] else H th)"

fun history_step :: "tracker_event \<Rightarrow> tracker \<Rightarrow> (string \<Rightarrow> seen list) \<Rightarrow> string \<Rightarrow> seen list" where
  "history_step (Tool view vid pl) tr H = H(hp_thread pl := known tr H (hp_thread pl) @ [call_of pl])"
| "history_step (Provider pl) tr H = H(hp_thread pl := known tr H (hp_thread pl))"
| "history_step (Turn_End view vid pl) tr H = H(hp_thread pl := known tr H (hp_thread pl))"
| "history_step (Fork s t) tr H = H(t := known tr H s @ [Rewound])"
| "history_step (Reset th) tr H = H(th := known tr H th @ [Rewound])"
| "history_step (Forget th) tr H = H"
| "history_step (Other_Mail mb) tr H = H"

fun observed ::
    "tracker_config \<Rightarrow> (string \<Rightarrow> string \<Rightarrow> bool option) \<Rightarrow> tracker_event list \<Rightarrow> tracker \<times> (string \<Rightarrow> seen list)
      \<Rightarrow> tracker \<times> (string \<Rightarrow> seen list)" where
  \<comment> \<open>a run of the tracker, with the history each of its records stands for\<close>
  "observed cfg search [] w = w"
| "observed cfg search (ev # evs) (tr, H) = observed cfg search evs (tracker_step cfg search ev tr, history_step ev tr H)"

definition all_backed :: "tracker_config \<Rightarrow> (string \<Rightarrow> seen list) \<Rightarrow> tracker \<Rightarrow> bool" where
  "all_backed cfg H tr \<longleftrightarrow> dict_ok (tr_by_thread tr)
     \<and> (\<forall>th st. dict_get (tr_by_thread tr) th = Some st \<longrightarrow> backed cfg (H th) st)"

lemma dict_get_trim:
  assumes "dict_ok d" and "dict_get (trim_oldest n d) k = Some v"
  shows "dict_get d k = Some v"
  using dict_entries[OF assms(1), of k v] dict_entries[of "trim_oldest n d" k v] assms set_trim_oldest[of n d] by auto

lemma all_backed_set:
  assumes "all_backed cfg H tr" and "backed cfg h st"
  shows "all_backed cfg (H(th := h)) (set_track th st tr)"
  using assms by (auto simp: all_backed_def set_track_def)

lemma set_track_mail [simp]: "tr_mailbox (set_track th st tr) = tr_mailbox tr" "tr_judge (set_track th st tr) = tr_judge tr"
  by (simp_all add: set_track_def)

lemma track_of_set [simp]: "track_of th (set_track th st tr) = st"
  by (simp add: track_of_def set_track_def)

lemma publish_tracks [simp]: "tr_by_thread (publish_signals pl signals tr) = tr_by_thread tr"
  "track_of th (publish_signals pl signals tr) = track_of th tr" "tr_judge (publish_signals pl signals tr) = tr_judge tr"
  by (simp_all add: publish_signals_def track_of_def)

lemma touched:
  assumes "0 < pt_threshold cfg" and "all_backed cfg H tr"
  shows "all_backed cfg (H(th := known tr H th)) (touch_state th tr)" and "track_of th (touch_state th tr) = track_of th tr"
    and "backed cfg (known tr H th) (track_of th tr)"
proof -
  have ok: "dict_ok (tr_by_thread tr)" using assms(2) by (simp add: all_backed_def)
  show "track_of th (touch_state th tr) = track_of th tr"
  proof (cases "dict_get (tr_by_thread tr) th")
    case None
    then obtain ys where "trim_oldest thread_state_cap (tr_by_thread tr @ [(th, new_track)]) = ys @ [(th, new_track)]"
      "set ys \<subseteq> set (tr_by_thread tr)"
      using trim_oldest_snoc[of thread_state_cap "tr_by_thread tr" "(th, new_track)"] unfolding thread_state_cap_def by fastforce
    moreover from this None have "dict_get ys th = None" by (auto simp: map_of_eq_None_iff)
    ultimately show ?thesis using None by (simp add: touch_state_def track_of_def map_add_def)
  qed (simp add: touch_state_def track_of_def)
  show "backed cfg (known tr H th) (track_of th tr)"
    using assms backed_new by (auto simp: known_def track_of_def all_backed_def split: option.split)
  show "all_backed cfg (H(th := known tr H th)) (touch_state th tr)"
  proof (cases "dict_get (tr_by_thread tr) th")
    case None
    have new: "dict_ok (tr_by_thread tr @ [(th, new_track)])" using ok None by (rule dict_ok_append)
    have "backed cfg ((H(th := [])) t) st"
      if "dict_get (trim_oldest thread_state_cap (tr_by_thread tr @ [(th, new_track)])) t = Some st" for t st
      using dict_get_trim[OF new that] assms backed_new None
      by (auto simp: all_backed_def map_add_def split: option.splits if_splits)
    then show ?thesis using new None by (simp add: touch_state_def all_backed_def known_def)
  next
    case (Some st)
    then show ?thesis using assms(2) ok by (auto simp: touch_state_def all_backed_def known_def)
  qed
qed

lemma maybe_emit_backed:
  assumes "all_backed cfg H tr" and "dict_get (tr_by_thread tr) (hp_thread pl) \<noteq> None"
  shows "all_backed cfg H (maybe_emit cfg' vid pl signals tr)"
proof -
  let ?st = "track_of (hp_thread pl) tr"
  have "backed cfg (H (hp_thread pl)) (?st\<lparr>tk_emitted := True\<rparr>)"
    by (rule backed_other_fields[of cfg "H (hp_thread pl)" ?st]) (use assms in \<open>auto simp: all_backed_def track_of_def\<close>)
  from all_backed_set[OF assms(1) this, of "hp_thread pl"]
  have marked: "all_backed cfg H (set_track (hp_thread pl) (?st\<lparr>tk_emitted := True\<rparr>) tr)" by simp
  then show ?thesis
    using assms(1) by (auto simp: maybe_emit_def Let_def all_backed_def split: option.splits)
qed

lemma ledger_signals_names: "set (ledger_signals search view written tool args turn_end) \<subseteq> set ledger_signal_names"
  by (auto simp: ledger_signals_def ordered_signals_def touched_signal_def ledger_signal_names_def split: option.splits if_splits)

lemma no_core_signal:
  "s \<in> {''error_streak'', ''write_without_read'', ''rewrite_churn''} \<Longrightarrow> s \<notin> set (ledger_signals search view written tool args turn_end)"
  using ledger_signals_names[of search view written tool args turn_end] by (auto simp: ledger_signal_names_def)

lemma observe_tool_backed:
  assumes pos: "0 < pt_threshold cfg" and inv: "all_backed cfg H tr"
  shows "all_backed cfg (history_step (Tool view vid pl) tr H) (observe_tool cfg search view vid pl tr)"
proof -
  let ?th = "hp_thread pl" and ?tool = "text_or_empty (hp_tool_name pl)" and ?paths = "path_args (hp_tool_args pl)"
  define h where "h = known tr H ?th"
  define st where "st = (track_of ?th tr)\<lparr>tk_inner_turn := payload_turn pl (track_of ?th tr)\<rparr>"
  define st1 where "st1 = fst (observe_call cfg ?tool ?paths (call_failed_flag pl) st)"
  define fired where "fired = snd (observe_call cfg ?tool ?paths (call_failed_flag pl) st)"
  define ledger where "ledger = ledger_signals search view (map fst (tk_write_counts st1)) ?tool (hp_tool_args pl) False"
  define st2 where "st2 = st1\<lparr>tk_latched := foldl (\<lambda>l s. latch s l) (tk_latched st1) ledger, tk_seen_tool := True\<rparr>"
  note t = touched[OF pos inv, of ?th]
  have "backed cfg h st"
    by (rule backed_other_fields[OF t(3)[folded h_def]]) (simp_all add: st_def)
  from backed_call[OF pos this, of ?tool ?paths "call_failed_flag pl"]
  have called: "backed cfg (h @ [call_of pl]) (st1\<lparr>tk_seen_tool := True\<rparr>)" by (simp add: st1_def call_of_def)
  have "backed cfg (h @ [call_of pl]) st2"
  proof (rule backed_other_fields[OF called])
    fix s assume s: "s \<in> {''error_streak'', ''write_without_read'', ''rewrite_churn''}"
    then have "s \<notin> set ledger" unfolding ledger_def by (rule no_core_signal)
    then show "s \<in> set (tk_latched st2) \<longleftrightarrow> s \<in> set (tk_latched (st1\<lparr>tk_seen_tool := True\<rparr>))" by (simp add: st2_def)
  qed (simp_all add: st2_def)
  from all_backed_set[OF t(1) this, of ?th]
  have set2: "all_backed cfg (H(?th := h @ [call_of pl])) (set_track ?th st2 (touch_state ?th tr))" by simp
  have "observe_tool cfg search view vid pl tr =
      maybe_emit cfg vid pl (fired @ ledger) (publish_signals pl (tk_latched st2) (set_track ?th st2 (touch_state ?th tr)))"
    unfolding observe_tool_def Let_def t(2) call_failed_flag_def[symmetric] st_def[symmetric]
    by (simp add: case_prod_beta st1_def fired_def ledger_def st2_def)
  moreover have "all_backed cfg (H(?th := h @ [call_of pl]))
      (maybe_emit cfg vid pl (fired @ ledger) (publish_signals pl (tk_latched st2) (set_track ?th st2 (touch_state ?th tr))))"
    by (rule maybe_emit_backed) (use set2 in \<open>simp_all add: all_backed_def set_track_def\<close>)
  ultimately show ?thesis by (simp add: h_def)
qed

lemma observe_provider_backed:
  assumes pos: "0 < pt_threshold cfg" and inv: "all_backed cfg H tr"
  shows "all_backed cfg (history_step (Provider pl) tr H) (observe_provider pl tr)"
proof -
  let ?th = "hp_thread pl"
  note t = touched[OF pos inv, of ?th]
  define st1 where "st1 = (track_of ?th tr)\<lparr>tk_inner_turn := payload_turn pl (track_of ?th tr), tk_emitted := False,
    tk_no_text_turns := (if hp_has_tools pl \<and> py_strip (text_or_empty (hp_text pl)) = []
       then tk_no_text_turns (track_of ?th tr) + 1 else 0), tk_seen_provider := True\<rparr>"
  have "backed cfg (known tr H ?th) st1" by (rule backed_other_fields[OF t(3)]) (simp_all add: st1_def)
  from all_backed_set[OF t(1) this, of ?th]
  have "all_backed cfg (H(?th := known tr H ?th)) (set_track ?th st1 (touch_state ?th tr))" by simp
  moreover have "tr_by_thread (observe_provider pl tr) = tr_by_thread (set_track ?th st1 (touch_state ?th tr))"
    unfolding observe_provider_def Let_def t(2) st1_def[symmetric] by (auto simp: set_track_def)
  ultimately show ?thesis by (simp add: all_backed_def)
qed

lemma observe_turn_end_backed:
  assumes pos: "0 < pt_threshold cfg" and inv: "all_backed cfg H tr"
  shows "all_backed cfg (history_step (Turn_End view vid pl) tr H) (observe_turn_end cfg search view vid pl tr)"
proof -
  let ?th = "hp_thread pl"
  note t = touched[OF pos inv, of ?th]
  define signals where "signals = ledger_signals search view (map fst (tk_write_counts (track_of ?th tr))) [] None True"
  define st1 where "st1 = (track_of ?th tr)\<lparr>tk_latched := (if signals \<noteq> []
    then foldl (\<lambda>l s. latch s l) (tk_latched (track_of ?th tr)) signals else unlatch ''done_unmet'' (tk_latched (track_of ?th tr)))\<rparr>"
  have "backed cfg (known tr H ?th) st1"
  proof (rule backed_other_fields[OF t(3)])
    fix s assume s: "s \<in> {''error_streak'', ''write_without_read'', ''rewrite_churn''}"
    then have "s \<notin> set signals" "s \<noteq> ''done_unmet''" using no_core_signal[OF s] by (auto simp: signals_def)
    then show "s \<in> set (tk_latched st1) \<longleftrightarrow> s \<in> set (tk_latched (track_of ?th tr))" by (simp add: st1_def)
  qed (simp_all add: st1_def)
  from all_backed_set[OF t(1) this, of ?th]
  have set1: "all_backed cfg (H(?th := known tr H ?th)) (set_track ?th st1 (touch_state ?th tr))" by simp
  have "all_backed cfg (H(?th := known tr H ?th))
      (maybe_emit cfg vid pl signals (publish_signals pl (tk_latched st1) (set_track ?th st1 (touch_state ?th tr))))"
    by (rule maybe_emit_backed) (use set1 in \<open>simp_all add: all_backed_def set_track_def\<close>)
  then show ?thesis unfolding observe_turn_end_def Let_def t(2) signals_def[symmetric] st1_def[symmetric] by simp
qed

lemma rewrites_backed:
  assumes pos: "0 < pt_threshold cfg" and inv: "all_backed cfg H tr"
  shows "all_backed cfg (history_step (Fork s t) tr H) (fork_thread s t tr)"
    and "all_backed cfg (history_step (Reset s) tr H) (reset_conversation_state s tr)"
    and "all_backed cfg (history_step (Forget s) tr H) (forget_thread s tr)"
proof -
  have old: "dict_get (tr_by_thread tr) th = Some st \<Longrightarrow> backed cfg (H th) st" and ok: "dict_ok (tr_by_thread tr)" for th st
    using inv by (simp_all add: all_backed_def)
  have rew: "dict_get (tr_by_thread tr) s = Some st \<Longrightarrow> backed cfg (known tr H s @ [Rewound]) (rewound st)" for st
    using backed_rewound[OF pos old] by (simp add: known_def)
  show "all_backed cfg (history_step (Fork s t) tr H) (fork_thread s t tr)"
  proof (cases "dict_get (tr_by_thread tr) s")
    case (Some st)
    have ok': "dict_ok (store_last t (rewound st) (tr_by_thread tr))" using ok by simp
    show ?thesis
      using Some ok ok' rew[OF Some] old dict_get_trim[OF ok']
      by (auto simp: fork_thread_def all_backed_def dest!: dict_get_trim[OF ok'] split: if_splits)
  qed (use ok old in \<open>auto simp: fork_thread_def all_backed_def\<close>)
  show "all_backed cfg (history_step (Reset s) tr H) (reset_conversation_state s tr)"
    using all_backed_set[OF inv rew] inv
    by (cases "dict_get (tr_by_thread tr) s") (auto simp: reset_conversation_state_def all_backed_def)
  show "all_backed cfg (history_step (Forget s) tr H) (forget_thread s tr)"
    using ok old by (auto simp: forget_thread_def all_backed_def)
qed

lemma observed_backed:
  assumes "0 < pt_threshold cfg" and "all_backed cfg H tr" and "observed cfg search evs (tr, H) = (tr', H')"
  shows "all_backed cfg H' tr'"
  using assms(2,3)
proof (induction evs arbitrary: tr H)
  case (Cons ev evs)
  have "all_backed cfg (history_step ev tr H) (tracker_step cfg search ev tr)"
    using observe_tool_backed[OF assms(1) Cons.prems(1)] observe_provider_backed[OF assms(1) Cons.prems(1)]
      observe_turn_end_backed[OF assms(1) Cons.prems(1)] rewrites_backed[OF assms(1) Cons.prems(1)] Cons.prems(1)
    by (cases ev) (simp_all del: history_step.simps, simp add: all_backed_def)
  then show ?case using Cons by simp
qed simp

text \<open>
  C28: A signal says what happened. Through any sequence of tool calls, provider answers, ends of turns, branches, shortened
  and forgotten conversations on any threads, with records dropped when there are too many: a record has \<open>error_streak\<close>
  latched exactly when at least the threshold of calls in a row up to the last one have failed and it was not the first call
  since the last rewind; \<open>write_without_read\<close> only when some path was written that was never read, and always when a call
  that was not the first since the last rewind wrote such a path; and \<open>rewrite_churn\<close> only when some path was written at
  least as often as the threshold says.
\<close>

theorem signals_backed:
  assumes "0 < pt_threshold cfg" and "observed cfg search evs (new_tracker judge mb, \<lambda>_. []) = (tr, H)"
    and "dict_get (tr_by_thread tr) th = Some st"
  shows "(''error_streak'' \<in> set (tk_latched st) \<longleftrightarrow> pt_threshold cfg \<le> failing_run (H th) \<and> 2 \<le> length (recent (H th)))
    \<and> (''write_without_read'' \<in> set (tk_latched st) \<longrightarrow> (\<exists>p. 0 < writes p (H th) \<and> \<not> reads p (H th)))
    \<and> (\<forall>p. written_warm p (H th) \<and> \<not> reads p (H th) \<longrightarrow> ''write_without_read'' \<in> set (tk_latched st))
    \<and> (''rewrite_churn'' \<in> set (tk_latched st) \<longrightarrow> (\<exists>p. pt_threshold cfg \<le> writes p (H th)))"
proof -
  have "all_backed cfg (\<lambda>_. []) (new_tracker judge mb)" by (simp add: all_backed_def new_tracker_def)
  from observed_backed[OF assms(1) this assms(2)] assms(3) have "backed cfg (H th) st" by (simp add: all_backed_def)
  then show ?thesis unfolding backed_def by blast
qed

definition sample_payload :: "string \<Rightarrow> string \<Rightarrow> string option \<Rightarrow> hook_payload" where
  "sample_payload tool file err = \<lparr>hp_thread = ''t'', hp_request = ''r'', hp_inner_turn = Some 4, hp_tool_name = Some tool,
     hp_tool_args = Some [(''path'', JStr file)], hp_tool_error = err, hp_usage = None, hp_text = None, hp_has_tools = True,
     hp_window = 0\<rparr>"

definition sample_config :: tracker_config where
  "sample_config = \<lparr>pt_threshold = 2, pt_min_turn = 1\<rparr>"

lemma signals_backed_witness:
  "let w = observed sample_config (\<lambda>_ _. None) [Tool None ''1'' (sample_payload ''read_file'' ''a'' None),
        Tool None ''2'' (sample_payload ''write_file'' ''b'' (Some ''e'')), Tool None ''3'' (sample_payload ''write_file'' ''b'' (Some ''e''))]
        (new_tracker True empty_mailbox, \<lambda>_. [])
   in failing_run (snd w ''t'') = 2 \<and> writes ''b'' (snd w ''t'') = 2
      \<and> map_option tk_latched (dict_get (tr_by_thread (fst w)) ''t'') = Some [''write_without_read'', ''error_streak'', ''rewrite_churn'']
      \<and> (\<exists>p. 0 < writes p (snd w ''t'') \<and> \<not> reads p (snd w ''t''))"
proof -
  let ?evs = "[Tool None ''1'' (sample_payload ''read_file'' ''a'' None),
        Tool None ''2'' (sample_payload ''write_file'' ''b'' (Some ''e'')), Tool None ''3'' (sample_payload ''write_file'' ''b'' (Some ''e''))]"
  obtain tr H where w: "observed sample_config (\<lambda>_ _. None) ?evs (new_tracker True empty_mailbox, \<lambda>_. []) = (tr, H)" by fastforce
  have facts: "0 < pt_threshold sample_config"
    "failing_run (snd (observed sample_config (\<lambda>_ _. None) ?evs (new_tracker True empty_mailbox, \<lambda>_. [])) ''t'') = 2"
    "writes ''b'' (snd (observed sample_config (\<lambda>_ _. None) ?evs (new_tracker True empty_mailbox, \<lambda>_. [])) ''t'') = 2"
    "map_option tk_latched (dict_get (tr_by_thread (fst (observed sample_config (\<lambda>_ _. None) ?evs (new_tracker True empty_mailbox, \<lambda>_. [])))) ''t'')
       = Some [''write_without_read'', ''error_streak'', ''rewrite_churn'']"
    by code_simp+
  then obtain st where "dict_get (tr_by_thread tr) ''t'' = Some st" "''write_without_read'' \<in> set (tk_latched st)"
    unfolding w fst_conv by auto
  then have "\<exists>p. 0 < writes p (H ''t'') \<and> \<not> reads p (H ''t'')" using signals_backed[OF facts(1) w] by blast
  then show ?thesis using facts unfolding w by simp
qed

section \<open>What escapes\<close>

text \<open>The dots and slashes in front of a path are taken off, those of the pattern are not, so no pattern names a hidden file.\<close>

lemma hidden_file_escapes:
  "\<not> glob_match ''.env'' ''.env'' \<and> \<not> glob_match ''.github/workflows/ci.yml'' ''.github/**'' \<and> glob_match ''src/a.py'' ''src/**''"
  by code_simp

text \<open>
  Reading a churned file settles the churn by dropping its count of writes, which is also the list of what was written: the
  goal that asked for the file is then reported as not met.
\<close>

lemma settled_churn_forgets_write:
  "let wrote = fst (observe_call sample_config ''write_file'' [''out.md''] False
         (fst (observe_call sample_config ''write_file'' [''out.md''] False (new_track\<lparr>tk_seen_tool := True\<rparr>))));
       read = fst (observe_call sample_config ''read_file'' [''out.md''] False wrote)
   in done_when_satisfied ''out.md'' (map fst (tk_write_counts wrote)) \<and> \<not> done_when_satisfied ''out.md'' (map fst (tk_write_counts read))"
  by code_simp

end
