(* ===== verification/Branches.thy ===== *)
theory Branches
  imports Prelude
begin

text \<open>
  \<open>core/persistence/branches.py\<close>: the table of the branches of a conversation in its SQLite form, for one agent scope. Rows
  stay in the order in which they were inserted; a clock reading is an argument. Shown: what each operation keeps of the
  form of the table, in which a session has one root, one active branch, a tree of parents above their children, and a
  history thread of its own for each branch.
\<close>

section \<open>The table\<close>

record branch =
  br_id :: string
  br_session :: string
  br_thread :: string
  br_parent :: "string option"
  br_fork :: "string option"
  br_op :: "string option"
  br_created :: int
  br_last :: int
  br_active :: bool

type_synonym branch_table = "branch list"

definition root_branch_id :: string where
  "root_branch_id = ''root''"

definition branch_thread_id :: "string \<Rightarrow> string \<Rightarrow> string" where
  "branch_thread_id session b = ''branch:'' @ session @ '':'' @ b"

definition root_record :: "string \<Rightarrow> bool \<Rightarrow> int \<Rightarrow> branch" where
  "root_record session active now = \<lparr>br_id = root_branch_id, br_session = session, br_thread = session, br_parent = None,
     br_fork = None, br_op = None, br_created = now, br_last = now, br_active = active\<rparr>"

definition implicit_root :: "branch \<Rightarrow> branch" where
  "implicit_root r = (root_record (br_session r) False 0)\<lparr>br_last := br_created r\<rparr>"

definition list_branches :: "string \<Rightarrow> branch_table \<Rightarrow> branch list" where
  "list_branches session tab = sort_key br_created (sort_key br_id (filter (\<lambda>r. br_session r = session) tab))"

definition get_active :: "string \<Rightarrow> branch_table \<Rightarrow> branch option" where
  "get_active session tab = List.find br_active (list_branches session tab)"

definition has_branch :: "string \<Rightarrow> string \<Rightarrow> branch_table \<Rightarrow> bool" where
  "has_branch session b tab \<longleftrightarrow> list_ex (\<lambda>r. br_session r = session \<and> br_id r = b) tab"

definition deactivate_all :: "string \<Rightarrow> branch_table \<Rightarrow> branch_table" where
  "deactivate_all session tab = map (\<lambda>r. if br_session r = session then r\<lparr>br_active := False\<rparr> else r) tab"

definition create_branch :: "branch \<Rightarrow> branch_table \<Rightarrow> branch_table option" where
  \<comment> \<open>\<open>None\<close> when the primary key is taken: the transaction is rolled back\<close>
  "create_branch r tab =
     (let rooted = deactivate_all (br_session r) tab
            @ (if has_branch (br_session r) root_branch_id tab then [] else [implicit_root r])
      in if has_branch (br_session r) (br_id r) rooted then None else Some (rooted @ [r\<lparr>br_active := True\<rparr>]))"

definition set_active :: "int \<Rightarrow> string \<Rightarrow> string \<Rightarrow> branch_table \<Rightarrow> branch_table option" where
  \<comment> \<open>\<open>None\<close> when the session has no such branch\<close>
  "set_active now session b tab =
     (if has_branch session b tab
      then Some (map (\<lambda>r. if br_session r = session \<and> br_id r = b then r\<lparr>br_active := True, br_last := now\<rparr> else r)
             (deactivate_all session tab))
      else None)"

definition touch_branch :: "int \<Rightarrow> string \<Rightarrow> string \<Rightarrow> branch_table \<Rightarrow> branch_table" where
  "touch_branch now session b tab =
     map (\<lambda>r. if br_session r = session \<and> br_id r = b then r\<lparr>br_last := now\<rparr> else r) tab"

definition active_non_root :: "string list \<Rightarrow> branch_table \<Rightarrow> (string, branch) dict" where
  "active_non_root sessions tab =
     dict_of_list (map (\<lambda>r. (br_session r, r))
       (sort_key br_created (sort_key br_id (filter (\<lambda>r. br_active r \<and> br_id r \<noteq> root_branch_id \<and> br_session r \<in> set sessions) tab))))"

definition delete_session :: "string \<Rightarrow> branch_table \<Rightarrow> branch list \<times> branch_table" where
  "delete_session session tab = (list_branches session tab, filter (\<lambda>r. br_session r \<noteq> session) tab)"

section \<open>Trees\<close>

definition parent_above :: "branch list \<Rightarrow> branch \<Rightarrow> bool" where
  \<comment> \<open>the root has no parent; every other branch has one among the rows above it\<close>
  "parent_above prior r \<longleftrightarrow> (case br_parent r of
       None \<Rightarrow> br_id r = root_branch_id \<and> br_thread r = br_session r
     | Some p \<Rightarrow> br_id r \<noteq> root_branch_id \<and> br_thread r = branch_thread_id (br_session r) (br_id r) \<and> has_branch (br_session r) p prior)"

fun tree_rows :: "branch list \<Rightarrow> branch_table \<Rightarrow> bool" where
  "tree_rows prior [] \<longleftrightarrow> True"
| "tree_rows prior (r # rs) \<longleftrightarrow> parent_above prior r \<and> \<not> has_branch (br_session r) (br_id r) prior \<and> tree_rows (prior @ [r]) rs"

definition actives :: "string \<Rightarrow> branch_table \<Rightarrow> branch list" where
  "actives session tab = filter (\<lambda>r. br_session r = session \<and> br_active r) tab"

definition branch_tree :: "branch_table \<Rightarrow> bool" where
  "branch_tree tab \<longleftrightarrow> tree_rows [] tab
     \<and> (\<forall>r\<in>set tab. has_branch (br_session r) root_branch_id tab \<and> length (actives (br_session r) tab) = 1)"

definition same_shape :: "branch \<Rightarrow> branch \<Rightarrow> bool" where
  "same_shape r r' \<longleftrightarrow> br_id r' = br_id r \<and> br_session r' = br_session r \<and> br_thread r' = br_thread r
     \<and> br_parent r' = br_parent r \<and> br_fork r' = br_fork r"

lemma has_branch_append [simp]: "has_branch s b (xs @ ys) \<longleftrightarrow> has_branch s b xs \<or> has_branch s b ys"
  by (auto simp: has_branch_def)

lemma has_branch_Nil [simp]: "\<not> has_branch s b []"
  by (simp add: has_branch_def)

lemma has_branch_Cons [simp]: "has_branch s b (r # rs) \<longleftrightarrow> br_session r = s \<and> br_id r = b \<or> has_branch s b rs"
  by (auto simp: has_branch_def)

lemma has_branch_map [simp]: "(\<And>r. same_shape r (f r)) \<Longrightarrow> has_branch s b (map f tab) \<longleftrightarrow> has_branch s b tab"
  by (induction tab) (auto simp: same_shape_def)

lemma tree_rows_map:
  assumes "\<And>r. same_shape r (f r)"
  shows "tree_rows (map f prior) (map f tab) \<longleftrightarrow> tree_rows prior tab"
proof (induction tab arbitrary: prior)
  case (Cons r rs)
  have shape: "same_shape r (f r)" by (rule assms)
  have "parent_above (map f prior) (f r) \<longleftrightarrow> parent_above prior r"
    using shape assms by (auto simp: parent_above_def same_shape_def split: option.split)
  moreover have "has_branch (br_session (f r)) (br_id (f r)) (map f prior) \<longleftrightarrow> has_branch (br_session r) (br_id r) prior"
    using shape assms by (simp add: same_shape_def)
  ultimately show ?case using Cons.IH[of "prior @ [r]"] by simp
qed simp

lemma tree_rows_append: "tree_rows prior (xs @ ys) \<longleftrightarrow> tree_rows prior xs \<and> tree_rows (prior @ xs) ys"
  by (induction xs arbitrary: prior) auto

lemma shape_updates:
  "same_shape r (if c then r\<lparr>br_active := a\<rparr> else r)" "same_shape r (if c then r\<lparr>br_last := n\<rparr> else r)"
  "same_shape r (if c then r\<lparr>br_active := a, br_last := n\<rparr> else r)"
  by (simp_all add: same_shape_def)

lemma deactivate_shape: "tree_rows [] (deactivate_all s tab) \<longleftrightarrow> tree_rows [] tab"
  "has_branch t b (deactivate_all s tab) \<longleftrightarrow> has_branch t b tab"
  using tree_rows_map[of "\<lambda>r. if br_session r = s then r\<lparr>br_active := False\<rparr> else r" "[]" tab] shape_updates(1)
  unfolding deactivate_all_def by (auto simp: same_shape_def)

lemma actives_deactivated: "actives t (deactivate_all s tab) = (if t = s then [] else actives t tab)"
  by (induction tab) (auto simp: actives_def deactivate_all_def)

lemma actives_append [simp]: "actives s (xs @ ys) = actives s xs @ actives s ys"
  by (simp add: actives_def)

lemma actives_Nil [simp]: "actives s [] = []"
  by (simp add: actives_def)

lemma actives_Cons [simp]: "actives s (r # rs) = (if br_session r = s \<and> br_active r then r # actives s rs else actives s rs)"
  by (simp add: actives_def)

lemma sessions_of: "(\<exists>r\<in>set tab. br_session r = s) \<longleftrightarrow> (\<exists>b. has_branch s b tab)"
  by (auto simp: has_branch_def list_ex_iff)

lemma branch_tree_iff:
  "branch_tree tab \<longleftrightarrow> tree_rows [] tab
     \<and> (\<forall>s b. has_branch s b tab \<longrightarrow> has_branch s root_branch_id tab \<and> length (actives s tab) = 1)"
  unfolding branch_tree_def by (metis sessions_of)

lemma branch_tree_create:
  assumes "branch_tree tab" and "create_branch r tab = Some tab'"
    and "br_parent r = Some p" and "has_branch (br_session r) p tab \<or> p = root_branch_id \<and> \<not> has_branch (br_session r) root_branch_id tab"
    and "br_thread r = branch_thread_id (br_session r) (br_id r)" and "br_id r \<noteq> root_branch_id"
  shows "branch_tree tab'"
proof -
  let ?s = "br_session r"
  let ?new = "if has_branch ?s root_branch_id tab then [] else [implicit_root r]"
  have fresh: "\<not> has_branch ?s (br_id r) (deactivate_all ?s tab @ ?new)"
    and tab': "tab' = (deactivate_all ?s tab @ ?new) @ [r\<lparr>br_active := True\<rparr>]"
    using assms(2) by (auto simp: create_branch_def Let_def split: if_splits)
  have root: "tree_rows [] (deactivate_all ?s tab @ ?new)"
    using assms(1)
    by (auto simp: branch_tree_iff tree_rows_append deactivate_shape parent_above_def implicit_root_def root_record_def)
  have parent: "has_branch ?s p (deactivate_all ?s tab @ ?new)"
    using assms(4) by (auto simp: deactivate_shape implicit_root_def root_record_def)
  have "tree_rows [] tab'"
    unfolding tab' using root fresh parent assms(3,5,6) by (simp add: tree_rows_append parent_above_def)
  moreover have "has_branch t b tab' \<Longrightarrow> has_branch t root_branch_id tab' \<and> length (actives t tab') = 1" for t b
    unfolding tab' using assms(1)
    by (auto simp: branch_tree_iff deactivate_shape actives_deactivated implicit_root_def root_record_def split: if_splits)
  ultimately show ?thesis unfolding branch_tree_iff by blast
qed

lemma tree_rows_distinct: "tree_rows prior tab \<Longrightarrow> distinct (map (\<lambda>r. (br_session r, br_id r)) tab)
    \<and> (\<forall>r\<in>set tab. \<not> has_branch (br_session r) (br_id r) prior)"
proof (induction tab arbitrary: prior)
  case (Cons r rs)
  then have "distinct (map (\<lambda>r. (br_session r, br_id r)) rs) \<and> (\<forall>q\<in>set rs. \<not> has_branch (br_session q) (br_id q) (prior @ [r]))"
    using Cons.IH[of "prior @ [r]"] by simp
  then show ?case using Cons.prems by auto
qed simp

lemma filter_one: "distinct xs \<Longrightarrow> x \<in> set xs \<Longrightarrow> length (filter (\<lambda>k. k = x) xs) = 1"
  by (induction xs) (auto simp: filter_empty_conv)

lemma branch_tree_set_active:
  assumes "branch_tree tab" and "set_active now s b tab = Some tab'"
  shows "branch_tree tab'"
proof -
  let ?f = "\<lambda>r. if br_session r = s \<and> br_id r = b then r\<lparr>br_active := True, br_last := now\<rparr> else r"
  have tab': "tab' = map ?f (deactivate_all s tab)" and has: "has_branch s b tab"
    using assms(2) by (auto simp: set_active_def split: if_splits)
  have shape: "same_shape r (?f r)" for r by (simp add: same_shape_def)
  have "tree_rows [] tab'"
    unfolding tab' using tree_rows_map[of ?f "[]", OF shape] deactivate_shape(1) assms(1) by (simp add: branch_tree_iff)
  moreover have same: "has_branch t c tab' \<longleftrightarrow> has_branch t c tab" for t c
    unfolding tab' using has_branch_map[of ?f, OF shape] deactivate_shape(2) by simp
  moreover have "length (actives t tab') = 1" if "has_branch t c tab" for t c
  proof (cases "t = s")
    case False
    then have "actives t tab' = actives t tab"
      unfolding tab' deactivate_all_def actives_def by (induction tab) auto
    then show ?thesis using that assms(1) unfolding branch_tree_iff by metis
  next
    case True
    have dist: "distinct (map (\<lambda>r. (br_session r, br_id r)) tab)" using tree_rows_distinct assms(1) by (auto simp: branch_tree_iff)
    have "length (actives s tab') = length (filter (\<lambda>r. (br_session r, br_id r) = (s, b)) tab)"
      unfolding tab' deactivate_all_def actives_def by (induction tab) auto
    also have "\<dots> = length (filter (\<lambda>k. k = (s, b)) (map (\<lambda>r. (br_session r, br_id r)) tab))"
      by (simp add: filter_map comp_def)
    also have "\<dots> = 1"
    proof -
      have "(s, b) \<in> set (map (\<lambda>r. (br_session r, br_id r)) tab)" using has by (auto simp: has_branch_def list_ex_iff)
      then show ?thesis by (rule filter_one[OF dist])
    qed
    finally show ?thesis using True by simp
  qed
  ultimately show ?thesis using assms(1) unfolding branch_tree_iff by blast
qed

lemma branch_tree_touch:
  assumes "branch_tree tab"
  shows "branch_tree (touch_branch now s b tab)"
proof -
  let ?f = "\<lambda>r. if br_session r = s \<and> br_id r = b then r\<lparr>br_last := now\<rparr> else r"
  have shape: "same_shape r (?f r)" for r by (simp add: same_shape_def)
  have "length (actives t (map ?f tab)) = length (actives t tab)" for t by (induction tab) (auto simp: actives_def)
  then show ?thesis
    using assms tree_rows_map[of ?f "[]" tab, OF shape] has_branch_map[of ?f, OF shape]
    by (simp add: branch_tree_iff touch_branch_def)
qed

lemma has_branch_kept: "has_branch s b (filter (\<lambda>r. br_session r \<noteq> t) tab) \<longleftrightarrow> s \<noteq> t \<and> has_branch s b tab"
  by (induction tab) auto

lemma tree_rows_filter:
  "tree_rows prior tab \<Longrightarrow> tree_rows (filter (\<lambda>r. br_session r \<noteq> t) prior) (filter (\<lambda>r. br_session r \<noteq> t) tab)"
proof (induction tab arbitrary: prior)
  case (Cons r rs)
  then show ?case using Cons.IH[of "prior @ [r]"] by (auto simp: parent_above_def has_branch_kept split: option.splits)
qed simp

lemma branch_tree_delete:
  assumes "branch_tree tab"
  shows "branch_tree (snd (delete_session s tab))"
proof -
  have "actives t (filter (\<lambda>r. br_session r \<noteq> s) tab) = (if t = s then [] else actives t tab)" for t
    by (induction tab) (auto simp: actives_def)
  then show ?thesis
    using assms tree_rows_filter[of "[]" tab s] by (auto simp: branch_tree_iff delete_session_def has_branch_kept)
qed

end
