(* ===== verification/Branch_Navigator.thy ===== *)
theory Branch_Navigator
  imports Branches Compaction "HOL-Library.Extended_Nat"
begin

text \<open>
  The navigator of \<open>core/runtime/history_rewrite.py\<close>: at which rows of the active thread a conversation has other versions,
  and which branch stands for each. A row position is shifted by one, so that zero stands before the first row and infinity
  behind the last. Shown: in a tree of branches the position where two branches part is an ultrametric, so the groups that
  the code forms with one representative are the classes of an equivalence; and every point offers the active branch, at
  least one other, and none twice.
\<close>

section \<open>Rows\<close>

definition is_user_text_row :: "message \<Rightarrow> bool" where
  "is_user_text_row m \<longleftrightarrow> msg_role m = User \<and> list_ex (\<lambda>b. case b of Text t \<Rightarrow> py_strip t \<noteq> [] | _ \<Rightarrow> False) (msg_content m)"

definition is_context_summary_row :: "message \<Rightarrow> bool" where
  "is_context_summary_row m \<longleftrightarrow> msg_role m = Assistant
     \<and> list_ex (\<lambda>b. case b of Text t \<Rightarrow> startswith t context_summary_prefix | _ \<Rightarrow> False) (msg_content m)"

definition last_index :: "('a \<Rightarrow> bool) \<Rightarrow> 'a list \<Rightarrow> nat option" where
  "last_index P xs = (case filter (\<lambda>i. P (xs ! i)) [0..<length xs] of [] \<Rightarrow> None | is \<Rightarrow> Some (last is))"

lemma last_index_Some: "last_index P xs = Some i \<Longrightarrow> i < length xs \<and> P (xs ! i)"
  using last_in_set[of "filter (\<lambda>i. P (xs ! i)) [0..<length xs]"]
  by (simp add: last_index_def split: list.splits)

definition last_summary_index :: "message list \<Rightarrow> nat option" where
  "last_summary_index ms = last_index is_context_summary_row ms"

definition row_position :: "message list \<Rightarrow> string \<Rightarrow> nat option" where
  "row_position ms row = last_index (\<lambda>m. msg_row_id m = Some row) ms"

section \<open>Where two branches part\<close>

definition branch_by_id :: "branch list \<Rightarrow> string \<Rightarrow> branch option" where
  "branch_by_id records b = List.find (\<lambda>r. br_id r = b) (rev records)"

fun climb :: "nat \<Rightarrow> branch list \<Rightarrow> string list \<Rightarrow> string \<Rightarrow> string list" where
  \<comment> \<open>the parents of a branch; a cycle ends the path, so one step per record is enough\<close>
  "climb 0 records path b = path"
| "climb (Suc n) records path b = (case branch_by_id records b of
       None \<Rightarrow> path
     | Some r \<Rightarrow> (case br_parent r of
         None \<Rightarrow> path
       | Some p \<Rightarrow> if p \<in> set path then path else climb n records (path @ [p]) p))"

definition lineage :: "branch list \<Rightarrow> string \<Rightarrow> string list" where
  "lineage records b = climb (Suc (length records)) records [b] b"

definition fork_of :: "branch list \<Rightarrow> string \<Rightarrow> string option" where
  "fork_of records b = (case branch_by_id records b of None \<Rightarrow> None | Some r \<Rightarrow> br_fork r)"

definition split_hops :: "branch list \<Rightarrow> string \<Rightarrow> string \<Rightarrow> string list option" where
  \<comment> \<open>the branches on the path between two, without the nearest common one\<close>
  "split_hops records a b =
     (let up_a = lineage records a; up_b = lineage records b
      in case List.find (\<lambda>x. x \<in> set up_b) up_a of
           None \<Rightarrow> None
         | Some lca \<Rightarrow> Some (takeWhile (\<lambda>x. x \<noteq> lca) up_a @ takeWhile (\<lambda>x. x \<noteq> lca) up_b))"

definition split_position :: "branch list \<Rightarrow> (string option \<Rightarrow> enat) \<Rightarrow> string \<Rightarrow> string \<Rightarrow> enat" where
  "split_position records position a b =
     (if a = b then \<infinity>
      else (case split_hops records a b of
          None \<Rightarrow> 0
        | Some hops \<Rightarrow> foldl (\<lambda>split hop. min split (position (fork_of records hop))) \<infinity> hops))"

section \<open>The points\<close>

fun add_to_groups :: "(string \<Rightarrow> string \<Rightarrow> bool) \<Rightarrow> string \<Rightarrow> string list list \<Rightarrow> string list list" where
  \<comment> \<open>to the first group whose first member goes the same way\<close>
  "add_to_groups same c [] = [[c]]"
| "add_to_groups same c (g # gs) = (if same c (hd g) then (g @ [c]) # gs else g # add_to_groups same c gs)"

definition group_branches :: "(string \<Rightarrow> string \<Rightarrow> bool) \<Rightarrow> string list \<Rightarrow> string list list" where
  "group_branches same cs = foldl (\<lambda>gs c. add_to_groups same c gs) [] cs"

definition sort_pair :: "branch list \<Rightarrow> (branch \<Rightarrow> int) \<Rightarrow> string list \<Rightarrow> string list" where
  \<comment> \<open>by a time of the record, zero without one, then by name\<close>
  "sort_pair records time bs =
     sort_key (\<lambda>b. case branch_by_id records b of None \<Rightarrow> 0 | Some r \<Rightarrow> time r) (sort_key (\<lambda>b. b) bs)"

definition representative :: "branch list \<Rightarrow> string \<Rightarrow> string list \<Rightarrow> string" where
  "representative records active g = (if active \<in> set g then active else last (sort_pair records br_last g))"

definition fork_keys :: "branch list \<Rightarrow> string option list" where
  "fork_keys records = rev (remdups (rev (map br_fork (filter (\<lambda>r. br_parent r \<noteq> None) records))))"

definition key_members :: "branch list \<Rightarrow> string option \<Rightarrow> string list" where
  "key_members records key = concat (map (\<lambda>r. case br_parent r of None \<Rightarrow> [] | Some p \<Rightarrow> if br_fork r = key then [br_id r, p] else []) records)"

definition key_place :: "string \<Rightarrow> branch list \<Rightarrow> message list \<Rightarrow> string option \<Rightarrow> (enat \<times> nat) option" where
  \<comment> \<open>the position of a fork key and the index of the row that carries its point\<close>
  "key_place active records ms key = (case key of
       None \<Rightarrow> if ms = [] then None else Some (0, 0)
     | Some row \<Rightarrow> (case row_position ms row of
         Some i \<Rightarrow> Some (enat (Suc i), if Suc i < length ms then Suc i else i)
       | None \<Rightarrow> (case last_summary_index ms of
           Some i \<Rightarrow> if active \<in> set (key_members records key) then Some (enat (Suc i), i) else None
         | None \<Rightarrow> None)))"

definition fork_position :: "message list \<Rightarrow> string option \<Rightarrow> enat \<Rightarrow> string option \<Rightarrow> enat" where
  "fork_position ms key r fork =
     (if fork = key then r
      else (case fork of None \<Rightarrow> 0 | Some row \<Rightarrow> (case row_position ms row of None \<Rightarrow> \<infinity> | Some i \<Rightarrow> enat (Suc i))))"

definition key_candidates :: "branch list \<Rightarrow> string \<Rightarrow> string option \<Rightarrow> string list" where
  "key_candidates records active key = sort_pair records br_created (remdups (active # key_members records key))"

definition key_groups :: "branch list \<Rightarrow> string \<Rightarrow> message list \<Rightarrow> string option \<Rightarrow> enat \<Rightarrow> string list list" where
  "key_groups records active ms key r =
     group_branches (\<lambda>c g. r < split_position records (fork_position ms key r) c g) (key_candidates records active key)"

definition key_point :: "branch list \<Rightarrow> string \<Rightarrow> message list \<Rightarrow> string option \<Rightarrow> (string option \<times> string \<times> string list) option" where
  "key_point records active ms key = (case key_place active records ms key of
       None \<Rightarrow> None
     | Some (r, i) \<Rightarrow>
         (let groups = key_groups records active ms key r
          in if length groups < 2 then None
             else (case msg_row_id (ms ! i) of None \<Rightarrow> None
                 | Some row \<Rightarrow> Some (key, row, map (representative records active) groups))))"

definition key_points :: "branch list \<Rightarrow> string \<Rightarrow> message list \<Rightarrow> (string option \<times> string \<times> string list) list" where
  "key_points records active ms = List.map_filter (key_point records active ms) (fork_keys records)"

definition keep_first :: "'a list \<Rightarrow> 'a list" where
  \<comment> \<open>\<open>list(dict.fromkeys(xs))\<close>\<close>
  "keep_first xs = rev (remdups (rev xs))"

definition merge_point :: "(string, string list) dict \<Rightarrow> string option \<times> string \<times> string list \<Rightarrow> (string, string list) dict" where
  "merge_point merged p = (case p of (_, row, options) \<Rightarrow> (case dict_get merged row of
       None \<Rightarrow> merged @ [(row, options)]
     | Some old \<Rightarrow> dict_set row (keep_first (old @ options)) merged))"

record branch_point =
  bp_anchor :: string
  bp_options :: "string list"
  bp_active_index :: nat

definition divergence_points :: "branch list \<Rightarrow> string \<Rightarrow> message list \<Rightarrow> branch_point option list" where
  \<comment> \<open>\<open>None\<close> where \<open>index\<close> would raise\<close>
  "divergence_points records active ms =
     (let merged = foldl merge_point [] (key_points records active ms)
      in map (\<lambda>(row, options). if active \<in> set options
             then Some \<lparr>bp_anchor = row, bp_options = options, bp_active_index = length (takeWhile (\<lambda>b. b \<noteq> active) options)\<rparr> else None)
           (sort_key (\<lambda>(row, _). case row_position ms row of None \<Rightarrow> 0 | Some i \<Rightarrow> i) merged))"

section \<open>Ancestors\<close>

definition parent_of :: "branch list \<Rightarrow> string \<Rightarrow> string option" where
  "parent_of records b = (case branch_by_id records b of None \<Rightarrow> None | Some r \<Rightarrow> br_parent r)"

definition ranked :: "(string \<Rightarrow> nat) \<Rightarrow> branch list \<Rightarrow> bool" where
  \<comment> \<open>a parent ranks below its children, and there are no more ranks than records\<close>
  "ranked f records \<longleftrightarrow> (\<forall>b. f b \<le> length records) \<and> (\<forall>b p. parent_of records b = Some p \<longrightarrow> f p < f b)"

fun chain :: "nat \<Rightarrow> branch list \<Rightarrow> string \<Rightarrow> string list" where
  "chain 0 records b = [b]"
| "chain (Suc n) records b = b # (case parent_of records b of None \<Rightarrow> [] | Some p \<Rightarrow> chain n records p)"

lemma climb_parent:
  "climb (Suc n) records path b = (case parent_of records b of
     None \<Rightarrow> path | Some p \<Rightarrow> if p \<in> set path then path else climb n records (path @ [p]) p)"
  by (simp add: parent_of_def split: option.split)

lemma climb_chain:
  assumes "ranked f records" and "\<And>x. x \<in> set path \<Longrightarrow> f b \<le> f x" and "path \<noteq> []" and "last path = b"
  shows "climb n records path b = butlast path @ chain n records b"
  using assms(2-4)
proof (induction n arbitrary: path b)
  case (Suc n)
  show ?case
  proof (cases "parent_of records b")
    case None
    then show ?thesis using Suc.prems append_butlast_last_id[of path] by (simp add: climb_parent del: climb.simps)
  next
    case (Some p)
    have less: "f p < f b" using assms(1) Some by (simp add: ranked_def)
    then have "p \<notin> set path" using Suc.prems(1) by fastforce
    moreover have "climb n records (path @ [p]) p = path @ chain n records p"
      using Suc.IH[of "path @ [p]" p] Suc.prems(1) less by fastforce
    ultimately show ?thesis
      using Some Suc.prems append_butlast_last_id[of path] by (simp add: climb_parent del: climb.simps)
  qed
qed (use append_butlast_last_id in fastforce)

lemma chain_enough:
  assumes "ranked f records"
  shows "f b \<le> n \<Longrightarrow> f b \<le> m \<Longrightarrow> chain n records b = chain m records b"
proof (induction n arbitrary: m b)
  case 0
  then have "parent_of records b = None" using assms by (cases "parent_of records b") (fastforce simp: ranked_def)+
  then show ?case by (cases m) simp_all
next
  case (Suc n)
  show ?case
  proof (cases "parent_of records b")
    case (Some p)
    then have less: "f p < f b" using assms by (simp add: ranked_def)
    then obtain k where "m = Suc k" using Suc.prems(2) by (cases m) simp_all
    then show ?thesis using Some Suc.IH[of p k] Suc.prems less by simp
  qed (cases m; simp)
qed

lemma lineage_step:
  assumes "ranked f records"
  shows "lineage records b = b # (case parent_of records b of None \<Rightarrow> [] | Some p \<Rightarrow> lineage records p)"
proof -
  have all: "lineage records x = chain (Suc (length records)) records x" for x
    using climb_chain[OF assms, of "[x]" x] by (simp add: lineage_def del: climb.simps chain.simps)
  show ?thesis
  proof (cases "parent_of records b")
    case (Some p)
    have "f p \<le> length records" using assms by (simp add: ranked_def)
    then have "chain (length records) records p = chain (Suc (length records)) records p"
      using chain_enough[OF assms, of p "length records" "Suc (length records)"] by simp
    then show ?thesis using Some by (simp only: all chain.simps option.case)
  qed (simp add: all)
qed

lemma lineage_ranks:
  assumes "ranked f records" and "x \<in> set (lineage records b)"
  shows "f x \<le> f b \<and> (\<exists>pre. lineage records b = pre @ lineage records x)"
  using assms(2)
proof (induction "f b" arbitrary: b rule: less_induct)
  case less
  show ?case
  proof (cases "parent_of records b")
    case None
    then have "x = b" using less.prems lineage_step[OF assms(1), of b] by simp
    then show ?thesis by simp
  next
    case (Some p)
    then have below: "f p < f b" using assms(1) by (simp add: ranked_def)
    have step: "lineage records b = b # lineage records p" using Some lineage_step[OF assms(1), of b] by simp
    consider "x = b" | "x \<in> set (lineage records p)" using less.prems step by auto
    then show ?thesis
    proof cases
      case 2
      then obtain pre where "f x \<le> f p" "lineage records p = pre @ lineage records x" using less.hyps[OF below] by blast
      then show ?thesis using below step by (intro conjI exI[of _ "b # pre"]) simp_all
    qed simp
  qed
qed

lemma lineage_distinct:
  assumes "ranked f records"
  shows "distinct (lineage records b)"
proof (induction "f b" arbitrary: b rule: less_induct)
  case less
  show ?case
  proof (cases "parent_of records b")
    case (Some p)
    then have below: "f p < f b" using assms by (simp add: ranked_def)
    then have "b \<notin> set (lineage records p)" using lineage_ranks[OF assms, of b p] by fastforce
    then show ?thesis using less[OF below] Some lineage_step[OF assms, of b] by simp
  qed (simp add: lineage_step[OF assms, of b])
qed

definition parting :: "branch list \<Rightarrow> string \<Rightarrow> string \<Rightarrow> string set" where
  \<comment> \<open>the ancestors that only one of two branches has, a branch being among its own\<close>
  "parting records a b = (set (lineage records a) - set (lineage records b)) \<union> (set (lineage records b) - set (lineage records a))"

lemma takeWhile_split: "x \<notin> set A \<Longrightarrow> takeWhile (\<lambda>y. y \<noteq> x) (A @ x # C) = A"
  by (induction A) auto

lemma hops_parting:
  assumes r: "ranked f records" and "\<exists>x. x \<in> set (lineage records a) \<and> x \<in> set (lineage records b)"
  obtains hops where "split_hops records a b = Some hops" and "set hops = parting records a b"
proof -
  let ?a = "lineage records a" and ?b = "lineage records b"
  obtain lca where find: "List.find (\<lambda>x. x \<in> set ?b) ?a = Some lca"
    using assms(2) by (cases "List.find (\<lambda>x. x \<in> set ?b) ?a") (auto simp: find_None_iff)
  then have lca: "lca \<in> set ?a" "lca \<in> set ?b" by (auto simp: find_Some_iff)
  obtain A B where A: "?a = A @ lineage records lca" and B: "?b = B @ lineage records lca"
    using lineage_ranks[OF r lca(1)] lineage_ranks[OF r lca(2)] by blast
  have head: "lineage records lca = lca # tl (lineage records lca)" using lineage_step[OF r, of lca] by simp
  have "set A \<inter> set (lineage records lca) = {}" "set B \<inter> set (lineage records lca) = {}" "lca \<in> set (lineage records lca)"
    using lineage_distinct[OF r, of a] lineage_distinct[OF r, of b] A B by (simp, simp, subst head, simp)
  then have fresh: "lca \<notin> set A" "lca \<notin> set B" "set B \<inter> set (lineage records lca) = {}" by blast+
  have ta: "takeWhile (\<lambda>x. x \<noteq> lca) ?a = A" and tb: "takeWhile (\<lambda>x. x \<noteq> lca) ?b = B"
    unfolding A B by (subst head, rule takeWhile_split, rule fresh)+
  have "x \<notin> set ?b" if x: "x \<in> set A" for x
  proof -
    obtain i where i: "i < length ?a" "?a ! i = lca" "\<And>j. j < i \<Longrightarrow> ?a ! j \<notin> set ?b"
      using find by (auto simp: find_Some_iff)
    have "?a ! length A = lca" "length A < length ?a" by (subst A, subst head, simp)+
    then have "i = length A" using i(1,2) lineage_distinct[OF r, of a] nth_eq_iff_index_eq by metis
    moreover obtain j where "j < length A" "x = A ! j" using x by (auto simp: in_set_conv_nth)
    ultimately have "?a ! j \<notin> set ?b" "?a ! j = x" using i(3) by (simp_all add: A nth_append)
    then show ?thesis by simp
  qed
  then have "set (A @ B) = parting records a b"
    using fresh A B unfolding parting_def by auto
  moreover have "split_hops records a b = Some (A @ B)" by (simp add: split_hops_def find ta tb Let_def)
  ultimately show ?thesis using that by blast
qed

lemma less_foldl_min: "(r :: enat) < foldl (\<lambda>split hop. min split (g hop)) e hops \<longleftrightarrow> r < e \<and> (\<forall>h\<in>set hops. r < g h)"
  by (induction hops arbitrary: e) auto

lemma beyond_split:
  assumes "ranked f records" and "\<exists>x. x \<in> set (lineage records a) \<and> x \<in> set (lineage records b)" and "r \<noteq> \<infinity>"
  shows "r < split_position records position a b \<longleftrightarrow> (\<forall>h\<in>parting records a b. r < position (fork_of records h))"
proof (cases "a = b")
  case False
  obtain hops where "split_hops records a b = Some hops" "set hops = parting records a b"
    using hops_parting[OF assms(1,2)] .
  then show ?thesis using False assms(3) by (simp add: split_position_def less_foldl_min)
qed (use assms(3) in \<open>simp add: split_position_def parting_def\<close>)

section \<open>Groups\<close>

lemma add_to_groups_members:
  "mset (concat (add_to_groups same c gs)) = add_mset c (mset (concat gs))"
  "\<forall>g\<in>set gs. g \<noteq> [] \<Longrightarrow> \<forall>g\<in>set (add_to_groups same c gs). g \<noteq> []"
  by (induction gs) auto

lemma group_branches_snoc: "group_branches same (cs @ [c]) = add_to_groups same c (group_branches same cs)"
  by (simp add: group_branches_def)

lemma group_branches_members:
  "mset (concat (group_branches same cs)) = mset cs \<and> (\<forall>g\<in>set (group_branches same cs). g \<noteq> [])"
proof (induction cs rule: rev_induct)
  case Nil
  then show ?case by (simp add: group_branches_def)
next
  case (snoc c cs)
  then show ?case
    unfolding group_branches_snoc
    using add_to_groups_members(1)[of same c "group_branches same cs"] add_to_groups_members(2)[of "group_branches same cs" same c]
    by simp
qed

definition classes :: "(string \<Rightarrow> string \<Rightarrow> bool) \<Rightarrow> string list list \<Rightarrow> bool" where
  "classes same gs \<longleftrightarrow> (\<forall>g\<in>set gs. g \<noteq> [] \<and> (\<forall>x\<in>set g. same x (hd g)))
     \<and> (\<forall>i j. i < j \<longrightarrow> j < length gs \<longrightarrow> \<not> same (hd (gs ! j)) (hd (gs ! i)))"

lemma classes_Cons:
  "classes same (g # gs) \<longleftrightarrow> g \<noteq> [] \<and> (\<forall>x\<in>set g. same x (hd g)) \<and> (\<forall>h\<in>set gs. \<not> same (hd h) (hd g)) \<and> classes same gs"
proof -
  have "(\<forall>i j. i < j \<longrightarrow> j < length (g # gs) \<longrightarrow> \<not> same (hd ((g # gs) ! j)) (hd ((g # gs) ! i)))
    \<longleftrightarrow> (\<forall>h\<in>set gs. \<not> same (hd h) (hd g)) \<and> (\<forall>i j. i < j \<longrightarrow> j < length gs \<longrightarrow> \<not> same (hd (gs ! j)) (hd (gs ! i)))"
    (is "?l \<longleftrightarrow> ?r")
  proof
    assume l: ?l
    have "\<not> same (hd h) (hd g)" if h: "h \<in> set gs" for h
    proof -
      obtain k where "k < length gs" "h = gs ! k" using h by (auto simp: in_set_conv_nth)
      then show ?thesis using l[rule_format, of 0 "Suc k"] by simp
    qed
    moreover have "\<not> same (hd (gs ! j)) (hd (gs ! i))" if "i < j" "j < length gs" for i j
      using l[rule_format, of "Suc i" "Suc j"] that by simp
    ultimately show ?r by blast
  next
    assume r: ?r
    show ?l
    proof (intro allI impI)
      fix i j :: nat assume ij: "i < j" "j < length (g # gs)"
      then obtain k where k: "j = Suc k" "k < length gs" by (cases j) auto
      show "\<not> same (hd ((g # gs) ! j)) (hd ((g # gs) ! i))"
        using r ij k by (cases i) (auto dest: nth_mem)
    qed
  qed
  then show ?thesis unfolding classes_def by auto
qed

lemma add_to_groups_heads:
  "h \<in> set (add_to_groups same c gs) \<Longrightarrow> \<forall>g\<in>set gs. g \<noteq> [] \<Longrightarrow> hd h = c \<and> (\<forall>g\<in>set gs. \<not> same c (hd g)) \<or> (\<exists>g\<in>set gs. hd h = hd g)"
  by (induction gs) (auto split: if_splits)

lemma classes_add:
  assumes "classes same gs" and "\<And>x. x \<in> insert c (set (concat gs)) \<Longrightarrow> same x x"
    and sym: "\<And>x y. x \<in> insert c (set (concat gs)) \<Longrightarrow> y \<in> insert c (set (concat gs)) \<Longrightarrow> same x y \<longleftrightarrow> same y x"
  shows "classes same (add_to_groups same c gs)"
  using assms
proof (induction gs)
  case Nil
  then show ?case by (simp add: classes_def)
next
  case (Cons g gs)
  have g: "g \<noteq> []" "\<forall>x\<in>set g. same x (hd g)" "\<forall>h\<in>set gs. \<not> same (hd h) (hd g)" "classes same gs"
    using Cons.prems(1) by (auto simp: classes_Cons)
  show ?case
  proof (cases "same c (hd g)")
    case False
    have "classes same (add_to_groups same c gs)"
    proof (rule Cons.IH[OF g(4)])
      fix x y assume x: "x \<in> insert c (set (concat gs))"
      then have x': "x \<in> insert c (set (concat (g # gs)))" by auto
      then show "same x x" by (rule Cons.prems(2))
      assume "y \<in> insert c (set (concat gs))"
      then have "y \<in> insert c (set (concat (g # gs)))" by auto
      then show "same x y \<longleftrightarrow> same y x" by (rule Cons.prems(3)[OF x'])
    qed
    moreover have "\<not> same (hd h) (hd g)" if "h \<in> set (add_to_groups same c gs)" for h
      using add_to_groups_heads[OF that] g False by (auto simp: classes_def)
    ultimately show ?thesis using False g by (simp add: classes_Cons)
  qed (use g in \<open>simp add: classes_Cons hd_append\<close>)
qed

lemma classes_group:
  assumes "\<And>x. x \<in> set cs \<Longrightarrow> same x x" and "\<And>x y. x \<in> set cs \<Longrightarrow> y \<in> set cs \<Longrightarrow> same x y \<longleftrightarrow> same y x"
  shows "classes same (group_branches same cs)"
  using assms
proof (induction cs rule: rev_induct)
  case Nil
  then show ?case by (simp add: group_branches_def classes_def)
next
  case (snoc c cs)
  have "set (concat (group_branches same cs)) = set cs" using group_branches_members by (metis set_mset_mset)
  then show ?case unfolding group_branches_snoc using classes_add[OF snoc.IH] snoc.prems by simp
qed

lemma same_class:
  assumes cl: "classes same gs" and eq: "\<And>x y z. x \<in> S \<Longrightarrow> y \<in> S \<Longrightarrow> z \<in> S \<Longrightarrow> same x y \<Longrightarrow> same y z \<Longrightarrow> same x z"
    and sym: "\<And>x y. x \<in> S \<Longrightarrow> y \<in> S \<Longrightarrow> same x y \<Longrightarrow> same y x" and S: "set (concat gs) \<subseteq> S"
    and xy: "x \<in> set (concat gs)" "y \<in> set (concat gs)"
  shows "(\<exists>g\<in>set gs. x \<in> set g \<and> y \<in> set g) \<longleftrightarrow> same x y"
proof
  have heads: "hd g \<in> S" if g: "g \<in> set gs" for g
  proof -
    have "hd g \<in> set g" using cl g by (simp add: classes_def)
    then show ?thesis using g S by auto
  qed
  {
    assume "\<exists>g\<in>set gs. x \<in> set g \<and> y \<in> set g"
    then obtain g where "g \<in> set gs" "same x (hd g)" "same y (hd g)" using cl by (auto simp: classes_def)
    then show "same x y" using eq sym heads xy S by (meson subsetD)
  }
  assume xy': "same x y"
  obtain g h where "g \<in> set gs" "x \<in> set g" "h \<in> set gs" "y \<in> set h" using xy by auto
  then obtain i j where ij: "i < length gs" "x \<in> set (gs ! i)" "j < length gs" "y \<in> set (gs ! j)"
    by (metis in_set_conv_nth)
  then have "same x (hd (gs ! i))" "same y (hd (gs ! j))" using cl nth_mem by (auto simp: classes_def)
  then have both: "same (hd (gs ! i)) (hd (gs ! j))" "same (hd (gs ! j)) (hd (gs ! i))"
    using xy' eq sym heads ij nth_mem xy S by (meson subsetD)+
  then have "i = j" using cl ij by (metis classes_def nat_neq_iff)
  then show "\<exists>g\<in>set gs. x \<in> set g \<and> y \<in> set g" using ij nth_mem by blast
qed

section \<open>The tree of a session\<close>

lemma tree_rows_above: "tree_rows prior (pre @ r # post) \<Longrightarrow> parent_above (prior @ pre) r"
  by (simp add: tree_rows_append)

lemma find_member: "List.find P xs = Some x \<Longrightarrow> x \<in> set xs \<and> P x"
  by (induction xs) (auto split: if_splits)

lemma find_exists: "x \<in> set xs \<Longrightarrow> P x \<Longrightarrow> \<exists>y. List.find P xs = Some y"
  by (induction xs) auto

lemma branch_by_id_tree:
  assumes "branch_tree tab"
  shows "branch_by_id (list_branches s tab) b = Some r \<longleftrightarrow> r \<in> set tab \<and> br_session r = s \<and> br_id r = b"
proof -
  have dist: "distinct (map (\<lambda>r. (br_session r, br_id r)) tab)" using tree_rows_distinct assms by (auto simp: branch_tree_iff)
  have unique: "q = q'" if "q \<in> set tab" "q' \<in> set tab" "br_session q = br_session q'" "br_id q = br_id q'" for q q'
    using dist that by (metis (mono_tags, lifting) distinct_map inj_onD)
  show ?thesis
  proof
    assume "branch_by_id (list_branches s tab) b = Some r"
    then have "r \<in> set (rev (list_branches s tab)) \<and> br_id r = b"
      unfolding branch_by_id_def by (rule find_member)
    then show "r \<in> set tab \<and> br_session r = s \<and> br_id r = b" by (simp add: list_branches_def)
  next
    assume r: "r \<in> set tab \<and> br_session r = s \<and> br_id r = b"
    then have "r \<in> set (rev (list_branches s tab))" by (simp add: list_branches_def)
    then obtain q where q: "branch_by_id (list_branches s tab) b = Some q"
      unfolding branch_by_id_def using r find_exists[of r "rev (list_branches s tab)" "\<lambda>r. br_id r = b"] by blast
    then have "q \<in> set (rev (list_branches s tab)) \<and> br_id q = b"
      unfolding branch_by_id_def by (rule find_member)
    then have "q = r" using r unique by (simp add: list_branches_def)
    then show "branch_by_id (list_branches s tab) b = Some r" using q by simp
  qed
qed

lemma find_in_tree: "has_branch s b tab \<longleftrightarrow> (\<exists>r\<in>set tab. br_session r = s \<and> br_id r = b)"
  by (auto simp: has_branch_def list_ex_iff)

definition row_rank :: "string \<Rightarrow> branch_table \<Rightarrow> string \<Rightarrow> nat" where
  "row_rank s tab b = length (takeWhile (\<lambda>r. br_id r \<noteq> b) (filter (\<lambda>r. br_session r = s) tab))"

lemma takeWhile_less:
  assumes "p \<in> set (map br_id pre)" and "b \<notin> set (map br_id pre)" and "br_id r = b"
  shows "length (takeWhile (\<lambda>r. br_id r \<noteq> p) (pre @ r # post)) < length (takeWhile (\<lambda>r. br_id r \<noteq> b) (pre @ r # post))"
  using assms by (induction pre) (auto split: if_splits)

lemma tree_ranked:
  assumes "branch_tree tab"
  shows "ranked (row_rank s tab) (list_branches s tab)"
  unfolding ranked_def
proof (intro conjI allI impI)
  show "row_rank s tab b \<le> length (list_branches s tab)" for b
    by (simp add: row_rank_def list_branches_def length_takeWhile_le)
  fix b p assume "parent_of (list_branches s tab) b = Some p"
  then obtain r where r: "branch_by_id (list_branches s tab) b = Some r" and p: "br_parent r = Some p"
    by (auto simp: parent_of_def split: option.splits)
  then have mem: "r \<in> set tab" "br_session r = s" "br_id r = b" using branch_by_id_tree[OF assms] by auto
  then obtain pre post where tab: "tab = pre @ r # post" by (metis split_list)
  let ?mine = "\<lambda>xs. filter (\<lambda>q. br_session q = s) xs"
  have rows: "tree_rows [] (pre @ r # post)" using assms tab by (simp add: branch_tree_iff)
  have "has_branch s p pre" using tree_rows_above[OF rows] p mem by (simp add: parent_above_def)
  then have above: "p \<in> set (map br_id (?mine pre))" by (auto simp: find_in_tree)
  have "\<not> has_branch s b pre" using rows mem by (simp add: tree_rows_append)
  then have below: "b \<notin> set (map br_id (?mine pre))" by (auto simp: find_in_tree)
  show "row_rank s tab p < row_rank s tab b"
    unfolding row_rank_def tab using takeWhile_less[OF above below mem(3), of "?mine post"] mem(2) by simp
qed

lemma root_in_lineage:
  assumes tree: "branch_tree tab" and "has_branch s b tab"
  shows "root_branch_id \<in> set (lineage (list_branches s tab) b)"
  using assms(2)
proof (induction "row_rank s tab b" arbitrary: b rule: less_induct)
  case less
  let ?records = "list_branches s tab"
  obtain r where mem: "r \<in> set tab" "br_session r = s" "br_id r = b" using less.prems by (auto simp: find_in_tree)
  then have r: "branch_by_id ?records b = Some r" by (simp add: branch_by_id_tree[OF tree])
  obtain pre post where tab: "tab = pre @ r # post" using mem(1) by (metis split_list)
  then have up: "parent_above pre r" using tree tree_rows_above[of "[]" pre r post] by (simp add: branch_tree_iff)
  note step = lineage_step[OF tree_ranked[OF tree, of s], of b]
  show ?case
  proof (cases "br_parent r")
    case None
    then show ?thesis using up mem step by (simp add: parent_above_def)
  next
    case (Some p)
    then have p: "parent_of ?records b = Some p" by (simp add: parent_of_def r)
    have "has_branch s p tab" using up Some mem tab by (simp add: parent_above_def)
    then have "root_branch_id \<in> set (lineage ?records p)"
      using less.hyps[of p] tree_ranked[OF tree, of s] p by (simp add: ranked_def)
    then show ?thesis using step p by simp
  qed
qed

lemma sort_pair_set [simp]: "set (sort_pair records time bs) = set bs"
  by (simp add: sort_pair_def)

lemma candidate_in_tree:
  assumes tree: "branch_tree tab" and "has_branch s active tab" and "x \<in> set (key_candidates (list_branches s tab) active key)"
  shows "has_branch s x tab"
proof -
  consider "x = active" | r where "r \<in> set (list_branches s tab)" "x = br_id r \<or> br_parent r = Some x"
    using assms(3) by (auto simp: key_candidates_def key_members_def split: option.splits if_splits)
  then show ?thesis
  proof cases
    case 2
    then have r: "r \<in> set tab" "br_session r = s" by (auto simp: list_branches_def)
    then obtain pre post where tab: "tab = pre @ r # post" by (metis split_list)
    then have "parent_above pre r" using tree tree_rows_above[of "[]" pre r post] by (simp add: branch_tree_iff)
    then show ?thesis using 2 r tab by (auto simp: parent_above_def)
  qed (use assms(2) in simp)
qed

section \<open>Versions\<close>

lemma group_classes:
  assumes "\<And>a. a \<in> set cs \<Longrightarrow> same a a" and sym: "\<And>a b. a \<in> set cs \<Longrightarrow> b \<in> set cs \<Longrightarrow> same a b \<longleftrightarrow> same b a"
    and "\<And>a b c. a \<in> set cs \<Longrightarrow> b \<in> set cs \<Longrightarrow> c \<in> set cs \<Longrightarrow> same a b \<Longrightarrow> same b c \<Longrightarrow> same a c"
    and "x \<in> set cs" and "y \<in> set cs"
  shows "(\<exists>g\<in>set (group_branches same cs). x \<in> set g \<and> y \<in> set g) \<longleftrightarrow> same x y"
proof -
  have "set (concat (group_branches same cs)) = set cs" using group_branches_members by (metis set_mset_mset)
  then have sub: "set (concat (group_branches same cs)) \<subseteq> set cs" "x \<in> set (concat (group_branches same cs))"
    "y \<in> set (concat (group_branches same cs))"
    using assms(4,5) by simp_all
  have cl: "classes same (group_branches same cs)" by (rule classes_group) (use assms(1) sym in blast)+
  show ?thesis
    by (rule same_class[OF cl assms(3) iffD1[OF sym] sub])
qed

lemma key_groups_classes:
  assumes tree: "branch_tree tab" and act: "has_branch s active tab" and r: "r \<noteq> \<infinity>"
    and cand: "x \<in> set (key_candidates (list_branches s tab) active key)" "y \<in> set (key_candidates (list_branches s tab) active key)"
  shows "(\<exists>g\<in>set (key_groups (list_branches s tab) active ms key r). x \<in> set g \<and> y \<in> set g)
    \<longleftrightarrow> (\<forall>h\<in>parting (list_branches s tab) x y. r < fork_position ms key r (fork_of (list_branches s tab) h))"
proof -
  let ?records = "list_branches s tab"
  let ?cs = "key_candidates ?records active key"
  let ?pos = "fork_position ms key r"
  let ?same = "\<lambda>c g. r < split_position ?records ?pos c g"
  have same: "?same a b \<longleftrightarrow> (\<forall>h\<in>parting ?records a b. r < ?pos (fork_of ?records h))" if "a \<in> set ?cs" "b \<in> set ?cs" for a b
    using beyond_split[OF tree_ranked[OF tree] _ r] root_in_lineage[OF tree candidate_in_tree[OF tree act]] that by blast
  have refl: "?same a a" if "a \<in> set ?cs" for a using same[OF that that] by (simp add: parting_def)
  have sym: "?same a b \<longleftrightarrow> ?same b a" if "a \<in> set ?cs" "b \<in> set ?cs" for a b
    using same[OF that] same[OF that(2,1)] by (simp add: parting_def Un_commute)
  have trans: "?same a c" if "a \<in> set ?cs" "b \<in> set ?cs" "c \<in> set ?cs" "?same a b" "?same b c" for a b c
  proof -
    have "parting ?records a c \<subseteq> parting ?records a b \<union> parting ?records b c" by (auto simp: parting_def)
    then show ?thesis using same that by blast
  qed
  have "(\<exists>g\<in>set (group_branches ?same ?cs). x \<in> set g \<and> y \<in> set g) \<longleftrightarrow> ?same x y"
    by (rule group_classes[OF refl sym trans cand])
  from this same[OF cand] show ?thesis unfolding key_groups_def by (rule HOL.trans)
qed

lemma key_place_finite: "key_place active records ms key = Some (r, i) \<Longrightarrow> r \<noteq> \<infinity>"
  by (auto simp: key_place_def zero_enat_def split: option.splits if_splits)

text \<open>
  C8: At every point of the active thread two branches are offered as the same version exactly when every fork on the way
  between them lies behind the point, although the code compares each branch with one representative per version only.
\<close>
theorem navigator_classes:
  assumes "branch_tree tab" and "get_active s tab = Some a"
    and "key_place (br_id a) (list_branches s tab) ms key = Some (r, i)"
    and "x \<in> set (key_candidates (list_branches s tab) (br_id a) key)" and "y \<in> set (key_candidates (list_branches s tab) (br_id a) key)"
  shows "(\<exists>g\<in>set (key_groups (list_branches s tab) (br_id a) ms key r). x \<in> set g \<and> y \<in> set g)
    \<longleftrightarrow> (\<forall>h\<in>parting (list_branches s tab) x y. r < fork_position ms key r (fork_of (list_branches s tab) h))"
proof -
  have "a \<in> set (list_branches s tab)" using find_member assms(2) by (fastforce simp: get_active_def)
  then have "has_branch s (br_id a) tab" by (auto simp: list_branches_def find_in_tree)
  then show ?thesis using key_groups_classes assms(1,4,5) key_place_finite[OF assms(3)] by blast
qed

section \<open>What is offered\<close>

lemma disjoint_groups:
  assumes "distinct (concat gs)" and "\<forall>g\<in>set gs. g \<noteq> []" and "\<And>g. g \<in> set gs \<Longrightarrow> f g \<in> set g"
  shows "distinct (map f gs)"
  using assms
proof (induction gs)
  case (Cons g gs)
  have "f g \<noteq> f h" if h: "h \<in> set gs" for h
    using Cons.prems(1) Cons.prems(3)[of g] Cons.prems(3)[of h] h by auto
  then show ?case using Cons by (simp add: image_iff)
qed simp

lemma representative_in: "g \<noteq> [] \<Longrightarrow> representative records active g \<in> set g"
  using last_in_set[of "sort_pair records br_last g"]
  by (auto simp: representative_def simp flip: set_empty)

lemma key_point_options:
  assumes "key_point records active ms key = Some (k, row, options)"
  shows "active \<in> set options \<and> distinct options \<and> 2 \<le> length options
    \<and> set options \<subseteq> set (key_candidates records active k)
    \<and> (\<exists>m\<in>set ms. msg_row_id m = Some row)"
proof -
  obtain r i where place: "key_place active records ms key = Some (r, i)"
    and many: "2 \<le> length (key_groups records active ms key r)" and row: "msg_row_id (ms ! i) = Some row"
    and options: "options = map (representative records active) (key_groups records active ms key r)"
    using assms by (auto simp: key_point_def Let_def not_less split: option.splits if_splits)
  let ?gs = "key_groups records active ms key r"
  have ms: "mset (concat ?gs) = mset (key_candidates records active key)" and ne: "\<forall>g\<in>set ?gs. g \<noteq> []"
    unfolding key_groups_def using group_branches_members by blast+
  have "distinct (key_candidates records active key)" by (simp add: key_candidates_def sort_pair_def)
  then have dist: "distinct (concat ?gs)" using ms by (metis mset_eq_imp_distinct_iff)
  have members: "set (concat ?gs) = set (key_candidates records active key)" using ms by (metis set_mset_mset)
  have "active \<in> set (concat ?gs)" unfolding members by (simp add: key_candidates_def)
  then obtain g where g: "g \<in> set ?gs" "active \<in> set g" by auto
  then have "representative records active g = active" by (simp add: representative_def)
  then have "active \<in> set options" unfolding options using g(1) by force
  moreover have "distinct options" unfolding options using disjoint_groups[OF dist ne] representative_in ne by blast
  moreover have "set options \<subseteq> set (key_candidates records active key)"
    unfolding options members[symmetric] using representative_in ne by fastforce
  moreover have "k = key" using assms by (auto simp: key_point_def Let_def split: option.splits if_splits)
  moreover have "i < length ms"
    using place
    by (auto simp: key_place_def row_position_def last_summary_index_def dest!: last_index_Some split: option.splits if_splits)
  ultimately show ?thesis using many row options nth_mem by (metis (no_types, lifting) length_map)
qed

definition offers :: "(string \<Rightarrow> bool) \<Rightarrow> string \<Rightarrow> message list \<Rightarrow> string \<times> string list \<Rightarrow> bool" where
  "offers known active ms p \<longleftrightarrow> (case p of (row, options) \<Rightarrow>
     active \<in> set options \<and> distinct options \<and> 2 \<le> length options \<and> (\<forall>b\<in>set options. known b) \<and> (\<exists>m\<in>set ms. msg_row_id m = Some row))"

lemma keep_first_set [simp]: "set (keep_first xs) = set xs" "distinct (keep_first xs)"
  by (simp_all add: keep_first_def)

lemma set_update_subset: "set (AList.update k v d) \<subseteq> insert (k, v) (set d)"
  by (induction d) auto

lemma merge_offers:
  assumes "\<forall>p\<in>set merged. offers known active ms p" and "distinct (map fst merged)"
    and "offers known active ms (row, options)"
  shows "(\<forall>p\<in>set (merge_point merged (k, row, options)). offers known active ms p) \<and> distinct (map fst (merge_point merged (k, row, options)))"
proof (cases "dict_get merged row")
  case None
  then have fresh: "row \<notin> fst ` set merged" by (simp add: map_of_eq_None_iff)
  have "merge_point merged (k, row, options) = merged @ [(row, options)]" using None by (simp add: merge_point_def)
  then show ?thesis using assms fresh by simp
next
  case (Some old)
  then have old: "offers known active ms (row, old)" using assms(1) map_of_SomeD by fast
  have "length old \<le> length (keep_first (old @ options))"
    using old by (simp add: offers_def flip: distinct_card) (simp add: card_mono flip: distinct_card)
  then have "offers known active ms (row, keep_first (old @ options))"
    using old assms(3) by (auto simp: offers_def)
  then have "\<forall>p\<in>set (merge_point merged (k, row, options)). offers known active ms p"
    unfolding merge_point_def using Some assms(1) set_update_subset[of row "keep_first (old @ options)" merged] by auto
  then show ?thesis using Some assms(2) by (simp add: merge_point_def distinct_update)
qed

lemma merged_offers:
  assumes "\<forall>p\<in>set merged. offers known active ms p" and "distinct (map fst merged)"
    and "\<forall>(k, row, options)\<in>set points. offers known active ms (row, options)"
  shows "(\<forall>p\<in>set (foldl merge_point merged points). offers known active ms p) \<and> distinct (map fst (foldl merge_point merged points))"
  using assms
proof (induction points arbitrary: merged)
  case (Cons p points)
  obtain k row options where p: "p = (k, row, options)" by (cases p) auto
  have "offers known active ms (row, options)" using Cons.prems(3) p by simp
  note step = merge_offers[OF Cons.prems(1,2) this, of k]
  have rest: "\<forall>(k, row, options)\<in>set points. offers known active ms (row, options)" using Cons.prems(3) by simp
  show ?case unfolding foldl_Cons p by (rule Cons.IH[OF conjunct1[OF step] conjunct2[OF step] rest])
qed simp

lemma map_filter_member: "y \<in> set (List.map_filter f xs) \<Longrightarrow> \<exists>x\<in>set xs. f x = Some y"
  by (induction xs) (auto simp: List.map_filter_simps split: option.splits)

lemma key_points_offer:
  assumes "branch_tree tab" and "has_branch s active tab"
  shows "\<forall>(k, row, options)\<in>set (key_points (list_branches s tab) active ms). offers (\<lambda>b. has_branch s b tab) active ms (row, options)"
proof (clarify)
  fix k row options assume mem: "(k, row, options) \<in> set (key_points (list_branches s tab) active ms)"
  obtain key where "key_point (list_branches s tab) active ms key = Some (k, row, options)"
    using map_filter_member[OF mem[unfolded key_points_def]] by blast
  note point = key_point_options[OF this]
  have "\<forall>b\<in>set options. has_branch s b tab"
  proof
    fix b assume "b \<in> set options"
    then have "b \<in> set (key_candidates (list_branches s tab) active k)" using point by (meson subsetD)
    then show "has_branch s b tab" by (rule candidate_in_tree[OF assms])
  qed
  then show "offers (\<lambda>b. has_branch s b tab) active ms (row, options)" using point by (simp add: offers_def)
qed

lemma takeWhile_index: "a \<in> set xs \<Longrightarrow> length (takeWhile (\<lambda>b. b \<noteq> a) xs) < length xs \<and> xs ! length (takeWhile (\<lambda>b. b \<noteq> a) xs) = a"
  by (induction xs) auto

text \<open>
  C10: The navigator of a conversation never fails, and each of its points stands at a row of the shown thread, offers two or
  more branches of the session without repetition, and marks the active one; no row carries two points.
\<close>
theorem navigator_sound:
  assumes "branch_tree tab" and "get_active s tab = Some a"
    and points: "points = divergence_points (list_branches s tab) (br_id a) ms"
  shows "\<exists>ps. points = map Some ps \<and> distinct (map bp_anchor ps)
    \<and> (\<forall>p\<in>set ps. 2 \<le> length (bp_options p) \<and> distinct (bp_options p) \<and> (\<forall>b\<in>set (bp_options p). has_branch s b tab)
        \<and> bp_active_index p < length (bp_options p) \<and> bp_options p ! bp_active_index p = br_id a
        \<and> Some (bp_anchor p) \<in> msg_row_id ` set ms)"
proof -
  let ?merged = "foldl merge_point [] (key_points (list_branches s tab) (br_id a) ms)"
  let ?sorted = "sort_key (\<lambda>(row, _). case row_position ms row of None \<Rightarrow> 0 | Some i \<Rightarrow> i) ?merged"
  let ?point = "\<lambda>(row, options). \<lparr>bp_anchor = row, bp_options = options, bp_active_index = length (takeWhile (\<lambda>b. b \<noteq> br_id a) options)\<rparr>"
  have "a \<in> set (list_branches s tab)" using find_member assms(2) by (fastforce simp: get_active_def)
  then have "has_branch s (br_id a) tab" by (auto simp: list_branches_def find_in_tree)
  then have good: "\<forall>p\<in>set ?merged. offers (\<lambda>b. has_branch s b tab) (br_id a) ms p" "distinct (map fst ?merged)"
    using merged_offers[OF _ _ key_points_offer[OF assms(1)], of "[]"] by simp_all
  let ?found = "\<lambda>(row, options). if br_id a \<in> set options then Some (?point (row, options)) else None"
  have sorted: "\<forall>q\<in>set ?sorted. offers (\<lambda>b. has_branch s b tab) (br_id a) ms q" using good(1) by (simp only: set_sort)
  have "?found q = Some (?point q)" if "q \<in> set ?sorted" for q
    using bspec[OF sorted that] by (cases q) (simp add: offers_def)
  then have "map ?found ?sorted = map Some (map ?point ?sorted)" unfolding map_map by (intro map_cong[OF refl]) (simp only: comp_def)
  then have "points = map Some (map ?point ?sorted)"
    unfolding points divergence_points_def Let_def by (simp only: prod.case)
  moreover have "distinct (map fst ?sorted)"
    using good(2) by (simp add: distinct_map)
  then have "distinct (map bp_anchor (map ?point ?sorted))" by (simp add: comp_def case_prod_unfold)
  moreover have "\<forall>q\<in>set ?sorted. 2 \<le> length (bp_options (?point q)) \<and> distinct (bp_options (?point q))
      \<and> (\<forall>b\<in>set (bp_options (?point q)). has_branch s b tab)
      \<and> bp_active_index (?point q) < length (bp_options (?point q)) \<and> bp_options (?point q) ! bp_active_index (?point q) = br_id a
      \<and> Some (bp_anchor (?point q)) \<in> msg_row_id ` set ms" (is "\<forall>q\<in>set ?sorted. ?good q")
  proof
    fix q assume "q \<in> set ?sorted"
    then have "offers (\<lambda>b. has_branch s b tab) (br_id a) ms q" using sorted by blast
    then show "?good q" using takeWhile_index[of "br_id a" "snd q"] by (cases q) (force simp: offers_def)
  qed
  ultimately show ?thesis by (intro exI[of _ "map ?point ?sorted"]) simp
qed

section \<open>A sample tree\<close>

definition sample_branch :: "string \<Rightarrow> string \<Rightarrow> string \<Rightarrow> int \<Rightarrow> bool \<Rightarrow> branch" where
  "sample_branch b p row now active = \<lparr>br_id = b, br_session = ''s'', br_thread = branch_thread_id ''s'' b, br_parent = Some p,
     br_fork = Some row, br_op = Some ''edit'', br_created = now, br_last = now, br_active = active\<rparr>"

definition sample_tab :: branch_table where
  "sample_tab = [root_record ''s'' False 0, sample_branch ''b1'' ''root'' ''r2'' 5 False, sample_branch ''b2'' ''b1'' ''r2'' 7 True]"

definition sample_thread :: "message list" where
  "sample_thread = [\<lparr>msg_role = User, msg_content = [Text ''a''], msg_row_id = Some ''r1''\<rparr>,
     \<lparr>msg_role = Assistant, msg_content = [Text ''b''], msg_row_id = Some ''r2''\<rparr>,
     \<lparr>msg_role = User, msg_content = [Text ''c''], msg_row_id = Some ''r3''\<rparr>,
     \<lparr>msg_role = Assistant, msg_content = [Text ''d''], msg_row_id = Some ''r4''\<rparr>]"

lemma sample_tree: "branch_tree sample_tab"
  by code_simp

lemma sample_active: "get_active ''s'' sample_tab = Some (sample_branch ''b2'' ''b1'' ''r2'' 7 True)"
  by code_simp

theorem navigator_classes_witness:
  "\<not> (\<exists>g\<in>set (key_groups (list_branches ''s'' sample_tab) ''b2'' sample_thread (Some ''r2'') (enat 2)). ''b1'' \<in> set g \<and> ''b2'' \<in> set g)"
proof -
  have "(\<exists>g\<in>set (key_groups (list_branches ''s'' sample_tab) (br_id (sample_branch ''b2'' ''b1'' ''r2'' 7 True)) sample_thread (Some ''r2'') (enat 2)). ''b1'' \<in> set g \<and> ''b2'' \<in> set g)
    \<longleftrightarrow> (\<forall>h\<in>parting (list_branches ''s'' sample_tab) ''b1'' ''b2''. enat 2 < fork_position sample_thread (Some ''r2'') (enat 2) (fork_of (list_branches ''s'' sample_tab) h))"
    by (rule navigator_classes[OF sample_tree sample_active, where i = 2]) code_simp+
  moreover have "''b2'' \<in> parting (list_branches ''s'' sample_tab) ''b1'' ''b2''
      \<and> fork_of (list_branches ''s'' sample_tab) ''b2'' = Some ''r2''"
    by code_simp
  ultimately show ?thesis by (fastforce simp: sample_branch_def fork_position_def)
qed

theorem navigator_sound_witness:
  "\<exists>ps. divergence_points (list_branches ''s'' sample_tab) ''b2'' sample_thread = map Some ps \<and> distinct (map bp_anchor ps)"
  using navigator_sound[OF sample_tree sample_active refl, of sample_thread] by (fastforce simp: sample_branch_def)

end
