(* ===== verification/History_Store.thy ===== *)
theory History_Store
  imports Content_Blocks Memory_Outbox
begin

text \<open>
  \<open>core/persistence/history.py\<close> and \<open>core/persistence/row_ids.py\<close>: the conversation table in its SQLite form. A row keeps
  the content as the JSON value that its text denotes, \<open>None\<close> for text that \<open>json.loads\<close> rejects; a clock reading
  and the random id drawn for an insertion are arguments. Shown: what is written is read back in order while the clock does
  not go back, a reset replaces one thread and nothing else, the deletion of loaded ids deletes exactly the rows that show
  them, and the thread list shows each thread of the agent once, newest first, and no internal one.
\<close>

section \<open>The table\<close>

record history_row =
  hr_id :: nat
  hr_thread :: string
  hr_role :: string
  hr_content :: "json option"
  hr_created :: int
  hr_scope :: string
  hr_turn :: "string option"
  hr_message :: "string option"
  hr_row_id :: "string option"

record history_db =
  hd_rows :: "history_row list"
  hd_next :: nat \<comment> \<open>the next key of the \<open>AUTOINCREMENT\<close> column\<close>

record history_columns =
  hc_row_id :: bool
  hc_memory :: bool \<comment> \<open>\<open>turn_id\<close> and \<open>message_id\<close>\<close>

definition legacy_row_id_prefix :: string where
  "legacy_row_id_prefix = ''legacy:''"

definition row_id_for_insert :: "string \<Rightarrow> message \<Rightarrow> string" where
  \<comment> \<open>the first argument is the id that \<open>new_row_id\<close> would draw\<close>
  "row_id_for_insert drawn m = (case msg_row_id m of None \<Rightarrow> drawn | Some i \<Rightarrow> if i = [] then drawn else i)"

definition loaded_row_id :: "string option \<Rightarrow> nat \<Rightarrow> string" where
  "loaded_row_id stored key = (case stored of
       Some i \<Rightarrow> if i = [] then legacy_row_id_prefix @ str_of_nat key else i
     | None \<Rightarrow> legacy_row_id_prefix @ str_of_nat key)"

definition split_row_ids :: "string list \<Rightarrow> string list \<times> string list" where
  "split_row_ids ids =
     (let stored = rev (remdups (rev ids))
      in (stored, map (drop (length legacy_row_id_prefix)) (filter (\<lambda>i. startswith i legacy_row_id_prefix) stored)))"

definition content_payload :: "message \<Rightarrow> json" where
  "content_payload m = JList (map (\<lambda>b. JObj (to_dict b)) (msg_content m))"

section \<open>Writing\<close>

definition message_id_taken :: "string option \<Rightarrow> history_db \<Rightarrow> bool" where
  \<comment> \<open>in any thread and any scope\<close>
  "message_id_taken mid db \<longleftrightarrow> (case mid of None \<Rightarrow> False
     | Some i \<Rightarrow> i \<noteq> [] \<and> list_ex (\<lambda>r. hr_message r = Some i) (hd_rows db))"

definition insert_history_row ::
    "history_columns \<Rightarrow> string \<Rightarrow> int \<Rightarrow> string \<Rightarrow> string \<Rightarrow> json \<Rightarrow> string \<Rightarrow> string option \<Rightarrow> string option \<Rightarrow> history_db \<Rightarrow> history_db" where
  "insert_history_row cols scope now thread role payload row_id turn mid db =
     (if hc_memory cols \<and> message_id_taken mid db then db
      else db\<lparr>hd_rows := hd_rows db @ [\<lparr>hr_id = hd_next db, hr_thread = thread, hr_role = role, hr_content = Some payload,
                hr_created = now, hr_scope = scope,
                hr_turn = (if hc_memory cols then turn else None), hr_message = (if hc_memory cols then mid else None),
                hr_row_id = (if hc_row_id cols then Some row_id else None)\<rparr>],
              hd_next := Suc (hd_next db)\<rparr>)"

definition insert_message ::
    "history_columns \<Rightarrow> string \<Rightarrow> string \<times> int \<Rightarrow> string \<Rightarrow> message \<Rightarrow> string option \<Rightarrow> string option \<Rightarrow> history_db \<Rightarrow> history_db" where
  \<comment> \<open>with the id drawn for the row and the clock; the role of a message is one of the three\<close>
  "insert_message cols scope env thread m turn mid db =
     insert_history_row cols scope (snd env) thread (role_name (msg_role m)) (content_payload m)
       (row_id_for_insert (fst env) m) turn mid db"

definition append_row where
  "append_row cols scope env thread m turn mid db = insert_message cols scope env thread m turn mid db"

datatype history_error =
    MissingColumns
  | RowUnparseable nat
  | RowInvalidRole nat
  | ElementWithoutGet \<comment> \<open>the \<open>AttributeError\<close> of \<open>d.get\<close>, which no handler catches\<close>

definition append_with_outbox ::
    "(string \<Rightarrow> string) \<Rightarrow> history_columns \<Rightarrow> string \<Rightarrow> string \<times> int \<Rightarrow> string \<Rightarrow> message \<Rightarrow> string \<Rightarrow> string
      \<Rightarrow> int \<Rightarrow> int option \<Rightarrow> new_message \<Rightarrow> history_db \<times> outbox \<Rightarrow> history_error + history_db \<times> outbox" where
  \<comment> \<open>one transaction over both tables\<close>
  "append_with_outbox digest cols scope env thread m turn mid now created nm st =
     (if hc_memory cols
      then Inr (insert_history_row cols scope (snd env) thread (role_name (msg_role m)) (content_payload m)
                  (row_id_for_insert (fst env) m) (Some turn) (Some mid) (fst st),
                snd (insert_pending digest now created nm (snd st)))
      else Inl MissingColumns)"

definition in_thread :: "string \<Rightarrow> string \<Rightarrow> history_row \<Rightarrow> bool" where
  "in_thread scope thread r \<longleftrightarrow> hr_thread r = thread \<and> hr_scope r = scope"

definition clear_thread :: "string \<Rightarrow> string \<Rightarrow> history_db \<Rightarrow> history_db" where
  "clear_thread scope thread db = db\<lparr>hd_rows := filter (\<lambda>r. \<not> in_thread scope thread r) (hd_rows db)\<rparr>"

definition reset_thread ::
    "history_columns \<Rightarrow> string \<Rightarrow> (nat \<Rightarrow> string \<times> int) \<Rightarrow> string \<Rightarrow> message list \<Rightarrow> history_db \<Rightarrow> history_db" where
  \<comment> \<open>one transaction; the environment gives the id and the clock for the row of each position\<close>
  "reset_thread cols scope env thread ms db =
     fold (\<lambda>(i, m) db. insert_message cols scope (env i) thread m None None db) (enumerate 0 ms) (clear_thread scope thread db)"

section \<open>Reading\<close>

definition row_before :: "history_row list \<Rightarrow> history_row list" where
  \<comment> \<open>\<open>ORDER BY created_at ASC, id ASC\<close>\<close>
  "row_before rows = sort_key hr_created (sort_key hr_id rows)"

definition thread_history :: "string \<Rightarrow> string \<Rightarrow> history_db \<Rightarrow> history_row list" where
  "thread_history scope thread db = row_before (filter (in_thread scope thread) (hd_rows db))"

definition newest_rows :: "int option \<Rightarrow> 'a list \<Rightarrow> 'a list" where
  \<comment> \<open>\<open>LIMIT\<close> on the reversed order, reversed again; a negative limit is none\<close>
  "newest_rows limit rows = (case limit of None \<Rightarrow> rows
     | Some n \<Rightarrow> if n < 0 then rows else rev (take (nat n) (rev rows)))"

definition load_row :: "history_row \<Rightarrow> history_error + message" where
  "load_row r = (case hr_content r of
       Some (JList items) \<Rightarrow>
         (case map_result (\<lambda>item. case item of
                 JObj d \<Rightarrow> (case from_dict d of Inl _ \<Rightarrow> Inl (RowUnparseable (hr_id r)) | Inr b \<Rightarrow> Inr b)
               | _ \<Rightarrow> Inl ElementWithoutGet) items of
            Inl e \<Rightarrow> Inl e
          | Inr blocks \<Rightarrow> (case role_of_name (hr_role r) of
              None \<Rightarrow> Inl (RowInvalidRole (hr_id r))
            | Some role \<Rightarrow> Inr \<lparr>msg_role = role, msg_content = blocks, msg_row_id = Some (loaded_row_id (hr_row_id r) (hr_id r))\<rparr>))
     | _ \<Rightarrow> Inl (RowUnparseable (hr_id r)))"

definition load_thread :: "string \<Rightarrow> string \<Rightarrow> int option \<Rightarrow> history_db \<Rightarrow> history_error + message list" where
  "load_thread scope thread limit db = map_result load_row (newest_rows limit (thread_history scope thread db))"

definition last_row :: "string \<Rightarrow> string \<Rightarrow> history_db \<Rightarrow> (nat \<times> json option) option" where
  "last_row scope thread db = (case thread_history scope thread db of [] \<Rightarrow> None | rows \<Rightarrow> Some (length rows, hr_content (last rows)))"

section \<open>Deleting\<close>

definition row_unstored :: "history_row \<Rightarrow> bool" where
  "row_unstored r \<longleftrightarrow> hr_row_id r = None \<or> hr_row_id r = Some []"

definition delete_rows :: "history_columns \<Rightarrow> string \<Rightarrow> string \<Rightarrow> string list \<Rightarrow> history_db \<Rightarrow> nat \<times> history_db" where
  "delete_rows cols scope thread ids db =
     (case split_row_ids ids of (stored, legacy) \<Rightarrow>
        (let keys = map (nat_of_digits 0) (filter (\<lambda>k. k \<noteq> [] \<and> list_all py_isdigit k) legacy);
             gone1 = (\<lambda>r. in_thread scope thread r \<and> hc_row_id cols \<and> (\<exists>i\<in>set stored. hr_row_id r = Some i));
             gone2 = (\<lambda>r. in_thread scope thread r \<and> (hc_row_id cols \<longrightarrow> row_unstored r) \<and> hr_id r \<in> set keys);
             rows1 = filter (\<lambda>r. \<not> gone1 r) (hd_rows db);
             rows2 = filter (\<lambda>r. \<not> gone2 r) rows1
         in (length (hd_rows db) - length rows2, db\<lparr>hd_rows := rows2\<rparr>)))"

section \<open>The thread list\<close>

definition is_hidden_thread_id :: "string \<Rightarrow> bool" where
  "is_hidden_thread_id thread \<longleftrightarrow> startswith thread ''subagent:'' \<or> startswith thread ''branch:''"

record thread_summary =
  ts_thread :: string
  ts_last_at :: int
  ts_count :: nat
  ts_last_content :: "json option"

definition summarize_thread :: "string \<Rightarrow> string \<Rightarrow> history_db \<Rightarrow> thread_summary" where
  "summarize_thread scope thread db =
     (let rows = thread_history scope thread db; newest = last rows
      in \<lparr>ts_thread = thread, ts_last_at = hr_created newest, ts_count = length rows, ts_last_content = hr_content newest\<rparr>)"

definition list_threads :: "string \<Rightarrow> int \<Rightarrow> history_db \<Rightarrow> thread_summary list" where
  \<comment> \<open>threads of one time come in the order of their first rows\<close>
  "list_threads scope limit db =
     (let cap = nat (max 1 (min limit 200));
          names = rev (remdups (rev (map hr_thread (filter (\<lambda>r. hr_scope r = scope \<and> \<not> is_hidden_thread_id (hr_thread r)) (hd_rows db)))))
      in take cap (sort_key (\<lambda>t. - ts_last_at t) (map (\<lambda>n. summarize_thread scope n db) names)))"

section \<open>Rows in order\<close>

definition history_row_ok :: "history_row \<Rightarrow> bool" where
  \<comment> \<open>the row reads back as a message whose JSON is the content of the row\<close>
  "history_row_ok r \<longleftrightarrow> (case load_row r of Inl _ \<Rightarrow> False | Inr m \<Rightarrow> Some (content_payload m) = hr_content r)"

definition history_ok :: "history_db \<Rightarrow> bool" where
  "history_ok db \<longleftrightarrow> sorted (map hr_id (hd_rows db)) \<and> distinct (map hr_id (hd_rows db))
     \<and> list_all (\<lambda>r. hr_id r < hd_next db \<and> history_row_ok r) (hd_rows db)"

definition clock_order :: "string \<Rightarrow> string \<Rightarrow> history_db \<Rightarrow> bool" where
  "clock_order scope thread db \<longleftrightarrow> sorted (map hr_created (filter (in_thread scope thread) (hd_rows db)))"

definition stored_message :: "string \<Rightarrow> message \<Rightarrow> message" where
  \<comment> \<open>what a written message reads back as\<close>
  "stored_message drawn m = m\<lparr>msg_content := map norm_block (msg_content m), msg_row_id := Some (row_id_for_insert drawn m)\<rparr>"

lemma sort_key_sorted: "sorted (map f xs) \<Longrightarrow> sort_key f xs = xs"
  by (induction xs) (simp_all add: insort_is_Cons)

lemma sorted_filter_map: "sorted (map f xs) \<Longrightarrow> sorted (map f (filter P xs))"
  by (induction xs) auto

lemma thread_rows_in_order:
  assumes "history_ok db" and "clock_order scope thread db"
  shows "thread_history scope thread db = filter (in_thread scope thread) (hd_rows db)"
  using assms by (simp add: thread_history_def row_before_def history_ok_def clock_order_def sort_key_sorted sorted_filter_map)

lemma load_payload:
  assumes "wf_message m" and "hr_content r = Some (content_payload m)" and "hr_role r = role_name (msg_role m)"
  shows "load_row r = Inr \<lparr>msg_role = msg_role m, msg_content = map norm_block (msg_content m), msg_row_id = Some (loaded_row_id (hr_row_id r) (hr_id r))\<rparr>"
proof -
  have "map_result (\<lambda>item. case item of
      JObj d \<Rightarrow> (case from_dict d of Inl _ \<Rightarrow> Inl (RowUnparseable (hr_id r)) | Inr b \<Rightarrow> Inr b)
    | _ \<Rightarrow> Inl ElementWithoutGet) (map (\<lambda>b. JObj (to_dict b)) (msg_content m)) = Inr (map norm_block (msg_content m))"
    using assms(1) by (intro map_result_map) (auto simp: wf_message_def list.pred_set from_dict_to_dict)
  then show ?thesis using assms(2,3) by (simp add: load_row_def content_payload_def)
qed

lemma payload_norm: "content_payload (m\<lparr>msg_content := map norm_block (msg_content m), msg_row_id := i\<rparr>) = content_payload m"
  by (simp add: content_payload_def comp_def to_dict_norm_block)

lemma payload_content: "msg_content m = msg_content m' \<Longrightarrow> content_payload m = content_payload m'"
  by (simp add: content_payload_def)

lemma row_ok_written:
  assumes "wf_message m" and "hr_content r = Some (content_payload m)" and "hr_role r = role_name (msg_role m)"
  shows "history_row_ok r"
proof -
  let ?m = "\<lparr>msg_role = msg_role m, msg_content = map norm_block (msg_content m), msg_row_id = Some (loaded_row_id (hr_row_id r) (hr_id r))\<rparr>"
  have "content_payload ?m = content_payload m" by (simp add: content_payload_def comp_def to_dict_norm_block)
  then show ?thesis using load_payload[OF assms] assms(2) by (simp add: history_row_ok_def)
qed

lemma loaded_normal:
  assumes "history_row_ok r" and "load_row r = Inr m"
  shows "wf_message m \<and> map norm_block (msg_content m) = msg_content m
    \<and> (\<exists>i. msg_row_id m = Some i \<and> i \<noteq> []) \<and> msg_row_id m = Some (loaded_row_id (hr_row_id r) (hr_id r))"
proof -
  let ?read = "\<lambda>item. case item of
      JObj d \<Rightarrow> (case from_dict d of Inl _ \<Rightarrow> Inl (RowUnparseable (hr_id r)) | Inr b \<Rightarrow> Inr b)
    | _ \<Rightarrow> Inl ElementWithoutGet"
  have same: "hr_content r = Some (content_payload m)" using assms by (simp add: history_row_ok_def)
  then have read: "map_result ?read (map (\<lambda>b. JObj (to_dict b)) (msg_content m)) = Inr (msg_content m)"
    and id: "msg_row_id m = Some (loaded_row_id (hr_row_id r) (hr_id r))"
    using assms(2) by (auto simp: load_row_def content_payload_def split: sum.splits option.splits)
  have "list_all wf_block (msg_content m)"
    using read by (rule map_result_all) (auto split: json.splits sum.splits dest: from_dict_wf)
  then have wf: "wf_message m" by (simp add: wf_message_def)
  have "map_result ?read (map (\<lambda>b. JObj (to_dict b)) (msg_content m)) = Inr (map norm_block (msg_content m))"
    using wf by (intro map_result_map) (auto simp: wf_message_def list.pred_set from_dict_to_dict)
  then have "map norm_block (msg_content m) = msg_content m" using read by simp
  moreover have "loaded_row_id (hr_row_id r) (hr_id r) \<noteq> []"
    by (auto simp: loaded_row_id_def legacy_row_id_prefix_def split: option.split)
  ultimately show ?thesis using wf id by simp
qed

section \<open>What a reset leaves\<close>

definition written_row :: "history_columns \<Rightarrow> string \<Rightarrow> string \<times> int \<Rightarrow> string \<Rightarrow> message \<Rightarrow> nat \<Rightarrow> history_row" where
  "written_row cols scope env thread m key = \<lparr>hr_id = key, hr_thread = thread, hr_role = role_name (msg_role m),
     hr_content = Some (content_payload m), hr_created = snd env, hr_scope = scope, hr_turn = None, hr_message = None,
     hr_row_id = (if hc_row_id cols then Some (row_id_for_insert (fst env) m) else None)\<rparr>"

lemma insert_plain:
  "insert_message cols scope env thread m None None db =
     db\<lparr>hd_rows := hd_rows db @ [written_row cols scope env thread m (hd_next db)], hd_next := Suc (hd_next db)\<rparr>"
  by (simp add: insert_message_def insert_history_row_def message_id_taken_def written_row_def)

definition written_rows where
  "written_rows cols scope env thread k ms key =
     map (\<lambda>i. written_row cols scope (env (k + i)) thread (ms ! i) (key + i)) [0..<length ms]"

lemma written_rows_Cons:
  "written_rows cols scope env thread k (m # ms) key
     = written_row cols scope (env k) thread m key # written_rows cols scope env thread (Suc k) ms (Suc key)"
proof -
  have "[0..<length (m # ms)] = 0 # map Suc [0..<length ms]" by (simp add: upt_conv_Cons map_Suc_upt del: upt_Suc)
  then show ?thesis unfolding written_rows_def by (simp add: comp_def del: upt_Suc)
qed

lemma fold_insert:
  "fold (\<lambda>(i, m) db. insert_message cols scope (env i) thread m None None db) (enumerate k ms) db =
     db\<lparr>hd_rows := hd_rows db @ written_rows cols scope env thread k ms (hd_next db), hd_next := hd_next db + length ms\<rparr>"
  by (induction ms arbitrary: k db) (simp_all add: insert_plain written_rows_Cons, simp_all add: written_rows_def)

lemma reset_rows:
  "hd_rows (reset_thread cols scope env thread ms db) =
     filter (\<lambda>r. \<not> in_thread scope thread r) (hd_rows db) @ written_rows cols scope env thread 0 ms (hd_next db)"
  "hd_next (reset_thread cols scope env thread ms db) = hd_next db + length ms"
  by (simp_all add: reset_thread_def fold_insert clear_thread_def)

lemma map_result_nth:
  assumes "\<And>i. i < length xs \<Longrightarrow> f (xs ! i) = Inr (ys ! i)" and "length xs = length ys"
  shows "map_result f xs = Inr ys"
  using assms
proof (induction xs arbitrary: ys)
  case (Cons x xs)
  then obtain y zs where ys: "ys = y # zs" by (cases ys) auto
  have "f x = Inr y" using Cons.prems(1)[of 0] ys by simp
  moreover have "map_result f xs = Inr zs"
    using Cons.IH[of zs] Cons.prems(1)[of "Suc i" for i] Cons.prems(2) ys by fastforce
  ultimately show ?case using ys by simp
qed simp

lemma load_written:
  assumes "wf_message m" and "hc_row_id cols" and "fst env \<noteq> []"
  shows "load_row (written_row cols scope env thread m key) = Inr (stored_message (fst env) m)"
proof -
  let ?r = "written_row cols scope env thread m key"
  have id: "loaded_row_id (hr_row_id ?r) (hr_id ?r) = row_id_for_insert (fst env) m"
    using assms(2,3) by (auto simp: written_row_def loaded_row_id_def row_id_for_insert_def split: option.split)
  have "hr_content ?r = Some (content_payload m)" "hr_role ?r = role_name (msg_role m)" by (simp_all add: written_row_def)
  then show ?thesis using load_payload[OF assms(1)] id by (simp add: stored_message_def)
qed

definition stored_messages :: "(nat \<Rightarrow> string \<times> int) \<Rightarrow> message list \<Rightarrow> message list" where
  "stored_messages env ms = map (\<lambda>i. stored_message (fst (env i)) (ms ! i)) [0..<length ms]"

definition clock_steps :: "(nat \<Rightarrow> string \<times> int) \<Rightarrow> nat \<Rightarrow> bool" where
  \<comment> \<open>the clock of an operation does not go back, and it draws ids\<close>
  "clock_steps env n \<longleftrightarrow> sorted (map (\<lambda>i. snd (env i)) [0..<n]) \<and> (\<forall>i<n. fst (env i) \<noteq> [])"

lemma written_in_thread: "in_thread s t (written_row cols scope env thread m key) \<longleftrightarrow> s = scope \<and> t = thread"
  by (auto simp: in_thread_def written_row_def)

lemma written_filter:
  "filter (in_thread s t) (written_rows cols scope env thread k ms key) =
     (if s = scope \<and> t = thread then written_rows cols scope env thread k ms key else [])"
  by (auto simp: written_rows_def filter_empty_conv filter_id_conv written_in_thread)

lemma written_ids: "map hr_id (written_rows cols scope env thread k ms key) = [key..<key + length ms]"
  by (simp add: written_rows_def written_row_def comp_def) (simp add: map_add_upt add.commute)

lemma written_created: "map hr_created (written_rows cols scope env thread 0 ms key) = map (\<lambda>i. snd (env i)) [0..<length ms]"
  by (simp add: written_rows_def written_row_def comp_def)

lemma written_ok:
  "list_all wf_message ms \<Longrightarrow> r \<in> set (written_rows cols scope env thread k ms key) \<Longrightarrow> hr_id r < key + length ms \<and> history_row_ok r"
  by (auto simp: written_rows_def list_all_length written_row_def intro!: row_ok_written)

lemma reset_ok:
  assumes "history_ok db" and "list_all wf_message ms"
  shows "history_ok (reset_thread cols scope env thread ms db)"
proof -
  let ?kept = "filter (\<lambda>r. \<not> in_thread scope thread r) (hd_rows db)"
  have below: "\<forall>r\<in>set ?kept. hr_id r < hd_next db \<and> history_row_ok r" using assms(1) by (auto simp: history_ok_def list_all_iff)
  have "sorted (map hr_id ?kept)" "distinct (map hr_id ?kept)"
    using assms(1) by (auto simp: history_ok_def sorted_filter_map distinct_map_filter)
  then have "sorted (map hr_id (?kept @ written_rows cols scope env thread 0 ms (hd_next db)))
      \<and> distinct (map hr_id (?kept @ written_rows cols scope env thread 0 ms (hd_next db)))"
    using below unfolding map_append written_ids by (fastforce simp: sorted_append)
  then show ?thesis
    unfolding history_ok_def reset_rows using below written_ok[OF assms(2)] by (fastforce simp: list_all_iff)
qed

lemma reset_thread_rows:
  assumes "history_ok db" and "list_all wf_message ms" and "clock_steps env (length ms)"
  shows "thread_history scope thread (reset_thread cols scope env thread ms db) = written_rows cols scope env thread 0 ms (hd_next db)"
    and "clock_order scope thread (reset_thread cols scope env thread ms db)"
proof -
  let ?db = "reset_thread cols scope env thread ms db"
  have rows: "filter (in_thread scope thread) (hd_rows ?db) = written_rows cols scope env thread 0 ms (hd_next db)"
    unfolding reset_rows filter_append written_filter by (simp add: filter_empty_conv)
  then show order: "clock_order scope thread ?db" using assms(3) by (simp add: clock_order_def written_created clock_steps_def)
  show "thread_history scope thread ?db = written_rows cols scope env thread 0 ms (hd_next db)"
    using thread_rows_in_order[OF reset_ok[OF assms(1,2)] order] rows by simp
qed

lemma reset_load:
  assumes "history_ok db" and "list_all wf_message ms" and "clock_steps env (length ms)" and "hc_row_id cols"
  shows "load_thread scope thread None (reset_thread cols scope env thread ms db) = Inr (stored_messages env ms)"
  unfolding load_thread_def newest_rows_def option.case reset_thread_rows(1)[OF assms(1-3)]
proof (rule map_result_nth)
  fix i assume "i < length (written_rows cols scope env thread 0 ms (hd_next db))"
  then have i: "i < length ms" by (simp add: written_rows_def)
  then have "load_row (written_row cols scope (env i) thread (ms ! i) (hd_next db + i)) = Inr (stored_message (fst (env i)) (ms ! i))"
    using assms(2-4) load_written by (simp add: list_all_length clock_steps_def)
  then show "load_row (written_rows cols scope env thread 0 ms (hd_next db) ! i) = Inr (stored_messages env ms ! i)"
    using i by (simp add: written_rows_def stored_messages_def)
qed (simp add: written_rows_def stored_messages_def)

lemma reset_elsewhere:
  assumes "(s, t) \<noteq> (scope, thread)"
  shows "thread_history s t (reset_thread cols scope env thread ms db) = thread_history s t db"
proof -
  have "filter (in_thread s t) (hd_rows (reset_thread cols scope env thread ms db)) = filter (in_thread s t) (hd_rows db)"
    using assms unfolding reset_rows filter_append written_filter filter_filter
    by (auto intro!: filter_cong simp: in_thread_def)
  then show ?thesis by (simp add: thread_history_def)
qed

section \<open>Every stored thread can be read\<close>

datatype store_op =
    HAppend history_columns string "string \<times> int" string message "string option" "string option"
  | HReset history_columns string "nat \<Rightarrow> string \<times> int" string "message list"
  | HClear string string
  | HDelete history_columns string string "string list"

fun store_step :: "store_op \<Rightarrow> history_db \<Rightarrow> history_db" where
  "store_step (HAppend cols scope env thread m turn mid) db = append_row cols scope env thread m turn mid db"
| "store_step (HReset cols scope env thread ms) db = reset_thread cols scope env thread ms db"
| "store_step (HClear scope thread) db = clear_thread scope thread db"
| "store_step (HDelete cols scope thread ids) db = snd (delete_rows cols scope thread ids db)"

fun op_wf :: "store_op \<Rightarrow> bool" where
  "op_wf (HAppend cols scope env thread m turn mid) \<longleftrightarrow> wf_message m"
| "op_wf (HReset cols scope env thread ms) \<longleftrightarrow> list_all wf_message ms"
| "op_wf _ \<longleftrightarrow> True"

lemma filter_ok: "history_ok db \<Longrightarrow> history_ok (db\<lparr>hd_rows := filter P (hd_rows db)\<rparr>)"
  by (auto simp: history_ok_def sorted_filter_map distinct_map_filter list_all_iff)

lemma insert_ok:
  assumes "history_ok db" and "wf_message m"
  shows "history_ok (insert_message cols scope env thread m turn mid db)"
proof -
  have "history_row_ok r" if "hr_content r = Some (content_payload m)" "hr_role r = role_name (msg_role m)" for r
    using row_ok_written[OF assms(2)] that by blast
  then show ?thesis
    using assms(1)
    by (auto simp: insert_message_def insert_history_row_def history_ok_def sorted_append list_all_iff less_SucI less_imp_le)
qed

lemma delete_rows_filter: "\<exists>P. snd (delete_rows cols scope thread ids db) = db\<lparr>hd_rows := filter P (hd_rows db)\<rparr>"
  by (auto simp: delete_rows_def Let_def split: prod.split)

lemma store_step_ok:
  assumes "history_ok db" and "op_wf a"
  shows "history_ok (store_step a db)"
proof (cases a)
  case (HDelete cols scope thread ids)
  then show ?thesis using delete_rows_filter[of cols scope thread ids db] filter_ok[OF assms(1)] by auto
qed (use assms in \<open>auto simp: append_row_def insert_ok reset_ok clear_thread_def filter_ok\<close>)

interpretation store: inv_system "\<lambda>a db. if op_wf a then store_step a db else db" history_ok
  by unfold_locales (simp add: store_step_ok)

lemma fold_wf_ops: "list_all op_wf ops \<Longrightarrow> fold store_step ops db = fold (\<lambda>a db. if op_wf a then store_step a db else db) ops db"
  by (induction ops arbitrary: db) simp_all

lemma map_result_total: "(\<And>x. x \<in> set xs \<Longrightarrow> \<exists>y. f x = Inr y) \<Longrightarrow> \<exists>ys. map_result f xs = Inr ys"
proof (induction xs)
  case (Cons x xs)
  obtain y where "f x = Inr y" using Cons.prems[of x] by auto
  moreover obtain ys where "map_result f xs = Inr ys" using Cons by auto
  ultimately show ?case by simp
qed simp

lemma newest_rows_subset: "set (newest_rows limit rows) \<subseteq> set rows"
  by (auto simp: newest_rows_def split: option.splits dest: in_set_takeD)

lemma load_total:
  assumes "history_ok db"
  shows "\<exists>ms. load_thread scope thread limit db = Inr ms"
  unfolding load_thread_def
proof (rule map_result_total)
  fix r assume "r \<in> set (newest_rows limit (thread_history scope thread db))"
  then have "r \<in> set (hd_rows db)"
    using newest_rows_subset[of limit "thread_history scope thread db"] by (auto simp: thread_history_def row_before_def)
  then have "history_row_ok r" using assms by (auto simp: history_ok_def list_all_iff)
  then show "\<exists>m. load_row r = Inr m" by (auto simp: history_row_ok_def split: sum.splits)
qed

text \<open>
  C11: Whatever is appended, replaced, cleared and deleted, with every form of row that the columns of the table allow, each
  thread of each agent can be loaded whole or in part: no row that the store has written is ever refused by its reader.
\<close>
theorem store_always_readable:
  assumes "history_ok db" and "list_all op_wf ops"
  shows "\<exists>ms. load_thread scope thread limit (fold store_step ops db) = Inr ms"
proof (rule load_total)
  show "history_ok (fold store_step ops db)" unfolding fold_wf_ops[OF assms(2)] by (rule store.run_inv[OF assms(1)])
qed

definition new_history :: history_db where
  "new_history = \<lparr>hd_rows = [], hd_next = 1\<rparr>"

lemma new_history_ok: "history_ok new_history"
  by (simp add: history_ok_def new_history_def)

definition both_columns :: history_columns where
  "both_columns = \<lparr>hc_row_id = True, hc_memory = True\<rparr>"

theorem store_always_readable_witness:
  "\<exists>ms. load_thread ''a'' ''t'' (Some 1)
     (fold store_step [HAppend both_columns ''a'' (''r1'', 5) ''t'' (new_message User [Text ''hi'']) None None,
        HDelete both_columns ''a'' ''t'' [''r9'']] new_history) = Inr ms"
  by (rule store_always_readable[OF new_history_ok]) (simp add: wf_message_def)

section \<open>Deletion\<close>

definition own_ids :: "string list \<Rightarrow> bool" where
  \<comment> \<open>ids as a load shows them\<close>
  "own_ids ids \<longleftrightarrow> list_all (\<lambda>i. i \<noteq> [] \<and> (startswith i legacy_row_id_prefix
     \<longrightarrow> i = legacy_row_id_prefix @ str_of_nat (nat_of_digits 0 (drop (length legacy_row_id_prefix) i)))) ids"

lemma startswith_prefix: "startswith (p @ x) p"
  by (simp add: startswith_def)

lemma legacy_keys:
  assumes "own_ids ids"
  shows "k \<in> set (map (nat_of_digits 0) (filter (\<lambda>k. k \<noteq> [] \<and> list_all py_isdigit k) (snd (split_row_ids ids))))
    \<longleftrightarrow> legacy_row_id_prefix @ str_of_nat k \<in> set ids"
proof
  assume "k \<in> set (map (nat_of_digits 0) (filter (\<lambda>k. k \<noteq> [] \<and> list_all py_isdigit k) (snd (split_row_ids ids))))"
  then obtain i where i: "i \<in> set ids" "startswith i legacy_row_id_prefix" "k = nat_of_digits 0 (drop (length legacy_row_id_prefix) i)"
    by (auto simp: split_row_ids_def Let_def)
  then have "i = legacy_row_id_prefix @ str_of_nat k" using assms by (auto simp: own_ids_def list_all_iff)
  then show "legacy_row_id_prefix @ str_of_nat k \<in> set ids" using i(1) by simp
next
  assume mem: "legacy_row_id_prefix @ str_of_nat k \<in> set ids"
  then have "str_of_nat k \<in> set (snd (split_row_ids ids))"
    using startswith_prefix by (force simp: split_row_ids_def Let_def)
  then show "k \<in> set (map (nat_of_digits 0) (filter (\<lambda>k. k \<noteq> [] \<and> list_all py_isdigit k) (snd (split_row_ids ids))))"
    by (force simp: image_iff)
qed

lemma delete_exact:
  assumes "own_ids ids" and "hc_row_id cols"
  shows "hd_rows (snd (delete_rows cols scope thread ids db)) =
     filter (\<lambda>r. \<not> (in_thread scope thread r \<and> loaded_row_id (hr_row_id r) (hr_id r) \<in> set ids)) (hd_rows db)"
proof -
  obtain stored legacy where split: "split_row_ids ids = (stored, legacy)" by (cases "split_row_ids ids")
  let ?keys = "map (nat_of_digits 0) (filter (\<lambda>k. k \<noteq> [] \<and> list_all py_isdigit k) legacy)"
  have stored: "set stored = set ids" using split by (auto simp: split_row_ids_def Let_def)
  have keys: "k \<in> set ?keys \<longleftrightarrow> legacy_row_id_prefix @ str_of_nat k \<in> set ids" for k
    using legacy_keys[OF assms(1)] split by simp
  have ne: "[] \<notin> set ids" using assms(1) by (auto simp: own_ids_def list_all_iff)
  have "((\<exists>i\<in>set stored. hr_row_id r = Some i) \<or> row_unstored r \<and> hr_id r \<in> set ?keys)
      \<longleftrightarrow> loaded_row_id (hr_row_id r) (hr_id r) \<in> set ids" for r
    unfolding stored keys using ne by (cases "hr_row_id r") (auto simp: row_unstored_def loaded_row_id_def)
  then show ?thesis
    unfolding delete_rows_def split Let_def prod.case snd_conv using assms(2) by (auto simp: filter_filter intro!: filter_cong)
qed

section \<open>Threads as lists of messages\<close>

definition row_message :: "history_row \<Rightarrow> message" where
  "row_message r = (case load_row r of Inr m \<Rightarrow> m | Inl _ \<Rightarrow> new_message System [])"

definition row_shown :: "history_row \<Rightarrow> string" where
  "row_shown r = loaded_row_id (hr_row_id r) (hr_id r)"

lemma row_ok_message: "history_row_ok r \<Longrightarrow> load_row r = Inr (row_message r) \<and> msg_row_id (row_message r) = Some (row_shown r)
    \<and> wf_message (row_message r) \<and> map norm_block (msg_content (row_message r)) = msg_content (row_message r)"
  using loaded_normal[of r] by (auto simp: row_message_def row_shown_def history_row_ok_def split: sum.splits)

lemma thread_rows_ok: "history_ok db \<Longrightarrow> r \<in> set (thread_history scope thread db) \<Longrightarrow> history_row_ok r"
  by (auto simp: thread_history_def row_before_def history_ok_def list_all_iff)

lemma load_messages:
  assumes "history_ok db"
  shows "load_thread scope thread None db = Inr (map row_message (thread_history scope thread db))"
  unfolding load_thread_def newest_rows_def option.case
proof (rule map_result_nth)
  fix i assume "i < length (thread_history scope thread db)"
  then have "history_row_ok (thread_history scope thread db ! i)" using thread_rows_ok[OF assms] nth_mem by blast
  then show "load_row (thread_history scope thread db ! i) = Inr (map row_message (thread_history scope thread db) ! i)"
    using row_ok_message \<open>i < _\<close> by simp
qed simp

lemma load_normal:
  assumes "history_ok db" and "load_thread scope thread None db = Inr ms" and "m \<in> set ms"
  shows "wf_message m \<and> map norm_block (msg_content m) = msg_content m \<and> (\<exists>i. msg_row_id m = Some i \<and> i \<noteq> [])"
proof -
  obtain r where r: "r \<in> set (thread_history scope thread db)" "m = row_message r"
    using assms load_messages[OF assms(1)] by auto
  then have ok: "history_row_ok r" using thread_rows_ok[OF assms(1)] by blast
  then show ?thesis using loaded_normal[OF ok] row_ok_message[OF ok] r by auto
qed

lemma delete_load:
  assumes "history_ok db" and "load_thread scope thread None db = Inr ms" and "own_ids ids" and "hc_row_id cols"
  shows "load_thread scope thread None (snd (delete_rows cols scope thread ids db))
    = Inr (filter (\<lambda>m. msg_row_id m \<notin> Some ` set ids) ms)"
proof -
  let ?db = "snd (delete_rows cols scope thread ids db)"
  have ok: "history_ok ?db" using delete_rows_filter[of cols scope thread ids db] filter_ok[OF assms(1)] by auto
  have "filter (in_thread scope thread) (hd_rows ?db)
      = filter (\<lambda>r. row_shown r \<notin> set ids) (filter (in_thread scope thread) (hd_rows db))"
    unfolding delete_exact[OF assms(3,4)] filter_filter by (rule filter_cong) (auto simp: row_shown_def)
  then have rows: "thread_history scope thread ?db = filter (\<lambda>r. row_shown r \<notin> set ids) (thread_history scope thread db)"
    by (simp add: thread_history_def row_before_def filter_sort)
  have "map row_message (filter (\<lambda>r. row_shown r \<notin> set ids) (thread_history scope thread db))
      = filter (\<lambda>m. msg_row_id m \<notin> Some ` set ids) (map row_message (thread_history scope thread db))"
    unfolding filter_map comp_def
    by (rule arg_cong[where f = "map row_message"], rule filter_cong) (use thread_rows_ok[OF assms(1)] row_ok_message in auto)
  then show ?thesis using load_messages[OF ok] load_messages[OF assms(1)] assms(2) rows by simp
qed

lemma delete_elsewhere:
  assumes "(s, t) \<noteq> (scope, thread)"
  shows "thread_history s t (snd (delete_rows cols scope thread ids db)) = thread_history s t db"
proof -
  have "filter (in_thread s t) (hd_rows (snd (delete_rows cols scope thread ids db))) = filter (in_thread s t) (hd_rows db)"
    using assms by (auto simp: delete_rows_def Let_def filter_filter in_thread_def split: prod.split intro!: filter_cong)
  then show ?thesis by (simp add: thread_history_def)
qed

lemma append_load:
  assumes "history_ok db" and "load_thread scope thread None db = Inr ms" and "wf_message m" and "hc_row_id cols" and "fst env \<noteq> []"
    and "clock_order scope thread db" and "\<forall>r\<in>set (hd_rows db). in_thread scope thread r \<longrightarrow> hr_created r \<le> snd env"
    and "\<not> message_id_taken mid db"
  shows "load_thread scope thread None (append_row cols scope env thread m turn mid db) = Inr (ms @ [stored_message (fst env) m])"
proof -
  let ?db = "append_row cols scope env thread m turn mid db"
  obtain r where rows: "hd_rows ?db = hd_rows db @ [r]" and r: "in_thread scope thread r" "hr_created r = snd env"
      "hr_content r = Some (content_payload m)" "hr_role r = role_name (msg_role m)" "row_shown r = row_id_for_insert (fst env) m"
    using assms(4,5,8)
    by (auto simp: append_row_def insert_message_def insert_history_row_def in_thread_def row_shown_def loaded_row_id_def
      row_id_for_insert_def split: option.split)
  have ok: "history_ok ?db" using insert_ok[OF assms(1,3)] by (simp add: append_row_def)
  have "clock_order scope thread ?db" using assms(6,7) r rows by (auto simp: clock_order_def sorted_append)
  then have "thread_history scope thread ?db = thread_history scope thread db @ [r]"
    using thread_rows_in_order ok assms(1,6) rows r(1) by simp
  moreover have "row_message r = stored_message (fst env) m"
    using load_payload[OF assms(3) r(3,4)] r(5) by (simp add: row_message_def stored_message_def row_shown_def)
  ultimately show ?thesis using load_messages[OF ok] load_messages[OF assms(1)] assms(2) by simp
qed

section \<open>Where the reader falls short\<close>

lemma clock_back_reorders:
  \<comment> \<open>a clock that goes back puts the later message before the earlier one\<close>
  "load_thread ''a'' ''t'' None
     (append_row both_columns ''a'' (''r2'', 4) ''t'' (new_message Assistant [Text ''yes'']) None None
       (append_row both_columns ''a'' (''r1'', 5) ''t'' (new_message User [Text ''ok?'']) None None new_history))
   = Inr [\<lparr>msg_role = Assistant, msg_content = [Text ''yes''], msg_row_id = Some ''r2''\<rparr>,
          \<lparr>msg_role = User, msg_content = [Text ''ok?''], msg_row_id = Some ''r1''\<rparr>]"
  by (simp add: load_thread_def newest_rows_def thread_history_def row_before_def append_row_def insert_message_def
    insert_history_row_def message_id_taken_def both_columns_def new_history_def in_thread_def load_row_def content_payload_def
    loaded_row_id_def row_id_for_insert_def new_message_def from_dict_to_dict del: to_dict.simps)

lemma stray_element_escapes:
  \<comment> \<open>an element that is no object is not reported as an unparseable row\<close>
  "hr_content r = Some (JList [JStr ''hi'']) \<Longrightarrow> load_row r = Inl ElementWithoutGet"
  by (simp add: load_row_def)

end
