(* ===== verification/History_Rewrite.thy ===== *)
theory History_Rewrite
  imports Branch_Navigator History_Store
begin

text \<open>
  \<open>core/runtime/history_rewrite.py\<close> over the conversation table and the table of branches: editing, regenerating, rewinding
  and redoing a turn on a new branch, truncating in place, forking a session, switching, purging. The calls that tell other
  stores of a rewrite are a log of the world. Shown: every operation keeps the tree of branches and the readability of the
  store, a branch operation changes one thread only, a truncation cuts the active thread only, and what the chat history
  offers for a row is accepted by the server up to two refusals.
\<close>

section \<open>The world\<close>

datatype rewrite_effect =
    Branched string string "string list"
  | Truncated string "string list"
  | Purged "string list"

record rewrite_world =
  rw_history :: history_db
  rw_branches :: branch_table
  rw_effects :: "rewrite_effect list"

datatype branch_op_kind = EditOp | RegenerateOp | RewindOp | RestoreOp

datatype rewrite_error =
    AnchorMismatch
  | SplitsToolPair
  | NoUserMessage
  | UserOnly branch_op_kind
  | Summarized
  | NothingToKeep
  | NothingToRewind
  | NothingToRegenerate
  | NothingToTruncate
  | BranchesInTail
  | BranchNotFound
  | BranchTaken \<comment> \<open>the primary key of the table of branches\<close>
  | HistoryFailed history_error

definition branch_op_name :: "branch_op_kind \<Rightarrow> string" where
  "branch_op_name op = (case op of EditOp \<Rightarrow> ''edit'' | RegenerateOp \<Rightarrow> ''regenerate'' | RewindOp \<Rightarrow> ''rewind'' | RestoreOp \<Rightarrow> ''restore'')"

record rewrite_env =
  re_scope :: string
  re_columns :: history_columns
  re_now :: int
  re_drawn :: string \<comment> \<open>the new branch or session id\<close>
  re_rows :: "nat \<Rightarrow> string \<times> int" \<comment> \<open>ids and clock of a reset\<close>

section \<open>Cuts\<close>

definition active_of :: "string \<Rightarrow> branch list \<Rightarrow> branch" where
  "active_of session records = (case List.find br_active records of Some r \<Rightarrow> r | None \<Rightarrow> root_record session True 0)"

definition row_index :: "message list \<Rightarrow> string \<Rightarrow> rewrite_error + nat" where
  "row_index ms row = (case List.find (\<lambda>i. msg_row_id (ms ! i) = Some row) [0..<length ms] of
     Some i \<Rightarrow> Inr i | None \<Rightarrow> Inl AnchorMismatch)"

definition request_ids_in :: "message list \<Rightarrow> string set" where
  "request_ids_in ms = set (concat (map (\<lambda>m. map treq_id (filter (\<lambda>b. is_ToolRequest b \<and> treq_id b \<noteq> []) (msg_content m))) ms))"

definition response_ids_in :: "message list \<Rightarrow> string set" where
  "response_ids_in ms = set (concat (map (\<lambda>m. map tres_id (filter (\<lambda>b. is_ToolResponse b \<and> tres_id b \<noteq> []) (msg_content m))) ms))"

definition assert_tool_pairs :: "message list \<Rightarrow> nat \<Rightarrow> rewrite_error option" where
  "assert_tool_pairs ms n =
     (if request_ids_in (take n ms) \<inter> response_ids_in (drop n ms) \<noteq> {}
         \<or> response_ids_in (take n ms) \<inter> request_ids_in (drop n ms) \<noteq> {} then Some SplitsToolPair else None)"

definition owning_user_index :: "message list \<Rightarrow> nat \<Rightarrow> rewrite_error + nat" where
  "owning_user_index ms i = (case List.find (\<lambda>j. is_user_text_row (ms ! j)) (rev [0..<Suc i]) of
     Some j \<Rightarrow> Inr j | None \<Rightarrow> Inl NoUserMessage)"

definition rewind_end :: "message list \<Rightarrow> nat \<Rightarrow> nat" where
  "rewind_end ms i =
     (if is_user_text_row (ms ! i) then Suc i
      else Suc i + length (takeWhile (\<lambda>m. \<not> is_user_text_row m) (drop (Suc i) ms)))"

definition assert_keeps_summary :: "message list \<Rightarrow> nat \<Rightarrow> rewrite_error option" where
  "assert_keeps_summary ms n = (case last_summary_index ms of
     None \<Rightarrow> None | Some i \<Rightarrow> if n \<le> i then Some Summarized else None)"

definition cut_checks :: "message list \<Rightarrow> nat \<Rightarrow> rewrite_error + nat" where
  "cut_checks ms n = (case assert_keeps_summary ms n of Some e \<Rightarrow> Inl e
     | None \<Rightarrow> (case assert_tool_pairs ms n of Some e \<Rightarrow> Inl e | None \<Rightarrow> Inr n))"

definition prefix_end_for :: "message list \<Rightarrow> nat \<Rightarrow> branch_op_kind \<Rightarrow> rewrite_error + nat" where
  "prefix_end_for ms i op = (case op of
       EditOp \<Rightarrow> if \<not> is_user_text_row (ms ! i) then Inl (UserOnly EditOp) else cut_checks ms i
     | RestoreOp \<Rightarrow> if \<not> is_user_text_row (ms ! i) then Inl (UserOnly RestoreOp)
         else if i = 0 then Inl NothingToKeep else cut_checks ms i
     | RegenerateOp \<Rightarrow> bind_result (owning_user_index ms i) (cut_checks ms)
     | RewindOp \<Rightarrow> if length ms \<le> rewind_end ms i then Inl NothingToRewind else cut_checks ms (rewind_end ms i))"

definition row_ids :: "message list \<Rightarrow> string list" where
  "row_ids ms = concat (map (\<lambda>m. case msg_row_id m of None \<Rightarrow> [] | Some i \<Rightarrow> if i = [] then [] else [i]) ms)"

section \<open>Branch operations\<close>

definition load_for :: "rewrite_env \<Rightarrow> string \<Rightarrow> rewrite_world \<Rightarrow> rewrite_error + message list" where
  "load_for env thread w = (case load_thread (re_scope env) thread None (rw_history w) of
     Inl e \<Rightarrow> Inl (HistoryFailed e) | Inr ms \<Rightarrow> Inr ms)"

definition reset_for :: "rewrite_env \<Rightarrow> string \<Rightarrow> message list \<Rightarrow> history_db \<Rightarrow> history_db" where
  "reset_for env thread ms db = reset_thread (re_columns env) (re_scope env) (re_rows env) thread ms db"

record rewrite_result =
  rr_branch :: string
  rr_thread :: string
  rr_replay :: "content_block list option"

definition plan_branch :: "rewrite_env \<Rightarrow> string \<Rightarrow> branch_op_kind \<Rightarrow> string \<Rightarrow> rewrite_world \<Rightarrow> rewrite_error + branch \<times> message list \<times> nat" where
  \<comment> \<open>the active branch, its messages and the cut, before anything is written\<close>
  "plan_branch env session op anchor w =
     (let parent = active_of session (list_branches session (rw_branches w))
      in bind_result (load_for env (br_thread parent) w) (\<lambda>ms.
         bind_result (row_index ms anchor) (\<lambda>i.
         bind_result (prefix_end_for ms i op) (\<lambda>n.
           if op = RegenerateOp \<and> msg_content (ms ! n) = [] then Inl NothingToRegenerate else Inr (parent, ms, n)))))"

definition new_branch :: "rewrite_env \<Rightarrow> string \<Rightarrow> branch_op_kind \<Rightarrow> branch \<Rightarrow> message list \<Rightarrow> nat \<Rightarrow> branch" where
  "new_branch env session op parent ms n =
     \<lparr>br_id = re_drawn env, br_session = session, br_thread = branch_thread_id session (re_drawn env),
      br_parent = Some (br_id parent), br_fork = (if 0 < n then msg_row_id (ms ! (n - 1)) else None),
      br_op = Some (branch_op_name op), br_created = re_now env, br_last = re_now env, br_active = True\<rparr>"

definition branch_op :: "rewrite_env \<Rightarrow> string \<Rightarrow> branch_op_kind \<Rightarrow> string \<Rightarrow> rewrite_world \<Rightarrow> (rewrite_error + rewrite_result) \<times> rewrite_world" where
  "branch_op env session op anchor w = (case plan_branch env session op anchor w of
       Inl e \<Rightarrow> (Inl e, w)
     | Inr (parent, ms, n) \<Rightarrow>
         (let child = new_branch env session op parent ms n;
              thread = br_thread child;
              copied = reset_for env thread (take n ms) (rw_history w)
          in case create_branch child (rw_branches w) of
               None \<Rightarrow> (Inl BranchTaken, w\<lparr>rw_history := reset_for env thread [] copied\<rparr>)
             | Some tab \<Rightarrow>
                 (Inr \<lparr>rr_branch = br_id child, rr_thread = thread,
                       rr_replay = (if op = RegenerateOp then Some (msg_content (ms ! n)) else None)\<rparr>,
                  w\<lparr>rw_history := copied, rw_branches := tab,
                    rw_effects := rw_effects w @ [Branched (br_thread parent) thread (row_ids (drop n ms))]\<rparr>)))"

section \<open>Cutting in place, forking, switching\<close>

definition turn_cut :: "message list \<Rightarrow> string \<Rightarrow> bool \<Rightarrow> bool \<Rightarrow> rewrite_error + nat" where
  "turn_cut ms anchor must_drop keep_summary =
     bind_result (row_index ms anchor) (\<lambda>i.
       (let n = rewind_end ms i
        in case (if keep_summary then assert_keeps_summary ms n else None) of
             Some e \<Rightarrow> Inl e
           | None \<Rightarrow> if must_drop \<and> length ms \<le> n then Inl NothingToTruncate
               else (case assert_tool_pairs ms n of Some e \<Rightarrow> Inl e | None \<Rightarrow> Inr n)))"

definition offered_at :: "(string option \<times> string \<times> string list) list \<Rightarrow> string option \<Rightarrow> string list" where
  "offered_at points key = (case map_of (rev points) key of None \<Rightarrow> [] | Some (_, options) \<Rightarrow> options)"

definition strands_a_branch :: "branch list \<Rightarrow> string \<Rightarrow> message list \<Rightarrow> nat \<Rightarrow> string list \<Rightarrow> bool" where
  "strands_a_branch records active ms n dropped =
     (if records = [] then False
      else let before = key_points records active ms; after = key_points records active (take n ms)
        in list_ex (\<lambda>(key, _, _). case key of None \<Rightarrow> False | Some row \<Rightarrow> row \<in> set dropped) before
           \<or> list_ex (\<lambda>(key, _, _). \<not> set (offered_at before key) \<subseteq> set (offered_at after key)) before)"

definition truncate_active ::
    "rewrite_env \<Rightarrow> string \<Rightarrow> string \<Rightarrow> rewrite_world \<Rightarrow> (rewrite_error + string \<times> nat) \<times> rewrite_world" where
  \<comment> \<open>the branch and the number of dropped rows\<close>
  "truncate_active env session anchor w =
     (let records = list_branches session (rw_branches w); active = active_of session records
      in case bind_result (load_for env (br_thread active) w) (\<lambda>ms.
                bind_result (turn_cut ms anchor True True) (\<lambda>n. Inr (ms, n))) of
           Inl e \<Rightarrow> (Inl e, w)
         | Inr (ms, n) \<Rightarrow>
             (let dropped = row_ids (drop n ms)
              in if strands_a_branch records (br_id active) ms n dropped then (Inl BranchesInTail, w)
                 else (Inr (br_id active, length ms - n),
                   w\<lparr>rw_history :=
                       (if \<exists>i\<in>set dropped. Some i \<in> msg_row_id ` set (take n ms)
                        then reset_for env (br_thread active) (take n ms) (rw_history w)
                        else snd (delete_rows (re_columns env) (re_scope env) (br_thread active) dropped (rw_history w))),
                     rw_effects := rw_effects w @ [Truncated (br_thread active) dropped]\<rparr>)))"

definition fork_session :: "rewrite_env \<Rightarrow> string \<Rightarrow> string \<Rightarrow> rewrite_world \<Rightarrow> (rewrite_error + string) \<times> rewrite_world" where
  \<comment> \<open>without the copies of attachment files\<close>
  "fork_session env session anchor w =
     (let active = active_of session (list_branches session (rw_branches w))
      in case bind_result (load_for env (br_thread active) w) (\<lambda>ms.
                bind_result (turn_cut ms anchor False False) (\<lambda>n. Inr (ms, n))) of
           Inl e \<Rightarrow> (Inl e, w)
         | Inr (ms, n) \<Rightarrow>
             (Inr (re_drawn env),
              w\<lparr>rw_history := reset_for env (re_drawn env) (take n ms) (rw_history w),
                rw_effects := rw_effects w @ [Branched (br_thread active) (re_drawn env) (row_ids (drop n ms))]\<rparr>))"

definition activate_branch :: "rewrite_env \<Rightarrow> string \<Rightarrow> string \<Rightarrow> rewrite_world \<Rightarrow> (rewrite_error + branch) \<times> rewrite_world" where
  "activate_branch env session b w =
     (if b = root_branch_id \<and> list_branches session (rw_branches w) = [] then (Inr (root_record session True 0), w)
      else (case set_active (re_now env) session b (rw_branches w) of
          None \<Rightarrow> (Inl BranchNotFound, w)
        | Some tab \<Rightarrow> (case branch_by_id (list_branches session tab) b of
            None \<Rightarrow> (Inl BranchNotFound, w)
          | Some r \<Rightarrow> (Inr r, w\<lparr>rw_branches := tab\<rparr>))))"

record active_history =
  ah_branch :: string
  ah_thread :: string
  ah_messages :: "message list"
  ah_points :: "branch_point option list"

definition load_active_history :: "rewrite_env \<Rightarrow> string \<Rightarrow> nat option \<Rightarrow> rewrite_world \<Rightarrow> history_error + active_history" where
  \<comment> \<open>the gateway asks for one row at least\<close>
  "load_active_history env session limit w =
     (let records = list_branches session (rw_branches w); active = active_of session records; thread = br_thread active
      in if records = []
         then bind_result (load_thread (re_scope env) thread (map_option int limit) (rw_history w))
                (\<lambda>ms. Inr \<lparr>ah_branch = br_id active, ah_thread = thread, ah_messages = ms, ah_points = []\<rparr>)
         else bind_result (load_thread (re_scope env) thread None (rw_history w)) (\<lambda>full.
                (let shown = (case limit of None \<Rightarrow> full | Some n \<Rightarrow> if n = 0 then full else drop (length full - n) full)
                 in Inr \<lparr>ah_branch = br_id active, ah_thread = thread, ah_messages = shown,
                      ah_points = filter (\<lambda>p. case p of None \<Rightarrow> True | Some q \<Rightarrow> Some (bp_anchor q) \<in> msg_row_id ` set shown)
                        (divergence_points records (br_id active) full)\<rparr>)))"

definition purge_session_branches :: "rewrite_env \<Rightarrow> string \<Rightarrow> rewrite_world \<Rightarrow> rewrite_world" where
  "purge_session_branches env session w =
     (let threads = remdups (session # map br_thread (list_branches session (rw_branches w)))
      in w\<lparr>rw_history := fold (\<lambda>thread db. reset_for env thread [] db) threads (rw_history w),
           rw_branches := snd (delete_session session (rw_branches w)),
           rw_effects := rw_effects w @ [Purged threads]\<rparr>)"

definition resolve_active_thread_id :: "rewrite_env \<Rightarrow> string \<Rightarrow> rewrite_world \<Rightarrow> string \<times> rewrite_world" where
  "resolve_active_thread_id env session w = (case get_active session (rw_branches w) of
       None \<Rightarrow> (session, w)
     | Some r \<Rightarrow> if br_thread r = [] then (session, w)
         else (br_thread r, w\<lparr>rw_branches := touch_branch (re_now env) session (br_id r) (rw_branches w)\<rparr>))"

section \<open>What the chat history offers\<close>

record row_flags =
  rf_editable :: bool
  rf_restorable :: bool
  rf_rewritable :: bool
  rf_rewindable :: bool

definition next_turn_index :: "message list \<Rightarrow> nat \<Rightarrow> nat" where
  "next_turn_index ms i = (case List.find (\<lambda>j. is_user_text_row (ms ! j)) [Suc i..<length ms] of None \<Rightarrow> length ms | Some j \<Rightarrow> j)"

definition wire_flags :: "message list \<Rightarrow> nat \<Rightarrow> row_flags" where
  "wire_flags ms i =
     (let keeps = (\<lambda>n. case last_summary_index ms of None \<Rightarrow> True | Some s \<Rightarrow> s < n);
          turn_at = List.find (\<lambda>j. is_user_text_row (ms ! j)) (rev [0..<Suc i]);
          user_text = is_user_text_row (ms ! i);
          editable = (user_text \<and> keeps i)
      in \<lparr>rf_editable = editable, rf_restorable = (editable \<and> 0 < i),
          rf_rewritable = (case turn_at of None \<Rightarrow> False | Some j \<Rightarrow> keeps j),
          rf_rewindable = keeps (if user_text then Suc i else next_turn_index ms i)\<rparr>)"

section \<open>What holds of every world\<close>

definition world_ok :: "rewrite_world \<Rightarrow> bool" where
  "world_ok w \<longleftrightarrow> history_ok (rw_history w) \<and> branch_tree (rw_branches w)"

lemma reset_for_ok: "history_ok db \<Longrightarrow> list_all wf_message ms \<Longrightarrow> history_ok (reset_for env thread ms db)"
  by (simp add: reset_for_def reset_ok)

lemma load_for_wf:
  assumes "history_ok (rw_history w)" and "load_for env thread w = Inr ms"
  shows "list_all wf_message ms \<and> list_all wf_message (take n ms)"
proof -
  have "load_thread (re_scope env) thread None (rw_history w) = Inr ms"
    using assms(2) by (simp add: load_for_def split: sum.splits)
  then have "\<forall>m\<in>set ms. wf_message m" using load_normal[OF assms(1)] by blast
  then show ?thesis by (auto simp: list_all_iff dest: in_set_takeD)
qed

lemma active_in_tree:
  assumes "branch_tree tab"
  shows "active_of s (list_branches s tab) \<in> set tab \<and> br_session (active_of s (list_branches s tab)) = s
      \<and> get_active s tab = Some (active_of s (list_branches s tab))
    \<or> list_branches s tab = [] \<and> (\<forall>b. \<not> has_branch s b tab) \<and> active_of s (list_branches s tab) = root_record s True 0"
proof (cases "get_active s tab")
  case None
  then have "\<forall>r\<in>set tab. br_session r = s \<longrightarrow> \<not> br_active r" by (auto simp: get_active_def find_None_iff list_branches_def)
  then have "actives s tab = []" by (auto simp: actives_def filter_empty_conv)
  then have "\<not> has_branch s b tab" for b using assms unfolding branch_tree_iff by (metis list.size(3) zero_neq_one)
  moreover from this have "list_branches s tab = []" by (auto simp: list_branches_def find_in_tree filter_empty_conv simp flip: set_empty)
  ultimately show ?thesis using None by (simp add: active_of_def get_active_def)
next
  case (Some r)
  then have "r \<in> set (list_branches s tab)" using find_member[of br_active "list_branches s tab" r] by (simp add: get_active_def)
  moreover have "active_of s (list_branches s tab) = r" using Some by (simp add: active_of_def get_active_def)
  ultimately show ?thesis using Some by (simp add: list_branches_def)
qed

lemma plan_branch_Inr:
  assumes "plan_branch env session op anchor w = Inr (parent, ms, n)"
  shows "parent = active_of session (list_branches session (rw_branches w))" and "load_for env (br_thread parent) w = Inr ms"
    and "\<exists>i. row_index ms anchor = Inr i \<and> prefix_end_for ms i op = Inr n"
  using assms by (auto simp: plan_branch_def Let_def split: if_splits)

lemma created_in_tree:
  assumes "branch_tree tab" and "create_branch (new_branch env s op (active_of s (list_branches s tab)) ms n) tab = Some tab'"
    and "re_drawn env \<noteq> root_branch_id"
  shows "branch_tree tab'"
proof (rule branch_tree_create[OF assms(1,2)])
  let ?a = "active_of s (list_branches s tab)"
  show "br_parent (new_branch env s op ?a ms n) = Some (br_id ?a)" by (simp add: new_branch_def)
  show "has_branch (br_session (new_branch env s op ?a ms n)) (br_id ?a) tab
      \<or> br_id ?a = root_branch_id \<and> \<not> has_branch (br_session (new_branch env s op ?a ms n)) root_branch_id tab"
    using active_in_tree[OF assms(1), of s] by (auto simp: new_branch_def root_record_def find_in_tree)
qed (use assms(3) in \<open>simp_all add: new_branch_def\<close>)

lemma branch_op_ok:
  assumes "world_ok w" and "re_drawn env \<noteq> root_branch_id"
  shows "world_ok (snd (branch_op env session op anchor w))"
proof (cases "plan_branch env session op anchor w")
  case (Inr plan)
  obtain parent ms n where plan: "plan = (parent, ms, n)" by (cases plan) auto
  note found = plan_branch_Inr[OF Inr[unfolded plan]]
  have db: "history_ok (rw_history w)" and tree: "branch_tree (rw_branches w)" using assms(1) by (simp_all add: world_ok_def)
  let ?child = "new_branch env session op parent ms n"
  have copied: "history_ok (reset_for env (br_thread ?child) (take n ms) (rw_history w))"
    using reset_for_ok[OF db] load_for_wf[OF db found(2)] by blast
  show ?thesis
  proof (cases "create_branch ?child (rw_branches w)")
    case None
    then show ?thesis using Inr plan tree reset_for_ok[OF copied, of "[]"] by (simp add: branch_op_def Let_def world_ok_def)
  next
    case (Some tab)
    then have "branch_tree tab" using created_in_tree[OF tree] assms(2) found(1) by blast
    then show ?thesis using Inr plan copied Some by (simp add: branch_op_def Let_def world_ok_def)
  qed
qed (use assms in \<open>simp add: branch_op_def\<close>)

lemma delete_rows_ok: "history_ok db \<Longrightarrow> history_ok (snd (delete_rows cols scope thread ids db))"
  using delete_rows_filter[of cols scope thread ids db] filter_ok by metis

lemma truncate_ok:
  assumes "world_ok w"
  shows "world_ok (snd (truncate_active env session anchor w))"
proof -
  have db: "history_ok (rw_history w)" and tree: "branch_tree (rw_branches w)" using assms(1) by (simp_all add: world_ok_def)
  show ?thesis
    unfolding truncate_active_def Let_def
    using assms db tree load_for_wf[OF db] delete_rows_ok[OF db]
    by (auto simp: world_ok_def intro!: reset_for_ok split: sum.splits)
qed

lemma fork_ok:
  assumes "world_ok w"
  shows "world_ok (snd (fork_session env session anchor w))"
proof -
  have db: "history_ok (rw_history w)" and tree: "branch_tree (rw_branches w)" using assms(1) by (simp_all add: world_ok_def)
  show ?thesis
    unfolding fork_session_def Let_def
    using assms db tree load_for_wf[OF db]
    by (auto simp: world_ok_def intro!: reset_for_ok split: sum.splits)
qed

lemma purge_ok:
  assumes "world_ok w"
  shows "world_ok (purge_session_branches env session w)"
proof -
  have "history_ok (fold (\<lambda>thread db. reset_for env thread [] db) threads db)" if "history_ok db" for threads db
    using that by (induction threads arbitrary: db) (simp_all add: reset_for_ok)
  then show ?thesis using assms branch_tree_delete by (simp add: purge_session_branches_def world_ok_def Let_def)
qed

datatype rewrite_op =
    RBranch rewrite_env string branch_op_kind string
  | RTruncate rewrite_env string string
  | RFork rewrite_env string string
  | RActivate rewrite_env string string
  | RPurge rewrite_env string
  | RResolve rewrite_env string

fun rewrite_step :: "rewrite_op \<Rightarrow> rewrite_world \<Rightarrow> rewrite_world" where
  "rewrite_step (RBranch env s op anchor) w = snd (branch_op env s op anchor w)"
| "rewrite_step (RTruncate env s anchor) w = snd (truncate_active env s anchor w)"
| "rewrite_step (RFork env s anchor) w = snd (fork_session env s anchor w)"
| "rewrite_step (RActivate env s b) w = snd (activate_branch env s b w)"
| "rewrite_step (RPurge env s) w = purge_session_branches env s w"
| "rewrite_step (RResolve env s) w = snd (resolve_active_thread_id env s w)"

fun draws_no_root :: "rewrite_op \<Rightarrow> bool" where
  "draws_no_root (RBranch env s op anchor) \<longleftrightarrow> re_drawn env \<noteq> root_branch_id"
| "draws_no_root _ \<longleftrightarrow> True"

lemma rewrite_step_ok: "world_ok w \<Longrightarrow> draws_no_root a \<Longrightarrow> world_ok (rewrite_step a w)"
proof (cases a)
  case (RActivate env s b)
  then show "world_ok w \<Longrightarrow> draws_no_root a \<Longrightarrow> ?thesis"
    using branch_tree_set_active by (auto simp: activate_branch_def world_ok_def split: option.splits)
next
  case (RResolve env s)
  then show "world_ok w \<Longrightarrow> draws_no_root a \<Longrightarrow> ?thesis"
    by (auto simp: resolve_active_thread_id_def world_ok_def branch_tree_touch split: option.splits)
qed (simp_all add: branch_op_ok truncate_ok fork_ok purge_ok)

interpretation rewriting: inv_system "\<lambda>a w. if draws_no_root a then rewrite_step a w else w" world_ok
  by unfold_locales (simp add: rewrite_step_ok)

lemma run_rewrites: "list_all draws_no_root ops \<Longrightarrow> fold rewrite_step ops w = fold (\<lambda>a w. if draws_no_root a then rewrite_step a w else w) ops w"
  by (induction ops arbitrary: w) simp_all

text \<open>
  C6: Through any sequence of edits, regenerations, rewinds, redos, truncations, forks, switches and purges, failed ones
  included, a session that has branches has one root, exactly one active branch and for every other branch a parent of the
  same session, and every thread of every branch can be loaded.
\<close>
theorem rewrites_keep_tree:
  assumes "world_ok w" and "list_all draws_no_root ops"
  shows "branch_tree (rw_branches (fold rewrite_step ops w))
    \<and> (\<exists>ms. load_thread scope thread limit (rw_history (fold rewrite_step ops w)) = Inr ms)"
proof -
  have "world_ok (fold rewrite_step ops w)" unfolding run_rewrites[OF assms(2)] by (rule rewriting.run_inv[OF assms(1)])
  then show ?thesis using load_total by (simp add: world_ok_def)
qed

section \<open>Where an operation cuts\<close>

lemma find_first_of:
  assumes "List.find P [a..<b] = Some j"
  shows "a \<le> j \<and> j < b \<and> P j \<and> (\<forall>k. a \<le> k \<longrightarrow> k < j \<longrightarrow> \<not> P k)"
proof -
  obtain i where i: "i < b - a" "P ([a..<b] ! i)" "j = [a..<b] ! i" "\<forall>k<i. \<not> P ([a..<b] ! k)"
    using assms by (auto simp: find_Some_iff)
  have "\<not> P k" if "a \<le> k" "k < j" for k
    using i(4)[rule_format, of "k - a"] that i(1,3) by simp
  then show ?thesis using i by auto
qed

lemma find_last_of: "List.find P (rev [0..<n]) = Some j \<Longrightarrow> j < n \<and> P j \<and> (\<forall>k. j < k \<longrightarrow> k < n \<longrightarrow> \<not> P k)"
  by (induction n) (auto split: if_splits simp: less_Suc_eq)

lemma cut_checks_Inr: "cut_checks ms k = Inr n \<Longrightarrow> n = k \<and> assert_keeps_summary ms n = None \<and> assert_tool_pairs ms n = None"
  by (auto simp: cut_checks_def split: option.splits)

lemma rewind_end_bounds:
  assumes "i < length ms"
  shows "i < rewind_end ms i \<and> rewind_end ms i \<le> length ms
    \<and> (\<forall>j. i < j \<longrightarrow> j < rewind_end ms i \<longrightarrow> \<not> is_user_text_row (ms ! j))
    \<and> (rewind_end ms i < length ms \<longrightarrow> is_user_text_row (ms ! i) \<or> is_user_text_row (ms ! rewind_end ms i))"
proof (cases "is_user_text_row (ms ! i)")
  case False
  let ?P = "\<lambda>m. \<not> is_user_text_row m" and ?rest = "drop (Suc i) ms"
  let ?k = "length (takeWhile ?P ?rest)"
  have len: "?k \<le> length ms - Suc i" using length_takeWhile_le[of ?P ?rest] by simp
  have "\<not> is_user_text_row (ms ! j)" if j: "i < j" "j < Suc i + ?k" for j
  proof -
    have "takeWhile ?P ?rest ! (j - Suc i) \<in> set (takeWhile ?P ?rest)" using j by (intro nth_mem) simp
    then have "?P (takeWhile ?P ?rest ! (j - Suc i))" by (rule set_takeWhileD[THEN conjunct2])
    then show ?thesis using j len by (simp add: takeWhile_nth)
  qed
  moreover have "is_user_text_row (ms ! (Suc i + ?k))" if "Suc i + ?k < length ms"
    using nth_length_takeWhile[of ?P ?rest] that by simp
  ultimately show ?thesis using False assms len by (simp add: rewind_end_def)
qed (use assms in \<open>simp add: rewind_end_def\<close>)

text \<open>
  A cut that an operation accepts lies where the operation promises: an edit and a redo drop the user's message itself, a
  regeneration drops the nearest user message above, and keeps nothing below it; a rewind keeps the anchor and ends its turn.
  No accepted cut separates a tool call from its result or drops the newest summary.
\<close>
theorem cut_exact:
  assumes "prefix_end_for ms i op = Inr n" and "i < length ms"
  shows "n < length ms \<and> request_ids_in (take n ms) \<inter> response_ids_in (drop n ms) = {} \<and> response_ids_in (take n ms) \<inter> request_ids_in (drop n ms) = {}
    \<and> (\<forall>s. last_summary_index ms = Some s \<longrightarrow> s < n)
    \<and> (case op of EditOp \<Rightarrow> n = i \<and> is_user_text_row (ms ! i) | RestoreOp \<Rightarrow> n = i \<and> 0 < n \<and> is_user_text_row (ms ! i)
       | RegenerateOp \<Rightarrow> n \<le> i \<and> is_user_text_row (ms ! n) \<and> (\<forall>j. n < j \<longrightarrow> j \<le> i \<longrightarrow> \<not> is_user_text_row (ms ! j))
       | RewindOp \<Rightarrow> i < n \<and> (\<forall>j. i < j \<longrightarrow> j < n \<longrightarrow> \<not> is_user_text_row (ms ! j)) \<and> (is_user_text_row (ms ! i) \<or> is_user_text_row (ms ! n)))"
proof -
  have checked: "\<exists>k. cut_checks ms k = Inr n"
    using assms(1) by (auto simp: prefix_end_for_def split: branch_op_kind.splits if_splits)
  then have "request_ids_in (take n ms) \<inter> response_ids_in (drop n ms) = {} \<and> response_ids_in (take n ms) \<inter> request_ids_in (drop n ms) = {}"
    and "\<forall>s. last_summary_index ms = Some s \<longrightarrow> s < n"
    using cut_checks_Inr by (fastforce simp: assert_tool_pairs_def assert_keeps_summary_def split: if_splits)+
  moreover have "n < length ms \<and> (case op of EditOp \<Rightarrow> n = i \<and> is_user_text_row (ms ! i) | RestoreOp \<Rightarrow> n = i \<and> 0 < n \<and> is_user_text_row (ms ! i)
       | RegenerateOp \<Rightarrow> n \<le> i \<and> is_user_text_row (ms ! n) \<and> (\<forall>j. n < j \<longrightarrow> j \<le> i \<longrightarrow> \<not> is_user_text_row (ms ! j))
       | RewindOp \<Rightarrow> i < n \<and> (\<forall>j. i < j \<longrightarrow> j < n \<longrightarrow> \<not> is_user_text_row (ms ! j)) \<and> (is_user_text_row (ms ! i) \<or> is_user_text_row (ms ! n)))"
  proof (cases op)
    case EditOp
    then show ?thesis using assms cut_checks_Inr by (auto simp: prefix_end_for_def split: if_splits)
  next
    case RestoreOp
    then show ?thesis using assms cut_checks_Inr by (auto simp: prefix_end_for_def split: if_splits)
  next
    case RegenerateOp
    then obtain j where j: "owning_user_index ms i = Inr j" "cut_checks ms j = Inr n"
      using assms(1) by (auto simp: prefix_end_for_def)
    have "n = j" using cut_checks_Inr[OF j(2)] by simp
    then have "List.find (\<lambda>j. is_user_text_row (ms ! j)) (rev [0..<Suc i]) = Some n"
      using j(1) by (simp add: owning_user_index_def del: upt_Suc split: option.splits)
    from find_last_of[OF this] show ?thesis using RegenerateOp assms(2) by (auto simp: less_Suc_eq_le)
  next
    case RewindOp
    then have "cut_checks ms (rewind_end ms i) = Inr n" and below: "rewind_end ms i < length ms"
      using assms(1) by (auto simp: prefix_end_for_def split: if_splits)
    then have "n = rewind_end ms i" "n < length ms" using cut_checks_Inr by blast+
    then show ?thesis using RewindOp rewind_end_bounds[OF assms(2)] by simp
  qed
  ultimately show ?thesis by blast
qed

section \<open>A branch operation changes one thread\<close>

lemma active_unique:
  assumes "branch_tree tab" and "r \<in> set tab" and "br_active r"
  shows "get_active (br_session r) tab = Some r"
proof -
  have one: "length (actives (br_session r) tab) = 1" using assms by (auto simp: branch_tree_def)
  have mine: "r \<in> set (actives (br_session r) tab)" using assms by (simp add: actives_def)
  then have "r \<in> set (list_branches (br_session r) tab)" using assms(2) by (simp add: list_branches_def)
  then obtain q where q: "get_active (br_session r) tab = Some q"
    unfolding get_active_def using find_exists[of r "list_branches (br_session r) tab" br_active] assms(3) by blast
  then have "q \<in> set (list_branches (br_session r) tab) \<and> br_active q" unfolding get_active_def by (rule find_member)
  then have "q \<in> set (actives (br_session r) tab)" by (simp add: actives_def list_branches_def)
  then have "q = r" using one mine by (cases "actives (br_session r) tab") auto
  then show ?thesis using q by simp
qed

lemma loaded_copy:
  assumes "history_ok db" and "load_thread scope thread None db = Inr ms"
  shows "stored_messages env (take n ms) = take n ms"
proof (rule nth_equalityI)
  fix i assume "i < length (stored_messages env (take n ms))"
  then have i: "i < length (take n ms)" by (simp add: stored_messages_def)
  then have "wf_message (ms ! i) \<and> map norm_block (msg_content (ms ! i)) = msg_content (ms ! i) \<and> (\<exists>k. msg_row_id (ms ! i) = Some k \<and> k \<noteq> [])"
    using load_normal[OF assms] by simp
  then have "stored_message (fst (env i)) (ms ! i) = ms ! i" by (auto simp: stored_message_def row_id_for_insert_def)
  then show "stored_messages env (take n ms) ! i = take n ms ! i" using i by (simp add: stored_messages_def)
qed (simp add: stored_messages_def)

lemma branch_thread_fresh:
  assumes "branch_tree tab" and "r \<in> set tab \<or> r = root_record s True 0" and "br_session r = s" and "br_id r \<noteq> b"
  shows "br_thread r \<noteq> branch_thread_id s b"
proof (cases "br_parent r")
  case None
  have "br_thread r = s"
  proof (cases "r \<in> set tab")
    case True
    then obtain pre post where "tab = pre @ r # post" by (metis split_list)
    then show ?thesis using tree_rows_above[of "[]" pre r post] assms None by (simp add: branch_tree_iff parent_above_def)
  qed (use assms(2) in \<open>simp add: root_record_def\<close>)
  then have "length (br_thread r) < length (branch_thread_id s b)" by (simp add: branch_thread_id_def)
  then show ?thesis by auto
next
  case (Some p)
  then have "r \<in> set tab" using assms(2) by (auto simp: root_record_def)
  then obtain pre post where "tab = pre @ r # post" by (metis split_list)
  then have "br_thread r = branch_thread_id s (br_id r)"
    using tree_rows_above[of "[]" pre r post] assms Some by (simp add: branch_tree_iff parent_above_def)
  then show ?thesis using assms(4) by (simp add: branch_thread_id_def)
qed

lemma reset_for_elsewhere:
  "(s, t) \<noteq> (re_scope env, thread) \<Longrightarrow> thread_history s t (reset_for env thread ms db) = thread_history s t db"
  unfolding reset_for_def by (rule reset_elsewhere)

lemma load_same_rows: "thread_history s t db = thread_history s t db' \<Longrightarrow> load_thread s t limit db = load_thread s t limit db'"
  by (simp add: load_thread_def)

lemma create_fresh:
  assumes "\<not> has_branch (br_session r) (br_id r) tab" and "br_id r \<noteq> root_branch_id"
  shows "\<exists>rows. create_branch r tab = Some (rows @ [r\<lparr>br_active := True\<rparr>])"
  using assms
  by (cases "has_branch (br_session r) root_branch_id tab")
    (simp_all add: create_branch_def Let_def deactivate_shape implicit_root_def root_record_def)

lemma branch_op_plan:
  assumes ok: "world_ok w" and plan: "plan_branch env session op anchor w = Inr (parent, ms, n)"
    and fresh: "\<not> has_branch session (re_drawn env) (rw_branches w)" and drawn: "re_drawn env \<noteq> root_branch_id"
    and cols: "hc_row_id (re_columns env)" and clock: "clock_steps (re_rows env) (length ms)"
  shows "load_thread (re_scope env) (branch_thread_id session (re_drawn env)) None (rw_history (snd (branch_op env session op anchor w))) = Inr (take n ms)
    \<and> get_active session (rw_branches (snd (branch_op env session op anchor w))) = Some (new_branch env session op parent ms n)
    \<and> (\<forall>s t. (s, t) \<noteq> (re_scope env, branch_thread_id session (re_drawn env))
          \<longrightarrow> thread_history s t (rw_history (snd (branch_op env session op anchor w))) = thread_history s t (rw_history w))
    \<and> br_thread parent \<noteq> branch_thread_id session (re_drawn env)"
proof -
  note found = plan_branch_Inr[OF plan]
  have db: "history_ok (rw_history w)" and tree: "branch_tree (rw_branches w)" using ok by (simp_all add: world_ok_def)
  let ?child = "new_branch env session op parent ms n"
  obtain rows where tab: "create_branch ?child (rw_branches w) = Some (rows @ [?child])"
    using create_fresh[of ?child "rw_branches w"] fresh drawn by (auto simp: new_branch_def)
  let ?tab = "rows @ [?child]"
  have after: "snd (branch_op env session op anchor w) = w\<lparr>rw_history := reset_for env (br_thread ?child) (take n ms) (rw_history w),
      rw_branches := ?tab, rw_effects := rw_effects w @ [Branched (br_thread parent) (br_thread ?child) (row_ids (drop n ms))]\<rparr>"
    by (simp add: branch_op_def plan Let_def tab)
  have loaded: "load_thread (re_scope env) (br_thread parent) None (rw_history w) = Inr ms"
    using found(2) by (simp add: load_for_def split: sum.splits)
  have steps: "clock_steps (re_rows env) (length (take n ms))"
  proof -
    have "map (\<lambda>i. snd (re_rows env i)) [0..<length (take n ms)] = take (length (take n ms)) (map (\<lambda>i. snd (re_rows env i)) [0..<length ms])"
      by (simp add: take_map take_upt)
    then have "sorted (map (\<lambda>i. snd (re_rows env i)) [0..<length (take n ms)])"
      using clock sorted_wrt_take[of "(\<le>)"] by (simp add: clock_steps_def)
    then show ?thesis using clock by (simp add: clock_steps_def)
  qed
  have "load_thread (re_scope env) (br_thread ?child) None (reset_for env (br_thread ?child) (take n ms) (rw_history w)) = Inr (take n ms)"
    unfolding reset_for_def
    using reset_load[OF db _ steps cols] load_for_wf[OF db found(2)] loaded_copy[OF db loaded] by simp
  moreover have "branch_tree ?tab" using created_in_tree[OF tree _ drawn] tab found(1) by blast
  then have "get_active session ?tab = Some ?child"
    using active_unique[of ?tab ?child] by (simp add: new_branch_def)
  moreover have "br_thread parent \<noteq> branch_thread_id session (re_drawn env)"
  proof (rule branch_thread_fresh[OF tree])
    show "parent \<in> set (rw_branches w) \<or> parent = root_record session True 0" using active_in_tree[OF tree, of session] found(1) by auto
    show "br_session parent = session" using active_in_tree[OF tree, of session] found(1) by (auto simp: root_record_def)
    show "br_id parent \<noteq> re_drawn env"
      using active_in_tree[OF tree, of session] found(1) fresh drawn by (auto simp: root_record_def find_in_tree)
  qed
  ultimately show ?thesis unfolding after using reset_for_elsewhere[of _ _ env] by (simp add: new_branch_def)
qed

text \<open>
  C5: An edit, a regeneration, a rewind or a redo leaves the thread it starts from, and every other thread of every agent, as
  they were; the session then shows a new branch whose thread is exactly the kept part, row for row with the same ids, and
  whose record names the last row it shares with its parent.
\<close>
theorem branch_op_exact:
  assumes "world_ok w" and "plan_branch env session op anchor w = Inr (parent, ms, n)"
    and "\<not> has_branch session (re_drawn env) (rw_branches w)" and "re_drawn env \<noteq> root_branch_id"
    and "hc_row_id (re_columns env)" and "clock_steps (re_rows env) (length ms)"
    and "branch_op env session op anchor w = (res, w')" and "thread = branch_thread_id session (re_drawn env)"
  shows "load_thread (re_scope env) thread None (rw_history w') = Inr (take n ms)
    \<and> load_thread (re_scope env) (br_thread parent) None (rw_history w') = Inr ms
    \<and> (\<forall>s t. (s, t) \<noteq> (re_scope env, thread) \<longrightarrow> thread_history s t (rw_history w') = thread_history s t (rw_history w))
    \<and> get_active session (rw_branches w') = Some (new_branch env session op parent ms n)"
proof -
  have w': "snd (branch_op env session op anchor w) = w'" using assms(7) by simp
  note facts = branch_op_plan[OF assms(1-6), unfolded w', folded assms(8)]
  have "load_thread (re_scope env) (br_thread parent) None (rw_history w) = Inr ms"
    using plan_branch_Inr(2)[OF assms(2)] by (simp add: load_for_def split: sum.splits)
  moreover have "thread_history (re_scope env) (br_thread parent) (rw_history w') = thread_history (re_scope env) (br_thread parent) (rw_history w)"
    using facts by simp
  ultimately show ?thesis using facts load_same_rows by metis
qed

section \<open>A truncation cuts the active thread\<close>

lemma turn_cut_Inr:
  assumes "turn_cut ms anchor True True = Inr n"
  shows "n < length ms \<and> (\<forall>s. last_summary_index ms = Some s \<longrightarrow> s < n)"
  using assms by (auto simp: turn_cut_def Let_def assert_keeps_summary_def split: option.splits if_splits)

lemma row_ids_iff: "i \<in> set (row_ids ms) \<longleftrightarrow> i \<noteq> [] \<and> Some i \<in> msg_row_id ` set ms"
  by (force simp: row_ids_def image_iff split: option.splits)

lemma row_ids_drop: "set (row_ids (drop n ms)) \<subseteq> set (row_ids ms)"
proof
  fix i assume "i \<in> set (row_ids (drop n ms))"
  then show "i \<in> set (row_ids ms)"
    using image_mono[OF set_drop_subset[of n ms], of msg_row_id] unfolding row_ids_iff by blast
qed

lemma drop_by_ids:
  assumes "\<forall>m\<in>set ms. \<exists>i. msg_row_id m = Some i \<and> i \<noteq> []" and "\<not> (\<exists>i\<in>set (row_ids (drop n ms)). Some i \<in> msg_row_id ` set (take n ms))"
  shows "filter (\<lambda>m. msg_row_id m \<notin> Some ` set (row_ids (drop n ms))) ms = take n ms"
proof -
  have "msg_row_id m \<in> Some ` set (row_ids (drop n ms))" if m: "m \<in> set (drop n ms)" for m
  proof -
    obtain i where "msg_row_id m = Some i" "i \<noteq> []" using assms(1) in_set_dropD[OF m] by blast
    then have "i \<in> set (row_ids (drop n ms))" unfolding row_ids_iff using m by (metis imageI)
    then show ?thesis using \<open>msg_row_id m = Some i\<close> by simp
  qed
  moreover have "\<forall>m\<in>set (take n ms). msg_row_id m \<notin> Some ` set (row_ids (drop n ms))" using assms(2) by force
  ultimately have "filter (\<lambda>m. msg_row_id m \<notin> Some ` set (row_ids (drop n ms))) (take n ms @ drop n ms) = take n ms"
    unfolding filter_append by (simp add: filter_empty_conv filter_id_conv)
  then show ?thesis by simp
qed

lemma clock_steps_take: "clock_steps env (length ms) \<Longrightarrow> clock_steps env (length (take n ms))"
proof -
  assume clock: "clock_steps env (length ms)"
  have "map (\<lambda>i. snd (env i)) [0..<length (take n ms)] = take (length (take n ms)) (map (\<lambda>i. snd (env i)) [0..<length ms])"
    by (simp add: take_map take_upt)
  then show ?thesis using clock sorted_wrt_take[of "(\<le>)"] by (simp add: clock_steps_def)
qed

lemma not_stranded:
  assumes "\<not> strands_a_branch records active ms n dropped"
  shows "set (offered_at (key_points records active ms) key) \<subseteq> set (offered_at (key_points records active (take n ms)) key)"
proof (cases "map_of (rev (key_points records active ms)) key")
  case (Some p)
  then have "(key, p) \<in> set (key_points records active ms)" using map_of_SomeD by fastforce
  moreover have "records \<noteq> []" using calculation by (auto simp: key_points_def fork_keys_def List.map_filter_simps)
  ultimately show ?thesis
    using assms by (cases p) (auto simp: strands_a_branch_def Let_def list_ex_iff)
qed (simp add: offered_at_def)

text \<open>
  C7: A truncation keeps a beginning of the active thread, row for row, with the newest summary in it, drops at least one row,
  and touches no other thread and no branch; every branch that the thread offered at a point it still offers there.
\<close>
theorem truncate_exact:
  assumes "world_ok w" and "truncate_active env session anchor w = (Inr (b, dropped), w')"
    and "active = active_of session (list_branches session (rw_branches w))" and "load_for env (br_thread active) w = Inr ms"
    and "own_ids (row_ids ms)" and "hc_row_id (re_columns env)" and "clock_steps (re_rows env) (length ms)"
    and "points = key_points (list_branches session (rw_branches w)) (br_id active)"
  shows "\<exists>n < length ms. load_thread (re_scope env) (br_thread active) None (rw_history w') = Inr (take n ms) \<and> dropped = length ms - n
    \<and> (\<forall>s. last_summary_index ms = Some s \<longrightarrow> s < n)
    \<and> (\<forall>s t. (s, t) \<noteq> (re_scope env, br_thread active) \<longrightarrow> thread_history s t (rw_history w') = thread_history s t (rw_history w))
    \<and> rw_branches w' = rw_branches w \<and> (\<forall>key. set (offered_at (points ms) key) \<subseteq> set (offered_at (points (take n ms)) key))"
proof -
  have db: "history_ok (rw_history w)" using assms(1) by (simp add: world_ok_def)
  have loaded: "load_thread (re_scope env) (br_thread active) None (rw_history w) = Inr ms"
    using assms(4) by (simp add: load_for_def split: sum.splits)
  let ?childs = "list_branches session (rw_branches w)"
  obtain n where cut: "turn_cut ms anchor True True = Inr n" and kept: "\<not> strands_a_branch ?childs (br_id active) ms n (row_ids (drop n ms))"
    and res: "dropped = length ms - n"
      "w' = w\<lparr>rw_history :=
         (if \<exists>i\<in>set (row_ids (drop n ms)). Some i \<in> msg_row_id ` set (take n ms)
          then reset_for env (br_thread active) (take n ms) (rw_history w)
          else snd (delete_rows (re_columns env) (re_scope env) (br_thread active) (row_ids (drop n ms)) (rw_history w))),
         rw_effects := rw_effects w @ [Truncated (br_thread active) (row_ids (drop n ms))]\<rparr>"
    using assms(2,3,4) by (cases "turn_cut ms anchor True True") (simp_all add: truncate_active_def Let_def split: if_splits)
  have own: "own_ids (row_ids (drop n ms))"
    using assms(5) row_ids_drop unfolding own_ids_def list_all_iff by blast
  have short: "\<not> (\<exists>i\<in>set (row_ids (drop n ms)). Some i \<in> msg_row_id ` set (take n ms))
      \<Longrightarrow> filter (\<lambda>m. msg_row_id m \<notin> Some ` set (row_ids (drop n ms))) ms = take n ms"
    using drop_by_ids load_normal[OF db loaded] by blast
  have "load_thread (re_scope env) (br_thread active) None (rw_history w') = Inr (take n ms)"
  proof (cases "\<exists>i\<in>set (row_ids (drop n ms)). Some i \<in> msg_row_id ` set (take n ms)")
    case True
    then show ?thesis
      using res(2) reset_load[OF db _ clock_steps_take[OF assms(7)] assms(6)] load_for_wf[OF db assms(4)] loaded_copy[OF db loaded]
      by (simp add: reset_for_def)
  next
    case False
    then show ?thesis using res(2) delete_load[OF db loaded own assms(6)] short by simp
  qed
  moreover have "thread_history s t (rw_history w') = thread_history s t (rw_history w)" if "(s, t) \<noteq> (re_scope env, br_thread active)" for s t
    using res(2) reset_for_elsewhere[OF that] delete_elsewhere[OF that] by simp
  moreover have "rw_branches w' = rw_branches w" using res(2) by simp
  ultimately show ?thesis
    using turn_cut_Inr[OF cut] not_stranded[OF kept] res(1) unfolding assms(8) by (intro exI[of _ n]) blast
qed

section \<open>Offered and accepted\<close>

definition accepted :: "rewrite_error + nat \<Rightarrow> bool" where
  \<comment> \<open>up to a cut between a tool call and its result, which the flags do not know of\<close>
  "accepted r \<longleftrightarrow> (case r of Inr _ \<Rightarrow> True | Inl e \<Rightarrow> e = SplitsToolPair)"

definition keeps_summary :: "message list \<Rightarrow> nat \<Rightarrow> bool" where
  "keeps_summary ms n \<longleftrightarrow> (case last_summary_index ms of None \<Rightarrow> True | Some s \<Rightarrow> s < n)"

lemma accepted_cut: "accepted (cut_checks ms n) \<longleftrightarrow> keeps_summary ms n"
  by (auto simp: accepted_def cut_checks_def keeps_summary_def assert_keeps_summary_def assert_tool_pairs_def split: option.split)

lemma last_index_drop:
  assumes "k \<le> length xs"
  shows "last_index P xs = (case last_index P (drop k xs) of Some i \<Rightarrow> Some (k + i) | None \<Rightarrow> last_index P (take k xs))"
proof -
  have split: "[0..<length xs] = [0..<k] @ map ((+) k) [0..<length xs - k]"
    using assms by (intro nth_equalityI) (auto simp: nth_append)
  have "filter (\<lambda>i. P (xs ! i)) [0..<length xs] = filter (\<lambda>i. P (take k xs ! i)) [0..<k] @ map ((+) k) (filter (\<lambda>i. P (drop k xs ! i)) [0..<length xs - k])"
    unfolding split filter_append using assms by (auto simp: filter_map comp_def intro!: filter_cong)
  moreover have "last_index P ys = (if filter (\<lambda>i. P (ys ! i)) [0..<length ys] = [] then None
      else Some (last (filter (\<lambda>i. P (ys ! i)) [0..<length ys])))" for ys
    by (simp add: last_index_def split: list.split)
  ultimately show ?thesis using assms by (simp add: last_map min_def)
qed

lemma keeps_drop:
  assumes "k \<le> length ms"
  shows "keeps_summary (drop k ms) n \<longleftrightarrow> keeps_summary ms (k + n)"
proof -
  have "s < k" if "last_index is_context_summary_row (take k ms) = Some s" for s
    using last_index_Some[OF that] assms by simp
  then show ?thesis
    unfolding keeps_summary_def last_summary_index_def last_index_drop[OF assms, of is_context_summary_row]
    by (cases "last_index is_context_summary_row (drop k ms)"; cases "last_index is_context_summary_row (take k ms)") fastforce+
qed

lemma find_shift:
  "List.find (\<lambda>j. P (xs ! j)) (map ((+) k) is) = map_option ((+) k) (List.find (\<lambda>i. P (xs ! (k + i))) is)"
  by (induction "is") simp_all

lemma turn_at_shift:
  assumes "i < length (drop k ms)" and "k \<le> length ms"
  shows "(case List.find (\<lambda>j. is_user_text_row (drop k ms ! j)) (rev [0..<Suc i]) of None \<Rightarrow> False | Some j \<Rightarrow> keeps_summary (drop k ms) j)
    \<longleftrightarrow> accepted (prefix_end_for ms (k + i) RegenerateOp) \<and> (\<exists>j\<le>i. is_user_text_row (ms ! (k + j)))"
proof -
  have split: "rev [0..<Suc (k + i)] = map ((+) k) (rev [0..<Suc i]) @ rev [0..<k]"
  proof -
    have "[0..<Suc (k + i)] = [0..<k] @ map ((+) k) [0..<Suc i]" by (intro nth_equalityI) (auto simp: nth_append simp del: upt_Suc)
    then show ?thesis by (simp add: rev_map del: upt_Suc)
  qed
  have find_app: "List.find P (xs @ ys) = (case List.find P xs of None \<Rightarrow> List.find P ys | Some x \<Rightarrow> Some x)" for P and xs ys :: "nat list"
    by (induction xs) auto
  let ?tail = "List.find (\<lambda>j. is_user_text_row (drop k ms ! j)) (rev [0..<Suc i])"
  have same: "List.find (\<lambda>j. is_user_text_row (ms ! (k + j))) (rev [0..<Suc i]) = ?tail"
    using assms by simp
  have full: "List.find (\<lambda>j. is_user_text_row (ms ! j)) (rev [0..<Suc (k + i)])
      = (case ?tail of None \<Rightarrow> List.find (\<lambda>j. is_user_text_row (ms ! j)) (rev [0..<k]) | Some j \<Rightarrow> Some (k + j))"
    unfolding split find_app find_shift same by (cases ?tail) simp_all
  show ?thesis
  proof (cases ?tail)
    case None
    from same this have "List.find (\<lambda>j. is_user_text_row (ms ! (k + j))) (rev [0..<Suc i]) = None" by (rule HOL.trans)
    then have "\<not> (\<exists>j\<le>i. is_user_text_row (ms ! (k + j)))"
      by (simp only: find_None_iff set_rev set_upt) (simp add: less_Suc_eq_le)
    then show ?thesis using None by (simp del: upt_Suc)
  next
    case (Some j)
    then have "\<exists>j\<le>i. is_user_text_row (ms ! (k + j))" using find_last_of[OF Some] assms(2) by (auto simp: less_Suc_eq_le)
    moreover have "owning_user_index ms (k + i) = Inr (k + j)" unfolding owning_user_index_def full Some by simp
    ultimately show ?thesis using Some keeps_drop[OF assms(2)] by (simp add: prefix_end_for_def accepted_cut del: upt_Suc)
  qed
qed

lemma next_turn_rewind:
  assumes "i < length ms"
  shows "(if is_user_text_row (ms ! i) then Suc i else next_turn_index ms i) = rewind_end ms i"
proof (cases "is_user_text_row (ms ! i)")
  case False
  note b = rewind_end_bounds[OF assms]
  show ?thesis
  proof (cases "List.find (\<lambda>j. is_user_text_row (ms ! j)) [Suc i..<length ms]")
    case None
    then have "\<forall>j. i < j \<longrightarrow> j < length ms \<longrightarrow> \<not> is_user_text_row (ms ! j)" by (auto simp: find_None_iff)
    then have "\<not> rewind_end ms i < length ms" using b False by blast
    then have "rewind_end ms i = length ms" using b by simp
    then show ?thesis using None False by (simp add: next_turn_index_def)
  next
    case (Some j)
    note j = find_first_of[OF Some]
    have "\<not> j < rewind_end ms i" using b j by (auto simp: Suc_le_eq)
    moreover have "\<not> rewind_end ms i < j" using b j False by (metis Suc_leI less_trans)
    ultimately show ?thesis using Some False by (simp add: next_turn_index_def)
  qed
qed (simp add: rewind_end_def)

lemma rewind_end_drop:
  assumes "i < length (drop k ms)" and "k \<le> length ms"
  shows "rewind_end ms (k + i) = k + rewind_end (drop k ms) i"
  using assms by (simp add: rewind_end_def add.commute)

text \<open>
  C9: For a row of the newest part of a thread that the chat history returns, the operations that it offers are those that
  the server accepts on the whole thread, up to a cut through a tool call and a rewind with nothing behind it; a redo at the
  first returned row and a regeneration whose user message is not among the returned rows are not offered.
\<close>
theorem offers_accepted:
  assumes "i < length (drop k ms)" and "k \<le> length ms" and "flags = wire_flags (drop k ms) i"
  shows "(rf_editable flags \<longleftrightarrow> accepted (prefix_end_for ms (k + i) EditOp))
    \<and> (rf_restorable flags \<longleftrightarrow> accepted (prefix_end_for ms (k + i) RestoreOp) \<and> 0 < i)
    \<and> (rf_rewritable flags \<longleftrightarrow> accepted (prefix_end_for ms (k + i) RegenerateOp) \<and> (\<exists>j\<le>i. is_user_text_row (ms ! (k + j))))
    \<and> (rf_rewindable flags \<longleftrightarrow> accepted (prefix_end_for ms (k + i) RewindOp) \<or> prefix_end_for ms (k + i) RewindOp = Inl NothingToRewind)"
proof -
  have row: "drop k ms ! i = ms ! (k + i)" using assms(2) by simp
  have keeps: "(case last_summary_index (drop k ms) of None \<Rightarrow> True | Some s \<Rightarrow> s < n) = keeps_summary ms (k + n)" for n
    using keeps_drop[OF assms(2)] by (simp add: keeps_summary_def)
  have edit: "rf_editable flags \<longleftrightarrow> is_user_text_row (ms ! (k + i)) \<and> keeps_summary ms (k + i)"
    unfolding assms(3) wire_flags_def Let_def row_flags.select_convs row keeps by simp
  have "rf_restorable flags \<longleftrightarrow> rf_editable flags \<and> 0 < i" by (simp add: assms(3) wire_flags_def Let_def)
  moreover have "rf_rewritable flags \<longleftrightarrow> accepted (prefix_end_for ms (k + i) RegenerateOp) \<and> (\<exists>j\<le>i. is_user_text_row (ms ! (k + j)))"
  proof -
    have "rf_rewritable flags \<longleftrightarrow> (case List.find (\<lambda>j. is_user_text_row (drop k ms ! j)) (rev [0..<Suc i]) of
        None \<Rightarrow> False | Some j \<Rightarrow> keeps_summary (drop k ms) j)"
      unfolding assms(3) wire_flags_def Let_def row_flags.select_convs keeps_summary_def ..
    then show ?thesis using turn_at_shift[OF assms(1,2)] by (rule HOL.trans)
  qed
  moreover have "rf_rewindable flags \<longleftrightarrow> keeps_summary ms (rewind_end ms (k + i))"
    using next_turn_rewind[OF assms(1)] rewind_end_drop[OF assms(1,2)] keeps
    by (simp add: assms(3) wire_flags_def Let_def)
  moreover have "keeps_summary ms n" if "length ms \<le> n" for n
    using last_index_Some[of is_context_summary_row ms] that by (fastforce simp: keeps_summary_def last_summary_index_def split: option.split)
  ultimately show ?thesis
    using edit by (simp add: prefix_end_for_def accepted_cut) (auto simp: accepted_def cut_checks_def assert_keeps_summary_def assert_tool_pairs_def keeps_summary_def split: option.splits)
qed

lemma rewind_offered_refused:
  \<comment> \<open>the last turn is offered for a rewind that the server refuses\<close>
  "rf_rewindable (wire_flags [new_message User [Text ''hi'']] 0)
    \<and> prefix_end_for [new_message User [Text ''hi'']] 0 RewindOp = Inl NothingToRewind"
  by code_simp

section \<open>A sample world\<close>

definition sample_stamps :: "nat \<Rightarrow> string \<times> int" where
  "sample_stamps i = (''x'', 9)"

definition sample_world :: rewrite_world where
  "sample_world = \<lparr>rw_history = reset_thread both_columns [] sample_stamps ''s'' sample_thread new_history, rw_branches = [], rw_effects = []\<rparr>"

definition sample_env :: rewrite_env where
  "sample_env = \<lparr>re_scope = [], re_columns = both_columns, re_now = 9, re_drawn = ''b1'', re_rows = sample_stamps\<rparr>"

lemma sample_clock: "clock_steps sample_stamps n"
proof -
  have "map (\<lambda>i. snd (sample_stamps i)) [0..<n] = replicate n 9" by (simp add: sample_stamps_def map_replicate_const)
  then show ?thesis by (simp add: clock_steps_def) (simp add: sample_stamps_def)
qed

lemma sample_wf: "list_all wf_message sample_thread"
  by (simp add: sample_thread_def wf_message_def)

lemma sample_load: "load_thread [] ''s'' None (rw_history sample_world) = Inr sample_thread"
proof -
  have "stored_messages sample_stamps sample_thread = sample_thread"
    by (simp add: stored_messages_def sample_thread_def stored_message_def row_id_for_insert_def upt_conv_Cons del: upt_Suc)
  then show ?thesis
    using reset_load[OF new_history_ok sample_wf sample_clock, of both_columns "[]" "''s''"] by (simp add: sample_world_def both_columns_def)
qed

lemma sample_ok: "world_ok sample_world"
  using reset_ok[OF new_history_ok sample_wf] by (simp add: world_ok_def sample_world_def branch_tree_def)

lemma sample_root: "active_of ''s'' (list_branches ''s'' (rw_branches sample_world)) = root_record ''s'' True 0"
  by (simp add: sample_world_def list_branches_def active_of_def)

lemma sample_plan: "plan_branch sample_env ''s'' EditOp ''r3'' sample_world = Inr (root_record ''s'' True 0, sample_thread, 2)"
proof -
  have "row_index sample_thread ''r3'' = Inr 2" "prefix_end_for sample_thread 2 EditOp = Inr 2" by code_simp+
  then show ?thesis
    using sample_load by (simp add: plan_branch_def Let_def sample_root load_for_def root_record_def sample_env_def)
qed

theorem branch_op_exact_witness:
  "load_thread [] (branch_thread_id ''s'' ''b1'') None (rw_history (snd (branch_op sample_env ''s'' EditOp ''r3'' sample_world))) = Inr (take 2 sample_thread)"
proof -
  have "re_scope sample_env = []" "re_drawn sample_env = ''b1''" by (simp_all add: sample_env_def)
  then show ?thesis
    using branch_op_exact[OF sample_ok sample_plan _ _ _ _ surjective_pairing refl] sample_clock
    by (simp add: sample_env_def sample_world_def both_columns_def root_branch_id_def)
qed

theorem rewrites_keep_tree_witness:
  "branch_tree (rw_branches (fold rewrite_step [RBranch sample_env ''s'' EditOp ''r3'', RPurge sample_env ''s''] sample_world))"
  using rewrites_keep_tree[OF sample_ok, of "[RBranch sample_env ''s'' EditOp ''r3'', RPurge sample_env ''s'']"]
  by (simp add: sample_env_def root_branch_id_def)

theorem cut_exact_witness:
  "request_ids_in (take 2 sample_thread) \<inter> response_ids_in (drop 2 sample_thread) = {} \<and> is_user_text_row (sample_thread ! 2)"
proof -
  have "prefix_end_for sample_thread 3 RegenerateOp = Inr 2" "3 < length sample_thread" by code_simp+
  from cut_exact[OF this] show ?thesis by simp
qed

lemma sample_truncate: "\<exists>w'. truncate_active sample_env ''s'' ''r1'' sample_world = (Inr (''root'', 3), w')"
proof -
  have "turn_cut sample_thread ''r1'' True True = Inr 1" by code_simp
  moreover have "length sample_thread = 4" by (simp add: sample_thread_def)
  moreover have "active_of ''s'' [] = root_record ''s'' True 0" by (simp add: active_of_def)
  ultimately show ?thesis
    using sample_load
    by (simp add: truncate_active_def Let_def sample_root load_for_def root_record_def sample_env_def strands_a_branch_def
      list_branches_def sample_world_def root_branch_id_def)
qed

theorem truncate_exact_witness:
  "\<exists>n < 4. load_thread [] ''s'' None (rw_history (snd (truncate_active sample_env ''s'' ''r1'' sample_world))) = Inr (take n sample_thread) \<and> 3 = 4 - n"
proof -
  obtain w' where w': "truncate_active sample_env ''s'' ''r1'' sample_world = (Inr (''root'', 3), w')" using sample_truncate by blast
  have own: "own_ids (row_ids sample_thread)" by code_simp
  have load: "load_for sample_env (br_thread (active_of ''s'' (list_branches ''s'' (rw_branches sample_world)))) sample_world = Inr sample_thread"
    using sample_load by (simp add: sample_root load_for_def root_record_def sample_env_def)
  have cols: "hc_row_id (re_columns sample_env)" and clock: "clock_steps (re_rows sample_env) (length sample_thread)"
    using sample_clock by (simp_all add: sample_env_def both_columns_def)
  have "re_scope sample_env = []" "length sample_thread = 4" by (simp_all add: sample_env_def sample_thread_def)
  moreover have "snd (truncate_active sample_env ''s'' ''r1'' sample_world) = w'" using w' by simp
  ultimately show ?thesis
    using truncate_exact[OF sample_ok w' refl load own cols clock refl] unfolding sample_root by (auto simp: root_record_def)
qed

theorem offers_accepted_witness:
  "rf_rewindable (wire_flags (drop 1 sample_thread) 0)
    \<longleftrightarrow> accepted (prefix_end_for sample_thread (1 + 0) RewindOp) \<or> prefix_end_for sample_thread (1 + 0) RewindOp = Inl NothingToRewind"
  using offers_accepted[of 0 1 sample_thread, OF _ _ refl] by (simp add: sample_thread_def)

end
