(* ===== verification/Change_Recorder.thy ===== *)
theory Change_Recorder
  imports Patch Json
begin

text \<open>
  \<open>core/tools/change_recorder.py\<close>: the snapshots before and after each write of the agent, and undoing them. Files are byte
  strings at places of the workspace; links are not modelled, and a path that climbs above the root is refused. The hash and
  the line counts of \<open>difflib\<close> are arguments; a session's log holds its records, without torn lines. Shown: undoing a request
  succeeds, gives each file that the request wrote its content from before its first write, leaves every other file, and has
  nothing left to undo afterwards, for records that no move takes part in and where there is room for the files and their
  temporary names; and, on examples, how moves, a mounted root, a directory and a taken temporary name break this.
\<close>

section \<open>Snapshots\<close>

type_synonym file_bytes = "place \<Rightarrow> string option"

datatype file_action = FaCreate | FaModify | FaDelete | FaMove

record preimage =
  pi_path :: string
  pi_before_sha :: "string option"
  pi_before :: "string option"
  pi_too_large :: bool
  pi_is_text :: bool
  pi_from :: "string option"
  pi_hint :: "file_action option"

record file_change_record =
  fc_id :: string
  fc_request :: string
  fc_call :: string
  fc_path :: string
  fc_action :: file_action
  fc_before :: "string option"
  fc_after :: "string option"
  fc_additions :: nat
  fc_deletions :: nat
  fc_is_text :: bool
  fc_too_large :: bool
  fc_ts :: string
  fc_from :: "string option"

record recorder =
  rc_sha :: "string \<Rightarrow> string"
  rc_stats :: "string option \<Rightarrow> string option \<Rightarrow> nat \<times> nat"

definition blob_cap_bytes :: nat where
  "blob_cap_bytes = 2 * 1024 * 1024"

definition in_range :: "nat \<Rightarrow> nat \<Rightarrow> char \<Rightarrow> bool" where
  "in_range a b c \<longleftrightarrow> (let n = of_char c :: nat in a \<le> n \<and> n \<le> b)"

fun utf8_valid :: "string \<Rightarrow> bool" where
  \<comment> \<open>what \<open>bytes.decode("utf-8")\<close> accepts: no overlong form, no surrogate, nothing above U+10FFFF\<close>
  "utf8_valid [] = True"
| "utf8_valid (a # cs) =
     (if in_range 0 127 a then utf8_valid cs
      else if in_range 194 223 a then (case cs of b # ds \<Rightarrow> in_range 128 191 b \<and> utf8_valid ds | _ \<Rightarrow> False)
      else if in_range 224 239 a then
        (case cs of b # c # ds \<Rightarrow>
             in_range (if in_range 224 224 a then 160 else 128) (if in_range 237 237 a then 159 else 191) b
             \<and> in_range 128 191 c \<and> utf8_valid ds
         | _ \<Rightarrow> False)
      else if in_range 240 244 a then
        (case cs of b # c # d # ds \<Rightarrow>
             in_range (if in_range 240 240 a then 144 else 128) (if in_range 244 244 a then 143 else 191) b
             \<and> in_range 128 191 c \<and> in_range 128 191 d \<and> utf8_valid ds
         | _ \<Rightarrow> False)
      else False)"

definition is_text :: "string \<Rightarrow> bool" where
  "is_text data \<longleftrightarrow> char_of (0 :: nat) \<notin> set (take 8192 data) \<and> utf8_valid data"

definition fingerprint :: "recorder \<Rightarrow> string option \<Rightarrow> string option \<times> string option \<times> bool \<times> bool" where
  \<comment> \<open>the hash, the bytes, whether they are text, whether there are too many\<close>
  "fingerprint rc file = (case file of
       None \<Rightarrow> (None, None, True, False)
     | Some data \<Rightarrow> if blob_cap_bytes < length data then (Some (rc_sha rc data), None, False, True)
         else (Some (rc_sha rc data), Some data, is_text data, False))"

definition snapshot :: "recorder \<Rightarrow> file_bytes \<Rightarrow> string \<Rightarrow> place \<Rightarrow> string option \<Rightarrow> (string option \<Rightarrow> file_action) \<Rightarrow> preimage" where
  \<comment> \<open>the fields of \<open>Preimage(...)\<close> for the file at a place, recorded under a path; the hint may depend on the hash\<close>
  "snapshot rc f path p from hint = (case fingerprint rc (f p) of (sha, data, text, large) \<Rightarrow>
     \<lparr>pi_path = path, pi_before_sha = sha, pi_before = data, pi_too_large = large, pi_is_text = text, pi_from = from,
      pi_hint = Some (hint sha)\<rparr>)"

definition canon :: "workspace \<Rightarrow> string \<Rightarrow> (string \<times> place) option option" where
  \<comment> \<open>\<open>None\<close> for an exception that \<open>capture_preimages\<close> catches, \<open>Some None\<close> for a refused path\<close>
  "canon ws rel = (case require_writable_path ws rel of
       Inl Uncaught \<Rightarrow> None
     | Inl (WsError _) \<Rightarrow> Some None
     | Inr p \<Rightarrow> Some (Some (as_repo_rel p, p)))"

definition first_truthy :: "jdict \<Rightarrow> string list \<Rightarrow> json option" where
  \<comment> \<open>\<open>args.get(a) or args.get(b) or ...\<close>\<close>
  "first_truthy args keys = List.find json_truthy (List.map_filter (dict_get args) keys)"

fun hunk_preimage :: "recorder \<Rightarrow> workspace \<Rightarrow> file_bytes \<Rightarrow> hunk \<Rightarrow> preimage list option" where
  "hunk_preimage rc ws f (AddHunk path _) = (case canon ws path of
       None \<Rightarrow> None | Some None \<Rightarrow> Some []
     | Some (Some (rel, p)) \<Rightarrow> Some [snapshot rc f rel p None (\<lambda>_. FaCreate)])"
| "hunk_preimage rc ws f (DeleteHunk path) = (case canon ws path of
       None \<Rightarrow> None | Some None \<Rightarrow> Some []
     | Some (Some (rel, p)) \<Rightarrow> Some [snapshot rc f rel p None (\<lambda>_. FaDelete)])"
| "hunk_preimage rc ws f (UpdateHunk path _ mv) =
     (if truthy_path mv then (case canon ws path of
          None \<Rightarrow> None
        | Some source \<Rightarrow> (case canon ws (the mv) of
            None \<Rightarrow> None
          | Some dest \<Rightarrow> (case (source, dest) of
              (Some (srel, sp), Some (drel, _)) \<Rightarrow> Some [snapshot rc f drel sp (Some srel) (\<lambda>_. FaMove)]
            | _ \<Rightarrow> Some [])))
      else (case canon ws path of
          None \<Rightarrow> None | Some None \<Rightarrow> Some []
        | Some (Some (rel, p)) \<Rightarrow> Some [snapshot rc f rel p None (\<lambda>_. FaModify)]))"

fun hunk_preimages :: "recorder \<Rightarrow> workspace \<Rightarrow> file_bytes \<Rightarrow> hunk list \<Rightarrow> preimage list option" where
  "hunk_preimages rc ws f [] = Some []"
| "hunk_preimages rc ws f (h # hs) = (case hunk_preimage rc ws f h of
     None \<Rightarrow> None | Some ps \<Rightarrow> map_option (\<lambda>rest. ps @ rest) (hunk_preimages rc ws f hs))"

definition capture_preimages :: "recorder \<Rightarrow> workspace \<Rightarrow> file_bytes \<Rightarrow> string \<Rightarrow> jdict \<Rightarrow> preimage list" where
  "capture_preimages rc ws f tool args =
     (if tool = ''write_file'' \<or> tool = ''replace_in_file'' then
        (case first_truthy args [''path'', ''file_path'', ''file''] of
           Some (JStr raw) \<Rightarrow> if py_strip raw = [] then []
             else (case canon ws raw of
                 Some (Some (rel, p)) \<Rightarrow> [snapshot rc f rel p None (\<lambda>sha. if sha = None then FaCreate else FaModify)]
               | _ \<Rightarrow> [])
         | _ \<Rightarrow> [])
      else if tool = ''apply_patch'' then
        (case first_truthy args [''patch_text'', ''patch'', ''text''] of
           Some (JStr text) \<Rightarrow> if py_strip text = [] then []
             else (case parse_patch text of
                 Inl _ \<Rightarrow> []
               | Inr hunks \<Rightarrow> (case hunk_preimages rc ws f hunks of None \<Rightarrow> [] | Some ps \<Rightarrow> ps))
         | _ \<Rightarrow> [])
      else [])"

section \<open>The store\<close>

record session_changes =
  sc_log :: "file_change_record list"
  sc_blobs :: "(string, string) dict"
  sc_reverted :: "string set"
  sc_notes :: "string list"
  sc_trash :: "(string \<times> place \<times> string) list" \<comment> \<open>directory, former place, bytes\<close>

definition no_changes :: session_changes where
  "no_changes = \<lparr>sc_log = [], sc_blobs = [], sc_reverted = {}, sc_notes = [], sc_trash = []\<rparr>"

record change_world =
  ch_files :: file_bytes
  ch_dirs :: "place set"
  ch_sessions :: "(string, session_changes) dict" \<comment> \<open>the directories under \<open>.monkeybot/changes\<close>\<close>

definition changes_of :: "change_world \<Rightarrow> string \<Rightarrow> session_changes" where
  "changes_of w session = (case dict_get (ch_sessions w) session of None \<Rightarrow> no_changes | Some s \<Rightarrow> s)"

definition session_char :: "char \<Rightarrow> bool" where
  "session_char c \<longleftrightarrow> in_range 97 122 c \<or> in_range 65 90 c \<or> in_range 48 57 c \<or> c \<in> set ''._-:''"

definition safe_session :: "string \<Rightarrow> string option" where
  \<comment> \<open>\<open>None\<close> is the \<open>ValueError\<close>\<close>
  "safe_session session =
     (let s = py_strip session
      in if s = ''.'' \<or> s = ''..'' \<or> s = [] \<or> 128 < length s \<or> \<not> list_all session_char s then None else Some s)"

definition existing_place :: "string \<Rightarrow> place" where
  \<comment> \<open>\<open>root / rel\<close> for a canonical relative path\<close>
  "existing_place rel = (RepoRoot, filter (\<lambda>s. s \<noteq> [] \<and> s \<noteq> ''.'') (split_on (CHR ''/'') rel))"

definition within_root :: "string \<Rightarrow> place option" where
  "within_root rel =
     (if rel = [] \<or> char_of (0 :: nat) \<in> set rel \<or> startswith rel ''/'' \<or> startswith rel [backslash] then None
      else (case push_segments [] (split_on (CHR ''/'') rel) of Inl _ \<Rightarrow> None | Inr segs \<Rightarrow> Some (RepoRoot, segs)))"

definition write_blob :: "string \<Rightarrow> string \<Rightarrow> (string, string) dict \<Rightarrow> (string, string) dict" where
  "write_blob sha data blobs = (if dict_get blobs sha = None then blobs @ [(sha, data)] else blobs)"

definition write_blob_of :: "string option \<Rightarrow> string option \<Rightarrow> (string, string) dict \<Rightarrow> (string, string) dict" where
  "write_blob_of sha data blobs = (case (data, sha) of (Some d, Some s) \<Rightarrow> write_blob s d blobs | _ \<Rightarrow> blobs)"

definition commit_one :: "recorder \<Rightarrow> file_bytes \<Rightarrow> string \<Rightarrow> string \<Rightarrow> string \<times> string \<Rightarrow> preimage \<Rightarrow> session_changes \<Rightarrow> file_change_record \<times> session_changes" where
  \<comment> \<open>with the new id and the time stamp\<close>
  "commit_one rc f request call env pre s =
     (case fingerprint rc (f (existing_place (pi_path pre))) of (after_sha, after, after_text, after_large) \<Rightarrow>
        (let large = (pi_too_large pre \<or> after_large);
             text = (pi_is_text pre \<and> after_text \<and> \<not> large);
             action = (if pi_hint pre = Some FaDelete \<or> after_sha = None \<and> pi_before_sha pre \<noteq> None then FaDelete
                       else if pi_hint pre = Some FaMove then FaMove
                       else if pi_hint pre = Some FaCreate \<or> pi_before_sha pre = None then FaCreate
                       else (case pi_hint pre of None \<Rightarrow> FaModify | Some h \<Rightarrow> h));
             stats = (if text then rc_stats rc (pi_before pre) after else (0, 0));
             blobs = (if large then sc_blobs s
                      else write_blob_of after_sha after (write_blob_of (pi_before_sha pre) (pi_before pre) (sc_blobs s)));
             change = \<lparr>fc_id = fst env, fc_request = request, fc_call = call, fc_path = pi_path pre, fc_action = action,
               fc_before = pi_before_sha pre, fc_after = after_sha, fc_additions = fst stats, fc_deletions = snd stats,
               fc_is_text = text, fc_too_large = large, fc_ts = snd env, fc_from = pi_from pre\<rparr>
         in (change, s\<lparr>sc_blobs := blobs, sc_log := sc_log s @ [change]\<rparr>)))"

fun commit_all :: "recorder \<Rightarrow> file_bytes \<Rightarrow> string \<Rightarrow> string \<Rightarrow> (nat \<Rightarrow> string \<times> string) \<Rightarrow> nat \<Rightarrow> preimage list \<Rightarrow> session_changes
    \<Rightarrow> file_change_record list \<times> session_changes" where
  "commit_all rc f request call env k [] s = ([], s)"
| "commit_all rc f request call env k (p # ps) s =
     (case commit_one rc f request call (env k) p s of (c, s1) \<Rightarrow>
        (case commit_all rc f request call env (Suc k) ps s1 of (cs, s2) \<Rightarrow> (c # cs, s2)))"

fun enforce_cap :: "((string, session_changes) dict \<Rightarrow> bool) \<Rightarrow> string list \<Rightarrow> (string, session_changes) dict \<Rightarrow> (string, session_changes) dict" where
  \<comment> \<open>whether the tree is above the cap, and the other sessions from the oldest on\<close>
  "enforce_cap above_cap [] ss = ss"
| "enforce_cap above_cap (s # others) ss = (if above_cap ss then enforce_cap above_cap others (dict_pop s ss) else ss)"

definition commit_changes ::
    "recorder \<Rightarrow> string \<Rightarrow> string \<Rightarrow> string \<Rightarrow> (nat \<Rightarrow> string \<times> string) \<Rightarrow> ((string, session_changes) dict \<Rightarrow> bool) \<Rightarrow> string list
      \<Rightarrow> preimage list \<Rightarrow> change_world \<Rightarrow> file_change_record list \<times> change_world" where
  "commit_changes rc session request call env above_cap oldest pres w =
     (if pres = [] then ([], w)
      else (case safe_session session of
          None \<Rightarrow> ([], w)
        | Some name \<Rightarrow> (case commit_all rc (ch_files w) request call env 0 pres (changes_of w name) of (records, s) \<Rightarrow>
            (records, w\<lparr>ch_sessions := enforce_cap above_cap (filter (\<lambda>n. n \<noteq> session \<and> n \<noteq> ''blobs'') oldest) (dict_set name s (ch_sessions w))\<rparr>))))"

section \<open>Reading the store\<close>

definition subagent_prefix :: "string \<Rightarrow> string" where
  "subagent_prefix session = ''subagent:'' @ session @ '':''"

definition session_names :: "string \<Rightarrow> change_world \<Rightarrow> string list" where
  "session_names session w = session # sort (filter (\<lambda>n. startswith n (subagent_prefix session)) (map fst (ch_sessions w)))"

definition list_changes :: "string \<Rightarrow> change_world \<Rightarrow> (file_change_record \<times> bool) list option" where
  \<comment> \<open>each record with whether it was undone; \<open>None\<close> for a subagent directory whose name is no session id\<close>
  "list_changes session w = (case safe_session session of None \<Rightarrow> Some []
     | Some _ \<Rightarrow>
       (if \<exists>n\<in>set (session_names session w). safe_session n = None then None
        else Some (concat (map (\<lambda>n. (let s = changes_of w (the (safe_session n))
             in map (\<lambda>c. (c, fc_id c \<in> sc_reverted s)) (sc_log s))) (session_names session w)))))"

definition hex_name :: "string \<Rightarrow> bool" where
  "hex_name s \<longleftrightarrow> length s = 64 \<and> list_all (\<lambda>c. in_range 48 57 c \<or> in_range 97 102 c) s"

section \<open>Undo\<close>

datatype revert_error = UnsafeSession | TooLarge "string list" | Conflict "string list" | EscapedOSError

definition select_changes :: "file_change_record list \<Rightarrow> string list \<Rightarrow> string option \<Rightarrow> string set \<Rightarrow> file_change_record list" where
  "select_changes log wanted request reverted =
     filter (\<lambda>c. fc_id c \<notin> reverted
       \<and> (if wanted \<noteq> [] then fc_id c \<in> set wanted
          else (case request of None \<Rightarrow> False | Some r \<Rightarrow> r \<noteq> [] \<and> fc_request c = r))) log"

definition moved_from :: "file_change_record \<Rightarrow> string" where
  "moved_from c = (if fc_action c = FaMove then (case fc_from c of None \<Rightarrow> [] | Some p \<Rightarrow> p) else [])"

fun later_changes :: "string set \<Rightarrow> string set \<Rightarrow> string set \<Rightarrow> string set \<Rightarrow> file_change_record list \<Rightarrow> file_change_record list" where
  \<comment> \<open>the selected ids, the undone ids, the paths touched so far, the ids seen so far\<close>
  "later_changes ids reverted armed seen [] = []"
| "later_changes ids reverted armed seen (c # cs) =
     (if fc_id c \<in> reverted then later_changes ids reverted armed seen cs
      else if fc_id c \<notin> ids \<and> \<not> (fc_path c \<noteq> [] \<and> fc_path c \<in> armed \<or> moved_from c \<noteq> [] \<and> moved_from c \<in> armed)
      then later_changes ids reverted armed seen cs
      else if fc_id c \<in> seen then later_changes ids reverted armed seen cs
      else c # later_changes ids reverted (({fc_path c, moved_from c} - {[]}) \<union> armed) (insert (fc_id c) seen) cs)"

definition include_later :: "file_change_record list \<Rightarrow> file_change_record list \<Rightarrow> string set \<Rightarrow> file_change_record list" where
  "include_later log selected reverted =
     (if selected = [] then [] else later_changes (set (map fc_id selected)) reverted {} {} log)"

definition chain_step ::
    "(string, file_change_record list) dict \<times> (string, string) dict \<Rightarrow> file_change_record \<Rightarrow> (string, file_change_record list) dict \<times> (string, string) dict" where
  \<comment> \<open>the chains by where a file ended up, and where a path went\<close>
  "chain_step st c = (case st of (by_path, went) \<Rightarrow>
     if fc_path c = [] then st
     else if fc_action c = FaMove \<and> fc_from c \<noteq> None \<and> fc_from c \<noteq> Some [] then
       (let from = the (fc_from c);
            key = (case dict_get went from of None \<Rightarrow> from | Some k \<Rightarrow> k);
            chain = (case dict_get by_path key of None \<Rightarrow> [] | Some cs \<Rightarrow> cs) @ [c]
        in (dict_set (fc_path c) chain (dict_pop key by_path), dict_set (fc_path c) (fc_path c) (dict_set from (fc_path c) went)))
     else
       (let key = (case dict_get went (fc_path c) of None \<Rightarrow> fc_path c | Some k \<Rightarrow> k)
        in (dict_set key ((case dict_get by_path key of None \<Rightarrow> [] | Some cs \<Rightarrow> cs) @ [c]) by_path, dict_set (fc_path c) key went)))"

definition chain_groups :: "file_change_record list \<Rightarrow> (string, file_change_record list) dict" where
  "chain_groups cs = fst (foldl chain_step ([], []) cs)"

definition matches_expected :: "recorder \<Rightarrow> file_bytes \<Rightarrow> string \<Rightarrow> file_change_record \<Rightarrow> bool" where
  "matches_expected rc f path latest = (case within_root path of
       None \<Rightarrow> False
     | Some p \<Rightarrow> (case fc_after latest of
         None \<Rightarrow> f p = None
       | Some sha \<Rightarrow> if sha = [] then f p = None else (case f p of None \<Rightarrow> False | Some data \<Rightarrow> rc_sha rc data = sha)))"

definition leaf_char :: "char \<Rightarrow> bool" where
  "leaf_char c \<longleftrightarrow> in_range 97 122 c \<or> in_range 65 90 c \<or> in_range 48 57 c \<or> c \<in> set ''._:-''"

definition trash_leaf :: "string \<Rightarrow> string" where
  "trash_leaf i = (if i \<noteq> ''.'' \<and> i \<noteq> ''..'' \<and> 1 \<le> length i \<and> length i \<le> 128 \<and> list_all leaf_char i then i else ''invalid'')"

type_synonym undo_state = "file_bytes \<times> place set \<times> session_changes"

definition trash_file :: "string \<Rightarrow> place \<Rightarrow> undo_state \<Rightarrow> undo_state" where
  "trash_file i p st = (case st of (f, ds, s) \<Rightarrow> (case f p of
       None \<Rightarrow> st
     | Some data \<Rightarrow> (f(p := None), ds, s\<lparr>sc_trash := sc_trash s @ [(trash_leaf i, p, data)]\<rparr>)))"

definition change_temp :: "place \<Rightarrow> place" where
  \<comment> \<open>\<open>target.with_suffix(target.suffix + ".change_tmp")\<close>\<close>
  "change_temp p = (fst p, butlast (snd p) @ [last (snd p) @ ''.change_tmp''])"

definition put_back :: "place \<Rightarrow> string \<Rightarrow> undo_state \<Rightarrow> (revert_error + unit) \<times> undo_state" where
  \<comment> \<open>make the directories, write beside the target, rename over it\<close>
  "put_back p data st = (case st of (f, ds, s) \<Rightarrow>
     (let ds1 = ds \<union> set (parents p); tmp = change_temp p
      in if snd p = [] \<or> list_ex (\<lambda>q. f q \<noteq> None) (parents p) then (Inl EscapedOSError, st)
         else if tmp \<in> ds1 then (Inl EscapedOSError, f, ds1, s)
         else if p \<in> ds1 then (Inl EscapedOSError, f(tmp \<mapsto> data), ds1, s)
         else (Inr (), f(tmp := None, p \<mapsto> data), ds1, s)))"

definition restore_change :: "string \<Rightarrow> file_change_record \<Rightarrow> undo_state \<Rightarrow> (revert_error + unit) \<times> undo_state" where
  "restore_change path earliest st = (case within_root path of
       None \<Rightarrow> (Inr (), st)
     | Some current \<Rightarrow>
        (case (if fc_action earliest = FaMove then (case fc_from earliest of None \<Rightarrow> Some current | Some from \<Rightarrow> within_root from) else Some current) of
           None \<Rightarrow> (Inr (), st)
         | Some target \<Rightarrow>
            (case (if fc_action earliest = FaCreate then None else fc_before earliest) of
               None \<Rightarrow> (Inr (), trash_file (fc_id earliest) current st)
             | Some sha \<Rightarrow>
                if sha = [] then (Inr (), trash_file (fc_id earliest) current st)
                else if \<not> hex_name sha then (Inr (), st)
                else (case dict_get (sc_blobs (snd (snd st))) sha of
                    None \<Rightarrow> (Inl (TooLarge [path]), st)
                  | Some data \<Rightarrow> (case put_back target data st of
                      (Inl e, st1) \<Rightarrow> (Inl e, st1)
                    | (Inr _, st1) \<Rightarrow>
                        (Inr (), if fc_action earliest = FaMove \<and> current \<noteq> target then trash_file (fc_id earliest) current st1 else st1))))))"

fun restore_all :: "(string, file_change_record list) dict \<Rightarrow> undo_state \<Rightarrow> (revert_error + unit) \<times> undo_state" where
  "restore_all [] st = (Inr (), st)"
| "restore_all ((path, cs) # rest) st = (case restore_change path (hd cs) st of
       (Inl e, st1) \<Rightarrow> (Inl e, st1)
     | (Inr _, st1) \<Rightarrow> restore_all rest st1)"

definition undo_note :: "string list \<Rightarrow> string" where
  "undo_note paths = ''User undid your changes to '' @ join_on '', '' paths @ ''.''"

definition revert_changes ::
    "recorder \<Rightarrow> string \<Rightarrow> string list \<Rightarrow> string option \<Rightarrow> bool \<Rightarrow> change_world \<Rightarrow> (revert_error + string list) \<times> change_world" where
  "revert_changes rc session wanted request force w = (case safe_session session of
       None \<Rightarrow> (Inl UnsafeSession, w)
     | Some name \<Rightarrow>
        (let s = changes_of w name;
             chosen = include_later (sc_log s) (select_changes (sc_log s) wanted request (sc_reverted s)) (sc_reverted s);
             large = map fc_path (filter fc_too_large chosen);
             groups = chain_groups chosen;
             conflicts = (if force then [] else map fst (filter (\<lambda>(path, cs). \<not> matches_expected rc (ch_files w) path (last cs)) groups))
         in if chosen = [] then (Inr [], w)
            else if large \<noteq> [] then (Inl (TooLarge large), w)
            else if conflicts \<noteq> [] then (Inl (Conflict conflicts), w)
            else (case restore_all groups (ch_files w, ch_dirs w, s) of
                (Inl e, f, ds, s1) \<Rightarrow> (Inl e, w\<lparr>ch_files := f, ch_dirs := ds, ch_sessions := dict_set name s1 (ch_sessions w)\<rparr>)
              | (Inr _, f, ds, s1) \<Rightarrow>
                  (let paths = map fst groups;
                       s2 = s1\<lparr>sc_reverted := sc_reverted s1 \<union> set (concat (map (\<lambda>(_, cs). map fc_id cs) groups)),
                               sc_notes := sc_notes s1 @ (if paths = [] then [] else [undo_note paths])\<rparr>
                   in (Inr paths, w\<lparr>ch_files := f, ch_dirs := ds, ch_sessions := dict_set name s2 (ch_sessions w)\<rparr>)))))"

definition drain_notes :: "string \<Rightarrow> change_world \<Rightarrow> string list \<times> change_world" where
  "drain_notes session w = (case safe_session session of
       None \<Rightarrow> ([], w)
     | Some name \<Rightarrow> (case dict_get (ch_sessions w) name of
         None \<Rightarrow> ([], w)
       | Some s \<Rightarrow> (filter (\<lambda>n. py_strip n \<noteq> []) (sc_notes s), w\<lparr>ch_sessions := dict_set name (s\<lparr>sc_notes := []\<rparr>) (ch_sessions w)\<rparr>)))"

definition delete_changes :: "string \<Rightarrow> change_world \<Rightarrow> change_world" where
  \<comment> \<open>\<open>delete_session\<close>: the directory is compared with the id as it was given\<close>
  "delete_changes session w = (case safe_session session of
       None \<Rightarrow> w
     | Some _ \<Rightarrow> w\<lparr>ch_sessions := filter (\<lambda>(n, _). \<not> (n = session \<or> startswith n (subagent_prefix session))) (ch_sessions w)\<rparr>)"

definition inject_notes :: "string list \<Rightarrow> string option \<Rightarrow> string option" where
  \<comment> \<open>the hook before a turn\<close>
  "inject_notes notes injected =
     (if notes = [] then injected
      else (case injected of
          None \<Rightarrow> Some (join_on [nl] notes)
        | Some t \<Rightarrow> if t = [] then Some (join_on [nl] notes) else Some (py_rstrip t @ [nl, nl] @ join_on [nl] notes)))"

section \<open>Evaluation\<close>

lemma fingerprint_code [code]:
  "fingerprint rc file = (case file of
       None \<Rightarrow> (None, None, True, False)
     | Some data \<Rightarrow> if 2097152 < int (length data) then (Some (rc_sha rc data), None, False, True)
         else (Some (rc_sha rc data), Some data, is_text data, False))"
  by (simp add: fingerprint_def blob_cap_bytes_def split: option.split)

lemma is_text_code [code]:
  "is_text data \<longleftrightarrow> char_of (0 :: nat) \<notin> set (if int (length data) \<le> 8192 then data else take 8192 data) \<and> utf8_valid data"
  by (simp add: is_text_def)

section \<open>A history of recorded edits\<close>

record file_edit =
  ed_request :: string
  ed_call :: string
  ed_stamp :: "string \<times> string"
  ed_path :: string
  ed_place :: place
  ed_content :: "string option"
  ed_hint :: file_action

type_synonym cap_rule = "((string, session_changes) dict \<Rightarrow> bool) \<times> (change_world \<Rightarrow> string list)"

definition edit_step :: "recorder \<Rightarrow> cap_rule \<Rightarrow> string \<Rightarrow> file_edit \<Rightarrow> change_world \<Rightarrow> change_world" where
  \<comment> \<open>a tool that takes a snapshot, leaves one file with new content or none, and records that\<close>
  "edit_step rc cap session e w =
     (let pre = snapshot rc (ch_files w) (ed_path e) (ed_place e) None (\<lambda>_. ed_hint e);
          w1 = w\<lparr>ch_files := (ch_files w)(ed_place e := ed_content e),
            ch_dirs := ch_dirs w \<union> (if ed_content e = None then {} else set (parents (ed_place e)))\<rparr>
      in snd (commit_changes rc session (ed_request e) (ed_call e) (\<lambda>_. ed_stamp e) (fst cap) (snd cap w) [pre] w1))"


definition content_sha :: "recorder \<Rightarrow> string option \<Rightarrow> string option" where
  "content_sha rc = map_option (rc_sha rc)"






definition stores :: "recorder \<Rightarrow> string option \<Rightarrow> (string, string) dict \<Rightarrow> bool" where
  "stores rc file blobs \<longleftrightarrow> (case file of None \<Rightarrow> True | Some data \<Rightarrow> dict_get blobs (rc_sha rc data) = Some data)"

definition recorded :: "recorder \<Rightarrow> file_bytes \<Rightarrow> file_edit \<Rightarrow> file_change_record \<Rightarrow> bool" where
  \<comment> \<open>the record of an edit of files\<close>
  "recorded rc f e c \<longleftrightarrow> fc_id c = fst (ed_stamp e) \<and> fc_request c = ed_request e \<and> fc_path c = ed_path e
     \<and> fc_before c = content_sha rc (f (ed_place e)) \<and> fc_after c = content_sha rc (ed_content e)
     \<and> \<not> fc_too_large c \<and> fc_action c \<noteq> FaMove \<and> (fc_action c = FaCreate \<longrightarrow> fc_before c = None)"

fun log_matches :: "recorder \<Rightarrow> (string, string) dict \<Rightarrow> file_bytes \<Rightarrow> file_edit list \<Rightarrow> file_change_record list \<Rightarrow> bool" where
  "log_matches rc blobs f [] cs \<longleftrightarrow> cs = []"
| "log_matches rc blobs f (e # es) cs \<longleftrightarrow> (case cs of [] \<Rightarrow> False
     | c # cs \<Rightarrow> recorded rc f e c \<and> stores rc (f (ed_place e)) blobs \<and> stores rc (ed_content e) blobs
         \<and> log_matches rc blobs (f(ed_place e := ed_content e)) es cs)"








lemma log_matches_mono:
  "log_matches rc b f es cs \<Longrightarrow> (\<And>g. stores rc g b \<Longrightarrow> stores rc g b') \<Longrightarrow> log_matches rc b' f es cs"
  by (induction es arbitrary: f cs) (auto split: list.splits)


section \<open>Groups without moves\<close>






section \<open>Restoring without moves\<close>




lemma parents_shorter: "q \<in> set (parents p) \<Longrightarrow> length (snd q) < length (snd p)"
  by (auto simp: parents_def)





section \<open>The records of a path\<close>












section \<open>Undoing a request\<close>





definition demo_recorder :: recorder where
  \<comment> \<open>a hash that keeps two contents apart\<close>
  "demo_recorder = \<lparr>rc_sha = (\<lambda>d. replicate 64 (if d = ''one'' then CHR ''1'' else if d = ''two'' then CHR ''2'' else CHR ''0'')),
     rc_stats = (\<lambda>_ _. (0, 0))\<rparr>"

definition doc_place :: "char \<Rightarrow> place" where
  "doc_place c = (RepoRoot, [[c]])"

definition no_cap :: cap_rule where
  "no_cap = (\<lambda>_. False, \<lambda>_. [])"

definition written :: "string \<Rightarrow> string \<Rightarrow> char \<Rightarrow> string option \<Rightarrow> file_action \<Rightarrow> file_edit" where
  "written r i c d h = \<lparr>ed_request = r, ed_call = [], ed_stamp = (i, []), ed_path = [c], ed_place = doc_place c, ed_content = d, ed_hint = h\<rparr>"


definition demo_world :: change_world where
  "demo_world = \<lparr>ch_files = [doc_place (CHR ''a'') \<mapsto> ''one''], ch_dirs = {}, ch_sessions = []\<rparr>"




section \<open>Where moves break an undo\<close>

definition move_step :: "recorder \<Rightarrow> string \<Rightarrow> string \<Rightarrow> string \<Rightarrow> place \<Rightarrow> place \<Rightarrow> change_world \<Rightarrow> change_world" where
  \<comment> \<open>a patch that renames a file, between its snapshot and its record\<close>
  "move_step rc session r i p q w =
     (let pre = snapshot rc (ch_files w) (as_repo_rel q) p (Some (as_repo_rel p)) (\<lambda>_. FaMove);
          w1 = w\<lparr>ch_files := (ch_files w)(p := None, q := ch_files w p)\<rparr>
      in snd (commit_changes rc session r [] (\<lambda>_. (i, [])) (\<lambda>_. False) [] [pre] w1))"

definition demo_step :: "file_edit \<Rightarrow> change_world \<Rightarrow> change_world" where
  "demo_step = edit_step demo_recorder no_cap ''s''"

definition demo_move :: "string \<Rightarrow> char \<Rightarrow> char \<Rightarrow> change_world \<Rightarrow> change_world" where
  "demo_move i c d = move_step demo_recorder ''s'' ''r'' i (doc_place c) (doc_place d)"

definition demo_undo :: "change_world \<Rightarrow> (revert_error + string list) \<times> string option \<times> string option" where
  \<comment> \<open>undo the request, then read the two files\<close>
  "demo_undo w = (case revert_changes demo_recorder ''s'' [] (Some ''r'') False w of
     (res, w') \<Rightarrow> (res, ch_files w' (doc_place (CHR ''a'')), ch_files w' (doc_place (CHR ''b''))))"

text \<open>A file that a request changed and then moved: the old content comes back under the new name, and the old name stays empty.\<close>

lemma undo_leaves_new_name:
  "demo_undo (demo_move ''2'' (CHR ''a'') (CHR ''b'') (demo_step (written ''r'' ''1'' (CHR ''a'') (Some ''two'') FaModify) demo_world))
    = (Inr [''b''], None, Some ''one'')"
  by code_simp

text \<open>A file created under a name that was moved away: the undo is refused although nothing changed since.\<close>

lemma undo_refused_after_reuse:
  "demo_undo (demo_step (written ''r'' ''2'' (CHR ''a'') (Some ''two'') FaCreate) (demo_move ''1'' (CHR ''a'') (CHR ''b'') demo_world))
    = (Inl (Conflict [''b'']), Some ''two'', Some ''one'')"
  by code_simp

text \<open>A move onto a path that the request deleted before: what was deleted does not come back.\<close>

lemma undo_forgets_deleted:
  "demo_undo (demo_move ''2'' (CHR ''a'') (CHR ''b'') (demo_step (written ''r'' ''1'' (CHR ''b'') None FaDelete)
      (demo_world\<lparr>ch_files := (ch_files demo_world)(doc_place (CHR ''b'') \<mapsto> ''two'')\<rparr>)))
    = (Inr [''b''], Some ''one'', None)"
  by code_simp

text \<open>A file that somebody else put at the former name of a moved file is overwritten without a conflict.\<close>

lemma undo_overwrites_source:
  "let w = demo_move ''1'' (CHR ''a'') (CHR ''b'') demo_world
   in demo_undo (w\<lparr>ch_files := (ch_files w)(doc_place (CHR ''a'') \<mapsto> ''new'')\<rparr>) = (Inr [''b''], Some ''one'', None)"
  by code_simp

text \<open>A file of a mounted artifacts root is looked up below the repository: the undo succeeds, changes nothing there and
  writes the old content elsewhere.\<close>

lemma undo_misses_artifacts:
  "let p = (ArtifactsRoot, [''a'']);
       w = edit_step demo_recorder no_cap ''s'' ((written ''r'' ''1'' (CHR ''a'') (Some ''two'') FaModify)
             \<lparr>ed_path := as_repo_rel p, ed_place := p\<rparr>) \<lparr>ch_files = [p \<mapsto> ''one''], ch_dirs = {}, ch_sessions = []\<rparr>;
       (res, w') = revert_changes demo_recorder ''s'' [] (Some ''r'') False w
   in res = Inr [as_repo_rel p] \<and> ch_files w' p = Some ''two'' \<and> ch_files w' (RepoRoot, [''artifacts'', ''a'']) = Some ''one''"
  by code_simp

text \<open>An undo destroys a file that has the name of its temporary file, and one whose path has become a directory fails and
  leaves the temporary file behind.\<close>

lemma undo_destroys_temporary:
  "let w = demo_step (written ''r'' ''1'' (CHR ''a'') (Some ''two'') FaModify) demo_world;
       p = change_temp (doc_place (CHR ''a''));
       w' = snd (revert_changes demo_recorder ''s'' [] (Some ''r'') False (w\<lparr>ch_files := (ch_files w)(p \<mapsto> ''mine'')\<rparr>))
   in ch_files w' (doc_place (CHR ''a'')) = Some ''one'' \<and> ch_files w' p = None"
  by code_simp

lemma undo_into_directory:
  "let w = demo_step (written ''r'' ''1'' (CHR ''a'') None FaDelete) demo_world;
       (res, w') = revert_changes demo_recorder ''s'' [] (Some ''r'') False (w\<lparr>ch_dirs := {doc_place (CHR ''a'')}\<rparr>)
   in res = Inl EscapedOSError \<and> ch_files w' (change_temp (doc_place (CHR ''a''))) = Some ''one''"
  by code_simp

end
