(* ===== verification/Spec2Isabelle.thy ===== *)
theory Spec2Isabelle
  imports Compaction Session_Bus Doom_Loop Todo_List Turn_Locks Goals Permissions Patch Verdict_Mailbox Memory_Outbox Ledger_Worker Computer_Tools Progress_Tracker History_Rewrite Change_Recorder
begin

text \<open>
  Monkeybot is an agent server: a gateway takes prompts from clients, a turn loop sends the stored history to
  a language model, runs the tools the model asks for, and stores what came back; a scheduler starts turns on its own.
  This development models the parts of the Python sources under \<open>src/src/monkeybot\<close> that decide what is sent,
  what may run, what is written, and who owns a turn, and proves what makes them correct. Paths below
  are relative to that directory.

  \<^bold>\<open>How the parts interact.\<close> A prompt is admitted to a session (\<open>Input_Admission\<close>), whose turn lock (\<open>Turn_Locks\<close>)
  keeps two gateway replicas from running one session twice. The turn loop compacts a long history (\<open>Compaction\<close>)
  and turns it into a provider payload (\<open>Transform_Context\<close>, which uses the repair of \<open>Tool_Integrity\<close> on the typed blocks of
  \<open>Content_Blocks\<close>). The tool calls of the reply are cut into chunks (\<open>Tool_Batch\<close>), pass the gate (\<open>Permissions\<close>, with the
  command policy of \<open>Command_Policy\<close>), run against the workspace (\<open>Workspace\<close>, \<open>Text_Edit\<close>, \<open>Patch\<close>, \<open>Todo_List\<close>) and are
  watched by the doom-loop guard (\<open>Doom_Loop\<close>). What happens is broadcast on the session's bus (\<open>Session_Bus\<close>). The
  scheduler claims due loops and goals and finishes their ticks (\<open>Scheduled_Loops\<close>, \<open>Goals\<close>).

  \<^bold>\<open>Conventions.\<close> A class is a \<open>record\<close>, a tagged union a \<open>datatype\<close>, a method that changes its object a function
  that returns the new state; a Python exception is the left side of a sum. Every operation of a component is one
  atomic step: the code holds an asyncio lock, a connection lock or simply does not await inside it. Interleavings
  are lists of steps. Clock reads, random ids, answers of the disk and of the user are arguments. The theories:

  \<^item> \<open>Prelude\<close>, \<open>Json\<close>, \<open>Splice\<close>, \<open>Leases\<close>: strings and their methods, insertion-ordered dictionaries, results, JSON values and
    \<open>json.dumps\<close>; in-place editing against a left-to-right reference; the locales \<open>inv_system\<close> and \<open>mono_system\<close> for a
    component whose operations keep an invariant, and \<open>lease_store\<close> for an exclusive claim with a time limit.
  \<^item> \<open>Content_Blocks\<close> (\<open>core/types/content_blocks.py\<close>, \<open>core/llm/provider.py\<close>): the 13 block variants, their readers and
    writers with every \<open>ValueError\<close>, and messages. Writing and reading is the identity; the locale \<open>serde\<close> carries it.
  \<^item> \<open>Tool_Integrity\<close>, \<open>Transform_Context\<close> (\<open>core/messages\<close>): a history becomes a legal payload, with its content
    kept, and a healthy history is not changed.
  \<^item> \<open>Compaction\<close> (\<open>core/runtime/history_compaction.py\<close>, \<open>core/attachments/text.py\<close>): the split of a history, the
    summary row and truncation. Only the middle is lost, tool pairs stay together, limits are met exactly.
  \<^item> \<open>Input_Admission\<close> (\<open>core/runtime/input_admission.py\<close>, \<open>_drain_follow_up\<close> of \<open>gateway/sse/routes.py\<close>): steers and
    follow-ups. Prompts are conserved, and until the session is torn down deleted ones are never delivered.
  \<^item> \<open>Session_Bus\<close> (\<open>gateway/sse/session_bus.py\<close>, \<open>gateway/sse/sse.py\<close>): numbered events in two lanes, subscribers, questions
    and their futures in explicit stores, and the registry. Subscribers see the reference stream, an answer is
    final, a removed session leaves nobody waiting.
  \<^item> \<open>Tool_Batch\<close>, \<open>Doom_Loop\<close> (\<open>core/runtime\<close>): chunking meets and is determined by its specification; the guard fires
    exactly on runs of the threshold's length, and recovery follows its protocol.
  \<^item> \<open>Shlex\<close>, \<open>Command_Policy\<close> (\<open>core/tools/inspector.py\<close>): Python's lexer and quoting, command lines, the screening
    of shell scripts, allowlists. A denied command is denied anywhere in a script of quoted words that are no bare punctuation.
  \<^item> \<open>Permissions\<close> (\<open>core/tools/permission.py\<close>, the gate of \<open>core/runtime/tool_dispatch.py\<close>): wildcard rules, remembered
    approvals, the chain of inspectors and the partition of a chunk.
  \<^item> \<open>Text_Edit\<close>, \<open>Workspace\<close>, \<open>Patch_Parse\<close>, \<open>Patch\<close> (\<open>core/tools/workspace_service.py\<close>, \<open>core/tools/patch.py\<close>): the edit engine,
    the disk, paging, and patches. Writes are confined, the pages of a file show each of its lines, printing and parsing a patch is the identity,
    applying refines an abstract patch and a failed patch is rolled back.
  \<^item> \<open>Todo_List\<close> (\<open>todo_list\<close>): ids, bounds, at most one item in progress, and the reconnect through the mirror file.
  \<^item> \<open>Turn_Locks\<close>, \<open>Scheduled_Loops\<close>, \<open>Goals\<close> (\<open>core/persistence\<close>, \<open>scheduler/engine.py\<close>, \<open>core/goals/service.py\<close>): SQL tables as
    dictionaries, claims that exclude each other, the invariant of the loop table, retries and races.
  \<^item> \<open>Verdict_Mailbox\<close> (\<open>core/verifier\<close>): what a second model's verdicts do to a running request. Corrections are the
    harness's own texts about live signals, and a finished request stays silent.
  \<^item> \<open>Memory_Outbox\<close> (\<open>core/memory/outbox.py\<close>, \<open>core/memory/writer.py\<close>): the queue of messages for the memory palace and its
    writers. Claims exclude each other, nothing is lost, what is committed is stored, draining gets done.
  \<^item> \<open>Goal_Ledger\<close>, \<open>Ledger_Worker\<close> (\<open>core/persistence/goal_ledger.py\<close>, \<open>core/verifier/ledger.py\<close>): what the user has asked
    for, and the queue of classifications behind it. Unless rows are pruned, dropping messages undoes them; cleared and dropped messages leave no
    rows, text that is not the user's is inert, and every row reads back.
  \<^item> \<open>File_Lock\<close>, \<open>Grant_Store\<close> (\<open>core/tools/grant_store.py\<close>, \<open>computer/approvals.py\<close>): the lock files between processes and
    the two files of remembered approvals. Without reclaimed locks nothing acknowledged is lost, and a damaged grants file is kept.
  \<^item> \<open>Computer_Safety\<close>, \<open>Computer_Tools\<close> (\<open>computer\<close>, \<open>core/tools/path_grant_inspector.py\<close>): what the agent may do on the user's
    own machine. The hard limits hold whatever was approved, every action asks by default, moving and trashing lose nothing,
    a search is exact, and what is opened is no program.
  \<^item> \<open>Progress_Tracker\<close> (\<open>core/verifier/tracker.py\<close>, \<open>core/verifier/match.py\<close>): signals of suspicion from the calls of a
    thread. Each latched signal is backed by the history of its thread, through branches, rewinds and evictions.
  \<^item> \<open>History_Store\<close> (\<open>core/persistence/history.py\<close>, \<open>core/persistence/row_ids.py\<close>): the table of stored messages. What was
    written is read back in order while the clock does not go back, and no row that was written is refused.
  \<^item> \<open>Branches\<close>, \<open>Branch_Navigator\<close>, \<open>History_Rewrite\<close> (\<open>core/persistence/branches.py\<close>, \<open>core/runtime/history_rewrite.py\<close>): edits,
    regenerations, rewinds and truncations on branches of a conversation. Branches stay a tree, an operation changes one
    thread, the navigator's groups are the classes of an equivalence, and what is offered for a row is accepted.
  \<^item> \<open>Change_Recorder\<close> (\<open>core/tools/change_recorder.py\<close>): snapshots around the writes of the agent and undoing them.
    Without moves, and where nothing stands in the way of its temporary files, an undone request leaves what was there
    before it; moves and mounted roots break this.

  \<^bold>\<open>Bounds and choices.\<close> Strings have code points below 256. Integers are unbounded, as in Python. Loops are structural
  recursion or have a termination proof. Fuel stands in two places: the number of page requests in \<open>Workspace\<close>, where the
  property shows how much is enough, and one step per record on the way to the root in \<open>Branch_Navigator\<close>, which is enough
  in a tree of branches by \<open>lineage_step\<close>. A fifth of a context window is an integer division, equal to the
  floating-point product for windows below \<open>2^50\<close>. Code outside the repository is an argument: \<open>json.loads\<close>, the \<open>search\<close> of
  a compiled deny expression, the real path of a place (\<open>ws_escapes\<close>), the disk's answers, the text of a summary.

  \<^bold>\<open>What the code does not do.\<close> Some lemmas show behaviour that contradicts a comment or a plain reading: a finished
  loop can be revived, a comment hides the rest of a script from the policy, the second update of one file in a
  patch undoes the first, overlapping fuzzy matches lose text, a stray tool result splits a pair, a clock that goes back
  reorders a conversation, a session torn down during a drain forgets a deletion, the last turn of a chat is offered for a rewind that is refused, an undo that meets a renamed
  file loses or misplaces content.

  \<^bold>\<open>Not modelled.\<close> The turn loop and the tool executor, which only order calls to the parts above inside asyncio;
  providers, databases other than the SQLite tables, MCP, realtime audio, sandboxes and terminals, which rest on code and
  services outside the repository; HTTP routes, the terminal client, configuration, prompts and observability,
  which are glue or texts; the regression harness, which tests the program.

  \<^bold>\<open>Plan.\<close> Next are transcripts, the subagent protocol, the context budgeter for tool results, and globbing and searching
  in the workspace.
\<close>

end
